(* ===== verification/Prelude.thy ===== *)
theory Prelude
  imports Main "HOL-Library.Word"
begin

text \<open>
  Shared ground of the development: the machine integers of the Go sources, the
  result type of fallible functions, and the generic lemmas on lists, maps and
  integers that the component theories use.

  A Go \<open>int64\<close> is an \<^typ>\<open>int\<close> with the 64-bit wrap-around written out
  (\<open>wrap64\<close>); log sequence numbers and transaction ids, which are unsigned,
  are words. A fallible function returns a sum, \<open>Inl\<close> the error.
\<close>

section \<open>Collections of facts\<close>

named_theorems int64_simps \<open>constants and wrap-around of 64-bit signed integers\<close>
named_theorems go_simps \<open>unfolding of small accessors of the modelled structs\<close>
named_theorems inv_intro \<open>preservation of component invariants\<close>

section \<open>Signed 64-bit integers\<close>

type_synonym int64 = int

definition MinInt64 :: int64 where
  "MinInt64 = - 9223372036854775808"

definition MaxInt64 :: int64 where
  "MaxInt64 = 9223372036854775807"

definition is_int64 :: "int \<Rightarrow> bool" where
  "is_int64 x \<longleftrightarrow> MinInt64 \<le> x \<and> x \<le> MaxInt64"

definition wrap64 :: "int \<Rightarrow> int64" where
  "wrap64 x = (x + 9223372036854775808) mod 18446744073709551616 - 9223372036854775808"

definition add64 :: "int64 \<Rightarrow> int64 \<Rightarrow> int64" where
  "add64 x y = wrap64 (x + y)"

definition sub64 :: "int64 \<Rightarrow> int64 \<Rightarrow> int64" where
  "sub64 x y = wrap64 (x - y)"

lemmas int64_bounds [int64_simps] = MinInt64_def MaxInt64_def is_int64_def

lemma wrap64_id [simp]: "is_int64 x \<Longrightarrow> wrap64 x = x"
  by (simp add: wrap64_def int64_simps)

lemma is_int64_wrap64 [simp]: "is_int64 (wrap64 x)"
proof -
  have "0 \<le> (x + 9223372036854775808) mod 18446744073709551616"
    and "(x + 9223372036854775808) mod 18446744073709551616 < 18446744073709551616"
    by simp_all
  then show ?thesis unfolding wrap64_def int64_simps by linarith
qed

lemma wrap64_wrap64_add [simp]: "wrap64 (wrap64 x + y) = wrap64 (x + y)"
  unfolding wrap64_def by (simp add: mod_simps algebra_simps)

lemma wrap64_add_wrap64 [simp]: "wrap64 (x + wrap64 y) = wrap64 (x + y)"
  using wrap64_wrap64_add [of y x] by (simp add: add.commute)

lemma succ64_exact: "is_int64 x \<Longrightarrow> x \<noteq> MaxInt64 \<Longrightarrow> add64 x 1 = x + 1"
  by (simp add: add64_def int64_simps)

lemma pred64_exact: "is_int64 x \<Longrightarrow> x \<noteq> MinInt64 \<Longrightarrow> sub64 x 1 = x - 1"
  by (simp add: sub64_def int64_simps)

lemma is_int64_Max [simp]: "is_int64 MaxInt64" and is_int64_Min [simp]: "is_int64 MinInt64"
  by (simp_all add: int64_simps)

lemma Min_less_Max64 [simp]:
  "MinInt64 < MaxInt64" "MinInt64 \<le> MaxInt64" "MinInt64 \<noteq> MaxInt64" "MaxInt64 \<noteq> MinInt64"
  by (simp_all add: int64_simps)

lemma is_int64_leD: "is_int64 x \<Longrightarrow> x \<le> MaxInt64" and is_int64_geD: "is_int64 x \<Longrightarrow> MinInt64 \<le> x"
  by (simp_all add: is_int64_def)

section \<open>Results\<close>

definition is_ok :: "'e + 'a \<Rightarrow> bool" where
  "is_ok r \<longleftrightarrow> (case r of Inl _ \<Rightarrow> False | Inr _ \<Rightarrow> True)"

lemma is_ok_simps [simp]: "is_ok (Inr x)" "\<not> is_ok (Inl e)"
  by (simp_all add: is_ok_def)

lemma is_okE: "is_ok r \<Longrightarrow> (\<And>x. r = Inr x \<Longrightarrow> P) \<Longrightarrow> P"
  by (cases r) auto

section \<open>Lists and maps\<close>

lemma find_index_in_set:
  "List.find P xs = Some x \<Longrightarrow> x \<in> set xs \<and> P x"
  by (induction xs) (auto split: if_splits)

lemma find_None_conv: "List.find P xs = None \<longleftrightarrow> (\<forall>x \<in> set xs. \<not> P x)"
  by (induction xs) auto

lemma map_eq_iff_pointwise: "(m = (m' :: 'k \<Rightarrow> 'v option)) \<longleftrightarrow> (\<forall>k. m k = m' k)"
  by auto

lemma sorted_insort_distinct_unique:
  assumes "sorted (map f xs)" "sorted (map f ys)" "distinct (map f xs)" "distinct (map f ys)"
    and "set xs = set ys"
  shows "xs = ys"
proof -
  have "inj_on f (set xs)" using assms(3) by (simp add: distinct_map)
  moreover have "map f xs = map f ys"
    using assms by (intro sorted_distinct_set_unique) simp_all
  ultimately show ?thesis using assms(5) by (metis Un_absorb map_inj_on)
qed

end
