(* ===== verification/Copier_Chunk.thy ===== *)
theory Copier_Chunk
  imports Prelude Complex_Main
begin

text \<open>
  The key-space side of \<open>pkg/copier\<close>: chunks and watermarks (\<open>types.go\<close>), the
  copier's refusal causes with their routing classes (\<open>refusal.go\<close>,
  \<open>pkg/refusal/class.go\<close>), and the keyset chunker (\<open>chunker.go\<close>): its options,
  its cursor, the boundary query, and the timing feedback that sizes the next
  chunk.

  The live table answers the boundary query; it is a parameter \<open>db\<close> of \<open>Next\<close>,
  so every call may see another table. \<open>boundaryQuery\<close> is what the query text
  asks of a table with the given keys. Floating point enters \<open>nextRows\<close> through
  the parameter \<open>rnd\<close>, the rounding of a rational to a \<open>float64\<close>.
\<close>

section \<open>Refusal classes and causes\<close>

datatype Class =
    ClassCapabilityBoundary
  | ClassByDesign
  | ClassEnvironmental
  | ClassInvariantViolation

definition Classes :: "Class list" where
  "Classes = [ClassCapabilityBoundary, ClassByDesign, ClassEnvironmental, ClassInvariantViolation]"

datatype RefusalCause =
    CauseProofEmpty
  | CauseShadowMismatch
  | CauseLockUnproven
  | CauseLockLost
  | CauseLockHeldElsewhere
  | CauseLockUnconfirmed
  | CauseRelationReplaced
  | CauseConversionDrift
  | CauseFrontierBroken
  | CauseChunksInFlight
  | CauseChunkUnknown

definition RefusalCauses :: "RefusalCause list" where
  "RefusalCauses =
     [CauseProofEmpty, CauseShadowMismatch, CauseLockUnproven, CauseLockLost,
      CauseLockHeldElsewhere, CauseLockUnconfirmed, CauseRelationReplaced,
      CauseConversionDrift, CauseFrontierBroken, CauseChunksInFlight, CauseChunkUnknown]"

fun causeInvariant :: "RefusalCause \<Rightarrow> string" where
  "causeInvariant CauseProofEmpty = ''ST-6''"
| "causeInvariant CauseShadowMismatch = ''ST-6''"
| "causeInvariant CauseRelationReplaced = ''ST-6''"
| "causeInvariant CauseChunkUnknown = ''ST-6''"
| "causeInvariant CauseLockUnproven = ''LK-1''"
| "causeInvariant CauseLockLost = ''LK-1''"
| "causeInvariant CauseLockHeldElsewhere = ''LK-1''"
| "causeInvariant CauseLockUnconfirmed = ''LK-1''"
| "causeInvariant CauseConversionDrift = ''CO-9''"
| "causeInvariant CauseFrontierBroken = ''CO-4''"
| "causeInvariant CauseChunksInFlight = ''LK-3''"

fun causeClass :: "RefusalCause \<Rightarrow> Class" where
  "causeClass CauseLockLost = ClassEnvironmental"
| "causeClass CauseLockHeldElsewhere = ClassEnvironmental"
| "causeClass CauseLockUnconfirmed = ClassEnvironmental"
| "causeClass CauseRelationReplaced = ClassEnvironmental"
| "causeClass CauseConversionDrift = ClassEnvironmental"
| "causeClass CauseProofEmpty = ClassInvariantViolation"
| "causeClass CauseShadowMismatch = ClassInvariantViolation"
| "causeClass CauseLockUnproven = ClassInvariantViolation"
| "causeClass CauseFrontierBroken = ClassInvariantViolation"
| "causeClass CauseChunksInFlight = ClassInvariantViolation"
| "causeClass CauseChunkUnknown = ClassInvariantViolation"

text \<open>
  What a fallible copier function can return: a typed refusal, a refused
  option set, a second run, the caller's cancellation, or the server's error
  with its SQLSTATE.
\<close>

datatype copier_error =
    Refusal RefusalCause
  | ErrChunkBounds int64 int64
  | ErrInvalidChunkerOptions
  | ErrInvalidOptions
  | ErrAlreadyRun
  | ContextEnded
  | PgError string

section \<open>Chunks and watermarks\<close>

record Chunk =
  chunk_lower :: int64
  chunk_upper :: int64
  chunk_rows :: int64

definition NewChunk :: "int64 \<Rightarrow> int64 \<Rightarrow> copier_error + Chunk" where
  "NewChunk lower upper =
     (if lower > upper then Inl (ErrChunkBounds lower upper)
      else Inr \<lparr>chunk_lower = lower, chunk_upper = upper, chunk_rows = 0\<rparr>)"

definition chunk_keys :: "Chunk \<Rightarrow> int64 set" where
  "chunk_keys c = {chunk_lower c .. chunk_upper c}"

record Watermark =
  wm_value :: int64
  wm_valid :: bool

definition zeroWatermark :: Watermark where
  "zeroWatermark = \<lparr>wm_value = 0, wm_valid = False\<rparr>"

definition NewWatermark :: "int64 \<Rightarrow> Watermark" where
  "NewWatermark v = \<lparr>wm_value = v, wm_valid = True\<rparr>"

definition Complete :: "Watermark \<Rightarrow> bool" where
  "Complete w \<longleftrightarrow> wm_valid w \<and> wm_value w = MaxInt64"

lemma NewWatermark_sel [simp]: "wm_value (NewWatermark v) = v" "wm_valid (NewWatermark v)"
  by (simp_all add: NewWatermark_def)

lemma zeroWatermark_sel [simp]: "\<not> wm_valid zeroWatermark"
  by (simp add: zeroWatermark_def)

lemma NewWatermark_eq_iff [simp]:
  "w = NewWatermark v \<longleftrightarrow> wm_valid w \<and> wm_value w = v"
  by (cases w) (auto simp: NewWatermark_def)

text \<open>The keys at or below a frontier; an unreached frontier has none.\<close>

definition wm_keys :: "Watermark \<Rightarrow> int64 set" where
  "wm_keys w = (if wm_valid w then {k. MinInt64 \<le> k \<and> k \<le> wm_value w} else {})"

definition wm_ok :: "Watermark \<Rightarrow> bool" where
  "wm_ok w \<longleftrightarrow> (wm_valid w \<longrightarrow> is_int64 (wm_value w))"

definition startAfter :: "Watermark \<Rightarrow> int64 \<times> bool" where
  "startAfter from =
     (if \<not> wm_valid from then (MinInt64, False)
      else if Complete from then (0, True)
      else (add64 (wm_value from) 1, False))"

lemma startAfter_keys:
  assumes "wm_ok w" and "startAfter w = (l, False)"
  shows "is_int64 l" and "wm_keys w = {k. MinInt64 \<le> k \<and> k < l}"
  using assms
  by (auto simp: startAfter_def wm_keys_def wm_ok_def Complete_def succ64_exact
      is_int64_def split: if_splits)

lemma startAfter_done:
  assumes "startAfter w = (l, True)"
  shows "wm_keys w = {k. is_int64 k}"
  using assms
  by (auto simp: startAfter_def wm_keys_def Complete_def is_int64_def split: if_splits)

section \<open>Chunker options\<close>

definition DefaultTargetChunkTime :: int64 where "DefaultTargetChunkTime = 500000000"
definition DefaultInitialChunkRows :: int64 where "DefaultInitialChunkRows = 1000"
definition DefaultMinChunkRows :: int64 where "DefaultMinChunkRows = 100"
definition DefaultMaxChunkRows :: int64 where "DefaultMaxChunkRows = 100000"

record ChunkerOptions =
  TargetChunkTime :: int64
  InitialRows :: int64
  MinRows :: int64
  MaxRows :: int64

definition fitMinRows :: "ChunkerOptions \<Rightarrow> ChunkerOptions" where
  "fitMinRows opts =
     (if MinRows opts = 0
      then let m = DefaultMinChunkRows;
               m = (if MaxRows opts > 0 then min m (MaxRows opts) else m);
               m = (if InitialRows opts > 0 then min m (InitialRows opts) else m)
           in opts\<lparr>MinRows := m\<rparr>
      else opts)"

definition fitMaxRows :: "ChunkerOptions \<Rightarrow> ChunkerOptions" where
  "fitMaxRows opts =
     (if MaxRows opts = 0
      then let m = max DefaultMaxChunkRows (MinRows opts);
               m = (if InitialRows opts > 0 then max m (InitialRows opts) else m)
           in opts\<lparr>MaxRows := m\<rparr>
      else opts)"

definition fitInitialRows :: "ChunkerOptions \<Rightarrow> ChunkerOptions" where
  "fitInitialRows opts =
     (if InitialRows opts = 0
      then let m = DefaultInitialChunkRows;
               m = (if MinRows opts > 0 then max m (MinRows opts) else m);
               m = (if MaxRows opts > 0 then min m (MaxRows opts) else m)
           in opts\<lparr>InitialRows := m\<rparr>
      else opts)"

definition chunkerWithDefaults :: "ChunkerOptions \<Rightarrow> ChunkerOptions" where
  "chunkerWithDefaults o0 =
     (let opts = (if TargetChunkTime o0 = 0 then o0\<lparr>TargetChunkTime := DefaultTargetChunkTime\<rparr> else o0)
      in fitInitialRows (fitMaxRows (fitMinRows opts)))"

definition chunkerValidate :: "ChunkerOptions \<Rightarrow> copier_error + unit" where
  "chunkerValidate opts =
     (if TargetChunkTime opts \<le> 0 then Inl ErrInvalidChunkerOptions
      else if \<exists>v \<in> set [InitialRows opts, MinRows opts, MaxRows opts]. v \<le> 0
        then Inl ErrInvalidChunkerOptions
      else if MinRows opts > MaxRows opts then Inl ErrInvalidChunkerOptions
      else if InitialRows opts < MinRows opts \<or> InitialRows opts > MaxRows opts
        then Inl ErrInvalidChunkerOptions
      else Inr ())"

lemmas fit_defs = fitMinRows_def fitMaxRows_def fitInitialRows_def
  DefaultTargetChunkTime_def DefaultInitialChunkRows_def DefaultMinChunkRows_def
  DefaultMaxChunkRows_def

definition opts_ok :: "ChunkerOptions \<Rightarrow> bool" where
  "opts_ok opts \<longleftrightarrow> 0 < TargetChunkTime opts \<and> 0 < MinRows opts \<and>
     MinRows opts \<le> InitialRows opts \<and> InitialRows opts \<le> MaxRows opts"

lemma chunkerValidate_ok: "chunkerValidate opts = Inr () \<longleftrightarrow> opts_ok opts"
  by (auto simp: chunkerValidate_def opts_ok_def)

section \<open>The chunker\<close>

record CopySwapTarget =
  target_database :: string
  target_schema :: string
  target_table :: string
  target_pkColumn :: string
  target_ownerRole :: string
  target_oid :: "32 word"
  target_decodesWAL :: bool

record Chunker =
  chunker_target :: CopySwapTarget
  chunker_opts :: ChunkerOptions
  chunker_next :: int64
  chunker_rows :: int64
  chunker_done :: bool

definition NewChunker ::
  "CopySwapTarget \<Rightarrow> Watermark \<Rightarrow> ChunkerOptions \<Rightarrow> copier_error + Chunker" where
  "NewChunker target from opts =
     (if target_table target = '''' then Inl (Refusal CauseProofEmpty)
      else let opts = chunkerWithDefaults opts in
        (case chunkerValidate opts of
           Inl e \<Rightarrow> Inl e
         | Inr _ \<Rightarrow>
             (let (lower, done) = startAfter from in
              Inr \<lparr>chunker_target = target, chunker_opts = opts, chunker_next = lower,
                   chunker_rows = InitialRows opts, chunker_done = done\<rparr>)))"

definition Cut :: "Chunker \<Rightarrow> Watermark" where
  "Cut c =
     (if chunker_done c then NewWatermark MaxInt64
      else if chunker_next c = MinInt64 then zeroWatermark
      else NewWatermark (sub64 (chunker_next c) 1))"

text \<open>The server's answer to the boundary query, as \<open>Scan\<close> reports it.\<close>

datatype boundary_answer =
    BoundaryKey int64
  | BoundaryNull
  | BoundaryNoRows
  | BoundaryError copier_error

type_synonym boundary_db = "int64 \<Rightarrow> int64 \<Rightarrow> boundary_answer"

text \<open>
  What the statement of \<open>boundarySQL\<close> asks of a table whose key column holds
  \<open>keys\<close>: the keys at or above \<open>$1\<close> in ascending order, the one at offset
  \<open>$2\<close>. The server refuses a negative offset with SQLSTATE 2201X.
\<close>

definition boundaryQuery :: "int64 list \<Rightarrow> boundary_db" where
  "boundaryQuery keys lower offset =
     (let ks = sort (filter (\<lambda>k. k \<ge> lower) keys)
      in if offset < 0 then BoundaryError (PgError ''2201X'')
         else if nat offset < length ks then BoundaryKey (ks ! nat offset)
         else BoundaryNoRows)"

definition boundary :: "boundary_db \<Rightarrow> int64 \<Rightarrow> int64 \<Rightarrow> copier_error + int64" where
  "boundary db lower rows =
     (case db lower (sub64 rows 1) of
        BoundaryNoRows \<Rightarrow> Inr MaxInt64
      | BoundaryError e \<Rightarrow> Inl e
      | BoundaryNull \<Rightarrow> Inl (Refusal CauseRelationReplaced)
      | BoundaryKey upper \<Rightarrow> Inr upper)"

definition chunkerAdvance :: "Chunker \<Rightarrow> int64 \<Rightarrow> Chunker" where
  "chunkerAdvance c upper =
     (if upper = MaxInt64 then c\<lparr>chunker_done := True\<rparr>
      else c\<lparr>chunker_next := add64 upper 1\<rparr>)"

definition Next :: "boundary_db \<Rightarrow> Chunker \<Rightarrow> copier_error + (Chunk option \<times> Chunker)" where
  "Next db c =
     (if chunker_done c then Inr (None, c)
      else let lower = chunker_next c; rows = chunker_rows c in
        (case boundary db lower rows of
           Inl e \<Rightarrow> Inl e
         | Inr upper \<Rightarrow>
             (case NewChunk lower upper of
                Inl e \<Rightarrow> Inl (Refusal CauseFrontierBroken)
              | Inr chunk \<Rightarrow>
                  Inr (Some (chunk\<lparr>chunk_rows := rows\<rparr>), chunkerAdvance c upper))))"

definition maxGrowthPerStep :: rat where "maxGrowthPerStep = 2"
definition maxShrinkPerStep :: rat where "maxShrinkPerStep = 1 / 2"

definition mathRound :: "rat \<Rightarrow> int" where
  "mathRound x = (if x < 0 then - \<lfloor>1 / 2 - x\<rfloor> else \<lfloor>x + 1 / 2\<rfloor>)"

definition nextRows :: "(rat \<Rightarrow> rat) \<Rightarrow> int64 \<Rightarrow> int64 \<Rightarrow> ChunkerOptions \<Rightarrow> int64" where
  "nextRows rnd rows elapsed opts =
     (let ratio = (if elapsed > 0
                   then rnd (rnd (of_int (TargetChunkTime opts)) / rnd (of_int elapsed))
                   else maxGrowthPerStep);
          ratio = min maxGrowthPerStep (max maxShrinkPerStep ratio);
          scaled = rnd (rnd (of_int rows) * ratio)
      in if scaled \<ge> rnd (of_int (MaxRows opts)) then MaxRows opts
         else if scaled \<le> rnd (of_int (MinRows opts)) then MinRows opts
         else mathRound scaled)"

definition Feedback ::
  "(rat \<Rightarrow> rat) \<Rightarrow> Chunker \<Rightarrow> Chunk \<Rightarrow> int64 \<Rightarrow> copier_error + Chunker" where
  "Feedback rnd c chunk elapsed =
     (if chunk_rows chunk \<le> 0 then Inl (Refusal CauseChunkUnknown)
      else Inr (c\<lparr>chunker_rows := nextRows rnd (chunk_rows chunk) elapsed (chunker_opts c)\<rparr>))"

section \<open>Options\<close>

text \<open>
  The defaults are fitted around whatever the caller set: unless the caller's
  own values are themselves contradictory, the completed options validate.
\<close>

definition opts_given_ok :: "ChunkerOptions \<Rightarrow> bool" where
  "opts_given_ok o0 \<longleftrightarrow>
     0 \<le> TargetChunkTime o0 \<and> 0 \<le> InitialRows o0 \<and> 0 \<le> MinRows o0 \<and> 0 \<le> MaxRows o0 \<and>
     (MinRows o0 \<noteq> 0 \<and> MaxRows o0 \<noteq> 0 \<longrightarrow> MinRows o0 \<le> MaxRows o0) \<and>
     (InitialRows o0 \<noteq> 0 \<and> MinRows o0 \<noteq> 0 \<longrightarrow> MinRows o0 \<le> InitialRows o0) \<and>
     (InitialRows o0 \<noteq> 0 \<and> MaxRows o0 \<noteq> 0 \<longrightarrow> InitialRows o0 \<le> MaxRows o0)"

lemma fitMinRows_given:
  "opts_given_ok (fitMinRows opts) \<longleftrightarrow> opts_given_ok opts" "MinRows (fitMinRows opts) \<noteq> 0"
  by (auto simp: opts_given_ok_def fitMinRows_def DefaultMinChunkRows_def Let_def)

lemma fitMaxRows_given:
  assumes "MinRows opts \<noteq> 0"
  shows "opts_given_ok (fitMaxRows opts) \<longleftrightarrow> opts_given_ok opts"
    "MaxRows (fitMaxRows opts) \<noteq> 0" "MinRows (fitMaxRows opts) = MinRows opts"
  using assms by (auto simp: opts_given_ok_def fitMaxRows_def DefaultMaxChunkRows_def Let_def)

lemma fitInitialRows_given:
  assumes "MinRows opts \<noteq> 0" "MaxRows opts \<noteq> 0"
  shows "opts_ok (fitInitialRows opts) \<longleftrightarrow> opts_given_ok opts \<and> TargetChunkTime opts \<noteq> 0"
  using assms
  by (auto simp: opts_given_ok_def opts_ok_def fitInitialRows_def DefaultInitialChunkRows_def Let_def)

lemma chunkerWithDefaults_ok:
  "opts_ok (chunkerWithDefaults o0) \<longleftrightarrow> opts_given_ok o0"
proof -
  define o1 where
    "o1 = (if TargetChunkTime o0 = 0 then o0\<lparr>TargetChunkTime := DefaultTargetChunkTime\<rparr> else o0)"
  have "opts_given_ok o1 \<longleftrightarrow> opts_given_ok o0" "TargetChunkTime o1 \<noteq> 0"
    by (simp_all add: o1_def opts_given_ok_def DefaultTargetChunkTime_def)
  moreover have "TargetChunkTime (fitMaxRows (fitMinRows o1)) = TargetChunkTime o1"
    by (simp add: fitMinRows_def fitMaxRows_def Let_def)
  ultimately show ?thesis
    by (simp add: chunkerWithDefaults_def o1_def [symmetric] fitInitialRows_given
        fitMaxRows_given fitMinRows_given)
qed

section \<open>The cursor\<close>

definition chunker_inv :: "Chunker \<Rightarrow> bool" where
  "chunker_inv c \<longleftrightarrow> (\<not> chunker_done c \<longrightarrow> is_int64 (chunker_next c))"

text \<open>The size the next chunk is cut to stays inside the configured bounds.\<close>

definition sizing_inv :: "Chunker \<Rightarrow> bool" where
  "sizing_inv c \<longleftrightarrow> opts_ok (chunker_opts c) \<and>
     MinRows (chunker_opts c) \<le> chunker_rows c \<and> chunker_rows c \<le> MaxRows (chunker_opts c)"

text \<open>The keys the cursor has passed: those in chunks already cut, or resumed past.\<close>

definition cut_keys :: "Chunker \<Rightarrow> int64 set" where
  "cut_keys c = (if chunker_done c then {k. is_int64 k} else {k. MinInt64 \<le> k \<and> k < chunker_next c})"

lemma Cut_keys: "chunker_inv c \<Longrightarrow> wm_keys (Cut c) = cut_keys c"
  by (auto simp: Cut_def wm_keys_def cut_keys_def chunker_inv_def pred64_exact is_int64_def)

text \<open>A boundary answer is sound when it is a key of the column's type at or above the bound asked for.\<close>

definition db_ok :: "boundary_db \<Rightarrow> bool" where
  "db_ok db \<longleftrightarrow> (\<forall>lower offset upper. db lower offset = BoundaryKey upper \<longrightarrow> is_int64 upper \<and> lower \<le> upper)"

lemma boundaryQuery_db_ok:
  assumes "\<forall>k \<in> set keys. is_int64 k"
  shows "db_ok (boundaryQuery keys)"
proof -
  have "is_int64 u \<and> l \<le> u" if "boundaryQuery keys l i = BoundaryKey u" for l i u
  proof -
    from that have "nat i < length (sort (filter (\<lambda>k. k \<ge> l) keys))"
      and "u = sort (filter (\<lambda>k. k \<ge> l) keys) ! nat i"
      by (auto simp: boundaryQuery_def Let_def split: if_splits)
    then have "u \<in> set (filter (\<lambda>k. k \<ge> l) keys)"
      by (metis nth_mem set_sort)
    with assms show ?thesis by simp
  qed
  then show ?thesis by (simp add: db_ok_def)
qed

lemma NewChunker_inv:
  assumes "NewChunker target from opts = Inr c" and "wm_ok from"
  shows "chunker_inv c" and "cut_keys c = wm_keys from" and "sizing_inv c"
proof -
  obtain l d where s: "startAfter from = (l, d)" by fastforce
  from assms(1) s have c: "opts_ok (chunkerWithDefaults opts)" "chunker_next c = l" "chunker_done c = d"
      "chunker_rows c = InitialRows (chunkerWithDefaults opts)" "chunker_opts c = chunkerWithDefaults opts"
    by (auto simp: NewChunker_def Let_def chunkerValidate_ok split: if_splits sum.splits)
  then show "chunker_inv c" and "sizing_inv c"
    using startAfter_keys(1) [OF assms(2)] s by (cases d; simp add: chunker_inv_def sizing_inv_def opts_ok_def)+
  show "cut_keys c = wm_keys from"
    using c s startAfter_keys [OF assms(2)] startAfter_done by (cases d) (auto simp: cut_keys_def)
qed

lemma boundary_ok:
  assumes "db_ok db" "is_int64 lower" "boundary db lower rows = Inr upper"
  shows "is_int64 upper \<and> lower \<le> upper"
  using assms by (auto simp: boundary_def db_ok_def is_int64_leD split: boundary_answer.splits)

lemma Next_cut:
  assumes "chunker_inv c" "db_ok db" "Next db c = Inr (Some chunk, c')"
  shows "chunker_inv c'"
    and "chunk_lower chunk \<le> chunk_upper chunk" "chunk_rows chunk = chunker_rows c"
    and "chunk_lower chunk = chunker_next c" "is_int64 (chunk_lower chunk)" "is_int64 (chunk_upper chunk)"
    and "\<not> chunker_done c"
    and "cut_keys c' = cut_keys c \<union> chunk_keys chunk"
    and "chunk_keys chunk \<inter> cut_keys c = {}"
    and "chunker_opts c' = chunker_opts c" "chunker_rows c' = chunker_rows c"
proof -
  let ?l = "chunker_next c"
  from assms(3) obtain u where nd: "\<not> chunker_done c" and b: "boundary db ?l (chunker_rows c) = Inr u"
      and le: "?l \<le> u" and c': "c' = chunkerAdvance c u"
      and ch: "chunk = \<lparr>chunk_lower = ?l, chunk_upper = u, chunk_rows = chunker_rows c\<rparr>"
    by (auto simp: Next_def Let_def NewChunk_def split: if_splits sum.splits)
  have l: "is_int64 ?l" using assms(1) nd by (simp add: chunker_inv_def)
  have u: "is_int64 u" using boundary_ok [OF assms(2) l b] by simp
  have rest: "is_int64 (add64 u 1)" by (simp add: add64_def)
  show "chunker_inv c'" "chunk_lower chunk \<le> chunk_upper chunk" "chunk_rows chunk = chunker_rows c"
    "chunk_lower chunk = ?l" "is_int64 (chunk_lower chunk)" "is_int64 (chunk_upper chunk)" "\<not> chunker_done c"
    "chunker_opts c' = chunker_opts c" "chunker_rows c' = chunker_rows c"
    using assms(1) nd le l u rest by (auto simp: ch c' chunkerAdvance_def chunker_inv_def)
  show "cut_keys c' = cut_keys c \<union> chunk_keys chunk"
    using nd le l u
    by (auto simp: ch c' chunkerAdvance_def cut_keys_def chunk_keys_def succ64_exact is_int64_def)
  show "chunk_keys chunk \<inter> cut_keys c = {}"
    using nd by (auto simp: ch cut_keys_def chunk_keys_def)
qed

lemma Next_none:
  "Next db c = Inr (None, c') \<longleftrightarrow> chunker_done c \<and> c' = c"
  by (auto simp: Next_def Let_def split: sum.splits)

text \<open>With a sound boundary answer \<open>Next\<close> never breaks the frontier: it fails only when the query does.\<close>

lemma Next_error:
  assumes "chunker_inv c" "db_ok db" "Next db c = Inl e"
  shows "db (chunker_next c) (sub64 (chunker_rows c) 1) \<in> {BoundaryNull, BoundaryError e}"
proof -
  from assms(3) have nd: "\<not> chunker_done c" by (auto simp: Next_def)
  then have l: "is_int64 (chunker_next c)" using assms(1) by (simp add: chunker_inv_def)
  show ?thesis
    using assms(2,3) nd is_int64_leD [OF l]
    by (fastforce simp: Next_def Let_def boundary_def NewChunk_def db_ok_def
        split: boundary_answer.splits sum.splits if_splits)
qed

section \<open>A run of the chunker\<close>

text \<open>
  The workers drive one chunker: each cut sees the live table as it then is,
  and feedback for chunks already copied arrives between the cuts in any order.
\<close>

datatype chunker_event = CutChunk boundary_db | FeedbackChunk Chunk int64

fun event_db_ok :: "chunker_event \<Rightarrow> bool" where
  "event_db_ok (CutChunk db) = db_ok db"
| "event_db_ok (FeedbackChunk chunk elapsed) = True"

fun chunkerRun ::
  "(rat \<Rightarrow> rat) \<Rightarrow> chunker_event list \<Rightarrow> Chunker \<Rightarrow> copier_error + (Chunk list \<times> Chunker)" where
  "chunkerRun rnd [] c = Inr ([], c)"
| "chunkerRun rnd (CutChunk db # es) c =
     (case Next db c of
        Inl e \<Rightarrow> Inl e
      | Inr (got, c') \<Rightarrow>
          (case chunkerRun rnd es c' of
             Inl e \<Rightarrow> Inl e
           | Inr (chunks, c'') \<Rightarrow>
               Inr (case got of None \<Rightarrow> chunks | Some chunk \<Rightarrow> chunk # chunks, c'')))"
| "chunkerRun rnd (FeedbackChunk chunk elapsed # es) c =
     (case Feedback rnd c chunk elapsed of
        Inl e \<Rightarrow> Inl e
      | Inr c' \<Rightarrow> chunkerRun rnd es c')"

definition covers :: "int64 set \<Rightarrow> Chunk list \<Rightarrow> int64 set \<Rightarrow> bool" where
  "covers A chunks B \<longleftrightarrow>
     B = A \<union> (\<Union>ch \<in> set chunks. chunk_keys ch) \<and>
     (\<forall>ch \<in> set chunks. chunk_keys ch \<inter> A = {} \<and> chunk_keys ch \<noteq> {}) \<and>
     pairwise (\<lambda>a b. chunk_keys a \<inter> chunk_keys b = {}) (set chunks) \<and> distinct chunks"

lemma covers_Cons:
  assumes "covers (A \<union> chunk_keys ch) chunks B" "chunk_keys ch \<inter> A = {}" "chunk_keys ch \<noteq> {}"
  shows "covers A (ch # chunks) B"
proof -
  have "ch \<notin> set chunks" using assms by (auto simp: covers_def)
  moreover have "\<forall>c \<in> set chunks. chunk_keys ch \<inter> chunk_keys c = {}"
    using assms by (fastforce simp: covers_def)
  ultimately show ?thesis using assms by (auto simp: covers_def pairwise_insert)
qed

lemma Feedback_cursor:
  assumes "Feedback rnd c chunk elapsed = Inr c'"
  shows "chunker_next c' = chunker_next c" "chunker_done c' = chunker_done c"
    "cut_keys c' = cut_keys c" "chunker_inv c' = chunker_inv c" "chunker_opts c' = chunker_opts c"
  using assms by (auto simp: Feedback_def cut_keys_def chunker_inv_def split: if_splits)

lemma chunkerRun_covers:
  assumes "chunker_inv c" "\<forall>e \<in> set es. event_db_ok e" "chunkerRun rnd es c = Inr (chunks, c')"
  shows "chunker_inv c' \<and> covers (cut_keys c) chunks (cut_keys c')"
  using assms
proof (induction es arbitrary: c chunks)
  case Nil
  then show ?case by (simp add: covers_def)
next
  case (Cons e es)
  show ?case
  proof (cases e)
    case (FeedbackChunk ch t)
    with Cons.prems obtain c1 where c1: "Feedback rnd c ch t = Inr c1" "chunkerRun rnd es c1 = Inr (chunks, c')"
      by (auto split: sum.splits)
    with Cons.IH [of c1 chunks] Cons.prems show ?thesis by (simp add: Feedback_cursor [OF c1(1)])
  next
    case (CutChunk db)
    with Cons.prems(3) obtain got c1 cs where n: "Next db c = Inr (got, c1)"
        and r: "chunkerRun rnd es c1 = Inr (cs, c')"
        and chunks: "chunks = (case got of None \<Rightarrow> cs | Some chunk \<Rightarrow> chunk # cs)"
      by (auto split: sum.splits)
    show ?thesis
    proof (cases got)
      case None
      with n r chunks Cons.IH [of c1 cs] Cons.prems show ?thesis by (simp add: Next_none)
    next
      case (Some ch)
      have db: "db_ok db" using Cons.prems(2) CutChunk by simp
      note nc = Next_cut [OF Cons.prems(1) db n [unfolded Some]]
      have "chunker_inv c' \<and> covers (cut_keys c1) cs (cut_keys c')"
        using Cons.IH [OF nc(1) _ r] Cons.prems(2) by simp
      then show ?thesis
        using nc(2,8,9) covers_Cons [of "cut_keys c" ch cs "cut_keys c'"] chunks Some
        by (auto simp: chunk_keys_def)
    qed
  qed
qed

section \<open>Sizing\<close>

lemma filter_le_nth_sorted:
  assumes "sorted ks" "distinct ks" "i < length ks"
  shows "{k \<in> set ks. k \<le> ks ! i} = set (take (Suc i) ks)"
proof -
  have "k \<in> set (take (Suc i) ks) \<longleftrightarrow> k \<in> set ks \<and> k \<le> ks ! i" for k
  proof
    assume "k \<in> set (take (Suc i) ks)"
    then obtain j where "j < Suc i" "j < length ks" "k = ks ! j" by (auto simp: in_set_conv_nth)
    with assms show "k \<in> set ks \<and> k \<le> ks ! i" by (auto intro: sorted_nth_mono)
  next
    assume "k \<in> set ks \<and> k \<le> ks ! i"
    then obtain j where j: "j < length ks" "k = ks ! j" "ks ! j \<le> ks ! i" by (auto simp: in_set_conv_nth)
    have "j \<le> i"
    proof (rule ccontr)
      assume "\<not> j \<le> i"
      then have "ks ! i \<le> ks ! j" "ks ! i \<noteq> ks ! j"
        using assms j by (auto simp: sorted_nth_mono nth_eq_iff_index_eq)
      with j(3) show False by simp
    qed
    with j assms show "k \<in> set (take (Suc i) ks)"
      by (metis in_set_conv_nth le_imp_less_Suc length_take min_less_iff_conj nth_take)
  qed
  then show ?thesis by auto
qed

lemma Next_boundaryQuery:
  assumes "sizing_inv c" "is_int64 (chunker_rows c)" "Next (boundaryQuery keys) c = Inr (Some ch, c')"
    and "distinct keys"
  defines "ks \<equiv> sort (filter (\<lambda>k. chunker_next c \<le> k) keys)"
    and "i \<equiv> nat (chunker_rows c - 1)"
  shows "chunk_lower ch = chunker_next c"
    and "i < length ks \<Longrightarrow> chunk_upper ch = ks ! i"
    and "\<not> i < length ks \<Longrightarrow> chunk_upper ch = MaxInt64"
    and "c' = chunkerAdvance c (chunk_upper ch)"
    and "int i = chunker_rows c - 1"
proof -
  have r: "1 \<le> chunker_rows c" using assms(1) by (simp add: sizing_inv_def opts_ok_def)
  then have off: "sub64 (chunker_rows c) 1 = chunker_rows c - 1"
    using assms(2) by (intro pred64_exact) (auto simp: int64_simps)
  show "int i = chunker_rows c - 1" using r by (simp add: i_def)
  show "chunk_lower ch = chunker_next c"
    "i < length ks \<Longrightarrow> chunk_upper ch = ks ! i" "\<not> i < length ks \<Longrightarrow> chunk_upper ch = MaxInt64"
    "c' = chunkerAdvance c (chunk_upper ch)"
    using assms(3) r
    by (auto simp: Next_def Let_def boundary_def off boundaryQuery_def NewChunk_def ks_def i_def
        split: if_splits sum.splits)
qed

lemma Next_sizing:
  assumes "sizing_inv c" "is_int64 (chunker_rows c)" "Next (boundaryQuery keys) c = Inr (Some ch, c')"
    and "distinct keys" "\<forall>k \<in> set keys. is_int64 k"
  shows "int (card (set keys \<inter> chunk_keys ch)) \<le> chunker_rows c"
    and "chunk_upper ch \<noteq> MaxInt64 \<Longrightarrow> int (card (set keys \<inter> chunk_keys ch)) = chunker_rows c"
proof -
  define ks where "ks = sort (filter (\<lambda>k. chunker_next c \<le> k) keys)"
  define i where "i = nat (chunker_rows c - 1)"
  note nb = Next_boundaryQuery [OF assms(1-4), folded ks_def i_def]
  have ks: "sorted ks" "distinct ks" "set ks = {k \<in> set keys. chunker_next c \<le> k}"
    using assms(4) by (auto simp: ks_def)
  have eq: "set keys \<inter> chunk_keys ch = {k \<in> set ks. k \<le> chunk_upper ch}"
    by (auto simp: chunk_keys_def nb(1) ks(3))
  have full: "int (card (set keys \<inter> chunk_keys ch)) = chunker_rows c" if "i < length ks"
    using that nb(2) [OF that] nb(5) ks filter_le_nth_sorted [OF ks(1,2) that]
    by (simp add: eq distinct_card)
  show "int (card (set keys \<inter> chunk_keys ch)) \<le> chunker_rows c"
  proof (cases "i < length ks")
    case True
    then show ?thesis using full by simp
  next
    case False
    have "card {k \<in> set ks. k \<le> chunk_upper ch} \<le> length ks"
      by (metis (no_types, lifting) List.finite_set card_length card_mono le_trans mem_Collect_eq subsetI)
    then show ?thesis unfolding eq using False nb(5) by linarith
  qed
  show "int (card (set keys \<inter> chunk_keys ch)) = chunker_rows c" if "chunk_upper ch \<noteq> MaxInt64"
    using that nb(3) full by blast
qed

section \<open>Feedback\<close>

text \<open>
  The two facts of IEEE rounding the sizing relies on: it is monotone, and a
  rounded value is its own rounding.
\<close>

definition rounding :: "(rat \<Rightarrow> rat) \<Rightarrow> bool" where
  "rounding rnd \<longleftrightarrow> (\<forall>x y. x \<le> y \<longrightarrow> rnd x \<le> rnd y) \<and> (\<forall>x. rnd (rnd x) = rnd x)"

lemma rounding_less_of_int:
  assumes "rounding rnd"
  shows "rnd x < rnd (of_int m) \<Longrightarrow> rnd x < of_int m" "rnd (of_int m) < rnd x \<Longrightarrow> of_int m < rnd x"
  using assms unfolding rounding_def by (metis not_less)+

lemma mathRound_bounds:
  assumes "of_int a < x" "x < of_int b" "0 \<le> a"
  shows "a \<le> mathRound x" "mathRound x \<le> b"
proof -
  have "0 < x" using assms by (smt (verit) of_int_0_le_iff order_le_less_trans)
  then show "a \<le> mathRound x" "mathRound x \<le> b"
    using assms by (simp_all add: mathRound_def le_floor_iff floor_le_iff)
qed

lemma nextRows_bounds:
  assumes "rounding rnd" "opts_ok opts"
  shows "MinRows opts \<le> nextRows rnd rows elapsed opts" "nextRows rnd rows elapsed opts \<le> MaxRows opts"
proof -
  have clamp: "MinRows opts \<le> (if rnd x \<ge> rnd (of_int (MaxRows opts)) then MaxRows opts
        else if rnd x \<le> rnd (of_int (MinRows opts)) then MinRows opts else mathRound (rnd x)) \<and>
      (if rnd x \<ge> rnd (of_int (MaxRows opts)) then MaxRows opts
        else if rnd x \<le> rnd (of_int (MinRows opts)) then MinRows opts else mathRound (rnd x)) \<le> MaxRows opts"
    for x
    using assms(2) rounding_less_of_int [OF assms(1), where x = x]
      mathRound_bounds [of "MinRows opts" "rnd x" "MaxRows opts"]
    by (simp add: opts_ok_def not_le)
  then show "MinRows opts \<le> nextRows rnd rows elapsed opts" "nextRows rnd rows elapsed opts \<le> MaxRows opts"
    by (simp_all only: nextRows_def Let_def)
qed

lemma Feedback_sizing:
  assumes "rounding rnd" "sizing_inv c" "Feedback rnd c chunk elapsed = Inr c'"
  shows "sizing_inv c'"
  using assms nextRows_bounds [OF assms(1)]
  by (auto simp: Feedback_def sizing_inv_def split: if_splits)

section \<open>Progress over a table at rest\<close>

definition opts_typed :: "ChunkerOptions \<Rightarrow> bool" where
  "opts_typed opts \<longleftrightarrow> is_int64 (InitialRows opts) \<and> is_int64 (MinRows opts) \<and> is_int64 (MaxRows opts)"

lemma is_int64_min_max [simp]:
  "is_int64 a \<Longrightarrow> is_int64 b \<Longrightarrow> is_int64 (min a b)" "is_int64 a \<Longrightarrow> is_int64 b \<Longrightarrow> is_int64 (max a b)"
  by (simp_all add: min_def max_def)

lemma is_int64_defaults [simp]:
  "is_int64 DefaultMinChunkRows" "is_int64 DefaultMaxChunkRows" "is_int64 DefaultInitialChunkRows"
  by (simp_all add: fit_defs int64_simps)

lemma chunkerWithDefaults_typed:
  assumes "opts_typed opts"
  shows "opts_typed (chunkerWithDefaults opts)"
proof -
  have "opts_typed (fitMinRows x)" "opts_typed (fitMaxRows x)" "opts_typed (fitInitialRows x)"
    if "opts_typed x" for x
    using that by (simp_all add: opts_typed_def fitMinRows_def fitMaxRows_def fitInitialRows_def Let_def)
  then show ?thesis
    using assms by (simp add: chunkerWithDefaults_def Let_def opts_typed_def)
qed

text \<open>The keys still ahead of the cursor, plus one for the final open-above chunk.\<close>

definition chunks_left :: "int64 list \<Rightarrow> Chunker \<Rightarrow> nat" where
  "chunks_left keys c =
     (if chunker_done c then 0 else Suc (length (filter (\<lambda>k. chunker_next c \<le> k) keys)))"

lemma Next_progress:
  assumes "chunker_inv c" "sizing_inv c" "is_int64 (chunker_rows c)" "\<not> chunker_done c"
    and "distinct keys" "\<forall>k \<in> set keys. is_int64 k"
  obtains ch c' where "Next (boundaryQuery keys) c = Inr (Some ch, c')"
    and "chunks_left keys c' < chunks_left keys c"
    and "sizing_inv c'" "chunker_rows c' = chunker_rows c"
proof -
  have r: "1 \<le> chunker_rows c" using assms(2) by (simp add: sizing_inv_def opts_ok_def)
  then have off: "sub64 (chunker_rows c) 1 = chunker_rows c - 1"
    using assms(3) by (intro pred64_exact) (auto simp: int64_simps)
  have db: "db_ok (boundaryQuery keys)" using assms(6) by (rule boundaryQuery_db_ok)
  have "\<nexists>e. Next (boundaryQuery keys) c = Inl e"
    using Next_error [OF assms(1) db] r by (auto simp: off boundaryQuery_def Let_def split: if_splits)
  then obtain got c' where "Next (boundaryQuery keys) c = Inr (got, c')"
    by (metis obj_sumE surj_pair)
  moreover from this obtain ch where "got = Some ch"
    using assms(4) by (cases got) (auto simp: Next_none)
  ultimately have n: "Next (boundaryQuery keys) c = Inr (Some ch, c')" by simp
  define ks where "ks = sort (filter (\<lambda>k. chunker_next c \<le> k) keys)"
  define i where "i = nat (chunker_rows c - 1)"
  note nb = Next_boundaryQuery [OF assms(2,3) n assms(5), folded ks_def i_def]
  note nc = Next_cut [OF assms(1) db n]
  have "chunks_left keys c' < chunks_left keys c"
  proof (cases "chunk_upper ch = MaxInt64")
    case True
    then show ?thesis using assms(4) nb(4) by (simp add: chunks_left_def chunkerAdvance_def)
  next
    case False
    then have "i < length ks" using nb(3) by blast
    then have "chunk_upper ch \<in> set ks" using nb(2) by simp
    then have u: "chunk_upper ch \<in> set keys" "chunker_next c \<le> chunk_upper ch"
      by (simp_all add: ks_def)
    have "chunker_next c' = chunk_upper ch + 1" "chunker_done c' = chunker_done c"
      using False nb(4) nc(6) by (simp_all add: chunkerAdvance_def succ64_exact)
    moreover have "length (filter (\<lambda>k. chunk_upper ch + 1 \<le> k) keys) < length (filter (\<lambda>k. chunker_next c \<le> k) keys)"
      using length_filter_less [of "chunk_upper ch" "filter (\<lambda>k. chunker_next c \<le> k) keys"
          "\<lambda>k. chunk_upper ch + 1 \<le> k"] u
      by (simp add: conj_commute cong: conj_cong) (smt (verit) filter_cong)
    ultimately show ?thesis using assms(4) by (simp add: chunks_left_def)
  qed
  then show thesis using that [OF n] nc(10,11) assms(2) by (simp add: sizing_inv_def)
qed

lemma chunkerRun_done: "chunker_done c \<Longrightarrow> chunkerRun rnd (replicate n (CutChunk db)) c = Inr ([], c)"
  by (induction n) (simp_all add: Next_def)

lemma chunkerRun_terminates:
  assumes "chunker_inv c" "sizing_inv c" "is_int64 (chunker_rows c)"
    and "distinct keys" "\<forall>k \<in> set keys. is_int64 k" "chunks_left keys c \<le> n"
  shows "\<exists>chunks c'. chunkerRun rnd (replicate n (CutChunk (boundaryQuery keys))) c = Inr (chunks, c') \<and>
           chunker_done c'"
  using assms
proof (induction n arbitrary: c)
  case 0
  then show ?case by (simp add: chunks_left_def split: if_splits)
next
  case (Suc n)
  show ?case
  proof (cases "chunker_done c")
    case True
    then show ?thesis using chunkerRun_done [of c rnd "Suc n"] by fastforce
  next
    case False
    from Next_progress [OF Suc.prems(1-3) False Suc.prems(4,5)] obtain ch c1
      where n: "Next (boundaryQuery keys) c = Inr (Some ch, c1)" "chunks_left keys c1 < chunks_left keys c"
        "sizing_inv c1" "chunker_rows c1 = chunker_rows c" by metis
    have "chunker_inv c1"
      using Next_cut(1) [OF Suc.prems(1) boundaryQuery_db_ok n(1)] Suc.prems(5) by blast
    then obtain chunks c' where "chunkerRun rnd (replicate n (CutChunk (boundaryQuery keys))) c1 = Inr (chunks, c')"
        "chunker_done c'"
      using Suc.IH [of c1] Suc.prems n by fastforce
    then show ?thesis using n(1) by simp
  qed
qed

section \<open>Properties of the chunker\<close>

definition example_target :: CopySwapTarget where
  "example_target = \<lparr>target_database = ''app'', target_schema = ''public'', target_table = ''orders'',
     target_pkColumn = ''id'', target_ownerRole = ''app'', target_oid = 16384, target_decodesWAL = True\<rparr>"

definition example_opts :: ChunkerOptions where
  "example_opts = \<lparr>TargetChunkTime = 0, InitialRows = 2, MinRows = 0, MaxRows = 0\<rparr>"

definition example_chunker :: Chunker where
  "example_chunker = \<lparr>chunker_target = example_target,
     chunker_opts = \<lparr>TargetChunkTime = 500000000, InitialRows = 2, MinRows = 2, MaxRows = 100000\<rparr>,
     chunker_next = MinInt64, chunker_rows = 2, chunker_done = False\<rparr>"

lemma example_NewChunker: "NewChunker example_target zeroWatermark example_opts = Inr example_chunker"
  by code_simp

lemma example_db_ok: "db_ok (boundaryQuery [3, 5, 9])"
  by (rule boundaryQuery_db_ok) (simp add: int64_simps)

text \<open>
  C1: The keyset chunker partitions the key space. However cuts against a
  changing table and timing feedback interleave, the chunks cut from a resume
  watermark are non-empty and pairwise disjoint, none reaches back to a key at
  or below that watermark, and together with it they are exactly the keys at or
  below the cut frontier the chunker then reports.
\<close>

theorem chunker_partitions_keys:
  assumes "NewChunker target from opts = Inr c" "wm_ok from"
    and "\<forall>e \<in> set es. event_db_ok e" "chunkerRun rnd es c = Inr (chunks, c')"
  shows "covers (wm_keys from) chunks (wm_keys (Cut c'))"
  using chunkerRun_covers [OF NewChunker_inv(1) [OF assms(1,2)] assms(3,4)]
    NewChunker_inv(2) [OF assms(1,2)] by (simp add: Cut_keys)

theorem chunker_partitions_keys_witness:
  "covers (wm_keys zeroWatermark)
     [\<lparr>chunk_lower = MinInt64, chunk_upper = 5, chunk_rows = 2\<rparr>,
      \<lparr>chunk_lower = 6, chunk_upper = MaxInt64, chunk_rows = 4\<rparr>]
     (wm_keys (Cut (example_chunker\<lparr>chunker_next := 6, chunker_rows := 4, chunker_done := True\<rparr>)))"
  by (rule chunker_partitions_keys [where es = "[CutChunk (boundaryQuery [3, 5, 9]),
        FeedbackChunk \<lparr>chunk_lower = MinInt64, chunk_upper = 5, chunk_rows = 2\<rparr> 0,
        CutChunk (boundaryQuery [3, 5, 9])]" and rnd = "\<lambda>x. x", OF example_NewChunker])
    (simp_all add: wm_ok_def example_db_ok, code_simp)

text \<open>
  C34: The chunker finishes. Over a table of \<open>n\<close> distinct keys, \<open>n + 1\<close> cuts
  from a fresh chunker succeed and reach the end of the key space: no key is
  left above the last chunk.
\<close>

theorem chunker_terminates:
  assumes "NewChunker target from opts = Inr c" "wm_ok from" "opts_typed opts"
    and "distinct keys" "\<forall>k \<in> set keys. is_int64 k"
  shows "\<exists>chunks c'. chunkerRun rnd (replicate (length keys + 1) (CutChunk (boundaryQuery keys))) c =
             Inr (chunks, c') \<and> covers (wm_keys from) chunks {k. is_int64 k}"
proof -
  note inv = NewChunker_inv [OF assms(1,2)]
  have "chunker_rows c = InitialRows (chunkerWithDefaults opts)"
    using assms(1) by (auto simp: NewChunker_def Let_def split: if_splits sum.splits prod.splits)
  then have "is_int64 (chunker_rows c)"
    using chunkerWithDefaults_typed [OF assms(3)] by (simp add: opts_typed_def)
  moreover have "chunks_left keys c \<le> length keys + 1" by (simp add: chunks_left_def)
  ultimately obtain chunks c' where r:
      "chunkerRun rnd (replicate (length keys + 1) (CutChunk (boundaryQuery keys))) c = Inr (chunks, c')"
      "chunker_done c'"
    using chunkerRun_terminates [OF inv(1,3) _ assms(4,5)] by blast
  have "covers (cut_keys c) chunks (cut_keys c')"
    using chunkerRun_covers [OF inv(1) _ r(1)] boundaryQuery_db_ok [OF assms(5)] by simp
  then show ?thesis using r inv(2) by (auto simp: cut_keys_def)
qed

theorem chunker_terminates_witness:
  "\<exists>chunks c'. chunkerRun (\<lambda>x. x) (replicate (length [3, 5, 9 :: int64] + 1) (CutChunk (boundaryQuery [3, 5, 9])))
       example_chunker = Inr (chunks, c') \<and> covers (wm_keys zeroWatermark) chunks {k. is_int64 k}"
  by (rule chunker_terminates [OF example_NewChunker])
    (simp_all add: wm_ok_def opts_typed_def example_opts_def int64_simps)

text \<open>
  A chunk holds the rows it was cut to. Against the table the boundary
  query read, a cut chunk holds exactly \<open>rows\<close> keys, except that the final
  open-above chunk may hold fewer; and whatever sizing feedback arrives next,
  the following size is again within \<open>MinRows\<close> and \<open>MaxRows\<close>.
\<close>

theorem chunk_sizing:
  assumes "sizing_inv c" "chunker_inv c" "is_int64 (chunker_rows c)"
    and "Next (boundaryQuery keys) c = Inr (Some ch, c')"
    and "distinct keys" "\<forall>k \<in> set keys. is_int64 k" "rounding rnd"
  shows "int (card (set keys \<inter> chunk_keys ch)) \<le> chunk_rows ch \<and>
    (chunk_upper ch \<noteq> MaxInt64 \<longrightarrow> int (card (set keys \<inter> chunk_keys ch)) = chunk_rows ch) \<and>
    (\<exists>c''. Feedback rnd c' ch elapsed = Inr c'' \<and> sizing_inv c'' \<and>
       chunker_rows c'' = nextRows rnd (chunk_rows ch) elapsed (chunker_opts c))"
proof -
  note nc = Next_cut [OF assms(2) boundaryQuery_db_ok [OF assms(6)] assms(4)]
  have "0 < chunk_rows ch" using assms(1) nc(3) by (simp add: sizing_inv_def opts_ok_def)
  then have "\<exists>c''. Feedback rnd c' ch elapsed = Inr c'' \<and> sizing_inv c'' \<and>
          chunker_rows c'' = nextRows rnd (chunk_rows ch) elapsed (chunker_opts c)"
    using assms(1) nc(10) nextRows_bounds [OF assms(7)]
    by (auto simp: Feedback_def sizing_inv_def)
  then show ?thesis using Next_sizing [OF assms(1,3-6)] nc(3) by simp
qed

theorem chunk_sizing_witness:
  "int (card (set [3, 5, 9] \<inter> chunk_keys \<lparr>chunk_lower = MinInt64, chunk_upper = 5, chunk_rows = 2\<rparr>)) = 2"
  using chunk_sizing [of example_chunker "[3, 5, 9]"
      "\<lparr>chunk_lower = MinInt64, chunk_upper = 5, chunk_rows = 2\<rparr>" "example_chunker\<lparr>chunker_next := 6\<rparr>" "\<lambda>x. x"]
  by (simp add: example_chunker_def sizing_inv_def opts_ok_def int64_simps rounding_def chunker_inv_def
      Next_def boundary_def boundaryQuery_def sub64_def wrap64_def NewChunk_def chunkerAdvance_def add64_def)

end
