(* ===== verification/Copier_Ledger.thy ===== *)
theory Copier_Ledger
  imports Copier_Chunk "HOL-Library.Multiset"
begin

text \<open>
  The copier's bookkeeping (\<open>pkg/copier/ledger.go\<close>) and the snapshot the applier
  judges captured changes by (\<open>pkg/copier/position.go\<close>).

  A ledger operation returns the flag the Go method returns and the ledger it
  leaves. \<open>BinarySearch\<close> is the standard library's search. The theory proves
  the ledger's invariant, that \<open>Classify\<close> on a snapshot refines a plain
  per-key state that each operation updates on the chunk's keys only, and that
  a key's state only ever moves forward.
\<close>

section \<open>The ledger\<close>

record partialChunk =
  partial_rows :: int64
  partial_pending :: "int64 list"

record ledger =
  ledger_cut :: Watermark
  ledger_watermark :: Watermark
  ledger_next :: int64
  ledger_complete :: bool
  ledger_inFlight :: "Chunk list"
  ledger_landed :: "Chunk list"
  ledger_partial :: "Chunk \<rightharpoonup> partialChunk"
  ledger_rows :: int64

definition newLedger :: "Watermark \<Rightarrow> ledger" where
  "newLedger from =
     (let (lower, complete) = startAfter from in
      \<lparr>ledger_cut = from, ledger_watermark = from, ledger_next = lower, ledger_complete = complete,
       ledger_inFlight = [], ledger_landed = [], ledger_partial = Map.empty, ledger_rows = 0\<rparr>)"

definition startsAtFrontier :: "ledger \<Rightarrow> Chunk \<Rightarrow> bool" where
  "startsAtFrontier l chunk =
     (if \<not> wm_valid (ledger_cut l) then chunk_lower chunk = MinInt64
      else if wm_value (ledger_cut l) = MaxInt64 then False
      else chunk_lower chunk = add64 (wm_value (ledger_cut l)) 1)"

definition claim :: "ledger \<Rightarrow> Chunk \<Rightarrow> bool \<times> ledger" where
  "claim l chunk =
     (if \<not> startsAtFrontier l chunk then (False, l)
      else (True, l\<lparr>ledger_inFlight := ledger_inFlight l @ [chunk],
                    ledger_cut := NewWatermark (chunk_upper chunk)\<rparr>))"

text \<open>A missing map entry reads as the zero \<open>partialChunk\<close>.\<close>

definition partialRows :: "ledger \<Rightarrow> Chunk \<Rightarrow> int64" where
  "partialRows l chunk = (case ledger_partial l chunk of None \<Rightarrow> 0 | Some p \<Rightarrow> partial_rows p)"

definition settle :: "ledger \<Rightarrow> Chunk \<Rightarrow> int64 \<Rightarrow> int64 list \<Rightarrow> bool \<times> ledger" where
  "settle l chunk rows pending =
     (if chunk \<notin> set (ledger_inFlight l) then (False, l)
      else if length pending = 0 then (False, l)
      else (True, l\<lparr>ledger_rows := add64 (ledger_rows l) (sub64 rows (partialRows l chunk)),
                    ledger_partial := (ledger_partial l)(chunk \<mapsto>
                      \<lparr>partial_rows = rows, partial_pending = pending\<rparr>)\<rparr>))"

text \<open>
  Each round of the loop takes one chunk out of \<open>landed\<close>; \<open>find\<close> followed by
  \<open>remove1\<close> is the deletion at the index \<open>IndexFunc\<close> found.
\<close>

function advance :: "ledger \<Rightarrow> ledger" where
  "advance l =
     (if ledger_complete l then l
      else case List.find (\<lambda>c. chunk_lower c = ledger_next l) (ledger_landed l) of
        None \<Rightarrow> l
      | Some chunk \<Rightarrow>
          let l1 = l\<lparr>ledger_landed := remove1 chunk (ledger_landed l),
                     ledger_watermark := NewWatermark (chunk_upper chunk)\<rparr>
          in if chunk_upper chunk = MaxInt64 then l1\<lparr>ledger_complete := True\<rparr>
             else advance (l1\<lparr>ledger_next := add64 (chunk_upper chunk) 1\<rparr>))"
  by pat_completeness auto
termination
  by (relation "measure (\<lambda>l. length (ledger_landed l))")
    (auto dest!: find_index_in_set dest: length_pos_if_in_set simp: length_remove1)

declare advance.simps [simp del]

definition land :: "ledger \<Rightarrow> Chunk \<Rightarrow> int64 \<Rightarrow> bool \<times> ledger" where
  "land l chunk rows =
     (if chunk \<notin> set (ledger_inFlight l) then (False, l)
      else (True, advance (l\<lparr>
             ledger_inFlight := remove1 chunk (ledger_inFlight l),
             ledger_rows := add64 (ledger_rows l) (sub64 rows (partialRows l chunk)),
             ledger_partial := (ledger_partial l)(chunk := None),
             ledger_landed := ledger_landed l @ [chunk]\<rparr>)))"

section \<open>Positions\<close>

datatype KeyState = KeyUncut | KeyInFlight | KeyLanded

fun KeyState_String :: "KeyState \<Rightarrow> string" where
  "KeyState_String KeyUncut = ''uncut''"
| "KeyState_String KeyInFlight = ''in-flight''"
| "KeyState_String KeyLanded = ''landed''"

record PendingKeys =
  pk_chunk :: Chunk
  pk_keys :: "int64 list"

record Position =
  pos_watermark :: Watermark
  pos_cut :: Watermark
  pos_inFlight :: "Chunk list"
  pos_pending :: "PendingKeys list"
  pos_rowsInserted :: int64

definition position :: "ledger \<Rightarrow> Position" where
  "position l =
     \<lparr>pos_watermark = ledger_watermark l, pos_cut = ledger_cut l, pos_inFlight = ledger_inFlight l,
      pos_pending = List.map_filter (\<lambda>chunk.
        case ledger_partial l chunk of
          None \<Rightarrow> None
        | Some p \<Rightarrow> Some \<lparr>pk_chunk = chunk, pk_keys = partial_pending p\<rparr>) (ledger_inFlight l),
      pos_rowsInserted = ledger_rows l\<rparr>"

text \<open>\<open>slices.BinarySearch\<close>: the loop over the half-open window, then the final comparison.\<close>

function searchLoop :: "int64 list \<Rightarrow> int64 \<Rightarrow> nat \<Rightarrow> nat \<Rightarrow> nat" where
  "searchLoop xs key i j =
     (if i < j
      then let h = (i + j) div 2
           in if xs ! h < key then searchLoop xs key (h + 1) j else searchLoop xs key i h
      else i)"
  by pat_completeness auto
termination
  by (relation "measure (\<lambda>(xs, key, i, j). j - i)") auto

declare searchLoop.simps [simp del]

definition BinarySearch :: "int64 list \<Rightarrow> int64 \<Rightarrow> nat \<times> bool" where
  "BinarySearch xs key =
     (let i = searchLoop xs key 0 (length xs) in (i, i < length xs \<and> xs ! i = key))"

fun classifyPending :: "PendingKeys list \<Rightarrow> Chunk \<Rightarrow> int64 \<Rightarrow> KeyState" where
  "classifyPending [] chunk key = KeyInFlight"
| "classifyPending (p # ps) chunk key =
     (if pk_chunk p \<noteq> chunk then classifyPending ps chunk key
      else if snd (BinarySearch (pk_keys p) key) then KeyInFlight
      else KeyLanded)"

definition classifyWithin :: "Position \<Rightarrow> Chunk \<Rightarrow> int64 \<Rightarrow> KeyState" where
  "classifyWithin p chunk key = classifyPending (pos_pending p) chunk key"

definition Classify :: "Position \<Rightarrow> int64 \<Rightarrow> KeyState" where
  "Classify p key =
     (if \<not> wm_valid (pos_cut p) \<or> key > wm_value (pos_cut p) then KeyUncut
      else case List.find (\<lambda>c. chunk_lower c \<le> key \<and> key \<le> chunk_upper c) (pos_inFlight p) of
        Some chunk \<Rightarrow> classifyWithin p chunk key
      | None \<Rightarrow> KeyLanded)"

section \<open>The binary search\<close>

lemma searchLoop_split:
  assumes "sorted xs" "j \<le> length xs" "i \<le> j"
    and "\<forall>n < i. xs ! n < key" "\<forall>n. j \<le> n \<and> n < length xs \<longrightarrow> key \<le> xs ! n"
  shows "(\<forall>n < searchLoop xs key i j. xs ! n < key) \<and>
    (\<forall>n. searchLoop xs key i j \<le> n \<and> n < length xs \<longrightarrow> key \<le> xs ! n)"
  using assms
proof (induction xs key i j rule: searchLoop.induct)
  case (1 xs key i j)
  show ?case
  proof (cases "i < j")
    case False
    with 1(5,6,7) show ?thesis by (simp add: searchLoop.simps [of xs key j j])
  next
    case True
    let ?h = "(i + j) div 2"
    have h: "i \<le> ?h" "?h < j" using True by auto
    show ?thesis
    proof (cases "xs ! ?h < key")
      case less: True
      have "\<forall>n < ?h + 1. xs ! n < key"
        using less 1(4) h order_le_less_trans [OF sorted_nth_mono [OF 1(3)] less] by simp
      moreover have "searchLoop xs key i j = searchLoop xs key (?h + 1) j"
        using True less by (subst searchLoop.simps) (simp add: Let_def)
      ultimately show ?thesis using 1(1) [OF True refl less 1(3,4)] 1(7) h by simp
    next
      case ge: False
      have above: "\<forall>n. ?h \<le> n \<and> n < length xs \<longrightarrow> key \<le> xs ! n"
        using order_trans [OF leI [OF ge] sorted_nth_mono [OF 1(3)]] by blast
      moreover have "searchLoop xs key i j = searchLoop xs key i ?h"
        using True ge by (subst searchLoop.simps) (simp add: Let_def)
      moreover have "?h \<le> length xs" using h(2) 1(4) by linarith
      ultimately show ?thesis using 1(2) [OF True refl ge 1(3) _ h(1) 1(6) above] by metis
    qed
  qed
qed

lemma BinarySearch_mem:
  assumes "sorted xs"
  shows "snd (BinarySearch xs key) \<longleftrightarrow> key \<in> set xs"
proof -
  let ?i = "searchLoop xs key 0 (length xs)"
  have s: "\<forall>n < ?i. xs ! n < key" "\<forall>n. ?i \<le> n \<and> n < length xs \<longrightarrow> key \<le> xs ! n"
    using searchLoop_split [OF assms, of "length xs" 0 key] by auto
  have "?i < length xs \<and> xs ! ?i = key" if key: "key \<in> set xs"
  proof -
    obtain n where n: "n < length xs" "xs ! n = key" using key by (auto simp: in_set_conv_nth)
    then have "?i \<le> n" using s(1) by (metis le_less_linear less_irrefl)
    moreover have "xs ! ?i \<le> xs ! n" using calculation n assms by (auto intro: sorted_nth_mono)
    ultimately show ?thesis using n s(2) by (metis antisym le_refl order_le_less_trans)
  qed
  moreover have "?i < length xs \<Longrightarrow> xs ! ?i \<in> set xs" by (rule nth_mem)
  ultimately show ?thesis unfolding BinarySearch_def Let_def snd_conv by metis
qed

section \<open>The ledger invariant\<close>

definition chunk_ok :: "Chunk \<Rightarrow> bool" where
  "chunk_ok c \<longleftrightarrow> chunk_lower c \<le> chunk_upper c \<and> is_int64 (chunk_lower c) \<and> is_int64 (chunk_upper c)"

definition partial_ok :: "ledger \<Rightarrow> bool" where
  "partial_ok l \<longleftrightarrow> (\<forall>c p. ledger_partial l c = Some p \<longrightarrow>
     c \<in> set (ledger_inFlight l) \<and> partial_pending p \<noteq> [] \<and> sorted (partial_pending p) \<and>
     set (partial_pending p) \<subseteq> chunk_keys c)"

text \<open>
  The chunks between the two frontiers tile the keys between them; in-flight
  chunks are in key order. \<open>ledger_inv\<close> adds that the watermark has been
  advanced as far as the landed chunks allow.
\<close>

definition ledger_pre :: "ledger \<Rightarrow> bool" where
  "ledger_pre l \<longleftrightarrow>
     wm_ok (ledger_cut l) \<and> wm_ok (ledger_watermark l) \<and>
     ledger_complete l = Complete (ledger_watermark l) \<and>
     (\<not> ledger_complete l \<longrightarrow> ledger_next l = fst (startAfter (ledger_watermark l))) \<and>
     (\<forall>c \<in> set (ledger_inFlight l @ ledger_landed l). chunk_ok c) \<and>
     covers (wm_keys (ledger_watermark l)) (ledger_inFlight l @ ledger_landed l) (wm_keys (ledger_cut l)) \<and>
     sorted_wrt (\<lambda>a b. chunk_upper a < chunk_lower b) (ledger_inFlight l) \<and>
     partial_ok l"

definition ledger_inv :: "ledger \<Rightarrow> bool" where
  "ledger_inv l \<longleftrightarrow> ledger_pre l \<and>
     (\<not> ledger_complete l \<longrightarrow> (\<forall>c \<in> set (ledger_landed l). chunk_lower c \<noteq> ledger_next l))"

lemma covers_mset:
  assumes "covers A xs B" "mset xs = mset ys"
  shows "covers A ys B"
  using assms mset_eq_setD [OF assms(2)] mset_eq_imp_distinct_iff [OF assms(2)]
  by (simp add: covers_def)

lemma covers_absorb:
  assumes "covers A xs B" "c \<in> set xs"
  shows "covers (A \<union> chunk_keys c) (remove1 c xs) B"
proof -
  have s: "set (remove1 c xs) = set xs - {c}" using assms(1) by (simp add: covers_def)
  have "chunk_keys d \<inter> (A \<union> chunk_keys c) = {}" if "d \<in> set xs - {c}" for d
    using that assms unfolding covers_def pairwise_def by blast
  moreover have "A \<union> (\<Union>ch \<in> set xs. chunk_keys ch) = A \<union> chunk_keys c \<union> (\<Union>ch \<in> set xs - {c}. chunk_keys ch)"
    using assms(2) by auto
  ultimately show ?thesis
    using assms unfolding covers_def s by (auto simp: pairwise_def distinct_remove1)
qed

lemma covers_empty: "covers A [] B \<longleftrightarrow> B = A"
  by (auto simp: covers_def)

lemma covers_snoc:
  assumes "covers A xs B" "chunk_keys c \<inter> B = {}" "chunk_keys c \<noteq> {}" "A \<subseteq> B"
  shows "covers A (c # xs) (B \<union> chunk_keys c)"
proof -
  have "c \<notin> set xs" using assms by (auto simp: covers_def)
  then show ?thesis using assms unfolding covers_def by (auto simp: pairwise_insert)
qed

lemma covers_sub: "covers A xs B \<Longrightarrow> A \<subseteq> B"
  by (auto simp: covers_def)

lemma newLedger_inv: "wm_ok from \<Longrightarrow> ledger_inv (newLedger from)"
  by (auto simp: ledger_inv_def ledger_pre_def newLedger_def Let_def covers_empty partial_ok_def
      startAfter_def Complete_def split: prod.splits)

lemma wm_keys_NewWatermark: "wm_keys (NewWatermark v) = {k. MinInt64 \<le> k \<and> k \<le> v}"
  by (simp add: wm_keys_def)

text \<open>The keys of a frontier extended by the chunk that starts just above it.\<close>

lemma wm_keys_extend:
  assumes "wm_ok w" "chunk_ok c" "startAfter w = (chunk_lower c, False)"
  shows "wm_keys (NewWatermark (chunk_upper c)) = wm_keys w \<union> chunk_keys c"
    and "chunk_keys c \<inter> wm_keys w = {}"
proof -
  have w: "wm_keys w = {k. MinInt64 \<le> k \<and> k < chunk_lower c}" "is_int64 (chunk_lower c)"
    using startAfter_keys [OF assms(1,3)] by simp_all
  show "wm_keys (NewWatermark (chunk_upper c)) = wm_keys w \<union> chunk_keys c"
    unfolding w(1) wm_keys_NewWatermark chunk_keys_def
    using assms(2) by (auto simp: chunk_ok_def is_int64_def)
  show "chunk_keys c \<inter> wm_keys w = {}"
    unfolding w(1) by (auto simp: chunk_keys_def)
qed

lemma startsAtFrontier_startAfter:
  assumes "startsAtFrontier l c"
  shows "startAfter (ledger_cut l) = (chunk_lower c, False)"
  using assms by (auto simp: startsAtFrontier_def startAfter_def Complete_def split: if_splits)

lemma advance_inv:
  assumes "ledger_pre l"
  shows "ledger_inv (advance l) \<and> ledger_cut (advance l) = ledger_cut l \<and>
    ledger_inFlight (advance l) = ledger_inFlight l \<and> ledger_partial (advance l) = ledger_partial l \<and>
    ledger_rows (advance l) = ledger_rows l \<and>
    wm_keys (ledger_watermark l) \<subseteq> wm_keys (ledger_watermark (advance l))"
  using assms
proof (induction l rule: advance.induct)
  case (1 l)
  let ?find = "List.find (\<lambda>c. chunk_lower c = ledger_next l) (ledger_landed l)"
  show ?case
  proof (cases "ledger_complete l \<or> ?find = None")
    case True
    then have "advance l = l" by (auto simp: advance.simps)
    with True 1(2) show ?thesis by (auto simp: ledger_inv_def find_None_conv)
  next
    case False
    then obtain c where nc: "\<not> ledger_complete l" and c: "?find = Some c" by auto
    have cin: "c \<in> set (ledger_landed l)" "chunk_lower c = ledger_next l"
      using find_index_in_set [OF c] by auto
    have sa: "startAfter (ledger_watermark l) = (chunk_lower c, False)"
      using 1(2) nc cin(2) by (auto simp: ledger_pre_def startAfter_def split: if_splits)
    have cok: "chunk_ok c" using 1(2) cin(1) by (simp add: ledger_pre_def)
    note ext = wm_keys_extend [OF _ cok sa]
    let ?l1 = "l\<lparr>ledger_landed := remove1 c (ledger_landed l), ledger_watermark := NewWatermark (chunk_upper c)\<rparr>"
    have cov: "covers (wm_keys (NewWatermark (chunk_upper c)))
        (ledger_inFlight l @ remove1 c (ledger_landed l)) (wm_keys (ledger_cut l))"
      using covers_mset [OF covers_absorb [of _ "ledger_inFlight l @ ledger_landed l" _ c],
          of _ _ "ledger_inFlight l @ remove1 c (ledger_landed l)"] 1(2) cin(1) ext
      by (simp add: ledger_pre_def)
    have rest: "wm_ok (ledger_cut l)" "\<forall>c \<in> set (ledger_inFlight l). chunk_ok c"
        "\<forall>c' \<in> set (remove1 c (ledger_landed l)). chunk_ok c'"
        "sorted_wrt (\<lambda>a b. chunk_upper a < chunk_lower b) (ledger_inFlight l)" "partial_ok l"
        "wm_keys (ledger_watermark l) \<subseteq> wm_keys (NewWatermark (chunk_upper c))"
      using 1(2) ext by (auto simp: ledger_pre_def dest: notin_set_remove1)
    show ?thesis
    proof (cases "chunk_upper c = MaxInt64")
      case True
      then have adv: "advance l = ?l1\<lparr>ledger_complete := True\<rparr>"
        using nc c by (simp add: advance.simps [of l] Let_def)
      show ?thesis unfolding adv using True rest cov cok
        by (auto simp: ledger_inv_def ledger_pre_def Complete_def wm_ok_def partial_ok_def)
    next
      case False
      let ?l2 = "?l1\<lparr>ledger_next := add64 (chunk_upper c) 1\<rparr>"
      have adv: "advance l = advance ?l2"
        using nc c False by (simp add: advance.simps [of l] Let_def)
      have "ledger_pre ?l2"
        using nc False rest cov cok
        by (auto simp: ledger_pre_def Complete_def wm_ok_def partial_ok_def startAfter_def chunk_ok_def)
      from 1(1) [OF nc c refl False this] show ?thesis unfolding adv using rest by auto
    qed
  qed
qed

section \<open>Operations keep the invariant\<close>

lemma ledger_inv_pre: "ledger_inv l \<Longrightarrow> ledger_pre l"
  by (simp add: ledger_inv_def)

lemma inFlight_below_cut:
  assumes "ledger_pre l" "c \<in> set (ledger_inFlight l @ ledger_landed l)" "k \<in> chunk_keys c"
  shows "k \<in> wm_keys (ledger_cut l)"
  using assms by (auto simp: ledger_pre_def covers_def)

lemma claim_result:
  assumes "claim l c = (ok, l')"
  shows "ok = startsAtFrontier l c" "\<not> ok \<Longrightarrow> l' = l"
    "ok \<Longrightarrow> l' = l\<lparr>ledger_inFlight := ledger_inFlight l @ [c], ledger_cut := NewWatermark (chunk_upper c)\<rparr>"
  using assms by (auto simp: claim_def split: if_splits)

lemma claim_inv:
  assumes "ledger_inv l" "chunk_ok c" "claim l c = (True, l')"
  shows "ledger_inv l'" and "wm_keys (ledger_cut l') = wm_keys (ledger_cut l) \<union> chunk_keys c"
    and "chunk_keys c \<inter> wm_keys (ledger_cut l) = {}"
proof -
  have pre: "ledger_pre l" using assms(1) by (rule ledger_inv_pre)
  have sa: "startAfter (ledger_cut l) = (chunk_lower c, False)"
    using claim_result(1) [OF assms(3)] startsAtFrontier_startAfter by simp
  have l': "l' = l\<lparr>ledger_inFlight := ledger_inFlight l @ [c], ledger_cut := NewWatermark (chunk_upper c)\<rparr>"
    using claim_result(3) [OF assms(3)] by simp
  have wm: "wm_ok (ledger_cut l)" using pre by (simp add: ledger_pre_def)
  note ext = wm_keys_extend [OF wm assms(2) sa]
  show "wm_keys (ledger_cut l') = wm_keys (ledger_cut l) \<union> chunk_keys c"
    and dis: "chunk_keys c \<inter> wm_keys (ledger_cut l) = {}" using ext by (simp_all add: l')
  have ne: "chunk_keys c \<noteq> {}" using assms(2) by (simp add: chunk_keys_def chunk_ok_def)
  have cov: "covers (wm_keys (ledger_watermark l)) (ledger_inFlight l @ ledger_landed l) (wm_keys (ledger_cut l))"
    using pre by (simp add: ledger_pre_def)
  have "covers (wm_keys (ledger_watermark l)) ((ledger_inFlight l @ [c]) @ ledger_landed l)
      (wm_keys (ledger_cut l) \<union> chunk_keys c)"
    by (rule covers_mset [OF covers_snoc [OF cov dis ne covers_sub [OF cov]]]) simp
  moreover have "chunk_upper d < chunk_lower c" if "d \<in> set (ledger_inFlight l)" for d
  proof -
    have "chunk_upper d \<in> chunk_keys d"
      using that pre by (auto simp: ledger_pre_def chunk_ok_def chunk_keys_def)
    then have "chunk_upper d \<in> wm_keys (ledger_cut l)"
      using inFlight_below_cut [OF pre] that by auto
    then show ?thesis using startAfter_keys(2) [OF wm sa] by simp
  qed
  ultimately show "ledger_inv l'"
    using assms(1,2) ext(1) unfolding l' ledger_inv_def ledger_pre_def
    by (auto simp: sorted_wrt_append chunk_ok_def wm_ok_def partial_ok_def)
qed

lemma settle_inv:
  assumes "ledger_inv l" "settle l c rows pending = (True, l')"
    and "sorted pending" "set pending \<subseteq> chunk_keys c"
  shows "ledger_inv l'"
proof -
  have "c \<in> set (ledger_inFlight l)" "pending \<noteq> []" and l': "l' = l\<lparr>
      ledger_rows := add64 (ledger_rows l) (sub64 rows (partialRows l c)),
      ledger_partial := (ledger_partial l)(c \<mapsto> \<lparr>partial_rows = rows, partial_pending = pending\<rparr>)\<rparr>"
    using assms(2) by (auto simp: settle_def split: if_splits)
  then show ?thesis
    using assms(1,3,4) by (auto simp: ledger_inv_def ledger_pre_def partial_ok_def split: if_splits)
qed

lemma land_pre:
  assumes "ledger_inv l" "c \<in> set (ledger_inFlight l)"
  shows "ledger_pre (l\<lparr>ledger_inFlight := remove1 c (ledger_inFlight l), ledger_rows := r,
      ledger_partial := (ledger_partial l)(c := None), ledger_landed := ledger_landed l @ [c]\<rparr>)"
proof -
  have pre: "ledger_pre l" using assms(1) by (rule ledger_inv_pre)
  have d: "distinct (ledger_inFlight l)" using pre by (simp add: ledger_pre_def covers_def)
  have "covers (wm_keys (ledger_watermark l)) (remove1 c (ledger_inFlight l) @ ledger_landed l @ [c])
      (wm_keys (ledger_cut l))"
    by (rule covers_mset [where xs = "ledger_inFlight l @ ledger_landed l"])
      (use pre assms(2) in \<open>simp_all add: ledger_pre_def\<close>)
  moreover have "sorted_wrt (\<lambda>a b. chunk_upper a < chunk_lower b) (remove1 c (ledger_inFlight l))"
    using pre d by (simp add: ledger_pre_def distinct_remove1_removeAll sorted_wrt_filter removeAll_filter_not_eq)
  moreover have "partial_ok (l\<lparr>ledger_inFlight := remove1 c (ledger_inFlight l), ledger_rows := r,
      ledger_partial := (ledger_partial l)(c := None), ledger_landed := ledger_landed l @ [c]\<rparr>)"
    using pre by (auto simp: ledger_pre_def partial_ok_def in_set_remove1 split: if_splits)
  moreover have "\<forall>d \<in> set (remove1 c (ledger_inFlight l)). chunk_ok d"
    using pre set_remove1_subset [of c "ledger_inFlight l"] by (auto simp: ledger_pre_def)
  ultimately show ?thesis
    using pre assms(2) by (auto simp: ledger_pre_def)
qed

lemma land_inv:
  assumes "ledger_inv l" "land l c rows = (True, l')"
  shows "ledger_inv l'" "c \<in> set (ledger_inFlight l)" "ledger_cut l' = ledger_cut l"
    "ledger_inFlight l' = remove1 c (ledger_inFlight l)" "ledger_partial l' = (ledger_partial l)(c := None)"
    "ledger_rows l' = add64 (ledger_rows l) (sub64 rows (partialRows l c))"
    "wm_keys (ledger_watermark l) \<subseteq> wm_keys (ledger_watermark l')"
proof -
  show c: "c \<in> set (ledger_inFlight l)" using assms(2) by (auto simp: land_def split: if_splits)
  have l': "l' = advance (l\<lparr>ledger_inFlight := remove1 c (ledger_inFlight l),
      ledger_rows := add64 (ledger_rows l) (sub64 rows (partialRows l c)),
      ledger_partial := (ledger_partial l)(c := None), ledger_landed := ledger_landed l @ [c]\<rparr>)"
    using assms(2) c by (simp add: land_def)
  note adv = advance_inv [OF land_pre [OF assms(1) c]]
  show "ledger_inv l'" "ledger_cut l' = ledger_cut l"
    "ledger_inFlight l' = remove1 c (ledger_inFlight l)" "ledger_partial l' = (ledger_partial l)(c := None)"
    "ledger_rows l' = add64 (ledger_rows l) (sub64 rows (partialRows l c))"
    "wm_keys (ledger_watermark l) \<subseteq> wm_keys (ledger_watermark l')"
    unfolding l' by (simp_all add: adv) (use adv in simp)
qed

section \<open>Classification refines a per-key state\<close>

lemma classifyPending_position:
  assumes "c \<in> set cs"
  shows "classifyPending (List.map_filter (\<lambda>chunk. case m chunk of None \<Rightarrow> None
        | Some p \<Rightarrow> Some \<lparr>pk_chunk = chunk, pk_keys = partial_pending p\<rparr>) cs) c k =
      (case m c of None \<Rightarrow> KeyInFlight
       | Some p \<Rightarrow> if snd (BinarySearch (partial_pending p) k) then KeyInFlight else KeyLanded)"
proof -
  let ?f = "\<lambda>chunk. case m chunk of None \<Rightarrow> None
        | Some p \<Rightarrow> Some \<lparr>pk_chunk = chunk, pk_keys = partial_pending p\<rparr>"
  have "classifyPending (List.map_filter ?f cs) c k = KeyInFlight" if "m c = None" for cs
    by (induction cs) (use that in \<open>auto simp: map_filter_simps split: option.splits\<close>)
  moreover have "classifyPending (List.map_filter ?f cs) c k =
      (if snd (BinarySearch (partial_pending p) k) then KeyInFlight else KeyLanded)" if "m c = Some p" for p
    using assms
  proof (induction cs)
    case (Cons a cs)
    then show ?case using that by (cases "m a") (auto simp: map_filter_simps)
  qed simp
  ultimately show ?thesis by (auto split: option.splits)
qed

definition inflight_key :: "ledger \<Rightarrow> int64 \<Rightarrow> bool" where
  "inflight_key l k \<longleftrightarrow> (\<exists>c \<in> set (ledger_inFlight l). k \<in> chunk_keys c \<and>
     (\<forall>p. ledger_partial l c = Some p \<longrightarrow> k \<in> set (partial_pending p)))"

lemma inFlight_disjoint:
  assumes "ledger_inv l" "c \<in> set (ledger_inFlight l)" "d \<in> set (ledger_inFlight l)"
    and "k \<in> chunk_keys c" "k \<in> chunk_keys d"
  shows "c = d"
proof (rule ccontr)
  assume "c \<noteq> d"
  then have "chunk_keys c \<inter> chunk_keys d = {}"
    using assms(2,3) ledger_inv_pre [OF assms(1)] by (auto simp: ledger_pre_def covers_def pairwise_def)
  with assms(4,5) show False by auto
qed

lemma inflight_key_within:
  assumes "ledger_inv l" "c \<in> set (ledger_inFlight l)" "k \<in> chunk_keys c"
  shows "inflight_key l k \<longleftrightarrow> (\<forall>p. ledger_partial l c = Some p \<longrightarrow> k \<in> set (partial_pending p))"
  unfolding inflight_key_def using assms(2,3) inFlight_disjoint [OF assms(1,2) _ assms(3)] by metis

lemma Classify_position:
  assumes "ledger_inv l" "is_int64 k"
  shows "Classify (position l) k =
    (if k \<notin> wm_keys (ledger_cut l) then KeyUncut
     else if inflight_key l k then KeyInFlight else KeyLanded)"
proof -
  have pre: "ledger_pre l" using assms(1) by (rule ledger_inv_pre)
  let ?cover = "\<lambda>c. chunk_lower c \<le> k \<and> k \<le> chunk_upper c"
  have cut: "(\<not> wm_valid (ledger_cut l) \<or> k > wm_value (ledger_cut l)) = (k \<notin> wm_keys (ledger_cut l))"
    using assms(2) by (auto simp: wm_keys_def is_int64_def)
  show ?thesis
  proof (cases "List.find ?cover (ledger_inFlight l)")
    case None
    then have "\<not> inflight_key l k" by (auto simp: inflight_key_def find_None_conv chunk_keys_def)
    then show ?thesis using None cut by (simp add: Classify_def position_def)
  next
    case (Some c)
    then have c: "c \<in> set (ledger_inFlight l)" "k \<in> chunk_keys c"
      by (auto dest!: find_index_in_set simp: chunk_keys_def)
    have "inflight_key l k \<longleftrightarrow> (\<forall>p. ledger_partial l c = Some p \<longrightarrow> k \<in> set (partial_pending p))"
      by (rule inflight_key_within [OF assms(1) c])
    moreover have "snd (BinarySearch (partial_pending p) k) \<longleftrightarrow> k \<in> set (partial_pending p)"
      if "ledger_partial l c = Some p" for p
      using that pre by (intro BinarySearch_mem) (auto simp: ledger_pre_def partial_ok_def)
    ultimately show ?thesis
      using Some cut c(1)
      by (auto simp: Classify_def position_def classifyWithin_def classifyPending_position split: option.splits)
  qed
qed

text \<open>The abstract copy: a state per key, and what each ledger operation does to it.\<close>

type_synonym key_states = "int64 \<Rightarrow> KeyState"

definition absClaim :: "Chunk \<Rightarrow> key_states \<Rightarrow> key_states" where
  "absClaim c s = (\<lambda>k. if k \<in> chunk_keys c then KeyInFlight else s k)"

definition absSettle :: "Chunk \<Rightarrow> int64 list \<Rightarrow> key_states \<Rightarrow> key_states" where
  "absSettle c pending s =
     (\<lambda>k. if k \<in> chunk_keys c then (if k \<in> set pending then KeyInFlight else KeyLanded) else s k)"

definition absLand :: "Chunk \<Rightarrow> key_states \<Rightarrow> key_states" where
  "absLand c s = (\<lambda>k. if k \<in> chunk_keys c then KeyLanded else s k)"

definition same_states :: "key_states \<Rightarrow> key_states \<Rightarrow> bool" where
  "same_states s t \<longleftrightarrow> (\<forall>k. is_int64 k \<longrightarrow> s k = t k)"

lemma claim_fresh:
  assumes "ledger_inv l" "chunk_ok c" "claim l c = (True, l')"
  shows "ledger_partial l c = None"
proof (rule ccontr)
  assume "ledger_partial l c \<noteq> None"
  then have "c \<in> set (ledger_inFlight l)"
    using ledger_inv_pre [OF assms(1)] by (auto simp: ledger_pre_def partial_ok_def)
  then have "chunk_keys c \<subseteq> wm_keys (ledger_cut l)"
    using inFlight_below_cut [OF ledger_inv_pre [OF assms(1)]] by auto
  moreover have "chunk_lower c \<in> chunk_keys c" using assms(2) by (simp add: chunk_keys_def chunk_ok_def)
  ultimately show False using claim_inv(3) [OF assms] by auto
qed

lemma claim_refines:
  assumes "ledger_inv l" "chunk_ok c" "claim l c = (True, l')"
  shows "same_states (Classify (position l')) (absClaim c (Classify (position l)))"
proof -
  note inv = claim_inv [OF assms]
  have l': "l' = l\<lparr>ledger_inFlight := ledger_inFlight l @ [c], ledger_cut := NewWatermark (chunk_upper c)\<rparr>"
    using claim_result(3) [OF assms(3)] by simp
  have new: "ledger_partial l c = None" by (rule claim_fresh [OF assms])
  have "inflight_key l' k \<longleftrightarrow> k \<in> chunk_keys c \<or> inflight_key l k" for k
    using new by (auto simp: inflight_key_def l')
  then show ?thesis
    using inv by (auto simp: same_states_def Classify_position [OF inv(1)] Classify_position [OF assms(1)] absClaim_def)
qed

lemma settle_refines:
  assumes "ledger_inv l" "settle l c rows pending = (True, l')"
    and "sorted pending" "set pending \<subseteq> chunk_keys c"
  shows "same_states (Classify (position l')) (absSettle c pending (Classify (position l)))"
proof -
  have c: "c \<in> set (ledger_inFlight l)" and l': "l' = l\<lparr>
      ledger_rows := add64 (ledger_rows l) (sub64 rows (partialRows l c)),
      ledger_partial := (ledger_partial l)(c \<mapsto> \<lparr>partial_rows = rows, partial_pending = pending\<rparr>)\<rparr>"
    using assms(2) by (auto simp: settle_def split: if_splits)
  note cut = inFlight_below_cut [OF ledger_inv_pre [OF assms(1)], of c]
  have "inflight_key l' k \<longleftrightarrow> (if k \<in> chunk_keys c then k \<in> set pending else inflight_key l k)" for k
  proof (cases "k \<in> chunk_keys c")
    case True
    then show ?thesis using inflight_key_within [OF settle_inv [OF assms], of c k] c by (simp add: l')
  qed (auto simp: inflight_key_def l')
  then show ?thesis
    using cut c by (auto simp: same_states_def Classify_position [OF settle_inv [OF assms]]
        Classify_position [OF assms(1)] absSettle_def) (auto simp: l')
qed

lemma land_refines:
  assumes "ledger_inv l" "land l c rows = (True, l')"
  shows "same_states (Classify (position l')) (absLand c (Classify (position l)))"
proof -
  note li = land_inv [OF assms]
  have d: "distinct (ledger_inFlight l)"
    using ledger_inv_pre [OF assms(1)] by (simp add: ledger_pre_def covers_def)
  note cut = inFlight_below_cut [OF ledger_inv_pre [OF assms(1)], of c]
  have "inflight_key l' k \<longleftrightarrow> k \<notin> chunk_keys c \<and> inflight_key l k" for k
    using d inFlight_disjoint [OF assms(1) li(2)] unfolding inflight_key_def li(4,5)
    by (auto split: if_splits)
  then show ?thesis
    using cut li(2) by (auto simp: same_states_def Classify_position [OF li(1)]
        Classify_position [OF assms(1)] absLand_def li(3))
qed

lemma watermark_landed:
  assumes "ledger_inv l" "is_int64 k" "k \<in> wm_keys (ledger_watermark l)"
  shows "Classify (position l) k = KeyLanded"
proof -
  have cov: "covers (wm_keys (ledger_watermark l)) (ledger_inFlight l @ ledger_landed l) (wm_keys (ledger_cut l))"
    using ledger_inv_pre [OF assms(1)] by (simp add: ledger_pre_def)
  then have "k \<in> wm_keys (ledger_cut l)" using covers_sub assms(3) by blast
  moreover have "\<not> inflight_key l k" using cov assms(3) by (auto simp: covers_def inflight_key_def)
  ultimately show ?thesis using Classify_position [OF assms(1,2)] by simp
qed

text \<open>
  The watermark has been advanced as far as it can be: while it is short of the
  cut frontier, the chunk that starts just above it is still in flight.
\<close>

lemma chunk_ok_keys: "chunk_ok c \<Longrightarrow> k \<in> chunk_keys c \<Longrightarrow> is_int64 k"
  by (auto simp: chunk_ok_def chunk_keys_def is_int64_def)

lemma watermark_gap:
  assumes "ledger_inv l" "wm_keys (ledger_watermark l) \<noteq> wm_keys (ledger_cut l)"
  shows "\<exists>c \<in> set (ledger_inFlight l). startAfter (ledger_watermark l) = (chunk_lower c, False)"
proof -
  let ?W = "wm_keys (ledger_watermark l)" and ?C = "wm_keys (ledger_cut l)"
  have pre: "ledger_pre l" using assms(1) by (rule ledger_inv_pre)
  then have cov: "covers ?W (ledger_inFlight l @ ledger_landed l) ?C"
    and ok: "\<forall>c \<in> set (ledger_inFlight l @ ledger_landed l). chunk_ok c"
    and wm: "wm_ok (ledger_watermark l)" by (simp_all add: ledger_pre_def)
  obtain k where k: "k \<in> ?C" "k \<notin> ?W" using assms(2) covers_sub [OF cov] by auto
  then obtain c where "c \<in> set (ledger_inFlight l @ ledger_landed l)" "k \<in> chunk_keys c"
    using cov by (auto simp: covers_def)
  then have "is_int64 k" using ok chunk_ok_keys by blast
  obtain lo d where sa: "startAfter (ledger_watermark l) = (lo, d)" by fastforce
  have "\<not> d" using startAfter_done [of "ledger_watermark l" lo] sa k(2) \<open>is_int64 k\<close> by auto
  with sa have sa: "startAfter (ledger_watermark l) = (lo, False)" by simp
  note W = startAfter_keys [OF wm sa]
  have "lo \<in> ?C" "lo \<notin> ?W"
    using k W \<open>is_int64 k\<close> by (auto simp: wm_keys_def is_int64_def split: if_splits)
  then obtain c where c: "c \<in> set (ledger_inFlight l @ ledger_landed l)" "lo \<in> chunk_keys c"
    using cov by (auto simp: covers_def)
  have "chunk_lower c \<in> chunk_keys c" using c by (auto simp: chunk_keys_def)
  then have "chunk_lower c \<notin> ?W" "MinInt64 \<le> chunk_lower c"
    using cov c(1) ok by (auto simp: covers_def chunk_ok_def is_int64_def)
  then have eq: "chunk_lower c = lo" using c(2) W(2) by (auto simp: chunk_keys_def)
  have "\<not> Complete (ledger_watermark l)" using sa by (auto simp: startAfter_def Complete_def)
  then have "c \<notin> set (ledger_landed l)"
    using assms(1) eq sa pre by (auto simp: ledger_inv_def ledger_pre_def)
  with c(1) eq sa show ?thesis by auto
qed

lemma nothing_inFlight:
  assumes "ledger_inv l" "ledger_inFlight l = []"
  shows "wm_keys (ledger_watermark l) = wm_keys (ledger_cut l)"
  using watermark_gap [OF assms(1)] assms(2) by auto

section \<open>Runs of the ledger\<close>

text \<open>
  The operations the copier performs, in the order its lock serialises them. A
  chunk is claimed as the chunker cut it; a settled chunk's pending keys are
  ascending keys of the chunk, and a later pass reads only the keys still
  pending, so it never widens them.
\<close>

datatype ledger_op =
    OpClaim Chunk
  | OpSettle Chunk int64 "int64 list"
  | OpLand Chunk int64

inductive ledger_step :: "ledger \<Rightarrow> ledger_op \<Rightarrow> ledger \<Rightarrow> bool" where
  step_claim: "chunk_ok c \<Longrightarrow> claim l c = (True, l') \<Longrightarrow> ledger_step l (OpClaim c) l'"
| step_settle: "settle l c rows pending = (True, l') \<Longrightarrow> sorted pending \<Longrightarrow> set pending \<subseteq> chunk_keys c \<Longrightarrow>
    (\<forall>p. ledger_partial l c = Some p \<longrightarrow> set pending \<subseteq> set (partial_pending p)) \<Longrightarrow>
    ledger_step l (OpSettle c rows pending) l'"
| step_land: "land l c rows = (True, l') \<Longrightarrow> ledger_step l (OpLand c rows) l'"

inductive_cases ledger_stepE: "ledger_step l op l'"

inductive ledger_run :: "Watermark \<Rightarrow> ledger_op list \<Rightarrow> ledger \<Rightarrow> bool" where
  run_start: "ledger_run from [] (newLedger from)"
| run_step: "ledger_run from ops l \<Longrightarrow> ledger_step l op l' \<Longrightarrow> ledger_run from (ops @ [op]) l'"

fun absOp :: "ledger_op \<Rightarrow> key_states \<Rightarrow> key_states" where
  "absOp (OpClaim c) s = absClaim c s"
| "absOp (OpSettle c rows pending) s = absSettle c pending s"
| "absOp (OpLand c rows) s = absLand c s"

definition absStart :: "Watermark \<Rightarrow> key_states" where
  "absStart from = (\<lambda>k. if k \<in> wm_keys from then KeyLanded else KeyUncut)"

lemma ledger_step_inv [inv_intro]: "ledger_step l op l' \<Longrightarrow> ledger_inv l \<Longrightarrow> ledger_inv l'"
  by (auto elim!: ledger_stepE dest: claim_inv(1) settle_inv land_inv(1))

lemma ledger_step_refines:
  assumes "ledger_step l op l'" "ledger_inv l"
  shows "same_states (Classify (position l')) (absOp op (Classify (position l)))"
  using assms by (auto elim!: ledger_stepE dest: claim_refines settle_refines land_refines)

lemma absOp_cong: "same_states s t \<Longrightarrow> same_states (absOp op s) (absOp op t)"
  by (cases op) (auto simp: same_states_def absClaim_def absSettle_def absLand_def)

lemma same_states_trans: "same_states r s \<Longrightarrow> same_states s t \<Longrightarrow> same_states r t"
  by (simp add: same_states_def)

lemma newLedger_refines:
  "wm_ok from \<Longrightarrow> same_states (Classify (position (newLedger from))) (absStart from)"
  using Classify_position [OF newLedger_inv, of "from"]
  by (auto simp: same_states_def absStart_def inflight_key_def newLedger_def Let_def split: prod.splits)

lemma ledger_run_inv:
  assumes "ledger_run from ops l" "wm_ok from"
  shows "ledger_inv l \<and> same_states (Classify (position l)) (fold absOp ops (absStart from))"
  using assms
proof (induction rule: ledger_run.induct)
  case (run_start "from")
  then show ?case by (simp add: newLedger_inv newLedger_refines)
next
  case (run_step "from" ops l op l')
  then have "same_states (absOp op (Classify (position l))) (absOp op (fold absOp ops (absStart from)))"
    by (auto intro: absOp_cong)
  moreover have "ledger_inv l" using run_step by simp
  ultimately show ?case
    using run_step(2) ledger_step_inv ledger_step_refines same_states_trans by fastforce
qed

section \<open>Forward motion\<close>

text \<open>
  What a reader of the copy's progress relies on: a landed key stays landed and
  a key that left the uncut region does not return to it.
\<close>

locale copy_frontier =
  fixes step :: "'s \<Rightarrow> 's \<Rightarrow> bool"
    and ok :: "'s \<Rightarrow> bool"
    and state :: "'s \<Rightarrow> int64 \<Rightarrow> KeyState"
  assumes ok_step: "ok s \<Longrightarrow> step s t \<Longrightarrow> ok t"
    and landed_step: "ok s \<Longrightarrow> step s t \<Longrightarrow> is_int64 k \<Longrightarrow> state s k = KeyLanded \<Longrightarrow> state t k = KeyLanded"
    and cut_step: "ok s \<Longrightarrow> step s t \<Longrightarrow> is_int64 k \<Longrightarrow> state s k \<noteq> KeyUncut \<Longrightarrow> state t k \<noteq> KeyUncut"
begin

lemma steps_ok: "step\<^sup>*\<^sup>* s t \<Longrightarrow> ok s \<Longrightarrow> ok t"
  by (induction rule: rtranclp_induct) (auto intro: ok_step)

lemma landed_stays:
  assumes "step\<^sup>*\<^sup>* s t" "ok s" "is_int64 k" "state s k = KeyLanded"
  shows "state t k = KeyLanded"
  using assms by (induction rule: rtranclp_induct) (auto intro: landed_step steps_ok)

lemma uncut_before:
  assumes "step\<^sup>*\<^sup>* s t" "ok s" "is_int64 k" "state t k = KeyUncut"
  shows "state s k = KeyUncut"
  using assms
proof (induction rule: rtranclp_induct)
  case (step t u)
  then show ?case using cut_step steps_ok by metis
qed simp

lemma forward:
  assumes "step\<^sup>*\<^sup>* s t" "ok s" "is_int64 k"
  shows "(state s k = KeyLanded \<longrightarrow> state t k = KeyLanded) \<and>
    (state s k = KeyInFlight \<longrightarrow> state t k \<in> {KeyInFlight, KeyLanded})"
  using landed_stays [OF assms] uncut_before [OF assms] by (cases "state t k") auto

end

definition ledger_moves :: "ledger \<Rightarrow> ledger \<Rightarrow> bool" where
  "ledger_moves l l' \<longleftrightarrow> (\<exists>op. ledger_step l op l')"

lemma settled_landed:
  assumes "ledger_inv l" "c \<in> set (ledger_inFlight l)" "k \<in> chunk_keys c" "is_int64 k"
    and "Classify (position l) k = KeyLanded"
  shows "\<exists>p. ledger_partial l c = Some p \<and> k \<notin> set (partial_pending p)"
  using assms(5) Classify_position [OF assms(1,4)] inflight_key_within [OF assms(1-3)]
  by (auto split: if_splits)

lemma ledger_step_landed:
  assumes "ledger_inv l" "ledger_step l op l'" "is_int64 k" "Classify (position l) k = KeyLanded"
  shows "Classify (position l') k = KeyLanded"
proof -
  have eq: "Classify (position l') k = absOp op (Classify (position l)) k"
    using ledger_step_refines [OF assms(2,1)] assms(3) by (simp add: same_states_def)
  from assms(2) show ?thesis
  proof cases
    case (step_claim c)
    have "k \<notin> chunk_keys c"
      using claim_inv(3) [OF assms(1) step_claim(2,3)] assms(4) Classify_position [OF assms(1,3)]
      by (auto split: if_splits)
    then show ?thesis using eq step_claim assms(4) by (simp add: absClaim_def)
  next
    case (step_settle c rows pending)
    have c: "c \<in> set (ledger_inFlight l)" using step_settle(2) by (auto simp: settle_def split: if_splits)
    have "k \<notin> set pending" if "k \<in> chunk_keys c"
      using settled_landed [OF assms(1) c that assms(3,4)] step_settle(5) by auto
    then show ?thesis using eq step_settle assms(4) by (simp add: absSettle_def)
  next
    case (step_land c rows)
    then show ?thesis using eq assms(4) by (simp add: absLand_def)
  qed
qed

lemma ledger_step_cut:
  assumes "ledger_inv l" "ledger_step l op l'" "is_int64 k" "Classify (position l) k \<noteq> KeyUncut"
  shows "Classify (position l') k \<noteq> KeyUncut"
  using ledger_step_refines [OF assms(2,1)] assms(3,4)
  by (cases op) (auto simp: same_states_def absClaim_def absSettle_def absLand_def)

interpretation ledger_frontier: copy_frontier ledger_moves ledger_inv "\<lambda>l. Classify (position l)"
  by unfold_locales
    (auto simp: ledger_moves_def intro: ledger_step_inv ledger_step_landed dest: ledger_step_cut)

section \<open>Row accounting\<close>

text \<open>What the passes reported: a chunk's latest total, counted from its claim.\<close>

fun reportOp :: "ledger_op \<Rightarrow> (Chunk \<Rightarrow> int) \<Rightarrow> (Chunk \<Rightarrow> int)" where
  "reportOp (OpClaim c) m = m(c := 0)"
| "reportOp (OpSettle c rows pending) m = m(c := rows)"
| "reportOp (OpLand c rows) m = m(c := rows)"

definition reported :: "ledger_op list \<Rightarrow> Chunk \<Rightarrow> int" where
  "reported ops = fold reportOp ops (\<lambda>_. 0)"

fun op_chunk :: "ledger_op \<Rightarrow> Chunk" where
  "op_chunk (OpClaim c) = c"
| "op_chunk (OpSettle c rows pending) = c"
| "op_chunk (OpLand c rows) = c"

definition run_chunks :: "ledger_op list \<Rightarrow> Chunk set" where
  "run_chunks ops = op_chunk ` set ops"

lemma reported_snoc: "reported (ops @ [op]) = reportOp op (reported ops)"
  by (simp add: reported_def)

lemma run_chunks_snoc: "run_chunks (ops @ [op]) = insert (op_chunk op) (run_chunks ops)"
  by (simp add: run_chunks_def)

lemma finite_run_chunks [simp]: "finite (run_chunks ops)"
  by (simp add: run_chunks_def)

definition rows_inv :: "ledger_op list \<Rightarrow> ledger \<Rightarrow> bool" where
  "rows_inv ops l \<longleftrightarrow> set (ledger_inFlight l) \<subseteq> run_chunks ops \<and>
     (\<forall>c \<in> run_chunks ops. chunk_keys c \<noteq> {} \<and> chunk_keys c \<subseteq> wm_keys (ledger_cut l)) \<and>
     (\<forall>c \<in> set (ledger_inFlight l). partialRows l c = reported ops c) \<and>
     ledger_rows l = wrap64 (\<Sum>c \<in> run_chunks ops. reported ops c)"

lemma sum_update:
  assumes "finite A" "c \<in> A"
  shows "(\<Sum>x \<in> A. (m(c := r)) x) = (\<Sum>x \<in> A. m x) - m c + (r :: int)"
  using assms by (simp add: sum.remove [of A c] fun_upd_def)

lemma rows_update:
  assumes "ledger_rows l = wrap64 (\<Sum>x \<in> A. m x)" "finite A" "c \<in> A" "partialRows l c = m c"
  shows "add64 (ledger_rows l) (sub64 rows (partialRows l c)) = wrap64 (\<Sum>x \<in> A. (m(c := rows)) x)"
proof -
  have "add64 (ledger_rows l) (sub64 rows (partialRows l c)) = wrap64 ((\<Sum>x \<in> A. m x) + (rows - m c))"
    unfolding assms(1,4) add64_def sub64_def by simp
  then show ?thesis by (simp only: sum_update [OF assms(2,3)]) (simp add: algebra_simps)
qed

lemma rows_inv_claim:
  assumes "rows_inv ops l" "ledger_inv l" "chunk_ok c" "claim l c = (True, l')"
  shows "rows_inv (ops @ [OpClaim c]) l'"
proof -
  note ci = claim_inv [OF assms(2-4)]
  have l': "l' = l\<lparr>ledger_inFlight := ledger_inFlight l @ [c], ledger_cut := NewWatermark (chunk_upper c)\<rparr>"
    using claim_result(3) [OF assms(4)] by simp
  have ne: "chunk_keys c \<noteq> {}" using assms(3) by (simp add: chunk_keys_def chunk_ok_def)
  then have new: "c \<notin> run_chunks ops" using assms(1) ci(3) by (auto simp: rows_inv_def)
  have "partial_ok l" "set (ledger_inFlight l) \<subseteq> run_chunks ops"
    using assms(1) ledger_inv_pre [OF assms(2)] by (simp_all add: rows_inv_def ledger_pre_def)
  then have "ledger_partial l c = None"
    using new by (metis not_None_eq partial_ok_def subsetD)
  moreover have "(\<Sum>x \<in> run_chunks ops. if x = c then 0 else reported ops x) = (\<Sum>x \<in> run_chunks ops. reported ops x)"
    using new by (intro sum.cong) auto
  ultimately show ?thesis
    using assms(1) ne ci(2) new
    by (auto simp: rows_inv_def reported_snoc run_chunks_snoc l' partialRows_def fun_upd_def)
qed

lemma rows_inv_settle:
  assumes "rows_inv ops l" "settle l c rows pending = (True, l')"
  shows "rows_inv (ops @ [OpSettle c rows pending]) l'"
proof -
  have c: "c \<in> set (ledger_inFlight l)" and l': "l' = l\<lparr>
      ledger_rows := add64 (ledger_rows l) (sub64 rows (partialRows l c)),
      ledger_partial := (ledger_partial l)(c \<mapsto> \<lparr>partial_rows = rows, partial_pending = pending\<rparr>)\<rparr>"
    using assms(2) by (auto simp: settle_def split: if_splits)
  have mem: "c \<in> run_chunks ops" using c assms(1) by (auto simp: rows_inv_def)
  then have "add64 (ledger_rows l) (sub64 rows (partialRows l c)) =
      wrap64 (\<Sum>x \<in> run_chunks ops. ((reported ops)(c := rows)) x)"
    using assms(1) c by (intro rows_update) (auto simp: rows_inv_def)
  then show ?thesis
    using assms(1) mem by (auto simp: rows_inv_def reported_snoc run_chunks_snoc insert_absorb l' partialRows_def)
qed

lemma rows_inv_land:
  assumes "rows_inv ops l" "ledger_inv l" "land l c rows = (True, l')"
  shows "rows_inv (ops @ [OpLand c rows]) l'"
proof -
  note li = land_inv [OF assms(2,3)]
  have mem: "c \<in> run_chunks ops" using li(2) assms(1) by (auto simp: rows_inv_def)
  then have "ledger_rows l' = wrap64 (\<Sum>x \<in> run_chunks ops. ((reported ops)(c := rows)) x)"
    unfolding li(6) using assms(1) li(2) by (intro rows_update) (auto simp: rows_inv_def)
  moreover have "set (ledger_inFlight l') \<subseteq> set (ledger_inFlight l) - {c}"
    using ledger_inv_pre [OF assms(2)] by (simp add: li(4) ledger_pre_def covers_def)
  ultimately show ?thesis
    using assms(1) mem li(3,5)
    by (auto simp: rows_inv_def reported_snoc run_chunks_snoc insert_absorb partialRows_def)
qed

lemma ledger_run_rows:
  assumes "ledger_run from ops l" "wm_ok from"
  shows "rows_inv ops l"
  using assms
proof (induction rule: ledger_run.induct)
  case (run_start "from")
  then show ?case
    by (simp add: rows_inv_def newLedger_def Let_def run_chunks_def wrap64_def split: prod.splits)
next
  case (run_step "from" ops l op l')
  have "ledger_inv l" using ledger_run_inv run_step by blast
  with run_step show ?case
    by (auto elim!: ledger_stepE intro: rows_inv_claim rows_inv_settle rows_inv_land)
qed

section \<open>Properties of the ledger\<close>

text \<open>An executable form of the step relation, for evaluating concrete runs.\<close>

fun ledgerApply :: "ledger_op \<Rightarrow> ledger \<Rightarrow> ledger option" where
  "ledgerApply (OpClaim c) l =
     (if chunk_ok c \<and> fst (claim l c) then Some (snd (claim l c)) else None)"
| "ledgerApply (OpSettle c rows pending) l =
     (if fst (settle l c rows pending) \<and> sorted pending \<and>
         list_all (\<lambda>k. chunk_lower c \<le> k \<and> k \<le> chunk_upper c) pending \<and>
         (case ledger_partial l c of None \<Rightarrow> True
          | Some p \<Rightarrow> list_all (\<lambda>k. k \<in> set (partial_pending p)) pending)
      then Some (snd (settle l c rows pending)) else None)"
| "ledgerApply (OpLand c rows) l =
     (if fst (land l c rows) then Some (snd (land l c rows)) else None)"

fun ledgerApplyAll :: "ledger_op list \<Rightarrow> ledger \<Rightarrow> ledger option" where
  "ledgerApplyAll [] l = Some l"
| "ledgerApplyAll (op # ops) l =
     (case ledgerApply op l of None \<Rightarrow> None | Some l' \<Rightarrow> ledgerApplyAll ops l')"

lemma ledgerApply_step: "ledgerApply op l = Some l' \<Longrightarrow> ledger_step l op l'"
proof (cases op)
  case (OpSettle c rows pending)
  assume "ledgerApply op l = Some l'"
  with OpSettle show ?thesis
    by (cases "settle l c rows pending")
      (auto simp: list_all_iff chunk_keys_def split: if_splits option.splits intro!: ledger_step.intros)
qed (auto split: if_splits intro!: ledger_step.intros simp: prod_eq_iff)

lemma ledgerApplyAll_run:
  assumes "ledger_run from ops l" "ledgerApplyAll ops' l = Some l'"
  shows "ledger_run from (ops @ ops') l'"
  using assms
proof (induction ops' arbitrary: ops l)
  case (Cons op ops')
  then obtain l1 where "ledgerApply op l = Some l1" "ledgerApplyAll ops' l1 = Some l'"
    by (auto split: option.splits)
  then show ?case using Cons.IH [of "ops @ [op]" l1] Cons.prems(1) ledgerApply_step run_step by fastforce
qed simp

definition example_A :: Chunk where
  "example_A = \<lparr>chunk_lower = MinInt64, chunk_upper = 5, chunk_rows = 2\<rparr>"

definition example_B :: Chunk where
  "example_B = \<lparr>chunk_lower = 6, chunk_upper = MaxInt64, chunk_rows = 2\<rparr>"

definition example_ops :: "ledger_op list" where
  "example_ops = [OpClaim example_A, OpClaim example_B, OpLand example_B 1, OpSettle example_A 1 [3]]"

definition example_ledger :: ledger where
  "example_ledger = the (ledgerApplyAll example_ops (newLedger zeroWatermark))"

lemma example_run: "ledger_run zeroWatermark example_ops example_ledger"
proof -
  have "\<not> Option.is_none (ledgerApplyAll example_ops (newLedger zeroWatermark))" by code_simp
  then obtain l where "ledgerApplyAll example_ops (newLedger zeroWatermark) = Some l"
    by (auto simp: Option.is_none_def)
  then show ?thesis
    using ledgerApplyAll_run [OF run_start] by (fastforce simp: example_ledger_def)
qed

lemma wm_ok_zero [simp]: "wm_ok zeroWatermark"
  by (simp add: wm_ok_def)

text \<open>
  C11: The snapshot's classification is exact. After any sequence of claims,
  settled passes and landings from a resume watermark, \<open>Classify\<close> on the
  ledger's snapshot gives every key the state those operations put it in: a
  claim puts the chunk's keys in flight, a settled pass lands all of them but
  the pending ones, a landing lands them all, and no operation touches a key
  outside its chunk.
\<close>

theorem classify_refines:
  assumes "ledger_run from ops l" "wm_ok from" "is_int64 k"
  shows "Classify (position l) k = fold absOp ops (absStart from) k"
  using ledger_run_inv [OF assms(1,2)] assms(3) by (simp add: same_states_def)

theorem classify_refines_witness:
  "Classify (position example_ledger) 3 = KeyInFlight \<and> Classify (position example_ledger) 7 = KeyLanded"
  unfolding classify_refines [OF example_run wm_ok_zero, of 3, simplified int64_simps, simplified]
    classify_refines [OF example_run wm_ok_zero, of 7, simplified int64_simps, simplified]
  by (simp add: example_ops_def example_A_def example_B_def absClaim_def absSettle_def absLand_def
      chunk_keys_def MinInt64_def MaxInt64_def)

text \<open>
  A key only moves forward. From any state a run can reach, however the
  ledger moves on, a landed key stays landed and an in-flight key never reads
  as uncut again, so a change the applier applied or kept because of an earlier
  snapshot was judged right for every later one.
\<close>

theorem key_states_move_forward:
  assumes "ledger_run from ops l" "wm_ok from" "ledger_moves\<^sup>*\<^sup>* l l'" "is_int64 k"
  shows "(Classify (position l) k = KeyLanded \<longrightarrow> Classify (position l') k = KeyLanded) \<and>
    (Classify (position l) k = KeyInFlight \<longrightarrow> Classify (position l') k \<in> {KeyInFlight, KeyLanded})"
  using ledger_frontier.forward [OF assms(3) _ assms(4)] ledger_run_inv [OF assms(1,2)] by blast

theorem key_states_move_forward_witness:
  "Classify (position (newLedger (NewWatermark 9))) 4 = KeyLanded \<and>
   Classify (position (snd (claim (newLedger (NewWatermark 9))
     \<lparr>chunk_lower = 10, chunk_upper = 20, chunk_rows = 5\<rparr>))) 4 = KeyLanded"
proof -
  let ?l = "newLedger (NewWatermark 9)" and ?c = "\<lparr>chunk_lower = 10, chunk_upper = 20, chunk_rows = 5\<rparr>"
  have "claim ?l ?c = (True, snd (claim ?l ?c))"
    by (simp add: claim_def startsAtFrontier_def newLedger_def startAfter_def Complete_def int64_simps
        add64_def wrap64_def)
  then have "ledger_step ?l (OpClaim ?c) (snd (claim ?l ?c))"
    by (intro step_claim) (simp add: chunk_ok_def int64_simps)
  then have "ledger_moves\<^sup>*\<^sup>* ?l (snd (claim ?l ?c))"
    by (intro r_into_rtranclp) (auto simp: ledger_moves_def)
  moreover have "Classify (position ?l) 4 = KeyLanded"
    by (simp add: newLedger_def position_def Classify_def startAfter_def Complete_def int64_simps add64_def wrap64_def)
  ultimately show ?thesis
    using key_states_move_forward [OF run_start, of "NewWatermark 9" "snd (claim ?l ?c)" 4]
    by (simp add: wm_ok_def int64_simps)
qed

text \<open>
  C30: The checkpointed watermark is the contiguous landed prefix. In every
  reachable ledger all keys at or below the watermark have landed; while the
  watermark is short of the cut frontier the chunk that starts just above it
  is still in flight; and once nothing is in flight the watermark covers
  everything that was cut.
\<close>

theorem watermark_is_landed_prefix:
  assumes "ledger_run from ops l" "wm_ok from"
  shows "(\<forall>k \<in> wm_keys (ledger_watermark l). is_int64 k \<longrightarrow> Classify (position l) k = KeyLanded) \<and>
    wm_keys (ledger_watermark l) \<subseteq> wm_keys (ledger_cut l) \<and>
    (wm_keys (ledger_watermark l) \<noteq> wm_keys (ledger_cut l) \<longrightarrow>
       (\<exists>c \<in> set (ledger_inFlight l). startAfter (ledger_watermark l) = (chunk_lower c, False))) \<and>
    (ledger_inFlight l = [] \<longrightarrow> wm_keys (ledger_watermark l) = wm_keys (ledger_cut l))"
proof -
  have inv: "ledger_inv l" using ledger_run_inv [OF assms] by simp
  then have "wm_keys (ledger_watermark l) \<subseteq> wm_keys (ledger_cut l)"
    by (auto simp: ledger_inv_def ledger_pre_def dest: covers_sub)
  then show ?thesis using inv watermark_landed watermark_gap nothing_inFlight by blast
qed

theorem watermark_is_landed_prefix_witness:
  "\<exists>c \<in> set (ledger_inFlight example_ledger).
     startAfter (ledger_watermark example_ledger) = (chunk_lower c, False)"
proof -
  have "ledger_watermark example_ledger = zeroWatermark" "ledger_cut example_ledger = NewWatermark MaxInt64"
    by code_simp+
  then have "wm_keys (ledger_watermark example_ledger) \<noteq> wm_keys (ledger_cut example_ledger)"
    by (auto simp: wm_keys_def)
  then show ?thesis using watermark_is_landed_prefix [OF example_run wm_ok_zero] by blast
qed

text \<open>
  Rows are counted once. However many passes a chunk takes, the ledger's
  row count is the sum, in 64-bit arithmetic, of what the latest settled pass or
  landing of each claimed chunk reported.
\<close>

theorem rows_counted_once:
  assumes "ledger_run from ops l" "wm_ok from"
  shows "ledger_rows l = wrap64 (\<Sum>c \<in> run_chunks ops. reported ops c)"
  using ledger_run_rows [OF assms] by (simp add: rows_inv_def)

theorem rows_counted_once_witness: "ledger_rows example_ledger = 2"
proof -
  have "run_chunks example_ops = {example_A, example_B}" "example_A \<noteq> example_B"
    "reported example_ops example_A = 1" "reported example_ops example_B = 1"
    by (auto simp: run_chunks_def reported_def example_ops_def example_A_def example_B_def MinInt64_def)
  then show ?thesis using rows_counted_once [OF example_run wm_ok_zero] by (simp add: wrap64_def)
qed

end
