(* ===== verification/Copier_Guard.thy ===== *)
theory Copier_Guard
  imports Copier_Ledger
begin

text \<open>
  What the copier refuses before it starts and what every transaction that
  writes the shadow confirms first: the copier's options (\<open>copier.go\<close>), the shadow
  and lock checks (\<open>shadow.go\<close>, \<open>copier.go\<close>), and the guarded chunk transaction
  (\<open>copy_chunk.go\<close>, with \<open>TableLockSession.Confirm\<close> of \<open>pkg/dbconn\<close>).

  A transaction is a list of statements sent in order. The server is a
  parameter: its reply to a statement may depend on every statement before it.
  \<open>holds\<close> below reads off the trace what a committed transaction had confirmed.
\<close>

section \<open>Options\<close>

definition Millisecond :: int64 where "Millisecond = 1000000"
definition DefaultWorkers :: int64 where "DefaultWorkers = 4"
definition DefaultLockTimeout :: int64 where "DefaultLockTimeout = 3000 * Millisecond"
definition DefaultStatementTimeout :: int64 where "DefaultStatementTimeout = 30000 * Millisecond"
definition DefaultCollisionAttempts :: int64 where "DefaultCollisionAttempts = 10"
definition DefaultCollisionBackoff :: int64 where "DefaultCollisionBackoff = 250 * Millisecond"

record Options =
  opt_Workers :: int64
  opt_LockTimeout :: int64
  opt_StatementTimeout :: int64
  opt_Chunker :: ChunkerOptions
  opt_CollisionAttempts :: int64
  opt_CollisionBackoff :: int64

definition withDefaults :: "Options \<Rightarrow> Options" where
  "withDefaults opts =
     (let opts = (if opt_Workers opts = 0 then opts\<lparr>opt_Workers := DefaultWorkers\<rparr> else opts);
          opts = (if opt_LockTimeout opts = 0 then opts\<lparr>opt_LockTimeout := DefaultLockTimeout\<rparr> else opts);
          opts = (if opt_StatementTimeout opts = 0
                  then opts\<lparr>opt_StatementTimeout := DefaultStatementTimeout\<rparr> else opts);
          opts = (if opt_CollisionAttempts opts = 0
                  then opts\<lparr>opt_CollisionAttempts := DefaultCollisionAttempts\<rparr> else opts);
          opts = (if opt_CollisionBackoff opts = 0
                  then opts\<lparr>opt_CollisionBackoff := DefaultCollisionBackoff\<rparr> else opts)
      in opts)"

definition validate :: "Options \<Rightarrow> copier_error + unit" where
  "validate opts =
     (if opt_Workers opts < 1 then Inl ErrInvalidOptions
      else if \<exists>t \<in> set [opt_LockTimeout opts, opt_StatementTimeout opts]. t < Millisecond
        then Inl ErrInvalidOptions
      else if opt_CollisionAttempts opts < 1 then Inl ErrInvalidOptions
      else if opt_CollisionBackoff opts < 0 then Inl ErrInvalidOptions
      else Inr ())"

definition Validate :: "Options \<Rightarrow> copier_error + unit" where
  "Validate opts =
     (case validate (withDefaults opts) of
        Inl e \<Rightarrow> Inl e
      | Inr _ \<Rightarrow> chunkerValidate (chunkerWithDefaults (opt_Chunker opts)))"

section \<open>The shadow and lock proofs\<close>

record Shadow =
  sh_Schema :: string
  sh_SourceTable :: string
  sh_ShadowTable :: string
  sh_SourceOID :: "32 word"
  sh_ShadowOID :: "32 word"
  sh_CopyColumns :: "string list"
  sh_Conversions :: "(string \<times> string) list"
  sh_ConversionFingerprint :: string

definition checkShadow :: "CopySwapTarget \<Rightarrow> Shadow option \<Rightarrow> copier_error + unit" where
  "checkShadow target shadow =
     (let mismatch = Inl (Refusal CauseShadowMismatch) in
      case shadow of
        None \<Rightarrow> mismatch
      | Some s \<Rightarrow>
          (let converts = length (sh_Conversions s) > 0;
               fingerprinted = sh_ConversionFingerprint s \<noteq> ''''
           in if sh_ShadowTable s = '''' then mismatch
              else if sh_Schema s \<noteq> target_schema target \<or> sh_SourceTable s \<noteq> target_table target then mismatch
              else if sh_ShadowTable s = sh_SourceTable s then mismatch
              else if sh_SourceOID s = 0 \<or> sh_ShadowOID s = 0 then mismatch
              else if sh_SourceOID s = sh_ShadowOID s then mismatch
              else if target_pkColumn target \<notin> set (sh_CopyColumns s) then mismatch
              else if map_of (sh_Conversions s) (target_pkColumn target) \<noteq> None then mismatch
              else if \<exists>(column, expr) \<in> set (sh_Conversions s).
                     column \<notin> set (sh_CopyColumns s) \<or> expr = '''' then mismatch
              else if converts \<and> \<not> fingerprinted then mismatch
              else if \<not> converts \<and> fingerprinted then mismatch
              else Inr ()))"

text \<open>The lock session: the proof it carries, its backend, and whether it has reported loss.\<close>

record TableLockSession =
  lock_schema :: string
  lock_table :: string
  lock_key :: int64
  lock_pid :: "32 word"
  lock_lost :: bool

definition requireTableLock :: "TableLockSession option \<Rightarrow> CopySwapTarget \<Rightarrow> copier_error + unit" where
  "requireTableLock lock target =
     (case lock of
        None \<Rightarrow> Inl (Refusal CauseLockUnproven)
      | Some held \<Rightarrow>
          if lock_table held = '''' then Inl (Refusal CauseLockUnproven)
          else if lock_schema held \<noteq> target_schema target \<or> lock_table held \<noteq> target_table target
            then Inl (Refusal CauseLockUnproven)
          else if lock_lost held then Inl (Refusal CauseLockLost)
          else Inr ())"

section \<open>The guarded transaction\<close>

datatype lockMode = lockAccessShare | lockRowExclusive | lockShareRowExclusive

datatype chunk_write =
    InsertRange int64 int64
  | InsertSkippingRange int64 int64
  | InsertTheKeys "int64 list"
  | DeleteAbove int64 int64

datatype stmt =
    BeginTx
  | SetBudgets int64 int64
  | SetRendering
  | SetSearchPath "string list"
  | SetRole string
  | LockTable "string \<times> string" lockMode
  | LookupLockHolder int64
  | RelationOIDs string string string
  | Fingerprint
  | WriteStmt chunk_write
  | CommitTx

datatype reply =
    ROk
  | RErr copier_error
  | RHolder "32 word option"
  | ROIDs "32 word option" "32 word option"
  | RFingerprint string
  | RAffected int64
  | RHeld int64 "int64 list"

type_synonym server = "stmt list \<Rightarrow> stmt \<Rightarrow> reply"

text \<open>A step of a transaction extends the trace and either fails or yields a value.\<close>

type_synonym 'a tx = "stmt list \<Rightarrow> (copier_error + 'a) \<times> stmt list"

definition returnT :: "'a \<Rightarrow> 'a tx" where
  "returnT a = (\<lambda>tr. (Inr a, tr))"

definition failT :: "copier_error \<Rightarrow> 'a tx" where
  "failT e = (\<lambda>tr. (Inl e, tr))"

definition bindT :: "'a tx \<Rightarrow> ('a \<Rightarrow> 'b tx) \<Rightarrow> 'b tx" where
  "bindT m f = (\<lambda>tr. case m tr of (Inl e, tr') \<Rightarrow> (Inl e, tr') | (Inr a, tr') \<Rightarrow> f a tr')"

definition send :: "server \<Rightarrow> stmt \<Rightarrow> reply tx" where
  "send srv st = (\<lambda>tr. (case srv tr st of RErr e \<Rightarrow> Inl e | r \<Rightarrow> Inr r, tr @ [st]))"

definition exec :: "server \<Rightarrow> stmt \<Rightarrow> unit tx" where
  "exec srv st = bindT (send srv st) (\<lambda>_. returnT ())"

definition Milliseconds :: "int64 \<Rightarrow> int64" where
  "Milliseconds d = (if d < 0 then - ((- d) div Millisecond) else d div Millisecond)"

definition setBudgets :: "server \<Rightarrow> Options \<Rightarrow> unit tx" where
  "setBudgets srv opts =
     exec srv (SetBudgets (Milliseconds (opt_LockTimeout opts)) (Milliseconds (opt_StatementTimeout opts)))"

definition setCopySession ::
  "server \<Rightarrow> CopySwapTarget \<Rightarrow> string list \<Rightarrow> Options \<Rightarrow> unit tx" where
  "setCopySession srv target searchPath opts =
     bindT (setBudgets srv opts) (\<lambda>_.
     bindT (exec srv SetRendering) (\<lambda>_.
     bindT (exec srv (SetSearchPath searchPath)) (\<lambda>_.
     exec srv (SetRole (target_ownerRole target)))))"

definition sqlstateUndefinedTable :: string where "sqlstateUndefinedTable = ''42P01''"

definition holdRelation :: "server \<Rightarrow> string \<times> string \<Rightarrow> lockMode \<Rightarrow> unit tx" where
  "holdRelation srv relation mode = (\<lambda>tr.
     case exec srv (LockTable relation mode) tr of
       (Inr u, tr') \<Rightarrow> (Inr u, tr')
     | (Inl e, tr') \<Rightarrow>
         (Inl (if e = PgError sqlstateUndefinedTable then Refusal CauseRelationReplaced else e), tr'))"

definition holdRelations :: "server \<Rightarrow> Shadow \<Rightarrow> lockMode \<Rightarrow> unit tx" where
  "holdRelations srv shadow shadowMode =
     bindT (holdRelation srv (sh_Schema shadow, sh_SourceTable shadow) lockAccessShare) (\<lambda>_.
     holdRelation srv (sh_Schema shadow, sh_ShadowTable shadow) shadowMode)"

text \<open>
  \<open>Confirm\<close> asks who holds the advisory lock; a reply of another shape is the
  driver's decoding error.
\<close>

definition driverError :: copier_error where
  "driverError = PgError ''''"

definition confirmLock :: "server \<Rightarrow> TableLockSession \<Rightarrow> unit tx" where
  "confirmLock srv lock =
     bindT (send srv (LookupLockHolder (lock_key lock))) (\<lambda>r.
       case r of
         RHolder None \<Rightarrow> failT (Refusal CauseLockUnconfirmed)
       | RHolder (Some pid) \<Rightarrow>
           if pid \<noteq> lock_pid lock then failT (Refusal CauseLockHeldElsewhere) else returnT ()
       | _ \<Rightarrow> failT driverError)"

definition confirmRelation :: "32 word \<Rightarrow> 32 word option \<Rightarrow> unit tx" where
  "confirmRelation proven found =
     (case found of
        None \<Rightarrow> failT (Refusal CauseRelationReplaced)
      | Some oid \<Rightarrow> if oid \<noteq> proven then failT (Refusal CauseRelationReplaced) else returnT ())"

definition confirmRelations :: "server \<Rightarrow> Shadow \<Rightarrow> unit tx" where
  "confirmRelations srv shadow =
     bindT (send srv (RelationOIDs (sh_Schema shadow) (sh_SourceTable shadow) (sh_ShadowTable shadow))) (\<lambda>r.
       case r of
         ROIDs sourceOID shadowOID \<Rightarrow>
           bindT (confirmRelation (sh_SourceOID shadow) sourceOID) (\<lambda>_.
           confirmRelation (sh_ShadowOID shadow) shadowOID)
       | _ \<Rightarrow> failT driverError)"

definition confirmResolution :: "server \<Rightarrow> Shadow \<Rightarrow> unit tx" where
  "confirmResolution srv shadow =
     (if length (sh_Conversions shadow) = 0 then returnT ()
      else bindT (send srv Fingerprint) (\<lambda>r.
        case r of
          RFingerprint found \<Rightarrow>
            if found \<noteq> sh_ConversionFingerprint shadow then failT (Refusal CauseConversionDrift)
            else returnT ()
        | _ \<Rightarrow> failT driverError))"

record CopierProofs =
  cp_target :: CopySwapTarget
  cp_shadow :: Shadow
  cp_lock :: TableLockSession
  cp_opts :: Options

text \<open>The copy resolves names in the catalog alone, or on the build's path when it converts.\<close>

definition copySearchPath :: "Shadow \<Rightarrow> string list" where
  "copySearchPath shadow =
     (if length (sh_Conversions shadow) > 0 then [sh_Schema shadow, ''public''] else [''pg_catalog''])"

definition guard :: "server \<Rightarrow> CopierProofs \<Rightarrow> lockMode \<Rightarrow> unit tx" where
  "guard srv c shadowMode =
     bindT (setCopySession srv (cp_target c) (copySearchPath (cp_shadow c)) (cp_opts c)) (\<lambda>_.
     bindT (holdRelations srv (cp_shadow c) shadowMode) (\<lambda>_.
     bindT (confirmLock srv (cp_lock c)) (\<lambda>_.
     bindT (confirmRelations srv (cp_shadow c)) (\<lambda>_.
     confirmResolution srv (cp_shadow c)))))"

definition chunkTx :: "server \<Rightarrow> CopierProofs \<Rightarrow> (server \<Rightarrow> 'a tx) \<Rightarrow> 'a tx" where
  "chunkTx srv c write =
     bindT (exec srv BeginTx) (\<lambda>_.
     bindT (guard srv c lockRowExclusive) (\<lambda>_.
     bindT (write srv) (\<lambda>a.
     bindT (confirmResolution srv (cp_shadow c)) (\<lambda>_.
     bindT (exec srv CommitTx) (\<lambda>_.
     returnT a)))))"

definition affected :: "reply \<Rightarrow> int64 tx" where
  "affected r = (case r of RAffected n \<Rightarrow> returnT n | _ \<Rightarrow> failT driverError)"

definition heldOff :: "reply \<Rightarrow> (int64 \<times> int64 list) tx" where
  "heldOff r = (case r of RHeld n held \<Rightarrow> returnT (n, held) | _ \<Rightarrow> failT driverError)"

definition copyChunk :: "server \<Rightarrow> CopierProofs \<Rightarrow> Chunk \<Rightarrow> int64 tx" where
  "copyChunk srv c chunk =
     chunkTx srv c (\<lambda>srv. bindT (send srv (WriteStmt (InsertRange (chunk_lower chunk) (chunk_upper chunk)))) affected)"

definition copySkipping :: "server \<Rightarrow> CopierProofs \<Rightarrow> Chunk \<Rightarrow> (int64 \<times> int64 list) tx" where
  "copySkipping srv c chunk =
     chunkTx srv c (\<lambda>srv.
       bindT (send srv (WriteStmt (InsertSkippingRange (chunk_lower chunk) (chunk_upper chunk)))) heldOff)"

definition copyKeys :: "server \<Rightarrow> CopierProofs \<Rightarrow> Chunk \<Rightarrow> int64 list \<Rightarrow> (int64 \<times> int64 list) tx" where
  "copyKeys srv c chunk keys =
     chunkTx srv c (\<lambda>srv. bindT (send srv (WriteStmt (InsertTheKeys keys))) heldOff)"

definition clearShadowLockMode :: "bool \<Rightarrow> lockMode" where
  "clearShadowLockMode fence = (if fence then lockShareRowExclusive else lockRowExclusive)"

definition clearBatch :: "server \<Rightarrow> CopierProofs \<Rightarrow> int64 \<Rightarrow> int64 \<Rightarrow> bool \<Rightarrow> int64 tx" where
  "clearBatch srv c lower limit fence =
     bindT (exec srv BeginTx) (\<lambda>_.
     bindT (guard srv c (clearShadowLockMode fence)) (\<lambda>_.
     bindT (bindT (send srv (WriteStmt (DeleteAbove lower limit))) affected) (\<lambda>n.
     bindT (exec srv CommitTx) (\<lambda>_.
     returnT n))))"

section \<open>What a trace confirms\<close>

named_theorems tx_simps \<open>unfolding of transaction steps\<close>

lemma bindT_Inr [tx_simps]:
  "bindT m f tr = (Inr b, tr2) \<longleftrightarrow> (\<exists>a tr1. m tr = (Inr a, tr1) \<and> f a tr1 = (Inr b, tr2))"
  by (auto simp: bindT_def split: prod.splits sum.splits)

lemma exec_Inr [tx_simps]:
  "exec srv st tr = (Inr u, tr') \<longleftrightarrow> (\<forall>e. srv tr st \<noteq> RErr e) \<and> tr' = tr @ [st]"
  by (auto simp: exec_def bindT_def send_def returnT_def split: reply.splits)

lemma send_Inr [tx_simps]:
  "send srv st tr = (Inr r, tr') \<longleftrightarrow> srv tr st = r \<and> (\<forall>e. r \<noteq> RErr e) \<and> tr' = tr @ [st]"
  by (auto simp: send_def split: reply.splits)

lemma returnT_Inr [tx_simps]: "returnT a tr = (Inr b, tr') \<longleftrightarrow> b = a \<and> tr' = tr"
  by (auto simp: returnT_def)

lemma failT_Inr [tx_simps]: "failT e tr \<noteq> (Inr b, tr')"
  by (simp add: failT_def)

text \<open>Every step only appends statements; \<open>sends m S\<close> says which it may append.\<close>

definition sends :: "'a tx \<Rightarrow> stmt set \<Rightarrow> bool" where
  "sends m S \<longleftrightarrow> (\<forall>tr. \<exists>ss. snd (m tr) = tr @ ss \<and> set ss \<subseteq> S)"

named_theorems sends_intro \<open>composition rules for the statements a step sends\<close>

lemma sends_bind [sends_intro]:
  assumes "sends m S" "\<And>a. sends (f a) S"
  shows "sends (bindT m f) S"
  unfolding sends_def
proof
  fix tr
  obtain r tr1 where m: "m tr = (r, tr1)" by fastforce
  then obtain ss where ss: "tr1 = tr @ ss" "set ss \<subseteq> S" using assms(1) by (metis sends_def snd_conv)
  show "\<exists>ss. snd (bindT m f tr) = tr @ ss \<and> set ss \<subseteq> S"
  proof (cases r)
    case (Inl e)
    then show ?thesis using m ss by (auto simp: bindT_def)
  next
    case (Inr a)
    obtain ss' where "snd (f a tr1) = tr1 @ ss'" "set ss' \<subseteq> S" using assms(2) by (metis sends_def)
    then show ?thesis using m ss Inr by (intro exI [of _ "ss @ ss'"]) (simp add: bindT_def)
  qed
qed

lemma sends_send [sends_intro]: "st \<in> S \<Longrightarrow> sends (send srv st) S"
  by (auto simp: sends_def send_def)

lemma sends_return [sends_intro]: "sends (returnT a) S"
  by (auto simp: sends_def returnT_def)

lemma sends_fail [sends_intro]: "sends (failT e) S"
  by (auto simp: sends_def failT_def)

lemma sends_exec [sends_intro]: "st \<in> S \<Longrightarrow> sends (exec srv st) S"
  unfolding exec_def by (intro sends_intro) simp

lemma sends_holdRelation [sends_intro]: "LockTable rel mode \<in> S \<Longrightarrow> sends (holdRelation srv rel mode) S"
  using sends_exec [of "LockTable rel mode" S srv]
  by (auto simp: sends_def holdRelation_def split: prod.splits sum.splits) (metis snd_conv)+

definition preparation :: "stmt set" where
  "preparation = {st. st \<noteq> BeginTx \<and> st \<noteq> CommitTx \<and> (\<forall>w. st \<noteq> WriteStmt w)}"

lemma sends_confirmResolution [sends_intro]: "sends (confirmResolution srv sh) preparation"
  unfolding confirmResolution_def
  by (auto intro!: sends_intro split: reply.splits simp: preparation_def)

lemma sends_guard: "sends (guard srv c mode) preparation"
  unfolding guard_def setCopySession_def setBudgets_def holdRelations_def confirmLock_def confirmRelations_def
    confirmRelation_def
  by (intro sends_intro) (auto intro!: sends_intro split: reply.splits option.splits simp: preparation_def)

definition session_stmts :: "CopierProofs \<Rightarrow> lockMode \<Rightarrow> stmt list" where
  "session_stmts c mode =
     [SetBudgets (Milliseconds (opt_LockTimeout (cp_opts c))) (Milliseconds (opt_StatementTimeout (cp_opts c))),
      SetRendering, SetSearchPath (copySearchPath (cp_shadow c)), SetRole (target_ownerRole (cp_target c)),
      LockTable (sh_Schema (cp_shadow c), sh_SourceTable (cp_shadow c)) lockAccessShare,
      LockTable (sh_Schema (cp_shadow c), sh_ShadowTable (cp_shadow c)) mode]"

definition lookup_stmt :: "CopierProofs \<Rightarrow> stmt" where
  "lookup_stmt c = LookupLockHolder (lock_key (cp_lock c))"

definition oids_stmt :: "CopierProofs \<Rightarrow> stmt" where
  "oids_stmt c = RelationOIDs (sh_Schema (cp_shadow c)) (sh_SourceTable (cp_shadow c)) (sh_ShadowTable (cp_shadow c))"

definition fp_stmts :: "CopierProofs \<Rightarrow> stmt list" where
  "fp_stmts c = (if sh_Conversions (cp_shadow c) = [] then [] else [Fingerprint])"

definition guard_stmts :: "CopierProofs \<Rightarrow> lockMode \<Rightarrow> stmt list" where
  "guard_stmts c mode = session_stmts c mode @ [lookup_stmt c, oids_stmt c] @ fp_stmts c"

definition resolution_confirmed :: "server \<Rightarrow> CopierProofs \<Rightarrow> stmt list \<Rightarrow> bool" where
  "resolution_confirmed srv c tr \<longleftrightarrow> (sh_Conversions (cp_shadow c) \<noteq> [] \<longrightarrow>
     srv tr Fingerprint = RFingerprint (sh_ConversionFingerprint (cp_shadow c)))"

text \<open>
  The server's answers after \<open>tr\<close>: with both relations locked, this session's
  backend holds the table lock, the two names are the proven relations, and
  the conversions resolve as they did when the shadow was built.
\<close>

definition guard_confirmed :: "server \<Rightarrow> CopierProofs \<Rightarrow> lockMode \<Rightarrow> stmt list \<Rightarrow> bool" where
  "guard_confirmed srv c mode tr \<longleftrightarrow>
     srv (tr @ session_stmts c mode) (lookup_stmt c) = RHolder (Some (lock_pid (cp_lock c))) \<and>
     srv (tr @ session_stmts c mode @ [lookup_stmt c]) (oids_stmt c) =
       ROIDs (Some (sh_SourceOID (cp_shadow c))) (Some (sh_ShadowOID (cp_shadow c))) \<and>
     resolution_confirmed srv c (tr @ session_stmts c mode @ [lookup_stmt c, oids_stmt c])"

lemma confirmResolution_Inr [tx_simps]:
  "confirmResolution srv (cp_shadow c) tr = (Inr u, tr') \<longleftrightarrow>
     resolution_confirmed srv c tr \<and> tr' = tr @ fp_stmts c"
  by (auto simp: confirmResolution_def resolution_confirmed_def fp_stmts_def tx_simps split: reply.splits if_splits)

lemma confirmLock_Inr [tx_simps]:
  "confirmLock srv lock tr = (Inr u, tr') \<longleftrightarrow>
     srv tr (LookupLockHolder (lock_key lock)) = RHolder (Some (lock_pid lock)) \<and>
     tr' = tr @ [LookupLockHolder (lock_key lock)]"
  by (auto simp: confirmLock_def tx_simps split: reply.splits option.splits if_splits)

lemma confirmRelations_Inr [tx_simps]:
  "confirmRelations srv sh tr = (Inr u, tr') \<longleftrightarrow>
     srv tr (RelationOIDs (sh_Schema sh) (sh_SourceTable sh) (sh_ShadowTable sh)) =
       ROIDs (Some (sh_SourceOID sh)) (Some (sh_ShadowOID sh)) \<and>
     tr' = tr @ [RelationOIDs (sh_Schema sh) (sh_SourceTable sh) (sh_ShadowTable sh)]"
  by (auto simp: confirmRelations_def confirmRelation_def tx_simps split: reply.splits option.splits if_splits)

lemma holdRelation_Inr [tx_simps]:
  "holdRelation srv rel mode tr = (Inr u, tr') \<longleftrightarrow> exec srv (LockTable rel mode) tr = (Inr u, tr')"
  by (auto simp: holdRelation_def split: prod.splits sum.splits)

lemma guard_Inr:
  assumes "guard srv c mode tr = (Inr u, tr')"
  shows "tr' = tr @ guard_stmts c mode" "guard_confirmed srv c mode tr"
  using assms
  by (auto simp: guard_def setCopySession_def setBudgets_def holdRelations_def tx_simps
      guard_stmts_def guard_confirmed_def session_stmts_def lookup_stmt_def oids_stmt_def)

section \<open>Guarded writes\<close>

text \<open>
  The trace of a guarded write as far as it got: the guard's statements, the
  write, and the commit only after the resolution was confirmed once more.
\<close>

definition write_guarded :: "server \<Rightarrow> CopierProofs \<Rightarrow> chunk_write \<Rightarrow> stmt list \<Rightarrow> bool" where
  "write_guarded srv c w tr \<longleftrightarrow>
     (CommitTx \<in> set tr \<longrightarrow> WriteStmt w \<in> set tr) \<and>
     (\<forall>w'. WriteStmt w' \<in> set tr \<longrightarrow> w' = w \<and>
       (\<exists>rest. tr = BeginTx # guard_stmts c lockRowExclusive @ WriteStmt w # rest \<and>
          guard_confirmed srv c lockRowExclusive [BeginTx] \<and>
          (CommitTx \<in> set tr \<longrightarrow> rest = fp_stmts c @ [CommitTx] \<and>
             resolution_confirmed srv c (BeginTx # guard_stmts c lockRowExclusive @ [WriteStmt w]))))"

lemma preparation_simps [simp]:
  "set ss \<subseteq> preparation \<Longrightarrow> CommitTx \<notin> set ss" "set ss \<subseteq> preparation \<Longrightarrow> WriteStmt w \<notin> set ss"
  by (auto simp: preparation_def)

lemma guard_stmts_preparation: "set (guard_stmts c mode) \<subseteq> preparation"
  by (auto simp: guard_stmts_def session_stmts_def lookup_stmt_def oids_stmt_def fp_stmts_def preparation_def)

lemma fp_stmts_preparation: "set (fp_stmts c) \<subseteq> preparation"
  by (auto simp: fp_stmts_def preparation_def)

lemma after_write:
  assumes "guard_confirmed srv c lockRowExclusive [BeginTx]" "\<And>r. sends (k r) {}"
  shows "write_guarded srv c w (snd (bindT (bindT (send srv (WriteStmt w)) k) (\<lambda>a.
      bindT (confirmResolution srv (cp_shadow c)) (\<lambda>_. bindT (exec srv CommitTx) (\<lambda>_. returnT a)))
      (BeginTx # guard_stmts c lockRowExclusive)))"
proof -
  let ?g = "BeginTx # guard_stmts c lockRowExclusive" and ?w = "WriteStmt w"
  note prep = preparation_simps [OF guard_stmts_preparation] preparation_simps [OF fp_stmts_preparation]
  obtain r t where b: "bindT (send srv ?w) k ?g = (r, t)" by fastforce
  have "snd (bindT (send srv ?w) k ?g) = ?g @ [?w]"
    using assms(2) by (auto simp: bindT_def send_def sends_def split: reply.splits)
  with b have t: "t = ?g @ [?w]" by simp
  have base: "write_guarded srv c w (?g @ [?w] @ ss)" if "set ss \<subseteq> preparation" for ss
    using that assms(1) prep by (auto simp: write_guarded_def)
  obtain r' t' where cr: "confirmResolution srv (cp_shadow c) t = (r', t')" by fastforce
  obtain ss where ss: "t' = t @ ss" "set ss \<subseteq> preparation"
    using sends_confirmResolution [of srv "cp_shadow c"] cr by (metis sends_def snd_conv)
  show ?thesis
  proof (cases "\<exists>e. r = Inl e \<or> r' = Inl e")
    case True
    then show ?thesis using b cr t ss base [of "[]"] base [of ss] by (cases r) (auto simp: bindT_def)
  next
    case False
    then obtain a u where ru: "r = Inr a" "r' = Inr u" by (cases r; cases r') auto
    then have "resolution_confirmed srv c t" "t' = t @ fp_stmts c" using cr by (simp_all add: tx_simps)
    then have "write_guarded srv c w (t @ fp_stmts c @ [CommitTx])"
      using assms(1) prep t by (auto simp: write_guarded_def)
    moreover have "snd (bindT (exec srv CommitTx) (\<lambda>_. returnT a) t') = t' @ [CommitTx]"
      by (auto simp: bindT_def exec_def send_def returnT_def split: reply.splits)
    ultimately show ?thesis using b cr ru \<open>t' = t @ fp_stmts c\<close> by (simp add: bindT_def)
  qed
qed

lemma chunkTx_guarded:
  assumes "\<And>r. sends (k r) {}"
  shows "write_guarded srv c w (snd (chunkTx srv c (\<lambda>srv. bindT (send srv (WriteStmt w)) k) []))"
proof -
  let ?rest = "\<lambda>a. bindT (confirmResolution srv (cp_shadow c)) (\<lambda>_. bindT (exec srv CommitTx) (\<lambda>_. returnT a))"
  have tx: "chunkTx srv c (\<lambda>srv. bindT (send srv (WriteStmt w)) k) [] =
      bindT (exec srv BeginTx) (\<lambda>_. bindT (guard srv c lockRowExclusive) (\<lambda>_.
        bindT (bindT (send srv (WriteStmt w)) k) ?rest)) []"
    by (simp add: chunkTx_def)
  obtain r t where b: "exec srv BeginTx [] = (r, t)" by fastforce
  have t: "t = [BeginTx]" using b by (auto simp: exec_def bindT_def send_def returnT_def split: reply.splits)
  obtain r1 t1 where g: "guard srv c lockRowExclusive t = (r1, t1)" by fastforce
  obtain ss where ss: "t1 = t @ ss" "set ss \<subseteq> preparation"
    using sends_guard [of srv c lockRowExclusive] g by (metis sends_def snd_conv)
  show ?thesis
  proof (cases "\<exists>e. r = Inl e \<or> r1 = Inl e")
    case True
    then show ?thesis unfolding tx using b g t ss by (cases r) (auto simp: bindT_def write_guarded_def)
  next
    case False
    then obtain u v where uv: "r = Inr u" "r1 = Inr v" by (cases r; cases r1) auto
    with g have "t1 = t @ guard_stmts c lockRowExclusive" "guard_confirmed srv c lockRowExclusive t"
      using guard_Inr [of srv c lockRowExclusive t v t1] by simp_all
    then show ?thesis
      using after_write [of srv c k w] assms b g t uv unfolding tx by (simp add: bindT_def)
  qed
qed

lemma sends_affected [simp]: "sends (affected r) {}" and sends_heldOff [simp]: "sends (heldOff r) {}"
  by (auto simp: affected_def heldOff_def intro!: sends_intro split: reply.splits)


section \<open>Refusals at construction\<close>

lemma checkShadow_ok:
  "checkShadow target (Some s) = Inr () \<longleftrightarrow>
     sh_ShadowTable s \<noteq> '''' \<and> sh_Schema s = target_schema target \<and> sh_SourceTable s = target_table target \<and>
     sh_ShadowTable s \<noteq> sh_SourceTable s \<and> sh_SourceOID s \<noteq> 0 \<and> sh_ShadowOID s \<noteq> 0 \<and>
     sh_SourceOID s \<noteq> sh_ShadowOID s \<and> target_pkColumn target \<in> set (sh_CopyColumns s) \<and>
     target_pkColumn target \<notin> fst ` set (sh_Conversions s) \<and>
     (\<forall>(column, expr) \<in> set (sh_Conversions s). column \<in> set (sh_CopyColumns s) \<and> expr \<noteq> '''') \<and>
     (sh_Conversions s = [] \<longleftrightarrow> sh_ConversionFingerprint s = '''')"
  by (auto simp: checkShadow_def Let_def map_of_eq_None_iff split: if_splits)

lemma validate_ok:
  "validate opts = Inr () \<longleftrightarrow> 1 \<le> opt_Workers opts \<and> Millisecond \<le> opt_LockTimeout opts \<and>
     Millisecond \<le> opt_StatementTimeout opts \<and> 1 \<le> opt_CollisionAttempts opts \<and> 0 \<le> opt_CollisionBackoff opts"
  by (auto simp: validate_def)

text \<open>
  The options check rejects exactly what cannot bound a copy. A zero
  field takes its default and always passes; otherwise at least one worker and
  one attempt, timeouts of at least a millisecond, a non-negative backoff, and
  chunk sizes that do not contradict each other are required, and nothing else.
\<close>

theorem Validate_exact:
  "Validate opts = Inr () \<longleftrightarrow>
     0 \<le> opt_Workers opts \<and> (opt_LockTimeout opts = 0 \<or> Millisecond \<le> opt_LockTimeout opts) \<and>
     (opt_StatementTimeout opts = 0 \<or> Millisecond \<le> opt_StatementTimeout opts) \<and>
     0 \<le> opt_CollisionAttempts opts \<and> 0 \<le> opt_CollisionBackoff opts \<and>
     opts_given_ok (opt_Chunker opts)"
proof -
  have "Validate opts = Inr () \<longleftrightarrow>
      validate (withDefaults opts) = Inr () \<and> opts_given_ok (opt_Chunker opts)"
    by (simp add: Validate_def chunkerValidate_ok chunkerWithDefaults_ok split: sum.splits)
  also have "\<dots> \<longleftrightarrow> 0 \<le> opt_Workers opts \<and> (opt_LockTimeout opts = 0 \<or> Millisecond \<le> opt_LockTimeout opts) \<and>
     (opt_StatementTimeout opts = 0 \<or> Millisecond \<le> opt_StatementTimeout opts) \<and>
     0 \<le> opt_CollisionAttempts opts \<and> 0 \<le> opt_CollisionBackoff opts \<and> opts_given_ok (opt_Chunker opts)"
    by (auto simp: validate_ok withDefaults_def Let_def DefaultWorkers_def DefaultLockTimeout_def
        DefaultStatementTimeout_def DefaultCollisionAttempts_def DefaultCollisionBackoff_def Millisecond_def)
  finally show ?thesis .
qed

end
