(* ===== verification/Copier_Work.thy ===== *)
theory Copier_Work
  imports Copier_Guard
begin

text \<open>
  The copy itself: the three insert statements of \<open>pkg/internal/chunksql\<close> as
  functions on tables, the copier's state and constructor (\<open>copier.go\<close>), and its
  workers (\<open>copier.go\<close>, \<open>cut.go\<close>, \<open>retry.go\<close>, \<open>copy_pending.go\<close>) as a state machine: a
  worker moves from one acquisition of the copier's locks or one transaction to
  the next, workers interleave freely, and the outcome of each transaction is
  an event.
\<close>

section \<open>The chunk inserts\<close>

text \<open>
  A table lists its rows with their keys. \<open>clash\<close> says which rows cannot stand
  together on a unique index or exclusion constraint other than the key's;
  \<open>conv\<close> is the select list, whose conversions may refuse a value.
\<close>

type_synonym 'r table = "(int64 \<times> 'r) list"

definition keysOf :: "'r table \<Rightarrow> int64 set" where
  "keysOf t = fst ` set t"

fun selectRows :: "('r \<Rightarrow> copier_error + 'r) \<Rightarrow> 'r table \<Rightarrow> copier_error + 'r table" where
  "selectRows conv [] = Inr []"
| "selectRows conv ((k, r) # rs) =
     (case conv r of
        Inl e \<Rightarrow> Inl e
      | Inr r' \<Rightarrow> (case selectRows conv rs of Inl e \<Rightarrow> Inl e | Inr rs' \<Rightarrow> Inr ((k, r') # rs')))"

text \<open>\<open>ON CONFLICT (pk) DO NOTHING\<close>: a clash elsewhere fails the statement.\<close>

fun insertStrict :: "('r \<Rightarrow> 'r \<Rightarrow> bool) \<Rightarrow> 'r table \<Rightarrow> 'r table \<Rightarrow> copier_error + 'r table" where
  "insertStrict clash [] shadow = Inr shadow"
| "insertStrict clash ((k, r) # rs) shadow =
     (if k \<in> keysOf shadow then insertStrict clash rs shadow
      else if \<exists>(_, q) \<in> set shadow. clash q r then Inl (PgError ''23505'')
      else insertStrict clash rs (shadow @ [(k, r)]))"

text \<open>\<open>ON CONFLICT DO NOTHING\<close>: a row that clashes anywhere is left out.\<close>

fun insertSkip :: "('r \<Rightarrow> 'r \<Rightarrow> bool) \<Rightarrow> 'r table \<Rightarrow> 'r table \<Rightarrow> 'r table" where
  "insertSkip clash [] shadow = shadow"
| "insertSkip clash ((k, r) # rs) shadow =
     (if k \<in> keysOf shadow \<or> (\<exists>(_, q) \<in> set shadow. clash q r) then insertSkip clash rs shadow
      else insertSkip clash rs (shadow @ [(k, r)]))"

definition Insert ::
  "('r \<Rightarrow> copier_error + 'r) \<Rightarrow> ('r \<Rightarrow> 'r \<Rightarrow> bool) \<Rightarrow> int64 \<Rightarrow> int64 \<Rightarrow> 'r table \<Rightarrow> 'r table \<Rightarrow>
   copier_error + (int64 \<times> 'r table)" where
  "Insert conv clash lower upper source shadow =
     (case selectRows conv (filter (\<lambda>(k, _). lower \<le> k \<and> k \<le> upper) source) of
        Inl e \<Rightarrow> Inl e
      | Inr rows \<Rightarrow>
          (case insertStrict clash rows shadow of
             Inl e \<Rightarrow> Inl e
           | Inr shadow' \<Rightarrow> Inr (int (length shadow') - int (length shadow), shadow')))"

definition insertPending ::
  "('r \<Rightarrow> copier_error + 'r) \<Rightarrow> ('r \<Rightarrow> 'r \<Rightarrow> bool) \<Rightarrow> (int64 \<Rightarrow> bool) \<Rightarrow> 'r table \<Rightarrow> 'r table \<Rightarrow>
   copier_error + (int64 \<times> int64 list \<times> 'r table)" where
  "insertPending conv clash matches source shadow =
     (case selectRows conv (filter (\<lambda>(k, _). matches k) source) of
        Inl e \<Rightarrow> Inl e
      | Inr rows \<Rightarrow>
          let shadow' = insertSkip clash rows shadow;
              ins = drop (length shadow) shadow'
          in Inr (int (length ins),
                  sort (map fst (filter (\<lambda>(k, _). k \<notin> keysOf ins \<and> k \<notin> keysOf shadow) rows)),
                  shadow'))"

definition InsertSkipping where
  "InsertSkipping conv clash lower upper = insertPending conv clash (\<lambda>k. lower \<le> k \<and> k \<le> upper)"

definition InsertKeys where
  "InsertKeys conv clash keys = insertPending conv clash (\<lambda>k. k \<in> set keys)"

lemma selectRows_keys:
  "selectRows conv rs = Inr rs' \<Longrightarrow> map fst rs' = map fst rs"
  by (induction conv rs arbitrary: rs' rule: selectRows.induct) (auto split: sum.splits)

lemma selectRows_row:
  assumes "selectRows conv rs = Inr rs'" "(k, r') \<in> set rs'"
  shows "\<exists>r. (k, r) \<in> set rs \<and> conv r = Inr r'"
  using assms
proof (induction conv rs arbitrary: rs' rule: selectRows.induct)
  case (2 conv k0 r0 rs)
  then obtain q qs where "conv r0 = Inr q" "selectRows conv rs = Inr qs" "rs' = (k0, q) # qs"
    by (auto split: sum.splits)
  with 2 show ?case by fastforce
qed simp

text \<open>Both inserts only ever append rows under new keys, so no shadow row is overwritten.\<close>

lemma keysOf_simps [simp]:
  "keysOf [] = {}" "keysOf (x # xs) = insert (fst x) (keysOf xs)" "keysOf (xs @ ys) = keysOf xs \<union> keysOf ys"
  by (auto simp: keysOf_def)

lemma insertStrict_appends:
  assumes "insertStrict clash rs sh = Inr sh'"
  shows "\<exists>new. sh' = sh @ new \<and> set new \<subseteq> set rs \<and> keysOf new \<inter> keysOf sh = {} \<and>
    keysOf rs \<subseteq> keysOf sh'"
  using assms
proof (induction clash rs sh rule: insertStrict.induct)
  case (2 clash k r rs sh)
  show ?case
  proof (cases "k \<in> keysOf sh")
    case True
    with 2 obtain new where "sh' = sh @ new" "set new \<subseteq> set rs" "keysOf new \<inter> keysOf sh = {}"
        "keysOf rs \<subseteq> keysOf sh'" by auto
    with True show ?thesis by (intro exI [of _ new]) auto
  next
    case False
    with 2(2,3) obtain new where "sh' = (sh @ [(k, r)]) @ new" "set new \<subseteq> set rs"
        "keysOf new \<inter> keysOf (sh @ [(k, r)]) = {}" "keysOf rs \<subseteq> keysOf sh'"
      by (auto split: if_splits)
    with False show ?thesis by (intro exI [of _ "(k, r) # new"]) auto
  qed
qed simp

lemma insertSkip_appends:
  "\<exists>new. insertSkip clash rs sh = sh @ new \<and> set new \<subseteq> set rs \<and> keysOf new \<inter> keysOf sh = {}"
proof (induction clash rs sh rule: insertSkip.induct)
  case (2 clash k r rs sh)
  show ?case
  proof (cases "k \<in> keysOf sh \<or> (\<exists>(_, q) \<in> set sh. clash q r)")
    case True
    with 2(1) obtain new where "insertSkip clash rs sh = sh @ new" "set new \<subseteq> set rs"
        "keysOf new \<inter> keysOf sh = {}" by blast
    with True show ?thesis by (intro exI [of _ new]) auto
  next
    case False
    with 2(2) obtain new where "insertSkip clash rs (sh @ [(k, r)]) = (sh @ [(k, r)]) @ new" "set new \<subseteq> set rs"
        "keysOf new \<inter> keysOf (sh @ [(k, r)]) = {}" by blast
    with False show ?thesis by (intro exI [of _ "(k, r) # new"]) auto
  qed
qed simp

lemma insertPending_result:
  assumes "insertPending conv clash matches source shadow = Inr (n, held, shadow')"
  shows "\<exists>new. shadow' = shadow @ new \<and> keysOf new \<inter> keysOf shadow = {} \<and> n = int (length new) \<and>
      (\<forall>(k, r') \<in> set new. \<exists>r. (k, r) \<in> set source \<and> matches k \<and> conv r = Inr r')"
    and "sorted held" and "set held = {k \<in> keysOf source. matches k} - keysOf shadow'"
proof -
  from assms obtain rows where sel: "selectRows conv (filter (\<lambda>(k, _). matches k) source) = Inr rows"
    and sh: "shadow' = insertSkip clash rows shadow"
    and n: "n = int (length (drop (length shadow) shadow'))"
    and held: "held = sort (map fst (filter (\<lambda>(k, _). k \<notin> keysOf (drop (length shadow) shadow') \<and>
      k \<notin> keysOf shadow) rows))"
    by (auto simp: insertPending_def Let_def split: sum.splits)
  obtain new where new: "shadow' = shadow @ new" "set new \<subseteq> set rows" "keysOf new \<inter> keysOf shadow = {}"
    using insertSkip_appends [of clash rows shadow] sh by auto
  have keys: "keysOf rows = {k \<in> keysOf source. matches k}"
  proof -
    have "keysOf rows = set (map fst (filter (\<lambda>(k, _). matches k) source))"
      by (simp add: keysOf_def flip: selectRows_keys [OF sel])
    then show ?thesis by (auto simp: keysOf_def)
  qed
  show "\<exists>new. shadow' = shadow @ new \<and> keysOf new \<inter> keysOf shadow = {} \<and> n = int (length new) \<and>
      (\<forall>(k, r') \<in> set new. \<exists>r. (k, r) \<in> set source \<and> matches k \<and> conv r = Inr r')"
    using new n selectRows_row [OF sel] by (intro exI [of _ new]) fastforce
  show "sorted held" by (simp add: held)
  show "set held = {k \<in> keysOf source. matches k} - keysOf shadow'"
    unfolding held keys [symmetric] new(1) by (force simp: keysOf_def image_iff)
qed

section \<open>The copier\<close>

record Copier =
  cop_proofs :: CopierProofs
  cop_chunker :: Chunker
  cop_ledger :: ledger
  cop_ran :: bool
  cop_collisions :: int64

definition NewCopier ::
  "CopySwapTarget \<Rightarrow> Shadow option \<Rightarrow> TableLockSession option \<Rightarrow> Watermark \<Rightarrow> Options \<Rightarrow> copier_error + Copier" where
  "NewCopier target shadow lock from opts =
     (if target_table target = '''' then Inl (Refusal CauseProofEmpty)
      else case checkShadow target shadow of
        Inl e \<Rightarrow> Inl e
      | Inr _ \<Rightarrow>
          (case requireTableLock lock target of
             Inl e \<Rightarrow> Inl e
           | Inr _ \<Rightarrow>
               let opts = withDefaults opts in
               (case validate opts of
                  Inl e \<Rightarrow> Inl e
                | Inr _ \<Rightarrow>
                    (case NewChunker target from (opt_Chunker opts) of
                       Inl e \<Rightarrow> Inl e
                     | Inr chunker \<Rightarrow>
                         Inr \<lparr>cop_proofs = \<lparr>cp_target = target, cp_shadow = the shadow,
                                cp_lock = the lock, cp_opts = opts\<rparr>,
                              cop_chunker = chunker, cop_ledger = newLedger from,
                              cop_ran = False, cop_collisions = 0\<rparr>))))"

definition start :: "Copier \<Rightarrow> copier_error + Copier" where
  "start c = (if cop_ran c then Inl ErrAlreadyRun else Inr (c\<lparr>cop_ran := True\<rparr>))"

text \<open>\<open>lost\<close> is what the lock session reports when the run ends, \<open>cause\<close> why it stopped.\<close>

definition finish :: "bool \<Rightarrow> copier_error option \<Rightarrow> Copier \<Rightarrow> copier_error + unit" where
  "finish lost cause c =
     (if lost then Inl (Refusal CauseLockLost)
      else case cause of
        Some e \<Rightarrow> Inl e
      | None \<Rightarrow>
          (let pos = position (cop_ledger c) in
           if length (pos_inFlight pos) \<noteq> 0 then Inl (Refusal CauseChunksInFlight)
           else if \<not> wm_valid (pos_watermark pos) \<or> wm_value (pos_watermark pos) \<noteq> MaxInt64
             then Inl (Refusal CauseFrontierBroken)
           else Inr ()))"

text \<open>
  The cut's read-only transaction: it may fail before the boundary is read, or
  at its commit, when the chunker's cursor has already moved.
\<close>

datatype cut_outcome =
    CutTxError copier_error
  | CutRead boundary_db
  | CutCommitError boundary_db copier_error

definition copierCut :: "cut_outcome \<Rightarrow> Copier \<Rightarrow> (copier_error + Chunk option) \<times> Copier" where
  "copierCut out c =
     (case out of
        CutTxError e \<Rightarrow> (Inl e, c)
      | CutRead db \<Rightarrow>
          (case Next db (cop_chunker c) of
             Inl e \<Rightarrow> (Inl e, c)
           | Inr (got, ch) \<Rightarrow> (Inr got, c\<lparr>cop_chunker := ch\<rparr>))
      | CutCommitError db e \<Rightarrow>
          (case Next db (cop_chunker c) of
             Inl e' \<Rightarrow> (Inl e', c)
           | Inr (got, ch) \<Rightarrow> (Inl e, c\<lparr>cop_chunker := ch\<rparr>)))"

definition copierClaim :: "cut_outcome \<Rightarrow> Copier \<Rightarrow> (copier_error + Chunk option) \<times> Copier" where
  "copierClaim out c =
     (case copierCut out c of
        (Inl e, c1) \<Rightarrow> (Inl e, c1)
      | (Inr None, c1) \<Rightarrow> (Inr None, c1)
      | (Inr (Some chunk), c1) \<Rightarrow>
          (let (ok, l) = claim (cop_ledger c1) chunk in
           if \<not> ok then (Inl (Refusal CauseFrontierBroken), c1\<lparr>cop_ledger := l\<rparr>)
           else (Inr (Some chunk), c1\<lparr>cop_ledger := l\<rparr>)))"

definition copierLand :: "Chunk \<Rightarrow> int64 \<Rightarrow> Copier \<Rightarrow> (copier_error + unit) \<times> Copier" where
  "copierLand chunk inserted c =
     (let (ok, l) = land (cop_ledger c) chunk inserted in
      (if \<not> ok then Inl (Refusal CauseChunksInFlight) else Inr (), c\<lparr>cop_ledger := l\<rparr>))"

definition copierSettle :: "Chunk \<Rightarrow> int64 \<Rightarrow> int64 list \<Rightarrow> Copier \<Rightarrow> (copier_error + unit) \<times> Copier" where
  "copierSettle chunk inserted pending c =
     (let (ok, l) = settle (cop_ledger c) chunk inserted pending in
      (if \<not> ok then Inl (Refusal CauseChunksInFlight) else Inr (), c\<lparr>cop_ledger := l\<rparr>))"

section \<open>Passes over a chunk\<close>

definition sqlstateUniqueViolation :: string where "sqlstateUniqueViolation = ''23505''"
definition sqlstateExclusionViolation :: string where "sqlstateExclusionViolation = ''23P01''"
definition sqlstateDeadlockDetected :: string where "sqlstateDeadlockDetected = ''40P01''"
definition sqlstateObjectNotInPrerequisiteState :: string where
  "sqlstateObjectNotInPrerequisiteState = ''55000''"

definition collided :: "copier_error \<Rightarrow> bool" where
  "collided err = (case err of
     PgError code \<Rightarrow> code = sqlstateUniqueViolation \<or> code = sqlstateExclusionViolation | _ \<Rightarrow> False)"

definition deadlocked :: "copier_error \<Rightarrow> bool" where
  "deadlocked err = (case err of PgError code \<Rightarrow> code = sqlstateDeadlockDetected | _ \<Rightarrow> False)"

definition earnsAnotherPass :: "copier_error \<Rightarrow> bool" where
  "earnsAnotherPass err = (if collided err then True else deadlocked err)"

definition refusesSkipping :: "copier_error \<Rightarrow> bool" where
  "refusesSkipping err =
     (case err of PgError code \<Rightarrow> code = sqlstateObjectNotInPrerequisiteState | _ \<Rightarrow> False)"

text \<open>
  Where a worker stands. \<open>Around\<close> carries the loop variables of
  \<open>copyAroundCollisions\<close>: the pass about to run, the rows committed so far, the
  time of the pass that committed the range, the pending keys (\<open>None\<close> while the
  range itself has not committed) and the last collision; \<open>Rerunning\<close> those of
  \<open>rerunWhole\<close>. A failed worker leaves its chunk in flight.
\<close>

datatype worker =
    Looping
  | Copying Chunk
  | Around Chunk int64 int64 int64 "int64 list option" copier_error
  | Rerunning Chunk int64 copier_error
  | Landing Chunk int64 int64
  | Feeding Chunk int64
  | Finished
  | Failed "Chunk option" copier_error

text \<open>
  What happens to a worker next: its context ends, its cut returns, its insert
  returns with the time it took, a further pass waits (or is cancelled waiting)
  and returns, or it takes a step that needs nothing from outside.
\<close>

datatype event =
    CtxEnded copier_error
  | CutDone cut_outcome
  | CopyDone "copier_error + int64" int64
  | PassDone "copier_error option" "copier_error + (int64 \<times> int64 list)" int64
  | RerunDone "copier_error option" "copier_error + int64" int64
  | Internal

abbreviation attempts :: "Copier \<Rightarrow> int64" where
  "attempts c \<equiv> opt_CollisionAttempts (cp_opts (cop_proofs c))"

definition countCollision :: "Copier \<Rightarrow> Copier" where
  "countCollision c = c\<lparr>cop_collisions := add64 (cop_collisions c) 1\<rparr>"

text \<open>\<open>waitBeforePass\<close>: the second pass waits for nothing; a later one may be cancelled waiting.\<close>

definition waitBeforePass :: "copier_error option \<Rightarrow> int64 \<Rightarrow> copier_error option" where
  "waitBeforePass cancelled pass = (if pass = 2 then None else cancelled)"

definition copyUntilClear :: "Copier \<Rightarrow> Chunk \<Rightarrow> copier_error + int64 \<Rightarrow> int64 \<Rightarrow> Copier \<times> worker" where
  "copyUntilClear c chunk result took =
     (case result of
        Inr inserted \<Rightarrow> (c, Landing chunk inserted took)
      | Inl err \<Rightarrow>
          if \<not> earnsAnotherPass err then (c, Failed (Some chunk) err)
          else (countCollision c, Around chunk 2 0 0 None err))"

definition copyAroundCollisions ::
  "Copier \<Rightarrow> Chunk \<Rightarrow> int64 \<Rightarrow> int64 \<Rightarrow> int64 \<Rightarrow> int64 list option \<Rightarrow> copier_error \<Rightarrow>
   copier_error option \<Rightarrow> copier_error + (int64 \<times> int64 list) \<Rightarrow> int64 \<Rightarrow> Copier \<times> worker" where
  "copyAroundCollisions c chunk pass sum_rows took pending collision cancelled result elapsed =
     (if pass = attempts c + 1 then (c, Failed (Some chunk) collision)
      else case waitBeforePass cancelled pass of
        Some e \<Rightarrow> (c, Failed (Some chunk) e)
      | None \<Rightarrow>
          (case result of
             Inl err \<Rightarrow>
               if deadlocked err
               then (countCollision c, Around chunk (pass + 1) sum_rows took pending err)
               else if pending = None \<and> refusesSkipping err
               then (c, Rerunning chunk (pass + 1) collision)
               else (c, Failed (Some chunk) err)
           | Inr (inserted, held) \<Rightarrow>
               let took = (if pending = None then elapsed else took);
                   sum_rows = add64 sum_rows inserted
               in if length held = 0 then (c, Landing chunk sum_rows took)
                  else case copierSettle chunk sum_rows held c of
                    (Inl e, c1) \<Rightarrow> (c1, Failed (Some chunk) e)
                  | (Inr _, c1) \<Rightarrow> (countCollision c1, Around chunk (pass + 1) sum_rows took (Some held) collision)))"

definition rerunWhole ::
  "Copier \<Rightarrow> Chunk \<Rightarrow> int64 \<Rightarrow> copier_error \<Rightarrow>
   copier_error option \<Rightarrow> copier_error + int64 \<Rightarrow> int64 \<Rightarrow> Copier \<times> worker" where
  "rerunWhole c chunk pass collision cancelled result elapsed =
     (if \<not> pass \<le> attempts c then (c, Failed (Some chunk) collision)
      else case waitBeforePass cancelled pass of
        Some e \<Rightarrow> (c, Failed (Some chunk) e)
      | None \<Rightarrow>
          (case result of
             Inr inserted \<Rightarrow> (c, Landing chunk inserted elapsed)
           | Inl err \<Rightarrow>
               if \<not> earnsAnotherPass err then (c, Failed (Some chunk) err)
               else (countCollision c, Rerunning chunk (pass + 1) err)))"

fun work :: "(rat \<Rightarrow> rat) \<Rightarrow> event \<Rightarrow> Copier \<Rightarrow> worker \<Rightarrow> (Copier \<times> worker) option" where
  "work rnd (CtxEnded e) c Looping = Some (c, Failed None e)"
| "work rnd (CutDone out) c Looping =
     (case copierClaim out c of
        (Inl e, c1) \<Rightarrow> Some (c1, Failed None e)
      | (Inr None, c1) \<Rightarrow> Some (c1, Finished)
      | (Inr (Some chunk), c1) \<Rightarrow> Some (c1, Copying chunk))"
| "work rnd (CopyDone result took) c (Copying chunk) = Some (copyUntilClear c chunk result took)"
| "work rnd (PassDone cancelled result elapsed) c (Around chunk pass sum_rows took pending collision) =
     Some (copyAroundCollisions c chunk pass sum_rows took pending collision cancelled result elapsed)"
| "work rnd (RerunDone cancelled result elapsed) c (Rerunning chunk pass collision) =
     Some (rerunWhole c chunk pass collision cancelled result elapsed)"
| "work rnd Internal c (Landing chunk inserted took) =
     (case copierLand chunk inserted c of
        (Inl e, c1) \<Rightarrow> Some (c1, Failed (Some chunk) e)
      | (Inr _, c1) \<Rightarrow> Some (c1, Feeding chunk took))"
| "work rnd Internal c (Feeding chunk took) =
     (case Feedback rnd (cop_chunker c) chunk took of
        Inl e \<Rightarrow> Some (c, Failed None e)
      | Inr ch \<Rightarrow> Some (c\<lparr>cop_chunker := ch\<rparr>, Looping))"
| "work rnd _ c _ = None"

section \<open>Interleaved workers\<close>

text \<open>
  Refusals that would mean the copier's own bookkeeping broke; the server and
  the guard never answer with one of them.
\<close>

definition broken :: "copier_error set" where
  "broken = Refusal ` {CauseFrontierBroken, CauseChunksInFlight, CauseChunkUnknown}"

fun event_ok :: "worker \<Rightarrow> event \<Rightarrow> bool" where
  "event_ok w (CtxEnded e) = (e \<notin> broken)"
| "event_ok w (CutDone (CutTxError e)) = (e \<notin> broken)"
| "event_ok w (CutDone (CutRead db)) = (db_ok db \<and> (\<forall>l i e. db l i = BoundaryError e \<longrightarrow> e \<notin> broken))"
| "event_ok w (CutDone (CutCommitError db e)) = False"
| "event_ok w (CopyDone result took) = (\<forall>e. result = Inl e \<longrightarrow> e \<notin> broken)"
| "event_ok w (PassDone cancelled result elapsed) =
     ((\<forall>e. cancelled = Some e \<longrightarrow> e \<notin> broken) \<and> (\<forall>e. result = Inl e \<longrightarrow> e \<notin> broken) \<and>
      (\<forall>chunk pass rows took pending collision n held.
         w = Around chunk pass rows took pending collision \<longrightarrow> result = Inr (n, held) \<longrightarrow>
         sorted held \<and> set held \<subseteq> chunk_keys chunk \<and> (\<forall>p. pending = Some p \<longrightarrow> set held \<subseteq> set p)))"
| "event_ok w (RerunDone cancelled result elapsed) =
     ((\<forall>e. cancelled = Some e \<longrightarrow> e \<notin> broken) \<and> (\<forall>e. result = Inl e \<longrightarrow> e \<notin> broken))"
| "event_ok w Internal = True"

type_synonym copy_system = "Copier \<times> worker list"

inductive copy_step :: "(rat \<Rightarrow> rat) \<Rightarrow> copy_system \<Rightarrow> copy_system \<Rightarrow> bool" for rnd where
  worker_moves: "i < length ws \<Longrightarrow> event_ok (ws ! i) ev \<Longrightarrow> work rnd ev c (ws ! i) = Some (c', w') \<Longrightarrow>
    copy_step rnd (c, ws) (c', ws[i := w'])"

fun owned :: "worker \<Rightarrow> Chunk multiset" where
  "owned (Copying chunk) = {#chunk#}"
| "owned (Around chunk _ _ _ _ _) = {#chunk#}"
| "owned (Rerunning chunk _ _) = {#chunk#}"
| "owned (Landing chunk _ _) = {#chunk#}"
| "owned (Failed (Some chunk) _) = {#chunk#}"
| "owned _ = {#}"

definition owned_all :: "worker list \<Rightarrow> Chunk multiset" where
  "owned_all ws = sum_list (map owned ws)"

definition pendingOf :: "Copier \<Rightarrow> Chunk \<Rightarrow> int64 list option" where
  "pendingOf c chunk = map_option partial_pending (ledger_partial (cop_ledger c) chunk)"

fun worker_ok :: "Copier \<Rightarrow> worker \<Rightarrow> bool" where
  "worker_ok c Looping = True"
| "worker_ok c (Copying chunk) = (pendingOf c chunk = None \<and> 0 < chunk_rows chunk)"
| "worker_ok c (Around chunk pass rows took pending collision) =
     (pendingOf c chunk = pending \<and> 0 < chunk_rows chunk \<and> 2 \<le> pass \<and> collision \<notin> broken)"
| "worker_ok c (Rerunning chunk pass collision) =
     (pendingOf c chunk = None \<and> 0 < chunk_rows chunk \<and> collision \<notin> broken)"
| "worker_ok c (Landing chunk rows took) = (0 < chunk_rows chunk)"
| "worker_ok c (Feeding chunk took) = (0 < chunk_rows chunk)"
| "worker_ok c Finished = chunker_done (cop_chunker c)"
| "worker_ok c (Failed chunk e) = (e \<notin> broken)"

definition copier_inv :: "Copier \<Rightarrow> bool" where
  "copier_inv c \<longleftrightarrow> ledger_inv (cop_ledger c) \<and> chunker_inv (cop_chunker c) \<and> sizing_inv (cop_chunker c) \<and>
     wm_keys (ledger_cut (cop_ledger c)) = cut_keys (cop_chunker c)"

definition system_inv :: "copy_system \<Rightarrow> bool" where
  "system_inv s \<longleftrightarrow> copier_inv (fst s) \<and> owned_all (snd s) = mset (ledger_inFlight (cop_ledger (fst s))) \<and>
     (\<forall>w \<in> set (snd s). worker_ok (fst s) w)"

text \<open>What one worker's move must keep for the others.\<close>

definition good_move :: "Copier \<Rightarrow> worker \<Rightarrow> Copier \<Rightarrow> worker \<Rightarrow> bool" where
  "good_move c w c' w' \<longleftrightarrow> copier_inv c' \<and> worker_ok c' w' \<and>
     mset (ledger_inFlight (cop_ledger c')) + owned w = mset (ledger_inFlight (cop_ledger c)) + owned w' \<and>
     (\<forall>chunk. owned w \<noteq> {#chunk#} \<longrightarrow> pendingOf c' chunk = pendingOf c chunk) \<and>
     (chunker_done (cop_chunker c) \<longrightarrow> chunker_done (cop_chunker c'))"

lemma owned_all_split: "i < length ws \<Longrightarrow> owned_all ws = owned_all (ws[i := Looping]) + owned (ws ! i)"
  unfolding owned_all_def by (induction ws arbitrary: i) (auto split: nat.splits)

lemma owned_all_update:
  assumes "i < length ws"
  shows "owned_all (ws[i := w]) + owned (ws ! i) = owned_all ws + owned w"
  using owned_all_split [OF assms] owned_all_split [of i "ws[i := w]"] assms by simp

lemma owned_subset: "w \<in> set ws \<Longrightarrow> owned w \<subseteq># owned_all ws"
  unfolding owned_all_def by (induction ws) (auto intro: subset_mset.add_increasing subset_mset.add_increasing2)

lemma owned_once:
  assumes "owned_all ws = mset xs" "distinct xs" "i < length ws" "w \<in> set (ws[i := Looping])"
    and "owned (ws ! i) = {#chunk#}"
  shows "owned w \<noteq> {#chunk#}"
proof
  assume w: "owned w = {#chunk#}"
  have "{#chunk, chunk#} \<subseteq># owned_all ws"
    using owned_subset [OF assms(4)] owned_all_split [OF assms(3)] w assms(5) by simp
  then have "2 \<le> count (mset xs) chunk"
    using assms(1) mset_subset_eq_count [of "{#chunk, chunk#}" "mset xs" chunk] by simp
  then show False using assms(2) by (auto simp: distinct_count_atmost_1 split: if_splits)
qed

lemma worker_ok_frame:
  assumes "worker_ok c w" "\<And>chunk. owned w = {#chunk#} \<Longrightarrow> pendingOf c' chunk = pendingOf c chunk"
    and "chunker_done (cop_chunker c) \<longrightarrow> chunker_done (cop_chunker c')"
  shows "worker_ok c' w"
  using assms by (cases w) auto

lemma owned_single: "owned w = {#} \<or> (\<exists>chunk. owned w = {#chunk#})"
  by (cases w rule: owned.cases) auto

lemma good_move_inv:
  assumes "system_inv (c, ws)" "i < length ws" "good_move c (ws ! i) c' w'"
  shows "system_inv (c', ws[i := w'])"
proof -
  let ?F = "mset (ledger_inFlight (cop_ledger c))" and ?F' = "mset (ledger_inFlight (cop_ledger c'))"
  have all: "owned_all ws = ?F" using assms(1) by (simp add: system_inv_def)
  have "?F' + owned (ws ! i) = owned_all (ws[i := w']) + owned (ws ! i)"
    using assms(3) owned_all_update [OF assms(2), of w'] all by (simp add: good_move_def)
  then have eq: "owned_all (ws[i := w']) = ?F'" by simp
  have dis: "distinct (ledger_inFlight (cop_ledger c))"
    using assms(1) by (simp add: system_inv_def copier_inv_def ledger_inv_def ledger_pre_def covers_def)
  have "worker_ok c' w" if w: "w \<in> set (ws[i := w'])" for w
  proof (cases "w = w'")
    case True
    then show ?thesis using assms(3) by (simp add: good_move_def)
  next
    case False
    then have other: "w \<in> set (ws[i := Looping])" "w \<in> set ws"
      using w assms(2) by (auto simp: set_conv_nth nth_list_update split: if_splits)
    show ?thesis
    proof (rule worker_ok_frame [of c])
      show "worker_ok c w" using assms(1) other(2) by (simp add: system_inv_def)
      show "chunker_done (cop_chunker c) \<longrightarrow> chunker_done (cop_chunker c')"
        using assms(3) by (simp add: good_move_def)
      show "pendingOf c' chunk = pendingOf c chunk" if "owned w = {#chunk#}" for chunk
        using that owned_once [OF all dis assms(2) other(1)] assms(3) by (auto simp: good_move_def)
    qed
  qed
  then show ?thesis using assms(3) eq by (simp add: system_inv_def good_move_def)
qed

section \<open>Every move is good\<close>

lemma ledger_inv_covers:
  "ledger_inv l \<Longrightarrow> covers (wm_keys (ledger_watermark l)) (ledger_inFlight l @ ledger_landed l) (wm_keys (ledger_cut l))"
  by (simp add: ledger_inv_def ledger_pre_def)

lemma inFlight_owned:
  assumes "system_inv (c, ws)" "i < length ws" "owned (ws ! i) = {#chunk#}"
  shows "chunk \<in> set (ledger_inFlight (cop_ledger c))"
proof -
  have "{#chunk#} \<subseteq># mset (ledger_inFlight (cop_ledger c))"
    using owned_subset [OF nth_mem [OF assms(2)]] assms(1,3) by (simp add: system_inv_def)
  then show ?thesis by (simp add: single_subset_iff)
qed

lemma copier_inv_same:
  assumes "copier_inv c" "cop_ledger c' = cop_ledger c" "cop_chunker c' = cop_chunker c"
  shows "copier_inv c'" "pendingOf c' = pendingOf c"
  using assms by (auto simp: copier_inv_def pendingOf_def)

lemma countCollision_sel [simp]:
  "cop_ledger (countCollision c) = cop_ledger c" "cop_chunker (countCollision c) = cop_chunker c"
  "copier_inv (countCollision c) = copier_inv c" "pendingOf (countCollision c) = pendingOf c"
  by (auto simp: countCollision_def copier_inv_def pendingOf_def)

lemma chunk_positive: "sizing_inv ch \<Longrightarrow> 0 < chunker_rows ch"
  by (simp add: sizing_inv_def opts_ok_def)

lemma claim_at_cursor:
  assumes "copier_inv c" "db_ok db" "Next db (cop_chunker c) = Inr (Some chunk, ch)"
  shows "startsAtFrontier (cop_ledger c) chunk" "chunk_ok chunk"
proof -
  note inv = assms(1) [unfolded copier_inv_def]
  note nc = Next_cut [OF _ assms(2,3)]
  have ci: "chunker_inv (cop_chunker c)" using inv by simp
  show ok: "chunk_ok chunk" using nc [OF ci] by (simp add: chunk_ok_def)
  let ?w = "ledger_cut (cop_ledger c)"
  have w: "wm_ok ?w" using inv by (simp add: ledger_inv_def ledger_pre_def)
  have keys: "wm_keys ?w = {k. MinInt64 \<le> k \<and> k < chunk_lower chunk}"
    using inv nc(7) [OF ci] nc(4) [OF ci] by (simp add: cut_keys_def)
  show "startsAtFrontier (cop_ledger c) chunk"
  proof (cases "wm_valid ?w")
    case False
    then have "{k. MinInt64 \<le> k \<and> k < chunk_lower chunk} = {}" using keys by (simp add: wm_keys_def)
    then have "chunk_lower chunk \<le> MinInt64" by force
    then show ?thesis using False ok by (simp add: startsAtFrontier_def chunk_ok_def is_int64_def)
  next
    case True
    then have v: "is_int64 (wm_value ?w)" "{k. MinInt64 \<le> k \<and> k \<le> wm_value ?w} = {k. MinInt64 \<le> k \<and> k < chunk_lower chunk}"
      using w keys by (simp_all add: wm_ok_def wm_keys_def)
    have "wm_value ?w \<in> {k. MinInt64 \<le> k \<and> k \<le> wm_value ?w}" using v(1) by (simp add: is_int64_def)
    then have "wm_value ?w < chunk_lower chunk" unfolding v(2) by simp
    moreover have "wm_value ?w + 1 \<notin> {k. MinInt64 \<le> k \<and> k \<le> wm_value ?w}" by simp
    then have "\<not> wm_value ?w + 1 < chunk_lower chunk" unfolding v(2) using v(1) by (simp add: is_int64_def)
    ultimately have lo: "chunk_lower chunk = wm_value ?w + 1" by simp
    then have "wm_value ?w \<noteq> MaxInt64" using ok by (auto simp: chunk_ok_def is_int64_def)
    then show ?thesis using True lo v(1) by (simp add: startsAtFrontier_def succ64_exact)
  qed
qed

lemma good_claim:
  assumes "copier_inv c" "event_ok Looping (CutDone out)" "work rnd (CutDone out) c Looping = Some (c', w')"
  shows "good_move c Looping c' w'"
proof (cases out)
  case (CutTxError e)
  with assms show ?thesis by (auto simp: copierClaim_def copierCut_def good_move_def)
next
  case (CutCommitError db e)
  with assms(2) show ?thesis by simp
next
  case (CutRead db)
  note inv = assms(1) [unfolded copier_inv_def]
  have db: "db_ok db" using assms(2) CutRead by simp
  show ?thesis
  proof (cases "Next db (cop_chunker c)")
    case (Inl e)
    then have "db (chunker_next (cop_chunker c)) (sub64 (chunker_rows (cop_chunker c)) 1) \<in> {BoundaryNull, BoundaryError e}"
      using Next_error [OF _ db Inl] inv by simp
    then have "e \<notin> broken"
      using assms(2) CutRead Inl by (auto simp: Next_def boundary_def broken_def split: if_splits)
    then show ?thesis
      using assms CutRead Inl by (auto simp: copierClaim_def copierCut_def good_move_def)
  next
    case (Inr res)
    obtain got ch where res: "res = (got, ch)" by fastforce
    show ?thesis
    proof (cases got)
      case None
      then have "chunker_done (cop_chunker c)" "ch = cop_chunker c" using Inr res by (simp_all add: Next_none)
      then show ?thesis
        using assms CutRead Inr res None
        by (auto simp: copierClaim_def copierCut_def good_move_def copier_inv_def pendingOf_def)
    next
      case (Some chunk)
      have n: "Next db (cop_chunker c) = Inr (Some chunk, ch)" using Inr res Some by simp
      note nc = Next_cut [OF conjunct1 [OF conjunct2 [OF inv]] db n]
      note at = claim_at_cursor [OF assms(1) db n]
      obtain l where l: "claim (cop_ledger c) chunk = (True, l)" using at(1) by (simp add: claim_def)
      note ci = claim_inv [OF _ at(2) l]
      have lres: "l = (cop_ledger c)\<lparr>ledger_inFlight := ledger_inFlight (cop_ledger c) @ [chunk],
          ledger_cut := NewWatermark (chunk_upper chunk)\<rparr>" using claim_result(3) [OF l] by simp
      have "ledger_partial (cop_ledger c) chunk = None"
        using claim_fresh [OF _ at(2) l] inv by simp
      then show ?thesis
        using assms(3) CutRead n l nc ci inv chunk_positive [of "cop_chunker c"] lres
        by (auto simp: copierClaim_def copierCut_def good_move_def copier_inv_def pendingOf_def sizing_inv_def)
    qed
  qed
qed

lemma good_copy:
  assumes "copier_inv c" "event_ok (Copying chunk) (CopyDone result took)" "worker_ok c (Copying chunk)"
    and "copyUntilClear c chunk result took = (c', w')"
  shows "good_move c (Copying chunk) c' w'"
  using assms by (auto simp: copyUntilClear_def good_move_def split: sum.splits if_splits)

lemma settle_move:
  assumes "copier_inv c" "chunk \<in> set (ledger_inFlight (cop_ledger c))" "held \<noteq> []"
    and "sorted held" "set held \<subseteq> chunk_keys chunk"
  obtains c1 where "copierSettle chunk rows held c = (Inr (), c1)" "copier_inv c1"
    "ledger_inFlight (cop_ledger c1) = ledger_inFlight (cop_ledger c)" "cop_chunker c1 = cop_chunker c"
    "pendingOf c1 = (pendingOf c)(chunk := Some held)"
proof -
  obtain l where l: "settle (cop_ledger c) chunk rows held = (True, l)"
    using assms(2,3) by (simp add: settle_def)
  have li: "ledger_inv l" using settle_inv [OF _ l assms(4,5)] assms(1) by (simp add: copier_inv_def)
  have lr: "l = (cop_ledger c)\<lparr>
      ledger_rows := add64 (ledger_rows (cop_ledger c)) (sub64 rows (partialRows (cop_ledger c) chunk)),
      ledger_partial := (ledger_partial (cop_ledger c))(chunk \<mapsto> \<lparr>partial_rows = rows, partial_pending = held\<rparr>)\<rparr>"
    using l assms(2,3) by (simp add: settle_def)
  show thesis
    by (rule that [of "c\<lparr>cop_ledger := l\<rparr>"])
      (use assms(1) l li lr in \<open>auto simp: copierSettle_def copier_inv_def pendingOf_def\<close>)
qed

lemma good_pass:
  assumes "copier_inv c" "event_ok w (PassDone cancelled result elapsed)" "worker_ok c w"
    and w: "w = Around chunk pass rows took pending collision"
    and "chunk \<in> set (ledger_inFlight (cop_ledger c))"
    and "copyAroundCollisions c chunk pass rows took pending collision cancelled result elapsed = (c', w')"
  shows "good_move c w c' w'"
proof (cases "\<exists>n held. result = Inr (n, held) \<and> held \<noteq> [] \<and> pass \<noteq> attempts c + 1 \<and> waitBeforePass cancelled pass = None")
  case True
  then obtain n held where r: "result = Inr (n, held)" "held \<noteq> []" "pass \<noteq> attempts c + 1"
    "waitBeforePass cancelled pass = None" by blast
  have h: "sorted held" "set held \<subseteq> chunk_keys chunk" using assms(2) w r(1) by simp_all
  obtain c1 where "copierSettle chunk (add64 rows n) held c = (Inr (), c1)" "copier_inv c1"
    "ledger_inFlight (cop_ledger c1) = ledger_inFlight (cop_ledger c)" "cop_chunker c1 = cop_chunker c"
    "pendingOf c1 = (pendingOf c)(chunk := Some held)"
    using settle_move [OF assms(1,5) r(2) h] by metis
  then show ?thesis
    using assms(3,6) r by (auto simp: copyAroundCollisions_def Let_def good_move_def w)
next
  case False
  then show ?thesis
    using assms(1-3,6)
    by (auto simp: copyAroundCollisions_def Let_def good_move_def w waitBeforePass_def
        split: sum.splits if_splits option.splits prod.splits)
qed

lemma good_rerun:
  assumes "copier_inv c" "event_ok w (RerunDone cancelled result elapsed)" "worker_ok c w"
    and w: "w = Rerunning chunk pass collision"
    and "rerunWhole c chunk pass collision cancelled result elapsed = (c', w')"
  shows "good_move c w c' w'"
  using assms
  by (auto simp: rerunWhole_def good_move_def waitBeforePass_def split: sum.splits if_splits option.splits)

lemma good_land:
  assumes "copier_inv c" "worker_ok c (Landing chunk rows took)" "chunk \<in> set (ledger_inFlight (cop_ledger c))"
    and "work rnd Internal c (Landing chunk rows took) = Some (c', w')"
  shows "good_move c (Landing chunk rows took) c' w'"
proof -
  obtain l where l: "land (cop_ledger c) chunk rows = (True, l)" using assms(3) by (simp add: land_def)
  have "ledger_inv (cop_ledger c)" using assms(1) by (simp add: copier_inv_def)
  note li = land_inv [OF this l]
  have c': "c' = c\<lparr>cop_ledger := l\<rparr>" "w' = Feeding chunk took" using assms(4) l by (simp_all add: copierLand_def)
  show ?thesis
    using assms(1-3) li unfolding c' by (auto simp: good_move_def copier_inv_def pendingOf_def)
qed

lemma good_feed:
  assumes "copier_inv c" "worker_ok c (Feeding chunk took)" "rounding rnd"
    and "work rnd Internal c (Feeding chunk took) = Some (c', w')"
  shows "good_move c (Feeding chunk took) c' w'"
proof -
  obtain ch where f: "Feedback rnd (cop_chunker c) chunk took = Inr ch" using assms(2) by (simp add: Feedback_def)
  note fc = Feedback_cursor [OF f]
  have "sizing_inv ch" using Feedback_sizing [OF assms(3) _ f] assms(1) by (simp add: copier_inv_def)
  then show ?thesis
    using assms(1,4) f fc by (auto simp: good_move_def copier_inv_def pendingOf_def)
qed

lemma copy_step_inv:
  assumes "copy_step rnd s s'" "system_inv s" "rounding rnd"
  shows "system_inv s'"
  using assms(1)
proof cases
  case (worker_moves i ws ev c c' w')
  let ?w = "ws ! i"
  have inv: "copier_inv c" and ok: "worker_ok c ?w"
    using assms(2) worker_moves(1,3) by (auto simp: system_inv_def)
  have fl: "chunk \<in> set (ledger_inFlight (cop_ledger c))" if "owned ?w = {#chunk#}" for chunk
    using inFlight_owned [OF _ worker_moves(3) that] assms(2) worker_moves(1) by simp
  have "good_move c ?w c' w'"
  proof (cases "(rnd, ev, c, ?w)" rule: work.cases)
    case (1 rnd e c)
    then show ?thesis using worker_moves(4,5) inv by (auto simp: good_move_def)
  qed (use worker_moves(4,5) inv ok fl assms(3) in
      \<open>auto intro: good_claim good_copy good_pass good_rerun good_land good_feed\<close>)
  then show ?thesis using good_move_inv assms(2) worker_moves by blast
qed

section \<open>A run from its construction\<close>

lemma NewCopier_Inr:
  assumes "NewCopier target shadow lock from opts = Inr c"
  shows "NewChunker target from (opt_Chunker (withDefaults opts)) = Inr (cop_chunker c)"
    "cop_ledger c = newLedger from" "cp_opts (cop_proofs c) = withDefaults opts" "\<not> cop_ran c"
    "validate (withDefaults opts) = Inr ()"
  using assms by (auto simp: NewCopier_def Let_def split: if_splits sum.splits)

lemma owned_all_replicate [simp]: "owned_all (replicate n Looping) = {#}"
  by (induction n) (auto simp: owned_all_def)

lemma initial_inv:
  assumes "NewCopier target shadow lock from opts = Inr c0" "start c0 = Inr c" "wm_ok from"
  shows "system_inv (c, replicate n Looping)"
proof -
  note nc = NewCopier_Inr [OF assms(1)]
  note ni = NewChunker_inv [OF nc(1) assms(3)]
  have c: "c = c0\<lparr>cop_ran := True\<rparr>" using assms(2) by (auto simp: start_def split: if_splits)
  have "ledger_inFlight (newLedger from) = []" "ledger_cut (newLedger from) = from"
    by (simp_all add: newLedger_def Let_def split: prod.splits)
  then show ?thesis
    using ni nc(2) newLedger_inv [OF assms(3)] by (auto simp: system_inv_def copier_inv_def c)
qed

lemma copy_steps_inv: "(copy_step rnd)\<^sup>*\<^sup>* s s' \<Longrightarrow> system_inv s \<Longrightarrow> rounding rnd \<Longrightarrow> system_inv s'"
  by (induction rule: rtranclp_induct) (auto intro: copy_step_inv)

lemma all_finished:
  assumes "system_inv (c, ws)" "\<forall>w \<in> set ws. w = Finished" "ws \<noteq> []"
  shows "finish False None c = Inr ()" and "is_int64 k \<Longrightarrow> k \<in> wm_keys (ledger_watermark (cop_ledger c))"
proof -
  have inv: "copier_inv c" using assms(1) by (simp add: system_inv_def)
  have "owned_all ws = {#}" using assms(2) by (induction ws) (auto simp: owned_all_def)
  then have empty: "ledger_inFlight (cop_ledger c) = []" using assms(1) by (simp add: system_inv_def)
  have "Finished \<in> set ws" using assms(2,3) by (cases ws) auto
  then have "chunker_done (cop_chunker c)" using assms(1) by (fastforce simp: system_inv_def)
  then have all: "wm_keys (ledger_watermark (cop_ledger c)) = {k. is_int64 k}"
    using inv nothing_inFlight [OF _ empty] by (simp add: copier_inv_def cut_keys_def)
  then show "is_int64 k \<Longrightarrow> k \<in> wm_keys (ledger_watermark (cop_ledger c))" by simp
  have "MaxInt64 \<in> wm_keys (ledger_watermark (cop_ledger c))" using all by simp
  moreover have "wm_ok (ledger_watermark (cop_ledger c))"
    using inv by (simp add: copier_inv_def ledger_inv_def ledger_pre_def)
  ultimately have "wm_valid (ledger_watermark (cop_ledger c)) \<and> wm_value (ledger_watermark (cop_ledger c)) = MaxInt64"
    by (auto simp: wm_keys_def wm_ok_def is_int64_def split: if_splits)
  then show "finish False None c = Inr ()" using empty by (simp add: finish_def position_def Let_def)
qed

lemma finish_accepts:
  assumes "finish lost cause c = Inr ()" "ledger_inv (cop_ledger c)"
  shows "\<not> lost \<and> cause = None \<and> (\<forall>k. is_int64 k \<longrightarrow> Classify (position (cop_ledger c)) k = KeyLanded)"
proof -
  have f: "\<not> lost" "cause = None" "wm_valid (ledger_watermark (cop_ledger c))" "wm_value (ledger_watermark (cop_ledger c)) = MaxInt64"
    using assms(1) by (auto simp: finish_def position_def Let_def split: if_splits option.splits)
  have "k \<in> wm_keys (ledger_watermark (cop_ledger c))" if "is_int64 k" for k
    using f(3,4) that by (simp add: wm_keys_def is_int64_def)
  then show ?thesis using f(1,2) watermark_landed [OF assms(2)] by blast
qed

text \<open>
  C9: A copy whose workers all finish has copied everything. However the
  workers of a run interleave and whatever the server answers them, no worker
  stops because the copier's own frontier, chunks or sizes were inconsistent;
  when every worker has run out of chunks, \<open>finish\<close> accepts the run; and in any
  state of any run \<open>finish\<close> accepts only a copy without a failure and with the lock
  held in which every key of the key space reads as landed.
\<close>

theorem finished_copy_is_complete:
  assumes "NewCopier target shadow lock from opts = Inr c0" "start c0 = Inr c1" "wm_ok from" "rounding rnd"
    and "(copy_step rnd)\<^sup>*\<^sup>* (c1, replicate n Looping) (c, ws)"
  shows "(\<forall>chunk e. Failed chunk e \<in> set ws \<longrightarrow> e \<notin> broken) \<and>
    (n \<noteq> 0 \<and> (\<forall>w \<in> set ws. w = Finished) \<longrightarrow> finish False None c = Inr ()) \<and>
    (\<forall>lost cause. finish lost cause c = Inr () \<longrightarrow>
       \<not> lost \<and> cause = None \<and> (\<forall>k. is_int64 k \<longrightarrow> Classify (position (cop_ledger c)) k = KeyLanded))"
proof -
  have inv: "system_inv (c, ws)"
    using copy_steps_inv [OF assms(5) initial_inv [OF assms(1-3)] assms(4)] .
  have "length (snd s') = length (snd s)" if "(copy_step rnd)\<^sup>*\<^sup>* s s'" for s s'
    using that by (induction rule: rtranclp_induct) (auto elim!: copy_step.cases)
  from this [OF assms(5)] have len: "length ws = n" by simp
  have "e \<notin> broken" if "Failed chunk e \<in> set ws" for chunk e
    using inv that by (fastforce simp: system_inv_def)
  moreover have "finish False None c = Inr ()" if "n \<noteq> 0" "\<forall>w \<in> set ws. w = Finished"
    using all_finished [OF inv that(2)] that(1) len by auto
  moreover have "ledger_inv (cop_ledger c)" using inv by (simp add: system_inv_def copier_inv_def)
  ultimately show ?thesis using finish_accepts by blast
qed

text \<open>A concrete schedule of workers and events, for evaluating runs.\<close>

fun runSystem :: "(rat \<Rightarrow> rat) \<Rightarrow> (nat \<times> event) list \<Rightarrow> copy_system \<Rightarrow> copy_system option" where
  "runSystem rnd [] s = Some s"
| "runSystem rnd ((i, ev) # es) (c, ws) =
     (if i < length ws
      then case work rnd ev c (ws ! i) of
          None \<Rightarrow> None
        | Some (c', w') \<Rightarrow> runSystem rnd es (c', ws[i := w'])
      else None)"

lemma runSystem_steps:
  assumes "runSystem rnd es s = Some s'" "\<forall>(i, ev) \<in> set es. \<forall>w. event_ok w ev"
  shows "(copy_step rnd)\<^sup>*\<^sup>* s s'"
  using assms
proof (induction rnd es s rule: runSystem.induct)
  case (2 rnd i ev es c ws)
  then obtain c1 w1 where "i < length ws" "work rnd ev c (ws ! i) = Some (c1, w1)"
      "runSystem rnd es (c1, ws[i := w1]) = Some s'" by (auto split: if_splits option.splits)
  moreover from this have "copy_step rnd (c, ws) (c1, ws[i := w1])"
    using 2(3) by (intro worker_moves) auto
  ultimately show ?case using 2 by (auto intro: converse_rtranclp_into_rtranclp)
qed simp

definition example_shadow :: Shadow where
  "example_shadow = \<lparr>sh_Schema = ''public'', sh_SourceTable = ''orders'', sh_ShadowTable = ''_orders_new'',
     sh_SourceOID = 16384, sh_ShadowOID = 16400, sh_CopyColumns = [''id'', ''qty''], sh_Conversions = [],
     sh_ConversionFingerprint = ''''\<rparr>"

definition example_lock :: TableLockSession where
  "example_lock = \<lparr>lock_schema = ''public'', lock_table = ''orders'', lock_key = 7, lock_pid = 42, lock_lost = False\<rparr>"

definition example_options :: Options where
  "example_options = \<lparr>opt_Workers = 0, opt_LockTimeout = 0, opt_StatementTimeout = 0, opt_Chunker = example_opts,
     opt_CollisionAttempts = 0, opt_CollisionBackoff = 0\<rparr>"

definition example_copier :: Copier where
  "example_copier = projr (NewCopier example_target (Some example_shadow) (Some example_lock) zeroWatermark example_options)"

definition example_schedule :: "(nat \<times> event) list" where
  "example_schedule =
     [(0, CutDone (CutRead (boundaryQuery [3, 5, 9]))), (1, CutDone (CutRead (boundaryQuery [3, 5, 9]))),
      (1, CopyDone (Inr 1) 0), (0, CopyDone (Inl (PgError ''23505'')) 0), (1, Internal), (1, Internal),
      (1, CutDone (CutRead (boundaryQuery [3, 5, 9]))), (0, PassDone None (Inr (2, [])) 0),
      (0, Internal), (0, Internal),
      (0, CutDone (CutRead (boundaryQuery [3, 5, 9])))]"

definition example_end :: copy_system where
  "example_end = the (runSystem (\<lambda>x. x) example_schedule (example_copier\<lparr>cop_ran := True\<rparr>, [Looping, Looping]))"

lemma example_NewCopier:
  "NewCopier example_target (Some example_shadow) (Some example_lock) zeroWatermark example_options = Inr example_copier"
proof -
  have "is_ok (NewCopier example_target (Some example_shadow) (Some example_lock) zeroWatermark example_options)"
    unfolding is_ok_def by code_simp
  then show ?thesis by (auto simp: example_copier_def elim!: is_okE)
qed

lemma example_start: "start example_copier = Inr (example_copier\<lparr>cop_ran := True\<rparr>)"
  using NewCopier_Inr(4) [OF example_NewCopier] by (simp add: start_def)

lemma example_steps:
  "(copy_step (\<lambda>x. x))\<^sup>*\<^sup>* (example_copier\<lparr>cop_ran := True\<rparr>, replicate 2 Looping) (fst example_end, [Finished, Finished])"
proof -
  let ?r = "runSystem (\<lambda>x. x) example_schedule (example_copier\<lparr>cop_ran := True\<rparr>, [Looping, Looping])"
  have "map_option snd ?r = Some [Finished, Finished]" by code_simp
  then have "?r = Some (fst example_end, [Finished, Finished])" by (auto simp: example_end_def)
  moreover have "\<forall>(i, ev) \<in> set example_schedule. \<forall>w. event_ok w ev"
    by (auto simp: example_schedule_def example_db_ok broken_def boundaryQuery_def Let_def split: if_splits)
  ultimately have "(copy_step (\<lambda>x. x))\<^sup>*\<^sup>* (example_copier\<lparr>cop_ran := True\<rparr>, [Looping, Looping])
      (fst example_end, [Finished, Finished])" by (rule runSystem_steps)
  then show ?thesis by (simp add: numeral_2_eq_2)
qed

lemma rounding_id: "rounding (\<lambda>x. x)"
  by (simp add: rounding_def)

theorem finished_copy_is_complete_witness:
  "finish False None (fst example_end) = Inr () \<and>
   Classify (position (cop_ledger (fst example_end))) 3 = KeyLanded"
proof -
  note run = finished_copy_is_complete [OF example_NewCopier example_start wm_ok_zero rounding_id example_steps]
  have "finish False None (fst example_end) = Inr ()" using run by simp
  moreover have "is_int64 3" by (simp add: int64_simps)
  ultimately show ?thesis using run by blast
qed

text \<open>
  A chunk that did not land is never behind the checkpoint. In every
  state a run can reach, the keys of a chunk some worker still holds, or gave
  up on, lie above the watermark a later run would resume from.
\<close>

theorem unlanded_chunk_above_watermark:
  assumes "NewCopier target shadow lock from opts = Inr c0" "start c0 = Inr c1" "wm_ok from" "rounding rnd"
    and "(copy_step rnd)\<^sup>*\<^sup>* (c1, replicate n Looping) (c, ws)" "w \<in> set ws" "chunk \<in># owned w"
  shows "chunk_keys chunk \<inter> wm_keys (ledger_watermark (cop_ledger c)) = {} \<and>
    chunk \<in> set (pos_inFlight (position (cop_ledger c)))"
proof -
  have inv: "system_inv (c, ws)"
    using copy_steps_inv [OF assms(5) initial_inv [OF assms(1-3)] assms(4)] .
  then have "chunk \<in># mset (ledger_inFlight (cop_ledger c))"
    using owned_subset [OF assms(6)] assms(7) by (auto simp: system_inv_def dest: mset_subset_eqD)
  then have "chunk \<in> set (ledger_inFlight (cop_ledger c))" by simp
  moreover have "covers (wm_keys (ledger_watermark (cop_ledger c)))
      (ledger_inFlight (cop_ledger c) @ ledger_landed (cop_ledger c)) (wm_keys (ledger_cut (cop_ledger c)))"
    using inv by (intro ledger_inv_covers) (simp add: system_inv_def copier_inv_def)
  ultimately show ?thesis by (auto simp: covers_def position_def)
qed

definition example_failed :: Copier where
  "example_failed = fst (the (runSystem (\<lambda>x. x)
     [(0, CutDone (CutRead (boundaryQuery [3, 5, 9]))), (0, CopyDone (Inl ContextEnded) 0)]
     (example_copier\<lparr>cop_ran := True\<rparr>, [Looping])))"

lemma example_failed_steps:
  "(copy_step (\<lambda>x. x))\<^sup>*\<^sup>* (example_copier\<lparr>cop_ran := True\<rparr>, replicate 1 Looping)
     (example_failed, [Failed (Some example_A) ContextEnded])"
proof -
  let ?es = "[(0, CutDone (CutRead (boundaryQuery [3, 5, 9]))), (0, CopyDone (Inl ContextEnded) 0)]"
  let ?r = "runSystem (\<lambda>x. x) ?es (example_copier\<lparr>cop_ran := True\<rparr>, [Looping])"
  have "map_option snd ?r = Some [Failed (Some example_A) ContextEnded]" by code_simp
  then have "?r = Some (fst (the ?r), [Failed (Some example_A) ContextEnded])" by auto
  moreover have "\<forall>(i, ev) \<in> set ?es. \<forall>w. event_ok w ev"
    by (auto simp: example_db_ok broken_def boundaryQuery_def Let_def split: if_splits)
  ultimately have "(copy_step (\<lambda>x. x))\<^sup>*\<^sup>* (example_copier\<lparr>cop_ran := True\<rparr>, [Looping])
      (fst (the ?r), [Failed (Some example_A) ContextEnded])" by (rule runSystem_steps)
  then show ?thesis by (simp add: example_failed_def)
qed

theorem unlanded_chunk_above_watermark_witness:
  "chunk_keys example_A \<inter> wm_keys (ledger_watermark (cop_ledger example_failed)) = {} \<and>
   example_A \<in> set (pos_inFlight (position (cop_ledger example_failed)))"
proof -
  have "Failed (Some example_A) ContextEnded \<in> set [Failed (Some example_A) ContextEnded]"
    "example_A \<in># owned (Failed (Some example_A) ContextEnded)" by simp_all
  from unlanded_chunk_above_watermark [OF example_NewCopier example_start wm_ok_zero rounding_id
      example_failed_steps this]
  show ?thesis .
qed

section \<open>The passes are bounded\<close>

fun is_pass :: "event \<Rightarrow> bool" where
  "is_pass (CopyDone _ _) = True"
| "is_pass (PassDone _ _ _) = True"
| "is_pass (RerunDone _ _ _) = True"
| "is_pass _ = False"

fun drive :: "(rat \<Rightarrow> rat) \<Rightarrow> event list \<Rightarrow> Copier \<Rightarrow> worker \<Rightarrow> (Copier \<times> worker) option" where
  "drive rnd [] c w = Some (c, w)"
| "drive rnd (ev # evs) c w =
     (case work rnd ev c w of None \<Rightarrow> None | Some (c', w') \<Rightarrow> drive rnd evs c' w')"

fun passes_left :: "Copier \<Rightarrow> worker \<Rightarrow> int" where
  "passes_left c (Copying chunk) = attempts c + 1"
| "passes_left c (Around chunk pass rows took pending collision) = attempts c + 2 - pass"
| "passes_left c (Rerunning chunk pass collision) = attempts c + 2 - pass"
| "passes_left c _ = 0"

fun copying :: "worker \<Rightarrow> bool" where
  "copying (Copying chunk) = True"
| "copying (Around chunk pass rows took pending collision) = True"
| "copying (Rerunning chunk pass collision) = True"
| "copying _ = False"

lemma attempts_settle: "copierSettle chunk rows held c = (r, c') \<Longrightarrow> attempts c' = attempts c"
  by (auto simp: copierSettle_def Let_def split: prod.splits if_splits)

lemma pass_progress:
  assumes "is_pass ev" "work rnd ev c w = Some (c', w')" "1 \<le> attempts c" "copying w \<longrightarrow> 1 \<le> passes_left c w"
  shows "attempts c' = attempts c" "passes_left c' w' < passes_left c w" "0 \<le> passes_left c' w'"
    "copying w' \<longrightarrow> 1 \<le> passes_left c' w'"
proof -
  have "attempts c' = attempts c \<and> passes_left c' w' < passes_left c w \<and> 0 \<le> passes_left c' w' \<and>
      (copying w' \<longrightarrow> 1 \<le> passes_left c' w')"
    using assms
    by (cases "(rnd, ev, c, w)" rule: work.cases)
      (auto simp: copyUntilClear_def copyAroundCollisions_def rerunWhole_def countCollision_def Let_def
        split: sum.splits if_splits option.splits prod.splits dest!: attempts_settle)
  then show "attempts c' = attempts c" "passes_left c' w' < passes_left c w" "0 \<le> passes_left c' w'"
    "copying w' \<longrightarrow> 1 \<le> passes_left c' w'" by simp_all
qed

lemma drive_bound:
  assumes "drive rnd evs c w = Some (c', w')" "\<forall>ev \<in> set evs. is_pass ev" "1 \<le> attempts c"
    and "copying w \<longrightarrow> 1 \<le> passes_left c w" "0 \<le> passes_left c w"
  shows "int (length evs) \<le> passes_left c w"
  using assms
proof (induction rnd evs c w rule: drive.induct)
  case (2 rnd ev evs c w)
  then obtain c1 w1 where w: "work rnd ev c w = Some (c1, w1)" "drive rnd evs c1 w1 = Some (c', w')"
    by (auto split: option.splits)
  have "is_pass ev" using 2(3) by simp
  note pp = pass_progress [OF this w(1) 2(4,5)]
  have "int (length evs) \<le> passes_left c1 w1"
    using 2(1) [OF w(1) refl w(2)] 2(3,4) pp by simp
  then show ?case using pp by simp
qed simp

text \<open>
  A chunk never outlasts its attempts. Once claimed, a chunk leaves the
  copying states, landed or failed, after at most \<open>CollisionAttempts\<close> passes
  whatever collisions, deadlocks and refusals the server answers with; the one
  further step allowed below is the loop's own exit.
\<close>

theorem passes_bounded:
  assumes "NewCopier target shadow lock from opts = Inr c0"
    and "drive rnd evs c0 (Copying chunk) = Some (c', w')" "\<forall>ev \<in> set evs. is_pass ev"
  shows "int (length evs) \<le> attempts c0 + 1"
proof -
  have "1 \<le> attempts c0" using NewCopier_Inr(3,5) [OF assms(1)] by (simp add: validate_ok)
  then show ?thesis using drive_bound [OF assms(2,3)] by simp
qed

theorem passes_bounded_witness:
  "int (length [CopyDone (Inl (PgError ''23505'')) 0, PassDone None (Inl (PgError ''40P01'')) 0,
      PassDone None (Inr (2, [])) 0]) \<le> attempts example_copier + 1"
  by (rule passes_bounded [OF example_NewCopier, where rnd = "\<lambda>x. x" and chunk = example_A
        and c' = "countCollision (countCollision example_copier)" and w' = "Landing example_A 2 0"])
    (simp_all add: copyUntilClear_def copyAroundCollisions_def earnsAnotherPass_def collided_def deadlocked_def
      sqlstateUniqueViolation_def sqlstateDeadlockDetected_def waitBeforePass_def add64_def wrap64_def
      countCollision_def NewCopier_Inr(3) [OF example_NewCopier] withDefaults_def example_options_def
      DefaultCollisionAttempts_def Let_def)

section \<open>A cut whose commit fails\<close>

text \<open>
  The cursor moves when the boundary is read, before the cut's transaction
  commits. When that commit fails the ledger has no chunk for the keys the
  cursor passed, and a worker whose context has not ended yet can cut once more
  before the failure stops the run: its chunk is refused as a broken frontier.
\<close>

text \<open>
  After a cut whose commit failed, the next cut that succeeds is refused
  with the frontier-broken cause, so no chunk above the lost one is ever
  registered or copied.
\<close>

theorem cut_commit_failure_refuses_next:
  assumes "copier_inv c" "db_ok db" "Next db (cop_chunker c) = Inr (Some chunk, ch)"
    and "copierClaim (CutCommitError db e) c = (r, c1)"
    and "db_ok db2" "Next db2 (cop_chunker c1) = Inr (Some chunk2, ch2)"
  shows "r = Inl e \<and> fst (copierClaim (CutRead db2) c1) = Inl (Refusal CauseFrontierBroken) \<and>
    cop_ledger (snd (copierClaim (CutRead db2) c1)) = cop_ledger c"
proof -
  have c1: "r = Inl e" "c1 = c\<lparr>cop_chunker := ch\<rparr>"
    using assms(3,4) by (auto simp: copierClaim_def copierCut_def)
  have inv: "chunker_inv (cop_chunker c)" using assms(1) by (simp add: copier_inv_def)
  note nc = Next_cut [OF inv assms(2,3)]
  have n2: "Next db2 ch = Inr (Some chunk2, ch2)" using assms(6) c1 by simp
  note nc2 = Next_cut [OF nc(1) assms(5) n2]
  have "\<not> startsAtFrontier (cop_ledger c) chunk2"
  proof
    assume f: "startsAtFrontier (cop_ledger c) chunk2"
    have "startAfter (ledger_cut (cop_ledger c)) = (chunk_lower chunk, False)"
      "startAfter (ledger_cut (cop_ledger c)) = (chunk_lower chunk2, False)"
      using claim_at_cursor(1) [OF assms(1-3)] f startsAtFrontier_startAfter by blast+
    then have "chunk_lower chunk2 \<in> chunk_keys chunk" using nc(2) by (simp add: chunk_keys_def)
    moreover have "chunk_lower chunk2 \<in> chunk_keys chunk2" using nc2(2) by (simp add: chunk_keys_def)
    ultimately show False using nc(8) nc2(9) by auto
  qed
  then show ?thesis using c1 n2 by (simp add: copierClaim_def copierCut_def claim_def)
qed

theorem cut_commit_failure_refuses_next_witness:
  "fst (copierClaim (CutRead (boundaryQuery [3, 5, 9]))
     (snd (copierClaim (CutCommitError (boundaryQuery [3, 5, 9]) ContextEnded) example_copier))) =
   Inl (Refusal CauseFrontierBroken)"
proof -
  have inv: "copier_inv example_copier"
    using initial_inv [OF example_NewCopier example_start wm_ok_zero, of 0]
    by (simp add: system_inv_def copier_inv_def)
  have "cop_chunker example_copier = example_chunker"
    using NewCopier_Inr(1) [OF example_NewCopier] example_NewChunker
    by (simp add: withDefaults_def example_options_def)
  then have n: "Next (boundaryQuery [3, 5, 9]) (cop_chunker example_copier) =
      Inr (Some example_A, example_chunker\<lparr>chunker_next := 6\<rparr>)"
    by simp code_simp
  then have c: "copierClaim (CutCommitError (boundaryQuery [3, 5, 9]) ContextEnded) example_copier =
      (Inl ContextEnded, example_copier\<lparr>cop_chunker := example_chunker\<lparr>chunker_next := 6\<rparr>\<rparr>)"
    by (simp add: copierClaim_def copierCut_def)
  have "Next (boundaryQuery [3, 5, 9]) (example_chunker\<lparr>chunker_next := 6\<rparr>) =
      Inr (Some \<lparr>chunk_lower = 6, chunk_upper = MaxInt64, chunk_rows = 2\<rparr>,
        example_chunker\<lparr>chunker_next := 6, chunker_done := True\<rparr>)"
    by code_simp
  with cut_commit_failure_refuses_next [OF inv example_db_ok n c example_db_ok] c show ?thesis by simp
qed

section \<open>Clearing above the watermark\<close>

text \<open>\<open>clearAboveSQL\<close>: delete the lowest \<open>limit\<close> rows at or above \<open>lower\<close>, reporting how many went.\<close>

definition deleteAbove :: "int64 \<Rightarrow> int64 \<Rightarrow> 'r table \<Rightarrow> int64 \<times> 'r table" where
  "deleteAbove lower limit shadow =
     (let gone = take (nat limit) (sort (map fst (filter (\<lambda>(k, _). k \<ge> lower) shadow)));
          kept = filter (\<lambda>(k, _). k \<notin> set gone) shadow
      in (int (length shadow) - int (length kept), kept))"

partial_function (option) clearLoop :: "int64 \<Rightarrow> int64 \<Rightarrow> 'r table \<Rightarrow> 'r table option" where
  "clearLoop lower batch shadow =
     (let (removed, shadow') = deleteAbove lower batch shadow
      in if removed < batch then Some shadow' else clearLoop lower batch shadow')"

definition clearAbove :: "Chunker \<Rightarrow> Watermark \<Rightarrow> 'r table \<Rightarrow> 'r table option" where
  "clearAbove chunker from shadow =
     (let (lower, done) = startAfter from in
      if done then Some shadow else clearLoop lower (chunker_rows chunker) shadow)"

definition below :: "int64 \<Rightarrow> 'r table \<Rightarrow> 'r table" where
  "below lower t = filter (\<lambda>(k, _). k < lower) t"

lemma deleteAbove_result:
  assumes "distinct (map fst sh)" "1 \<le> batch" "deleteAbove lower batch sh = (removed, sh')"
  shows "below lower sh' = below lower sh" "distinct (map fst sh')"
    "removed < batch \<Longrightarrow> sh' = below lower sh" "\<not> removed < batch \<Longrightarrow> length sh' < length sh"
proof -
  define ks where "ks = sort (map fst (filter (\<lambda>(k, _). k \<ge> lower) sh))"
  define gone where "gone = take (nat batch) ks"
  have sh': "sh' = filter (\<lambda>(k, _). k \<notin> set gone) sh" and r: "removed = int (length sh) - int (length sh')"
    using assms(3) by (auto simp: deleteAbove_def Let_def gone_def ks_def)
  have ksset: "set ks = {k \<in> keysOf sh. lower \<le> k}" by (auto simp: ks_def keysOf_def)
  have gone_sub: "set gone \<subseteq> set ks" by (simp add: gone_def set_take_subset)
  then have "\<forall>k \<in> set gone. lower \<le> k" using ksset by auto
  then show "below lower sh' = below lower sh"
    unfolding below_def sh' by (auto intro!: filter_cong)
  show "distinct (map fst sh')" using assms(1) by (simp add: sh' distinct_map_filter)
  have dk: "distinct ks" using assms(1) by (simp add: ks_def distinct_map_filter)
  have "keysOf sh' = keysOf sh - set gone" by (force simp: sh' keysOf_def)
  moreover have card: "length sh = card (keysOf sh)" "length sh' = card (keysOf sh')"
    using assms(1) \<open>distinct (map fst sh')\<close> distinct_card [of "map fst sh"] distinct_card [of "map fst sh'"]
    by (simp_all add: keysOf_def)
  moreover have "set gone \<subseteq> keysOf sh" using gone_sub ksset by auto
  ultimately have removed: "removed = int (length gone)"
    using r dk distinct_card [of gone] card_Diff_subset [of "set gone" "keysOf sh"]
      card_mono [of "keysOf sh" "set gone"]
    by (simp add: gone_def keysOf_def)
  show "length sh' < length sh" if "\<not> removed < batch" using that removed r assms(2) by linarith
  show "sh' = below lower sh" if "removed < batch"
  proof -
    have "gone = ks" using that removed assms(2) by (simp add: gone_def min_def split: if_splits)
    then have "\<forall>(k, v) \<in> set sh. (k \<notin> set gone) = (k < lower)" using ksset by (force simp: keysOf_def)
    then show ?thesis unfolding sh' below_def by (intro filter_cong) auto
  qed
qed

lemma clearLoop_terminates:
  assumes "distinct (map fst sh)" "1 \<le> batch"
  shows "clearLoop lower batch sh = Some (below lower sh)"
  using assms
proof (induction sh rule: length_induct)
  case (1 sh)
  obtain removed sh' where d: "deleteAbove lower batch sh = (removed, sh')" by fastforce
  note dr = deleteAbove_result [OF 1(2,3) d]
  show ?case
    using 1 d dr by (cases "removed < batch") (simp_all add: clearLoop.simps [of lower batch sh])
qed

text \<open>
  The resume clear ends and leaves exactly the checkpointed rows. From any
  shadow the batches terminate, and what remains are the rows whose keys are at
  or below the watermark the run resumes from, untouched and in place.
\<close>

theorem clearAbove_exact:
  assumes "sizing_inv chunker" "wm_ok from" "distinct (map fst shadow)" "\<forall>k \<in> keysOf shadow. is_int64 k"
  shows "clearAbove chunker from shadow = Some (filter (\<lambda>(k, _). k \<in> wm_keys from) shadow)"
proof -
  obtain lower d where s: "startAfter from = (lower, d)" by fastforce
  have typed: "is_int64 k" if "(k, v) \<in> set shadow" for k v using assms(4) that by (force simp: keysOf_def)
  show ?thesis
  proof (cases d)
    case True
    then have "wm_keys from = {k. is_int64 k}" using startAfter_done s by simp
    then have "filter (\<lambda>(k, _). k \<in> wm_keys from) shadow = shadow" using typed by (auto intro: filter_True)
    then show ?thesis using s True by (simp add: clearAbove_def)
  next
    case False
    have "below lower shadow = filter (\<lambda>(k, _). k \<in> wm_keys from) shadow"
      unfolding below_def using startAfter_keys(2) [OF assms(2)] s False typed
      by (intro filter_cong) (auto simp: is_int64_def)
    moreover have "1 \<le> chunker_rows chunker" using chunk_positive [OF assms(1)] by simp
    ultimately show ?thesis using s False clearLoop_terminates [OF assms(3)] by (simp add: clearAbove_def)
  qed
qed

theorem clearAbove_exact_witness:
  "clearAbove example_chunker (NewWatermark 5) [(3, ''a''), (9, ''b''), (5, ''c''), (7, ''d'')] =
   Some [(3, ''a''), (5, ''c'')]"
  using clearAbove_exact [of example_chunker "NewWatermark 5" "[(3, ''a''), (9, ''b''), (5, ''c''), (7, ''d'')]"]
    NewChunker_inv(3) [OF example_NewChunker wm_ok_zero]
  by (simp add: wm_ok_def int64_simps wm_keys_def)

section \<open>The inserts\<close>

text \<open>
  The copy never overwrites a shadow row and loses no source row. A chunk
  insert that succeeds leaves every row already in the shadow as it was and puts
  every source key of the range there. The statement that skips collisions also
  only adds rows, each a converted source row it read, and names, in ascending
  order, exactly the matching source keys that are still not in the shadow; so
  the keys it reports are keys it was asked for.
\<close>

theorem inserts_never_overwrite:
  "(\<forall>n shadow'. Insert conv clash lower upper source shadow = Inr (n, shadow') \<longrightarrow>
      (\<exists>new. shadow' = shadow @ new \<and> keysOf new \<inter> keysOf shadow = {} \<and> n = int (length new)) \<and>
      {k \<in> keysOf source. lower \<le> k \<and> k \<le> upper} \<subseteq> keysOf shadow') \<and>
   (\<forall>n held shadow'. insertPending conv clash matches source shadow = Inr (n, held, shadow') \<longrightarrow>
      (\<exists>new. shadow' = shadow @ new \<and> keysOf new \<inter> keysOf shadow = {} \<and> n = int (length new) \<and>
         (\<forall>(k, r') \<in> set new. \<exists>r. (k, r) \<in> set source \<and> matches k \<and> conv r = Inr r')) \<and>
      sorted held \<and> set held = {k \<in> keysOf source. matches k} - keysOf shadow')"
proof (intro conjI allI impI)
  fix n shadow'
  assume "Insert conv clash lower upper source shadow = Inr (n, shadow')"
  then obtain rows where sel: "selectRows conv (filter (\<lambda>(k, _). lower \<le> k \<and> k \<le> upper) source) = Inr rows"
      and ins: "insertStrict clash rows shadow = Inr shadow'" and n: "n = int (length shadow') - int (length shadow)"
    by (auto simp: Insert_def split: sum.splits)
  from insertStrict_appends [OF ins] obtain new where new: "shadow' = shadow @ new" "keysOf new \<inter> keysOf shadow = {}"
      "keysOf rows \<subseteq> keysOf shadow'" by blast
  then show "\<exists>new. shadow' = shadow @ new \<and> keysOf new \<inter> keysOf shadow = {} \<and> n = int (length new)"
    using n by auto
  have "keysOf rows = set (map fst (filter (\<lambda>(k, _). lower \<le> k \<and> k \<le> upper) source))"
    by (simp add: keysOf_def flip: selectRows_keys [OF sel])
  then show "{k \<in> keysOf source. lower \<le> k \<and> k \<le> upper} \<subseteq> keysOf shadow'"
    using new(3) by (force simp: keysOf_def)
qed (auto dest: insertPending_result)

theorem inserts_never_overwrite_witness:
  "\<exists>new. [(1, ''a''), (2, ''b'')] = [(1, ''a'')] @ new \<and> keysOf new \<inter> keysOf [(1, ''a'')] = {} \<and> (1 :: int) = int (length new)"
  using inserts_never_overwrite [of Inr "\<lambda>x y. x = y" 1 5 "[(1, ''z''), (2, ''b'')]" "[(1, ''a'')]" "\<lambda>_. True"]
  by (simp add: Insert_def)

end
