(* ===== verification/Go_Strings.thy ===== *)
theory Go_Strings
  imports Prelude
begin

text \<open>
  The functions of Go's \<open>strings\<close>, \<open>strconv\<close> and \<open>unicode/utf8\<close> packages that the
  sources use. A Go string is a list of bytes, which is what \<^typ>\<open>string\<close> is.
  \<open>parseUint\<close> and \<open>parseInt\<close> are the two functions the engine reads numbers with;
  a failed parse is \<open>None\<close>.
\<close>

section \<open>Reading numbers\<close>

definition digitVal :: "nat \<Rightarrow> char \<Rightarrow> nat option" where
  "digitVal base ch =
     (let c = of_char ch :: nat;
          d = (if 48 \<le> c \<and> c \<le> 57 then Some (c - 48)
               else if 97 \<le> c \<and> c \<le> 122 then Some (c - 87)
               else if 65 \<le> c \<and> c \<le> 90 then Some (c - 55)
               else None)
      in case d of None \<Rightarrow> None | Some v \<Rightarrow> if v < base then Some v else None)"

fun parseDigits :: "nat \<Rightarrow> nat \<Rightarrow> string \<Rightarrow> nat option" where
  "parseDigits base acc [] = Some acc"
| "parseDigits base acc (ch # s) =
     (case digitVal base ch of None \<Rightarrow> None | Some d \<Rightarrow> parseDigits base (acc * base + d) s)"

definition parseUint :: "string \<Rightarrow> nat \<Rightarrow> nat \<Rightarrow> nat option" where
  "parseUint s base bits =
     (if s = [] then None
      else case parseDigits base 0 s of
        None \<Rightarrow> None
      | Some n \<Rightarrow> if n < 2 ^ bits then Some n else None)"

definition parseInt :: "string \<Rightarrow> nat \<Rightarrow> nat \<Rightarrow> int option" where
  "parseInt s base bits =
     (let neg = (s \<noteq> [] \<and> hd s = CHR ''-'');
          rest = (if s \<noteq> [] \<and> (hd s = CHR ''+'' \<or> hd s = CHR ''-'') then tl s else s)
      in case parseUint rest base bits of
           None \<Rightarrow> None
         | Some un \<Rightarrow>
             if \<not> neg \<and> un \<ge> 2 ^ (bits - 1) then None
             else if neg \<and> un > 2 ^ (bits - 1) then None
             else Some (if neg then - int un else int un))"

section \<open>Printing numbers\<close>

definition hexDigit :: "nat \<Rightarrow> char" where
  "hexDigit d = char_of (if d < 10 then 48 + d else 55 + d)"

fun decStr :: "nat \<Rightarrow> string" where
  "decStr n = (if n < 10 then [hexDigit n] else decStr (n div 10) @ [hexDigit (n mod 10)])"

declare decStr.simps [simp del]

definition itoa :: "int \<Rightarrow> string" where
  "itoa n = (if n < 0 then CHR ''-'' # decStr (nat (- n)) else decStr (nat n))"

section \<open>Cutting and joining\<close>

definition stringsCut :: "char \<Rightarrow> string \<Rightarrow> (string \<times> string) option" where
  "stringsCut sep s =
     (case dropWhile (\<lambda>c. c \<noteq> sep) s of
        [] \<Rightarrow> None
      | _ # after \<Rightarrow> Some (takeWhile (\<lambda>c. c \<noteq> sep) s, after))"

text \<open>\<open>strings.Split\<close> on one separator character.\<close>

fun splitOn :: "char \<Rightarrow> string \<Rightarrow> string list" where
  "splitOn sep [] = [[]]"
| "splitOn sep (c # s) =
     (if c = sep then [] # splitOn sep s
      else case splitOn sep s of [] \<Rightarrow> [[c]] | p # ps \<Rightarrow> (c # p) # ps)"

fun join :: "string \<Rightarrow> string list \<Rightarrow> string" where
  "join sep [] = []"
| "join sep [p] = p"
| "join sep (p # ps) = p @ sep @ join sep ps"

text \<open>\<open>strings.CutSuffix\<close> and \<open>strings.ReplaceAll\<close> of one character by a string.\<close>

definition cutSuffix :: "string \<Rightarrow> string \<Rightarrow> string \<times> bool" where
  "cutSuffix s suffix =
     (if length suffix \<le> length s \<and> drop (length s - length suffix) s = suffix
      then (take (length s - length suffix) s, True) else (s, False))"

definition replaceChar :: "char \<Rightarrow> string \<Rightarrow> string \<Rightarrow> string" where
  "replaceChar c by s = concat (map (\<lambda>x. if x = c then by else [x]) s)"

section \<open>White space and case\<close>

text \<open>The characters \<open>unicode.IsSpace\<close> accepts, in UTF-8.\<close>

definition spaces :: "string list" where
  "spaces = map (map (char_of :: nat \<Rightarrow> char))
     ([[9], [10], [11], [12], [13], [32], [194, 133], [194, 160], [225, 154, 128],
       [226, 128, 168], [226, 128, 169], [226, 128, 175], [226, 129, 159], [227, 128, 128]]
      @ map (\<lambda>x. [226, 128, x]) [128..<139])"

definition prefixOf :: "string \<Rightarrow> string \<Rightarrow> bool" where
  "prefixOf p s = (take (length p) s = p)"

fun trimWith :: "string list \<Rightarrow> nat \<Rightarrow> string \<Rightarrow> string" where
  "trimWith ws 0 s = s"
| "trimWith ws (Suc n) s =
     (case List.find (\<lambda>w. prefixOf w s) ws of
        None \<Rightarrow> s
      | Some w \<Rightarrow> trimWith ws n (drop (length w) s))"

definition trimSpace :: "string \<Rightarrow> string" where
  "trimSpace s =
     (let l = trimWith spaces (length s) s
      in rev (trimWith (map rev spaces) (length l) (rev l)))"

text \<open>
  \<open>strings.ToLower\<close>, as far as a comparison with an ASCII word sees it: the two
  characters outside ASCII whose lower case is an ASCII letter are the dotted
  capital I and the Kelvin sign; the lower case of every other stays outside ASCII.
\<close>

fun toLower :: "string \<Rightarrow> string" where
  "toLower [] = []"
| "toLower (a # s) =
     (let x = of_char a :: nat in
      if 65 \<le> x \<and> x \<le> 90 then char_of (x + 32) # toLower s
      else case s of
          b # t \<Rightarrow>
            if x = 196 \<and> of_char b = (176 :: nat) then CHR ''i'' # toLower t
            else (case t of
                c # u \<Rightarrow> if x = 226 \<and> of_char b = (132 :: nat) \<and> of_char c = (170 :: nat) then CHR ''k'' # toLower u
                        else a # toLower s
              | [] \<Rightarrow> a # toLower s)
        | [] \<Rightarrow> [a])"

section \<open>UTF-8\<close>

definition runeStart :: "char \<Rightarrow> bool" where
  "runeStart c = ((of_char c :: nat) div 64 \<noteq> 2)"

definition inRange :: "nat \<Rightarrow> nat \<Rightarrow> char \<Rightarrow> bool" where
  "inRange lo hi c = (lo \<le> of_char c \<and> of_char c \<le> hi)"

text \<open>
  By its first byte: how many bytes continue the character, and the range of
  the first of them; the others range over all continuation bytes.
\<close>

definition runeClass :: "nat \<Rightarrow> (nat \<times> nat \<times> nat) option" where
  "runeClass x =
     (if x < 128 then Some (0, 0, 0)
      else if x < 194 then None
      else if x \<le> 223 then Some (1, 128, 191)
      else if x = 224 then Some (2, 160, 191)
      else if x = 237 then Some (2, 128, 159)
      else if x \<le> 239 then Some (2, 128, 191)
      else if x = 240 then Some (3, 144, 191)
      else if x \<le> 243 then Some (3, 128, 191)
      else if x = 244 then Some (3, 128, 143)
      else None)"

definition continues :: "nat \<Rightarrow> nat \<Rightarrow> nat \<Rightarrow> string \<Rightarrow> bool" where
  "continues n lo hi rest =
     (n \<le> length rest \<and> (\<forall>i < n. if i = 0 then inRange lo hi (rest ! i) else inRange 128 191 (rest ! i)))"

text \<open>The length of the character \<open>s\<close> starts with, 0 when it starts with none.\<close>

definition runeLen :: "string \<Rightarrow> nat" where
  "runeLen s =
     (case s of
        [] \<Rightarrow> 0
      | a # rest \<Rightarrow>
          (case runeClass (of_char a) of
             None \<Rightarrow> 0
           | Some (n, lo, hi) \<Rightarrow> if continues n lo hi rest then n + 1 else 0))"

function validString :: "string \<Rightarrow> bool" where
  "validString s = (if s = [] then True else if runeLen s = 0 then False else validString (drop (runeLen s) s))"
  by auto
termination by (relation "measure length") auto

declare validString.simps [simp del]

lemma validString_Nil [simp]: "validString []" by (simp add: validString.simps)

section \<open>Facts\<close>

lemma of_char_hexDigit: "d < 16 \<Longrightarrow> (of_char (hexDigit d) :: nat) = (if d < 10 then 48 + d else 55 + d)"
  by (simp add: hexDigit_def take_bit_eq_mod)

lemma parseDigits_append:
  "parseDigits b a (s @ t) = (case parseDigits b a s of None \<Rightarrow> None | Some a' \<Rightarrow> parseDigits b a' t)"
  by (induction b a s rule: parseDigits.induct) (auto split: option.splits)

lemma digitVal_dec: "d < 10 \<Longrightarrow> digitVal 10 (hexDigit d) = Some d"
  by (simp add: digitVal_def of_char_hexDigit Let_def)

lemma parseDigits_decStr: "parseDigits 10 0 (decStr n) = Some n"
proof (induction n rule: decStr.induct)
  case (1 n)
  then show ?case by (subst decStr.simps) (simp add: parseDigits_append digitVal_dec)
qed

lemma decStr_nonempty [simp]: "decStr n \<noteq> []"
  by (subst decStr.simps) simp

lemma decStr_chars: "c \<in> set (decStr n) \<Longrightarrow> 48 \<le> (of_char c :: nat) \<and> (of_char c :: nat) \<le> 57"
proof (induction n rule: decStr.induct)
  case (1 n)
  then show ?case by (subst (asm) (2) decStr.simps) (auto simp: of_char_hexDigit split: if_splits)
qed

lemma decStr_no_sep: "CHR '':'' \<notin> set (decStr n)" "CHR '','' \<notin> set (decStr n)"
  using decStr_chars [of "CHR '':''" n] decStr_chars [of "CHR '',''" n] by auto

lemma splitOn_append: "sep \<notin> set a \<Longrightarrow> splitOn sep (a @ sep # b) = a # splitOn sep b"
  by (induction a) auto

lemma splitOn_single: "sep \<notin> set a \<Longrightarrow> splitOn sep a = [a]"
  by (induction a) auto

lemma splitOn_join:
  "ps \<noteq> [] \<Longrightarrow> \<forall>p \<in> set ps. sep \<notin> set p \<Longrightarrow> splitOn sep (join [sep] ps) = ps"
  by (induction "[sep]" ps rule: join.induct) (auto simp: splitOn_append splitOn_single)

lemma join_chars: "c \<in> set (join sep ps) \<Longrightarrow> c \<in> set sep \<or> (\<exists>p \<in> set ps. c \<in> set p)"
  by (induction sep ps rule: join.induct) auto

lemma stringsCut_append: "sep \<notin> set a \<Longrightarrow> stringsCut sep (a @ sep # b) = Some (a, b)"
  by (induction a) (auto simp: stringsCut_def split: list.splits)

lemma stringsCut_None: "stringsCut sep s = None \<longleftrightarrow> sep \<notin> set s"
proof -
  have "dropWhile (\<lambda>c. c \<noteq> sep) s = [] \<longleftrightarrow> sep \<notin> set s" by (auto simp: dropWhile_eq_Nil_conv)
  then show ?thesis by (cases "dropWhile (\<lambda>c. c \<noteq> sep) s") (auto simp add: stringsCut_def simp del: dropWhile_eq_Nil_conv)
qed

section \<open>Well-formed UTF-8\<close>

lemma runeClass_le: "runeClass x = Some (n, lo, hi) \<Longrightarrow> n \<le> 3"
  by (auto simp: runeClass_def split: if_splits)

lemma runeLen_le: "runeLen s \<le> length s \<and> runeLen s \<le> 4"
  by (auto simp: runeLen_def continues_def split: list.splits option.splits dest: runeClass_le)

lemma runeLen_elim:
  assumes "runeLen s \<noteq> 0"
  obtains a rest n lo hi where "s = a # rest" "runeClass (of_char a) = Some (n, lo, hi)" "continues n lo hi rest" "runeLen s = n + 1"
  using assms by (auto simp: runeLen_def split: list.splits option.splits if_splits)

lemma continues_append: "continues n lo hi rest \<Longrightarrow> continues n lo hi (rest @ b)"
  unfolding continues_def by (metis length_append less_le_trans nth_append trans_le_add1)

lemma runeLen_append: "runeLen a \<noteq> 0 \<Longrightarrow> runeLen (a @ b) = runeLen a"
  by (erule runeLen_elim) (simp add: runeLen_def continues_append)

lemma validString_append: "validString a \<Longrightarrow> validString b \<Longrightarrow> validString (a @ b)"
proof (induction a rule: validString.induct)
  case (1 a)
  show ?case
  proof (cases "a = []")
    case False
    then have r: "runeLen a \<noteq> 0" "validString (drop (runeLen a) a)"
      using 1(2) by (auto simp: validString.simps [of a] split: if_splits)
    then have "validString (drop (runeLen a) a @ b)" using 1(1) [OF False r(1)] 1(3) by blast
    then show ?thesis using r runeLen_append [OF r(1), of b] runeLen_le [of a] False
      by (simp add: validString.simps [of "a @ b"])
  qed (use 1 in simp)
qed

lemma runeLen_take: "runeLen s \<noteq> 0 \<Longrightarrow> runeLen (take (runeLen s) s) = runeLen s"
  by (erule runeLen_elim) (simp add: runeLen_def continues_def)

lemma validString_one: "runeLen s \<noteq> 0 \<Longrightarrow> validString (take (runeLen s) s)"
  using runeLen_take [of s] runeLen_le [of s] by (subst validString.simps) auto

lemma valid_prefix:
  "validString s \<Longrightarrow> n \<le> length s \<Longrightarrow> \<exists>k \<le> n. n \<le> k + 3 \<and> validString (take k s)"
proof (induction s arbitrary: n rule: validString.induct)
  case (1 s)
  show ?case
  proof (cases "s = [] \<or> n < runeLen s")
    case True
    then show ?thesis using 1(3) runeLen_le [of s] by (intro exI [of _ 0]) auto
  next
    case False
    then have r: "runeLen s \<noteq> 0" "validString (drop (runeLen s) s)" "runeLen s \<le> n"
      using 1(2) by (auto simp: validString.simps [of s] split: if_splits)
    then obtain k where k: "k \<le> n - runeLen s" "n - runeLen s \<le> k + 3" "validString (take k (drop (runeLen s) s))"
      using 1(1) [of "n - runeLen s"] 1(3) False by (auto simp: diff_le_mono)
    have "take (runeLen s + k) s = take (runeLen s) s @ take k (drop (runeLen s) s)" by (simp add: take_add)
    then show ?thesis using validString_append [OF validString_one [OF r(1)] k(3)] k r(3)
      by (intro exI [of _ "runeLen s + k"]) auto
  qed
qed

lemma validString_ascii: "\<forall>c \<in> set s. (of_char c :: nat) < 128 \<Longrightarrow> validString s"
proof (induction s)
  case (Cons c s)
  then have "runeLen (c # s) = 1" by (simp add: runeLen_def runeClass_def continues_def)
  then show ?case using Cons by (subst validString.simps) simp
qed simp

section \<open>Text with nothing to trim\<close>

definition graphic :: "char \<Rightarrow> bool" where
  "graphic c = (32 < (of_char c :: nat) \<and> (of_char c :: nat) < 128)"

lemma spaces_not_graphic: "w \<in> set spaces \<Longrightarrow> w \<noteq> [] \<and> \<not> graphic (hd w) \<and> \<not> graphic (last w)"
  by (auto simp: spaces_def graphic_def)

lemma trimWith_id:
  assumes "\<And>w. w \<in> set ws \<Longrightarrow> w \<noteq> [] \<and> hd w \<noteq> hd s" "s \<noteq> []"
  shows "trimWith ws n s = s"
proof -
  have "List.find (\<lambda>w. prefixOf w s) ws = None"
    using assms by (auto simp: find_None_iff prefixOf_def) (metis hd_take length_greater_0_conv)
  then show ?thesis by (cases n) auto
qed

lemma trimSpace_graphic:
  assumes "s \<noteq> []" "graphic (hd s)" "graphic (last s)"
  shows "trimSpace s = s"
proof -
  have "trimWith spaces (length s) s = s" by (rule trimWith_id) (use assms in \<open>auto dest: spaces_not_graphic\<close>)
  moreover have "trimWith (map rev spaces) (length s) (rev s) = rev s"
    by (rule trimWith_id) (use assms in \<open>auto simp: hd_rev dest: spaces_not_graphic\<close>)
  ultimately show ?thesis by (simp add: trimSpace_def)
qed

lemma trimSpace_trailing:
  assumes "s \<noteq> []" "graphic (hd s)" "graphic (last s)"
  shows "trimSpace (s @ '' '') = s"
proof -
  let ?ws = "map rev spaces" and ?r = "CHR '' '' # rev s"
  have blank: "char_of (32 :: nat) = CHR '' ''" by code_simp
  have only: "w = '' ''" if w: "w \<in> set ?ws" "prefixOf w ?r" for w
  proof -
    obtain v where "v \<in> set spaces" "w = rev v" using w(1) by auto
    then have v: "v \<in> set spaces" "w = rev v" "v \<noteq> []" using spaces_not_graphic by auto
    then have "hd (take (length w) ?r) = CHR '' ''" by simp
    then have "hd w = CHR '' ''" using w(2) by (simp add: prefixOf_def)
    then have "(of_char (last v) :: nat) = 32" using v by (simp add: hd_rev)
    moreover have "\<forall>v \<in> set spaces. (of_char (last v) :: nat) = 32 \<longrightarrow> v = '' ''" by (auto simp: spaces_def blank)
    ultimately show ?thesis using v by auto
  qed
  have "'' '' \<in> set ?ws" "prefixOf '' '' ?r" by (auto simp: spaces_def prefixOf_def blank)
  then obtain w where "List.find (\<lambda>w. prefixOf w ?r) ?ws = Some w"
    by (metis (no_types, lifting) find_None_iff not_None_eq)
  then have "List.find (\<lambda>w. prefixOf w ?r) ?ws = Some '' ''" using only by (metis (no_types, lifting) find_Some_iff nth_mem)
  moreover have "trimWith ?ws n (rev s) = rev s" for n
    by (rule trimWith_id) (use assms in \<open>auto simp: hd_rev dest: spaces_not_graphic\<close>)
  moreover have "trimWith spaces (Suc (length s)) (s @ '' '') = s @ '' ''"
    by (rule trimWith_id) (use assms in \<open>auto dest: spaces_not_graphic\<close>)
  ultimately show ?thesis by (simp add: trimSpace_def)
qed

end
