(* ===== verification/Decode_Types.thy ===== *)
theory Decode_Types
  imports Go_Strings
begin

text \<open>
  The values the WAL decoder hands on (\<open>pkg/decode/types.go\<close>, \<open>column.go\<close>): log
  sequence numbers with their text form, change kinds, columns and change
  events.
\<close>

unbundle bit_operations_syntax

section \<open>Log sequence numbers\<close>

type_synonym LSN = "64 word"
type_synonym Xid = "32 word"

fun hexStr :: "nat \<Rightarrow> string" where
  "hexStr n = (if n < 16 then [hexDigit n] else hexStr (n div 16) @ [hexDigit (n mod 16)])"

declare hexStr.simps [simp del]

definition LSN_String :: "LSN \<Rightarrow> string" where
  "LSN_String l = hexStr (unat (drop_bit 32 l)) @ ''/'' @ hexStr (unat (l AND 0xffffffff))"

definition ParseLSN :: "string \<Rightarrow> LSN option" where
  "ParseLSN s =
     (case stringsCut (CHR ''/'') s of
        None \<Rightarrow> None
      | Some (high, low) \<Rightarrow>
          (case parseUint high 16 32 of
             None \<Rightarrow> None
           | Some hi \<Rightarrow>
               (case parseUint low 16 32 of
                  None \<Rightarrow> None
                | Some lo \<Rightarrow> Some (push_bit 32 (word_of_nat hi) OR word_of_nat lo))))"

section \<open>Columns and changes\<close>

text \<open>
  A column's value is NULL, a text value as the stream carried it, or a value
  marked as already in the shadow's form (the applier's \<open>shadowForm\<close> wrapper,
  which a NULL carries too).
\<close>

datatype colval = ColNull | ColText string | ColShadow colval

record Column =
  col_name :: string
  col_value :: colval
  col_present :: bool

definition PresentColumn :: "string \<Rightarrow> colval \<Rightarrow> Column" where
  "PresentColumn name value = \<lparr>col_name = name, col_value = value, col_present = True\<rparr>"

definition AbsentColumn :: "string \<Rightarrow> Column" where
  "AbsentColumn name = \<lparr>col_name = name, col_value = ColNull, col_present = False\<rparr>"

definition Column_Get :: "Column \<Rightarrow> colval option" where
  "Column_Get c = (if \<not> col_present c then None else Some (col_value c))"

definition Column_String :: "Column \<Rightarrow> string" where
  "Column_String c =
     (if \<not> col_present c then col_name c @ ''=<absent>''
      else if col_value c = ColNull then col_name c @ ''=NULL''
      else col_name c @ ''=<value>'')"

lemma PresentColumn_sel [simp]:
  "col_name (PresentColumn n v) = n" "col_value (PresentColumn n v) = v" "col_present (PresentColumn n v)"
  by (simp_all add: PresentColumn_def)

lemma AbsentColumn_sel [simp]: "col_name (AbsentColumn n) = n" "\<not> col_present (AbsentColumn n)"
  by (simp_all add: AbsentColumn_def)

text \<open>A kind the stream does not produce is kept, as the Go byte can hold one.\<close>

datatype ChangeKind = ChangeInsert | ChangeUpdate | ChangeDelete | ChangeOther nat

record ChangeEvent =
  ev_Kind :: ChangeKind
  ev_LSN :: LSN
  ev_Delivered :: LSN
  ev_Xid :: Xid
  ev_Key :: int64
  ev_OldKey :: "int64 option"
  ev_Columns :: "Column list"

definition PresentColumns :: "ChangeEvent \<Rightarrow> Column list" where
  "PresentColumns e = filter col_present (ev_Columns e)"

section \<open>The text form of a position\<close>

lemma digitVal_hexDigit [simp]: "d < 16 \<Longrightarrow> digitVal 16 (hexDigit d) = Some d"
  by (auto simp: digitVal_def of_char_hexDigit Let_def)

lemma parseDigits_hexStr: "parseDigits 16 0 (hexStr n) = Some n"
proof (induction n rule: hexStr.induct)
  case (1 n)
  then show ?case by (subst hexStr.simps) (simp add: parseDigits_append)
qed

lemma hexStr_nonempty [simp]: "hexStr n \<noteq> []"
  by (subst hexStr.simps) simp

lemma parseUint_hexStr: "n < 2 ^ bits \<Longrightarrow> parseUint (hexStr n) 16 bits = Some n"
  by (simp add: parseUint_def parseDigits_hexStr)

lemma hexStr_no_slash: "CHR ''/'' \<notin> set (hexStr n)"
proof (induction n rule: hexStr.induct)
  case (1 n)
  have "hexDigit d \<noteq> CHR ''/''" if "d < 16" for d
    using of_char_hexDigit [OF that] by (auto split: if_splits)
  with 1 show ?case by (subst hexStr.simps) (auto dest: sym)
qed

lemma word_halves:
  fixes l :: LSN
  shows "push_bit 32 (word_of_nat (unat (drop_bit 32 l))) OR word_of_nat (unat (l AND 0xffffffff)) = l"
proof -
  have m: "(0xffffffff :: LSN) = mask 32" by (simp add: mask_eq_decr_exp)
  have "push_bit 32 (drop_bit 32 l) OR (l AND mask 32) = l"
    by (rule bit_eqI) (auto simp: bit_simps)
  then show ?thesis unfolding m by simp
qed

lemma unat_low_half: "unat ((l :: LSN) AND 0xffffffff) < 2 ^ 32"
proof -
  have "(0xffffffff :: LSN) = mask 32" by (simp add: mask_eq_decr_exp)
  then have "l AND 0xffffffff = take_bit 32 l" by (simp add: take_bit_eq_mask)
  then show ?thesis by (simp add: unsigned_take_bit_eq take_bit_nat_less_exp [of 32, simplified])
qed

lemma unat_high_half: "unat (drop_bit 32 (l :: LSN)) < 2 ^ 32"
proof -
  have "unat l < 2 ^ LENGTH(64)" by (rule unsigned_less)
  then show ?thesis by (simp add: drop_bit_eq_div unat_div)
qed

text \<open>
  Reading back a printed log position gives the position: \<open>ParseLSN\<close>
  accepts what \<open>String\<close> prints for every 64-bit position and returns it.
\<close>

theorem ParseLSN_String: "ParseLSN (LSN_String l) = Some l"
  using word_halves [of l]
  by (simp add: ParseLSN_def LSN_String_def stringsCut_append [OF hexStr_no_slash]
      parseUint_hexStr unat_low_half [simplified] unat_high_half [simplified])

end
