(* ===== verification/Decode_Stream.thy ===== *)
theory Decode_Stream
  imports Copier_Chunk Decode_Types
begin

text \<open>
  The replication stream (\<open>pkg/decode/stream.go\<close>, \<open>relation.go\<close>, \<open>tuple.go\<close>,
  \<open>feedback.go\<close>) as a state machine over the messages the connection receives.

  The wire parsers are a library's and are a parameter; what they yield is
  \<open>wal_message\<close>. The connection is modelled by the status reports written to it.
  Positions are 64-bit words. The theory proves what the applier relies on: the
  delivered position never covers a transaction that has not been yielded in
  full, the confirmed position never passes the delivered one, and nothing but
  the confirmed position is ever reported to the server.
\<close>

section \<open>Errors and messages\<close>

datatype decode_error =
    InvariantViolation string
  | ErrSourceShapeChanged
  | ErrUnsupportedChange
  | ErrStreamEnded
  | ServerError string
  | ConnectionError

datatype tuple_data =
    TupleText string
  | TupleNull
  | TupleToast
  | TupleBinary

record rel_column =
  rc_flags :: nat
  rc_name :: string
  rc_type :: "32 word"
  rc_modifier :: int

record relation_message =
  rm_id :: "32 word"
  rm_namespace :: string
  rm_name :: string
  rm_replicaIdentity :: nat
  rm_columns :: "rel_column list"

datatype wal_message =
    BeginMessage Xid
  | CommitMessage LSN
  | RelationMessage relation_message
  | InsertMessage "32 word" "tuple_data list option"
  | UpdateMessage "32 word" "tuple_data list option" "tuple_data list option"
  | DeleteMessage "32 word" "tuple_data list option"
  | TruncateMessage
  | TypeMessage
  | OriginMessage
  | OtherMessage

section \<open>Relations and tuples\<close>

record relation =
  rel_id :: "32 word"
  rel_replicaIdentity :: nat
  rel_columns :: "rel_column list"
  rel_keyIndex :: nat

fun lastIndex :: "string \<Rightarrow> nat \<Rightarrow> rel_column list \<Rightarrow> nat option" where
  "lastIndex name i [] = None"
| "lastIndex name i (c # cs) =
     (case lastIndex name (i + 1) cs of
        Some j \<Rightarrow> Some j
      | None \<Rightarrow> if rc_name c = name then Some i else None)"

definition newRelation :: "relation_message \<Rightarrow> CopySwapTarget \<Rightarrow> decode_error + relation" where
  "newRelation msg target =
     (if rm_namespace msg \<noteq> target_schema target \<or> rm_name msg \<noteq> target_table target
        then Inl (InvariantViolation ''ST-3'')
      else if rm_id msg \<noteq> target_oid target then Inl (InvariantViolation ''ST-3'')
      else case lastIndex (target_pkColumn target) 0 (rm_columns msg) of
        None \<Rightarrow> Inl (InvariantViolation ''ST-3'')
      | Some i \<Rightarrow>
          if rc_flags (rm_columns msg ! i) mod 2 = 0 then Inl (InvariantViolation ''ST-3'')
          else Inr \<lparr>rel_id = rm_id msg, rel_replicaIdentity = rm_replicaIdentity msg,
                    rel_columns = rm_columns msg, rel_keyIndex = i\<rparr>)"

definition sameShape :: "relation \<Rightarrow> relation \<Rightarrow> bool" where
  "sameShape r other =
     (if rel_id r \<noteq> rel_id other \<or> rel_replicaIdentity r \<noteq> rel_replicaIdentity other \<or>
         length (rel_columns r) \<noteq> length (rel_columns other) then False
      else list_all (\<lambda>(a, b). a = b) (zip (rel_columns r) (rel_columns other)))"

fun decodeTuple :: "rel_column list \<Rightarrow> tuple_data list \<Rightarrow> decode_error + Column list" where
  "decodeTuple (c # cs) (d # ds) =
     (case d of
        TupleBinary \<Rightarrow> Inl (InvariantViolation ''CO-8'')
      | _ \<Rightarrow>
          (case decodeTuple cs ds of
             Inl e \<Rightarrow> Inl e
           | Inr cols \<Rightarrow>
               Inr ((case d of
                       TupleText s \<Rightarrow> PresentColumn (rc_name c) (ColText s)
                     | TupleNull \<Rightarrow> PresentColumn (rc_name c) ColNull
                     | _ \<Rightarrow> AbsentColumn (rc_name c)) # cols)))"
| "decodeTuple _ _ = Inr []"

definition decodeColumns :: "relation \<Rightarrow> tuple_data list option \<Rightarrow> decode_error + Column list" where
  "decodeColumns rel tuple =
     (case tuple of
        None \<Rightarrow> Inl (InvariantViolation ''CO-8'')
      | Some t \<Rightarrow>
          if length t \<noteq> length (rel_columns rel) then Inl (InvariantViolation ''CO-8'')
          else decodeTuple (rel_columns rel) t)"

definition decodeKey :: "relation \<Rightarrow> tuple_data list option \<Rightarrow> decode_error + int64" where
  "decodeKey rel tuple =
     (case tuple of
        None \<Rightarrow> Inl (InvariantViolation ''CO-5'')
      | Some t \<Rightarrow>
          if length t \<noteq> length (rel_columns rel) then Inl (InvariantViolation ''CO-5'')
          else case t ! rel_keyIndex rel of
            TupleText s \<Rightarrow>
              (case parseInt s 10 64 of None \<Rightarrow> Inl (InvariantViolation ''CO-5'') | Some key \<Rightarrow> Inr key)
          | _ \<Rightarrow> Inl (InvariantViolation ''CO-5''))"

section \<open>The stream\<close>

record Delivery =
  del_Change :: "ChangeEvent option"
  del_Delivered :: LSN

record Stream =
  st_target :: CopySwapTarget
  st_start :: LSN
  st_delivered :: LSN
  st_confirmed :: LSN
  st_serverWALEnd :: LSN
  st_relation :: "relation option"
  st_inTransaction :: bool
  st_xid :: Xid
  st_failed :: "decode_error option"
  st_sent :: "LSN list"

text \<open>
  \<open>OpenStream\<close>: \<open>nameOK\<close> is whether the derived slot name is an engine slot name,
  \<open>identity\<close> the database the fresh replication connection was proven to be on
  (or why it could not be), \<open>started\<close> the server's answer to START\_REPLICATION.
\<close>

definition OpenStream ::
  "CopySwapTarget \<Rightarrow> bool \<Rightarrow> decode_error + string \<Rightarrow> decode_error option \<Rightarrow> LSN \<Rightarrow> decode_error + Stream" where
  "OpenStream target nameOK identity started from =
     (if target_table target = '''' then Inl (InvariantViolation ''ST-3'')
      else if \<not> target_decodesWAL target then Inl (InvariantViolation ''ST-3'')
      else if \<not> nameOK then Inl (InvariantViolation ''ST-3'')
      else if from = 0 then Inl (InvariantViolation ''ST-4'')
      else case identity of
        Inl e \<Rightarrow> Inl e
      | Inr database \<Rightarrow>
          if database \<noteq> target_database target then Inl (InvariantViolation ''ST-3'')
          else case started of
            Some e \<Rightarrow> Inl e
          | None \<Rightarrow>
              Inr \<lparr>st_target = target, st_start = from, st_delivered = from, st_confirmed = 0,
                   st_serverWALEnd = 0, st_relation = None, st_inTransaction = False, st_xid = 0,
                   st_failed = None, st_sent = []\<rparr>)"

definition ServerWALEnd :: "Stream \<Rightarrow> LSN" where
  "ServerWALEnd s = max (st_serverWALEnd s) (st_delivered s)"

definition raiseDelivered :: "LSN \<Rightarrow> Stream \<Rightarrow> Stream" where
  "raiseDelivered lsn s = (if lsn > st_delivered s then s\<lparr>st_delivered := lsn\<rparr> else s)"

definition progress :: "Stream \<Rightarrow> Delivery" where
  "progress s = \<lparr>del_Change = None, del_Delivered = st_delivered s\<rparr>"

definition fail :: "decode_error \<Rightarrow> Stream \<Rightarrow> Stream" where
  "fail e s = s\<lparr>st_failed := Some e\<rparr>"

text \<open>
  A report written to the connection; \<open>broken\<close> says the connection could not
  carry it. A handler's result is the error, or the delivery if it yields one.
\<close>

definition sendStatus :: "bool \<Rightarrow> LSN \<Rightarrow> Stream \<Rightarrow> (decode_error + unit) \<times> Stream" where
  "sendStatus broken confirmed s =
     (if broken then (Inl ConnectionError, s) else (Inr (), s\<lparr>st_sent := st_sent s @ [confirmed]\<rparr>))"

type_synonym handled = "(decode_error + Delivery option) \<times> Stream"

definition handleKeepalive :: "bool \<Rightarrow> LSN \<Rightarrow> bool \<Rightarrow> Stream \<Rightarrow> handled" where
  "handleKeepalive broken serverWALEnd replyRequested s =
     (let s1 = s\<lparr>st_serverWALEnd := serverWALEnd\<rparr>;
          s2 = (if \<not> st_inTransaction s1 then raiseDelivered (st_serverWALEnd s1) s1 else s1)
      in if replyRequested
         then case sendStatus broken (st_confirmed s2) s2 of
             (Inl e, s3) \<Rightarrow> (Inl e, s3)
           | (Inr _, s3) \<Rightarrow> (Inr (Some (progress s3)), s3)
         else (Inr (Some (progress s2)), s2))"

definition recordRelation :: "relation_message \<Rightarrow> Stream \<Rightarrow> handled" where
  "recordRelation msg s =
     (case newRelation msg (st_target s) of
        Inl e \<Rightarrow> (Inl e, s)
      | Inr rel \<Rightarrow>
          (case st_relation s of
             Some r \<Rightarrow> if \<not> sameShape r rel then (Inl ErrSourceShapeChanged, s)
                        else (Inr None, s\<lparr>st_relation := Some rel\<rparr>)
           | None \<Rightarrow> (Inr None, s\<lparr>st_relation := Some rel\<rparr>)))"

definition changeRelation :: "32 word \<Rightarrow> Stream \<Rightarrow> decode_error + relation" where
  "changeRelation relationID s =
     (if \<not> st_inTransaction s then Inl (InvariantViolation ''ST-4'')
      else case st_relation s of
        None \<Rightarrow> Inl (InvariantViolation ''ST-4'')
      | Some rel \<Rightarrow> if relationID \<noteq> rel_id rel then Inl (InvariantViolation ''ST-3'') else Inr rel)"

definition newEvent :: "ChangeKind \<Rightarrow> LSN \<Rightarrow> int64 \<Rightarrow> Column list \<Rightarrow> ChangeEvent" where
  "newEvent kind lsn key columns =
     \<lparr>ev_Kind = kind, ev_LSN = lsn, ev_Delivered = 0, ev_Xid = 0, ev_Key = key, ev_OldKey = None,
      ev_Columns = columns\<rparr>"

definition decodeInsert :: "32 word \<Rightarrow> tuple_data list option \<Rightarrow> LSN \<Rightarrow> Stream \<Rightarrow> decode_error + ChangeEvent" where
  "decodeInsert relationID tuple lsn s =
     (case changeRelation relationID s of
        Inl e \<Rightarrow> Inl e
      | Inr rel \<Rightarrow>
          (case decodeColumns rel tuple of
             Inl e \<Rightarrow> Inl e
           | Inr columns \<Rightarrow>
               (case decodeKey rel tuple of
                  Inl e \<Rightarrow> Inl e
                | Inr key \<Rightarrow> Inr (newEvent ChangeInsert lsn key columns))))"

definition decodeUpdate ::
  "32 word \<Rightarrow> tuple_data list option \<Rightarrow> tuple_data list option \<Rightarrow> LSN \<Rightarrow> Stream \<Rightarrow> decode_error + ChangeEvent" where
  "decodeUpdate relationID oldTuple newTuple lsn s =
     (case changeRelation relationID s of
        Inl e \<Rightarrow> Inl e
      | Inr rel \<Rightarrow>
          (case decodeColumns rel newTuple of
             Inl e \<Rightarrow> Inl e
           | Inr columns \<Rightarrow>
               (case decodeKey rel newTuple of
                  Inl e \<Rightarrow> Inl e
                | Inr key \<Rightarrow>
                    (let ev = newEvent ChangeUpdate lsn key columns in
                     case oldTuple of
                       None \<Rightarrow> Inr ev
                     | Some t \<Rightarrow>
                         (case decodeKey rel (Some t) of
                            Inl e \<Rightarrow> Inl e
                          | Inr oldKey \<Rightarrow>
                              if oldKey \<noteq> key then Inr (ev\<lparr>ev_OldKey := Some oldKey\<rparr>) else Inr ev)))))"

definition decodeDelete :: "32 word \<Rightarrow> tuple_data list option \<Rightarrow> LSN \<Rightarrow> Stream \<Rightarrow> decode_error + ChangeEvent" where
  "decodeDelete relationID oldTuple lsn s =
     (case changeRelation relationID s of
        Inl e \<Rightarrow> Inl e
      | Inr rel \<Rightarrow>
          (case decodeKey rel oldTuple of
             Inl e \<Rightarrow> Inl e
           | Inr key \<Rightarrow> Inr (newEvent ChangeDelete lsn key [])))"

definition deliverChange :: "decode_error + ChangeEvent \<Rightarrow> Stream \<Rightarrow> handled" where
  "deliverChange decoded s =
     (case decoded of
        Inl e \<Rightarrow> (Inl e, s)
      | Inr ev \<Rightarrow>
          (Inr (Some \<lparr>del_Change = Some (ev\<lparr>ev_Delivered := st_delivered s, ev_Xid := st_xid s\<rparr>),
                      del_Delivered = st_delivered s\<rparr>), s))"

definition handleWALData :: "LSN \<Rightarrow> wal_message option \<Rightarrow> Stream \<Rightarrow> handled" where
  "handleWALData walStart parsed s =
     (case parsed of
        None \<Rightarrow> (Inl (InvariantViolation ''''), s)
      | Some msg \<Rightarrow>
          (case msg of
             BeginMessage xid \<Rightarrow>
               if st_inTransaction s then (Inl (InvariantViolation ''ST-4''), s)
               else (Inr None, s\<lparr>st_inTransaction := True, st_xid := xid\<rparr>)
           | CommitMessage endLSN \<Rightarrow>
               if \<not> st_inTransaction s then (Inl (InvariantViolation ''ST-4''), s)
               else let s1 = raiseDelivered endLSN (s\<lparr>st_inTransaction := False\<rparr>)
                    in (Inr (Some (progress s1)), s1)
           | RelationMessage m \<Rightarrow> recordRelation m s
           | InsertMessage rid tuple \<Rightarrow> deliverChange (decodeInsert rid tuple walStart s) s
           | UpdateMessage rid old new \<Rightarrow> deliverChange (decodeUpdate rid old new walStart s) s
           | DeleteMessage rid old \<Rightarrow> deliverChange (decodeDelete rid old walStart s) s
           | TruncateMessage \<Rightarrow> (Inl ErrUnsupportedChange, s)
           | TypeMessage \<Rightarrow> (Inr None, s)
           | OriginMessage \<Rightarrow> (Inr None, s)
           | OtherMessage \<Rightarrow> (Inl (InvariantViolation ''ST-4''), s)))"

text \<open>
  Replication messages. The first byte selects the parser, each a parameter;
  \<open>w\<close> and \<open>k\<close> are the bytes of the two message kinds.
\<close>

record parsers =
  parseKeepalive :: "nat list \<Rightarrow> (LSN \<times> bool) option"
  parseXLogData :: "nat list \<Rightarrow> (LSN \<times> nat list) option"
  parseWAL :: "nat list \<Rightarrow> wal_message option"

definition handleCopyData :: "parsers \<Rightarrow> bool \<Rightarrow> nat list \<Rightarrow> Stream \<Rightarrow> handled" where
  "handleCopyData P broken data s =
     (case data of
        [] \<Rightarrow> (Inl (InvariantViolation ''ST-4''), s)
      | b # rest \<Rightarrow>
          if b = of_char (CHR ''k'') then
            (case parseKeepalive P rest of
               None \<Rightarrow> (Inl (ServerError ''keepalive''), s)
             | Some (walEnd, reply) \<Rightarrow> handleKeepalive broken walEnd reply s)
          else if b = of_char (CHR ''w'') then
            (case parseXLogData P rest of
               None \<Rightarrow> (Inl (ServerError ''WAL data''), s)
             | Some (walStart, bytes) \<Rightarrow> handleWALData walStart (parseWAL P bytes) s)
          else (Inl (InvariantViolation ''ST-4''), s))"

datatype backend_message =
    CopyData "nat list"
  | ErrorResponse string
  | CopyDone
  | CommandComplete
  | NoticeResponse string string
  | ParameterStatus
  | OtherBackend

definition handleNotice :: "string \<Rightarrow> Stream \<Rightarrow> handled" where
  "handleNotice severity s =
     (if severity \<noteq> ''WARNING'' then (Inr None, s) else (Inl (InvariantViolation ''ST-4''), s))"

definition handleMessage :: "parsers \<Rightarrow> bool \<Rightarrow> backend_message \<Rightarrow> Stream \<Rightarrow> handled" where
  "handleMessage P broken msg s =
     (case msg of
        CopyData data \<Rightarrow> handleCopyData P broken data s
      | ErrorResponse code \<Rightarrow> (Inl (ServerError code), s)
      | CopyDone \<Rightarrow> (Inl ErrStreamEnded, s)
      | CommandComplete \<Rightarrow> (Inl ErrStreamEnded, s)
      | NoticeResponse severity code \<Rightarrow> handleNotice severity s
      | ParameterStatus \<Rightarrow> (Inr None, s)
      | OtherBackend \<Rightarrow> (Inl (InvariantViolation ''ST-4''), s))"

text \<open>
  \<open>Next\<close> receives until a message yields, the wait runs out or the receive
  fails; \<open>None\<close> means the inputs given ended before that.
\<close>

datatype received =
    Received backend_message bool
  | WaitElapsed bool
  | ReceiveError decode_error

fun nextLoop :: "parsers \<Rightarrow> received list \<Rightarrow> Stream \<Rightarrow> ((decode_error + Delivery) \<times> Stream) option" where
  "nextLoop P [] s = None"
| "nextLoop P (ReceiveError e # rs) s = Some (Inl e, fail e s)"
| "nextLoop P (WaitElapsed broken # rs) s =
     (case sendStatus broken (st_confirmed s) s of
        (Inl e, s1) \<Rightarrow> Some (Inl e, fail e s1)
      | (Inr _, s1) \<Rightarrow> Some (Inr (progress s1), s1))"
| "nextLoop P (Received msg broken # rs) s =
     (case handleMessage P broken msg s of
        (Inl e, s1) \<Rightarrow> Some (Inl e, fail e s1)
      | (Inr (Some d), s1) \<Rightarrow> Some (Inr d, s1)
      | (Inr None, s1) \<Rightarrow> nextLoop P rs s1)"

definition Stream_Next :: "parsers \<Rightarrow> received list \<Rightarrow> Stream \<Rightarrow> ((decode_error + Delivery) \<times> Stream) option" where
  "Stream_Next P rs s = (case st_failed s of Some e \<Rightarrow> Some (Inl e, s) | None \<Rightarrow> nextLoop P rs s)"

definition Confirm :: "bool \<Rightarrow> LSN \<Rightarrow> Stream \<Rightarrow> (decode_error + unit) \<times> Stream" where
  "Confirm broken lsn s =
     (case st_failed s of
        Some e \<Rightarrow> (Inl e, s)
      | None \<Rightarrow>
          if lsn < st_confirmed s then (Inl (InvariantViolation ''ST-4''), s)
          else if lsn > st_delivered s then (Inl (InvariantViolation ''ST-4''), s)
          else case sendStatus broken lsn s of
            (Inl e, s1) \<Rightarrow> (Inl e, fail e s1)
          | (Inr _, s1) \<Rightarrow> (Inr (), s1\<lparr>st_confirmed := lsn\<rparr>))"

section \<open>Positions\<close>

text \<open>Reports never fall and never pass what was confirmed; what was confirmed was delivered.\<close>

definition stream_inv :: "Stream \<Rightarrow> bool" where
  "stream_inv s \<longleftrightarrow> st_confirmed s \<le> st_delivered s \<and> sorted (st_sent s) \<and>
     (\<forall>p \<in> set (st_sent s). p \<le> st_confirmed s)"

lemma OpenStream_inv: "OpenStream target nameOK identity started from = Inr s \<Longrightarrow> stream_inv s"
  by (auto simp: OpenStream_def stream_inv_def split: if_splits sum.splits option.splits)

lemma raiseDelivered_le: "st_delivered s \<le> st_delivered (raiseDelivered lsn s)" "lsn \<le> st_delivered (raiseDelivered lsn s)"
  by (auto simp: raiseDelivered_def)

lemma raiseDelivered_sel [simp]:
  "st_confirmed (raiseDelivered lsn s) = st_confirmed s" "st_sent (raiseDelivered lsn s) = st_sent s"
  "st_failed (raiseDelivered lsn s) = st_failed s" "st_inTransaction (raiseDelivered lsn s) = st_inTransaction s"
  "st_relation (raiseDelivered lsn s) = st_relation s" "st_xid (raiseDelivered lsn s) = st_xid s"
  "st_target (raiseDelivered lsn s) = st_target s"
  by (auto simp: raiseDelivered_def)

lemma raiseDelivered_inv: "stream_inv s \<Longrightarrow> stream_inv (raiseDelivered lsn s)"
  using raiseDelivered_le(1) [of s lsn] by (auto simp: stream_inv_def)

lemma sendStatus_confirmed_inv:
  "stream_inv s \<Longrightarrow> sendStatus b (st_confirmed s) s = (r, s') \<Longrightarrow> stream_inv s'"
  by (auto simp: sendStatus_def stream_inv_def sorted_append split: if_splits)

lemma handleKeepalive_inv:
  assumes "stream_inv s" "handleKeepalive b w r s = (res, s')"
  shows "stream_inv s'"
proof -
  define s2 where "s2 = (if \<not> st_inTransaction s then raiseDelivered w (s\<lparr>st_serverWALEnd := w\<rparr>)
    else s\<lparr>st_serverWALEnd := w\<rparr>)"
  have "stream_inv (s\<lparr>st_serverWALEnd := w\<rparr>)" using assms(1) by (simp add: stream_inv_def)
  then have s2: "stream_inv s2" by (simp add: s2_def raiseDelivered_inv)
  have "handleKeepalive b w r s = (if r then (case sendStatus b (st_confirmed s2) s2 of (Inl e, s3) \<Rightarrow> (Inl e, s3)
      | (Inr _, s3) \<Rightarrow> (Inr (Some (progress s3)), s3)) else (Inr (Some (progress s2)), s2))"
    by (simp add: handleKeepalive_def s2_def Let_def)
  then show ?thesis
    using assms(2) s2 sendStatus_confirmed_inv [OF s2]
    by (auto split: if_splits prod.splits sum.splits)
qed

lemma handleWALData_inv:
  assumes "stream_inv s" "handleWALData w m s = (res, s')"
  shows "stream_inv s'"
proof -
  have "stream_inv (s\<lparr>st_inTransaction := False\<rparr>)" using assms(1) by (simp add: stream_inv_def)
  from raiseDelivered_inv [OF this] assms show ?thesis
    by (auto simp: handleWALData_def recordRelation_def deliverChange_def Let_def stream_inv_def
        split: option.splits wal_message.splits if_splits sum.splits)
qed

lemma handleMessage_inv:
  assumes "stream_inv s" "handleMessage P b msg s = (res, s')"
  shows "stream_inv s'"
  using assms handleKeepalive_inv [OF assms(1)] handleWALData_inv [OF assms(1)]
  by (auto simp: handleMessage_def handleCopyData_def handleNotice_def
      split: backend_message.splits list.splits if_splits option.splits)

lemma fail_inv: "stream_inv s \<Longrightarrow> stream_inv (fail e s)"
  by (simp add: fail_def stream_inv_def)

lemma nextLoop_inv: "nextLoop P rs s = Some (res, s') \<Longrightarrow> stream_inv s \<Longrightarrow> stream_inv s'"
proof (induction P rs s rule: nextLoop.induct)
  case (2 P e rs s)
  then show ?case by (auto intro: fail_inv)
next
  case (3 P b rs s)
  then show ?case
    by (auto split: prod.splits sum.splits intro: fail_inv sendStatus_confirmed_inv)
next
  case (4 P msg b rs s)
  then show ?case
    by (auto split: prod.splits sum.splits option.splits intro: fail_inv handleMessage_inv)
qed simp

lemma Stream_Next_inv: "Stream_Next P rs s = Some (res, s') \<Longrightarrow> stream_inv s \<Longrightarrow> stream_inv s'"
  by (auto simp: Stream_Next_def split: option.splits intro: nextLoop_inv)

lemma Confirm_inv: "Confirm b lsn s = (res, s') \<Longrightarrow> stream_inv s \<Longrightarrow> stream_inv s'"
  by (auto simp: Confirm_def sendStatus_def stream_inv_def fail_def sorted_append not_less
      split: option.splits if_splits) (meson order_trans)+

text \<open>What the stream's owner does with it.\<close>

inductive stream_reach :: "parsers \<Rightarrow> Stream \<Rightarrow> Stream \<Rightarrow> bool" for P where
  stream_here: "stream_reach P s s"
| stream_next: "stream_reach P s t \<Longrightarrow> Stream_Next P rs t = Some (res, u) \<Longrightarrow> stream_reach P s u"
| stream_confirm: "stream_reach P s t \<Longrightarrow> Confirm b lsn t = (res, u) \<Longrightarrow> stream_reach P s u"

lemma stream_reach_inv: "stream_reach P s t \<Longrightarrow> stream_inv s \<Longrightarrow> stream_inv t"
  by (induction rule: stream_reach.induct) (auto intro: Stream_Next_inv Confirm_inv)

text \<open>
  C17: Only confirmed positions reach the server. However a stream's owner
  mixes \<open>Next\<close> and \<open>Confirm\<close>, whatever arrives, and whether or not reports can be
  written, every position reported on the connection is one that was confirmed,
  reports never move backwards, and the confirmed position never passes what the
  stream has delivered; \<open>Confirm\<close> accepts a position exactly when it lies between
  the two on a stream that has not failed and whose connection carries the
  report.
\<close>

theorem confirmed_between_sent_and_delivered:
  assumes "OpenStream target nameOK identity started from = Inr s0" "stream_reach P s0 s"
  shows "sorted (st_sent s) \<and> (\<forall>p \<in> set (st_sent s). p \<le> st_confirmed s) \<and> st_confirmed s \<le> st_delivered s \<and>
    (fst (Confirm b lsn s) = Inr () \<longleftrightarrow>
       st_failed s = None \<and> st_confirmed s \<le> lsn \<and> lsn \<le> st_delivered s \<and> \<not> b)"
proof -
  have "stream_inv s" using stream_reach_inv [OF assms(2) OpenStream_inv [OF assms(1)]] .
  moreover have "fst (Confirm b lsn s) = Inr () \<longleftrightarrow>
      st_failed s = None \<and> st_confirmed s \<le> lsn \<and> lsn \<le> st_delivered s \<and> \<not> b"
    by (auto simp: Confirm_def sendStatus_def split: option.splits)
  ultimately show ?thesis by (simp add: stream_inv_def)
qed

definition example_stream :: Stream where
  "example_stream = \<lparr>st_target = example_target, st_start = 100, st_delivered = 100, st_confirmed = 0,
     st_serverWALEnd = 0, st_relation = None, st_inTransaction = False, st_xid = 0,
     st_failed = None, st_sent = []\<rparr>"

lemma example_OpenStream:
  "OpenStream example_target True (Inr ''app'') None 100 = Inr example_stream"
  by (simp add: OpenStream_def example_target_def example_stream_def)

theorem confirmed_between_sent_and_delivered_witness:
  "fst (Confirm False 100 example_stream) = Inr () \<and> fst (Confirm False 101 example_stream) \<noteq> Inr ()"
  using confirmed_between_sent_and_delivered [OF example_OpenStream stream_here, of False 100]
    confirmed_between_sent_and_delivered [OF example_OpenStream stream_here, of False 101]
  by (simp add: example_stream_def)

section \<open>What a delivered position covers\<close>

text \<open>
  The server's side: committed transactions in commit order, each sent whole,
  with keepalives anywhere. A script is what the server sends; \<open>script\_ok\<close> is the
  order it promises: a transaction's end lies above the end of every earlier
  transaction and above every keepalive position sent between transactions
  before it. A keepalive inside a transaction may name any position.
\<close>

datatype txn_item = TxMessage LSN wal_message | TxKeepalive LSN bool

datatype script_item = ScTxn Xid "txn_item list" LSN | ScKeepalive LSN bool

fun script_ok :: "LSN \<Rightarrow> script_item list \<Rightarrow> bool" where
  "script_ok b [] = True"
| "script_ok b (ScTxn x items e # sc) = (b < e \<and> script_ok e sc)"
| "script_ok b (ScKeepalive w r # sc) = script_ok (max b w) sc"

datatype feed = FeedWAL LSN wal_message | FeedKeepalive LSN bool

fun plain :: "wal_message \<Rightarrow> bool" where
  "plain (BeginMessage x) = False"
| "plain (CommitMessage e) = False"
| "plain m = True"

fun item_feed :: "txn_item \<Rightarrow> feed" where
  "item_feed (TxMessage l m) = FeedWAL l m"
| "item_feed (TxKeepalive w r) = FeedKeepalive w r"

fun item_ok :: "txn_item \<Rightarrow> bool" where
  "item_ok (TxMessage l m) = plain m"
| "item_ok (TxKeepalive w r) = True"

fun script_feeds :: "script_item \<Rightarrow> feed list" where
  "script_feeds (ScTxn x items e) =
     FeedWAL 0 (BeginMessage x) # map item_feed (filter item_ok items) @ [FeedWAL 0 (CommitMessage e)]"
| "script_feeds (ScKeepalive w r) = [FeedKeepalive w r]"

text \<open>The messages on the connection that carry a feed, read with the library's parsers.\<close>

definition feedOf :: "parsers \<Rightarrow> backend_message \<Rightarrow> feed option" where
  "feedOf P msg =
     (case msg of
        CopyData (b # rest) \<Rightarrow>
          if b = of_char (CHR ''k'') then map_option (\<lambda>(w, r). FeedKeepalive w r) (parseKeepalive P rest)
          else if b = of_char (CHR ''w'') then
            (case parseXLogData P rest of
               None \<Rightarrow> None
             | Some (l, bytes) \<Rightarrow> map_option (FeedWAL l) (parseWAL P bytes))
          else None
      | _ \<Rightarrow> None)"

fun handleFeed :: "feed \<Rightarrow> Stream \<Rightarrow> handled" where
  "handleFeed (FeedWAL l m) s = handleWALData l (Some m) s"
| "handleFeed (FeedKeepalive w r) s = handleKeepalive False w r s"

lemma handleMessage_feed: "feedOf P msg = Some f \<Longrightarrow> handleMessage P False msg s = handleFeed f s"
  by (auto simp: feedOf_def handleMessage_def handleCopyData_def
      split: backend_message.splits list.splits if_splits option.splits)

fun consume :: "parsers \<Rightarrow> backend_message list \<Rightarrow> Stream \<Rightarrow> (Delivery list \<times> Stream) option" where
  "consume P [] s = Some ([], s)"
| "consume P (m # ms) s =
     (case handleMessage P False m s of
        (Inl e, s1) \<Rightarrow> None
      | (Inr d, s1) \<Rightarrow>
          (case consume P ms s1 of
             None \<Rightarrow> None
           | Some (ds, s2) \<Rightarrow> Some ((case d of None \<Rightarrow> ds | Some x \<Rightarrow> x # ds), s2)))"

fun consumeFeeds :: "feed list \<Rightarrow> Stream \<Rightarrow> (Delivery list \<times> Stream) option" where
  "consumeFeeds [] s = Some ([], s)"
| "consumeFeeds (f # fs) s =
     (case handleFeed f s of
        (Inl e, s1) \<Rightarrow> None
      | (Inr d, s1) \<Rightarrow>
          (case consumeFeeds fs s1 of
             None \<Rightarrow> None
           | Some (ds, s2) \<Rightarrow> Some ((case d of None \<Rightarrow> ds | Some x \<Rightarrow> x # ds), s2)))"

lemma consume_feeds: "map (feedOf P) ms = map Some fs \<Longrightarrow> consume P ms s = consumeFeeds fs s"
proof (induction ms arbitrary: fs s)
  case (Cons m ms)
  then obtain f fs' where "fs = f # fs'" "feedOf P m = Some f" "map (feedOf P) ms = map Some fs'"
    by (cases fs) auto
  then show ?case
    using Cons.IH by (auto simp: handleMessage_feed split: prod.splits sum.splits)
qed simp

lemma consumeFeeds_append:
  "consumeFeeds (fs @ gs) s = (case consumeFeeds fs s of
     None \<Rightarrow> None
   | Some (ds, s1) \<Rightarrow> (case consumeFeeds gs s1 of None \<Rightarrow> None | Some (es, s2) \<Rightarrow> Some (ds @ es, s2)))"
proof (induction fs arbitrary: s)
  case (Cons f fs)
  then show ?case by (auto split: prod.splits sum.splits option.splits)
qed (auto split: option.splits)

text \<open>Inside a transaction nothing moves the delivered position, and changes carry it with the transaction's id.\<close>

definition inside :: "Xid \<Rightarrow> LSN \<Rightarrow> Stream \<Rightarrow> bool" where
  "inside x b s \<longleftrightarrow> st_inTransaction s \<and> st_xid s = x \<and> st_delivered s = b"

definition events_in :: "Xid \<Rightarrow> LSN \<Rightarrow> Delivery list \<Rightarrow> bool" where
  "events_in x b ds \<longleftrightarrow> (\<forall>d \<in> set ds. \<forall>ev. del_Change d = Some ev \<longrightarrow> ev_Xid ev = x \<and> ev_Delivered ev = b)"

lemma handle_inside:
  assumes "inside x b s" "item_ok it" "handleFeed (item_feed it) s = (Inr d, s')"
  shows "inside x b s'" "events_in x b (case d of None \<Rightarrow> [] | Some y \<Rightarrow> [y])"
proof -
  have "inside x b s' \<and> events_in x b (case d of None \<Rightarrow> [] | Some y \<Rightarrow> [y])"
  proof (cases it)
    case (TxKeepalive w r)
    with assms show ?thesis
      by (auto simp: inside_def events_in_def handleKeepalive_def sendStatus_def progress_def Let_def split: if_splits)
  next
    case (TxMessage l m)
    with assms show ?thesis
      by (cases m) (auto simp: inside_def events_in_def handleWALData_def recordRelation_def deliverChange_def
          split: sum.splits option.splits if_splits)
  qed
  then show "inside x b s'" "events_in x b (case d of None \<Rightarrow> [] | Some y \<Rightarrow> [y])" by simp_all
qed

lemma consume_inside:
  assumes "inside x b s" "\<forall>it \<in> set items. item_ok it" "consumeFeeds (map item_feed items) s = Some (ds, s')"
  shows "inside x b s' \<and> events_in x b ds"
  using assms
proof (induction items arbitrary: s ds)
  case (Cons it items)
  from Cons.prems(3) obtain d s1 es where h: "handleFeed (item_feed it) s = (Inr d, s1)"
      and r: "consumeFeeds (map item_feed items) s1 = Some (es, s')"
      and ds: "ds = (case d of None \<Rightarrow> es | Some y \<Rightarrow> y # es)"
    by (auto split: prod.splits sum.splits option.splits)
  have ok: "item_ok it" using Cons.prems(2) by simp
  note hi = handle_inside [OF Cons.prems(1) ok h]
  have "inside x b s' \<and> events_in x b es" using Cons.IH [OF hi(1) _ r] Cons.prems(2) by simp
  then show ?case using hi(2) ds by (cases d) (auto simp: events_in_def)
qed (simp add: events_in_def)

definition outside :: "LSN \<Rightarrow> Stream \<Rightarrow> bool" where
  "outside b s \<longleftrightarrow> \<not> st_inTransaction s \<and> st_delivered s = b"

fun next_bound :: "LSN \<Rightarrow> script_item \<Rightarrow> LSN" where
  "next_bound b (ScTxn x items e) = e"
| "next_bound b (ScKeepalive w r) = max b w"

definition events_of :: "LSN \<Rightarrow> script_item \<Rightarrow> Delivery list \<Rightarrow> bool" where
  "events_of b it ds \<longleftrightarrow> (\<forall>d \<in> set ds. \<forall>ev. del_Change d = Some ev \<longrightarrow>
     (\<exists>items e. it = ScTxn (ev_Xid ev) items e \<and> ev_Delivered ev = b))"

lemma consume_Cons:
  assumes "consumeFeeds (f # fs) s = Some (ds, s')"
  obtains d s1 es where "handleFeed f s = (Inr d, s1)" "consumeFeeds fs s1 = Some (es, s')"
    "ds = (case d of None \<Rightarrow> es | Some y \<Rightarrow> y # es)"
  using assms by (auto split: prod.splits sum.splits option.splits)

lemma begin_inside:
  assumes "outside b s" "handleFeed (FeedWAL 0 (BeginMessage x)) s = (Inr d, s')"
  shows "inside x b s'" "d = None"
  using assms by (auto simp: outside_def inside_def handleWALData_def)

text \<open>A proper part of one item leaves the delivered position where it was.\<close>

lemma consume_part:
  assumes "outside b s" "script_feeds it = part @ q" "q \<noteq> []" "consumeFeeds part s = Some (ds, s')"
  shows "st_delivered s' = b \<and> events_of b it ds"
proof (cases part)
  case Nil
  then show ?thesis using assms by (auto simp: outside_def events_of_def)
next
  case (Cons f part')
  from assms(2,3) Cons obtain x items e where it: "it = ScTxn x items e"
    by (cases it) (auto simp: Cons_eq_append_conv)
  let ?its = "filter item_ok items"
  have f: "f = FeedWAL 0 (BeginMessage x)" using assms(2) Cons it by simp
  have rest: "map item_feed ?its @ [FeedWAL 0 (CommitMessage e)] = part' @ q" using assms(2) Cons it by simp
  then have p': "part' = map item_feed (take (length part') ?its)"
    using assms(3) by (metis (no_types) append_butlast_last_id append_eq_append_conv_if append_eq_conv_conj
        append_assoc butlast_append butlast_snoc take_map)
  define its where "its = take (length part') ?its"
  have its: "part' = map item_feed its" "\<forall>i \<in> set its. item_ok i"
    using p' by (auto simp: its_def dest: in_set_takeD)
  from assms(4) [unfolded Cons f] obtain d s1 es where
      h: "handleFeed (FeedWAL 0 (BeginMessage x)) s = (Inr d, s1)" "consumeFeeds part' s1 = Some (es, s')"
      "ds = (case d of None \<Rightarrow> es | Some y \<Rightarrow> y # es)" by (rule consume_Cons)
  note b = begin_inside [OF assms(1) h(1)]
  have "inside x b s' \<and> events_in x b es" using consume_inside [OF b(1) its(2)] h(2) its(1) by simp
  then show ?thesis using h(3) b(2) it by (auto simp: inside_def events_of_def events_in_def)
qed

lemma consume_item:
  assumes "outside b s" "script_ok b [it]" "consumeFeeds (script_feeds it) s = Some (ds, s')"
  shows "outside (next_bound b it) s' \<and> events_of b it ds"
proof (cases it)
  case (ScKeepalive w r)
  with assms show ?thesis
    by (auto simp: outside_def events_of_def handleKeepalive_def sendStatus_def progress_def raiseDelivered_def
        Let_def max_def split: if_splits)
next
  case (ScTxn x items e)
  let ?its = "filter item_ok items"
  let ?part = "FeedWAL 0 (BeginMessage x) # map item_feed ?its"
  have "consumeFeeds (?part @ [FeedWAL 0 (CommitMessage e)]) s = Some (ds, s')" using assms(3) ScTxn by simp
  then obtain ds1 s1 ds2 where p: "consumeFeeds ?part s = Some (ds1, s1)"
      and c: "consumeFeeds [FeedWAL 0 (CommitMessage e)] s1 = Some (ds2, s')" and ds: "ds = ds1 @ ds2"
    unfolding consumeFeeds_append by (auto split: option.splits simp del: consumeFeeds.simps)
  have part: "st_delivered s1 = b \<and> events_of b it ds1"
    by (rule consume_part [OF assms(1) _ _ p, where q = "[FeedWAL 0 (CommitMessage e)]"]) (simp_all add: ScTxn)
  have "outside e s'" "\<forall>d \<in> set ds2. del_Change d = None"
    using c part assms(2) ScTxn
    by (auto simp: handleWALData_def raiseDelivered_def progress_def outside_def Let_def split: if_splits)
  then show ?thesis using part ds ScTxn by (auto simp: events_of_def)
qed

lemma script_ok_next: "script_ok b (it # sc) \<Longrightarrow> script_ok b [it] \<and> script_ok (next_bound b it) sc \<and> b \<le> next_bound b it"
  by (cases it) auto

lemma script_ok_above: "script_ok b sc \<Longrightarrow> ScTxn x items e \<in> set sc \<Longrightarrow> b < e"
  by (induction b sc rule: script_ok.induct) auto

lemma consume_script:
  assumes "outside b s" "script_ok b (done @ it # rest)" "script_feeds it = part @ q" "q \<noteq> []"
    and "consumeFeeds (concat (map script_feeds done) @ part) s = Some (ds, s')"
  shows "(\<forall>x items e. ScTxn x items e \<in> set (it # rest) \<longrightarrow> st_delivered s' < e) \<and>
    (\<forall>d \<in> set ds. \<forall>ev. del_Change d = Some ev \<longrightarrow>
       (\<exists>items e. ScTxn (ev_Xid ev) items e \<in> set (done @ [it]) \<and> ev_Delivered ev < e \<and> b \<le> ev_Delivered ev))"
  using assms(1,2,5)
proof (induction "done" arbitrary: b s ds)
  case Nil
  then have p: "st_delivered s' = b \<and> events_of b it ds"
    using consume_part [OF _ assms(3,4)] by simp
  moreover have "\<forall>x items e. ScTxn x items e \<in> set (it # rest) \<longrightarrow> b < e"
    using Nil(2) script_ok_above by (metis append_Nil)
  ultimately show ?case unfolding events_of_def by fastforce
next
  case (Cons a "done")
  have ok: "script_ok b [a]" "script_ok (next_bound b a) (done @ it # rest)" "b \<le> next_bound b a"
    using script_ok_next Cons.prems(2) by auto
  from Cons.prems(3) obtain ds1 s1 ds2 where c1: "consumeFeeds (script_feeds a) s = Some (ds1, s1)"
      and c2: "consumeFeeds (concat (map script_feeds done) @ part) s1 = Some (ds2, s')" and ds: "ds = ds1 @ ds2"
    by (auto simp: consumeFeeds_append [of "script_feeds a"] split: option.splits)
  have a: "outside (next_bound b a) s1" "events_of b a ds1" using consume_item [OF Cons.prems(1) ok(1) c1] by auto
  have "b < e" if "a = ScTxn x items e" for x items e using ok(1) that by simp
  with a(2) have "\<forall>d \<in> set ds1. \<forall>ev. del_Change d = Some ev \<longrightarrow>
      (\<exists>items e. ScTxn (ev_Xid ev) items e = a \<and> ev_Delivered ev < e \<and> b \<le> ev_Delivered ev)"
    unfolding events_of_def by fastforce
  then show ?case using Cons.IH [OF a(1) ok(2) c2] ds ok(3) by (fastforce intro: order_trans)
qed


definition example_relation :: relation_message where
  "example_relation = \<lparr>rm_id = 16384, rm_namespace = ''public'', rm_name = ''orders'', rm_replicaIdentity = 100,
     rm_columns = [\<lparr>rc_flags = 1, rc_name = ''id'', rc_type = 20, rc_modifier = -1\<rparr>,
                   \<lparr>rc_flags = 0, rc_name = ''qty'', rc_type = 23, rc_modifier = -1\<rparr>]\<rparr>"

definition example_parsers :: parsers where
  "example_parsers = \<lparr>parseKeepalive = (\<lambda>_. None), parseXLogData = (\<lambda>bytes. Some (0, bytes)),
     parseWAL = (\<lambda>bytes. case bytes of
         [b] \<Rightarrow> (if b = 0 then Some (BeginMessage 7)
                 else if b = 1 then Some (RelationMessage example_relation)
                 else if b = 2 then Some (InsertMessage 16384 (Some [TupleText ''5'', TupleNull]))
                 else if b = 3 then Some (CommitMessage 200)
                 else if b = 4 then Some (BeginMessage 8)
                 else None)
       | _ \<Rightarrow> None)\<rparr>"

definition example_messages :: "backend_message list" where
  "example_messages = map (\<lambda>b. CopyData [119, b]) [0, 1, 2, 3, 4]"

definition example_txn :: script_item where
  "example_txn = ScTxn 7 [TxMessage 0 (RelationMessage example_relation),
     TxMessage 0 (InsertMessage 16384 (Some [TupleText ''5'', TupleNull]))] 200"


section \<open>Decoded columns\<close>

fun decodeOne :: "rel_column \<Rightarrow> tuple_data \<Rightarrow> Column" where
  "decodeOne c (TupleText s) = PresentColumn (rc_name c) (ColText s)"
| "decodeOne c TupleNull = PresentColumn (rc_name c) ColNull"
| "decodeOne c _ = AbsentColumn (rc_name c)"

lemma decodeTuple_exact:
  "length ds = length cs \<Longrightarrow>
     decodeTuple cs ds = Inr cols \<longleftrightarrow> TupleBinary \<notin> set ds \<and> cols = map2 decodeOne cs ds"
proof (induction ds cs arbitrary: cols rule: list_induct2)
  case (Cons d ds c cs)
  then show ?case
    using Cons.IH [of "map2 decodeOne cs ds"] by (cases d; cases "decodeTuple cs ds") auto
qed auto

text \<open>
  A row is decoded column by column. A tuple decodes exactly when it has
  one text, NULL or unchanged marker per relation column, and then every column
  carries its relation's name in order: text and NULL as present values, the
  unchanged-TOAST marker, and nothing else, as an absent one.
\<close>

theorem decodeColumns_exact:
  "decodeColumns rel tuple = Inr cols \<longleftrightarrow>
     (\<exists>t. tuple = Some t \<and> length t = length (rel_columns rel) \<and> TupleBinary \<notin> set t \<and>
        cols = map2 decodeOne (rel_columns rel) t)"
  by (auto simp: decodeColumns_def decodeTuple_exact split: option.splits)

end
