(* ===== verification/Decode_Slot.thy ===== *)
theory Decode_Slot
  imports Decode_Types
begin

text \<open>
  The state of the replication slot (\<open>pkg/decode/slot_status.go\<close>,
  \<open>slot_lag.go\<close>): the row \<open>InspectSlot\<close> reads from
  \<open>pg_replication_slots\<close>, and the judgement of a slot against the ceiling on
  the WAL it retains. The row the server returns is an argument.
\<close>

section \<open>The slot's status\<close>

definition WALStatusReserved :: string where "WALStatusReserved = ''reserved''"
definition WALStatusExtended :: string where "WALStatusExtended = ''extended''"
definition WALStatusUnreserved :: string where "WALStatusUnreserved = ''unreserved''"
definition WALStatusLost :: string where "WALStatusLost = ''lost''"

record SlotInvalidation =
  si_Reason :: string
  si_Reported :: bool

definition SlotInvalidation_String :: "SlotInvalidation \<Rightarrow> string" where
  "SlotInvalidation_String i =
     (if \<not> si_Reported i then ''cause not reported by this server version''
      else if si_Reason i = '''' then ''no invalidation reported''
      else si_Reason i)"

record RetainedWAL =
  rw_Bytes :: int64
  rw_Known :: bool

record SlotStatus =
  ss_Name :: string
  ss_Database :: string
  ss_Logical :: bool
  ss_Own :: bool
  ss_Active :: bool
  ss_ActivePID :: int
  ss_WALStatus :: string
  ss_RestartLSN :: LSN
  ss_ConfirmedFlushLSN :: LSN
  ss_Retained :: RetainedWAL
  ss_Conflicting :: bool
  ss_Invalidation :: SlotInvalidation
  ss_InactiveSince :: "int option"

datatype slot_error =
    SlotInvariant string
  | SlotLostError string bool string SlotInvalidation
  | ErrSlotLagUnknown string
  | SlotLagExceededError string int64 int64
  | SlotReadError string

text \<open>One row of the statement, NULL as \<open>None\<close>; a failed query is an error, no row is \<open>Inr None\<close>.\<close>

record slot_row =
  sr_database :: "string option"
  sr_logical :: bool
  sr_own :: bool
  sr_active :: bool
  sr_activePID :: "int option"
  sr_walStatus :: "string option"
  sr_restartLSN :: "string option"
  sr_confirmedFlushLSN :: "string option"
  sr_retained :: "int64 option"
  sr_conflicting :: "bool option"
  sr_reported :: bool
  sr_invalidation :: "string option"
  sr_inactiveSince :: "int option"

definition orZero :: "'a \<Rightarrow> 'a option \<Rightarrow> 'a" where
  "orZero z v = (case v of None \<Rightarrow> z | Some x \<Rightarrow> x)"

definition parseOptional :: "string \<Rightarrow> string option \<Rightarrow> slot_error + LSN" where
  "parseOptional what text =
     (case text of
        None \<Rightarrow> Inr 0
      | Some t \<Rightarrow> (case ParseLSN t of None \<Rightarrow> Inl (SlotReadError what) | Some lsn \<Rightarrow> Inr lsn))"

definition InspectSlot :: "string \<Rightarrow> slot_error + slot_row option \<Rightarrow> slot_error + SlotStatus option" where
  "InspectSlot name answer =
     (case answer of
        Inl e \<Rightarrow> Inl e
      | Inr None \<Rightarrow> Inr None
      | Inr (Some row) \<Rightarrow>
          (case parseOptional ''restart_lsn'' (sr_restartLSN row) of
             Inl e \<Rightarrow> Inl e
           | Inr restart \<Rightarrow>
               (case parseOptional ''confirmed_flush_lsn'' (sr_confirmedFlushLSN row) of
                  Inl e \<Rightarrow> Inl e
                | Inr confirmed \<Rightarrow>
                    Inr (Some \<lparr>ss_Name = name, ss_Database = orZero '''' (sr_database row),
                      ss_Logical = sr_logical row, ss_Own = sr_own row, ss_Active = sr_active row,
                      ss_ActivePID = orZero 0 (sr_activePID row), ss_WALStatus = orZero '''' (sr_walStatus row),
                      ss_RestartLSN = restart, ss_ConfirmedFlushLSN = confirmed,
                      ss_Retained = (case sr_retained row of
                          None \<Rightarrow> \<lparr>rw_Bytes = 0, rw_Known = False\<rparr>
                        | Some n \<Rightarrow> \<lparr>rw_Bytes = n, rw_Known = True\<rparr>),
                      ss_Conflicting = orZero False (sr_conflicting row),
                      ss_Invalidation = \<lparr>si_Reason = orZero '''' (sr_invalidation row), si_Reported = sr_reported row\<rparr>,
                      ss_InactiveSince = sr_inactiveSince row\<rparr>))))"

section \<open>The ceiling\<close>

definition DefaultSlotLagCeiling :: int64 where
  "DefaultSlotLagCeiling = 2 ^ 30"

definition Lost :: "SlotStatus \<Rightarrow> bool" where
  "Lost s = (ss_WALStatus s = WALStatusLost)"

definition LostState :: "SlotStatus \<Rightarrow> slot_error option" where
  "LostState s =
     (if \<not> Lost s then None
      else Some (SlotLostError (ss_Name s) True (ss_WALStatus s) (ss_Invalidation s)))"

definition WithinLagCeiling :: "int64 \<Rightarrow> SlotStatus \<Rightarrow> slot_error option" where
  "WithinLagCeiling ceil s =
     (if ceil < 1 then Some (SlotInvariant ''ST-3'')
      else case LostState s of
        Some lost \<Rightarrow> Some lost
      | None \<Rightarrow>
          if \<not> rw_Known (ss_Retained s) then Some (ErrSlotLagUnknown (ss_Name s))
          else if rw_Bytes (ss_Retained s) > ceil
          then Some (SlotLagExceededError (ss_Name s) (rw_Bytes (ss_Retained s)) ceil)
          else None)"

section \<open>Properties\<close>

text \<open>
  The lag check fails closed. For every answer of the server about the
  slot, the check passes exactly when the slot was read, the server does not
  call it lost, the WAL it retains was measured, and that measure is within a
  ceiling of at least one byte; in particular an amount the server could not
  measure is never read as nothing retained.
\<close>

theorem WithinLagCeiling_exact:
  "(case InspectSlot name (Inr (Some row)) of
      Inr (Some s) \<Rightarrow> WithinLagCeiling ceil s = None
    | _ \<Rightarrow> False) \<longleftrightarrow>
   (1 \<le> ceil \<and> sr_walStatus row \<noteq> Some WALStatusLost \<and>
    (case sr_retained row of None \<Rightarrow> False | Some n \<Rightarrow> n \<le> ceil) \<and>
    is_ok (parseOptional ''restart_lsn'' (sr_restartLSN row)) \<and>
    is_ok (parseOptional ''confirmed_flush_lsn'' (sr_confirmedFlushLSN row)))"
  by (auto simp: InspectSlot_def WithinLagCeiling_def LostState_def Lost_def WALStatusLost_def orZero_def is_ok_def
      split: sum.splits option.splits if_splits)

end
