(* ===== verification/Applier_Snapshot.thy ===== *)
theory Applier_Snapshot
  imports Decode_Types
begin

text \<open>
  Transaction visibility (\<open>pkg/applier/snapshot.go\<close>): the source's snapshot as
  the server prints it, and whether a reader taking it would see a transaction
  the stream numbers in 32 bits. Full transaction ids are 64-bit words.
\<close>

section \<open>Snapshots\<close>

type_synonym FullXid = "64 word"

record Snapshot =
  snap_read :: bool
  snap_all :: bool
  snap_xmin :: FullXid
  snap_xmax :: FullXid
  snap_inProgress :: "FullXid list"

definition zeroSnapshot :: Snapshot where
  "zeroSnapshot = \<lparr>snap_read = False, snap_all = False, snap_xmin = 0, snap_xmax = 0, snap_inProgress = []\<rparr>"

definition AllVisible :: Snapshot where
  "AllVisible = \<lparr>snap_read = True, snap_all = True, snap_xmin = 0, snap_xmax = 0, snap_inProgress = []\<rparr>"

fun parseXids :: "string list \<Rightarrow> FullXid list option" where
  "parseXids [] = Some []"
| "parseXids (f # fs) =
     (case parseUint f 10 64 of
        None \<Rightarrow> None
      | Some n \<Rightarrow> (case parseXids fs of None \<Rightarrow> None | Some xs \<Rightarrow> Some (word_of_nat n # xs)))"

definition parseSnapshot :: "string \<Rightarrow> Snapshot option" where
  "parseSnapshot text =
     (case splitOn (CHR '':'') text of
        [p0, p1, p2] \<Rightarrow>
          (case parseUint p0 10 64 of
             None \<Rightarrow> None
           | Some xmin \<Rightarrow>
               (case parseUint p1 10 64 of
                  None \<Rightarrow> None
                | Some xmax \<Rightarrow>
                    if xmin > xmax then None
                    else let snap = \<lparr>snap_read = True, snap_all = False, snap_xmin = word_of_nat xmin,
                                     snap_xmax = word_of_nat xmax, snap_inProgress = []\<rparr>
                         in if p2 = [] then Some snap
                            else case parseXids (splitOn (CHR '','') p2) of
                              None \<Rightarrow> None
                            | Some xs \<Rightarrow> Some (snap\<lparr>snap_inProgress := xs\<rparr>)))
      | _ \<Rightarrow> None)"

text \<open>
  The signed 32-bit distance, widened to 64 bits; subtraction is 32-bit and
  wraps, as the Go conversion does.
\<close>

definition lift :: "Snapshot \<Rightarrow> Xid \<Rightarrow> FullXid" where
  "lift s xid =
     (let distance = sint (xid - ucast (snap_xmax s))
      in if distance \<ge> 0 then snap_xmax s + word_of_int distance
         else let back = word_of_int (- distance) :: FullXid
              in if back > snap_xmax s then 0 else snap_xmax s - back)"

definition Visible :: "Snapshot \<Rightarrow> Xid \<Rightarrow> bool" where
  "Visible s xid =
     (if snap_all s then True
      else if \<not> snap_read s then False
      else let full = lift s xid
           in if full < snap_xmin s then True
              else if full \<ge> snap_xmax s then False
              else full \<notin> set (snap_inProgress s))"

section \<open>Widening\<close>

lemma sint_small32:
  fixes d :: int
  assumes "- (2 ^ 31) \<le> d" "d < 2 ^ 31"
  shows "sint (word_of_int d :: 32 word) = d"
  using assms by (simp add: sint_sbintrunc' signed_take_bit_int_eq_self)

lemma xid_distance:
  fixes full xmax :: FullXid
  assumes "- (2 ^ 31) \<le> uint full - uint xmax" "uint full - uint xmax < 2 ^ 31"
  shows "sint ((ucast full :: Xid) - ucast xmax) = uint full - uint xmax"
proof -
  have "(ucast full :: Xid) = word_of_int (uint full)" "(ucast xmax :: Xid) = word_of_int (uint xmax)"
    by simp_all
  then have "(ucast full :: Xid) - ucast xmax = word_of_int (uint full - uint xmax)" by simp
  then show ?thesis using sint_small32 [OF assms] by simp
qed

lemma lift_ucast:
  fixes full :: FullXid
  assumes "- (2 ^ 31) \<le> uint full - uint (snap_xmax s)" "uint full - uint (snap_xmax s) < 2 ^ 31"
  shows "lift s (ucast full) = full"
proof (cases "uint full - uint (snap_xmax s) \<ge> 0")
  case True
  then show ?thesis
    unfolding lift_def Let_def xid_distance [OF assms] by simp
next
  case False
  let ?b = "uint (snap_xmax s) - uint full"
  have b: "0 \<le> ?b" "?b \<le> uint (snap_xmax s)" using False by simp_all
  have lt: "uint (snap_xmax s) < 2 ^ LENGTH(64)" by (rule unsigned_less)
  have "uint (word_of_int ?b :: FullXid) = ?b"
    unfolding uint_word_of_int using b lt by (intro mod_pos_pos_trivial) linarith+
  then have "\<not> (word_of_int ?b :: FullXid) > snap_xmax s" using b by (simp only: word_less_def)
  then show ?thesis
    unfolding lift_def Let_def xid_distance [OF assms] using False by simp
qed

section \<open>The server's text form\<close>

definition snapshotText :: "Snapshot \<Rightarrow> string" where
  "snapshotText s = decStr (unat (snap_xmin s)) @ '':'' @ decStr (unat (snap_xmax s)) @ '':'' @
     join '','' (map (\<lambda>x. decStr (unat x)) (snap_inProgress s))"

lemma parseUint_decStr: "parseUint (decStr (unat (x :: FullXid))) 10 64 = Some (unat x)"
proof -
  have "unat x < 2 ^ LENGTH(64)" by (rule unsigned_less)
  then show ?thesis by (simp add: parseUint_def parseDigits_decStr)
qed

lemma join_no_colon: "CHR '':'' \<notin> set (join '','' (map (\<lambda>x. decStr (unat (x :: FullXid))) xs))"
  using join_chars [of "CHR '':''" "'',''" "map (\<lambda>x. decStr (unat x)) xs"] by (auto simp: decStr_no_sep)

lemma parseXids_decStr: "parseXids (map (\<lambda>x. decStr (unat x)) xs) = Some xs"
  by (induction xs) (auto simp: parseUint_decStr)

text \<open>
  A snapshot is read as the server printed it: the text form of any
  snapshot whose lower bound does not exceed its upper bound, with any list of
  transactions in progress, parses back to it.
\<close>

theorem parseSnapshot_text:
  assumes "snap_read s" "\<not> snap_all s" "snap_xmin s \<le> snap_xmax s"
  shows "parseSnapshot (snapshotText s) = Some s"
proof -
  let ?fs = "map (\<lambda>x. decStr (unat x)) (snap_inProgress s)"
  have "splitOn (CHR '':'') (snapshotText s) = [decStr (unat (snap_xmin s)), decStr (unat (snap_xmax s)), join '','' ?fs]"
    by (simp add: snapshotText_def splitOn_append decStr_no_sep splitOn_single [OF join_no_colon])
  moreover have "join '','' ?fs = [] \<longleftrightarrow> snap_inProgress s = []"
    by (cases "snap_inProgress s" rule: list.exhaust; cases "tl (snap_inProgress s)") auto
  moreover have "splitOn (CHR '','') (join '','' ?fs) = ?fs" if "snap_inProgress s \<noteq> []"
    using that by (intro splitOn_join) (auto simp: decStr_no_sep)
  moreover have "unat (snap_xmin s) \<le> unat (snap_xmax s)" using assms(3) by (simp add: word_le_nat_alt)
  ultimately show ?thesis
    using assms(1,2) by (simp add: parseSnapshot_def parseUint_decStr parseXids_decStr Let_def)
qed

theorem parseSnapshot_text_witness:
  "parseSnapshot (snapshotText \<lparr>snap_read = True, snap_all = False, snap_xmin = 10, snap_xmax = 12, snap_inProgress = [10, 11]\<rparr>) =
   Some \<lparr>snap_read = True, snap_all = False, snap_xmin = 10, snap_xmax = 12, snap_inProgress = [10, 11]\<rparr>"
  by (rule parseSnapshot_text) simp_all

section \<open>Visibility\<close>

text \<open>The server's own rule, on full transaction ids.\<close>

definition server_visible :: "Snapshot \<Rightarrow> FullXid \<Rightarrow> bool" where
  "server_visible s full \<longleftrightarrow> full < snap_xmin s \<or> full < snap_xmax s \<and> full \<notin> set (snap_inProgress s)"

text \<open>
  C37: Visibility is judged as the server judges it. For any transaction whose
  full 64-bit id lies within half an epoch of the snapshot's upper bound, which
  is as far as two live ids can be apart, the 32-bit number the stream carries
  is read as visible exactly when a reader with that snapshot would see the
  transaction. An unread snapshot shows nothing, and the all-visible one
  everything.
\<close>

theorem Visible_exact:
  fixes full :: FullXid
  assumes "- (2 ^ 31) \<le> uint full - uint (snap_xmax s)" "uint full - uint (snap_xmax s) < 2 ^ 31"
    and "snap_read s" "\<not> snap_all s" "snap_xmin s \<le> snap_xmax s"
  shows "Visible s (ucast full) \<longleftrightarrow> server_visible s full"
  using assms(3-5) lift_ucast [OF assms(1,2)] by (auto simp: Visible_def server_visible_def Let_def not_le)

theorem Visible_exact_witness:
  "Visible \<lparr>snap_read = True, snap_all = False, snap_xmin = 4294967290, snap_xmax = 4294967300,
     snap_inProgress = [4294967294]\<rparr> (ucast (4294967295 :: FullXid)) \<longleftrightarrow>
   server_visible \<lparr>snap_read = True, snap_all = False, snap_xmin = 4294967290, snap_xmax = 4294967300,
     snap_inProgress = [4294967294]\<rparr> 4294967295"
  by (rule Visible_exact) simp_all

end
