(* ===== verification/Applier_Buffer.thy ===== *)
theory Applier_Buffer
  imports Decode_Types
begin

text \<open>
  The change buffer (\<open>pkg/applier/entry.go\<close>, \<open>buffer.go\<close>, \<open>hold.go\<close>,
  \<open>requeue.go\<close>): one entry per key, merged event by event. An entry pointer is
  identified by the key it is stored under; a Go map iteration never matters
  here, because each loop over a map treats its keys independently.

  The theory proves the buffer's structural invariant for every operation, and
  that buffering is faithful: a buffer of merged events stands for the table
  those events produce.
\<close>

section \<open>Entries\<close>

datatype applier_error =
    ApplierInvariant string
  | ErrBatchDeferred
  | ErrTableLockLost
  | DatabaseError string
  | StreamError

datatype EntryKind = Image | DeleteMarker | EntryOther nat

record Entry =
  en_Key :: int64
  en_Kind :: EntryKind
  en_OldKey :: "int64 option"
  en_OldKeyReused :: bool
  en_AbsenceAwaited :: bool
  en_Columns :: "Column list"
  en_FirstLSN :: LSN
  en_Xid :: Xid

definition newEntry :: "int64 \<Rightarrow> EntryKind \<Rightarrow> Column list \<Rightarrow> LSN \<Rightarrow> Xid \<Rightarrow> Entry" where
  "newEntry key kind columns first xid =
     \<lparr>en_Key = key, en_Kind = kind, en_OldKey = None, en_OldKeyReused = False, en_AbsenceAwaited = False,
      en_Columns = columns, en_FirstLSN = first, en_Xid = xid\<rparr>"

definition HasMarker :: "Entry \<Rightarrow> bool" where
  "HasMarker e = (\<exists>c \<in> set (en_Columns e). \<not> col_present c)"

fun colIndex :: "string \<Rightarrow> Column list \<Rightarrow> nat option" where
  "colIndex name [] = None"
| "colIndex name (c # cs) = (if col_name c = name then Some 0 else map_option Suc (colIndex name cs))"

definition overlayOne :: "Column \<Rightarrow> Column list \<Rightarrow> Column list" where
  "overlayOne c columns =
     (if \<not> col_present c then columns
      else case colIndex (col_name c) columns of
        Some i \<Rightarrow> columns[i := c]
      | None \<Rightarrow> columns @ [c])"

definition overlay :: "Column list \<Rightarrow> Entry \<Rightarrow> Entry" where
  "overlay cols e = e\<lparr>en_Columns := fold overlayOne cols (en_Columns e)\<rparr>"

definition fillOne :: "Column \<Rightarrow> Column list \<Rightarrow> Column list" where
  "fillOne c columns =
     (if \<not> col_present c then columns
      else case colIndex (col_name c) columns of
        Some i \<Rightarrow> if col_present (columns ! i) then columns else columns[i := c]
      | None \<Rightarrow> columns @ [c])"

definition fill :: "Column list \<Rightarrow> Entry \<Rightarrow> Entry" where
  "fill cols e = e\<lparr>en_Columns := fold fillOne cols (en_Columns e)\<rparr>"

section \<open>The buffer\<close>

record pendingCompletion =
  pc_completed :: "Column list"
  pc_readLSN :: LSN

record Buffer =
  buf_entries :: "int64 \<rightharpoonup> Entry"
  buf_movedFrom :: "int64 \<rightharpoonup> int64 set"
  buf_pending :: "int64 \<rightharpoonup> pendingCompletion"
  buf_oldest :: LSN
  buf_hasOldest :: bool

definition NewBuffer :: Buffer where
  "NewBuffer = \<lparr>buf_entries = Map.empty, buf_movedFrom = Map.empty, buf_pending = Map.empty,
     buf_oldest = 0, buf_hasOldest = False\<rparr>"

definition OldestPending :: "Buffer \<Rightarrow> LSN option" where
  "OldestPending b = (if buf_hasOldest b then Some (buf_oldest b) else None)"

definition dropPending :: "int64 \<Rightarrow> Buffer \<Rightarrow> Buffer" where
  "dropPending key b = b\<lparr>buf_pending := (buf_pending b)(key := None)\<rparr>"

definition unindex :: "Entry option \<Rightarrow> Buffer \<Rightarrow> Buffer" where
  "unindex e b =
     (case e of
        None \<Rightarrow> b
      | Some e \<Rightarrow>
          (case en_OldKey e of
             None \<Rightarrow> b
           | Some old \<Rightarrow>
               (let images = (case buf_movedFrom b old of None \<Rightarrow> {} | Some s \<Rightarrow> s) - {en_Key e}
                in b\<lparr>buf_movedFrom := (buf_movedFrom b)(old := if images = {} then None else Some images)\<rparr>)))"

definition trackOldest :: "LSN \<Rightarrow> Buffer \<Rightarrow> Buffer" where
  "trackOldest lsn b =
     (if \<not> buf_hasOldest b \<or> lsn < buf_oldest b then b\<lparr>buf_oldest := lsn, buf_hasOldest := True\<rparr> else b)"

definition index :: "Entry \<Rightarrow> Buffer \<Rightarrow> Buffer" where
  "index e b =
     (case en_OldKey e of
        None \<Rightarrow> b
      | Some old \<Rightarrow>
          b\<lparr>buf_movedFrom := (buf_movedFrom b)(old \<mapsto>
             insert (en_Key e) (case buf_movedFrom b old of None \<Rightarrow> {} | Some s \<Rightarrow> s))\<rparr>)"

definition put :: "Entry \<Rightarrow> Buffer \<Rightarrow> Buffer" where
  "put e b =
     (let b = unindex (buf_entries b (en_Key e)) b;
          b = dropPending (en_Key e) b;
          b = b\<lparr>buf_entries := (buf_entries b)(en_Key e \<mapsto> e)\<rparr>;
          b = index e b
      in trackOldest (en_FirstLSN e) b)"

definition remove :: "int64 \<Rightarrow> Buffer \<Rightarrow> Buffer" where
  "remove key b =
     (let b = unindex (buf_entries b key) b;
          b = dropPending key b
      in b\<lparr>buf_entries := (buf_entries b)(key := None)\<rparr>)"

fun firstLSN :: "LSN \<Rightarrow> Entry option list \<Rightarrow> LSN" where
  "firstLSN lsn [] = lsn"
| "firstLSN lsn (e # es) =
     firstLSN (case e of Some e \<Rightarrow> if en_FirstLSN e < lsn then en_FirstLSN e else lsn | None \<Rightarrow> lsn) es"

text \<open>\<open>mover\<close> is the key of the moving row's entry, when the landing is a move of a buffered row.\<close>

definition markOldKeyReused :: "int64 \<Rightarrow> int64 option \<Rightarrow> Buffer \<Rightarrow> Buffer" where
  "markOldKeyReused key mover b =
     (let images = (case buf_movedFrom b key of None \<Rightarrow> {} | Some s \<Rightarrow> s);
          marked = {k \<in> images. mover \<noteq> Some k}
      in b\<lparr>buf_entries := (\<lambda>k. if k \<in> marked
                              then map_option (\<lambda>e. e\<lparr>en_OldKeyReused := True\<rparr>) (buf_entries b k)
                              else buf_entries b k),
           buf_pending := (\<lambda>k. if k \<in> marked then None else buf_pending b k)\<rparr>)"

definition addInsert :: "ChangeEvent \<Rightarrow> Buffer \<Rightarrow> applier_error + Buffer" where
  "addInsert ev b =
     (let cur = buf_entries b (ev_Key ev) in
      if (case cur of Some e \<Rightarrow> en_Kind e = Image | None \<Rightarrow> False) then Inl (ApplierInvariant ''CO-5'')
      else if \<exists>c \<in> set (ev_Columns ev). \<not> col_present c then Inl (ApplierInvariant ''CO-8'')
      else Inr (put (newEntry (ev_Key ev) Image (ev_Columns ev) (firstLSN (ev_Delivered ev) [cur]) (ev_Xid ev))
             (markOldKeyReused (ev_Key ev) None b)))"

definition addUpdate :: "ChangeEvent \<Rightarrow> Buffer \<Rightarrow> applier_error + Buffer" where
  "addUpdate ev b =
     (case buf_entries b (ev_Key ev) of
        None \<Rightarrow>
          Inr (put (newEntry (ev_Key ev) Image (ev_Columns ev) (ev_Delivered ev) (ev_Xid ev))
             (markOldKeyReused (ev_Key ev) None b))
      | Some cur \<Rightarrow>
          if en_Kind cur = DeleteMarker then Inl (ApplierInvariant ''CO-5'')
          else Inr (b\<lparr>buf_entries := (buf_entries b)(ev_Key ev \<mapsto>
                 (overlay (ev_Columns ev) cur)\<lparr>en_Xid := ev_Xid ev\<rparr>)\<rparr>))"

definition addKeyMove :: "int64 \<Rightarrow> ChangeEvent \<Rightarrow> Buffer \<Rightarrow> applier_error + Buffer" where
  "addKeyMove oldKey ev b =
     (let cur = buf_entries b (ev_Key ev); from = buf_entries b oldKey in
      if (case cur of Some e \<Rightarrow> en_Kind e = Image | None \<Rightarrow> False) then Inl (ApplierInvariant ''CO-5'')
      else if (case from of Some e \<Rightarrow> en_Kind e = DeleteMarker | None \<Rightarrow> False)
        then Inl (ApplierInvariant ''CO-5'')
      else
        let b1 = markOldKeyReused (ev_Key ev) (map_option (\<lambda>_. oldKey) from) b;
            moved0 = (newEntry (ev_Key ev) Image [] (firstLSN (ev_Delivered ev) [cur, from]) (ev_Xid ev))
                       \<lparr>en_OldKey := Some oldKey\<rparr>;
            moved = (case from of
                None \<Rightarrow> moved0\<lparr>en_Columns := ev_Columns ev\<rparr>
              | Some f \<Rightarrow>
                  let m = overlay (ev_Columns ev) (moved0\<lparr>en_Columns := en_Columns f\<rparr>)
                  in case en_OldKey f of
                       None \<Rightarrow> m
                     | Some origin \<Rightarrow> m\<lparr>en_OldKey := Some origin, en_OldKeyReused := en_OldKeyReused f\<rparr>);
            b2 = put moved b1
        in Inr (put (newEntry oldKey DeleteMarker [] (firstLSN (ev_Delivered ev) [from]) (ev_Xid ev)) b2))"

definition addDelete :: "ChangeEvent \<Rightarrow> Buffer \<Rightarrow> Buffer" where
  "addDelete ev b =
     put (newEntry (ev_Key ev) DeleteMarker [] (firstLSN (ev_Delivered ev) [buf_entries b (ev_Key ev)]) (ev_Xid ev)) b"

definition Add :: "ChangeEvent \<Rightarrow> Buffer \<Rightarrow> applier_error + Buffer" where
  "Add ev b =
     (case ev_Kind ev of
        ChangeInsert \<Rightarrow> addInsert ev b
      | ChangeUpdate \<Rightarrow>
          (case ev_OldKey ev of
             Some old \<Rightarrow> if old \<noteq> ev_Key ev then addKeyMove old ev b else addUpdate ev b
           | None \<Rightarrow> addUpdate ev b)
      | ChangeDelete \<Rightarrow> Inr (addDelete ev b)
      | ChangeOther _ \<Rightarrow> Inl (ApplierInvariant ''CO-5''))"

fun AddAll :: "ChangeEvent list \<Rightarrow> Buffer \<Rightarrow> applier_error + Buffer" where
  "AddAll [] b = Inr b"
| "AddAll (ev # evs) b = (case Add ev b of Inl e \<Rightarrow> Inl e | Inr b' \<Rightarrow> AddAll evs b')"

section \<open>Held images and requeued batches\<close>

record HeldImage =
  hi_Entry :: Entry
  hi_Completed :: "Column list"
  hi_FromSource :: bool
  hi_ReadLSN :: LSN

text \<open>A value read from a shadow row is marked as in the shadow's form.\<close>

definition inShadowForm :: "Column list \<Rightarrow> Column list" where
  "inShadowForm cols =
     map (\<lambda>c. case Column_Get c of None \<Rightarrow> c | Some v \<Rightarrow> PresentColumn (col_name c) (ColShadow v)) cols"

definition holdOne :: "HeldImage \<Rightarrow> Buffer \<Rightarrow> Buffer" where
  "holdOne h b =
     (let e = hi_Entry h;
          b = put e b;
          completed = (if \<not> hi_FromSource h
                       then inShadowForm (hi_Completed h) else hi_Completed h)
      in b\<lparr>buf_pending := (buf_pending b)(en_Key e \<mapsto>
            \<lparr>pc_completed = completed, pc_readLSN = hi_ReadLSN h\<rparr>)\<rparr>)"

definition Hold :: "HeldImage list \<Rightarrow> Buffer \<Rightarrow> applier_error + Buffer" where
  "Hold held b =
     (if \<exists>h \<in> set held. buf_entries b (en_Key (hi_Entry h)) \<noteq> None then Inl (ApplierInvariant ''CO-5'')
      else Inr (fold holdOne held b))"

definition Release :: "LSN \<Rightarrow> Buffer \<Rightarrow> Buffer" where
  "Release passed b =
     (let taken = (\<lambda>k. case buf_pending b k of Some p \<Rightarrow> \<not> pc_readLSN p > passed | None \<Rightarrow> False)
      in b\<lparr>buf_entries := (\<lambda>k. if taken k
                              then map_option (fill (pc_completed (the (buf_pending b k)))) (buf_entries b k)
                              else buf_entries b k),
           buf_pending := (\<lambda>k. if taken k then None else buf_pending b k)\<rparr>)"

definition Requeue :: "Entry list \<Rightarrow> Buffer \<Rightarrow> applier_error + Buffer" where
  "Requeue entries b =
     (if \<exists>e \<in> set entries. buf_entries b (en_Key e) \<noteq> None then Inl (ApplierInvariant ''CO-5'')
      else Inr (fold put entries b))"

section \<open>Columns by name\<close>

definition colOf :: "Column list \<Rightarrow> string \<Rightarrow> Column option" where
  "colOf cols name = List.find (\<lambda>c. col_name c = name) cols"

lemma colIndex_None: "colIndex name cols = None \<longleftrightarrow> (\<forall>c \<in> set cols. col_name c \<noteq> name)"
  by (induction cols) auto

lemma colIndex_Some:
  "colIndex name cols = Some i \<Longrightarrow> i < length cols \<and> col_name (cols ! i) = name"
  by (induction cols arbitrary: i) (auto split: if_splits)

lemma colIndex_colOf: "colIndex name cols = Some i \<Longrightarrow> colOf cols name = Some (cols ! i)"
  unfolding colOf_def by (induction cols arbitrary: i) (auto split: if_splits)

lemma colOf_update:
  assumes "colIndex (col_name c) cols = Some i"
  shows "colOf (cols[i := c]) name = (if name = col_name c then Some c else colOf cols name)"
  using assms unfolding colOf_def
  by (induction cols arbitrary: i) (auto split: if_splits nat.splits)

lemma colOf_append:
  "colOf (xs @ ys) name = (case colOf xs name of Some c \<Rightarrow> Some c | None \<Rightarrow> colOf ys name)"
  unfolding colOf_def by (induction xs) auto

lemma colOf_simps:
  "colOf [] name = None" "colOf (c # cs) name = (if col_name c = name then Some c else colOf cs name)"
  by (simp_all add: colOf_def)

lemma colOf_None: "colOf cols name = None \<longleftrightarrow> (\<forall>c \<in> set cols. col_name c \<noteq> name)"
  by (auto simp: colOf_def find_None_conv)

lemma colOf_overlayOne:
  "colOf (overlayOne c cols) name =
     (if col_present c \<and> name = col_name c then Some c else colOf cols name)"
proof (cases "colIndex (col_name c) cols")
  case None
  then have "colOf cols (col_name c) = None" by (simp add: colIndex_None colOf_None)
  then show ?thesis
    using None by (auto simp: overlayOne_def colOf_append colOf_simps split: option.splits)
qed (auto simp: overlayOne_def colOf_update)

lemma colOf_fillOne:
  "colOf (fillOne c cols) name =
     (if col_present c \<and> name = col_name c \<and> (\<forall>d. colOf cols name = Some d \<longrightarrow> \<not> col_present d)
      then Some c else colOf cols name)"
proof (cases "colIndex (col_name c) cols")
  case None
  then have "colOf cols (col_name c) = None" by (simp add: colIndex_None colOf_None)
  then show ?thesis
    using None by (auto simp: fillOne_def colOf_append colOf_simps split: option.splits)
next
  case (Some i)
  then show ?thesis using colIndex_colOf [OF Some] by (auto simp: fillOne_def colOf_update)
qed

text \<open>The values an image supplies, by column name.\<close>

definition vals :: "Column list \<Rightarrow> string \<rightharpoonup> colval" where
  "vals cols = (\<lambda>name. case colOf cols name of Some c \<Rightarrow> Column_Get c | None \<Rightarrow> None)"

definition single :: "Column \<Rightarrow> string \<rightharpoonup> colval" where
  "single c = (if col_present c then [col_name c \<mapsto> col_value c] else Map.empty)"

lemma vals_overlayOne: "vals (overlayOne c cols) = vals cols ++ single c"
  by (auto simp: vals_def colOf_overlayOne single_def Column_Get_def map_add_def fun_eq_iff)

lemma vals_fillOne: "vals (fillOne c cols) = single c ++ vals cols"
  by (auto simp: vals_def colOf_fillOne single_def Column_Get_def map_add_def fun_eq_iff split: option.splits)

lemma vals_Nil [simp]: "vals [] = Map.empty"
  by (simp add: vals_def colOf_def fun_eq_iff)

lemma vals_Cons:
  "col_name c \<notin> col_name ` set cs \<Longrightarrow> vals (c # cs) = single c ++ vals cs"
proof -
  assume "col_name c \<notin> col_name ` set cs"
  then have "colOf cs (col_name c) = None" by (metis colOf_None imageI)
  then show ?thesis
    by (auto simp: vals_def colOf_simps single_def Column_Get_def map_add_def fun_eq_iff split: option.splits)
qed

lemma vals_overlay:
  assumes "distinct (map col_name cols)"
  shows "vals (fold overlayOne cols base) = vals base ++ vals cols"
  using assms
proof (induction cols arbitrary: base)
  case (Cons c cs)
  then show ?case by (simp add: vals_overlayOne vals_Cons image_image)
qed simp

lemma names_overlayOne:
  "col_name c \<in> col_name ` set cols \<Longrightarrow> map col_name (overlayOne c cols) = map col_name cols"
proof -
  assume "col_name c \<in> col_name ` set cols"
  then obtain i where i: "colIndex (col_name c) cols = Some i"
    by (cases "colIndex (col_name c) cols") (auto simp: colIndex_None)
  then have "(map col_name cols)[i := col_name c] = map col_name cols"
    using colIndex_Some [OF i] list_update_id [of "map col_name cols" i] by simp
  then show ?thesis using i by (simp add: overlayOne_def map_update)
qed

lemma names_overlay:
  "col_name ` set cols \<subseteq> col_name ` set base \<Longrightarrow> map col_name (fold overlayOne cols base) = map col_name base"
proof (induction cols arbitrary: base)
  case (Cons c cs)
  then have "map col_name (overlayOne c base) = map col_name base" by (intro names_overlayOne) auto
  moreover from this have "col_name ` set (overlayOne c base) = col_name ` set base" by (metis list.set_map)
  ultimately show ?case using Cons by simp
qed simp

section \<open>The buffer's invariant\<close>

definition movedKeys :: "(int64 \<rightharpoonup> Entry) \<Rightarrow> int64 \<Rightarrow> int64 set" where
  "movedKeys m old = {k. \<exists>e. m k = Some e \<and> en_OldKey e = Some old}"

definition movedIndex :: "(int64 \<rightharpoonup> Entry) \<Rightarrow> int64 \<rightharpoonup> int64 set" where
  "movedIndex m old = (if movedKeys m old = {} then None else Some (movedKeys m old))"

definition entry_ok :: "int64 \<Rightarrow> Entry \<Rightarrow> bool" where
  "entry_ok k e \<longleftrightarrow> en_Key e = k \<and>
     (en_Kind e = Image \<or> en_Kind e = DeleteMarker \<and> en_OldKey e = None \<and> en_Columns e = [])"

definition oldest_ok :: "Buffer \<Rightarrow> bool" where
  "oldest_ok b \<longleftrightarrow> buf_hasOldest b = (dom (buf_entries b) \<noteq> {}) \<and>
     (\<forall>e \<in> ran (buf_entries b). buf_oldest b \<le> en_FirstLSN e) \<and>
     (buf_hasOldest b \<longrightarrow> (\<exists>e \<in> ran (buf_entries b). en_FirstLSN e = buf_oldest b))"

definition buffer_inv :: "Buffer \<Rightarrow> bool" where
  "buffer_inv b \<longleftrightarrow>
     (\<forall>k e. buf_entries b k = Some e \<longrightarrow> entry_ok k e) \<and>
     buf_movedFrom b = movedIndex (buf_entries b) \<and>
     (\<forall>k \<in> dom (buf_pending b). \<exists>e. buf_entries b k = Some e \<and> en_Kind e = Image) \<and>
     finite (dom (buf_entries b)) \<and> oldest_ok b"

lemma movedIndex_get: "(case movedIndex m old of None \<Rightarrow> {} | Some s \<Rightarrow> s) = movedKeys m old"
  by (simp add: movedIndex_def)

lemma unindex_sel [simp]:
  "buf_entries (unindex eo b) = buf_entries b" "buf_pending (unindex eo b) = buf_pending b"
  "buf_oldest (unindex eo b) = buf_oldest b" "buf_hasOldest (unindex eo b) = buf_hasOldest b"
  by (auto simp: unindex_def Let_def split: option.splits)

lemma index_sel [simp]:
  "buf_entries (index e b) = buf_entries b" "buf_pending (index e b) = buf_pending b"
  "buf_oldest (index e b) = buf_oldest b" "buf_hasOldest (index e b) = buf_hasOldest b"
  by (auto simp: index_def split: option.splits)

lemma dropPending_sel [simp]:
  "buf_entries (dropPending k b) = buf_entries b" "buf_pending (dropPending k b) = (buf_pending b)(k := None)"
  "buf_oldest (dropPending k b) = buf_oldest b" "buf_hasOldest (dropPending k b) = buf_hasOldest b"
  "buf_movedFrom (dropPending k b) = buf_movedFrom b"
  by (auto simp: dropPending_def)

lemma trackOldest_sel [simp]:
  "buf_entries (trackOldest l b) = buf_entries b" "buf_pending (trackOldest l b) = buf_pending b"
  "buf_movedFrom (trackOldest l b) = buf_movedFrom b" "buf_hasOldest (trackOldest l b)"
  "buf_oldest (trackOldest l b) = (if buf_hasOldest b then min (buf_oldest b) l else l)"
  by (auto simp: trackOldest_def min_def)

lemma unindex_movedFrom:
  assumes "buf_movedFrom b = movedIndex m" "m k = eo" "\<forall>e. eo = Some e \<longrightarrow> en_Key e = k"
  shows "buf_movedFrom (unindex eo b) = movedIndex (m(k := None))"
proof -
  have eq: "movedKeys (m(k := None)) old = movedKeys m old - {k}" for old
    by (auto simp: movedKeys_def split: if_splits)
  show ?thesis
  proof (cases "\<exists>e old. eo = Some e \<and> en_OldKey e = Some old")
    case False
    then have "k \<notin> movedKeys m old" for old using assms(2) by (auto simp: movedKeys_def)
    then have "movedIndex (m(k := None)) = movedIndex m" by (auto simp: movedIndex_def eq fun_eq_iff)
    then show ?thesis using False assms(1) by (auto simp: unindex_def split: option.splits)
  next
    case True
    then obtain e old where e: "eo = Some e" "en_OldKey e = Some old" by blast
    have "k \<notin> movedKeys m o'" if "o' \<noteq> old" for o' using that e assms(2) by (auto simp: movedKeys_def)
    then show ?thesis
      using e assms(1,3) movedIndex_get [of m old]
      by (auto simp: unindex_def Let_def fun_eq_iff movedIndex_def eq)
  qed
qed

lemma index_movedFrom:
  assumes "buf_movedFrom b = movedIndex m" "m (en_Key e) = None"
  shows "buf_movedFrom (index e b) = movedIndex (m(en_Key e \<mapsto> e))"
proof -
  have eq: "movedKeys (m(en_Key e \<mapsto> e)) old =
      (if en_OldKey e = Some old then insert (en_Key e) (movedKeys m old) else movedKeys m old)" for old
    using assms(2) by (auto simp: movedKeys_def split: if_splits)
  show ?thesis
    using assms(1) movedIndex_get [of m]
    by (auto simp: index_def fun_eq_iff movedIndex_def eq split: option.splits)
qed

lemma put_entries [simp]: "buf_entries (put e b) = (buf_entries b)(en_Key e \<mapsto> e)"
  and put_pending [simp]: "buf_pending (put e b) = (buf_pending b)(en_Key e := None)"
  and put_hasOldest [simp]: "buf_hasOldest (put e b)"
  and put_oldest [simp]:
    "buf_oldest (put e b) = (if buf_hasOldest b then min (buf_oldest b) (en_FirstLSN e) else en_FirstLSN e)"
  by (simp_all add: put_def Let_def)

lemma put_movedFrom:
  assumes "buffer_inv b"
  shows "buf_movedFrom (put e b) = movedIndex ((buf_entries b)(en_Key e \<mapsto> e))"
proof -
  let ?k = "en_Key e" and ?m = "buf_entries b"
  define b1 where "b1 = dropPending ?k (unindex (?m ?k) b)"
  have "buf_movedFrom b1 = movedIndex (?m(?k := None))"
    using unindex_movedFrom [of b ?m ?k "?m ?k"] assms by (auto simp: b1_def buffer_inv_def entry_ok_def)
  then have "buf_movedFrom (index e (b1\<lparr>buf_entries := ?m(?k \<mapsto> e)\<rparr>)) = movedIndex ((?m(?k := None))(?k \<mapsto> e))"
    by (intro index_movedFrom) simp_all
  then show ?thesis by (simp add: put_def Let_def b1_def)
qed

lemma put_oldest_ok:
  assumes "oldest_ok b" "\<forall>old. buf_entries b (en_Key e) = Some old \<longrightarrow> en_FirstLSN e \<le> en_FirstLSN old"
  shows "oldest_ok (put e b)"
proof -
  let ?m = "buf_entries b" and ?o = "buf_oldest (put e b)"
  have le: "?o \<le> en_FirstLSN e" by simp
  have mono: "?o \<le> en_FirstLSN x" if "x \<in> ran (?m(en_Key e \<mapsto> e))" for x
  proof (cases "x = e")
    case False
    then have "x \<in> ran ?m" using that by (auto simp: ran_def split: if_splits)
    moreover from this have "buf_hasOldest b" using assms(1) by (auto simp: oldest_ok_def ran_def)
    ultimately show ?thesis using assms(1) by (auto simp: oldest_ok_def min_le_iff_disj)
  qed (use le in simp)
  have "\<exists>x \<in> ran (?m(en_Key e \<mapsto> e)). en_FirstLSN x = ?o"
  proof (cases "buf_hasOldest b \<and> buf_oldest b < en_FirstLSN e")
    case False
    then have "?o = en_FirstLSN e" by auto
    then show ?thesis by (auto simp: ran_def)
  next
    case True
    then obtain k x where x: "?m k = Some x" "en_FirstLSN x = buf_oldest b"
      using assms(1) by (auto simp: oldest_ok_def ran_def)
    then have "k \<noteq> en_Key e" using True assms(2) by auto
    then show ?thesis using True x by (auto simp: ran_def min_def)
  qed
  then show ?thesis using mono by (auto simp: oldest_ok_def)
qed

lemma put_inv [inv_intro]:
  assumes "buffer_inv b" "entry_ok (en_Key e) e"
    and "\<forall>old. buf_entries b (en_Key e) = Some old \<longrightarrow> en_FirstLSN e \<le> en_FirstLSN old"
  shows "buffer_inv (put e b)"
  using assms put_movedFrom [OF assms(1), of e] put_oldest_ok [of b e]
  by (auto simp: buffer_inv_def)

text \<open>Changes of an entry in place: its flags, its transaction or its columns.\<close>

definition same_core :: "Entry \<Rightarrow> Entry \<Rightarrow> bool" where
  "same_core e e' \<longleftrightarrow> en_Key e' = en_Key e \<and> en_Kind e' = en_Kind e \<and> en_OldKey e' = en_OldKey e \<and>
     en_FirstLSN e' = en_FirstLSN e \<and> (en_Kind e = DeleteMarker \<longrightarrow> en_Columns e' = en_Columns e)"

lemma oldest_ok_alt:
  "oldest_ok b \<longleftrightarrow> buf_hasOldest b = (dom (buf_entries b) \<noteq> {}) \<and>
     (\<forall>l \<in> en_FirstLSN ` ran (buf_entries b). buf_oldest b \<le> l) \<and>
     (buf_hasOldest b \<longrightarrow> buf_oldest b \<in> en_FirstLSN ` ran (buf_entries b))"
  by (auto simp: oldest_ok_def image_iff eq_commute)

lemma in_place_inv:
  assumes "buffer_inv b"
    and "\<And>k. rel_option same_core (buf_entries b k) (buf_entries b' k)"
    and "\<And>k. buf_pending b' k \<noteq> None \<Longrightarrow> buf_pending b k \<noteq> None"
    and "buf_movedFrom b' = buf_movedFrom b" "buf_oldest b' = buf_oldest b" "buf_hasOldest b' = buf_hasOldest b"
  shows "buffer_inv b'"
proof -
  let ?m = "buf_entries b" and ?m' = "buf_entries b'"
  have bwd: "\<exists>e. ?m k = Some e \<and> same_core e e'" if "?m' k = Some e'" for k e'
    using assms(2) [of k] that by (auto simp: option_rel_Some2)
  have fwd: "\<exists>e'. ?m' k = Some e' \<and> same_core e e'" if "?m k = Some e" for k e
    using assms(2) [of k] that by (auto simp: option_rel_Some1)
  have "dom ?m' = dom ?m" using bwd fwd by blast
  moreover have "movedKeys ?m' old = movedKeys ?m old" for old
    unfolding movedKeys_def using bwd fwd by (fastforce simp: same_core_def)
  then have "movedIndex ?m' = movedIndex ?m" by (auto simp: movedIndex_def)
  moreover have "entry_ok k e'" if e': "?m' k = Some e'" for k e'
  proof -
    obtain e where "?m k = Some e" "same_core e e'" using bwd [OF e'] by blast
    moreover from this have "entry_ok k e" using assms(1) by (simp add: buffer_inv_def)
    ultimately show ?thesis by (auto simp: entry_ok_def same_core_def)
  qed
  moreover have "en_FirstLSN ` ran ?m' = en_FirstLSN ` ran ?m"
  proof (intro equalityI subsetI)
    fix l assume "l \<in> en_FirstLSN ` ran ?m'"
    then obtain k e' where "?m' k = Some e'" "l = en_FirstLSN e'" by (auto simp: ran_def)
    then show "l \<in> en_FirstLSN ` ran ?m" using bwd [of k e'] by (auto simp: same_core_def ran_def)
  next
    fix l assume "l \<in> en_FirstLSN ` ran ?m"
    then obtain k e where "?m k = Some e" "l = en_FirstLSN e" by (auto simp: ran_def)
    then show "l \<in> en_FirstLSN ` ran ?m'"
      using fwd [of k e] unfolding same_core_def by (metis imageI ranI)
  qed
  then have "oldest_ok b'"
    using assms(1,5,6) \<open>dom ?m' = dom ?m\<close> by (simp add: buffer_inv_def oldest_ok_alt)
  moreover have "\<exists>e. ?m' k = Some e \<and> en_Kind e = Image" if "k \<in> dom (buf_pending b')" for k
  proof -
    have "k \<in> dom (buf_pending b)" using assms(3) [of k] that by blast
    then obtain e where "?m k = Some e" "en_Kind e = Image" using assms(1) unfolding buffer_inv_def by blast
    then show ?thesis using fwd [of k e] by (auto simp: same_core_def)
  qed
  ultimately show ?thesis using assms(1,4) by (auto simp: buffer_inv_def)
qed

lemma markOldKeyReused_inv [inv_intro]: "buffer_inv b \<Longrightarrow> buffer_inv (markOldKeyReused key mover b)"
  by (erule in_place_inv)
    (auto simp: markOldKeyReused_def Let_def same_core_def rel_option_iff split: option.splits if_splits)

lemma firstLSN_le: "firstLSN lsn es \<le> lsn" "Some e \<in> set es \<Longrightarrow> firstLSN lsn es \<le> en_FirstLSN e"
proof -
  show le: "firstLSN lsn es \<le> lsn" for lsn es
    by (induction lsn es rule: firstLSN.induct) (auto split: option.splits intro: order_trans less_imp_le)
  show "Some e \<in> set es \<Longrightarrow> firstLSN lsn es \<le> en_FirstLSN e"
  proof (induction lsn es rule: firstLSN.induct)
    case (2 lsn x es)
    then show ?case
      using le [of "if en_FirstLSN e < lsn then en_FirstLSN e else lsn" es] by (auto split: if_splits intro: order_trans)
  qed simp
qed

lemma mark_entries:
  "buf_entries (markOldKeyReused key mover b) k = Some e' \<Longrightarrow>
     \<exists>e. buf_entries b k = Some e \<and> en_FirstLSN e' = en_FirstLSN e"
  by (auto simp: markOldKeyReused_def Let_def split: if_splits)

lemma newEntry_sel [simp]:
  "en_Key (newEntry k kind cols l x) = k" "en_Kind (newEntry k kind cols l x) = kind"
  "en_OldKey (newEntry k kind cols l x) = None" "en_Columns (newEntry k kind cols l x) = cols"
  "en_FirstLSN (newEntry k kind cols l x) = l" "en_Xid (newEntry k kind cols l x) = x"
  "en_OldKeyReused (newEntry k kind cols l x) = False" "en_AbsenceAwaited (newEntry k kind cols l x) = False"
  by (simp_all add: newEntry_def)

lemma overlay_sel [simp]:
  "en_Key (overlay cols e) = en_Key e" "en_Kind (overlay cols e) = en_Kind e"
  "en_OldKey (overlay cols e) = en_OldKey e" "en_FirstLSN (overlay cols e) = en_FirstLSN e"
  "en_OldKeyReused (overlay cols e) = en_OldKeyReused e" "en_Xid (overlay cols e) = en_Xid e"
  "en_Columns (overlay cols e) = fold overlayOne cols (en_Columns e)"
  by (simp_all add: overlay_def)

lemma addInsert_inv:
  assumes "buffer_inv b" "addInsert ev b = Inr b'"
  shows "buffer_inv b'"
proof -
  let ?b1 = "markOldKeyReused (ev_Key ev) None b"
  have b': "b' = put (newEntry (ev_Key ev) Image (ev_Columns ev)
      (firstLSN (ev_Delivered ev) [buf_entries b (ev_Key ev)]) (ev_Xid ev)) ?b1"
    using assms(2) by (auto simp: addInsert_def Let_def split: if_splits)
  show ?thesis unfolding b'
    using mark_entries [of "ev_Key ev" None b "ev_Key ev"] firstLSN_le(2)
    by (intro put_inv markOldKeyReused_inv assms(1)) (fastforce simp: entry_ok_def)+
qed

lemma addUpdate_inv:
  assumes "buffer_inv b" "addUpdate ev b = Inr b'"
  shows "buffer_inv b'"
proof (cases "buf_entries b (ev_Key ev)")
  case None
  then have b': "b' = put (newEntry (ev_Key ev) Image (ev_Columns ev) (ev_Delivered ev) (ev_Xid ev))
      (markOldKeyReused (ev_Key ev) None b)" using assms(2) by (simp add: addUpdate_def)
  show ?thesis unfolding b'
    using mark_entries [of "ev_Key ev" None b "ev_Key ev"] None
    by (intro put_inv markOldKeyReused_inv assms(1)) (auto simp: entry_ok_def)
next
  case (Some cur)
  then have k: "en_Kind cur \<noteq> DeleteMarker" and b': "b' = b\<lparr>buf_entries := (buf_entries b)(ev_Key ev \<mapsto>
      (overlay (ev_Columns ev) cur)\<lparr>en_Xid := ev_Xid ev\<rparr>)\<rparr>"
    using assms(2) by (auto simp: addUpdate_def split: if_splits)
  show ?thesis unfolding b'
    by (rule in_place_inv [OF assms(1)]) (use Some k in \<open>auto simp: same_core_def rel_option_iff split: option.splits\<close>)
qed

lemma addDelete_inv: "buffer_inv b \<Longrightarrow> buffer_inv (addDelete ev b)"
  unfolding addDelete_def using firstLSN_le(2) by (intro put_inv) (fastforce simp: entry_ok_def)+

lemma addKeyMove_shape:
  assumes "addKeyMove old ev b = Inr b'"
  obtains moved d where
    "b' = put d (put moved (markOldKeyReused (ev_Key ev) (map_option (\<lambda>_. old) (buf_entries b old)) b))"
    "en_Key d = old" "en_Kind d = DeleteMarker" "en_OldKey d = None" "en_Columns d = []"
    "en_FirstLSN d = firstLSN (ev_Delivered ev) [buf_entries b old]"
    "en_Key moved = ev_Key ev" "en_Kind moved = Image"
    "en_FirstLSN moved = firstLSN (ev_Delivered ev) [buf_entries b (ev_Key ev), buf_entries b old]"
    "en_OldKey moved = Some (case buf_entries b old of Some f \<Rightarrow>
        (case en_OldKey f of Some g \<Rightarrow> g | None \<Rightarrow> old) | None \<Rightarrow> old)"
    "\<And>f g. buf_entries b old = Some f \<Longrightarrow> en_OldKey f = Some g \<Longrightarrow> en_OldKeyReused moved = en_OldKeyReused f"
proof -
  define moved0 where "moved0 = (newEntry (ev_Key ev) Image []
      (firstLSN (ev_Delivered ev) [buf_entries b (ev_Key ev), buf_entries b old]) (ev_Xid ev))\<lparr>en_OldKey := Some old\<rparr>"
  define moved where "moved = (case buf_entries b old of
      None \<Rightarrow> moved0\<lparr>en_Columns := ev_Columns ev\<rparr>
    | Some f \<Rightarrow> let m = overlay (ev_Columns ev) (moved0\<lparr>en_Columns := en_Columns f\<rparr>)
        in case en_OldKey f of None \<Rightarrow> m
           | Some origin \<Rightarrow> m\<lparr>en_OldKey := Some origin, en_OldKeyReused := en_OldKeyReused f\<rparr>)"
  define d where "d = newEntry old DeleteMarker [] (firstLSN (ev_Delivered ev) [buf_entries b old]) (ev_Xid ev)"
  have "b' = put d (put moved (markOldKeyReused (ev_Key ev) (map_option (\<lambda>_. old) (buf_entries b old)) b))"
    using assms unfolding addKeyMove_def Let_def moved_def moved0_def d_def by (simp split: if_split_asm)
  then show ?thesis
    by (rule that) (auto simp: d_def moved_def moved0_def Let_def split: option.split)
qed

lemma addKeyMove_inv:
  assumes "buffer_inv b" "addKeyMove old ev b = Inr b'" "old \<noteq> ev_Key ev"
  shows "buffer_inv b'"
proof -
  let ?from = "buf_entries b old" and ?cur = "buf_entries b (ev_Key ev)"
  let ?b1 = "markOldKeyReused (ev_Key ev) (map_option (\<lambda>_. old) ?from) b"
  obtain moved d where b': "b' = put d (put moved ?b1)"
      and m: "en_Key moved = ev_Key ev" "en_Kind moved = Image" "en_FirstLSN moved = firstLSN (ev_Delivered ev) [?cur, ?from]"
      and d: "en_Key d = old" "entry_ok old d" "en_FirstLSN d = firstLSN (ev_Delivered ev) [?from]"
    using addKeyMove_shape [OF assms(2)] unfolding entry_ok_def by metis
  have le: "en_FirstLSN moved \<le> en_FirstLSN e" if "buf_entries ?b1 (ev_Key ev) = Some e" for e
    using mark_entries [OF that] m(3) firstLSN_le(2) [of _ "[?cur, ?from]" "ev_Delivered ev"] by auto
  have "buffer_inv (put moved ?b1)"
    using le m by (intro put_inv markOldKeyReused_inv assms(1)) (auto simp: entry_ok_def)
  moreover have "firstLSN (ev_Delivered ev) [?from] \<le> en_FirstLSN e" if "buf_entries ?b1 old = Some e" for e
    using mark_entries [OF that] firstLSN_le(2) [of _ "[?from]" "ev_Delivered ev"] by auto
  ultimately show ?thesis unfolding b' using m(1) d assms(3) by (intro put_inv [where b = "put moved ?b1"]) auto
qed

lemma Add_inv: "buffer_inv b \<Longrightarrow> Add ev b = Inr b' \<Longrightarrow> buffer_inv b'"
  unfolding Add_def
  by (auto simp: addDelete_inv dest: addInsert_inv addUpdate_inv addKeyMove_inv
      split: ChangeKind.splits option.splits if_splits)

lemma NewBuffer_inv: "buffer_inv NewBuffer"
  by (auto simp: buffer_inv_def NewBuffer_def movedIndex_def movedKeys_def oldest_ok_def fun_eq_iff)

lemma AddAll_inv: "buffer_inv b \<Longrightarrow> AddAll evs b = Inr b' \<Longrightarrow> buffer_inv b'"
  by (induction evs arbitrary: b) (auto split: sum.splits intro: Add_inv)

lemma fill_sel [simp]:
  "en_Key (fill cols e) = en_Key e" "en_Kind (fill cols e) = en_Kind e"
  "en_OldKey (fill cols e) = en_OldKey e" "en_FirstLSN (fill cols e) = en_FirstLSN e"
  "en_Columns (fill cols e) = fold fillOne cols (en_Columns e)"
  by (simp_all add: fill_def)

lemma Release_inv:
  assumes "buffer_inv b"
  shows "buffer_inv (Release passed b)"
proof (rule in_place_inv [OF assms])
  fix k
  show "rel_option same_core (buf_entries b k) (buf_entries (Release passed b) k)"
  proof (cases "buf_pending b k")
    case (Some p)
    then have "k \<in> dom (buf_pending b)" by blast
    then obtain e where "buf_entries b k = Some e" "en_Kind e = Image"
      using assms unfolding buffer_inv_def by blast
    then show ?thesis using Some by (auto simp: Release_def Let_def same_core_def)
  qed (auto simp: Release_def Let_def same_core_def rel_option_iff split: option.splits)
qed (auto simp: Release_def Let_def split: if_splits)

lemma fold_put_inv:
  assumes "buffer_inv b" "\<forall>e \<in> set es. entry_ok (en_Key e) e \<and> buf_entries b (en_Key e) = None" "distinct (map en_Key es)"
  shows "buffer_inv (fold put es b)"
  using assms
proof (induction es arbitrary: b)
  case (Cons e es)
  then have "buffer_inv (put e b)" by (intro put_inv) auto
  moreover have "\<forall>x \<in> set es. entry_ok (en_Key x) x \<and> buf_entries (put e b) (en_Key x) = None"
    using Cons.prems(2,3) by (auto simp: image_iff)
  ultimately show ?case using Cons.IH Cons.prems(3) by simp
qed simp

lemma Requeue_inv:
  assumes "buffer_inv b" "Requeue es b = Inr b'" "\<forall>e \<in> set es. entry_ok (en_Key e) e" "distinct (map en_Key es)"
  shows "buffer_inv b'"
  using assms fold_put_inv [of b es] by (auto simp: Requeue_def split: if_splits)

lemma holdOne_inv:
  assumes "buffer_inv b" "entry_ok (en_Key (hi_Entry h)) (hi_Entry h)" "en_Kind (hi_Entry h) = Image"
    and "buf_entries b (en_Key (hi_Entry h)) = None"
  shows "buffer_inv (holdOne h b)"
proof -
  have "buffer_inv (put (hi_Entry h) b)" using assms by (intro put_inv) auto
  then show ?thesis using assms(3) by (auto simp: holdOne_def Let_def buffer_inv_def oldest_ok_def)
qed

lemma Hold_inv:
  assumes "buffer_inv b" "Hold hs b = Inr b'" "distinct (map (en_Key \<circ> hi_Entry) hs)"
    and "\<forall>h \<in> set hs. entry_ok (en_Key (hi_Entry h)) (hi_Entry h) \<and> en_Kind (hi_Entry h) = Image"
  shows "buffer_inv b'"
proof -
  have "\<forall>h \<in> set hs. buf_entries b (en_Key (hi_Entry h)) = None" "b' = fold holdOne hs b"
    using assms(2) by (auto simp: Hold_def split: if_splits)
  then show ?thesis using assms(1,3,4)
  proof (induction hs arbitrary: b)
    case (Cons h hs)
    then have "buffer_inv (holdOne h b)" by (intro holdOne_inv) auto
    moreover have "buf_entries (holdOne h b) (en_Key (hi_Entry x)) = None" if "x \<in> set hs" for x
      using that Cons.prems(1,4) by (auto simp: holdOne_def Let_def image_iff)
    ultimately show ?case using Cons by simp
  qed simp
qed

section \<open>What a buffer stands for\<close>

text \<open>
  A table is a map from keys to rows, a row a map from column names to values.
  An event changes the source table; a buffer stands for the table its entries
  turn the table \<open>S\<close> it was started on into. An image that moved here supplies
  its missing columns from the row at its old key.
\<close>

type_synonym rowval = "string \<rightharpoonup> colval"

type_synonym source = "int64 \<rightharpoonup> rowval"

definition rowAt :: "source \<Rightarrow> int64 \<Rightarrow> rowval" where
  "rowAt S k = (case S k of None \<Rightarrow> Map.empty | Some r \<Rightarrow> r)"

definition movesFrom :: "ChangeEvent \<Rightarrow> int64 option" where
  "movesFrom ev = (case ev_OldKey ev of Some old \<Rightarrow> if old \<noteq> ev_Key ev then Some old else None | None \<Rightarrow> None)"

definition apply_event :: "ChangeEvent \<Rightarrow> source \<Rightarrow> source" where
  "apply_event ev S =
     (case ev_Kind ev of
        ChangeInsert \<Rightarrow> S(ev_Key ev \<mapsto> vals (ev_Columns ev))
      | ChangeUpdate \<Rightarrow>
          (case movesFrom ev of
             None \<Rightarrow> S(ev_Key ev \<mapsto> rowAt S (ev_Key ev) ++ vals (ev_Columns ev))
           | Some old \<Rightarrow> S(ev_Key ev \<mapsto> rowAt S old ++ vals (ev_Columns ev), old := None))
      | ChangeDelete \<Rightarrow> S(ev_Key ev := None)
      | ChangeOther _ \<Rightarrow> S)"

text \<open>The events PostgreSQL can log on a table whose columns are \<open>names\<close>.\<close>

definition event_on :: "string set \<Rightarrow> source \<Rightarrow> ChangeEvent \<Rightarrow> bool" where
  "event_on names S ev \<longleftrightarrow>
     (case ev_Kind ev of
        ChangeInsert \<Rightarrow> S (ev_Key ev) = None \<and> (\<forall>c \<in> set (ev_Columns ev). col_present c) \<and>
          col_name ` set (ev_Columns ev) = names
      | ChangeUpdate \<Rightarrow> distinct (map col_name (ev_Columns ev)) \<and>
          (case movesFrom ev of
             None \<Rightarrow> S (ev_Key ev) \<noteq> None
           | Some old \<Rightarrow> S old \<noteq> None \<and> S (ev_Key ev) = None)
      | ChangeDelete \<Rightarrow> S (ev_Key ev) \<noteq> None
      | ChangeOther _ \<Rightarrow> False)"

fun events_on :: "string set \<Rightarrow> source \<Rightarrow> ChangeEvent list \<Rightarrow> bool" where
  "events_on names S [] = True"
| "events_on names S (ev # evs) = (event_on names S ev \<and> events_on names (apply_event ev S) evs)"

definition table_on :: "string set \<Rightarrow> source \<Rightarrow> bool" where
  "table_on names S \<longleftrightarrow> (\<forall>r \<in> ran S. dom r \<subseteq> names)"

definition originKey :: "Entry \<Rightarrow> int64" where
  "originKey e = (case en_OldKey e of Some old \<Rightarrow> old | None \<Rightarrow> en_Key e)"

definition stands :: "source \<Rightarrow> Entry \<Rightarrow> rowval option" where
  "stands S e = (if en_Kind e = DeleteMarker then None
     else Some (rowAt S (originKey e) ++ vals (en_Columns e)))"

definition denote :: "source \<Rightarrow> Buffer \<Rightarrow> source" where
  "denote S b = (\<lambda>k. case buf_entries b k of None \<Rightarrow> S k | Some e \<Rightarrow> stands S e)"

lemma denote_put: "denote S (put e b) = (denote S b)(en_Key e := stands S e)"
  by (auto simp: denote_def)

lemma denote_mark: "denote S (markOldKeyReused key mover b) = denote S b"
  by (auto simp: denote_def markOldKeyReused_def Let_def stands_def originKey_def fun_eq_iff split: option.splits)

lemma denote_NewBuffer: "denote S NewBuffer = S"
  by (simp add: denote_def NewBuffer_def)

lemma dom_vals_present:
  assumes "\<forall>c \<in> set cols. col_present c"
  shows "dom (vals cols) = col_name ` set cols"
proof -
  have "colOf cols n = Some c \<Longrightarrow> c \<in> set cols \<and> col_name c = n" for n c
    by (auto simp: colOf_def find_Some_iff)
  then show ?thesis using assms
    by (auto simp: vals_def Column_Get_def dom_def colOf_None image_iff split: option.splits)
qed

lemma rowAt_covered:
  assumes "table_on names S" "dom r = names"
  shows "rowAt S k ++ r = r"
proof -
  have "dom (rowAt S k) \<subseteq> names" using assms(1) by (auto simp: table_on_def rowAt_def ran_def split: option.splits)
  then show ?thesis using assms(2) by (auto simp: map_add_def fun_eq_iff split: option.splits)
qed

lemma denote_image:
  assumes "buffer_inv b" "denote S b k \<noteq> None" "buf_entries b k = Some e"
  shows "en_Kind e = Image"
  using assms by (auto simp: buffer_inv_def entry_ok_def denote_def stands_def split: if_splits)

lemma denote_absent:
  assumes "denote S b k = None" "buf_entries b k = Some e"
  shows "en_Kind e \<noteq> Image"
  using assms by (auto simp: denote_def stands_def split: if_splits)

lemma rowAt_denote:
  "rowAt (denote S b) k = (case buf_entries b k of None \<Rightarrow> rowAt S k
     | Some e \<Rightarrow> if en_Kind e = DeleteMarker then Map.empty else rowAt S (originKey e) ++ vals (en_Columns e))"
  by (auto simp: rowAt_def denote_def stands_def split: option.splits)

lemma addInsert_refines:
  assumes "table_on names S" "event_on names (denote S b) ev" "ev_Kind ev = ChangeInsert"
  shows "\<exists>b'. addInsert ev b = Inr b' \<and> denote S b' = (denote S b)(ev_Key ev \<mapsto> vals (ev_Columns ev))"
proof -
  have ev: "denote S b (ev_Key ev) = None" "\<forall>c \<in> set (ev_Columns ev). col_present c" "dom (vals (ev_Columns ev)) = names"
    using assms(2,3) dom_vals_present [of "ev_Columns ev"] by (auto simp: event_on_def)
  have "\<not> (case buf_entries b (ev_Key ev) of Some e \<Rightarrow> en_Kind e = Image | None \<Rightarrow> False)"
    using denote_absent [OF ev(1)] by (auto split: option.splits)
  then show ?thesis using ev(2) rowAt_covered [OF assms(1) ev(3)]
    by (auto simp: addInsert_def Let_def denote_put denote_mark stands_def)
qed

lemma addUpdate_refines:
  assumes "buffer_inv b" "denote S b (ev_Key ev) \<noteq> None" "distinct (map col_name (ev_Columns ev))"
  shows "\<exists>b'. addUpdate ev b = Inr b' \<and> denote S b' =
    (denote S b)(ev_Key ev \<mapsto> rowAt (denote S b) (ev_Key ev) ++ vals (ev_Columns ev))"
proof (cases "buf_entries b (ev_Key ev)")
  case None
  then show ?thesis
    by (auto simp: addUpdate_def denote_put denote_mark stands_def originKey_def rowAt_denote)
next
  case (Some e)
  then have k: "en_Kind e = Image" "en_Key e = ev_Key ev"
    using denote_image [OF assms(1,2)] assms(1) by (auto simp: buffer_inv_def entry_ok_def)
  define e' where "e' = (overlay (ev_Columns ev) e)\<lparr>en_Xid := ev_Xid ev\<rparr>"
  have "stands S e' = Some (rowAt S (originKey e) ++ vals (en_Columns e) ++ vals (ev_Columns ev))"
    using k(1) by (cases "en_OldKey e") (simp_all add: e'_def stands_def originKey_def vals_overlay [OF assms(3)] overlay_def)
  moreover have "addUpdate ev b = Inr (b\<lparr>buf_entries := (buf_entries b)(ev_Key ev \<mapsto> e')\<rparr>)"
    using Some k(1) by (simp add: addUpdate_def e'_def)
  ultimately show ?thesis using Some k(1) by (auto simp: rowAt_denote) (auto simp: denote_def)
qed

lemma addKeyMove_refines:
  assumes "buffer_inv b" "denote S b old \<noteq> None" "denote S b (ev_Key ev) = None" "distinct (map col_name (ev_Columns ev))"
    and "old \<noteq> ev_Key ev"
  shows "\<exists>b'. addKeyMove old ev b = Inr b' \<and> denote S b' =
    (denote S b)(ev_Key ev \<mapsto> rowAt (denote S b) old ++ vals (ev_Columns ev), old := None)"
proof -
  have cur: "\<not> (case buf_entries b (ev_Key ev) of Some e \<Rightarrow> en_Kind e = Image | None \<Rightarrow> False)"
    using denote_absent [OF assms(3)] by (auto split: option.splits)
  show ?thesis
  proof (cases "buf_entries b old")
    case None
    then show ?thesis using cur assms(5)
      by (auto simp: addKeyMove_def Let_def denote_put denote_mark stands_def originKey_def rowAt_denote)
  next
    case (Some f)
    then have "en_Kind f = Image" "en_Key f = old"
      using denote_image [OF assms(1,2)] assms(1) by (auto simp: buffer_inv_def entry_ok_def)
    then show ?thesis using cur assms(5) Some vals_overlay [OF assms(4), of "en_Columns f"]
      by (auto simp: addKeyMove_def Let_def denote_put denote_mark stands_def originKey_def rowAt_denote split: option.splits)
  qed
qed

lemma Add_refines:
  assumes "buffer_inv b" "table_on names S" "event_on names (denote S b) ev"
  shows "\<exists>b'. Add ev b = Inr b' \<and> denote S b' = apply_event ev (denote S b)"
proof (cases "ev_Kind ev")
  case ChangeInsert
  then show ?thesis using addInsert_refines [OF assms(2,3)] by (auto simp: Add_def apply_event_def)
next
  case ChangeUpdate
  then have ev: "distinct (map col_name (ev_Columns ev))"
    "case movesFrom ev of None \<Rightarrow> denote S b (ev_Key ev) \<noteq> None
       | Some old \<Rightarrow> denote S b old \<noteq> None \<and> denote S b (ev_Key ev) = None"
    using assms(3) by (auto simp: event_on_def)
  show ?thesis
  proof (cases "movesFrom ev")
    case None
    then have "Add ev b = addUpdate ev b"
      using ChangeUpdate by (auto simp: Add_def movesFrom_def split: option.splits if_splits)
    then show ?thesis using None ChangeUpdate ev addUpdate_refines [OF assms(1), of S ev] by (auto simp: apply_event_def)
  next
    case (Some old)
    then have "Add ev b = addKeyMove old ev b" "old \<noteq> ev_Key ev"
      using ChangeUpdate by (auto simp: Add_def movesFrom_def split: option.splits if_splits)
    then show ?thesis using Some ChangeUpdate ev addKeyMove_refines [OF assms(1), of S old ev]
      by (auto simp: apply_event_def)
  qed
next
  case ChangeDelete
  then show ?thesis by (auto simp: Add_def apply_event_def addDelete_def denote_put stands_def)
qed (use assms(3) in \<open>auto simp: event_on_def\<close>)

lemma AddAll_refines:
  assumes "buffer_inv b" "table_on names S" "events_on names (denote S b) evs"
  shows "\<exists>b'. AddAll evs b = Inr b' \<and> denote S b' = fold apply_event evs (denote S b)"
  using assms
proof (induction evs arbitrary: b)
  case (Cons ev evs)
  then obtain b' where b': "Add ev b = Inr b'" "denote S b' = apply_event ev (denote S b)"
    using Add_refines [of b names S ev] by auto
  then show ?case
    using Cons.IH [of b'] Cons.prems(2,3) Add_inv [OF Cons.prems(1) b'(1)] by simp
qed auto

text \<open>The old key of a moved image is free, unless the image is flagged or has come back to it.\<close>

definition reuse_flagged :: "Buffer \<Rightarrow> bool" where
  "reuse_flagged b \<longleftrightarrow> (\<forall>k e old. buf_entries b k = Some e \<and> en_OldKey e = Some old \<and> \<not> en_OldKeyReused e \<longrightarrow>
     k = old \<or> (\<exists>d. buf_entries b old = Some d \<and> en_Kind d = DeleteMarker))"

lemma reuse_flaggedD:
  "reuse_flagged b \<Longrightarrow> buf_entries b k = Some e \<Longrightarrow> en_OldKey e = Some old \<Longrightarrow> \<not> en_OldKeyReused e \<Longrightarrow> k \<noteq> old \<Longrightarrow>
     \<exists>d. buf_entries b old = Some d \<and> en_Kind d = DeleteMarker"
  by (auto simp: reuse_flagged_def)

lemma mark_entries_inv:
  assumes "buffer_inv b"
  shows "buf_entries (markOldKeyReused key mover b) k =
    map_option (\<lambda>e. if en_OldKey e = Some key \<and> mover \<noteq> Some k then e\<lparr>en_OldKeyReused := True\<rparr> else e) (buf_entries b k)"
  using assms by (auto simp: markOldKeyReused_def Let_def buffer_inv_def movedIndex_get movedKeys_def
      map_option_case split: option.splits)

lemma mark_unflagged:
  assumes "buffer_inv b" "buf_entries (markOldKeyReused key mover b) k = Some x" "\<not> en_OldKeyReused x"
  shows "buf_entries b k = Some x \<and> (en_OldKey x \<noteq> Some key \<or> mover = Some k)"
proof -
  obtain e where "buf_entries b k = Some e"
    "x = (if en_OldKey e = Some key \<and> mover \<noteq> Some k then e\<lparr>en_OldKeyReused := True\<rparr> else e)"
    using assms(2) unfolding mark_entries_inv [OF assms(1)] by blast
  then show ?thesis using assms(3) by (cases "en_OldKey e = Some key \<and> mover \<noteq> Some k") auto
qed

lemma mark_deleteMarker:
  assumes "\<exists>d. buf_entries b k = Some d \<and> en_Kind d = DeleteMarker"
  shows "\<exists>d. buf_entries (markOldKeyReused key mover b) k = Some d \<and> en_Kind d = DeleteMarker"
  using assms by (auto simp: markOldKeyReused_def Let_def)

text \<open>Landing on a key: after the marking, only a mover may still claim it unflagged.\<close>

lemma land_flagged:
  assumes "buffer_inv b" "reuse_flagged b" "en_Key e = key" "en_OldKey e = None"
  shows "reuse_flagged (put e (markOldKeyReused key None b))"
  unfolding reuse_flagged_def
proof (intro allI impI, elim conjE)
  fix k x old
  let ?b' = "put e (markOldKeyReused key None b)"
  assume x: "buf_entries ?b' k = Some x" "en_OldKey x = Some old" "\<not> en_OldKeyReused x"
  then have "k \<noteq> key" using assms(3,4) by auto
  then have "buf_entries b k = Some x" "old \<noteq> key"
    using x mark_unflagged [OF assms(1), of key None k x] assms(3) by auto
  then show "k = old \<or> (\<exists>d. buf_entries ?b' old = Some d \<and> en_Kind d = DeleteMarker)"
    using reuse_flaggedD [OF assms(2), of k x old] x(2,3) assms(3) mark_deleteMarker [of b old key None] by auto
qed

lemma delete_flagged:
  assumes "reuse_flagged b" "en_Kind e = DeleteMarker" "en_OldKey e = None"
  shows "reuse_flagged (put e b)"
  using assms by (auto simp: reuse_flagged_def)

lemma addKeyMove_flagged:
  assumes inv: "buffer_inv b" and flag: "reuse_flagged b" and add: "addKeyMove old ev b = Inr b'" and ne: "old \<noteq> ev_Key ev"
  shows "reuse_flagged b'"
  unfolding reuse_flagged_def
proof (intro allI impI, elim conjE)
  fix k x o'
  assume x: "buf_entries b' k = Some x" "en_OldKey x = Some o'" "\<not> en_OldKeyReused x"
  let ?from = "buf_entries b old" and ?new = "ev_Key ev"
  let ?b1 = "markOldKeyReused ?new (map_option (\<lambda>_. old) ?from) b"
  obtain moved d where b': "b' = put d (put moved ?b1)" and d: "en_Key d = old" "en_Kind d = DeleteMarker" "en_OldKey d = None"
    and m: "en_Key moved = ?new" "en_OldKey moved = Some (case ?from of Some f \<Rightarrow>
        (case en_OldKey f of Some g \<Rightarrow> g | None \<Rightarrow> old) | None \<Rightarrow> old)"
      "\<And>f g. ?from = Some f \<Longrightarrow> en_OldKey f = Some g \<Longrightarrow> en_OldKeyReused moved = en_OldKeyReused f"
    by (rule addKeyMove_shape [OF add]) (rule that, assumption+)
  have ent: "buf_entries b' = (buf_entries ?b1)(?new \<mapsto> moved, old \<mapsto> d)" using b' d m by simp
  show "k = o' \<or> (\<exists>d. buf_entries b' o' = Some d \<and> en_Kind d = DeleteMarker)"
  proof (cases "o' = old")
    case False
    have "k \<noteq> old" using x d by (auto simp: ent)
    obtain j y where y: "buf_entries b j = Some y" "en_OldKey y = Some o'" "\<not> en_OldKeyReused y"
      and j: "j = k \<and> (o' \<noteq> ?new \<or> ?from \<noteq> None \<and> k = old) \<or> j = old \<and> k = ?new"
    proof (cases "k = ?new")
      case True
      then have "x = moved" using x ne by (simp add: ent)
      then show ?thesis using x m False True that [of old] by (auto split: option.splits)
    next
      case kn: False
      then show ?thesis
        using x that [of k x] \<open>k \<noteq> old\<close> mark_unflagged [OF inv, of ?new "map_option (\<lambda>_. old) ?from" k x]
        by (auto simp: ent)
    qed
    have "j \<noteq> o'" if "k \<noteq> o'" using j that False by auto
    then have "k = o' \<or> (\<exists>d. buf_entries b o' = Some d \<and> en_Kind d = DeleteMarker)"
      using reuse_flaggedD [OF flag y(1-3)] by auto
    moreover have "k = o' \<or> o' \<noteq> ?new" using j \<open>k \<noteq> old\<close> by auto
    ultimately show ?thesis
      using False mark_deleteMarker [of b o' ?new "map_option (\<lambda>_. old) ?from"] unfolding ent by auto
  qed (use d in \<open>auto simp: ent\<close>)
qed

lemma Add_flagged:
  assumes "buffer_inv b" "reuse_flagged b" "Add ev b = Inr b'"
  shows "reuse_flagged b'"
proof -
  have "reuse_flagged b'" if "addInsert ev b = Inr b'"
    using that by (auto simp: addInsert_def Let_def intro!: land_flagged [OF assms(1,2)] split: if_splits)
  moreover have "reuse_flagged b'" if upd: "addUpdate ev b = Inr b'"
  proof (cases "buf_entries b (ev_Key ev)")
    case (Some e)
    then show ?thesis using upd assms(2) by (fastforce simp: addUpdate_def reuse_flagged_def split: if_splits)
  qed (use upd in \<open>auto simp: addUpdate_def intro!: land_flagged [OF assms(1,2)]\<close>)
  moreover have "reuse_flagged (addDelete ev b)" unfolding addDelete_def by (rule delete_flagged [OF assms(2)]) simp_all
  ultimately show ?thesis
    using assms(3) addKeyMove_flagged [OF assms(1,2)] unfolding Add_def
    by (auto split: ChangeKind.splits option.splits if_splits)
qed

lemma AddAll_flagged:
  "buffer_inv b \<Longrightarrow> reuse_flagged b \<Longrightarrow> AddAll evs b = Inr b' \<Longrightarrow> reuse_flagged b'"
  by (induction evs arbitrary: b) (auto split: sum.splits intro: Add_inv Add_flagged)

section \<open>The oldest pending position\<close>

lemma put_lowers: "buf_hasOldest b \<Longrightarrow> buf_oldest (put e b) \<le> buf_oldest b"
  by simp

lemma mark_oldest [simp]:
  "buf_oldest (markOldKeyReused key mover b) = buf_oldest b"
  "buf_hasOldest (markOldKeyReused key mover b) = buf_hasOldest b"
  by (simp_all add: markOldKeyReused_def Let_def)

lemma put_reaches: "buf_oldest (put e b) \<le> en_FirstLSN e"
  by simp

text \<open>An event never raises the oldest position, and on an empty buffer it is at or below the event.\<close>

lemma Add_oldest:
  assumes "Add ev b = Inr b'" "old_pos = (if buf_hasOldest b then buf_oldest b else ev_Delivered ev)"
    and "buffer_inv b"
  shows "buf_hasOldest b' \<and> buf_oldest b' \<le> old_pos"
proof -
  have put: "buf_hasOldest (put e c) \<and> buf_oldest (put e c) \<le> old_pos"
    if "buf_hasOldest c = buf_hasOldest b" "buf_oldest c = buf_oldest b" "en_FirstLSN e \<le> ev_Delivered ev" for e c
    using that assms(2) by auto
  have has: "buf_hasOldest b" if "buf_entries b (ev_Key ev) = Some e" for e
    using assms(3) that by (auto simp: buffer_inv_def oldest_ok_def)
  have "buf_hasOldest b' \<and> buf_oldest b' \<le> old_pos" if "addInsert ev b = Inr b'"
  proof -
    have "b' = put (newEntry (ev_Key ev) Image (ev_Columns ev)
        (firstLSN (ev_Delivered ev) [buf_entries b (ev_Key ev)]) (ev_Xid ev)) (markOldKeyReused (ev_Key ev) None b)"
      using that unfolding addInsert_def Let_def by (simp split: if_split_asm)
    then show ?thesis by (simp only:) (rule put; simp add: firstLSN_le(1) del: firstLSN.simps)
  qed
  moreover have "buf_hasOldest b' \<and> buf_oldest b' \<le> old_pos" if "addUpdate ev b = Inr b'"
    using that has assms(2) by (auto simp: addUpdate_def split: option.splits if_splits)
  moreover have "buf_hasOldest (addDelete ev b) \<and> buf_oldest (addDelete ev b) \<le> old_pos"
    unfolding addDelete_def by (rule put) (simp_all add: firstLSN_le(1) del: firstLSN.simps)
  moreover have "buf_hasOldest b' \<and> buf_oldest b' \<le> old_pos" if mv: "addKeyMove old ev b = Inr b'" for old
  proof -
    obtain moved d where b': "b' = put d (put moved (markOldKeyReused (ev_Key ev) (map_option (\<lambda>_. old) (buf_entries b old)) b))"
      and m: "en_FirstLSN moved = firstLSN (ev_Delivered ev) [buf_entries b (ev_Key ev), buf_entries b old]"
      using addKeyMove_shape [OF mv] by metis
    let ?c = "put moved (markOldKeyReused (ev_Key ev) (map_option (\<lambda>_. old) (buf_entries b old)) b)"
    have "buf_hasOldest ?c \<and> buf_oldest ?c \<le> old_pos"
      by (rule put) (simp_all add: m firstLSN_le(1) del: firstLSN.simps)
    then show ?thesis unfolding b' using put_lowers [of ?c d] by (meson order_trans put_hasOldest)
  qed
  ultimately show ?thesis using assms(1) unfolding Add_def by (auto split: ChangeKind.splits option.splits if_splits)
qed

lemma AddAll_oldest:
  assumes "AddAll evs b = Inr b'" "buffer_inv b" "buf_hasOldest b" "buf_oldest b \<le> l"
  shows "buf_hasOldest b' \<and> buf_oldest b' \<le> l"
  using assms
proof (induction evs arbitrary: b)
  case (Cons ev evs)
  then obtain b1 where b1: "Add ev b = Inr b1" "AddAll evs b1 = Inr b'" by (auto split: sum.splits)
  then have "buf_hasOldest b1 \<and> buf_oldest b1 \<le> buf_oldest b" using Add_oldest [OF b1(1)] Cons.prems by auto
  then show ?case using Cons.IH [OF b1(2) Add_inv [OF Cons.prems(2) b1(1)]] Cons.prems(4) by auto
qed simp

section \<open>Properties\<close>

definition example_row :: "string \<Rightarrow> string \<Rightarrow> Column list" where
  "example_row i v = [PresentColumn ''id'' (ColText i), PresentColumn ''v'' (ColText v)]"

definition example_source :: source where
  "example_source = [1 \<mapsto> vals (example_row ''1'' ''a'')]"

text \<open>The row at 1 moves to 2 without its large column, and a new row takes the key 1.\<close>

definition example_events :: "ChangeEvent list" where
  "example_events =
     [\<lparr>ev_Kind = ChangeUpdate, ev_LSN = 5, ev_Delivered = 5, ev_Xid = 7, ev_Key = 2, ev_OldKey = Some 1,
       ev_Columns = [PresentColumn ''id'' (ColText ''2''), AbsentColumn ''v'']\<rparr>,
      \<lparr>ev_Kind = ChangeInsert, ev_LSN = 6, ev_Delivered = 6, ev_Xid = 7, ev_Key = 1, ev_OldKey = None,
       ev_Columns = example_row ''1'' ''b''\<rparr>]"

lemmas example_simps =
  example_row_def example_source_def example_events_def PresentColumn_def AbsentColumn_def Column_Get_def
  vals_def colOf_def rowAt_def movesFrom_def

text \<open>
  C2: Buffering is faithful and never fails on the events a table produces. For
  every table whose rows have the columns \<open>names\<close>, and every sequence of
  inserts, updates (key moves included) and deletes PostgreSQL can log on it,
  merging all of them into a fresh buffer reports no invariant violation, keeps
  the buffer's structure (entries filed under their own key, the index of moved
  images exact, the oldest position the least one), and the buffer stands for
  exactly the table the events produce: an image whose unchanged columns were
  omitted takes them from the row it came from, across any chain of moves.
\<close>

theorem buffer_refines_events:
  assumes "table_on names S" "events_on names S evs"
  shows "\<exists>b. AddAll evs NewBuffer = Inr b \<and> buffer_inv b \<and> denote S b = fold apply_event evs S"
proof -
  obtain b where "AddAll evs NewBuffer = Inr b" "denote S b = fold apply_event evs S"
    using AddAll_refines [OF NewBuffer_inv assms(1)] assms(2) by (auto simp: denote_NewBuffer)
  then show ?thesis using AddAll_inv [OF NewBuffer_inv] by blast
qed

lemma example_table_on: "table_on {''id'', ''v''} example_source"
  by (auto simp: table_on_def example_simps ran_def split: if_splits)

lemma example_events_on: "events_on {''id'', ''v''} example_source example_events"
  by (simp add: example_simps event_on_def apply_event_def)

theorem buffer_refines_events_witness:
  "\<exists>b. AddAll example_events NewBuffer = Inr b \<and> buffer_inv b \<and>
     denote example_source b = fold apply_event example_events example_source"
  using buffer_refines_events [OF example_table_on example_events_on] .

text \<open>
  A moved image's claim on its old key is honest. However events were
  merged, an image that came from \<open>old\<close> and is not flagged as reused either has
  come back to \<open>old\<close> itself, or the buffer holds a delete for \<open>old\<close>: no other
  row lives there, so reading the row at \<open>old\<close> cannot pick up a stranger's
  values.
\<close>

theorem unflagged_old_key_is_free:
  assumes "AddAll evs NewBuffer = Inr b"
    and "buf_entries b k = Some e" "en_OldKey e = Some old" "\<not> en_OldKeyReused e"
  shows "k = old \<or> denote S b old = None"
proof -
  have "reuse_flagged NewBuffer" by (simp add: reuse_flagged_def NewBuffer_def)
  then have "reuse_flagged b" using AddAll_flagged [OF NewBuffer_inv _ assms(1)] by blast
  then have "k = old \<or> (\<exists>d. buf_entries b old = Some d \<and> en_Kind d = DeleteMarker)"
    using reuse_flaggedD [OF _ assms(2-4)] by blast
  then show ?thesis by (elim disjE exE) (simp_all add: denote_def stands_def)
qed

definition example_moved :: Buffer where
  "example_moved = (case AddAll (take 1 example_events) NewBuffer of Inr b \<Rightarrow> b | Inl _ \<Rightarrow> NewBuffer)"

lemma example_moved_ok: "AddAll (take 1 example_events) NewBuffer = Inr example_moved"
  by (simp add: example_moved_def example_events_def Add_def addKeyMove_def NewBuffer_def)

lemma example_moved_entry:
  "\<exists>e. buf_entries example_moved 2 = Some e \<and> en_OldKey e = Some 1 \<and> \<not> en_OldKeyReused e"
  by (simp add: example_moved_def example_events_def Add_def addKeyMove_def NewBuffer_def markOldKeyReused_def)

theorem unflagged_old_key_is_free_witness: "denote example_source example_moved 1 = None"
  using example_moved_entry unflagged_old_key_is_free [OF example_moved_ok, of 2 _ 1 example_source] by auto

text \<open>
  The oldest pending position holds back every buffered event. When the
  events arrive in commit order, then after merging them the buffer reports a
  position, and it is at or below the delivered position of each of the events
  and at or below the first position of each entry, so confirming it confirms
  none of them.
\<close>

theorem oldest_holds_back_events:
  assumes "sorted (map ev_Delivered evs)" "AddAll evs NewBuffer = Inr b" "ev \<in> set evs"
  shows "\<exists>l. OldestPending b = Some l \<and> l \<le> ev_Delivered ev \<and> (\<forall>e \<in> ran (buf_entries b). l \<le> en_FirstLSN e)"
proof -
  obtain ev0 evs' where evs: "evs = ev0 # evs'" using assms(3) by (cases evs) auto
  then obtain b1 where b1: "Add ev0 NewBuffer = Inr b1" "AddAll evs' b1 = Inr b"
    using assms(2) by (auto split: sum.splits)
  have "buf_hasOldest b1 \<and> buf_oldest b1 \<le> ev_Delivered ev0"
    using Add_oldest [OF b1(1) refl NewBuffer_inv] by (simp add: NewBuffer_def)
  then have "buf_hasOldest b \<and> buf_oldest b \<le> ev_Delivered ev0"
    using AddAll_oldest [OF b1(2) Add_inv [OF NewBuffer_inv b1(1)]] by blast
  moreover have "ev_Delivered ev0 \<le> ev_Delivered ev" using assms(1,3) evs by auto
  moreover have "oldest_ok b" using AddAll_inv [OF NewBuffer_inv assms(2)] by (simp add: buffer_inv_def)
  ultimately show ?thesis by (auto simp: OldestPending_def oldest_ok_def)
qed

theorem oldest_holds_back_events_witness:
  "\<exists>l. OldestPending example_moved = Some l \<and> l \<le> ev_Delivered (example_events ! 0) \<and>
     (\<forall>e \<in> ran (buf_entries example_moved). l \<le> en_FirstLSN e)"
  by (rule oldest_holds_back_events [OF _ example_moved_ok]) (simp_all add: example_events_def)

end
