(* ===== verification/Applier_Drain.thy ===== *)
theory Applier_Drain
  imports Copier_Ledger Applier_Snapshot Applier_Buffer
begin

text \<open>
  Draining the buffer (\<open>pkg/applier/drain.go\<close>): every buffered entry is
  judged against one reading of the copier's position and one snapshot of the
  source. Go iterates over a map in an order of its own; that order is an
  argument of the definitions (\<open>order\<close>, a list of the buffered keys), and
  the theory proves that it does not matter.
\<close>

section \<open>Batches\<close>

record Batch =
  ba_Entries :: "Entry list"
  ba_Discarded :: nat
  ba_Deferred :: nat
  ba_Held :: nat
  ba_Invisible :: nat

definition emptyBatch :: Batch where
  "emptyBatch = \<lparr>ba_Entries = [], ba_Discarded = 0, ba_Deferred = 0, ba_Held = 0, ba_Invisible = 0\<rparr>"

fun oldestOf :: "LSN option \<Rightarrow> Entry list \<Rightarrow> LSN option" where
  "oldestOf oldest [] = oldest"
| "oldestOf oldest (e # es) =
     oldestOf (case oldest of None \<Rightarrow> Some (en_FirstLSN e)
       | Some o' \<Rightarrow> if en_FirstLSN e < o' then Some (en_FirstLSN e) else Some o') es"

definition OldestFirstLSN :: "Batch \<Rightarrow> LSN option" where
  "OldestFirstLSN b = oldestOf None (ba_Entries b)"

definition CompleteFirst :: "Batch \<Rightarrow> Entry list" where
  "CompleteFirst b = filter (\<lambda>e. en_Kind e = Image \<and> en_OldKey e \<noteq> None \<and> HasMarker e) (ba_Entries b)"

section \<open>Pairs that travel together\<close>

type_synonym key_state = "int64 \<Rightarrow> KeyState"

record movePair =
  mp_image :: int64
  mp_old :: int64

definition waitsTogether :: "KeyState \<Rightarrow> KeyState \<Rightarrow> bool \<Rightarrow> bool" where
  "waitsTogether img old imageInvisible =
     (if img = KeyUncut \<or> old = KeyUncut then False
      else old = KeyInFlight \<or> imageInvisible)"

fun movePairs :: "(int64 \<rightharpoonup> Entry) \<Rightarrow> int64 list \<Rightarrow> movePair list" where
  "movePairs m [] = []"
| "movePairs m (key # keys) =
     (case m key of
        None \<Rightarrow> movePairs m keys
      | Some e \<Rightarrow>
          (case en_OldKey e of
             None \<Rightarrow> movePairs m keys
           | Some old \<Rightarrow>
               if m old \<noteq> None then \<lparr>mp_image = key, mp_old = old\<rparr> # movePairs m keys
               else movePairs m keys))"

definition deferOne :: "int64 set \<Rightarrow> movePair \<Rightarrow> key_state \<times> bool \<Rightarrow> key_state \<times> bool" where
  "deferOne invisible p sc =
     (case sc of (state, changed) \<Rightarrow>
        if \<not> waitsTogether (state (mp_image p)) (state (mp_old p)) (mp_image p \<in> invisible) then (state, changed)
        else if state (mp_image p) \<noteq> KeyInFlight \<or> state (mp_old p) \<noteq> KeyInFlight
        then (state(mp_image p := KeyInFlight, mp_old p := KeyInFlight), True)
        else (state, changed))"

definition deferPass :: "int64 set \<Rightarrow> movePair list \<Rightarrow> key_state \<Rightarrow> key_state \<times> bool" where
  "deferPass invisible pairs state = fold (deferOne invisible) pairs (state, False)"

text \<open>A pass never takes a key out of flight, and one that reports a change put one in.\<close>

definition grounded :: "movePair list \<Rightarrow> key_state \<Rightarrow> int64 set" where
  "grounded pairs state = {k \<in> mp_image ` set pairs \<union> mp_old ` set pairs. state k \<noteq> KeyInFlight}"

lemma deferOne_mono:
  assumes "deferOne invisible p (state, c) = (state', c')"
  shows "\<And>k. state k = KeyInFlight \<Longrightarrow> state' k = KeyInFlight"
    and "\<And>k. state' k = state k \<or> state' k = KeyInFlight"
    and "c' \<Longrightarrow> c \<or> (\<exists>k \<in> {mp_image p, mp_old p}. state k \<noteq> KeyInFlight \<and> state' k = KeyInFlight)"
    and "c \<Longrightarrow> c'"
    and "\<not> c' \<Longrightarrow> state' = state"
  using assms by (auto simp: deferOne_def split: if_splits)

lemma deferFold_mono:
  assumes "fold (deferOne invisible) pairs (state, c) = (state', c')"
  shows "(\<forall>k. state k = KeyInFlight \<longrightarrow> state' k = KeyInFlight) \<and>
    (c' \<longrightarrow> c \<or> (\<exists>k \<in> mp_image ` set pairs \<union> mp_old ` set pairs. state k \<noteq> KeyInFlight \<and> state' k = KeyInFlight))"
  using assms
proof (induction pairs arbitrary: state c)
  case (Cons p pairs)
  obtain s1 c1 where s1: "deferOne invisible p (state, c) = (s1, c1)" by fastforce
  then have "fold (deferOne invisible) pairs (s1, c1) = (state', c')" using Cons.prems by simp
  from Cons.IH [OF this] deferOne_mono(1,3) [OF s1] show ?case by (simp, blast)
qed simp

lemma grounded_less:
  assumes "deferPass invisible pairs state = (state', True)"
  shows "card (grounded pairs state') < card (grounded pairs state)"
proof -
  note mono = deferFold_mono [OF assms [unfolded deferPass_def]]
  have "grounded pairs state' \<subset> grounded pairs state" using mono by (auto simp: grounded_def)
  then show ?thesis by (intro psubset_card_mono) (simp_all add: grounded_def)
qed

function deferLoop :: "int64 set \<Rightarrow> movePair list \<Rightarrow> key_state \<Rightarrow> key_state" where
  "deferLoop invisible pairs state =
     (case deferPass invisible pairs state of
        (state', changed) \<Rightarrow> if changed then deferLoop invisible pairs state' else state')"
  by pat_completeness auto
termination
  by (relation "measure (\<lambda>(invisible, pairs, state). card (grounded pairs state))") (auto simp: grounded_less)

declare deferLoop.simps [simp del]

definition deferPairs :: "int64 list \<Rightarrow> key_state \<Rightarrow> int64 set \<Rightarrow> Buffer \<Rightarrow> key_state" where
  "deferPairs order state invisible b = deferLoop invisible (movePairs (buf_entries b) order) state"

section \<open>Drain\<close>

definition drainOne :: "key_state \<Rightarrow> int64 set \<Rightarrow> int64 \<Rightarrow> Buffer \<times> Batch \<Rightarrow> Buffer \<times> Batch" where
  "drainOne state invisible key acc =
     (case acc of (b, batch) \<Rightarrow>
        (case buf_entries b key of
           None \<Rightarrow> (b, batch)
         | Some e \<Rightarrow>
             if buf_pending b key \<noteq> None
             then (trackOldest (en_FirstLSN e) b, batch\<lparr>ba_Held := ba_Held batch + 1\<rparr>)
             else if key \<in> invisible
             then (trackOldest (en_FirstLSN e) b, batch\<lparr>ba_Invisible := ba_Invisible batch + 1\<rparr>)
             else case state key of
               KeyUncut \<Rightarrow> (remove key b, batch\<lparr>ba_Discarded := ba_Discarded batch + 1\<rparr>)
             | KeyLanded \<Rightarrow> (remove key b, batch\<lparr>ba_Entries := ba_Entries batch @ [e]\<rparr>)
             | KeyInFlight \<Rightarrow>
                 (trackOldest (en_FirstLSN e) b, batch\<lparr>ba_Deferred := ba_Deferred batch + 1\<rparr>)))"

definition invisibleKeys :: "int64 list \<Rightarrow> Snapshot \<Rightarrow> Buffer \<Rightarrow> int64 set" where
  "invisibleKeys order snap b = set (filter (\<lambda>k. case buf_entries b k of
     Some e \<Rightarrow> \<not> Visible snap (en_Xid e) | None \<Rightarrow> False) order)"

definition judge :: "Position \<Rightarrow> int64 set \<Rightarrow> key_state" where
  "judge pos invisible = (\<lambda>k. if k \<in> invisible then KeyInFlight else Classify pos k)"

definition Drain :: "int64 list \<Rightarrow> Position \<Rightarrow> Snapshot \<Rightarrow> Buffer \<Rightarrow> Batch \<times> Buffer" where
  "Drain order pos snap b =
     (let invisible = invisibleKeys order snap b;
          state = deferPairs order (judge pos invisible) invisible b;
          (b', batch) = fold (drainOne state invisible) order (b\<lparr>buf_hasOldest := False\<rparr>, emptyBatch)
      in (batch\<lparr>ba_Entries := sort_key en_Key (ba_Entries batch)\<rparr>, b'))"

section \<open>The least set of waiting keys\<close>

inductive_set waiting :: "key_state \<Rightarrow> int64 set \<Rightarrow> movePair set \<Rightarrow> int64 set"
  for st :: key_state and invisible :: "int64 set" and pairs :: "movePair set" where
  in_flight: "st k = KeyInFlight \<Longrightarrow> k \<in> waiting st invisible pairs"
| moved_image: "p \<in> pairs \<Longrightarrow> st (mp_image p) \<noteq> KeyUncut \<Longrightarrow> st (mp_old p) \<noteq> KeyUncut \<Longrightarrow>
    mp_old p \<in> waiting st invisible pairs \<or> mp_image p \<in> invisible \<Longrightarrow> mp_image p \<in> waiting st invisible pairs"
| old_entry: "p \<in> pairs \<Longrightarrow> st (mp_image p) \<noteq> KeyUncut \<Longrightarrow> st (mp_old p) \<noteq> KeyUncut \<Longrightarrow>
    mp_image p \<in> invisible \<Longrightarrow> mp_old p \<in> waiting st invisible pairs"

definition deferred_by :: "key_state \<Rightarrow> int64 set \<Rightarrow> movePair set \<Rightarrow> key_state \<Rightarrow> bool" where
  "deferred_by st invisible pairs s \<longleftrightarrow>
     (\<forall>k. s k = st k \<or> s k = KeyInFlight \<and> k \<in> waiting st invisible pairs)"

lemma waiting_not_uncut: "k \<in> waiting st invisible pairs \<Longrightarrow> st k \<noteq> KeyUncut"
  by (erule waiting.cases) auto

lemma deferred_by_uncut:
  assumes "deferred_by st invisible pairs s" "s k \<noteq> KeyUncut"
  shows "st k \<noteq> KeyUncut"
  using assms waiting_not_uncut [of k st invisible pairs] by (metis deferred_by_def)

lemma deferred_by_cut:
  assumes "deferred_by st invisible pairs s" "st k \<noteq> KeyUncut"
  shows "s k \<noteq> KeyUncut"
  using assms by (metis deferred_by_def KeyState.distinct(1))

lemma deferOne_deferred_by:
  assumes "deferred_by st invisible pairs s" "p \<in> pairs" "deferOne invisible p (s, c) = (s', c')"
  shows "deferred_by st invisible pairs s'"
proof (cases "waitsTogether (s (mp_image p)) (s (mp_old p)) (mp_image p \<in> invisible)")
  case True
  let ?W = "waiting st invisible pairs"
  have u: "st (mp_image p) \<noteq> KeyUncut" "st (mp_old p) \<noteq> KeyUncut"
    using True deferred_by_uncut [OF assms(1)] by (auto simp: waitsTogether_def split: if_splits)
  have "mp_old p \<in> ?W \<or> mp_image p \<in> invisible"
    using True assms(1) waiting.in_flight [of st "mp_old p" invisible pairs]
    by (auto simp: waitsTogether_def deferred_by_def split: if_splits) metis
  then have "mp_image p \<in> ?W" "mp_old p \<in> ?W"
    using waiting.moved_image [OF assms(2) u] waiting.old_entry [OF assms(2) u] by blast+
  then show ?thesis using assms(1,3) by (auto simp: deferOne_def deferred_by_def split: if_splits)
qed (use assms in \<open>auto simp: deferOne_def\<close>)

lemma deferFold_deferred_by:
  assumes "deferred_by st invisible P s" "set ps \<subseteq> P" "fold (deferOne invisible) ps (s, c) = (s', c')"
  shows "deferred_by st invisible P s'"
  using assms
proof (induction ps arbitrary: s c)
  case (Cons p ps)
  obtain s1 c1 where s1: "deferOne invisible p (s, c) = (s1, c1)" by fastforce
  then show ?case using Cons.IH [of s1 c1] deferOne_deferred_by [OF Cons.prems(1) _ s1] Cons.prems by auto
qed simp

definition settled :: "int64 set \<Rightarrow> movePair set \<Rightarrow> key_state \<Rightarrow> bool" where
  "settled invisible P s \<longleftrightarrow> (\<forall>p \<in> P. waitsTogether (s (mp_image p)) (s (mp_old p)) (mp_image p \<in> invisible) \<longrightarrow>
     s (mp_image p) = KeyInFlight \<and> s (mp_old p) = KeyInFlight)"

lemma deferFold_settled:
  assumes "fold (deferOne invisible) ps (s, c) = (s', False)"
  shows "\<not> c \<and> s' = s \<and> settled invisible (set ps) s"
  using assms
proof (induction ps arbitrary: s c)
  case (Cons p ps)
  obtain s1 c1 where s1: "deferOne invisible p (s, c) = (s1, c1)" by fastforce
  then have r: "\<not> c1" "s' = s1" "settled invisible (set ps) s1" using Cons.IH [of s1 c1] Cons.prems by auto
  then have "s1 = s" "\<not> c" using deferOne_mono(4,5) [OF s1] by auto
  then show ?case using r s1 by (auto simp: settled_def deferOne_def split: if_splits)
qed (simp add: settled_def)

lemma deferLoop_spec:
  "deferred_by st invisible (set pairs) s \<Longrightarrow>
     deferred_by st invisible (set pairs) (deferLoop invisible pairs s) \<and>
     settled invisible (set pairs) (deferLoop invisible pairs s)"
proof (induction invisible pairs s rule: deferLoop.induct)
  case (1 invisible pairs s)
  obtain s' c where s': "deferPass invisible pairs s = (s', c)" by fastforce
  have d: "deferred_by st invisible (set pairs) s'"
    using deferFold_deferred_by [OF 1(2) order_refl s' [unfolded deferPass_def]] .
  show ?case
  proof (cases c)
    case True
    then show ?thesis using 1(1) [OF s' [symmetric] True d] s' by (simp add: deferLoop.simps)
  next
    case False
    then have "s' = s" "settled invisible (set pairs) s"
      using deferFold_settled [of invisible pairs s False s'] s' by (auto simp: deferPass_def)
    then show ?thesis using False d s' by (simp add: deferLoop.simps)
  qed
qed

lemma settled_waiting:
  assumes "deferred_by st invisible P s" "settled invisible P s" "k \<in> waiting st invisible P"
  shows "s k = KeyInFlight"
  using assms(3)
proof induction
  case (moved_image p)
  have "s (mp_image p) \<noteq> KeyUncut" "s (mp_old p) \<noteq> KeyUncut"
    using deferred_by_cut [OF assms(1)] moved_image(2,3) by auto
  then show ?case using assms(2) moved_image by (auto simp: settled_def waitsTogether_def)
next
  case (old_entry p)
  have "s (mp_image p) \<noteq> KeyUncut" "s (mp_old p) \<noteq> KeyUncut"
    using deferred_by_cut [OF assms(1)] old_entry(2,3) by auto
  then show ?case using assms(2) old_entry by (auto simp: settled_def waitsTogether_def)
qed (use assms(1) in \<open>auto simp: deferred_by_def\<close>, metis)

lemma deferLoop_exact:
  "deferLoop invisible pairs st k = (if k \<in> waiting st invisible (set pairs) then KeyInFlight else st k)"
proof -
  have "deferred_by st invisible (set pairs) st" by (simp add: deferred_by_def)
  note s = deferLoop_spec [OF this]
  show ?thesis using settled_waiting [OF s [THEN conjunct1] s [THEN conjunct2], of k] s
    by (auto simp: deferred_by_def)
qed

section \<open>What a drain does with an entry\<close>

definition pairsOf :: "(int64 \<rightharpoonup> Entry) \<Rightarrow> movePair set" where
  "pairsOf m = {p. \<exists>e. m (mp_image p) = Some e \<and> en_OldKey e = Some (mp_old p) \<and> m (mp_old p) \<noteq> None}"

lemma set_movePairs: "dom m \<subseteq> set order \<Longrightarrow> set (movePairs m order) = pairsOf m"
proof -
  have "set (movePairs m ks) = {p \<in> pairsOf m. mp_image p \<in> set ks}" for ks
    by (induction ks) (auto simp: pairsOf_def split: option.splits)
  moreover assume "dom m \<subseteq> set order"
  ultimately show ?thesis by (auto simp: pairsOf_def)
qed

datatype fate = FateHeld | FateInvisible | FateDiscard | FateFlush | FateDefer

definition fateOf :: "key_state \<Rightarrow> int64 set \<Rightarrow> Buffer \<Rightarrow> int64 \<Rightarrow> fate" where
  "fateOf state invisible b k =
     (if buf_pending b k \<noteq> None then FateHeld else if k \<in> invisible then FateInvisible
      else case state k of KeyUncut \<Rightarrow> FateDiscard | KeyLanded \<Rightarrow> FateFlush | KeyInFlight \<Rightarrow> FateDefer)"

definition leaves :: "fate \<Rightarrow> bool" where
  "leaves f \<longleftrightarrow> f = FateDiscard \<or> f = FateFlush"

lemma leaves_simps [simp]:
  "leaves FateDiscard" "leaves FateFlush" "\<not> leaves FateHeld" "\<not> leaves FateInvisible" "\<not> leaves FateDefer"
  by (simp_all add: leaves_def)

definition index_ok :: "Buffer \<Rightarrow> bool" where
  "index_ok b \<longleftrightarrow> (\<forall>k e. buf_entries b k = Some e \<longrightarrow> en_Key e = k) \<and> buf_movedFrom b = movedIndex (buf_entries b)"

lemma remove_sel [simp]:
  "buf_entries (remove k b) = (buf_entries b)(k := None)" "buf_pending (remove k b) = (buf_pending b)(k := None)"
  "buf_oldest (remove k b) = buf_oldest b" "buf_hasOldest (remove k b) = buf_hasOldest b"
  by (simp_all add: remove_def Let_def)

lemma remove_index_ok: "index_ok b \<Longrightarrow> index_ok (remove k b)"
  using unindex_movedFrom [of b "buf_entries b" k "buf_entries b k"]
  by (auto simp: index_ok_def remove_def Let_def)

lemma trackOldest_index_ok: "index_ok b \<Longrightarrow> index_ok (trackOldest l b)"
  by (simp add: index_ok_def)

lemma drainOne_cases:
  assumes "buf_entries b k = Some e"
  shows "drainOne state invisible k (b, batch) =
    (if leaves (fateOf state invisible b k) then remove k b else trackOldest (en_FirstLSN e) b,
     case fateOf state invisible b k of
       FateHeld \<Rightarrow> batch\<lparr>ba_Held := ba_Held batch + 1\<rparr>
     | FateInvisible \<Rightarrow> batch\<lparr>ba_Invisible := ba_Invisible batch + 1\<rparr>
     | FateDiscard \<Rightarrow> batch\<lparr>ba_Discarded := ba_Discarded batch + 1\<rparr>
     | FateFlush \<Rightarrow> batch\<lparr>ba_Entries := ba_Entries batch @ [e]\<rparr>
     | FateDefer \<Rightarrow> batch\<lparr>ba_Deferred := ba_Deferred batch + 1\<rparr>)"
  using assms by (simp add: drainOne_def fateOf_def split: KeyState.splits)

definition countFate :: "(int64 \<Rightarrow> fate) \<Rightarrow> fate \<Rightarrow> int64 list \<Rightarrow> nat" where
  "countFate f x ks = length (filter (\<lambda>k. f k = x) ks)"

definition tallied :: "(int64 \<Rightarrow> fate) \<Rightarrow> (int64 \<rightharpoonup> Entry) \<Rightarrow> int64 list \<Rightarrow> Batch \<Rightarrow> Batch" where
  "tallied f m ks batch =
     \<lparr>ba_Entries = ba_Entries batch @ map (the \<circ> m) (filter (\<lambda>k. f k = FateFlush) ks),
      ba_Discarded = ba_Discarded batch + countFate f FateDiscard ks,
      ba_Deferred = ba_Deferred batch + countFate f FateDefer ks,
      ba_Held = ba_Held batch + countFate f FateHeld ks,
      ba_Invisible = ba_Invisible batch + countFate f FateInvisible ks\<rparr>"

lemma tallied_cong:
  assumes "\<And>k. k \<in> set ks \<Longrightarrow> f k = g k" "\<And>k. k \<in> set ks \<Longrightarrow> m k = n k"
  shows "tallied f m ks batch = tallied g n ks batch"
proof -
  have "filter (\<lambda>k. f k = x) ks = filter (\<lambda>k. g k = x) ks" for x using assms(1) by (intro filter_cong) auto
  moreover have "map (the \<circ> m) (filter P ks) = map (the \<circ> n) (filter P ks)" for P
    using assms(2) by (intro map_cong) auto
  ultimately show ?thesis by (simp add: tallied_def countFate_def)
qed

lemma drain_fold:
  assumes "index_ok b" "distinct ks" "set ks \<subseteq> dom (buf_entries b)"
  shows "\<exists>b'. fold (drainOne state invisible) ks (b, batch) =
      (b', tallied (fateOf state invisible b) (buf_entries b) ks batch) \<and> index_ok b' \<and>
    buf_entries b' = (\<lambda>k. if k \<in> set ks \<and> leaves (fateOf state invisible b k) then None else buf_entries b k) \<and>
    buf_pending b' = (\<lambda>k. if k \<in> set ks \<and> leaves (fateOf state invisible b k) then None else buf_pending b k)"
  using assms
proof (induction ks arbitrary: b batch)
  case (Cons k ks)
  let ?f = "fateOf state invisible b"
  from Cons.prems(3) obtain e where e: "buf_entries b k = Some e" by auto
  define b1 where "b1 = (if leaves (?f k) then remove k b else trackOldest (en_FirstLSN e) b)"
  have one: "drainOne state invisible k (b, batch) = (b1, tallied ?f (buf_entries b) [k] batch)"
    unfolding drainOne_cases [OF e] b1_def using e
    by (auto simp: tallied_def countFate_def split: fate.splits)
  have b1: "index_ok b1" "\<And>j. j \<noteq> k \<Longrightarrow> buf_entries b1 j = buf_entries b j"
    "\<And>j. j \<noteq> k \<Longrightarrow> buf_pending b1 j = buf_pending b j"
    "buf_entries b1 k = (if leaves (?f k) then None else buf_entries b k)"
    "buf_pending b1 k = (if leaves (?f k) then None else buf_pending b k)"
    using Cons.prems(1) by (auto simp: b1_def remove_index_ok trackOldest_index_ok)
  have f: "fateOf state invisible b1 j = ?f j" if "j \<noteq> k" for j using b1(3) [OF that] by (simp add: fateOf_def)
  have sub: "set ks \<subseteq> dom (buf_entries b1)" using Cons.prems b1(2) by fastforce
  obtain b' where b': "fold (drainOne state invisible) ks (b1, tallied ?f (buf_entries b) [k] batch) =
      (b', tallied (fateOf state invisible b1) (buf_entries b1) ks (tallied ?f (buf_entries b) [k] batch))" "index_ok b'"
    "buf_entries b' = (\<lambda>j. if j \<in> set ks \<and> leaves (fateOf state invisible b1 j) then None else buf_entries b1 j)"
    "buf_pending b' = (\<lambda>j. if j \<in> set ks \<and> leaves (fateOf state invisible b1 j) then None else buf_pending b1 j)"
    using Cons.IH [OF b1(1) _ sub, of "tallied ?f (buf_entries b) [k] batch"] Cons.prems(2) by auto
  have "tallied (fateOf state invisible b1) (buf_entries b1) ks (tallied ?f (buf_entries b) [k] batch) =
      tallied ?f (buf_entries b) ks (tallied ?f (buf_entries b) [k] batch)"
    by (intro tallied_cong) (metis Cons.prems(2) distinct.simps(2) f b1(2))+
  also have "\<dots> = tallied ?f (buf_entries b) (k # ks) batch" by (simp add: tallied_def countFate_def)
  finally have t: "fold (drainOne state invisible) (k # ks) (b, batch) = (b', tallied ?f (buf_entries b) (k # ks) batch)"
    using one b'(1) by simp
  have "k \<notin> set ks" using Cons.prems(2) by simp
  then have "buf_entries b' j = (if j \<in> set (k # ks) \<and> leaves (?f j) then None else buf_entries b j) \<and>
      buf_pending b' j = (if j \<in> set (k # ks) \<and> leaves (?f j) then None else buf_pending b j)" for j
    by (cases "j = k") (simp_all add: b'(3,4) b1(2-5) f)
  then show ?case using t b'(2) by blast
qed (simp add: tallied_def countFate_def)

text \<open>The oldest position after a pass over \<open>ks\<close>: the least of those that stayed.\<close>

definition tracked :: "LSN \<Rightarrow> LSN set \<Rightarrow> Buffer \<Rightarrow> bool" where
  "tracked o0 T b \<longleftrightarrow> finite T \<and> buf_hasOldest b = (T \<noteq> {}) \<and> buf_oldest b = (if T = {} then o0 else Min T)"

lemma tracked_track: "tracked o0 T b \<Longrightarrow> tracked o0 (insert l T) (trackOldest l b)"
  by (auto simp: tracked_def min.commute)

lemma drain_tracked:
  assumes "tracked o0 T b" "distinct ks" "set ks \<subseteq> dom (buf_entries b)"
  shows "tracked o0 (T \<union> (\<lambda>k. en_FirstLSN (the (buf_entries b k))) `
      {k \<in> set ks. \<not> leaves (fateOf state invisible b k)}) (fst (fold (drainOne state invisible) ks (b, batch)))"
  using assms
proof (induction ks arbitrary: b batch T)
  case (Cons k ks)
  let ?f = "fateOf state invisible b"
  from Cons.prems(3) obtain e where e: "buf_entries b k = Some e" by auto
  define b1 where "b1 = (if leaves (?f k) then remove k b else trackOldest (en_FirstLSN e) b)"
  obtain ba1 where one: "drainOne state invisible k (b, batch) = (b1, ba1)"
    unfolding drainOne_cases [OF e] b1_def by blast
  have b1: "\<And>j. j \<noteq> k \<Longrightarrow> buf_entries b1 j = buf_entries b j" "\<And>j. j \<noteq> k \<Longrightarrow> buf_pending b1 j = buf_pending b j"
    by (auto simp: b1_def)
  have f: "fateOf state invisible b1 j = ?f j" if "j \<noteq> k" for j using b1(2) [OF that] by (simp add: fateOf_def)
  define T1 where "T1 = (if leaves (?f k) then T else insert (en_FirstLSN e) T)"
  have "tracked o0 T1 b1"
    using Cons.prems(1) tracked_track [OF Cons.prems(1), of "en_FirstLSN e"]
    by (auto simp: T1_def b1_def tracked_def [of _ _ "remove k b"] tracked_def [of _ _ b])
  moreover have "set ks \<subseteq> dom (buf_entries b1)" using Cons.prems b1(1) by fastforce
  ultimately have "tracked o0 (T1 \<union> (\<lambda>k. en_FirstLSN (the (buf_entries b1 k))) `
      {k \<in> set ks. \<not> leaves (fateOf state invisible b1 k)}) (fst (fold (drainOne state invisible) ks (b1, ba1)))"
    using Cons.IH Cons.prems(2) by auto
  moreover have "(\<lambda>k. en_FirstLSN (the (buf_entries b1 k))) ` {k \<in> set ks. \<not> leaves (fateOf state invisible b1 k)} =
      (\<lambda>k. en_FirstLSN (the (buf_entries b k))) ` {k \<in> set ks. \<not> leaves (?f k)}"
  proof (rule image_cong)
    show "{k \<in> set ks. \<not> leaves (fateOf state invisible b1 k)} = {k \<in> set ks. \<not> leaves (?f k)}"
      using f Cons.prems(2) by (metis distinct.simps(2))
  qed (metis (no_types, lifting) b1(1) Cons.prems(2) distinct.simps(2) mem_Collect_eq)
  moreover have "T1 \<union> (\<lambda>k. en_FirstLSN (the (buf_entries b k))) ` {k \<in> set ks. \<not> leaves (?f k)} =
      T \<union> (\<lambda>k. en_FirstLSN (the (buf_entries b k))) ` {j \<in> set (k # ks). \<not> leaves (?f j)}"
  proof -
    have "{j \<in> set (k # ks). \<not> leaves (?f j)} =
        (if leaves (?f k) then {k \<in> set ks. \<not> leaves (?f k)} else insert k {k \<in> set ks. \<not> leaves (?f k)})" by auto
    then show ?thesis using e by (simp add: T1_def)
  qed
  ultimately show ?case using one by simp
qed simp

section \<open>The outcome of a drain\<close>

definition enumerates :: "int64 list \<Rightarrow> Buffer \<Rightarrow> bool" where
  "enumerates order b \<longleftrightarrow> distinct order \<and> set order = dom (buf_entries b)"

definition unseen :: "Snapshot \<Rightarrow> Buffer \<Rightarrow> int64 set" where
  "unseen snap b = {k. \<exists>e. buf_entries b k = Some e \<and> \<not> Visible snap (en_Xid e)}"

text \<open>
  The specification: what becomes of the entry at a key, in terms of the least
  set of keys that wait.
\<close>

definition drain_fate :: "Position \<Rightarrow> Snapshot \<Rightarrow> Buffer \<Rightarrow> int64 \<Rightarrow> fate" where
  "drain_fate pos snap b k =
     (if buf_pending b k \<noteq> None then FateHeld
      else if k \<in> unseen snap b then FateInvisible
      else if k \<in> waiting (judge pos (unseen snap b)) (unseen snap b) (pairsOf (buf_entries b)) then FateDefer
      else if Classify pos k = KeyUncut then FateDiscard else FateFlush)"

lemma invisibleKeys_unseen: "enumerates order b \<Longrightarrow> invisibleKeys order snap b = unseen snap b"
  by (auto simp: invisibleKeys_def unseen_def enumerates_def split: option.splits)

lemma fateOf_drain_fate:
  assumes "enumerates order b"
  shows "fateOf (deferPairs order (judge pos (unseen snap b)) (unseen snap b) b) (unseen snap b) b k = drain_fate pos snap b k"
proof -
  have "set (movePairs (buf_entries b) order) = pairsOf (buf_entries b)"
    using assms by (intro set_movePairs) (simp add: enumerates_def)
  then show ?thesis
    using waiting.in_flight [of "judge pos (unseen snap b)" k]
    by (auto simp: fateOf_def deferPairs_def deferLoop_exact drain_fate_def judge_def split: KeyState.splits)
qed

lemma fateOf_hasOldest: "fateOf st u (b\<lparr>buf_hasOldest := x\<rparr>) = fateOf st u b"
  by (simp add: fateOf_def fun_eq_iff)

definition drained :: "Position \<Rightarrow> Snapshot \<Rightarrow> Buffer \<Rightarrow> int64 \<Rightarrow> bool" where
  "drained pos snap b k \<longleftrightarrow> leaves (drain_fate pos snap b k)"

definition kept :: "Position \<Rightarrow> Snapshot \<Rightarrow> Buffer \<Rightarrow> int64 \<rightharpoonup> Entry" where
  "kept pos snap b = (\<lambda>k. if drained pos snap b k then None else buf_entries b k)"

definition keptLSNs :: "Position \<Rightarrow> Snapshot \<Rightarrow> Buffer \<Rightarrow> LSN set" where
  "keptLSNs pos snap b = en_FirstLSN ` ran (kept pos snap b)"

definition flushedKeys :: "Position \<Rightarrow> Snapshot \<Rightarrow> Buffer \<Rightarrow> int64 set" where
  "flushedKeys pos snap b = {k \<in> dom (buf_entries b). drain_fate pos snap b k = FateFlush}"

lemma Drain_outcome:
  assumes binv: "buffer_inv b" and ord: "enumerates order b" and dr: "Drain order pos snap b = (batch, b')"
  shows "buf_entries b' = kept pos snap b" "buf_movedFrom b' = movedIndex (kept pos snap b)"
    "buf_pending b' = buf_pending b" "tracked (buf_oldest b) (keptLSNs pos snap b) b'"
    "batch = (tallied (drain_fate pos snap b) (buf_entries b) order emptyBatch)
       \<lparr>ba_Entries := sort_key en_Key (map (the \<circ> buf_entries b) (filter (\<lambda>k. drain_fate pos snap b k = FateFlush) order))\<rparr>"
proof -
  let ?b0 = "b\<lparr>buf_hasOldest := False\<rparr>" and ?u = "unseen snap b"
  let ?st = "deferPairs order (judge pos ?u) ?u b"
  have f: "fateOf ?st ?u ?b0 = drain_fate pos snap b"
    using fateOf_drain_fate [OF ord] by (simp add: fateOf_hasOldest fun_eq_iff)
  have o: "distinct order" "set order = dom (buf_entries b)" using ord by (auto simp: enumerates_def)
  have e0: "buf_entries ?b0 = buf_entries b" "buf_pending ?b0 = buf_pending b" by simp_all
  have sub: "set order \<subseteq> dom (buf_entries ?b0)" using o(2) by simp
  have ix: "index_ok ?b0" using binv by (auto simp: index_ok_def buffer_inv_def entry_ok_def)
  obtain b1 where b1: "fold (drainOne ?st ?u) order (?b0, emptyBatch) =
      (b1, tallied (drain_fate pos snap b) (buf_entries b) order emptyBatch)" "index_ok b1"
    "buf_entries b1 = (\<lambda>k. if k \<in> set order \<and> drained pos snap b k then None else buf_entries b k)"
    "buf_pending b1 = (\<lambda>k. if k \<in> set order \<and> drained pos snap b k then None else buf_pending b k)"
    using drain_fold [OF ix o(1) sub, of ?st ?u emptyBatch] unfolding f e0 drained_def by blast
  have b': "b' = b1" "batch = (tallied (drain_fate pos snap b) (buf_entries b) order emptyBatch)
      \<lparr>ba_Entries := sort_key en_Key (ba_Entries (tallied (drain_fate pos snap b) (buf_entries b) order emptyBatch))\<rparr>"
    using dr b1(1) by (auto simp: Drain_def Let_def invisibleKeys_unseen [OF ord])
  show ent: "buf_entries b' = kept pos snap b" unfolding b' b1(3) kept_def o(2) by (auto simp: fun_eq_iff dom_def)
  then show "buf_movedFrom b' = movedIndex (kept pos snap b)" using b1(2) b' by (simp add: index_ok_def)
  show "buf_pending b' = buf_pending b" unfolding b' b1(4)
    by (auto simp: fun_eq_iff drained_def drain_fate_def)
  show "batch = (tallied (drain_fate pos snap b) (buf_entries b) order emptyBatch)
       \<lparr>ba_Entries := sort_key en_Key (map (the \<circ> buf_entries b) (filter (\<lambda>k. drain_fate pos snap b k = FateFlush) order))\<rparr>"
    unfolding b' by (simp add: tallied_def emptyBatch_def)
  have "tracked (buf_oldest b) {} ?b0" by (simp add: tracked_def)
  from drain_tracked [OF this, of order ?st ?u emptyBatch] o f b1(1) b'(1)
  have "tracked (buf_oldest b) ((\<lambda>k. en_FirstLSN (the (buf_entries b k))) ` {k \<in> dom (buf_entries b). \<not> drained pos snap b k}) b'"
    by (simp add: drained_def)
  moreover have "(\<lambda>k. en_FirstLSN (the (buf_entries b k))) ` {k \<in> dom (buf_entries b). \<not> drained pos snap b k} = keptLSNs pos snap b"
    unfolding keptLSNs_def kept_def ran_def by force
  ultimately show "tracked (buf_oldest b) (keptLSNs pos snap b) b'" by simp
qed

lemma buffer_invD: "buffer_inv b \<Longrightarrow> buf_entries b k = Some e \<Longrightarrow> entry_ok k e \<and> en_Key e = k"
  by (auto simp: buffer_inv_def entry_ok_def)

lemma sorted_entries:
  assumes "buffer_inv b" "distinct ks" "set ks \<subseteq> dom (buf_entries b)"
  shows "sort_key en_Key (map (the \<circ> buf_entries b) ks) = map (the \<circ> buf_entries b) (sorted_list_of_set (set ks))"
proof -
  let ?g = "the \<circ> buf_entries b"
  have key: "map en_Key (map ?g xs) = xs" if "set xs \<subseteq> dom (buf_entries b)" for xs
    using that buffer_invD [OF assms(1)] by (induction xs) auto
  have fin: "finite (set ks)" by simp
  have "en_Key (?g k) = k" if "k \<in> set ks" for k
    using that assms(3) buffer_invD [OF assms(1), of k] by auto
  then have "inj_on en_Key (?g ` set ks)" by (auto simp: inj_on_def simp del: comp_apply)
  moreover have "distinct (map en_Key (sort_key en_Key (map ?g ks)))"
    using key [OF assms(3)] assms(2) by (metis distinct_map distinct_sort set_sort)
  ultimately show ?thesis
    using key [of "sorted_list_of_set (set ks)"] assms(3)
    by (intro map_sorted_distinct_set_unique [where f = en_Key]) (simp_all del: map_map)
qed

lemma countFate_card:
  "distinct ks \<Longrightarrow> countFate f x ks = card {k \<in> set ks. f k = x}"
  by (metis countFate_def distinct_card distinct_filter set_filter)

lemma kept_inv:
  assumes binv: "buffer_inv b" and ord: "enumerates order b" and dr: "Drain order pos snap b = (batch, b')"
  shows "buffer_inv b'"
proof -
  note out = Drain_outcome [OF assms]
  have "oldest_ok b'"
  proof -
    have fin: "finite (keptLSNs pos snap b)" and t: "buf_hasOldest b' = (keptLSNs pos snap b \<noteq> {})"
      "keptLSNs pos snap b \<noteq> {} \<Longrightarrow> buf_oldest b' = Min (keptLSNs pos snap b)"
      using out(4) by (auto simp: tracked_def)
    moreover have "keptLSNs pos snap b = {} \<longleftrightarrow> dom (kept pos snap b) = {}"
      unfolding keptLSNs_def ran_def dom_def by blast
    ultimately show ?thesis unfolding oldest_ok_alt out(1) using Min_in [OF fin] Min_le [OF fin]
      by (auto simp: keptLSNs_def)
  qed
  moreover have "finite (dom (kept pos snap b))"
    using binv by (auto simp: buffer_inv_def kept_def dom_def elim: rev_finite_subset)
  moreover have "\<exists>e. kept pos snap b k = Some e \<and> en_Kind e = Image" if "k \<in> dom (buf_pending b)" for k
  proof -
    have "\<not> drained pos snap b k" using that by (auto simp: drained_def drain_fate_def)
    then show ?thesis using binv that unfolding buffer_inv_def kept_def by auto
  qed
  moreover have "entry_ok k e" if "kept pos snap b k = Some e" for k e
    using that buffer_invD [OF binv] by (auto simp: kept_def split: if_splits)
  ultimately show ?thesis unfolding buffer_inv_def out(1,2,3) by blast
qed

lemma batch_entries:
  assumes binv: "buffer_inv b" and ord: "enumerates order b" and dr: "Drain order pos snap b = (batch, b')"
  shows "ba_Entries batch = map (the \<circ> buf_entries b) (sorted_list_of_set (flushedKeys pos snap b))"
proof -
  let ?ks = "filter (\<lambda>k. drain_fate pos snap b k = FateFlush) order"
  have "set ?ks = flushedKeys pos snap b" "distinct ?ks" "set ?ks \<subseteq> dom (buf_entries b)"
    using ord by (auto simp: flushedKeys_def enumerates_def)
  then show ?thesis using Drain_outcome(5) [OF assms] sorted_entries [OF binv, of ?ks] by simp
qed

definition fateKeys :: "Position \<Rightarrow> Snapshot \<Rightarrow> Buffer \<Rightarrow> fate \<Rightarrow> int64 set" where
  "fateKeys pos snap b x = {k \<in> dom (buf_entries b). drain_fate pos snap b k = x}"

lemma batch_counts:
  assumes binv: "buffer_inv b" and ord: "enumerates order b" and dr: "Drain order pos snap b = (batch, b')"
  shows "ba_Discarded batch = card (fateKeys pos snap b FateDiscard)" "ba_Deferred batch = card (fateKeys pos snap b FateDefer)"
    "ba_Held batch = card (fateKeys pos snap b FateHeld)" "ba_Invisible batch = card (fateKeys pos snap b FateInvisible)"
  using Drain_outcome(5) [OF assms] ord
  by (simp_all add: tallied_def emptyBatch_def countFate_card enumerates_def fateKeys_def)

lemma in_batch:
  assumes "buffer_inv b" "enumerates order b" "Drain order pos snap b = (batch, b')" "buf_entries b k = Some e"
  shows "e \<in> set (ba_Entries batch) \<longleftrightarrow> drain_fate pos snap b k = FateFlush"
proof -
  have "finite (flushedKeys pos snap b)" using assms(1) by (auto simp: buffer_inv_def flushedKeys_def dom_def elim: rev_finite_subset)
  then have "set (ba_Entries batch) = (the \<circ> buf_entries b) ` flushedKeys pos snap b"
    using batch_entries [OF assms(1-3)] by simp
  moreover have "e \<in> (the \<circ> buf_entries b) ` flushedKeys pos snap b \<longleftrightarrow> k \<in> flushedKeys pos snap b"
  proof
    assume "e \<in> (the \<circ> buf_entries b) ` flushedKeys pos snap b"
    then obtain j where j: "j \<in> flushedKeys pos snap b" "e = the (buf_entries b j)" by auto
    then have "buf_entries b j = Some e" by (auto simp: flushedKeys_def)
    then have "j = k" using buffer_invD [OF assms(1)] assms(4) by metis
    then show "k \<in> flushedKeys pos snap b" using j by simp
  qed (use assms(4) in \<open>force\<close>)
  ultimately show ?thesis using assms(4) by (auto simp: flushedKeys_def)
qed

section \<open>Moved images and requeued batches\<close>

lemma drain_fate_flush:
  "drain_fate pos snap b k = FateFlush \<longleftrightarrow> buf_pending b k = None \<and> k \<notin> unseen snap b \<and>
     k \<notin> waiting (judge pos (unseen snap b)) (unseen snap b) (pairsOf (buf_entries b)) \<and> Classify pos k \<noteq> KeyUncut"
  by (auto simp: drain_fate_def)

lemma flushed_image_old:
  assumes "buf_entries b k = Some e" "en_OldKey e = Some old" "buf_entries b old = Some d"
    and "drain_fate pos snap b k = FateFlush"
  shows "old \<notin> unseen snap b \<and> (drained pos snap b old \<or> buf_pending b old \<noteq> None)"
proof -
  let ?u = "unseen snap b" and ?P = "pairsOf (buf_entries b)"
  let ?st = "judge pos ?u" and ?p = "\<lparr>mp_image = k, mp_old = old\<rparr>"
  let ?W = "waiting ?st ?u ?P"
  have p: "?p \<in> ?P" using assms(1-3) by (simp add: pairsOf_def)
  have k: "k \<notin> ?u" "k \<notin> ?W" "?st k \<noteq> KeyUncut" using assms(4) by (auto simp: drain_fate_flush judge_def)
  have w: "old \<notin> ?W"
    using waiting.moved_image [OF p, of ?st ?u] k waiting_not_uncut [of old ?st ?u ?P] by auto
  then have "old \<notin> ?u" using waiting.in_flight [of ?st old ?u ?P] by (auto simp: judge_def)
  then show ?thesis using w by (auto simp: drained_def drain_fate_def leaves_def)
qed

lemma flushed_old_image:
  assumes "buf_entries b k = Some e" "en_OldKey e = Some old" "buf_entries b old = Some d"
    and "drain_fate pos snap b old = FateFlush"
  shows "k \<notin> unseen snap b"
proof
  let ?u = "unseen snap b" and ?P = "pairsOf (buf_entries b)"
  let ?st = "judge pos ?u" and ?p = "\<lparr>mp_image = k, mp_old = old\<rparr>"
  assume u: "k \<in> ?u"
  have p: "?p \<in> ?P" using assms(1-3) by (simp add: pairsOf_def)
  have o: "old \<notin> waiting ?st ?u ?P" "?st old \<noteq> KeyUncut" using assms(4) by (auto simp: drain_fate_flush judge_def)
  have "?st k \<noteq> KeyUncut" using u by (simp add: judge_def)
  then show False using waiting.old_entry [OF p, of ?st ?u] u o by auto
qed

lemma waiting_none:
  assumes "\<And>k. st k \<noteq> KeyInFlight"
  shows "waiting st {} P = {}"
proof -
  have "k \<in> waiting st {} P \<Longrightarrow> False" for k by (induction rule: waiting.induct) (use assms in auto)
  then show ?thesis by blast
qed

lemma drain_fate_landed:
  assumes "Complete (pos_cut pos)" "pos_inFlight pos = []" "unseen snap b = {}" "\<And>k. k \<in> dom (buf_entries b) \<Longrightarrow> is_int64 k"
    and "k \<in> dom (buf_entries b)"
  shows "drain_fate pos snap b k = (if buf_pending b k \<noteq> None then FateHeld else FateFlush)"
proof -
  have landed: "Classify pos k = KeyLanded" if "is_int64 k" for k
    using assms(1,2) that by (simp add: Classify_def Complete_def is_int64_leD not_less)
  have "k \<notin> waiting (judge pos {}) {} (pairsOf (buf_entries b))"
  proof
    assume "k \<in> waiting (judge pos {}) {} (pairsOf (buf_entries b))"
    then have "k \<notin> dom (buf_entries b)"
    proof (induction rule: waiting.induct)
      case (in_flight k)
      then show ?case using landed [of k] assms(4) [of k] by (simp add: judge_def) fastforce
    next
      case (moved_image p)
      then show ?case by (auto simp: pairsOf_def)
    qed auto
    then show False using assms(5) by blast
  qed
  then show ?thesis using landed [OF assms(4) [OF assms(5)]] assms(3) by (auto simp: drain_fate_def)
qed

lemma fold_put_entries:
  "distinct (map en_Key es) \<Longrightarrow> buf_entries (fold put es b) k =
     (case List.find (\<lambda>e. en_Key e = k) es of Some e \<Rightarrow> Some e | None \<Rightarrow> buf_entries b k)"
proof (induction es arbitrary: b)
  case (Cons e es)
  have "List.find (\<lambda>x. en_Key x = k) es = None" if "k = en_Key e"
    using Cons.prems that by (auto simp: find_None_iff image_iff)
  then show ?case using Cons by (auto split: option.splits)
qed simp

lemma requeue_drained:
  assumes binv: "buffer_inv b" and ord: "enumerates order b" and dr: "Drain order pos snap b = (batch, b')"
  shows "\<exists>b''. Requeue (ba_Entries batch) b' = Inr b'' \<and> buffer_inv b'' \<and>
    buf_entries b'' = (\<lambda>k. if drain_fate pos snap b k = FateDiscard then None else buf_entries b k)"
proof -
  let ?es = "ba_Entries batch" and ?F = "flushedKeys pos snap b"
  note ent = Drain_outcome(1) [OF assms] and es = batch_entries [OF assms]
  have fin: "finite ?F" using binv by (auto simp: buffer_inv_def flushedKeys_def dom_def elim: rev_finite_subset)
  have sel: "\<exists>k \<in> ?F. buf_entries b k = Some e \<and> en_Key e = k" if "e \<in> set ?es" for e
    using that fin buffer_invD [OF binv] unfolding es by (force simp: flushedKeys_def)
  have keys: "map en_Key ?es = sorted_list_of_set ?F"
  proof -
    have "en_Key ((the \<circ> buf_entries b) k) = k" if "k \<in> ?F" for k
      using that buffer_invD [OF binv, of k] by (auto simp: flushedKeys_def)
    then have "map (en_Key \<circ> (the \<circ> buf_entries b)) (sorted_list_of_set ?F) = sorted_list_of_set ?F"
      using fin by (intro map_idI) simp
    then show ?thesis unfolding es by simp
  qed
  have gone: "kept pos snap b k = None" if "k \<in> ?F" for k
    using that by (auto simp: kept_def drained_def flushedKeys_def)
  have "Requeue ?es b' = Inr (fold put ?es b')"
    using sel gone by (fastforce simp: Requeue_def ent)
  moreover have "buffer_inv (fold put ?es b')"
    using sel gone keys buffer_invD [OF binv] by (intro fold_put_inv kept_inv [OF assms]) (fastforce simp: ent)+
  moreover have "buf_entries (fold put ?es b') k = (if drain_fate pos snap b k = FateDiscard then None else buf_entries b k)" for k
  proof -
    have dist: "distinct (map en_Key ?es)" unfolding keys by simp
    show ?thesis
    proof (cases "k \<in> ?F")
      case True
      then obtain e where e: "buf_entries b k = Some e" "en_Key e = k" "e \<in> set ?es"
        using fin buffer_invD [OF binv] unfolding es by (force simp: flushedKeys_def)
      moreover have "List.find (\<lambda>x. en_Key x = k) ?es = Some e"
      proof (cases "List.find (\<lambda>x. en_Key x = k) ?es")
        case None
        then show ?thesis using e(2,3) by (auto simp: find_None_iff)
      next
        case (Some x)
        then have "x \<in> set ?es" "en_Key x = k" by (auto simp: find_Some_iff)
        then have "x = e" using sel e(1) by force
        then show ?thesis using Some by simp
      qed
      ultimately show ?thesis using True dist by (simp add: fold_put_entries flushedKeys_def)
    next
      case False
      then have "List.find (\<lambda>x. en_Key x = k) ?es = None" using sel by (fastforce simp: find_None_iff)
      then show ?thesis using False dist
        by (cases "buf_entries b k") (auto simp: fold_put_entries ent kept_def drained_def leaves_def flushedKeys_def)
    qed
  qed
  ultimately show ?thesis by blast
qed

section \<open>Properties\<close>

text \<open>
  A drain decides every entry exactly as specified. For every buffer in
  its invariant, every position and snapshot, and every order in which the map
  is iterated: the buffer keeps precisely the entries that are held, not yet
  visible, or in the least set of keys that must wait; the batch is the entries
  of the landed keys in strictly ascending key order; the counters are the
  sizes of the four remaining groups; pending completions are untouched; and
  the buffer's invariant, the exact oldest position included, holds again.
\<close>

theorem Drain_exact:
  assumes "buffer_inv b" "enumerates order b" "Drain order pos snap b = (batch, b')"
  shows "buffer_inv b' \<and> buf_entries b' = kept pos snap b \<and> buf_pending b' = buf_pending b \<and>
    ba_Entries batch = map (the \<circ> buf_entries b) (sorted_list_of_set (fateKeys pos snap b FateFlush)) \<and>
    ba_Discarded batch = card (fateKeys pos snap b FateDiscard) \<and> ba_Deferred batch = card (fateKeys pos snap b FateDefer) \<and>
    ba_Held batch = card (fateKeys pos snap b FateHeld) \<and> ba_Invisible batch = card (fateKeys pos snap b FateInvisible)"
  using kept_inv [OF assms] Drain_outcome(1,3) [OF assms] batch_entries [OF assms] batch_counts [OF assms]
  by (simp add: fateKeys_def flushedKeys_def)

definition example_position :: Position where
  "example_position = \<lparr>pos_watermark = NewWatermark MaxInt64, pos_cut = NewWatermark MaxInt64,
     pos_inFlight = [], pos_pending = [], pos_rowsInserted = 0\<rparr>"

lemma example_moved_inv: "buffer_inv example_moved"
  by (rule AddAll_inv [OF NewBuffer_inv example_moved_ok])

lemma example_moved_dom: "dom (buf_entries example_moved) = {1, 2}"
  using example_moved_ok
  by (auto simp: example_moved_def example_events_def Add_def addKeyMove_def NewBuffer_def markOldKeyReused_def split: if_splits)

lemma example_enumerates: "enumerates [1, 2] example_moved" "enumerates [2, 1] example_moved"
  by (auto simp: enumerates_def example_moved_dom)

abbreviation example_drain :: "Batch \<times> Buffer" where
  "example_drain \<equiv> Drain [1, 2] example_position AllVisible example_moved"

theorem Drain_exact_witness:
  "buffer_inv (snd example_drain) \<and> buf_entries (snd example_drain) = kept example_position AllVisible example_moved"
  using Drain_exact [OF example_moved_inv example_enumerates(1), of example_position AllVisible "fst example_drain" "snd example_drain"]
  by simp

text \<open>
  The order in which Go iterates the buffer's map does not matter: any two
  enumerations of the buffered keys give the same batch and the same buffer.
\<close>

theorem Drain_order_irrelevant:
  assumes "buffer_inv b" "enumerates order b" "enumerates order' b"
  shows "Drain order pos snap b = Drain order' pos snap b"
proof -
  obtain ba1 b1 ba2 b2 where d: "Drain order pos snap b = (ba1, b1)" "Drain order' pos snap b = (ba2, b2)" by fastforce
  note o1 = assms(1,2) d(1) and o2 = assms(1,3) d(2)
  have "ba1 = ba2"
    by (rule Batch.equality)
      (simp_all add: batch_entries [OF o1] batch_entries [OF o2] batch_counts [OF o1] batch_counts [OF o2])
  moreover have "buf_hasOldest b1 = buf_hasOldest b2" "buf_oldest b1 = buf_oldest b2"
    using Drain_outcome(4) [OF o1] Drain_outcome(4) [OF o2] by (simp_all add: tracked_def)
  then have "b1 = b2"
    by (intro Buffer.equality) (simp_all add: Drain_outcome(1-3) [OF o1] Drain_outcome(1-3) [OF o2])
  ultimately show ?thesis using d by simp
qed

theorem Drain_order_irrelevant_witness:
  "example_drain = Drain [2, 1] example_position AllVisible example_moved"
  using Drain_order_irrelevant [OF example_moved_inv example_enumerates] .



text \<open>
  A refused batch can always be put back, and nothing is lost. Requeueing
  the batch of a drain into the buffer that drain left never reports a
  conflict, and gives back every entry of the original buffer except the
  discarded ones, with the buffer's invariant (so the oldest position again
  covers every entry of the batch).
\<close>

theorem requeue_restores:
  assumes "buffer_inv b" "enumerates order b" "Drain order pos snap b = (batch, b')"
  shows "\<exists>b''. Requeue (ba_Entries batch) b' = Inr b'' \<and> buffer_inv b'' \<and>
    buf_entries b'' = (\<lambda>k. if drain_fate pos snap b k = FateDiscard then None else buf_entries b k)"
  by (rule requeue_drained [OF assms])

theorem requeue_restores_witness:
  "\<exists>b''. Requeue (ba_Entries (fst example_drain)) (snd example_drain) = Inr b'' \<and> buffer_inv b''"
  using requeue_restores [OF example_moved_inv example_enumerates(1), of example_position AllVisible "fst example_drain" "snd example_drain"]
  by auto

text \<open>
  A drain makes progress. Once the copy has landed every key, with nothing
  in flight, and the snapshot shows every buffered transaction, one drain moves
  every entry that is not held for a completion into the batch, and discards
  and defers none.
\<close>

theorem Drain_progress:
  assumes "buffer_inv b" "enumerates order b" "Drain order pos snap b = (batch, b')"
    and "Complete (pos_cut pos)" "pos_inFlight pos = []" "unseen snap b = {}" "\<And>k. k \<in> dom (buf_entries b) \<Longrightarrow> is_int64 k"
  shows "ba_Discarded batch = 0 \<and> ba_Deferred batch = 0 \<and> ba_Invisible batch = 0 \<and>
    dom (buf_entries b') = dom (buf_pending b)"
proof -
  note fate = drain_fate_landed [OF assms(4-7)]
  have none: "fateKeys pos snap b x = {}" if "x \<noteq> FateHeld" "x \<noteq> FateFlush" for x
    using fate that by (auto simp: fateKeys_def split: if_splits)
  have "dom (buf_pending b) \<subseteq> dom (buf_entries b)" using assms(1) by (auto simp: buffer_inv_def)
  then have "dom (kept pos snap b) = dom (buf_pending b)"
    using fate by (fastforce simp: kept_def drained_def split: if_splits)
  then show ?thesis
    using Drain_outcome(1) [OF assms(1-3)] batch_counts [OF assms(1-3)] none by simp
qed

lemma example_unseen: "unseen AllVisible b = {}"
  by (auto simp: unseen_def Visible_def AllVisible_def)

theorem Drain_progress_witness:
  "ba_Discarded (fst example_drain) = 0 \<and> dom (buf_entries (snd example_drain)) = dom (buf_pending example_moved)"
proof -
  have "Complete (pos_cut example_position)" "pos_inFlight example_position = []"
    by (simp_all add: example_position_def Complete_def)
  moreover have "is_int64 k" if "k \<in> dom (buf_entries example_moved)" for k
    using that by (auto simp: example_moved_dom int64_simps)
  ultimately show ?thesis
    using Drain_progress [OF example_moved_inv example_enumerates(1), of example_position AllVisible "fst example_drain" "snd example_drain"]
    by (simp add: example_unseen)
qed

end
