(* ===== verification/Applier_Flush.thy ===== *)
theory Applier_Flush
  imports Applier_Drain
begin

text \<open>
  The flush (\<open>pkg/applier/flusher.go\<close>, \<open>flush_sql.go\<close>, \<open>complete.go\<close>,
  \<open>absent.go\<close>, \<open>conversion.go\<close>): one drained batch written into the shadow.
  The shadow and the source are maps from keys to rows; each statement is
  modelled by its effect on the shadow. The statement's conversions and the
  constraints of the shadow are the server's, and are arguments of the model:
  \<open>conv\<close> gives the conversion of a retyped column, \<open>refuses k r T\<close> says
  whether a unique index or an exclusion constraint refuses the row \<open>r\<close> under
  the key \<open>k\<close> in the table \<open>T\<close>. Any other failure of the server ends the
  flush with its transaction rolled back, as every \<open>Inl\<close> of the model does.
\<close>

section \<open>Statements\<close>

type_synonym conversions = "string \<Rightarrow> (colval \<Rightarrow> applier_error + colval) option"

type_synonym constraint = "int64 \<Rightarrow> rowval \<Rightarrow> source \<Rightarrow> bool"

record flush_db =
  db_conv :: conversions
  db_refuses :: constraint
  db_source :: source
  db_readLSN :: "int64 \<Rightarrow> LSN"
  db_checkLSN :: LSN

definition uniqueViolation :: applier_error where
  "uniqueViolation = DatabaseError ''23505''"

definition constraintCollision :: "applier_error \<Rightarrow> bool" where
  "constraintCollision e = (case e of DatabaseError code \<Rightarrow> code = ''23505'' \<or> code = ''23P01'' | _ \<Rightarrow> False)"

fun split :: "string list \<Rightarrow> Entry \<Rightarrow> Column list \<times> string list" where
  "split [] e = ([], [])"
| "split (name # names) e =
     (case split names e of (present, markers) \<Rightarrow>
        (case colIndex name (en_Columns e) of
           Some i \<Rightarrow> if col_present (en_Columns e ! i) then (en_Columns e ! i # present, markers)
                     else (present, name # markers)
         | None \<Rightarrow> (present, name # markers)))"

text \<open>A value in the shadow's form is bound bare; any other is converted as the statement converts the column.\<close>

definition valueSQL :: "conversions \<Rightarrow> Column \<Rightarrow> applier_error + colval" where
  "valueSQL conv c =
     (case Column_Get c of
        None \<Rightarrow> Inl (ApplierInvariant ''CO-8'')
      | Some (ColShadow v) \<Rightarrow> Inr v
      | Some v \<Rightarrow> (case conv (col_name c) of None \<Rightarrow> Inr v | Some f \<Rightarrow> f v))"

fun rowWritten :: "conversions \<Rightarrow> Column list \<Rightarrow> applier_error + rowval" where
  "rowWritten conv [] = Inr Map.empty"
| "rowWritten conv (c # cs) =
     (case valueSQL conv c of
        Inl e \<Rightarrow> Inl e
      | Inr v \<Rightarrow> (case rowWritten conv cs of Inl e \<Rightarrow> Inl e | Inr r \<Rightarrow> Inr (r(col_name c \<mapsto> v))))"

definition upsertRow :: "flush_db \<Rightarrow> int64 \<Rightarrow> Column list \<Rightarrow> source \<Rightarrow> applier_error + source" where
  "upsertRow db key cols T =
     (case rowWritten (db_conv db) cols of
        Inl e \<Rightarrow> Inl e
      | Inr w \<Rightarrow>
          let r = rowAt T key ++ w
          in if db_refuses db key r T then Inl uniqueViolation else Inr (T(key \<mapsto> r)))"

definition updateRow :: "flush_db \<Rightarrow> int64 \<Rightarrow> Column list \<Rightarrow> source \<Rightarrow> applier_error + (bool \<times> source)" where
  "updateRow db key cols T =
     (if \<exists>c \<in> set cols. \<not> col_present c then Inl (ApplierInvariant ''CO-8'')
      else case T key of
        None \<Rightarrow> Inr (False, T)
      | Some r0 \<Rightarrow>
          (case rowWritten (db_conv db) cols of
             Inl e \<Rightarrow> Inl e
           | Inr w \<Rightarrow>
               let r = r0 ++ w
               in if db_refuses db key r T then Inl uniqueViolation else Inr (True, T(key \<mapsto> r))))"

definition insertRow :: "flush_db \<Rightarrow> int64 \<Rightarrow> Column list \<Rightarrow> source \<Rightarrow> applier_error + source" where
  "insertRow db key cols T =
     (case rowWritten (db_conv db) cols of
        Inl e \<Rightarrow> Inl e
      | Inr w \<Rightarrow> if T key \<noteq> None \<or> db_refuses db key w T then Inl uniqueViolation else Inr (T(key \<mapsto> w)))"

definition deleteRow :: "int64 \<Rightarrow> source \<Rightarrow> source" where
  "deleteRow key T = T(key := None)"

definition deleteRows :: "int64 list \<Rightarrow> source \<Rightarrow> source" where
  "deleteRows keys T = (\<lambda>k. if k \<in> set keys then None else T k)"

section \<open>Completions\<close>

text \<open>What one row read found for the image's markers, each present, NULL as NULL.\<close>

definition completeFrom :: "string list \<Rightarrow> rowval option \<Rightarrow> Entry \<Rightarrow> Column list option" where
  "completeFrom columns row e =
     (case row of
        None \<Rightarrow> None
      | Some r \<Rightarrow>
          Some (map (\<lambda>name. PresentColumn name (case r name of Some v \<Rightarrow> v | None \<Rightarrow> ColNull)) (snd (split columns e))))"

definition heldImage :: "Entry \<Rightarrow> Column list \<Rightarrow> bool \<Rightarrow> LSN \<Rightarrow> HeldImage" where
  "heldImage e completed fromSource readLSN =
     \<lparr>hi_Entry = e, hi_Completed = completed, hi_FromSource = fromSource, hi_ReadLSN = readLSN\<rparr>"

definition completeOne :: "flush_db \<Rightarrow> string list \<Rightarrow> source \<Rightarrow> Entry \<Rightarrow> HeldImage option" where
  "completeOne db columns T e =
     (let fromShadow = (if en_OldKeyReused e then None
                        else case en_OldKey e of Some old \<Rightarrow> completeFrom columns (T old) e | None \<Rightarrow> None)
      in case fromShadow of
           Some c \<Rightarrow> Some (heldImage e c False (db_readLSN db (en_Key e)))
         | None \<Rightarrow>
             (case completeFrom columns (db_source db (en_Key e)) e of
                None \<Rightarrow> None
              | Some c \<Rightarrow> Some (heldImage e c True (db_readLSN db (en_Key e)))))"

record Result =
  res_Images :: nat
  res_Deletes :: nat
  res_Completed :: nat
  res_Held :: "HeldImage list"
  res_Skipped :: "int64 list"
  res_Fallback :: bool

definition emptyResult :: Result where
  "emptyResult = \<lparr>res_Images = 0, res_Deletes = 0, res_Completed = 0, res_Held = [], res_Skipped = [], res_Fallback = False\<rparr>"

definition deleteInstead :: "Entry \<Rightarrow> Entry" where
  "deleteInstead e = newEntry (en_Key e) DeleteMarker [] (en_FirstLSN e) (en_Xid e)"

fun completeNamed :: "flush_db \<Rightarrow> string list \<Rightarrow> source \<Rightarrow> Entry list \<Rightarrow> Result \<Rightarrow>
    Result \<times> (int64 \<rightharpoonup> Entry option)" where
  "completeNamed db columns T [] result = (result, Map.empty)"
| "completeNamed db columns T (e # named) result =
     (case completeOne db columns T e of
        Some held \<Rightarrow>
          (case completeNamed db columns T named (result\<lparr>res_Held := res_Held result @ [held]\<rparr>) of
             (result', replace) \<Rightarrow> (result', if replace (en_Key e) \<noteq> None then replace else replace(en_Key e \<mapsto> None)))
      | None \<Rightarrow>
          (case completeNamed db columns T named (result\<lparr>res_Skipped := res_Skipped result @ [en_Key e]\<rparr>) of
             (result', replace) \<Rightarrow>
               (result', if replace (en_Key e) \<noteq> None then replace else replace(en_Key e \<mapsto> Some (deleteInstead e)))))"

definition completeMoved :: "flush_db \<Rightarrow> string list \<Rightarrow> source \<Rightarrow> Batch \<Rightarrow> Result \<Rightarrow> Entry list \<times> Result" where
  "completeMoved db columns T batch result =
     (let named = CompleteFirst batch in
      if named = [] then (ba_Entries batch, result)
      else case completeNamed db columns T named result of
        (result', replace) \<Rightarrow>
          (concat (map (\<lambda>e. case replace (en_Key e) of
                          None \<Rightarrow> [e]
                        | Some None \<Rightarrow> []
                        | Some (Some r) \<Rightarrow> [r]) (ba_Entries batch)), result'))"

definition checksShadowRow :: "string list \<Rightarrow> Entry \<Rightarrow> bool" where
  "checksShadowRow columns e =
     (if en_Kind e \<noteq> Image \<or> en_OldKey e \<noteq> None then False
      else if en_AbsenceAwaited e then True
      else snd (split columns e) \<noteq> [])"

fun holdEach :: "flush_db \<Rightarrow> string list \<Rightarrow> int64 set \<Rightarrow> Entry list \<Rightarrow> Result \<Rightarrow> applier_error + (Entry list \<times> Result)" where
  "holdEach db columns present [] result = Inr ([], result)"
| "holdEach db columns present (e # es) result =
     (if \<not> checksShadowRow columns e \<or> en_Key e \<in> present
      then case holdEach db columns present es result of
             Inl err \<Rightarrow> Inl err
           | Inr (rest, result') \<Rightarrow> Inr (e # rest, result')
      else if en_AbsenceAwaited e then Inl (ApplierInvariant ''CO-8'')
      else holdEach db columns present es
             (result\<lparr>res_Held := res_Held result @ [heldImage (e\<lparr>en_AbsenceAwaited := True\<rparr>) [] False (db_checkLSN db)]\<rparr>))"

definition holdAbsent :: "flush_db \<Rightarrow> string list \<Rightarrow> source \<Rightarrow> Entry list \<Rightarrow> Result \<Rightarrow> applier_error + (Entry list \<times> Result)" where
  "holdAbsent db columns T entries result =
     (let keys = map en_Key (filter (checksShadowRow columns) entries) in
      if keys = [] then Inr (entries, result)
      else holdEach db columns (set (filter (\<lambda>k. T k \<noteq> None) keys)) entries result)"

section \<open>The column-wise writes and the whole-row fallback\<close>

definition writeImage :: "flush_db \<Rightarrow> string list \<Rightarrow> Entry \<Rightarrow> source \<Rightarrow> applier_error + source" where
  "writeImage db columns e T =
     (case split columns e of (present, markers) \<Rightarrow>
        if markers = [] then upsertRow db (en_Key e) present T
        else case updateRow db (en_Key e) present T of
          Inl err \<Rightarrow> Inl err
        | Inr (found, T') \<Rightarrow> if \<not> found then Inl (ApplierInvariant ''CO-8'') else Inr T')"

definition writeEntry :: "flush_db \<Rightarrow> string list \<Rightarrow> Entry \<Rightarrow> source \<times> Result \<Rightarrow> applier_error + (source \<times> Result)" where
  "writeEntry db columns e st =
     (case st of (T, result) \<Rightarrow>
        (case en_Kind e of
           DeleteMarker \<Rightarrow> Inr (deleteRow (en_Key e) T, result\<lparr>res_Deletes := res_Deletes result + 1\<rparr>)
         | Image \<Rightarrow>
             (case writeImage db columns e T of
                Inl err \<Rightarrow> Inl err
              | Inr T' \<Rightarrow> Inr (T', result\<lparr>res_Images := res_Images result + 1\<rparr>))
         | EntryOther _ \<Rightarrow> Inl (ApplierInvariant ''CO-5'')))"

fun writeAll :: "flush_db \<Rightarrow> string list \<Rightarrow> Entry list \<Rightarrow> source \<times> Result \<Rightarrow> applier_error + (source \<times> Result)" where
  "writeAll db columns [] st = Inr st"
| "writeAll db columns (e # es) st =
     (case writeEntry db columns e st of Inl err \<Rightarrow> Inl err | Inr st' \<Rightarrow> writeAll db columns es st')"

text \<open>An error rolls back to the savepoint: the caller goes on with the shadow it had.\<close>

definition applyColumnWise :: "flush_db \<Rightarrow> string list \<Rightarrow> Entry list \<Rightarrow> source \<times> Result \<Rightarrow> applier_error + (source \<times> Result)" where
  "applyColumnWise db columns entries st =
     (case writeAll db columns (filter (\<lambda>e. en_Kind e = DeleteMarker) entries) st of
        Inl err \<Rightarrow> Inl err
      | Inr st' \<Rightarrow> writeAll db columns (filter (\<lambda>e. en_Kind e \<noteq> DeleteMarker) entries) st')"

fun completeWhole :: "string list \<Rightarrow> source \<Rightarrow> Entry list \<Rightarrow> Result \<Rightarrow> applier_error + (Entry list \<times> Result)" where
  "completeWhole columns T [] result = Inr ([], result)"
| "completeWhole columns T (e # es) result =
     (if en_Kind e \<noteq> Image \<or> \<not> HasMarker e
      then case completeWhole columns T es result of Inl err \<Rightarrow> Inl err | Inr (es', r) \<Rightarrow> Inr (e # es', r)
      else case completeFrom columns (T (en_Key e)) e of
        None \<Rightarrow> Inl (ApplierInvariant ''CO-8'')
      | Some c \<Rightarrow>
          (case completeWhole columns T es (result\<lparr>res_Completed := res_Completed result + 1\<rparr>) of
             Inl err \<Rightarrow> Inl err
           | Inr (es', r) \<Rightarrow> Inr (overlay (inShadowForm c) e # es', r)))"

fun insertAll :: "flush_db \<Rightarrow> string list \<Rightarrow> Entry list \<Rightarrow> source \<times> Result \<Rightarrow> applier_error + (source \<times> Result)" where
  "insertAll db columns [] st = Inr st"
| "insertAll db columns (e # es) (T, result) =
     (case en_Kind e of
        DeleteMarker \<Rightarrow> insertAll db columns es (T, result\<lparr>res_Deletes := res_Deletes result + 1\<rparr>)
      | Image \<Rightarrow>
          (case split columns e of (present, markers) \<Rightarrow>
             if markers \<noteq> [] then Inl (ApplierInvariant ''CO-8'')
             else case insertRow db (en_Key e) present T of
               Inl err \<Rightarrow> Inl err
             | Inr T' \<Rightarrow> insertAll db columns es (T', result\<lparr>res_Images := res_Images result + 1\<rparr>))
      | EntryOther _ \<Rightarrow> insertAll db columns es (T, result))"

definition applyWholeRows :: "flush_db \<Rightarrow> string list \<Rightarrow> Entry list \<Rightarrow> source \<times> Result \<Rightarrow> applier_error + (source \<times> Result)" where
  "applyWholeRows db columns entries st =
     (case st of (T, result) \<Rightarrow>
        (case completeWhole columns T entries result of
           Inl err \<Rightarrow> Inl err
         | Inr (entries', result') \<Rightarrow>
             insertAll db columns entries' (deleteRows (map en_Key entries) T, result')))"

definition flushApply :: "flush_db \<Rightarrow> string list \<Rightarrow> Batch \<Rightarrow> source \<Rightarrow> applier_error + (source \<times> Result)" where
  "flushApply db columns batch T =
     (case completeMoved db columns T batch emptyResult of (entries0, result0) \<Rightarrow>
        (case holdAbsent db columns T entries0 result0 of
           Inl err \<Rightarrow> Inl err
         | Inr (entries, result) \<Rightarrow>
             (case applyColumnWise db columns entries (T, result) of
                Inr st \<Rightarrow> Inr st
              | Inl err \<Rightarrow>
                  if \<not> constraintCollision err then Inl err
                  else case applyWholeRows db columns entries
                         (T, emptyResult\<lparr>res_Held := res_Held result, res_Skipped := res_Skipped result, res_Fallback := True\<rparr>) of
                    Inl err' \<Rightarrow> if constraintCollision err' then Inl ErrBatchDeferred else Inl err'
                  | Inr st \<Rightarrow> Inr st)))"

section \<open>Flush\<close>

text \<open>
  What the server answers around the writes: whether the guarded transaction
  begins, whether the second resolution check passes, and how the commit ends.
  A commit that reports an error may still have been applied.
\<close>

datatype commit_answer = Committed | CommitError applier_error bool

record flush_env =
  fe_begin :: "applier_error option"
  fe_resolution :: "applier_error option"
  fe_commit :: commit_answer
  fe_lockLost :: bool

definition lostOr :: "flush_env \<Rightarrow> applier_error \<Rightarrow> applier_error" where
  "lostOr env err = (if fe_lockLost env then ErrTableLockLost else err)"

definition flushTx :: "flush_db \<Rightarrow> string list \<Rightarrow> flush_env \<Rightarrow> Batch \<Rightarrow> source \<Rightarrow> (applier_error + Result) \<times> source" where
  "flushTx db columns env batch T =
     (case fe_begin env of
        Some err \<Rightarrow> (Inl err, T)
      | None \<Rightarrow>
          (case flushApply db columns batch T of
             Inl err \<Rightarrow> (Inl err, T)
           | Inr (T', result) \<Rightarrow>
               (case fe_resolution env of
                  Some err \<Rightarrow> (Inl err, T)
                | None \<Rightarrow>
                    (case fe_commit env of
                       Committed \<Rightarrow> (Inr result, T')
                     | CommitError err applied \<Rightarrow> (Inl err, if applied then T' else T)))))"

definition Flush :: "flush_db \<Rightarrow> string list \<Rightarrow> flush_env \<Rightarrow> Batch \<Rightarrow> source \<Rightarrow> (applier_error + Result) \<times> source" where
  "Flush db columns env batch T =
     (if ba_Entries batch = [] then (Inr emptyResult, T)
      else case flushTx db columns env batch T of
        (Inl err, T') \<Rightarrow> (Inl (lostOr env err), T')
      | (Inr result, T') \<Rightarrow> if fe_lockLost env then (Inl ErrTableLockLost, T') else (Inr result, T'))"

section \<open>What the writes do\<close>

text \<open>The table the entries turn \<open>T\<close> into, whichever path writes them.\<close>

definition imageRow :: "flush_db \<Rightarrow> string list \<Rightarrow> source \<Rightarrow> Entry \<Rightarrow> rowval" where
  "imageRow db columns T e =
     rowAt T (en_Key e) ++ (case rowWritten (db_conv db) (fst (split columns e)) of Inr w \<Rightarrow> w | Inl _ \<Rightarrow> Map.empty)"

definition flushed :: "flush_db \<Rightarrow> string list \<Rightarrow> Entry list \<Rightarrow> source \<Rightarrow> source" where
  "flushed db columns entries T = (\<lambda>k.
     case List.find (\<lambda>e. en_Key e = k) entries of
       None \<Rightarrow> T k
     | Some e \<Rightarrow> if en_Kind e = Image then Some (imageRow db columns T e) else None)"

text \<open>The part of \<open>flushed\<close> that concerns the entries in \<open>es\<close>, on a table that agrees with \<open>T\<close> at their keys.\<close>

lemma writeImage_row:
  assumes "writeImage db columns e T = Inr T'"
  shows "T' = T(en_Key e \<mapsto> imageRow db columns T e)"
  using assms
  by (auto simp: writeImage_def upsertRow_def updateRow_def imageRow_def rowAt_def Let_def
      split: prod.splits if_splits sum.splits option.splits)

lemma imageRow_cong: "T (en_Key e) = U (en_Key e) \<Longrightarrow> imageRow db columns T e = imageRow db columns U e"
  by (simp add: imageRow_def rowAt_def)

lemma find_filter_key:
  "distinct (map en_Key es) \<Longrightarrow> List.find (\<lambda>e. en_Key e = k) (filter P es) =
     (case List.find (\<lambda>e. en_Key e = k) es of Some e \<Rightarrow> if P e then Some e else None | None \<Rightarrow> None)"
proof (induction es)
  case (Cons e es)
  have "List.find (\<lambda>e. en_Key e = k) es = None" if "en_Key e = k"
    using Cons.prems that by (auto simp: find_None_iff image_iff)
  then show ?case using Cons by (auto split: option.splits)
qed simp

lemma writeAll_exact:
  assumes "writeAll db columns es (T, result) = Inr (T', result')" "distinct (map en_Key es)"
    and "\<forall>e \<in> set es. U (en_Key e) = T (en_Key e)"
  shows "T' = (\<lambda>k. case List.find (\<lambda>e. en_Key e = k) es of
       None \<Rightarrow> T k | Some e \<Rightarrow> if en_Kind e = Image then Some (imageRow db columns U e) else None)"
  using assms
proof (induction es arbitrary: T result)
  case (Cons e es)
  obtain T1 r1 where st: "writeEntry db columns e (T, result) = Inr (T1, r1)" "writeAll db columns es (T1, r1) = Inr (T', result')"
    using Cons.prems(1) by (auto split: sum.splits)
  have T1: "T1 = T(en_Key e := if en_Kind e = Image then Some (imageRow db columns U e) else None)"
    using st(1) Cons.prems(3) writeImage_row [of db columns e T] imageRow_cong [of T e U]
    by (auto simp: writeEntry_def deleteRow_def split: EntryKind.splits sum.splits)
  have "\<forall>x \<in> set es. U (en_Key x) = T1 (en_Key x)" using Cons.prems(2,3) T1 by (auto simp: image_iff)
  then have T': "T' = (\<lambda>k. case List.find (\<lambda>e. en_Key e = k) es of
       None \<Rightarrow> T1 k | Some e \<Rightarrow> if en_Kind e = Image then Some (imageRow db columns U e) else None)"
    using Cons.IH [OF st(2)] Cons.prems(2) by simp
  have "List.find (\<lambda>x. en_Key x = en_Key e) es = None" using Cons.prems(2) by (auto simp: find_None_iff image_iff)
  then show ?case unfolding T' T1 by (auto simp: fun_eq_iff split: option.split)
qed simp

lemma applyColumnWise_exact:
  assumes "applyColumnWise db columns es (T, result) = Inr (T', result')" "distinct (map en_Key es)"
  shows "T' = flushed db columns es T"
proof -
  let ?d = "filter (\<lambda>e. en_Kind e = DeleteMarker) es" and ?i = "filter (\<lambda>e. en_Kind e \<noteq> DeleteMarker) es"
  obtain T1 r1 where st: "writeAll db columns ?d (T, result) = Inr (T1, r1)" "writeAll db columns ?i (T1, r1) = Inr (T', result')"
    using assms(1) by (auto simp: applyColumnWise_def split: sum.splits)
  have dist: "distinct (map en_Key (filter P es))" for P
    using assms(2) by (simp add: distinct_map_filter)
  have T1: "T1 = (\<lambda>k. case List.find (\<lambda>e. en_Key e = k) ?d of None \<Rightarrow> T k | Some e \<Rightarrow> None)"
    using writeAll_exact [OF st(1) dist, of T]
    by (auto simp: fun_eq_iff find_filter_key [OF assms(2)] split: option.splits if_splits)
  have agree: "\<forall>e \<in> set ?i. T (en_Key e) = T1 (en_Key e)"
  proof
    fix e assume e: "e \<in> set ?i"
    have "List.find (\<lambda>x. en_Key x = en_Key e) ?d = None"
      using e assms(2) by (auto simp: find_None_iff distinct_map inj_on_def)
    then show "T (en_Key e) = T1 (en_Key e)" unfolding T1 by simp
  qed
  show ?thesis
    using writeAll_exact [OF st(2) dist agree]
    by (auto simp: T1 flushed_def find_filter_key [OF assms(2)] fun_eq_iff split: option.splits if_splits)
qed

section \<open>The row an image writes\<close>

definition conval :: "conversions \<Rightarrow> string \<Rightarrow> colval \<Rightarrow> applier_error + colval" where
  "conval conv n v = (case v of ColShadow u \<Rightarrow> Inr u | _ \<Rightarrow> (case conv n of None \<Rightarrow> Inr v | Some f \<Rightarrow> f v))"

definition convRow :: "conversions \<Rightarrow> string list \<Rightarrow> rowval \<Rightarrow> rowval" where
  "convRow conv columns vs = (\<lambda>n. if n \<in> set columns
     then case vs n of None \<Rightarrow> None | Some v \<Rightarrow> (case conval conv n v of Inr u \<Rightarrow> Some u | Inl _ \<Rightarrow> None) else None)"

definition convertible :: "conversions \<Rightarrow> string list \<Rightarrow> rowval \<Rightarrow> bool" where
  "convertible conv columns vs \<longleftrightarrow> (\<forall>n \<in> set columns. \<forall>v. vs n = Some v \<longrightarrow> (\<exists>u. conval conv n v = Inr u))"

lemma valueSQL_conval:
  "valueSQL conv c = (case Column_Get c of None \<Rightarrow> Inl (ApplierInvariant ''CO-8'') | Some v \<Rightarrow> conval conv (col_name c) v)"
  by (auto simp: valueSQL_def conval_def split: option.splits colval.splits)

lemma split_Cons:
  "split (n # ns) e = (case vals (en_Columns e) n of
     Some v \<Rightarrow> (the (colOf (en_Columns e) n) # fst (split ns e), snd (split ns e))
   | None \<Rightarrow> (fst (split ns e), n # snd (split ns e)))"
proof (cases "colIndex n (en_Columns e)")
  case None
  then have "colOf (en_Columns e) n = None" by (simp add: colIndex_None colOf_None)
  then show ?thesis using None by (simp add: vals_def split: prod.splits)
next
  case (Some i)
  then show ?thesis using colIndex_colOf [OF Some] by (simp add: vals_def Column_Get_def split: prod.splits)
qed

declare split.simps(2) [simp del]

lemma colOf_name: "colOf cols n = Some c \<Longrightarrow> col_name c = n \<and> c \<in> set cols"
  by (auto simp: colOf_def find_Some_iff)

lemma vals_SomeD: "vals cols n = Some v \<Longrightarrow> \<exists>c. colOf cols n = Some c \<and> col_name c = n \<and> Column_Get c = Some v"
  by (auto simp: vals_def dest: colOf_name split: option.splits)

lemma rowWritten_split:
  "rowWritten conv (fst (split columns e)) = Inr w \<longleftrightarrow>
     convertible conv columns (vals (en_Columns e)) \<and> w = convRow conv columns (vals (en_Columns e))"
proof (induction columns arbitrary: w)
  case Nil
  show ?case by (auto simp: convertible_def convRow_def)
next
  case (Cons n ns)
  let ?vs = "vals (en_Columns e)"
  show ?case
  proof (cases "?vs n")
    case None
    then have "convRow conv (n # ns) ?vs = convRow conv ns ?vs" by (auto simp: convRow_def fun_eq_iff)
    moreover have "convertible conv (n # ns) ?vs = convertible conv ns ?vs" using None by (simp add: convertible_def)
    ultimately show ?thesis using Cons.IH None by (simp add: split_Cons)
  next
    case (Some v)
    obtain c where c: "colOf (en_Columns e) n = Some c" "col_name c = n" "Column_Get c = Some v"
      using vals_SomeD [OF Some] by blast
    have row: "convRow conv (n # ns) ?vs = (convRow conv ns ?vs)(n \<mapsto> u)" if "conval conv n v = Inr u" for u
      using that Some by (auto simp: convRow_def fun_eq_iff)
    have ok: "convertible conv (n # ns) ?vs \<longleftrightarrow> convertible conv ns ?vs \<and> (\<exists>u. conval conv n v = Inr u)"
      using Some by (auto simp: convertible_def)
    show ?thesis
    proof (cases "rowWritten conv (fst (split ns e))")
      case (Inl err)
      then have "\<not> convertible conv ns ?vs" using Cons.IH [of "convRow conv ns ?vs"] by simp
      then show ?thesis using Inl Some c ok by (auto simp: split_Cons valueSQL_conval split: sum.splits)
    next
      case (Inr w0)
      then have "convertible conv ns ?vs" "w0 = convRow conv ns ?vs" using Cons.IH [of w0] by simp_all
      then show ?thesis using Inr Some c ok row by (auto simp: split_Cons valueSQL_conval split: sum.splits)
    qed
  qed
qed

lemma snd_split: "snd (split columns e) = filter (\<lambda>n. vals (en_Columns e) n = None) columns"
proof (induction columns)
  case (Cons n ns)
  then show ?case by (auto simp: split_Cons split: option.splits)
qed simp

lemma imageRow_conv:
  "convertible (db_conv db) columns (vals (en_Columns e)) \<Longrightarrow>
     imageRow db columns T e = rowAt T (en_Key e) ++ convRow (db_conv db) columns (vals (en_Columns e))"
  using rowWritten_split [of "db_conv db" columns e "convRow (db_conv db) columns (vals (en_Columns e))"]
  by (simp add: imageRow_def)

section \<open>The fallback writes the same rows\<close>

definition shadow_full :: "string list \<Rightarrow> source \<Rightarrow> bool" where
  "shadow_full columns T \<longleftrightarrow> (\<forall>r \<in> ran T. dom r = set columns)"

lemma shadow_fullD: "shadow_full columns T \<Longrightarrow> T k = Some r \<Longrightarrow> dom r = set columns"
  by (auto simp: shadow_full_def ran_def)

lemma vals_map_present:
  "distinct ns \<Longrightarrow> vals (map (\<lambda>n. PresentColumn n (f n)) ns) = (\<lambda>n. if n \<in> set ns then Some (f n) else None)"
proof (induction ns)
  case (Cons n ns)
  have "col_name (PresentColumn n (f n)) \<notin> col_name ` set (map (\<lambda>n. PresentColumn n (f n)) ns)"
    using Cons.prems by (auto simp: PresentColumn_def)
  then show ?case using Cons
    by (auto simp: vals_Cons single_def PresentColumn_def map_add_def fun_eq_iff split: option.splits)
qed (simp add: fun_eq_iff)

lemma inShadowForm_present:
  "inShadowForm (map (\<lambda>n. PresentColumn n (f n)) ns) = map (\<lambda>n. PresentColumn n (ColShadow (f n))) ns"
  by (auto simp: inShadowForm_def PresentColumn_def Column_Get_def)

lemma completed_vals:
  assumes "completeFrom columns (Some r) e = Some c" "distinct columns" "dom r = set columns"
  shows "vals (en_Columns (overlay (inShadowForm c) e)) n = (case vals (en_Columns e) n of Some v \<Rightarrow> Some v
    | None \<Rightarrow> if n \<in> set columns then Some (ColShadow (the (r n))) else None)"
proof -
  let ?m = "snd (split columns e)"
  let ?f = "\<lambda>name. case r name of Some v \<Rightarrow> v | None \<Rightarrow> ColNull"
  have dm: "distinct ?m" "set ?m = {n \<in> set columns. vals (en_Columns e) n = None}"
    using assms(2) by (auto simp: snd_split)
  have c: "inShadowForm c = map (\<lambda>n. PresentColumn n (ColShadow (?f n))) ?m"
    using assms(1) by (simp add: completeFrom_def flip: inShadowForm_present)
  have "distinct (map col_name (inShadowForm c))" unfolding c using dm(1) by (simp add: comp_def PresentColumn_def)
  then have "vals (en_Columns (overlay (inShadowForm c) e)) = vals (en_Columns e) ++ vals (inShadowForm c)"
    by (simp add: vals_overlay)
  moreover have "vals (inShadowForm c) = (\<lambda>n. if n \<in> set ?m then Some (ColShadow (?f n)) else None)"
    unfolding c by (rule vals_map_present [OF dm(1)])
  moreover have "r n = Some (the (r n))" if "n \<in> set columns" using that assms(3) by (metis domD option.sel)
  ultimately show ?thesis by (auto simp: dm(2) map_add_def split: option.splits)
qed

lemma completed_row:
  assumes "completeFrom columns (Some r) e = Some c" "distinct columns" "dom r = set columns"
    and "rowWritten conv (fst (split columns (overlay (inShadowForm c) e))) = Inr w'"
  shows "\<exists>w. rowWritten conv (fst (split columns e)) = Inr w \<and> w' = r ++ w"
proof -
  let ?e = "overlay (inShadowForm c) e"
  define vs where "vs = vals (en_Columns ?e)"
  have v: "vs n = (case vals (en_Columns e) n of Some v \<Rightarrow> Some v
      | None \<Rightarrow> if n \<in> set columns then Some (ColShadow (the (r n))) else None)" for n
    unfolding vs_def by (rule completed_vals [OF assms(1-3)])
  have c': "convertible conv columns vs" "w' = convRow conv columns vs"
    using assms(4) rowWritten_split unfolding vs_def by blast+
  have "convertible conv columns (vals (en_Columns e))"
    using c'(1) by (auto simp: convertible_def v)
  moreover have "w' = r ++ convRow conv columns (vals (en_Columns e))"
  proof
    fix n
    show "w' n = (r ++ convRow conv columns (vals (en_Columns e))) n"
    proof (cases "n \<in> set columns")
      case True
      then have r: "r n = Some (the (r n))" using assms(3) by (metis domD option.sel)
      show ?thesis
      proof (cases "vals (en_Columns e) n")
        case None
        then show ?thesis using True r by (simp add: c'(2) convRow_def v conval_def map_add_def)
      next
        case (Some x)
        moreover obtain u where "conval conv n x = Inr u"
          using c'(1) True Some unfolding convertible_def v by fastforce
        ultimately show ?thesis using True by (simp add: c'(2) convRow_def v map_add_def)
      qed
    next
      case False
      then have "r n = None" using assms(3) by (metis domIff)
      then show ?thesis using False by (simp add: c'(2) convRow_def map_add_def)
    qed
  qed
  ultimately show ?thesis using rowWritten_split [of conv columns e] by blast
qed

definition wholeRow :: "flush_db \<Rightarrow> string list \<Rightarrow> Entry \<Rightarrow> rowval" where
  "wholeRow db columns e = (case rowWritten (db_conv db) (fst (split columns e)) of Inr w \<Rightarrow> w | Inl _ \<Rightarrow> Map.empty)"

lemma insertAll_exact:
  assumes "insertAll db columns es (T, result) = Inr (T', result')" "distinct (map en_Key es)"
  shows "T' = (\<lambda>k. case List.find (\<lambda>e. en_Key e = k) es of
       None \<Rightarrow> T k | Some e \<Rightarrow> if en_Kind e = Image then Some (wholeRow db columns e) else T k) \<and>
    (\<forall>e \<in> set es. en_Kind e = Image \<longrightarrow> snd (split columns e) = [] \<and>
      rowWritten (db_conv db) (fst (split columns e)) = Inr (wholeRow db columns e))"
  using assms
proof (induction es arbitrary: T result)
  case (Cons e es)
  have f: "List.find (\<lambda>x. en_Key x = en_Key e) es = None" using Cons.prems(2) by (auto simp: find_None_iff image_iff)
  obtain T1 r1 where st: "insertAll db columns es (T1, r1) = Inr (T', result')"
    "T1 = (if en_Kind e = Image then T(en_Key e \<mapsto> wholeRow db columns e) else T)"
    and e: "en_Kind e = Image \<longrightarrow> snd (split columns e) = [] \<and>
      rowWritten (db_conv db) (fst (split columns e)) = Inr (wholeRow db columns e)"
    using Cons.prems(1)
    by (auto simp: insertRow_def wholeRow_def split: EntryKind.splits prod.splits if_splits sum.splits)
  show ?case using Cons.IH [OF st(1)] Cons.prems(2) f e by (auto simp: st(2) fun_eq_iff split: option.split)
qed simp

definition wholeStep :: "string list \<Rightarrow> source \<Rightarrow> Entry \<Rightarrow> Entry \<Rightarrow> bool" where
  "wholeStep columns T e e' \<longleftrightarrow> en_Key e' = en_Key e \<and> en_Kind e' = en_Kind e \<and>
     (if en_Kind e = Image \<and> HasMarker e
      then \<exists>c. completeFrom columns (T (en_Key e)) e = Some c \<and> e' = overlay (inShadowForm c) e else e' = e)"

lemma completeWhole_steps:
  "completeWhole columns T es result = Inr (es', result') \<Longrightarrow> list_all2 (wholeStep columns T) es es'"
proof (induction es arbitrary: es' result)
  case (Cons e es)
  have same: "en_Kind e \<noteq> Image \<or> \<not> HasMarker e \<Longrightarrow> wholeStep columns T e e"
    and whole: "completeFrom columns (T (en_Key e)) e = Some c \<Longrightarrow> en_Kind e = Image \<Longrightarrow> HasMarker e \<Longrightarrow>
      wholeStep columns T e (overlay (inShadowForm c) e)" for c
    by (auto simp: wholeStep_def)
  show ?case using Cons.prems Cons.IH same whole
    by (cases "en_Kind e \<noteq> Image \<or> \<not> HasMarker e") (auto split: sum.splits prod.splits option.splits)
qed simp

lemma list_all2_find_key:
  assumes "list_all2 (wholeStep columns T) es es'"
  shows "rel_option (wholeStep columns T) (List.find (\<lambda>e. en_Key e = k) es) (List.find (\<lambda>e. en_Key e = k) es')"
  using assms by induction (auto simp: wholeStep_def)

lemma wholeStep_row:
  assumes "wholeStep columns T e e'" "en_Kind e = Image" "distinct columns" "shadow_full columns T"
    and "snd (split columns e') = []" "rowWritten (db_conv db) (fst (split columns e')) = Inr w'"
  shows "w' = imageRow db columns T e"
proof (cases "HasMarker e")
  case True
  then obtain c where c: "completeFrom columns (T (en_Key e)) e = Some c" "e' = overlay (inShadowForm c) e"
    using assms(1,2) by (auto simp: wholeStep_def)
  then obtain r where r: "T (en_Key e) = Some r" by (auto simp: completeFrom_def split: option.splits)
  then obtain w where "rowWritten (db_conv db) (fst (split columns e)) = Inr w" "w' = r ++ w"
    using completed_row [of columns r e c "db_conv db" w'] c assms(3,6) shadow_fullD [OF assms(4) r] by auto
  then show ?thesis using r by (simp add: imageRow_def rowAt_def)
next
  case False
  then have e': "e' = e" using assms(1,2) by (simp add: wholeStep_def)
  have w': "convertible (db_conv db) columns (vals (en_Columns e))" "w' = convRow (db_conv db) columns (vals (en_Columns e))"
    using assms(6) rowWritten_split unfolding e' by blast+
  have "\<forall>n \<in> set columns. vals (en_Columns e) n \<noteq> None"
    using assms(5) by (auto simp: e' snd_split filter_empty_conv)
  then have "set columns \<subseteq> dom w'" using w' by (fastforce simp: convRow_def convertible_def)
  moreover have "dom (rowAt T (en_Key e)) \<subseteq> set columns"
    using assms(4) shadow_fullD by (fastforce simp: rowAt_def split: option.splits)
  ultimately have "rowAt T (en_Key e) ++ w' = w'" by (auto simp: map_add_def fun_eq_iff split: option.splits)
  then show ?thesis using assms(6) by (simp add: imageRow_def e')
qed

lemma applyWholeRows_exact:
  assumes "applyWholeRows db columns es (T, result) = Inr (T', result')" "distinct (map en_Key es)"
    and "distinct columns" "shadow_full columns T"
  shows "T' = flushed db columns es T"
proof
  fix k
  obtain es' r1 where es': "completeWhole columns T es result = Inr (es', r1)"
    "insertAll db columns es' (deleteRows (map en_Key es) T, r1) = Inr (T', result')"
    using assms(1) by (auto simp: applyWholeRows_def split: sum.splits)
  note steps = completeWhole_steps [OF es'(1)]
  have "map en_Key es' = map en_Key es" using steps by induction (auto simp: wholeStep_def)
  then have dist: "distinct (map en_Key es')" using assms(2) by simp
  note ins = insertAll_exact [OF es'(2) dist]
  note find = list_all2_find_key [OF steps, of k]
  show "T' k = flushed db columns es T k"
  proof (cases "List.find (\<lambda>e. en_Key e = k) es")
    case None
    then have "List.find (\<lambda>e. en_Key e = k) es' = None" using find by simp
    moreover have "k \<notin> set (map en_Key es)" using None by (auto simp: find_None_iff)
    ultimately show ?thesis using ins None by (simp add: flushed_def deleteRows_def)
  next
    case (Some e)
    then obtain e' where e': "List.find (\<lambda>e. en_Key e = k) es' = Some e'" "wholeStep columns T e e'"
      using find by (auto simp: option_rel_Some1)
    have mem: "e' \<in> set es'" "e \<in> set es" "en_Key e = k" using e'(1) Some by (auto simp: find_Some_iff)
    have kind: "en_Kind e' = en_Kind e" using e'(2) by (simp add: wholeStep_def)
    show ?thesis
    proof (cases "en_Kind e = Image")
      case True
      then have "wholeRow db columns e' = imageRow db columns T e"
        using wholeStep_row [OF e'(2) True assms(3,4)] ins mem(1) kind by simp
      then show ?thesis using ins e'(1) Some True kind by (simp add: flushed_def)
    next
      case False
      then show ?thesis using ins e'(1) Some kind mem by (auto simp: flushed_def deleteRows_def)
    qed
  qed
qed

section \<open>The entries a flush writes\<close>

definition toWrite :: "flush_db \<Rightarrow> string list \<Rightarrow> source \<Rightarrow> Batch \<Rightarrow> Entry list" where
  "toWrite db columns T batch =
     (case completeMoved db columns T batch emptyResult of (es, r) \<Rightarrow>
        (case holdAbsent db columns T es r of Inr (es', _) \<Rightarrow> es' | Inl _ \<Rightarrow> []))"

lemma completeNamed_replace:
  assumes "completeNamed db columns T es result = (result', replace)"
  shows "replace k = (case List.find (\<lambda>e. en_Key e = k) (rev es) of None \<Rightarrow> None
    | Some e \<Rightarrow> Some (if completeOne db columns T e = None then Some (deleteInstead e) else None))"
  using assms
proof (induction es arbitrary: result result' replace)
  case (Cons e es)
  have app: "List.find P (xs @ [x]) = (case List.find P xs of Some y \<Rightarrow> Some y | None \<Rightarrow> if P x then Some x else None)" for P xs and x :: Entry
    by (induction xs) auto
  show ?case
  proof (cases "completeOne db columns T e")
    case None
    then obtain r1 rep where "completeNamed db columns T es (result\<lparr>res_Skipped := res_Skipped result @ [en_Key e]\<rparr>) = (r1, rep)"
      "replace = (if rep (en_Key e) \<noteq> None then rep else rep(en_Key e \<mapsto> Some (deleteInstead e)))"
      using Cons.prems by (auto split: prod.splits)
    then show ?thesis using Cons.IH [of _ r1 rep] None by (auto simp: app split: option.splits)
  next
    case (Some h)
    then obtain r1 rep where "completeNamed db columns T es (result\<lparr>res_Held := res_Held result @ [h]\<rparr>) = (r1, rep)"
      "replace = (if rep (en_Key e) \<noteq> None then rep else rep(en_Key e \<mapsto> None))"
      using Cons.prems by (auto split: prod.splits)
    then show ?thesis using Cons.IH [of _ r1 rep] Some by (auto simp: app split: option.splits)
  qed
qed simp

definition named :: "Entry \<Rightarrow> bool" where
  "named e \<longleftrightarrow> en_Kind e = Image \<and> en_OldKey e \<noteq> None \<and> HasMarker e"

text \<open>What becomes of one entry of the batch: kept, held (no entry), or turned into a delete.\<close>

definition afterMoved :: "flush_db \<Rightarrow> string list \<Rightarrow> source \<Rightarrow> Entry \<Rightarrow> Entry list" where
  "afterMoved db columns T e =
     (if \<not> named e then [e] else if completeOne db columns T e = None then [deleteInstead e] else [])"

lemma find_unique_key:
  assumes "distinct (map en_Key es)" "e \<in> set es"
  shows "List.find (\<lambda>x. en_Key x = en_Key e) es = Some e"
  using assms
proof (induction es)
  case (Cons x es)
  then show ?case by (cases "x = e") (auto simp: image_iff)
qed simp

lemma completeMoved_entries:
  assumes "distinct (map en_Key (ba_Entries batch))"
  shows "fst (completeMoved db columns T batch result) = concat (map (afterMoved db columns T) (ba_Entries batch))"
proof -
  let ?es = "ba_Entries batch" and ?n = "CompleteFirst batch"
  have n: "?n = filter named ?es" by (simp add: CompleteFirst_def named_def [abs_def])
  show ?thesis
  proof (cases "?n = []")
    case True
    then have "\<forall>e \<in> set ?es. \<not> named e" using n by (auto simp: filter_empty_conv)
    then have "map (afterMoved db columns T) ?es = map (\<lambda>e. [e]) ?es" by (intro map_cong) (auto simp: afterMoved_def)
    moreover have "concat (map (\<lambda>e. [e]) ?es) = ?es" by simp
    ultimately show ?thesis using True by (simp only: completeMoved_def Let_def) simp
  next
    case False
    obtain r' rep where cn: "completeNamed db columns T ?n result = (r', rep)" by fastforce
    have dn: "distinct (map en_Key (rev ?n))"
      unfolding n rev_map [symmetric] distinct_rev using assms by (simp add: distinct_map_filter)
    have "(case rep (en_Key e) of None \<Rightarrow> [e] | Some None \<Rightarrow> [] | Some (Some r) \<Rightarrow> [r]) = afterMoved db columns T e"
      if e: "e \<in> set ?es" for e
    proof (cases "named e")
      case True
      then have "List.find (\<lambda>x. en_Key x = en_Key e) (rev ?n) = Some e"
        using find_unique_key [OF dn, of e] e n by simp
      then show ?thesis using completeNamed_replace [OF cn, of "en_Key e"] True by (simp add: afterMoved_def)
    next
      case nn: False
      have "x = e" if "x \<in> set ?es" "en_Key x = en_Key e" for x
        using assms that e by (auto simp: distinct_map inj_on_def)
      then have "List.find (\<lambda>x. en_Key x = en_Key e) (rev ?n) = None" using nn n by (auto simp: find_None_iff)
      then show ?thesis using completeNamed_replace [OF cn, of "en_Key e"] nn by (simp add: afterMoved_def)
    qed
    then show ?thesis using False cn by (simp add: completeMoved_def Let_def cong: map_cong)
  qed
qed

lemma afterMoved_keys: "x \<in> set (afterMoved db columns T e) \<Longrightarrow> en_Key x = en_Key e"
  by (auto simp: afterMoved_def deleteInstead_def split: if_splits)

lemma distinct_concat_keys:
  assumes "distinct (map en_Key es)" "\<And>e x. x \<in> set (f e) \<Longrightarrow> en_Key x = en_Key e" "\<And>e. length (f e) \<le> 1"
  shows "distinct (map en_Key (concat (map f es)))"
  using assms(1)
proof (induction es)
  case (Cons e es)
  have "distinct (map en_Key (f e))" using assms(3) [of e] by (cases "f e") auto
  then show ?case using Cons assms(2) by (fastforce simp: image_iff)
qed simp

lemma holdEach_subseq:
  "holdEach db columns present es result = Inr (es', result') \<Longrightarrow>
     es' = filter (\<lambda>e. \<not> checksShadowRow columns e \<or> en_Key e \<in> present) es"
  by (induction es arbitrary: es' result) (auto split: if_splits sum.splits prod.splits)

lemma holdAbsent_entries:
  assumes "holdAbsent db columns T es result = Inr (es', result')"
  shows "es' = filter (\<lambda>e. \<not> checksShadowRow columns e \<or> T (en_Key e) \<noteq> None) es"
proof (cases "filter (checksShadowRow columns) es = []")
  case True
  then have "\<forall>e \<in> set es. \<not> checksShadowRow columns e" by (simp add: filter_empty_conv)
  then show ?thesis using assms True by (auto simp: holdAbsent_def intro: filter_True [symmetric])
next
  case False
  then have "holdEach db columns (set (filter (\<lambda>k. T k \<noteq> None) (map en_Key (filter (checksShadowRow columns) es)))) es result =
      Inr (es', result')"
    using assms unfolding holdAbsent_def Let_def by (simp split: if_split_asm)
  from holdEach_subseq [OF this] have "es' = filter (\<lambda>e. \<not> checksShadowRow columns e \<or>
      en_Key e \<in> set (filter (\<lambda>k. T k \<noteq> None) (map en_Key (filter (checksShadowRow columns) es)))) es" .
  also have "\<dots> = filter (\<lambda>e. \<not> checksShadowRow columns e \<or> T (en_Key e) \<noteq> None) es"
    by (rule filter_cong) auto
  finally show ?thesis .
qed

lemma toWrite_distinct:
  assumes "distinct (map en_Key (ba_Entries batch))"
  shows "distinct (map en_Key (toWrite db columns T batch))"
proof -
  obtain es r where cm: "completeMoved db columns T batch emptyResult = (es, r)" by fastforce
  have "length (afterMoved db columns T e) \<le> 1" for e by (simp add: afterMoved_def)
  then have "distinct (map en_Key (concat (map (afterMoved db columns T) (ba_Entries batch))))"
    by (intro distinct_concat_keys [OF assms] afterMoved_keys)
  then have "distinct (map en_Key es)"
    using completeMoved_entries [OF assms, of db columns T emptyResult] cm by simp
  then show ?thesis using cm holdAbsent_entries [of db columns T es r]
    by (auto simp: toWrite_def distinct_map_filter split: sum.splits)
qed

lemma flushApply_exact:
  assumes "flushApply db columns batch T = Inr (T', result)" "distinct (map en_Key (ba_Entries batch))"
    and "distinct columns" "shadow_full columns T"
  shows "T' = flushed db columns (toWrite db columns T batch) T"
proof -
  obtain es0 r0 where cm: "completeMoved db columns T batch emptyResult = (es0, r0)" by fastforce
  obtain es r where ha: "holdAbsent db columns T es0 r0 = Inr (es, r)"
    using assms(1) cm by (auto simp: flushApply_def split: sum.splits)
  have w: "toWrite db columns T batch = es" using cm ha by (simp add: toWrite_def)
  have dist: "distinct (map en_Key es)" using toWrite_distinct [OF assms(2)] w by metis
  consider (col) "applyColumnWise db columns es (T, r) = Inr (T', result)"
    | (whole) r' where "applyWholeRows db columns es (T, r') = Inr (T', result)"
    using assms(1) cm ha by (auto simp: flushApply_def split: sum.splits if_splits)
  then show ?thesis
  proof cases
    case col
    then show ?thesis using applyColumnWise_exact [OF col dist] w by simp
  next
    case whole
    then show ?thesis using applyWholeRows_exact [OF whole dist assms(3,4)] w by simp
  qed
qed

lemma Flush_applied:
  "Flush db columns env batch T = (Inr result, T') \<Longrightarrow> ba_Entries batch \<noteq> [] \<Longrightarrow> flushApply db columns batch T = Inr (T', result)"
  by (auto simp: Flush_def flushTx_def split: sum.splits option.splits prod.splits if_splits commit_answer.splits)

section \<open>The images a flush holds\<close>

definition absent :: "string list \<Rightarrow> source \<Rightarrow> Entry \<Rightarrow> bool" where
  "absent columns T e \<longleftrightarrow> \<not> named e \<and> checksShadowRow columns e \<and> T (en_Key e) = None"

definition written :: "flush_db \<Rightarrow> string list \<Rightarrow> source \<Rightarrow> Entry \<Rightarrow> Entry list" where
  "written db columns T e = (if absent columns T e then [] else afterMoved db columns T e)"

lemma completeOne_entry: "completeOne db columns T e = Some h \<Longrightarrow> hi_Entry h = e"
  by (auto simp: completeOne_def heldImage_def Let_def split: option.splits if_splits)

lemma completeNamed_tally:
  assumes "completeNamed db columns T ns result = (r', rep)"
  shows "map hi_Entry (res_Held r') = map hi_Entry (res_Held result) @ filter (\<lambda>e. completeOne db columns T e \<noteq> None) ns \<and>
    res_Skipped r' = res_Skipped result @ map en_Key (filter (\<lambda>e. completeOne db columns T e = None) ns)"
  using assms
proof (induction ns arbitrary: result rep)
  case (Cons e ns)
  show ?case
  proof (cases "completeOne db columns T e")
    case None
    obtain r1 rep1 where "completeNamed db columns T ns (result\<lparr>res_Skipped := res_Skipped result @ [en_Key e]\<rparr>) = (r1, rep1)"
      by fastforce
    moreover from this have "r1 = r'" using Cons.prems None by simp
    ultimately show ?thesis using Cons.IH None by fastforce
  next
    case (Some h)
    obtain r1 rep1 where "completeNamed db columns T ns (result\<lparr>res_Held := res_Held result @ [h]\<rparr>) = (r1, rep1)"
      by fastforce
    moreover from this have "r1 = r'" using Cons.prems Some by simp
    ultimately show ?thesis using Cons.IH Some completeOne_entry [OF Some] by fastforce
  qed
qed simp

lemma completeMoved_tally:
  assumes "completeMoved db columns T batch emptyResult = (es, r)"
  shows "map hi_Entry (res_Held r) = filter (\<lambda>e. named e \<and> completeOne db columns T e \<noteq> None) (ba_Entries batch) \<and>
    res_Skipped r = map en_Key (filter (\<lambda>e. named e \<and> completeOne db columns T e = None) (ba_Entries batch))"
proof -
  have n: "CompleteFirst batch = filter named (ba_Entries batch)" by (simp add: CompleteFirst_def named_def [abs_def])
  show ?thesis
  proof (cases "CompleteFirst batch = []")
    case True
    then have "\<forall>e \<in> set (ba_Entries batch). \<not> named e" unfolding n by (simp add: filter_empty_conv)
    then show ?thesis using assms True by (auto simp: completeMoved_def emptyResult_def filter_empty_conv)
  next
    case False
    obtain r' rep where "completeNamed db columns T (CompleteFirst batch) emptyResult = (r', rep)" by fastforce
    then show ?thesis using completeNamed_tally [of db columns T "CompleteFirst batch" emptyResult r' rep] assms False
      unfolding n by (auto simp: completeMoved_def emptyResult_def n filter_filter conj_commute)
  qed
qed

lemma holdEach_tally:
  "holdEach db columns present es result = Inr (es', r) \<Longrightarrow>
     map hi_Entry (res_Held r) = map hi_Entry (res_Held result) @
       map (\<lambda>e. e\<lparr>en_AbsenceAwaited := True\<rparr>) (filter (\<lambda>e. checksShadowRow columns e \<and> en_Key e \<notin> present) es) \<and>
     res_Skipped r = res_Skipped result"
proof (induction es arbitrary: es' result)
  case (Cons e es)
  show ?case
  proof (cases "\<not> checksShadowRow columns e \<or> en_Key e \<in> present")
    case True
    then show ?thesis using Cons by (auto split: sum.splits)
  next
    case False
    then show ?thesis using Cons.prems Cons.IH by (fastforce simp: heldImage_def split: if_splits)
  qed
qed simp

lemma holdAbsent_tally:
  assumes "holdAbsent db columns T es result = Inr (es', r)"
  shows "map hi_Entry (res_Held r) = map hi_Entry (res_Held result) @
      map (\<lambda>e. e\<lparr>en_AbsenceAwaited := True\<rparr>) (filter (\<lambda>e. checksShadowRow columns e \<and> T (en_Key e) = None) es) \<and>
    res_Skipped r = res_Skipped result"
proof (cases "filter (checksShadowRow columns) es = []")
  case True
  then have "\<forall>e \<in> set es. \<not> checksShadowRow columns e" by (simp add: filter_empty_conv)
  then show ?thesis using assms True by (auto simp: holdAbsent_def filter_empty_conv)
next
  case False
  let ?present = "set (filter (\<lambda>k. T k \<noteq> None) (map en_Key (filter (checksShadowRow columns) es)))"
  have h: "holdEach db columns ?present es result = Inr (es', r)"
    using assms False unfolding holdAbsent_def Let_def by (simp split: if_split_asm)
  have f: "filter (\<lambda>e. checksShadowRow columns e \<and> en_Key e \<notin> ?present) es =
      filter (\<lambda>e. checksShadowRow columns e \<and> T (en_Key e) = None) es" by (rule filter_cong) auto
  show ?thesis using holdEach_tally [OF h] unfolding f .
qed

text \<open>Writing changes neither list.\<close>

definition same_lists :: "Result \<Rightarrow> Result \<Rightarrow> bool" where
  "same_lists r r' \<longleftrightarrow> res_Held r' = res_Held r \<and> res_Skipped r' = res_Skipped r"

lemma writeAll_lists: "writeAll db columns es (T, r) = Inr (T', r') \<Longrightarrow> same_lists r r'"
proof (induction es arbitrary: T r)
  case (Cons e es)
  then obtain T1 r1 where "writeEntry db columns e (T, r) = Inr (T1, r1)" "writeAll db columns es (T1, r1) = Inr (T', r')"
    by (auto split: sum.splits)
  moreover from this(1) have "same_lists r r1" by (auto simp: writeEntry_def same_lists_def split: EntryKind.splits sum.splits)
  ultimately show ?case using Cons.IH by (auto simp: same_lists_def)
qed (simp add: same_lists_def)

lemma completeWhole_lists: "completeWhole columns T es r = Inr (es', r') \<Longrightarrow> same_lists r r'"
proof (induction es arbitrary: es' r)
  case (Cons e es)
  show ?case
  proof (cases "en_Kind e \<noteq> Image \<or> \<not> HasMarker e")
    case True
    then show ?thesis using Cons by (auto split: sum.splits)
  next
    case False
    then obtain c es1 where "completeWhole columns T es (r\<lparr>res_Completed := res_Completed r + 1\<rparr>) = Inr (es1, r')"
      using Cons.prems by (auto split: option.splits sum.splits)
    from Cons.IH [OF this] show ?thesis by (simp add: same_lists_def)
  qed
qed (simp add: same_lists_def)

lemma insertAll_lists: "insertAll db columns es (T, r) = Inr (T', r') \<Longrightarrow> same_lists r r'"
proof (induction es arbitrary: T r)
  case (Cons e es)
  then show ?case
    by (cases "en_Kind e")
      (auto simp: same_lists_def case_prod_beta split: if_splits sum.splits dest!: Cons.IH)
qed (simp add: same_lists_def)

lemma absent_afterMoved:
  "filter (\<lambda>e. checksShadowRow columns e \<and> T (en_Key e) = None) (concat (map (afterMoved db columns T) es)) =
     filter (absent columns T) es"
  "filter (\<lambda>e. \<not> checksShadowRow columns e \<or> T (en_Key e) \<noteq> None) (concat (map (afterMoved db columns T) es)) =
     concat (map (written db columns T) es)"
  by (induction es) (auto simp: afterMoved_def absent_def written_def checksShadowRow_def deleteInstead_def)

lemma flushApply_held:
  assumes "distinct (map en_Key (ba_Entries batch))" "flushApply db columns batch T = Inr (T', result)"
  shows "toWrite db columns T batch = concat (map (written db columns T) (ba_Entries batch))"
    "map hi_Entry (res_Held result) = filter (\<lambda>e. named e \<and> completeOne db columns T e \<noteq> None) (ba_Entries batch) @
      map (\<lambda>e. e\<lparr>en_AbsenceAwaited := True\<rparr>) (filter (absent columns T) (ba_Entries batch))"
    "res_Skipped result = map en_Key (filter (\<lambda>e. named e \<and> completeOne db columns T e = None) (ba_Entries batch))"
proof -
  obtain es0 r0 where cm: "completeMoved db columns T batch emptyResult = (es0, r0)" by fastforce
  obtain es r where ha: "holdAbsent db columns T es0 r0 = Inr (es, r)"
    using assms(2) cm by (auto simp: flushApply_def split: sum.splits)
  have es0: "es0 = concat (map (afterMoved db columns T) (ba_Entries batch))"
    using completeMoved_entries [OF assms(1), of db columns T emptyResult] cm by simp
  have "same_lists r result"
  proof -
    consider (col) "applyColumnWise db columns es (T, r) = Inr (T', result)"
      | (whole) r' where "applyWholeRows db columns es (T, r') = Inr (T', result)" "same_lists r r'"
      using assms(2) cm ha by (auto simp: flushApply_def same_lists_def split: sum.splits if_splits)
    then show ?thesis
    proof cases
      case col
      then show ?thesis
        by (auto simp: applyColumnWise_def same_lists_def split: sum.splits dest!: writeAll_lists)
    next
      case whole
      then show ?thesis
        by (auto simp: applyWholeRows_def same_lists_def split: sum.splits dest!: completeWhole_lists insertAll_lists)
    qed
  qed
  then show "map hi_Entry (res_Held result) = filter (\<lambda>e. named e \<and> completeOne db columns T e \<noteq> None) (ba_Entries batch) @
      map (\<lambda>e. e\<lparr>en_AbsenceAwaited := True\<rparr>) (filter (absent columns T) (ba_Entries batch))"
    "res_Skipped result = map en_Key (filter (\<lambda>e. named e \<and> completeOne db columns T e = None) (ba_Entries batch))"
    using holdAbsent_tally [OF ha] completeMoved_tally [OF cm]
    unfolding same_lists_def es0 absent_afterMoved(1) by simp_all
  show "toWrite db columns T batch = concat (map (written db columns T) (ba_Entries batch))"
    using cm ha holdAbsent_entries [OF ha] unfolding es0 absent_afterMoved(2) by (simp add: toWrite_def es0)
qed

section \<open>When the constraints admit the result\<close>

text \<open>
  A unique index or an exclusion constraint refuses a row only for another row
  that conflicts with it.
\<close>

definition refuses_for :: "(rowval \<Rightarrow> rowval \<Rightarrow> bool) \<Rightarrow> constraint \<Rightarrow> bool" where
  "refuses_for clash refuses \<longleftrightarrow>
     (\<forall>k r T. refuses k r T \<longrightarrow> (\<exists>k' r'. k' \<noteq> k \<and> T k' = Some r' \<and> clash r r'))"

definition admissible :: "(rowval \<Rightarrow> rowval \<Rightarrow> bool) \<Rightarrow> source \<Rightarrow> bool" where
  "admissible clash T \<longleftrightarrow> (\<forall>k k' r r'. k \<noteq> k' \<and> T k = Some r \<and> T k' = Some r' \<longrightarrow> \<not> clash r r')"

text \<open>Every marker of an image is on a column the shadow holds.\<close>

definition markers_known :: "string list \<Rightarrow> Entry \<Rightarrow> bool" where
  "markers_known columns e \<longleftrightarrow> (en_Kind e = Image \<longrightarrow> HasMarker e = (snd (split columns e) \<noteq> []))"

lemma completeWhole_ok:
  assumes "\<forall>e \<in> set es. en_Kind e = Image \<and> HasMarker e \<longrightarrow> T (en_Key e) \<noteq> None"
  shows "\<exists>es' result'. completeWhole columns T es result = Inr (es', result')"
  using assms
proof (induction es arbitrary: result)
  case (Cons e es)
  have IH: "\<exists>es' r'. completeWhole columns T es r = Inr (es', r')" for r using Cons by auto
  show ?case
  proof (cases "en_Kind e \<noteq> Image \<or> \<not> HasMarker e")
    case True
    then show ?thesis using IH [of result] by auto
  next
    case False
    then obtain c where "completeFrom columns (T (en_Key e)) e = Some c" using Cons.prems by (auto simp: completeFrom_def)
    then show ?thesis using False IH [of "result\<lparr>res_Completed := res_Completed result + 1\<rparr>"] by auto
  qed
qed simp

lemma insertAll_ok:
  assumes "refuses_for clash (db_refuses db)" "admissible clash F" "distinct (map en_Key es)"
    and "\<forall>e \<in> set es. en_Kind e = Image \<longrightarrow> snd (split columns e) = [] \<and>
      rowWritten (db_conv db) (fst (split columns e)) = Inr (the (F (en_Key e))) \<and> F (en_Key e) \<noteq> None"
    and "\<forall>k r. U k = Some r \<longrightarrow> F k = Some r" "\<forall>e \<in> set es. U (en_Key e) = None"
  shows "\<exists>st. insertAll db columns es (U, result) = Inr st"
  using assms(3-6)
proof (induction es arbitrary: U result)
  case (Cons e es)
  show ?case
  proof (cases "en_Kind e = Image")
    case True
    then obtain w where w: "F (en_Key e) = Some w" "rowWritten (db_conv db) (fst (split columns e)) = Inr w"
      "snd (split columns e) = []" using Cons.prems(2) by auto
    have "\<not> db_refuses db (en_Key e) w U"
      using assms(1,2) w(1) Cons.prems(3) unfolding refuses_for_def admissible_def by metis
    then have "insertRow db (en_Key e) (fst (split columns e)) U = Inr (U(en_Key e \<mapsto> w))"
      using w Cons.prems(4) by (simp add: insertRow_def)
    moreover have "\<exists>st. insertAll db columns es (U(en_Key e \<mapsto> w), r) = Inr st" for r
      using Cons.prems w(1) by (intro Cons.IH) (auto simp: image_iff)
    ultimately show ?thesis using True w(3) by (simp add: case_prod_beta)
  next
    case False
    then show ?thesis using Cons.IH [of U] Cons.prems by (cases "en_Kind e") auto
  qed
qed simp

lemma writeAll_outcome:
  assumes "distinct (map en_Key es)"
    and "\<forall>e \<in> set es. en_Kind e = DeleteMarker \<or> en_Kind e = Image \<and>
      convertible (db_conv db) columns (vals (en_Columns e)) \<and> (snd (split columns e) = [] \<or> T (en_Key e) \<noteq> None)"
  shows "(\<exists>st. writeAll db columns es (T, result) = Inr st) \<or> writeAll db columns es (T, result) = Inl uniqueViolation"
  using assms
proof (induction es arbitrary: T result)
  case (Cons e es)
  have step: "(\<exists>T' r'. writeEntry db columns e (T, result) = Inr (T', r') \<and> (\<forall>k. k \<noteq> en_Key e \<longrightarrow> T' k = T k)) \<or>
      writeEntry db columns e (T, result) = Inl uniqueViolation"
  proof (cases "en_Kind e = Image")
    case True
    then have c: "convertible (db_conv db) columns (vals (en_Columns e))" "snd (split columns e) = [] \<or> T (en_Key e) \<noteq> None"
      using Cons.prems(2) by auto
    then obtain w where w: "rowWritten (db_conv db) (fst (split columns e)) = Inr w" using rowWritten_split by blast
    have p: "\<forall>c \<in> set (fst (split columns e)). col_present c"
    proof -
      have "rowWritten conv cs = Inr w \<Longrightarrow> \<forall>c \<in> set cs. col_present c" for conv cs w
        by (induction cs arbitrary: w) (auto simp: valueSQL_conval Column_Get_def split: sum.splits option.splits if_splits)
      then show ?thesis using w by blast
    qed
    show ?thesis using True c w p
      by (auto simp: writeEntry_def writeImage_def upsertRow_def updateRow_def Let_def split: prod.splits)
  next
    case False
    then show ?thesis using Cons.prems(2) by (auto simp: writeEntry_def deleteRow_def)
  qed
  then show ?case
  proof (elim disjE exE conjE)
    fix T' r'
    assume st: "writeEntry db columns e (T, result) = Inr (T', r')" "\<forall>k. k \<noteq> en_Key e \<longrightarrow> T' k = T k"
    have "\<forall>x \<in> set es. T' (en_Key x) = T (en_Key x)" using st(2) Cons.prems(1) by (metis distinct.simps(2) image_eqI list.set_map list.simps(9))
    then have "\<forall>x \<in> set es. en_Kind x = DeleteMarker \<or> en_Kind x = Image \<and>
        convertible (db_conv db) columns (vals (en_Columns x)) \<and> (snd (split columns x) = [] \<or> T' (en_Key x) \<noteq> None)"
      using Cons.prems(2) by simp
    then show ?thesis using Cons.IH [of T' r'] Cons.prems(1) st(1) by simp
  qed simp
qed simp

definition writable :: "flush_db \<Rightarrow> string list \<Rightarrow> source \<Rightarrow> Entry \<Rightarrow> bool" where
  "writable db columns T e \<longleftrightarrow> en_Kind e = DeleteMarker \<or> en_Kind e = Image \<and>
     convertible (db_conv db) columns (vals (en_Columns e)) \<and> (snd (split columns e) = [] \<or> T (en_Key e) \<noteq> None)"

lemma applyColumnWise_outcome:
  assumes "distinct (map en_Key es)" "\<forall>e \<in> set es. writable db columns T e"
  shows "(\<exists>st. applyColumnWise db columns es (T, result) = Inr st) \<or>
    applyColumnWise db columns es (T, result) = Inl uniqueViolation"
proof -
  let ?d = "filter (\<lambda>e. en_Kind e = DeleteMarker) es" and ?i = "filter (\<lambda>e. en_Kind e \<noteq> DeleteMarker) es"
  have dist: "distinct (map en_Key (filter P es))" for P using assms(1) by (simp add: distinct_map_filter)
  have "(\<exists>st. writeAll db columns ?d (T, result) = Inr st) \<or> writeAll db columns ?d (T, result) = Inl uniqueViolation"
    using assms(2) by (intro writeAll_outcome dist) (auto simp: writable_def)
  then show ?thesis
  proof (elim disjE exE)
    fix st assume "writeAll db columns ?d (T, result) = Inr st"
    moreover obtain T1 r1 where st: "st = (T1, r1)" by fastforce
    ultimately have d: "writeAll db columns ?d (T, result) = Inr (T1, r1)" by simp
    have T1: "T1 = (\<lambda>k. case List.find (\<lambda>e. en_Key e = k) ?d of None \<Rightarrow> T k | Some e \<Rightarrow> None)"
      using writeAll_exact [OF d dist, of T]
      by (auto simp: fun_eq_iff find_filter_key [OF assms(1)] split: option.splits if_splits)
    have "T1 (en_Key e) = T (en_Key e)" if "e \<in> set ?i" for e
    proof -
      have "List.find (\<lambda>x. en_Key x = en_Key e) ?d = None"
        using that assms(1) by (auto simp: find_None_iff distinct_map inj_on_def)
      then show ?thesis unfolding T1 by simp
    qed
    then have "\<forall>e \<in> set ?i. en_Kind e = DeleteMarker \<or> en_Kind e = Image \<and>
        convertible (db_conv db) columns (vals (en_Columns e)) \<and> (snd (split columns e) = [] \<or> T1 (en_Key e) \<noteq> None)"
      using assms(2) by (auto simp: writable_def)
    then have "(\<exists>st. writeAll db columns ?i (T1, r1) = Inr st) \<or> writeAll db columns ?i (T1, r1) = Inl uniqueViolation"
      by (intro writeAll_outcome dist)
    then show ?thesis using d by (simp add: applyColumnWise_def)
  qed (simp add: applyColumnWise_def)
qed

lemma applyWholeRows_ok:
  assumes "refuses_for clash (db_refuses db)" "admissible clash (flushed db columns es T)"
    and dist: "distinct (map en_Key es)" and cols: "distinct columns" "shadow_full columns T"
    and wr: "\<forall>e \<in> set es. writable db columns T e \<and> markers_known columns e"
  shows "\<exists>st. applyWholeRows db columns es (T, result) = Inr st"
proof -
  let ?F = "flushed db columns es T"
  have "\<forall>e \<in> set es. en_Kind e = Image \<and> HasMarker e \<longrightarrow> T (en_Key e) \<noteq> None"
    using wr unfolding writable_def markers_known_def by (metis EntryKind.distinct(1))
  then obtain es' r1 where es': "completeWhole columns T es result = Inr (es', r1)"
    using completeWhole_ok [of es T columns result] by blast
  note steps = completeWhole_steps [OF es']
  have keys: "map en_Key es' = map en_Key es" using steps by induction (auto simp: wholeStep_def)
  have img: "snd (split columns e') = [] \<and> rowWritten (db_conv db) (fst (split columns e')) = Inr (the (?F (en_Key e'))) \<and>
      ?F (en_Key e') \<noteq> None" if e': "e' \<in> set es'" "en_Kind e' = Image" for e'
  proof -
    obtain e where e: "e \<in> set es" "wholeStep columns T e e'"
      using steps e'(1) by (metis in_set_conv_nth list_all2_conv_all_nth)
    then have k: "en_Kind e = Image" "en_Key e' = en_Key e" using e'(2) by (auto simp: wholeStep_def)
    have F: "?F (en_Key e) = Some (imageRow db columns T e)"
      using find_unique_key [OF dist e(1)] k by (simp add: flushed_def)
    have cv: "convertible (db_conv db) columns (vals (en_Columns e'))" and m: "snd (split columns e') = []"
    proof -
      have ce: "convertible (db_conv db) columns (vals (en_Columns e))" using wr e(1) k by (auto simp: writable_def)
      have both: "convertible (db_conv db) columns (vals (en_Columns e')) \<and> snd (split columns e') = []"
      proof (cases "HasMarker e")
        case True
        then obtain c r where c: "completeFrom columns (T (en_Key e)) e = Some c" "e' = overlay (inShadowForm c) e" "T (en_Key e) = Some r"
          using e(2) k by (auto simp: wholeStep_def completeFrom_def split: option.splits)
        have v: "vals (en_Columns e') n = (case vals (en_Columns e) n of Some v \<Rightarrow> Some v
            | None \<Rightarrow> if n \<in> set columns then Some (ColShadow (the (r n))) else None)" for n
          unfolding c(2) by (rule completed_vals) (use c cols shadow_fullD [OF cols(2) c(3)] in auto)
        show ?thesis using ce by (auto simp: convertible_def v conval_def snd_split filter_empty_conv split: option.splits)
      next
        case False
        then show ?thesis using ce e wr k by (auto simp: wholeStep_def markers_known_def)
      qed
      then show "convertible (db_conv db) columns (vals (en_Columns e'))" "snd (split columns e') = []" by blast+
    qed
    then obtain w where w: "rowWritten (db_conv db) (fst (split columns e')) = Inr w" using rowWritten_split by blast
    then show ?thesis using wholeStep_row [OF e(2) k(1) cols m w] F m k by simp
  qed
  have "\<exists>st. insertAll db columns es' (deleteRows (map en_Key es) T, r1) = Inr st"
  proof (rule insertAll_ok [OF assms(1,2)])
    show "distinct (map en_Key es')" using keys dist by simp
    show "\<forall>k r. deleteRows (map en_Key es) T k = Some r \<longrightarrow> ?F k = Some r"
    proof (intro allI impI)
      fix k r assume "deleteRows (map en_Key es) T k = Some r"
      then have "k \<notin> set (map en_Key es)" "T k = Some r" by (auto simp: deleteRows_def split: if_splits)
      moreover from this have "List.find (\<lambda>e. en_Key e = k) es = None" by (auto simp: find_None_iff)
      ultimately show "?F k = Some r" by (simp add: flushed_def)
    qed
    show "\<forall>e \<in> set es'. deleteRows (map en_Key es) T (en_Key e) = None"
      unfolding deleteRows_def keys [symmetric] by simp
  qed (use img in blast)
  then show ?thesis using es' by (simp add: applyWholeRows_def)
qed

lemma toWrite_writable:
  assumes dist: "distinct (map en_Key (ba_Entries batch))"
    and ok: "\<forall>e \<in> set (ba_Entries batch). entry_ok (en_Key e) e \<and> markers_known columns e \<and>
      convertible (db_conv db) columns (vals (en_Columns e))"
    and cm: "completeMoved db columns T batch emptyResult = (es0, r0)" and ha: "holdAbsent db columns T es0 r0 = Inr (es, r)"
    and e: "e \<in> set es"
  shows "writable db columns T e \<and> markers_known columns e"
proof -
  have es: "es = filter (\<lambda>e. \<not> checksShadowRow columns e \<or> T (en_Key e) \<noteq> None) es0"
    by (rule holdAbsent_entries [OF ha])
  have "e \<in> set es0" using e unfolding es by simp
  then obtain x where x: "x \<in> set (ba_Entries batch)" "e \<in> set (afterMoved db columns T x)"
    using completeMoved_entries [OF dist, of db columns T emptyResult] cm by auto
  show ?thesis
  proof (cases "named x")
    case True
    then have "e = deleteInstead x" using x(2) by (auto simp: afterMoved_def split: if_splits)
    then show ?thesis by (simp add: writable_def markers_known_def deleteInstead_def)
  next
    case False
    then have ex: "e = x" using x(2) by (simp add: afterMoved_def)
    have "snd (split columns e) = [] \<or> T (en_Key e) \<noteq> None" if "en_Kind e = Image"
      using that False ok x(1) ex e unfolding es
      by (auto simp: named_def checksShadowRow_def markers_known_def split: if_splits)
    then show ?thesis using ok x(1) ex by (auto simp: writable_def entry_ok_def)
  qed
qed

section \<open>Properties\<close>


definition example_columns :: "string list" where
  "example_columns = [''v'']"

text \<open>One unique column: a row is refused when another key in the example's range holds its value.\<close>

definition example_db :: flush_db where
  "example_db = \<lparr>db_conv = (\<lambda>_. None),
     db_refuses = (\<lambda>k r T. \<exists>k' \<in> set [1, 2, 3]. k' \<noteq> k \<and> T k' \<noteq> None \<and> the (T k') ''v'' = r ''v''),
     db_source = Map.empty, db_readLSN = (\<lambda>_. 9), db_checkLSN = 9\<rparr>"

definition example_env :: flush_env where
  "example_env = \<lparr>fe_begin = None, fe_resolution = None, fe_commit = Committed, fe_lockLost = False\<rparr>"

definition example_image :: "int64 \<Rightarrow> string \<Rightarrow> Entry" where
  "example_image k v = newEntry k Image [PresentColumn ''v'' (ColText v)] 5 7"

text \<open>Two rows exchange their unique values.\<close>

definition example_swap :: Batch where
  "example_swap = emptyBatch\<lparr>ba_Entries := [example_image 1 ''b'', example_image 2 ''a'']\<rparr>"

definition example_shadow_table :: source where
  "example_shadow_table = [1 \<mapsto> [''v'' \<mapsto> ColText ''a''], 2 \<mapsto> [''v'' \<mapsto> ColText ''b'']]"

lemma example_shadow_full: "shadow_full example_columns example_shadow_table"
  by (auto simp: shadow_full_def example_columns_def example_shadow_table_def ran_def split: if_splits)

lemma example_swap_distinct: "distinct (map en_Key (ba_Entries example_swap))"
  by (simp add: example_swap_def example_image_def)



lemma example_swap_written:
  "completeMoved example_db example_columns example_shadow_table example_swap emptyResult = (ba_Entries example_swap, emptyResult)"
  "holdAbsent example_db example_columns example_shadow_table (ba_Entries example_swap) emptyResult =
     Inr (ba_Entries example_swap, emptyResult)"
  by (simp_all add: example_swap_def completeMoved_def CompleteFirst_def example_image_def HasMarker_def
      PresentColumn_def holdAbsent_def checksShadowRow_def snd_split example_columns_def vals_def colOf_def Column_Get_def)

lemma example_swap_flushed:
  "flushed example_db example_columns (ba_Entries example_swap) example_shadow_table =
     [1 \<mapsto> [''v'' \<mapsto> ColText ''b''], 2 \<mapsto> [''v'' \<mapsto> ColText ''a'']]"
  by (auto simp: flushed_def example_swap_def example_image_def imageRow_def rowAt_def example_shadow_table_def
      example_columns_def split_Cons vals_def colOf_def PresentColumn_def Column_Get_def valueSQL_def example_db_def fun_eq_iff)


text \<open>
  A flush accounts for every entry of its batch. Of the images named for
  completion (moved, with an omitted column), none is written as it is: each
  one a row was found for is held unchanged, and each of the others is written
  as a delete of its key and reported as skipped. Of the remaining entries, an
  image that needs the key's shadow row and finds none is held, marked as
  awaited; every other entry is written. The held images and the skipped keys
  are reported in batch order, whichever path wrote the rest.
\<close>

theorem flush_accounts_for_batch:
  assumes "distinct (map en_Key (ba_Entries batch))" "flushApply db columns batch T = Inr (T', result)"
  shows "toWrite db columns T batch = concat (map (written db columns T) (ba_Entries batch)) \<and>
    map hi_Entry (res_Held result) = filter (\<lambda>e. named e \<and> completeOne db columns T e \<noteq> None) (ba_Entries batch) @
      map (\<lambda>e. e\<lparr>en_AbsenceAwaited := True\<rparr>) (filter (absent columns T) (ba_Entries batch)) \<and>
    res_Skipped result = map en_Key (filter (\<lambda>e. named e \<and> completeOne db columns T e = None) (ba_Entries batch))"
  using flushApply_held [OF assms] by simp

definition example_move :: Entry where
  "example_move = (newEntry 3 Image [AbsentColumn ''v''] 5 7)\<lparr>en_OldKey := Some 1\<rparr>"

theorem flush_accounts_for_batch_witness:
  "\<exists>result. flushApply example_db example_columns (emptyBatch\<lparr>ba_Entries := [example_move]\<rparr>) example_shadow_table =
       Inr (example_shadow_table, result) \<and>
     map hi_Entry (res_Held result) = [example_move]"
proof -
  let ?b = "emptyBatch\<lparr>ba_Entries := [example_move]\<rparr>"
  have n: "named example_move" by (simp add: named_def example_move_def HasMarker_def AbsentColumn_def)
  obtain h where c: "completeOne example_db example_columns example_shadow_table example_move = Some h"
    by (simp add: completeOne_def example_move_def example_shadow_table_def completeFrom_def)
  obtain result where f: "flushApply example_db example_columns ?b example_shadow_table = Inr (example_shadow_table, result)"
    using n c by (simp add: flushApply_def completeMoved_def CompleteFirst_def named_def holdAbsent_def applyColumnWise_def)
  show ?thesis using f n c flush_accounts_for_batch [OF _ f] by (simp add: absent_def)
qed

definition dropped_image :: "int64 \<Rightarrow> string \<Rightarrow> Entry" where
  "dropped_image k v = newEntry k Image [PresentColumn ''v'' (ColText v), AbsentColumn ''big''] 5 7"

definition dropped_batch :: Batch where
  "dropped_batch = emptyBatch\<lparr>ba_Entries := [example_image 1 ''b'', example_image 2 ''a'', dropped_image 3 ''c'']\<rparr>"


end
