(* ===== verification/Applier_Catchup.thy ===== *)
theory Applier_Catchup
  imports Decode_Stream Decode_Slot Applier_Flush
begin

text \<open>
  The catch-up loop (\<open>pkg/applier/catchup.go\<close>, \<open>pause.go\<close>,
  \<open>catchup_work.go\<close>): gather changes from the stream into the buffer, drain
  the buffer against the copier's position, flush the batch, put back what was
  not written, and confirm. What a cycle meets (the messages on the stream,
  the clock, the answers of the server) is an argument of the cycle.
\<close>

section \<open>Options and status\<close>

datatype catchup_error =
    CaStream decode_error
  | CaApplier applier_error
  | CaSlot slot_error
  | ErrInvalidCatchupOptions
  | ErrCatchupAlreadyRun
  | CaInvariant string

definition DefaultCatchupInterval :: int64 where "DefaultCatchupInterval = 250000000"
definition DefaultCatchupMaxChanges :: int64 where "DefaultCatchupMaxChanges = 10000"

record CatchupOptions =
  co_Interval :: int64
  co_MaxChanges :: int64
  co_SlotLagCeiling :: int64

definition catchupWithDefaults :: "CatchupOptions \<Rightarrow> CatchupOptions" where
  "catchupWithDefaults opts =
     (let opts = (if co_Interval opts = 0 then opts\<lparr>co_Interval := DefaultCatchupInterval\<rparr> else opts);
          opts = (if co_MaxChanges opts = 0 then opts\<lparr>co_MaxChanges := DefaultCatchupMaxChanges\<rparr> else opts)
      in if co_SlotLagCeiling opts = 0 then opts\<lparr>co_SlotLagCeiling := DefaultSlotLagCeiling\<rparr> else opts)"

definition catchupValidate :: "CatchupOptions \<Rightarrow> catchup_error option" where
  "catchupValidate opts =
     (if co_Interval opts < 1000000 then Some ErrInvalidCatchupOptions
      else if co_MaxChanges opts < 1 then Some ErrInvalidCatchupOptions
      else if co_SlotLagCeiling opts < 1 then Some ErrInvalidCatchupOptions
      else None)"

record Status =
  su_Delivered :: LSN
  su_Confirmed :: LSN
  su_WALEnd :: LSN
  su_Buffered :: nat
  su_Deferred :: nat
  su_Held :: nat
  su_Invisible :: nat
  su_Applied :: nat
  su_Discarded :: nat
  su_Fallbacks :: nat
  su_BatchesDeferred :: nat
  su_FlushesHeld :: bool

definition Lag :: "Status \<Rightarrow> LSN" where
  "Lag s = (if su_WALEnd s \<le> su_Confirmed s then 0 else su_WALEnd s - su_Confirmed s)"

text \<open>The flush gate is one token: \<open>ca_gate\<close> says it is free.\<close>

record Catchup =
  ca_stream :: Stream
  ca_buffer :: Buffer
  ca_shadow :: source
  ca_columns :: "string list"
  ca_opts :: CatchupOptions
  ca_gate :: bool
  ca_status :: Status
  ca_ran :: bool

definition NewCatchup :: "Stream option \<Rightarrow> (string list \<times> source) option \<Rightarrow> bool \<Rightarrow> CatchupOptions \<Rightarrow> catchup_error + Catchup" where
  "NewCatchup stream flusher hasPositions opts =
     (case stream of
        None \<Rightarrow> Inl (CaInvariant ''ST-4'')
      | Some s \<Rightarrow>
          (case flusher of
             None \<Rightarrow> Inl (CaInvariant ''ST-6'')
           | Some (columns, shadow) \<Rightarrow>
               if \<not> hasPositions then Inl (CaInvariant ''CO-4'')
               else let opts = catchupWithDefaults opts in
                 case catchupValidate opts of
                   Some e \<Rightarrow> Inl e
                 | None \<Rightarrow>
                     Inr \<lparr>ca_stream = s, ca_buffer = NewBuffer, ca_shadow = shadow, ca_columns = columns,
                          ca_opts = opts, ca_gate = True,
                          ca_status = \<lparr>su_Delivered = st_delivered s, su_Confirmed = st_confirmed s, su_WALEnd = 0,
                            su_Buffered = 0, su_Deferred = 0, su_Held = 0, su_Invisible = 0, su_Applied = 0,
                            su_Discarded = 0, su_Fallbacks = 0, su_BatchesDeferred = 0, su_FlushesHeld = False\<rparr>,
                          ca_ran = False\<rparr>))"

definition catchupStart :: "Catchup \<Rightarrow> catchup_error + Catchup" where
  "catchupStart c = (if ca_ran c then Inl ErrCatchupAlreadyRun else Inr (c\<lparr>ca_ran := True\<rparr>))"

section \<open>The flush gate\<close>

definition tryFlushes :: "Catchup \<Rightarrow> bool \<times> Catchup" where
  "tryFlushes c = (if ca_gate c then (True, c\<lparr>ca_gate := False\<rparr>) else (False, c))"

definition releaseFlushes :: "Catchup \<Rightarrow> Catchup" where
  "releaseFlushes c = c\<lparr>ca_gate := True\<rparr>"

definition markFlushesHeld :: "bool \<Rightarrow> Catchup \<Rightarrow> Catchup" where
  "markFlushesHeld held c = c\<lparr>ca_status := (ca_status c)\<lparr>su_FlushesHeld := held\<rparr>\<rparr>"

text \<open>Pause takes a free gate; \<open>None\<close> is a wait for the gate, which a caller's ended context refuses.\<close>

definition Pause :: "Catchup \<Rightarrow> Catchup option" where
  "Pause c = (if ca_gate c then Some (markFlushesHeld True (c\<lparr>ca_gate := False\<rparr>)) else None)"

definition resume :: "Catchup \<Rightarrow> Catchup" where
  "resume c = releaseFlushes (markFlushesHeld False c)"

section \<open>One cycle\<close>

datatype gather_in = DeadlinePassed | NextReads "received list"

text \<open>\<open>None\<close> when the inputs end while the loop still waits on the stream.\<close>

fun gather :: "parsers \<Rightarrow> int64 \<Rightarrow> gather_in list \<Rightarrow> Stream \<times> Buffer \<Rightarrow>
    (catchup_error option \<times> Stream \<times> Buffer) option" where
  "gather P left [] (s, b) = (if left \<le> 0 then Some (None, s, b) else None)"
| "gather P left (DeadlinePassed # ins) (s, b) = Some (None, s, b)"
| "gather P left (NextReads rs # ins) (s, b) =
     (if left \<le> 0 then Some (None, s, b)
      else case Stream_Next P rs s of
        None \<Rightarrow> None
      | Some (Inl e, s') \<Rightarrow> Some (Some (CaStream e), s', b)
      | Some (Inr delivery, s') \<Rightarrow>
          (case del_Change delivery of
             None \<Rightarrow> gather P left ins (s', b)
           | Some ev \<Rightarrow>
               (case Add ev b of
                  Inl e \<Rightarrow> Some (Some (CaApplier e), s', b)
                | Inr b' \<Rightarrow> gather P (left - 1) ins (s', b'))))"

record cycle_in =
  ci_gather :: "gather_in list"
  ci_snapshot :: "applier_error + Snapshot"
  ci_position :: Position
  ci_order :: "int64 list"
  ci_db :: flush_db
  ci_env :: flush_env
  ci_confirmBroken :: bool
  ci_walEnd :: "catchup_error + LSN"
  ci_slot :: "slot_error + slot_row option"

definition cycleSnapshot :: "cycle_in \<Rightarrow> Buffer \<Rightarrow> applier_error + Snapshot" where
  "cycleSnapshot ins b = (if dom (buf_entries b) = {} then Inr zeroSnapshot else ci_snapshot ins)"

definition copyLanded :: "Position \<Rightarrow> bool" where
  "copyLanded pos = (Complete (pos_cut pos) \<and> pos_inFlight pos = [])"

record cycleOutcome =
  oc_batch :: Batch
  oc_result :: Result
  oc_deferred :: bool
  oc_paused :: bool

definition noOutcome :: cycleOutcome where
  "noOutcome = \<lparr>oc_batch = emptyBatch, oc_result = emptyResult, oc_deferred = False, oc_paused = False\<rparr>"

text \<open>What follows the flush: refused batches are put back, held images buffered again.\<close>

definition afterFlush :: "Position \<Rightarrow> Batch \<Rightarrow> applier_error + Result \<Rightarrow> Buffer \<Rightarrow> (catchup_error + cycleOutcome) \<times> Buffer" where
  "afterFlush pos batch answer b =
     (case answer of
        Inl err \<Rightarrow>
          if err = ErrBatchDeferred \<and> copyLanded pos then (Inl (CaApplier err), b)
          else if err = ErrBatchDeferred
          then case Requeue (ba_Entries batch) b of
                 Inl e \<Rightarrow> (Inl (CaApplier e), b)
               | Inr b' \<Rightarrow> (Inr (noOutcome\<lparr>oc_batch := batch, oc_deferred := True\<rparr>), b')
          else (Inl (CaApplier err), b)
      | Inr result \<Rightarrow>
          (case Hold (res_Held result) b of
             Inl e \<Rightarrow> (Inl (CaApplier e), b)
           | Inr b' \<Rightarrow> (Inr (noOutcome\<lparr>oc_batch := batch, oc_result := result\<rparr>), b')))"

definition catchupApply :: "cycle_in \<Rightarrow> Catchup \<Rightarrow> (catchup_error + cycleOutcome) \<times> Catchup" where
  "catchupApply ins c0 =
     (case tryFlushes c0 of
        (False, c) \<Rightarrow> (Inr (noOutcome\<lparr>oc_paused := True\<rparr>), c)
      | (True, c) \<Rightarrow>
          (case cycleSnapshot ins (ca_buffer c) of
             Inl e \<Rightarrow> (Inl (CaApplier e), releaseFlushes c)
           | Inr snap \<Rightarrow>
               (case Drain (ci_order ins) (ci_position ins) snap (ca_buffer c) of (batch, b) \<Rightarrow>
                  (case Flush (ci_db ins) (ca_columns c) (ci_env ins) batch (ca_shadow c) of (answer, T) \<Rightarrow>
                     (case afterFlush (ci_position ins) batch answer b of (outcome, b') \<Rightarrow>
                        (outcome, releaseFlushes (c\<lparr>ca_buffer := b', ca_shadow := T\<rparr>)))))))"

definition confirmBound :: "LSN \<Rightarrow> LSN option \<Rightarrow> LSN" where
  "confirmBound delivered oldestPending =
     (case oldestPending of Some l \<Rightarrow> if l < delivered then l else delivered | None \<Rightarrow> delivered)"

definition catchupConfirm :: "bool \<Rightarrow> Catchup \<Rightarrow> catchup_error option \<times> Catchup" where
  "catchupConfirm broken c =
     (let bound = confirmBound (st_delivered (ca_stream c)) (OldestPending (ca_buffer c)) in
      if bound \<le> st_confirmed (ca_stream c) then (None, c)
      else case Confirm broken bound (ca_stream c) of
        (Inl e, s) \<Rightarrow> (Some (CaStream e), c\<lparr>ca_stream := s\<rparr>)
      | (Inr _, s) \<Rightarrow> (None, c\<lparr>ca_stream := s\<rparr>))"

definition record_cycle :: "cycleOutcome \<Rightarrow> LSN \<Rightarrow> Catchup \<Rightarrow> Catchup" where
  "record_cycle outcome walEnd c =
     (let st = ca_status c; batch = oc_batch outcome; result = oc_result outcome;
          st = (if oc_paused outcome then st
                else if oc_deferred outcome
                then st\<lparr>su_Discarded := su_Discarded st + ba_Discarded batch,
                        su_Deferred := ba_Deferred batch + length (ba_Entries batch),
                        su_Invisible := ba_Invisible batch, su_BatchesDeferred := su_BatchesDeferred st + 1\<rparr>
                else st\<lparr>su_Discarded := su_Discarded st + ba_Discarded batch,
                        su_Deferred := ba_Deferred batch, su_Invisible := ba_Invisible batch,
                        su_Applied := su_Applied st + (res_Images result + res_Deletes result),
                        su_Fallbacks := su_Fallbacks st + (if res_Fallback result then 1 else 0)\<rparr>);
          st = st\<lparr>su_Buffered := card (dom (buf_entries (ca_buffer c))), su_Held := card (dom (buf_pending (ca_buffer c))),
                  su_Delivered := st_delivered (ca_stream c), su_Confirmed := st_confirmed (ca_stream c), su_WALEnd := walEnd\<rparr>
      in c\<lparr>ca_status := st\<rparr>)"

definition checkSlot :: "string \<Rightarrow> int64 \<Rightarrow> slot_error + slot_row option \<Rightarrow> catchup_error option" where
  "checkSlot name ceil answer =
     (case InspectSlot name answer of
        Inl e \<Rightarrow> Some (CaSlot e)
      | Inr None \<Rightarrow> Some (CaSlot (SlotLostError name False '''' \<lparr>si_Reason = '''', si_Reported = False\<rparr>))
      | Inr (Some s) \<Rightarrow> map_option CaSlot (WithinLagCeiling ceil s))"

definition cycle :: "parsers \<Rightarrow> string \<Rightarrow> cycle_in \<Rightarrow> Catchup \<Rightarrow> (catchup_error option \<times> Catchup) option" where
  "cycle P slot ins c =
     (case gather P (co_MaxChanges (ca_opts c)) (ci_gather ins) (ca_stream c, ca_buffer c) of
        None \<Rightarrow> None
      | Some (Some e, s, b) \<Rightarrow> Some (Some e, c\<lparr>ca_stream := s, ca_buffer := b\<rparr>)
      | Some (None, s, b) \<Rightarrow>
          (let c1 = c\<lparr>ca_stream := s, ca_buffer := Release (st_delivered s) b\<rparr> in
           case catchupApply ins c1 of
             (Inl e, c2) \<Rightarrow> Some (Some e, c2)
           | (Inr outcome, c2) \<Rightarrow>
               (case catchupConfirm (ci_confirmBroken ins) c2 of
                  (Some e, c3) \<Rightarrow> Some (Some e, c3)
                | (None, c3) \<Rightarrow>
                    (case ci_walEnd ins of
                       Inl e \<Rightarrow> Some (Some e, c3)
                     | Inr walEnd \<Rightarrow>
                         Some (checkSlot slot (co_SlotLagCeiling (ca_opts c3)) (ci_slot ins),
                           record_cycle outcome walEnd c3)))))"

section \<open>What the loop relies on\<close>

text \<open>
  The contract of a source of deliveries: reading moves the delivered position
  forward only, leaves the confirmed one alone, and a change carries the
  position the source had delivered when it was read.
\<close>

fun pulls :: "('i \<Rightarrow> 's \<Rightarrow> (ChangeEvent option \<times> 's) option) \<Rightarrow> 'i list \<Rightarrow> 's \<Rightarrow> (ChangeEvent list \<times> 's) option" where
  "pulls nxt [] s = Some ([], s)"
| "pulls nxt (i # is) s =
     (case nxt i s of
        None \<Rightarrow> None
      | Some (d, s') \<Rightarrow>
          (case pulls nxt is s' of
             None \<Rightarrow> None
           | Some (evs, s'') \<Rightarrow> Some (case d of None \<Rightarrow> evs | Some ev \<Rightarrow> ev # evs, s'')))"

locale delivery_source =
  fixes nxt :: "'i \<Rightarrow> 's \<Rightarrow> (ChangeEvent option \<times> 's) option"
    and delivered :: "'s \<Rightarrow> LSN" and confirmed :: "'s \<Rightarrow> LSN"
  assumes next_confirmed: "nxt i s = Some (d, s') \<Longrightarrow> confirmed s' = confirmed s"
    and next_delivered: "nxt i s = Some (d, s') \<Longrightarrow> delivered s \<le> delivered s'"
    and next_change: "nxt i s = Some (Some ev, s') \<Longrightarrow> ev_Delivered ev = delivered s'"
begin

lemma pulls_span:
  "pulls nxt is s = Some (evs, s') \<Longrightarrow>
     confirmed s' = confirmed s \<and> delivered s \<le> delivered s' \<and> sorted (map ev_Delivered evs) \<and>
     (\<forall>ev \<in> set evs. delivered s \<le> ev_Delivered ev \<and> ev_Delivered ev \<le> delivered s')"
proof (induction "is" arbitrary: s evs)
  case (Cons i "is")
  then obtain d s1 es where n: "nxt i s = Some (d, s1)" "pulls nxt is s1 = Some (es, s')"
    "evs = (case d of None \<Rightarrow> es | Some ev \<Rightarrow> ev # es)"
    by (auto split: option.splits prod.splits)
  note IH = Cons.IH [OF n(2)]
  show ?case
  proof (cases d)
    case None
    then show ?thesis using IH n next_confirmed [OF n(1)] next_delivered [OF n(1)] by fastforce
  next
    case (Some ev)
    then have "ev_Delivered ev = delivered s1" using next_change n(1) by blast
    then show ?thesis using Some IH n next_confirmed [OF n(1)] next_delivered [OF n(1)] by fastforce
  qed
qed simp

end

text \<open>The stream keeps the contract.\<close>

definition stream_pull :: "parsers \<Rightarrow> received list \<Rightarrow> Stream \<Rightarrow> (ChangeEvent option \<times> Stream) option" where
  "stream_pull P rs s = (case Stream_Next P rs s of Some (Inr d, s') \<Rightarrow> Some (del_Change d, s') | _ \<Rightarrow> None)"

definition reads_on :: "Stream \<Rightarrow> Stream \<Rightarrow> bool" where
  "reads_on s s' \<longleftrightarrow> st_confirmed s' = st_confirmed s \<and> st_delivered s \<le> st_delivered s'"

lemma reads_on_refl [simp]: "reads_on s s" by (simp add: reads_on_def)

lemma reads_on_trans: "reads_on s t \<Longrightarrow> reads_on t u \<Longrightarrow> reads_on s u" by (auto simp: reads_on_def)

lemma reads_on_fail [simp]: "reads_on s (fail e s)" by (simp add: reads_on_def fail_def)

lemma sendStatus_reads_on: "sendStatus b l s = (r, s') \<Longrightarrow> reads_on s s'"
  by (auto simp: sendStatus_def reads_on_def split: if_splits)

definition stamped :: "decode_error + Delivery option \<Rightarrow> Stream \<Rightarrow> bool" where
  "stamped r s \<longleftrightarrow> (\<forall>d ev. r = Inr (Some d) \<and> del_Change d = Some ev \<longrightarrow> ev_Delivered ev = st_delivered s)"

lemma handleKeepalive_reads_on:
  assumes "handleKeepalive b w q s = (r, s')"
  shows "reads_on s s' \<and> stamped r s'"
proof -
  define s2 where "s2 = (if \<not> st_inTransaction s then raiseDelivered w (s\<lparr>st_serverWALEnd := w\<rparr>)
    else s\<lparr>st_serverWALEnd := w\<rparr>)"
  have "reads_on s s2" by (auto simp: s2_def reads_on_def raiseDelivered_def)
  then show ?thesis using assms
    by (auto simp: handleKeepalive_def s2_def Let_def stamped_def progress_def
        split: if_splits prod.splits sum.splits dest: sendStatus_reads_on intro: reads_on_trans)
qed

lemma handleWALData_reads_on: "handleWALData w m s = (r, s') \<Longrightarrow> reads_on s s' \<and> stamped r s'"
  by (auto simp: handleWALData_def recordRelation_def deliverChange_def Let_def reads_on_def stamped_def progress_def
      raiseDelivered_def split: option.splits wal_message.splits if_splits sum.splits)

lemma handleMessage_reads_on: "handleMessage P b msg s = (r, s') \<Longrightarrow> reads_on s s' \<and> stamped r s'"
  by (auto simp: handleMessage_def handleCopyData_def handleNotice_def
      dest: handleKeepalive_reads_on handleWALData_reads_on
      split: backend_message.splits list.splits if_splits option.splits)
    (simp_all add: stamped_def)

lemma nextLoop_reads_on:
  "nextLoop P rs s = Some (r, s') \<Longrightarrow> reads_on s s' \<and> (\<forall>d. r = Inr d \<longrightarrow> stamped (Inr (Some d)) s')"
proof (induction P rs s rule: nextLoop.induct)
  case (3 P b rs s)
  then show ?case
    by (auto simp: stamped_def progress_def split: prod.splits sum.splits dest!: sendStatus_reads_on
        intro: reads_on_trans)
next
  case (4 P msg b rs s)
  obtain r1 s1 where h: "handleMessage P b msg s = (r1, s1)" by fastforce
  then show ?case using 4 handleMessage_reads_on [OF h]
    by (auto split: prod.splits sum.splits option.splits intro: reads_on_trans)
qed auto

lemma Stream_Next_reads_on:
  "Stream_Next P rs s = Some (r, s') \<Longrightarrow> reads_on s s' \<and> (\<forall>d. r = Inr d \<longrightarrow> stamped (Inr (Some d)) s')"
  by (auto simp: Stream_Next_def split: option.splits dest: nextLoop_reads_on)

interpretation stream_source: delivery_source "stream_pull P" st_delivered st_confirmed for P
  by unfold_locales
    (auto simp: stream_pull_def reads_on_def stamped_def dest!: Stream_Next_reads_on split: option.splits sum.splits prod.splits)

section \<open>The loop's invariant\<close>

definition pending_above :: "LSN \<Rightarrow> Buffer \<Rightarrow> bool" where
  "pending_above l b \<longleftrightarrow> (\<forall>k e. buf_entries b k = Some e \<longrightarrow> l \<le> en_FirstLSN e)"

definition catchup_inv :: "Catchup \<Rightarrow> bool" where
  "catchup_inv c \<longleftrightarrow> buffer_inv (ca_buffer c) \<and> stream_inv (ca_stream c) \<and>
     pending_above (st_confirmed (ca_stream c)) (ca_buffer c)"

lemma pending_above_put: "pending_above l b \<Longrightarrow> l \<le> en_FirstLSN e \<Longrightarrow> pending_above l (put e b)"
  by (simp add: pending_above_def)

lemma pending_above_mark: "pending_above l b \<Longrightarrow> pending_above l (markOldKeyReused key mover b)"
  by (auto simp: pending_above_def markOldKeyReused_def Let_def split: if_splits)

lemma firstLSN_ge: "l \<le> lsn \<Longrightarrow> (\<forall>e. Some e \<in> set es \<longrightarrow> l \<le> en_FirstLSN e) \<Longrightarrow> l \<le> firstLSN lsn es"
  by (induction es arbitrary: lsn) (auto split: option.splits)

lemma firstLSN_above:
  assumes "pending_above l b" "l \<le> lsn" "\<forall>x \<in> set es. \<exists>k. x = buf_entries b k"
  shows "l \<le> firstLSN lsn es"
  using assms by (intro firstLSN_ge) (fastforce simp: pending_above_def)+

lemma Add_above:
  assumes "pending_above l b" "l \<le> ev_Delivered ev" "Add ev b = Inr b'"
  shows "pending_above l b'"
proof -
  have ins: "pending_above l b'" if "addInsert ev b = Inr b'"
  proof -
    have "b' = put (newEntry (ev_Key ev) Image (ev_Columns ev)
        (firstLSN (ev_Delivered ev) [buf_entries b (ev_Key ev)]) (ev_Xid ev)) (markOldKeyReused (ev_Key ev) None b)"
      using that unfolding addInsert_def Let_def by (simp split: if_split_asm)
    moreover have "l \<le> firstLSN (ev_Delivered ev) [buf_entries b (ev_Key ev)]"
      by (rule firstLSN_above [OF assms(1,2)]) auto
    ultimately show ?thesis
      by (auto intro!: pending_above_put pending_above_mark assms(1) simp del: firstLSN.simps)
  qed
  have upd: "pending_above l b'" if "addUpdate ev b = Inr b'"
    using that assms(1,2) unfolding addUpdate_def
    by (auto intro: pending_above_put pending_above_mark split: option.splits if_splits) (auto simp: pending_above_def)
  have "l \<le> firstLSN (ev_Delivered ev) [buf_entries b (ev_Key ev)]"
    by (rule firstLSN_above [OF assms(1,2)]) auto
  then have del: "pending_above l (addDelete ev b)"
    unfolding addDelete_def by (auto intro!: pending_above_put assms(1) simp del: firstLSN.simps)
  have mov: "pending_above l b'" if mv: "addKeyMove old ev b = Inr b'" for old
  proof -
    obtain moved d where b': "b' = put d (put moved (markOldKeyReused (ev_Key ev) (map_option (\<lambda>_. old) (buf_entries b old)) b))"
      and m: "en_FirstLSN moved = firstLSN (ev_Delivered ev) [buf_entries b (ev_Key ev), buf_entries b old]"
      and d: "en_FirstLSN d = firstLSN (ev_Delivered ev) [buf_entries b old]"
      using addKeyMove_shape [OF mv] by (metis newEntry_sel)
    have "l \<le> firstLSN (ev_Delivered ev) [buf_entries b (ev_Key ev), buf_entries b old]"
      "l \<le> firstLSN (ev_Delivered ev) [buf_entries b old]"
      by (rule firstLSN_above [OF assms(1,2)]; auto)+
    then show ?thesis unfolding b'
      by (auto intro!: pending_above_put pending_above_mark assms(1) simp: m d simp del: firstLSN.simps)
  qed
  show ?thesis using assms(3) ins upd del mov unfolding Add_def
    by (auto split: ChangeKind.splits option.splits if_splits)
qed

lemma AddAll_above:
  "AddAll evs b = Inr b' \<Longrightarrow> pending_above l b \<Longrightarrow> \<forall>ev \<in> set evs. l \<le> ev_Delivered ev \<Longrightarrow> pending_above l b'"
  by (induction evs arbitrary: b) (auto split: sum.splits dest: Add_above)

text \<open>What gathering did: read some deliveries and merge their changes, in order, and no other.\<close>

lemma gather_pulls:
  assumes "gather P left ins (s, b) = Some (r, s', b')"
  shows "\<exists>rss evs s1. pulls (stream_pull P) rss s = Some (evs, s1) \<and> AddAll evs b = Inr b' \<and> reads_on s1 s' \<and>
    (r = None \<longrightarrow> s1 = s') \<and> (stream_inv s \<longrightarrow> stream_inv s') \<and> length evs \<le> nat left"
  using assms
proof (induction P left ins "(s, b)" arbitrary: s b rule: gather.induct)
  case (1 P left s b)
  then show ?case by (intro exI [of _ "[]"] exI [of _ s]) (auto split: if_splits)
next
  case (2 P left ins s b)
  then show ?case by (intro exI [of _ "[]"] exI [of _ s]) auto
next
  case (3 P left rs ins s b)
  show ?case
  proof (cases "left \<le> 0")
    case True
    then show ?thesis using "3.prems" by (intro exI [of _ "[]"] exI [of _ s]) auto
  next
    case False
    then obtain a s1 where n: "Stream_Next P rs s = Some (a, s1)" using "3.prems" by (auto split: option.splits)
    have s1: "stream_inv s \<longrightarrow> stream_inv s1" "reads_on s s1"
      using Stream_Next_inv [OF n] Stream_Next_reads_on [OF n] by auto
    have stop: ?thesis if "r \<noteq> None" "s' = s1" "b' = b"
      using that s1 by (intro exI [of _ "[]"] exI [of _ s]) auto
    show ?thesis
    proof (cases a)
      case (Inl e)
      then show ?thesis using "3.prems" n False by (intro stop) auto
    next
      case a: (Inr d)
      have pull: "stream_pull P rs s = Some (del_Change d, s1)" using n a by (simp add: stream_pull_def)
      show ?thesis
      proof (cases "del_Change d")
        case None
        then have "gather P left ins (s1, b) = Some (r, s', b')" using "3.prems" n False a by simp
        from "3.hyps"(1) [OF False n refl a None this]
        obtain rss evs s2 where "pulls (stream_pull P) rss s1 = Some (evs, s2)" "AddAll evs b = Inr b'" "reads_on s2 s'"
          "r = None \<longrightarrow> s2 = s'" "stream_inv s1 \<longrightarrow> stream_inv s'" "length evs \<le> nat left" by blast
        then show ?thesis using pull None s1(1) by (intro exI [of _ "rs # rss"] exI [of _ evs] exI [of _ s2]) simp
      next
        case (Some ev)
        show ?thesis
        proof (cases "Add ev b")
          case (Inl e)
          then show ?thesis using "3.prems" n False a Some by (intro stop) auto
        next
          case (Inr b1)
          then have "gather P (left - 1) ins (s1, b1) = Some (r, s', b')" using "3.prems" n False a Some by simp
          from "3.hyps"(2) [OF False n refl a Some Inr this]
          obtain rss evs s2 where "pulls (stream_pull P) rss s1 = Some (evs, s2)" "AddAll evs b1 = Inr b'" "reads_on s2 s'"
            "r = None \<longrightarrow> s2 = s'" "stream_inv s1 \<longrightarrow> stream_inv s'" "length evs \<le> nat (left - 1)" by blast
          then show ?thesis using pull Some Inr s1(1) False
            by (intro exI [of _ "rs # rss"] exI [of _ "ev # evs"] exI [of _ s2]) auto
        qed
      qed
    qed
  qed
qed

lemma gather_keeps:
  assumes "gather P left ins (s, b) = Some (r, s', b')" "buffer_inv b" "stream_inv s" "pending_above (st_confirmed s) b"
  shows "buffer_inv b' \<and> stream_inv s' \<and> pending_above (st_confirmed s) b' \<and> st_confirmed s' = st_confirmed s"
proof -
  obtain rss evs s1 where g: "pulls (stream_pull P) rss s = Some (evs, s1)" "AddAll evs b = Inr b'" "reads_on s1 s'" "stream_inv s'"
    using gather_pulls [OF assms(1)] assms(3) by blast
  have "\<forall>ev \<in> set evs. st_confirmed s \<le> ev_Delivered ev" "st_confirmed s' = st_confirmed s"
    using stream_source.pulls_span [OF g(1)] assms(3) g(3) unfolding stream_inv_def reads_on_def
    by (auto intro: order_trans)
  then show ?thesis using AddAll_inv [OF assms(2) g(2)] AddAll_above [OF g(2) assms(4)] g(4) by blast
qed

section \<open>What the flush hands back\<close>

definition batch_ok :: "Batch \<Rightarrow> bool" where
  "batch_ok batch \<longleftrightarrow> distinct (map en_Key (ba_Entries batch)) \<and> (\<forall>e \<in> set (ba_Entries batch). entry_ok (en_Key e) e)"

lemma Flush_held:
  assumes "Flush db columns env batch T = (Inr result, T')" "batch_ok batch"
  shows "distinct (map (en_Key \<circ> hi_Entry) (res_Held result))"
    "\<forall>h \<in> set (res_Held result). \<exists>e \<in> set (ba_Entries batch). same_core e (hi_Entry h) \<and> en_Kind e = Image"
    "\<forall>e \<in> set (ba_Entries batch). (\<exists>h \<in> set (res_Held result). en_Key (hi_Entry h) = en_Key e) \<or>
       e \<in> set (toWrite db columns T batch) \<or> deleteInstead e \<in> set (toWrite db columns T batch)"
proof -
  let ?es = "ba_Entries batch"
  have d: "distinct (map en_Key ?es)" using assms(2) by (simp add: batch_ok_def)
  have "distinct (map (en_Key \<circ> hi_Entry) (res_Held result)) \<and>
    (\<forall>h \<in> set (res_Held result). \<exists>e \<in> set ?es. same_core e (hi_Entry h) \<and> en_Kind e = Image) \<and>
    (\<forall>e \<in> set ?es. (\<exists>h \<in> set (res_Held result). en_Key (hi_Entry h) = en_Key e) \<or>
       e \<in> set (toWrite db columns T batch) \<or> deleteInstead e \<in> set (toWrite db columns T batch))"
  proof (cases "?es = []")
    case True
    then show ?thesis using assms(1) by (auto simp: Flush_def emptyResult_def)
  next
    case False
    then have f: "flushApply db columns batch T = Inr (T', result)" using Flush_applied [OF assms(1)] by blast
    let ?n = "filter (\<lambda>e. named e \<and> completeOne db columns T e \<noteq> None) ?es" and ?a = "filter (absent columns T) ?es"
    note h = flushApply_held(1,2) [OF d f]
    have keys: "map (en_Key \<circ> hi_Entry) (res_Held result) = map en_Key ?n @ map en_Key ?a"
      unfolding map_map [symmetric] h(2) by (simp add: comp_def)
    have "distinct (map en_Key ?n @ map en_Key ?a)"
      using d by (auto simp: distinct_map_filter absent_def distinct_map inj_on_def)
    moreover have "\<exists>e \<in> set ?es. same_core e x \<and> en_Kind e = Image" if "x \<in> set (map hi_Entry (res_Held result))" for x
      using that unfolding h(2) by (auto simp: same_core_def named_def absent_def checksShadowRow_def split: if_splits)
    moreover have "(\<exists>h \<in> set (res_Held result). en_Key (hi_Entry h) = en_Key e) \<or>
       e \<in> set (toWrite db columns T batch) \<or> deleteInstead e \<in> set (toWrite db columns T batch)" if e: "e \<in> set ?es" for e
    proof (cases "absent columns T e \<or> named e \<and> completeOne db columns T e \<noteq> None")
      case True
      then have "en_Key e \<in> set (map (en_Key \<circ> hi_Entry) (res_Held result))" using e unfolding keys by auto
      then show ?thesis by auto
    next
      case False
      then have "written db columns T e = [e] \<or> written db columns T e = [deleteInstead e]"
        by (auto simp: written_def afterMoved_def)
      then show ?thesis using e unfolding h(1) by force
    qed
    ultimately show ?thesis unfolding keys by auto
  qed
  then show "distinct (map (en_Key \<circ> hi_Entry) (res_Held result))"
    "\<forall>h \<in> set (res_Held result). \<exists>e \<in> set (ba_Entries batch). same_core e (hi_Entry h) \<and> en_Kind e = Image"
    "\<forall>e \<in> set (ba_Entries batch). (\<exists>h \<in> set (res_Held result). en_Key (hi_Entry h) = en_Key e) \<or>
       e \<in> set (toWrite db columns T batch) \<or> deleteInstead e \<in> set (toWrite db columns T batch)" by blast+
qed

lemma Drain_batch_ok:
  assumes "buffer_inv b" "enumerates order b" "Drain order pos snap b = (batch, b')"
  shows "batch_ok batch" "\<forall>e \<in> set (ba_Entries batch). buf_entries b (en_Key e) = Some e \<and> buf_entries b' (en_Key e) = None"
proof -
  let ?F = "flushedKeys pos snap b"
  have fin: "finite ?F" using assms(1) by (auto simp: buffer_inv_def flushedKeys_def dom_def elim: rev_finite_subset)
  have sel: "buf_entries b k = Some (the (buf_entries b k)) \<and> entry_ok k (the (buf_entries b k)) \<and> kept pos snap b k = None"
    if "k \<in> ?F" for k
    using that buffer_invD [OF assms(1), of k] by (auto simp: flushedKeys_def kept_def drained_def)
  have key: "en_Key (the (buf_entries b k)) = k" if "k \<in> ?F" for k using sel [OF that] by (simp add: entry_ok_def)
  have es: "set (ba_Entries batch) = (\<lambda>k. the (buf_entries b k)) ` ?F"
    using fin by (simp add: batch_entries [OF assms])
  have "map en_Key (ba_Entries batch) = sorted_list_of_set ?F"
    unfolding batch_entries [OF assms] map_map using fin key by (intro map_idI) simp
  then show "batch_ok batch" using sel key es by (auto simp: batch_ok_def)
  show "\<forall>e \<in> set (ba_Entries batch). buf_entries b (en_Key e) = Some e \<and> buf_entries b' (en_Key e) = None"
    using sel key es by (auto simp: Drain_outcome(1) [OF assms])
qed

lemma find_SomeD: "List.find P xs = Some x \<Longrightarrow> x \<in> set xs \<and> P x"
  by (induction xs) (auto split: if_splits)

lemma find_by_key: "distinct (map f xs) \<Longrightarrow> x \<in> set xs \<Longrightarrow> List.find (\<lambda>y. f y = f x) xs = Some x"
  by (induction xs) (auto simp: image_iff)

lemma fold_hold_entries:
  "distinct (map (en_Key \<circ> hi_Entry) hs) \<Longrightarrow> buf_entries (fold holdOne hs b) k =
     (case List.find (\<lambda>h. en_Key (hi_Entry h) = k) hs of Some h \<Rightarrow> Some (hi_Entry h) | None \<Rightarrow> buf_entries b k)"
proof (induction hs arbitrary: b)
  case (Cons h hs)
  have "List.find (\<lambda>x. en_Key (hi_Entry x) = k) hs = None" if "k = en_Key (hi_Entry h)"
    using Cons.prems that by (auto simp: find_None_iff image_iff)
  then show ?case using Cons by (auto simp: holdOne_def Let_def split: option.splits)
qed simp

text \<open>
  An entry is accounted for when it is still buffered with its position, when
  the copier has still to cut its key, or when the shadow holds its effect.
\<close>

definition accounted :: "Position \<Rightarrow> flush_db \<Rightarrow> string list \<Rightarrow> source \<times> source \<Rightarrow> Buffer \<Rightarrow> int64 \<Rightarrow> Entry \<Rightarrow> bool" where
  "accounted pos db columns TT b' k e \<longleftrightarrow>
     (\<exists>e'. buf_entries b' k = Some e' \<and> en_FirstLSN e' = en_FirstLSN e) \<or> Classify pos k = KeyUncut \<or>
     (\<exists>W. distinct (map en_Key W) \<and> snd TT = flushed db columns W (fst TT) \<and> (e \<in> set W \<or> deleteInstead e \<in> set W))"

definition no_earlier :: "Buffer \<Rightarrow> Buffer \<Rightarrow> bool" where
  "no_earlier b b' \<longleftrightarrow> (\<forall>k e'. buf_entries b' k = Some e' \<longrightarrow> (\<exists>e. buf_entries b k = Some e \<and> en_FirstLSN e = en_FirstLSN e'))"

lemma Hold_drained:
  assumes inv: "buffer_inv b" "enumerates order b" "Drain order pos snap b = (batch, b1)"
    and fl: "Flush db columns env batch T = (Inr result, T')"
  shows "\<exists>b'. Hold (res_Held result) b1 = Inr b' \<and> buffer_inv b' \<and> no_earlier b b' \<and>
    (\<forall>k e'. buf_entries b1 k = Some e' \<longrightarrow> buf_entries b' k = Some e') \<and>
    (\<forall>h \<in> set (res_Held result). buf_entries b' (en_Key (hi_Entry h)) = Some (hi_Entry h))"
proof -
  let ?hs = "res_Held result"
  note dr = Drain_batch_ok [OF inv] and held = Flush_held [OF fl Drain_batch_ok(1) [OF inv]]
  have free: "buf_entries b1 (en_Key (hi_Entry h)) = None" if "h \<in> set ?hs" for h
    using that held(2) dr(2) unfolding same_core_def by metis
  then have h: "Hold ?hs b1 = Inr (fold holdOne ?hs b1)" by (auto simp: Hold_def)
  have ok: "\<forall>h \<in> set ?hs. entry_ok (en_Key (hi_Entry h)) (hi_Entry h) \<and> en_Kind (hi_Entry h) = Image"
    using held(2) by (auto simp: same_core_def entry_ok_def)
  note ent = fold_hold_entries [OF held(1), of b1]
  have at: "List.find (\<lambda>x. en_Key (hi_Entry x) = en_Key (hi_Entry h)) ?hs = Some h" if "h \<in> set ?hs" for h
    using find_by_key [OF held(1) that] by simp
  have "no_earlier b (fold holdOne ?hs b1)"
    unfolding no_earlier_def
  proof (intro allI impI)
    fix k e' assume e': "buf_entries (fold holdOne ?hs b1) k = Some e'"
    show "\<exists>e. buf_entries b k = Some e \<and> en_FirstLSN e = en_FirstLSN e'"
    proof (cases "List.find (\<lambda>x. en_Key (hi_Entry x) = k) ?hs")
      case None
      then show ?thesis using e' ent [of k] by (auto simp: Drain_outcome(1) [OF inv] kept_def split: if_splits)
    next
      case (Some h)
      from find_SomeD [OF this] have "h \<in> set ?hs" "en_Key (hi_Entry h) = k" "e' = hi_Entry h" using e' ent [of k] Some by auto
      then show ?thesis using held(2) dr(2) unfolding same_core_def by metis
    qed
  qed
  moreover have "buf_entries (fold holdOne ?hs b1) k = Some e'" if "buf_entries b1 k = Some e'" for k e'
  proof -
    have "List.find (\<lambda>x. en_Key (hi_Entry x) = k) ?hs = None" using that free by (force simp: find_None_iff)
    then show ?thesis using that ent [of k] by simp
  qed
  moreover have "buffer_inv (fold holdOne ?hs b1)"
    using Hold_inv [OF kept_inv [OF inv] h held(1) ok] .
  ultimately show ?thesis using h ent at by simp
qed

section \<open>A cycle\<close>

definition flush_of :: "cycle_in \<Rightarrow> Catchup \<Rightarrow> Snapshot \<Rightarrow> (applier_error + Result) \<times> source" where
  "flush_of ins c snap =
     Flush (ci_db ins) (ca_columns c) (ci_env ins) (fst (Drain (ci_order ins) (ci_position ins) snap (ca_buffer c))) (ca_shadow c)"

definition cycle_ready :: "cycle_in \<Rightarrow> Catchup \<Rightarrow> bool" where
  "cycle_ready ins c \<longleftrightarrow> enumerates (ci_order ins) (ca_buffer c) \<and> distinct (ca_columns c) \<and>
     shadow_full (ca_columns c) (ca_shadow c)"

lemma no_earlier_refl [simp]: "no_earlier b b" by (simp add: no_earlier_def)

lemma no_earlier_above: "no_earlier b b' \<Longrightarrow> pending_above l b \<Longrightarrow> pending_above l b'"
  unfolding no_earlier_def pending_above_def by metis

lemma Flush_commits:
  assumes "distinct (map en_Key (ba_Entries batch))" "distinct columns" "shadow_full columns T"
    and "Flush db columns env batch T = (Inr result, T')"
  shows "T' = flushed db columns (toWrite db columns T batch) T"
proof (cases "ba_Entries batch = []")
  case True
  then have "toWrite db columns T batch = []"
    by (simp add: toWrite_def completeMoved_def CompleteFirst_def holdAbsent_def)
  then show ?thesis using True assms(4) by (auto simp: Flush_def flushed_def)
next
  case False
  then have "flushApply db columns batch T = Inr (T', result)"
    using Flush_applied [OF assms(4)] by blast
  then show ?thesis by (rule flushApply_exact [OF _ assms(1-3)])
qed

lemma afterFlush_keeps:
  assumes inv: "buffer_inv b" "enumerates order b" "Drain order pos snap b = (batch, b1)"
    and cols: "distinct columns" "shadow_full columns T"
    and fl: "Flush db columns env batch T = (answer, T')" and af: "afterFlush pos batch answer b1 = (r, b')"
  shows "buffer_inv b' \<and> no_earlier b b' \<and> (\<forall>err. r = Inl err \<longrightarrow> (\<exists>e. answer = Inl e \<and> err = CaApplier e)) \<and>
    (\<forall>out k e. r = Inr out \<and> buf_entries b k = Some e \<longrightarrow> accounted pos db columns (T, T') b' k e)"
proof (cases answer)
  case (Inl err)
  have k: "buffer_inv b1 \<and> no_earlier b b1" using kept_inv [OF inv]
    by (auto simp: no_earlier_def Drain_outcome(1) [OF inv] kept_def split: if_splits)
  obtain b2 where q: "Requeue (ba_Entries batch) b1 = Inr b2" "buffer_inv b2"
    "buf_entries b2 = (\<lambda>k. if drain_fate pos snap b k = FateDiscard then None else buf_entries b k)"
    using requeue_drained [OF inv] by blast
  have "accounted pos db columns (T, T') b2 k e" if "buf_entries b k = Some e" for k e
    using that q(3) by (auto simp: accounted_def drain_fate_def split: if_splits)
  moreover have "no_earlier b b2" using q(3) by (auto simp: no_earlier_def split: if_splits)
  ultimately show ?thesis using af Inl q(1,2) k by (auto simp: afterFlush_def split: if_splits)
next
  case (Inr result)
  obtain b2 where h: "Hold (res_Held result) b1 = Inr b2" "buffer_inv b2" "no_earlier b b2"
    "\<forall>k e'. buf_entries b1 k = Some e' \<longrightarrow> buf_entries b2 k = Some e'"
    "\<forall>h \<in> set (res_Held result). buf_entries b2 (en_Key (hi_Entry h)) = Some (hi_Entry h)"
    using Hold_drained [OF inv] fl Inr by blast
  note ok = Drain_batch_ok [OF inv] and fate = Drain_outcome(1) [OF inv]
  note held = Flush_held [OF fl [unfolded Inr] ok(1)]
  have fl': "T' = flushed db columns (toWrite db columns T batch) T" "distinct (map en_Key (toWrite db columns T batch))"
    using Flush_commits [OF _ cols fl [unfolded Inr]] toWrite_distinct ok(1) by (auto simp: batch_ok_def)
  have "accounted pos db columns (T, T') b2 k e" if e: "buf_entries b k = Some e" for k e
  proof (cases "e \<in> set (ba_Entries batch)")
    case True
    then consider (again) h where "h \<in> set (res_Held result)" "en_Key (hi_Entry h) = en_Key e"
      | (put) "e \<in> set (toWrite db columns T batch) \<or> deleteInstead e \<in> set (toWrite db columns T batch)"
      using held(3) by blast
    then show ?thesis
    proof cases
      case again
      have "en_Key e = k" using e buffer_invD [OF inv(1)] by metis
      then show ?thesis using h(3,5) again e unfolding accounted_def no_earlier_def by (metis option.sel)
    next
      case put
      then show ?thesis using fl' unfolding accounted_def by auto
    qed
  next
    case False
    then have "drain_fate pos snap b k \<noteq> FateFlush" using in_batch [OF inv e] by simp
    then have "Classify pos k = KeyUncut \<or> buf_entries b1 k = Some e"
      using e unfolding fate kept_def drained_def leaves_def by (auto simp: drain_fate_def split: if_splits)
    then show ?thesis using h(4) by (auto simp: accounted_def)
  qed
  then show ?thesis using af Inr h by (auto simp: afterFlush_def)
qed

lemma catchupApply_keeps:
  assumes inv: "buffer_inv (ca_buffer c)" and ready: "cycle_ready ins c" and ap: "catchupApply ins c = (r, c')"
  shows "buffer_inv (ca_buffer c') \<and> no_earlier (ca_buffer c) (ca_buffer c') \<and> ca_stream c' = ca_stream c \<and> ca_opts c' = ca_opts c \<and>
    ca_gate c' = ca_gate c \<and>
    (\<forall>err. r = Inl err \<longrightarrow> (\<exists>e. err = CaApplier e \<and> (ci_snapshot ins = Inl e \<or> (\<exists>snap. fst (flush_of ins c snap) = Inl e)))) \<and>
    (\<forall>out k e. r = Inr out \<and> buf_entries (ca_buffer c) k = Some e \<longrightarrow>
       accounted (ci_position ins) (ci_db ins) (ca_columns c) (ca_shadow c, ca_shadow c') (ca_buffer c') k e)"
proof (cases "ca_gate c")
  case False
  then show ?thesis using ap inv by (auto simp: catchupApply_def tryFlushes_def accounted_def)
next
  case gate: True
  let ?c = "c\<lparr>ca_gate := False\<rparr>"
  show ?thesis
  proof (cases "cycleSnapshot ins (ca_buffer c)")
    case (Inl e)
    then have "ci_snapshot ins = Inl e" by (auto simp: cycleSnapshot_def split: if_splits)
    then show ?thesis using ap inv Inl gate by (auto simp: catchupApply_def tryFlushes_def releaseFlushes_def)
  next
    case (Inr snap)
    obtain batch b1 where dr: "Drain (ci_order ins) (ci_position ins) snap (ca_buffer c) = (batch, b1)" by fastforce
    obtain answer T' where fl: "Flush (ci_db ins) (ca_columns c) (ci_env ins) batch (ca_shadow c) = (answer, T')" by fastforce
    obtain o1 b2 where af: "afterFlush (ci_position ins) batch answer b1 = (o1, b2)" by fastforce
    have c': "r = o1" "c' = releaseFlushes (?c\<lparr>ca_buffer := b2, ca_shadow := T'\<rparr>)"
      using ap gate Inr dr fl af by (auto simp: catchupApply_def tryFlushes_def)
    have en: "enumerates (ci_order ins) (ca_buffer c)" "distinct (ca_columns c)" "shadow_full (ca_columns c) (ca_shadow c)"
      using ready by (auto simp: cycle_ready_def)
    have "fst (flush_of ins c snap) = answer" using dr fl by (simp add: flush_of_def)
    then show ?thesis using afterFlush_keeps [OF inv en(1) dr en(2,3) fl af] gate
      unfolding c' by (auto simp: releaseFlushes_def)
  qed
qed

lemma catchupConfirm_keeps:
  assumes "catchup_inv c" "catchupConfirm broken c = (r, c')"
  shows "catchup_inv c' \<and> ca_buffer c' = ca_buffer c \<and> ca_shadow c' = ca_shadow c \<and>
    st_confirmed (ca_stream c) \<le> st_confirmed (ca_stream c')"
proof -
  let ?s = "ca_stream c" and ?b = "ca_buffer c"
  let ?l = "confirmBound (st_delivered ?s) (OldestPending ?b)"
  have low: "pending_above ?l ?b"
  proof (unfold pending_above_def, intro allI impI)
    fix k e assume "buf_entries ?b k = Some e"
    then have "buf_hasOldest ?b" "buf_oldest ?b \<le> en_FirstLSN e"
      using assms(1) by (auto simp: catchup_inv_def buffer_inv_def oldest_ok_def ran_def)
    then show "?l \<le> en_FirstLSN e" by (auto simp: confirmBound_def OldestPending_def)
  qed
  obtain a s1 where cf: "Confirm broken ?l ?s = (a, s1)" by fastforce
  have s1: "stream_inv s1" using Confirm_inv [OF cf] assms(1) by (simp add: catchup_inv_def)
  have "st_confirmed s1 = st_confirmed ?s \<or> st_confirmed s1 = ?l" "st_confirmed ?s \<le> st_confirmed s1"
    using cf by (auto simp: Confirm_def fail_def sendStatus_def not_less split: option.splits if_splits)
  then have "catchup_inv (c\<lparr>ca_stream := s1\<rparr>)" "st_confirmed ?s \<le> st_confirmed s1"
    using assms(1) s1 low by (auto simp: catchup_inv_def)
  then show ?thesis using assms cf by (auto simp: catchupConfirm_def Let_def split: if_splits sum.splits)
qed

lemma record_cycle_sel [simp]:
  "ca_buffer (record_cycle out w c) = ca_buffer c" "ca_stream (record_cycle out w c) = ca_stream c"
  "ca_shadow (record_cycle out w c) = ca_shadow c"
  by (simp_all add: record_cycle_def Let_def)

lemma Release_sel:
  "dom (buf_entries (Release l b)) = dom (buf_entries b)"
  "no_earlier b (Release l b)"
  by (auto simp: Release_def Let_def no_earlier_def split: if_splits option.splits)

text \<open>The state a cycle applies: what was gathered, with the held images whose read position was passed.\<close>

definition gathered :: "Catchup \<Rightarrow> Stream \<Rightarrow> Buffer \<Rightarrow> Catchup" where
  "gathered c s b = c\<lparr>ca_stream := s, ca_buffer := Release (st_delivered s) b\<rparr>"

lemma cycle_keeps:
  assumes inv: "catchup_inv c"
    and ga: "gather P (co_MaxChanges (ca_opts c)) (ci_gather ins) (ca_stream c, ca_buffer c) = Some (g, s, b)"
    and ready: "cycle_ready ins (gathered c s b)" and cy: "cycle P slot ins c = Some (r, c')"
  shows "catchup_inv c' \<and> st_confirmed (ca_stream c) \<le> st_confirmed (ca_stream c') \<and>
    (st_confirmed (ca_stream c') \<noteq> st_confirmed (ca_stream c) \<longrightarrow>
      (\<forall>k e. buf_entries (ca_buffer (gathered c s b)) k = Some e \<longrightarrow>
        accounted (ci_position ins) (ci_db ins) (ca_columns c) (ca_shadow c, ca_shadow c') (ca_buffer c') k e))"
proof -
  let ?c1 = "gathered c s b"
  have gk: "buffer_inv b" "stream_inv s" "pending_above (st_confirmed s) b" "st_confirmed s = st_confirmed (ca_stream c)"
    using gather_keeps [OF ga] inv by (auto simp: catchup_inv_def)
  have c1: "catchup_inv ?c1"
    using gk Release_inv no_earlier_above [OF Release_sel(2)] by (simp add: catchup_inv_def gathered_def)
  show ?thesis
  proof (cases g)
    case (Some e)
    then show ?thesis using cy ga gk by (auto simp: cycle_def catchup_inv_def)
  next
    case None
    obtain a c2 where ap: "catchupApply ins ?c1 = (a, c2)" by fastforce
    have k2: "buffer_inv (ca_buffer c2)" "no_earlier (ca_buffer ?c1) (ca_buffer c2)" "ca_stream c2 = s"
      "\<And>out k e. a = Inr out \<Longrightarrow> buf_entries (ca_buffer ?c1) k = Some e \<Longrightarrow>
         accounted (ci_position ins) (ci_db ins) (ca_columns c) (ca_shadow c, ca_shadow c2) (ca_buffer c2) k e"
      using catchupApply_keeps [OF _ ready ap] c1 by (auto simp: catchup_inv_def gathered_def)
    then have c2: "catchup_inv c2" using c1 no_earlier_above by (auto simp: catchup_inv_def gathered_def)
    show ?thesis
    proof (cases a)
      case (Inl e)
      then have "c' = c2" using cy ga None ap by (auto simp: cycle_def gathered_def)
      then show ?thesis using c2 k2(3) gk(4) by simp
    next
      case (Inr out)
      obtain q c3 where cf: "catchupConfirm (ci_confirmBroken ins) c2 = (q, c3)" by fastforce
      have "\<exists>w. c' = c3 \<or> c' = record_cycle out w c3"
        using cy ga None ap Inr cf by (auto simp: cycle_def gathered_def split: option.splits sum.splits)
      then show ?thesis using catchupConfirm_keeps [OF c2 cf] k2(3,4) gk(4) Inr by (auto simp: catchup_inv_def)
    qed
  qed
qed

end
