(* ===== verification/Applier_Converge.thy ===== *)
theory Applier_Converge
  imports Applier_Catchup
begin

text \<open>
  What the applier's parts do together. A cycle of the catch-up loop reads
  events from the stream, merges them, drains the buffer and flushes the
  batch; this theory shows that the shadow then holds the converted source
  table with exactly those events applied, that everything delivered is
  confirmed, and that a paused loop writes nothing.
\<close>

section \<open>Images carry every column\<close>

definition entry_on :: "string set \<Rightarrow> Entry \<Rightarrow> bool" where
  "entry_on names e \<longleftrightarrow> (en_Kind e = Image \<longrightarrow> col_name ` set (en_Columns e) = names)"

definition images_on :: "string set \<Rightarrow> Buffer \<Rightarrow> bool" where
  "images_on names b \<longleftrightarrow> (\<forall>k e. buf_entries b k = Some e \<longrightarrow> entry_on names e)"

definition carries :: "string set \<Rightarrow> ChangeEvent \<Rightarrow> bool" where
  "carries names ev \<longleftrightarrow> (ev_Kind ev \<noteq> ChangeDelete \<longrightarrow> col_name ` set (ev_Columns ev) = names)"

lemma images_on_put: "images_on names b \<Longrightarrow> entry_on names e \<Longrightarrow> images_on names (put e b)"
  by (simp add: images_on_def)

lemma entry_on_flag [simp]: "entry_on names (e\<lparr>en_OldKeyReused := x\<rparr>) = entry_on names e"
  by (simp add: entry_on_def)

lemma images_on_mark: "images_on names b \<Longrightarrow> images_on names (markOldKeyReused key mover b)"
  by (auto simp: images_on_def markOldKeyReused_def Let_def split: if_splits)

lemma overlay_names:
  assumes "col_name ` set cols = names" "col_name ` set base = names"
  shows "col_name ` set (fold overlayOne cols base) = names"
  using names_overlay [of cols base] assms by (metis list.set_map subset_refl)

lemma entry_on_new:
  "entry_on names (newEntry k DeleteMarker cols l x)"
  "carries names ev \<Longrightarrow> ev_Kind ev \<noteq> ChangeDelete \<Longrightarrow> entry_on names (newEntry k kind (ev_Columns ev) l x)"
  by (simp_all add: entry_on_def carries_def)

lemma Add_images_on:
  assumes "images_on names b" "carries names ev" "Add ev b = Inr b'" "buffer_inv b"
  shows "images_on names b'"
proof -
  have ins: "images_on names b'" if "addInsert ev b = Inr b'" "ev_Kind ev = ChangeInsert"
    using that assms(1,2) unfolding addInsert_def Let_def
    by (auto intro!: images_on_put images_on_mark entry_on_new split: if_splits)
  have upd: "images_on names b'" if up: "addUpdate ev b = Inr b'" "ev_Kind ev = ChangeUpdate"
  proof (cases "buf_entries b (ev_Key ev)")
    case None
    then show ?thesis using up assms(1,2)
      by (auto simp: addUpdate_def intro!: images_on_put images_on_mark entry_on_new)
  next
    case (Some cur)
    let ?e = "(overlay (ev_Columns ev) cur)\<lparr>en_Xid := ev_Xid ev\<rparr>"
    have b': "b' = b\<lparr>buf_entries := (buf_entries b)(ev_Key ev \<mapsto> ?e)\<rparr>"
      using up Some by (auto simp: addUpdate_def split: if_splits)
    have "entry_on names ?e"
      using assms(1,2) Some up(2) overlay_names [of "ev_Columns ev" names "en_Columns cur"]
      unfolding images_on_def carries_def entry_on_def overlay_def by (auto simp del: image_eqI)
    then show ?thesis using assms(1) unfolding b' by (simp add: images_on_def)
  qed
  have mov: "images_on names b'" if mv: "addKeyMove old ev b = Inr b'" "ev_Kind ev = ChangeUpdate" for old
  proof -
    obtain moved d where b': "b' = put d (put moved (markOldKeyReused (ev_Key ev) (map_option (\<lambda>_. old) (buf_entries b old)) b))"
      and d: "en_Kind d = DeleteMarker"
      and cols: "en_Columns moved = (case buf_entries b old of None \<Rightarrow> ev_Columns ev | Some f \<Rightarrow> fold overlayOne (ev_Columns ev) (en_Columns f))"
      and f: "\<And>f. buf_entries b old = Some f \<Longrightarrow> en_Kind f \<noteq> DeleteMarker"
      using mv(1) unfolding addKeyMove_def Let_def
      by (auto simp: overlay_def split: if_splits option.splits)
    have "en_Kind f = Image" if "buf_entries b old = Some f" for f
      using f [OF that] assms(4) that by (auto simp: buffer_inv_def entry_ok_def)
    then have "col_name ` set (en_Columns f) = names" if "buf_entries b old = Some f" for f
      using that assms(1) unfolding images_on_def entry_on_def by blast
    moreover have "col_name ` set (ev_Columns ev) = names" using assms(2) mv(2) by (simp add: carries_def)
    ultimately have "entry_on names moved"
      using overlay_names [of "ev_Columns ev" names] unfolding entry_on_def cols by (simp split: option.split)
    then show ?thesis using assms(1) d unfolding b'
      by (intro images_on_put images_on_mark) (simp_all add: entry_on_def)
  qed
  show ?thesis using assms(1-3) ins upd mov unfolding Add_def
    by (auto simp: addDelete_def intro!: images_on_put entry_on_new split: ChangeKind.splits option.splits if_splits)
qed

lemma AddAll_images_on:
  "AddAll evs b = Inr b' \<Longrightarrow> buffer_inv b \<Longrightarrow> images_on names b \<Longrightarrow> \<forall>ev \<in> set evs. carries names ev \<Longrightarrow> images_on names b'"
  by (induction evs arbitrary: b) (auto split: sum.splits dest: Add_images_on Add_inv)

section \<open>The shadow's form of a table\<close>

definition convTable :: "conversions \<Rightarrow> string list \<Rightarrow> source \<Rightarrow> source" where
  "convTable conv columns S = (\<lambda>k. map_option (convRow conv columns) (S k))"

lemma convRow_add:
  "convertible conv columns v \<Longrightarrow> convRow conv columns (r ++ v) = convRow conv columns r ++ convRow conv columns v"
  by (auto simp: convRow_def convertible_def map_add_def fun_eq_iff split: option.splits sum.splits)

lemma rowAt_convTable: "rowAt (convTable conv columns S) k = convRow conv columns (rowAt S k)"
  by (auto simp: rowAt_def convTable_def convRow_def fun_eq_iff split: option.splits)

lemma convRow_covers:
  assumes "set columns \<subseteq> dom v" "convertible conv columns v"
  shows "convRow conv columns r ++ convRow conv columns v = convRow conv columns v"
proof
  fix n
  show "(convRow conv columns r ++ convRow conv columns v) n = convRow conv columns v n"
  proof (cases "n \<in> set columns")
    case True
    then obtain x u where "v n = Some x" "conval conv n x = Inr u" using assms by (fastforce simp: convertible_def)
    then have "convRow conv columns v n = Some u" using True by (simp add: convRow_def)
    then show ?thesis by (simp add: map_add_def)
  qed (simp add: convRow_def map_add_def)
qed

lemma vals_cover:
  assumes "\<not> HasMarker e" "n \<in> col_name ` set (en_Columns e)"
  shows "n \<in> dom (vals (en_Columns e))"
  using assms dom_vals_present [of "en_Columns e"] by (auto simp: HasMarker_def)
section \<open>A flush of the whole buffer\<close>

definition holds_all :: "Batch \<Rightarrow> Buffer \<Rightarrow> bool" where
  "holds_all batch b \<longleftrightarrow> (\<forall>k. List.find (\<lambda>e. en_Key e = k) (ba_Entries batch) = buf_entries b k)"

lemma nothing_held:
  assumes "distinct (map en_Key (ba_Entries batch))" "flushApply db columns batch T = Inr (T', result)"
    and "res_Held result = []" "res_Skipped result = []"
  shows "toWrite db columns T batch = ba_Entries batch" "\<forall>e \<in> set (ba_Entries batch). \<not> named e"
proof -
  note h = flushApply_held [OF assms(1,2)]
  have no: "\<not> named e \<and> \<not> absent columns T e" if "e \<in> set (ba_Entries batch)" for e
    using h(2,3) assms(3,4) that by (auto simp: filter_empty_conv)
  then show "\<forall>e \<in> set (ba_Entries batch). \<not> named e" by blast
  have "map (written db columns T) (ba_Entries batch) = map (\<lambda>e. [e]) (ba_Entries batch)"
    using no by (intro map_cong) (auto simp: written_def afterMoved_def)
  then show "toWrite db columns T batch = ba_Entries batch" unfolding h(1) by (simp only: concat_map_singleton) simp
qed

lemma Flush_nothing_held:
  assumes "Flush db columns env batch T = (Inr result, T')" "batch_ok batch" "res_Held result = []" "res_Skipped result = []"
  shows "toWrite db columns T batch = ba_Entries batch" "\<forall>e \<in> set (ba_Entries batch). \<not> named e"
proof -
  have "toWrite db columns T batch = ba_Entries batch \<and> (\<forall>e \<in> set (ba_Entries batch). \<not> named e)"
  proof (cases "ba_Entries batch = []")
    case True
    then show ?thesis by (simp add: toWrite_def completeMoved_def CompleteFirst_def holdAbsent_def)
  next
    case False
    then have "flushApply db columns batch T = Inr (T', result)"
      using Flush_applied [OF assms(1)] by blast
    then show ?thesis using nothing_held [of batch db columns T T' result] assms(2-4) by (simp add: batch_ok_def)
  qed
  then show "toWrite db columns T batch = ba_Entries batch" "\<forall>e \<in> set (ba_Entries batch). \<not> named e" by blast+
qed

lemma image_converges:
  assumes "convertible conv columns (vals (en_Columns e))" "entry_on names e" "en_Kind e = Image" "\<not> named e" "set columns \<subseteq> names"
  shows "rowAt (convTable conv columns S) (en_Key e) ++ convRow conv columns (vals (en_Columns e)) =
    convRow conv columns (rowAt S (originKey e) ++ vals (en_Columns e))"
proof (cases "en_OldKey e")
  case None
  then show ?thesis by (simp add: originKey_def rowAt_convTable convRow_add [OF assms(1)])
next
  case (Some old)
  then have "\<not> HasMarker e" using assms(3,4) by (simp add: named_def)
  then have "set columns \<subseteq> dom (vals (en_Columns e))"
    using vals_cover assms(2,3,5) unfolding entry_on_def by blast
  then show ?thesis
    by (simp add: rowAt_convTable convRow_add [OF assms(1)] convRow_covers assms(1))
qed

lemma flushed_denote:
  assumes "buffer_inv b" "images_on names b" "set columns \<subseteq> names" "holds_all batch b"
    and "\<forall>e \<in> set (ba_Entries batch). \<not> named e"
    and "\<forall>e \<in> ran (buf_entries b). convertible (db_conv db) columns (vals (en_Columns e))"
  shows "flushed db columns (ba_Entries batch) (convTable (db_conv db) columns S) = convTable (db_conv db) columns (denote S b)"
proof
  fix k
  let ?T = "convTable (db_conv db) columns S"
  show "flushed db columns (ba_Entries batch) ?T k = convTable (db_conv db) columns (denote S b) k"
  proof (cases "buf_entries b k")
    case None
    then show ?thesis using assms(4) by (simp add: flushed_def holds_all_def convTable_def denote_def)
  next
    case (Some e)
    then have f: "List.find (\<lambda>e. en_Key e = k) (ba_Entries batch) = Some e" using assms(4) by (simp add: holds_all_def)
    have e: "entry_ok k e" "entry_on names e" "\<not> named e" "convertible (db_conv db) columns (vals (en_Columns e))"
      using Some assms(1,2,5,6) find_SomeD [OF f] by (auto simp: buffer_inv_def images_on_def ran_def)
    show ?thesis
    proof (cases "en_Kind e = Image")
      case True
      then show ?thesis using f Some imageRow_conv [OF e(4)] image_converges [OF e(4,2) True e(3) assms(3)] e(1)
        by (simp add: flushed_def convTable_def denote_def stands_def entry_ok_def)
    next
      case False
      then show ?thesis using f Some e(1) by (auto simp: flushed_def convTable_def denote_def stands_def entry_ok_def)
    qed
  qed
qed

lemma Drain_holds_all:
  assumes inv: "buffer_inv b" "enumerates order b" "Drain order pos snap b = (batch, b')"
    and land: "Complete (pos_cut pos)" "pos_inFlight pos = []" "unseen snap b = {}" "\<And>k. k \<in> dom (buf_entries b) \<Longrightarrow> is_int64 k"
    and "buf_pending b = Map.empty"
  shows "holds_all batch b" "buf_entries b' = Map.empty"
proof -
  have fate: "drain_fate pos snap b k = FateFlush" if "k \<in> dom (buf_entries b)" for k
    using drain_fate_landed [OF land that] assms(8) by simp
  then show "buf_entries b' = Map.empty"
    unfolding Drain_outcome(1) [OF inv] kept_def drained_def by (metis domIff leaves_simps)
  note ok = Drain_batch_ok [OF inv]
  show "holds_all batch b"
    unfolding holds_all_def
  proof
    fix k
    show "List.find (\<lambda>e. en_Key e = k) (ba_Entries batch) = buf_entries b k"
    proof (cases "buf_entries b k")
      case None
      then show ?thesis using ok(2) by (force simp: find_None_iff)
    next
      case (Some e)
      then have "e \<in> set (ba_Entries batch)" "en_Key e = k"
        using in_batch [OF inv Some] fate buffer_invD [OF inv(1) Some] by auto
      then show ?thesis using find_by_key [of en_Key "ba_Entries batch" e] ok(1) Some by (simp add: batch_ok_def)
    qed
  qed
qed

section \<open>A cycle\<close>

lemma AddAll_pending: "AddAll evs b = Inr b' \<Longrightarrow> buf_pending b = Map.empty \<Longrightarrow> buf_pending b' = Map.empty"
proof (induction evs arbitrary: b)
  case (Cons ev evs)
  then obtain b1 where b1: "Add ev b = Inr b1" "AddAll evs b1 = Inr b'" by (auto split: sum.splits)
  have p: "buf_pending (put e c) = Map.empty" if "buf_pending c = Map.empty" for e c
    using that by (auto simp: fun_eq_iff)
  have m: "buf_pending (markOldKeyReused k mv b) = Map.empty" for k mv
    using Cons.prems(2) by (auto simp: markOldKeyReused_def Let_def)
  have "buf_pending b1 = Map.empty"
    using b1(1) Cons.prems(2) p m unfolding Add_def addInsert_def addUpdate_def addKeyMove_def addDelete_def Let_def
    by (auto split: ChangeKind.splits option.splits if_splits)
  then show ?case using Cons.IH b1(2) by blast
qed simp

lemma Release_none: "buf_pending b = Map.empty \<Longrightarrow> Release l b = b"
  by (cases b) (auto simp: Release_def Let_def)

text \<open>The copy is done, and the cycle's server lets the flush and the report through, holding nothing back.\<close>

definition clear_way :: "cycle_in \<Rightarrow> Catchup \<Rightarrow> Snapshot \<Rightarrow> Stream \<Rightarrow> Buffer \<Rightarrow> bool" where
  "clear_way ins c snap s b \<longleftrightarrow>
     ca_gate c \<and> cycleSnapshot ins b = Inr snap \<and> copyLanded (ci_position ins) \<and> unseen snap b = {} \<and>
     (\<forall>k \<in> dom (buf_entries b). is_int64 k) \<and>
     (\<exists>result. fst (flush_of ins (c\<lparr>ca_buffer := b\<rparr>) snap) = Inr result \<and> res_Held result = [] \<and> res_Skipped result = []) \<and>
     \<not> ci_confirmBroken ins \<and> st_failed s = None"

lemma caught_up:
  assumes c: "ca_buffer c = NewBuffer" "stream_inv (ca_stream c)" "distinct (ca_columns c)" "shadow_full (ca_columns c) (ca_shadow c)"
    and ga: "gather P (co_MaxChanges (ca_opts c)) (ci_gather ins) (ca_stream c, ca_buffer c) = Some (None, s, b)"
    and en: "enumerates (ci_order ins) b" and way: "clear_way ins c snap s b"
  shows "\<exists>r c' batch. cycle P slot ins c = Some (r, c') \<and> buf_entries (ca_buffer c') = Map.empty \<and>
    st_confirmed (ca_stream c') = st_delivered s \<and> holds_all batch b \<and> (\<forall>e \<in> set (ba_Entries batch). \<not> named e) \<and>
    ca_shadow c' = flushed (ci_db ins) (ca_columns c) (ba_Entries batch) (ca_shadow c)"
proof -
  obtain rss evs where p: "AddAll evs NewBuffer = Inr b" "stream_inv s" using gather_pulls [OF ga] c(1,2) by auto
  have b: "buffer_inv b" "buf_pending b = Map.empty"
    using AddAll_inv [OF NewBuffer_inv p(1)] AddAll_pending [OF p(1)] by (auto simp: NewBuffer_def)
  obtain result where w: "ca_gate c" "cycleSnapshot ins b = Inr snap" "Complete (pos_cut (ci_position ins))"
    "pos_inFlight (ci_position ins) = []" "unseen snap b = {}" "\<And>k. k \<in> dom (buf_entries b) \<Longrightarrow> is_int64 k"
    "fst (flush_of ins (c\<lparr>ca_buffer := b\<rparr>) snap) = Inr result" "res_Held result = []" "res_Skipped result = []"
    "\<not> ci_confirmBroken ins" "st_failed s = None"
    using way by (auto simp: clear_way_def copyLanded_def)
  obtain batch b1 where dr: "Drain (ci_order ins) (ci_position ins) snap b = (batch, b1)" by fastforce
  obtain T' where fl: "Flush (ci_db ins) (ca_columns c) (ci_env ins) batch (ca_shadow c) = (Inr result, T')"
    using w(7) dr by (cases "Flush (ci_db ins) (ca_columns c) (ci_env ins) batch (ca_shadow c)") (auto simp: flush_of_def)
  note all = Drain_holds_all [OF b(1) en dr w(3-6) b(2)] and ok = Drain_batch_ok [OF b(1) en dr]
  have inv1: "buffer_inv b1" by (rule kept_inv [OF b(1) en dr])
  have nh: "toWrite (ci_db ins) (ca_columns c) (ca_shadow c) batch = ba_Entries batch" "\<forall>e \<in> set (ba_Entries batch). \<not> named e"
    using Flush_nothing_held [OF fl ok(1) w(8,9)] by auto
  have T': "T' = flushed (ci_db ins) (ca_columns c) (ba_Entries batch) (ca_shadow c)"
    using Flush_commits [OF _ c(3,4) fl] ok(1) nh(1) by (simp add: batch_ok_def)
  define c1 where "c1 = c\<lparr>ca_stream := s, ca_buffer := b\<rparr>"
  define c2 where "c2 = c\<lparr>ca_stream := s, ca_buffer := b1, ca_shadow := T', ca_gate := True\<rparr>"
  have "Hold (res_Held result) b1 = Inr b1" using w(8) by (simp add: Hold_def)
  then have ap: "catchupApply ins c1 = (Inr (noOutcome\<lparr>oc_batch := batch, oc_result := result\<rparr>), c2)"
    using w(1,2) dr fl by (simp add: catchupApply_def c1_def c2_def tryFlushes_def releaseFlushes_def afterFlush_def)
  have "OldestPending b1 = None" using inv1 all(2) by (simp add: OldestPending_def buffer_inv_def oldest_ok_def)
  then have cf: "\<exists>c3. catchupConfirm (ci_confirmBroken ins) c2 = (None, c3) \<and> ca_buffer c3 = b1 \<and> ca_shadow c3 = T' \<and>
      st_confirmed (ca_stream c3) = st_delivered s"
    using w(10,11) p(2) by (auto simp: catchupConfirm_def c2_def confirmBound_def Confirm_def sendStatus_def stream_inv_def Let_def)
  then obtain c3 where c3: "catchupConfirm (ci_confirmBroken ins) c2 = (None, c3)" "ca_buffer c3 = b1" "ca_shadow c3 = T'"
    "st_confirmed (ca_stream c3) = st_delivered s" by blast
  have "Release (st_delivered s) b = b" by (rule Release_none [OF b(2)])
  then have "\<exists>r c' w. cycle P slot ins c = Some (r, c') \<and> (c' = c3 \<or> c' = record_cycle (noOutcome\<lparr>oc_batch := batch, oc_result := result\<rparr>) w c3)"
    using ga ap c3(1) by (auto simp: cycle_def c1_def split: sum.splits)
  then show ?thesis using c3 all T' nh(2) by auto
qed

text \<open>The changes a gathering reads, in order.\<close>

fun changesRead :: "parsers \<Rightarrow> int64 \<Rightarrow> gather_in list \<Rightarrow> Stream \<Rightarrow> ChangeEvent list" where
  "changesRead P left (NextReads rs # ins) s =
     (if left \<le> 0 then []
      else case Stream_Next P rs s of
        Some (Inr delivery, s') \<Rightarrow>
          (case del_Change delivery of
             None \<Rightarrow> changesRead P left ins s'
           | Some ev \<Rightarrow> ev # changesRead P (left - 1) ins s')
      | _ \<Rightarrow> [])"
| "changesRead P left ins s = []"

lemma gather_changes:
  "gather P left ins (s, b) = Some (None, s', b') \<Longrightarrow> AddAll (changesRead P left ins s) b = Inr b'"
proof (induction P left ins "(s, b)" arbitrary: s b rule: gather.induct)
  case (3 P left rs ins s b)
  show ?case
  proof (cases "left \<le> 0")
    case False
    then obtain d s1 where n: "Stream_Next P rs s = Some (Inr d, s1)"
      using "3.prems" by (auto split: option.splits sum.splits)
    show ?thesis
    proof (cases "del_Change d")
      case None
      then show ?thesis using "3.hyps"(1) [OF False n refl refl None] "3.prems" n False by simp
    next
      case (Some ev)
      then obtain b1 where b1: "Add ev b = Inr b1" using "3.prems" n False by (cases "Add ev b") auto
      then show ?thesis using "3.hyps"(2) [OF False n refl refl Some b1] "3.prems" n False Some by simp
    qed
  qed (use "3.prems" in simp)
qed (auto split: if_splits)

section \<open>Properties\<close>


text \<open>A row inserted in transaction 7: begin, relation, insert; then the commit; then the cycle's deadline.\<close>

definition example_received :: "nat list \<Rightarrow> gather_in" where
  "example_received bs = NextReads (map (\<lambda>x. Received (CopyData [119, x]) False) bs)"

definition example_flush_db :: flush_db where
  "example_flush_db = \<lparr>db_conv = Map.empty, db_refuses = (\<lambda>k r T. False), db_source = Map.empty,
     db_readLSN = (\<lambda>k. 0), db_checkLSN = 0\<rparr>"

definition example_cycle :: cycle_in where
  "example_cycle = \<lparr>ci_gather = [example_received [0, 1, 2], example_received [3], DeadlinePassed],
     ci_snapshot = Inr AllVisible, ci_position = example_position, ci_order = [5], ci_db = example_flush_db,
     ci_env = \<lparr>fe_begin = None, fe_resolution = None, fe_commit = Committed, fe_lockLost = False\<rparr>,
     ci_confirmBroken = False, ci_walEnd = Inr 200, ci_slot = Inr None\<rparr>"

definition example_catchup :: Catchup where
  "example_catchup = projr (NewCatchup (Some example_stream) (Some ([''id'', ''qty''], Map.empty)) True
     \<lparr>co_Interval = 0, co_MaxChanges = 0, co_SlotLagCeiling = 0\<rparr>)"

definition example_insert :: ChangeEvent where
  "example_insert = \<lparr>ev_Kind = ChangeInsert, ev_LSN = 0, ev_Delivered = 100, ev_Xid = 7, ev_Key = 5, ev_OldKey = None,
     ev_Columns = [PresentColumn ''id'' (ColText ''5''), PresentColumn ''qty'' ColNull]\<rparr>"

definition example_gathered :: Buffer where
  "example_gathered = projr (Add example_insert NewBuffer)"

lemma example_catchup_sel:
  "ca_stream example_catchup = example_stream" "ca_buffer example_catchup = NewBuffer"
  "ca_columns example_catchup = [''id'', ''qty'']" "ca_shadow example_catchup = Map.empty"
  "co_MaxChanges (ca_opts example_catchup) = 10000" "ca_gate example_catchup"
  by (simp_all add: example_catchup_def NewCatchup_def catchupWithDefaults_def catchupValidate_def Let_def
      DefaultCatchupInterval_def DefaultCatchupMaxChanges_def DefaultSlotLagCeiling_def)

lemmas example_stream_simps =
  handleMessage_def handleCopyData_def example_parsers_def handleWALData_def example_stream_def recordRelation_def
  newRelation_def example_relation_def example_target_def deliverChange_def decodeInsert_def changeRelation_def
  decodeColumns_def decodeKey_def parseInt_def parseUint_def digitVal_def raiseDelivered_def Let_def Stream_Next_def progress_def

lemma example_next:
  "\<exists>s1 s2 d d'. Stream_Next example_parsers (map (\<lambda>x. Received (CopyData [119, x]) False) [0, 1, 2]) example_stream = Some (Inr d, s1) \<and>
     del_Change d = Some example_insert \<and>
     Stream_Next example_parsers (map (\<lambda>x. Received (CopyData [119, x]) False) [3]) s1 = Some (Inr d', s2) \<and>
     del_Change d' = None \<and> st_delivered s2 = 200 \<and> st_failed s2 = None"
  by (simp add: example_stream_simps example_insert_def newEvent_def)

lemma example_gathers:
  "\<exists>s. gather example_parsers 10000 (ci_gather example_cycle) (example_stream, NewBuffer) = Some (None, s, example_gathered) \<and>
     st_delivered s = 200 \<and> st_failed s = None"
  "changesRead example_parsers 10000 (ci_gather example_cycle) example_stream = [example_insert]"
proof -
  obtain s1 s2 d d' where n: "Stream_Next example_parsers (map (\<lambda>x. Received (CopyData [119, x]) False) [0, 1, 2]) example_stream = Some (Inr d, s1)"
    "del_Change d = Some example_insert"
    "Stream_Next example_parsers (map (\<lambda>x. Received (CopyData [119, x]) False) [3]) s1 = Some (Inr d', s2)"
    "del_Change d' = None" "st_delivered s2 = 200" "st_failed s2 = None"
    using example_next by blast
  have a: "Add example_insert NewBuffer = Inr example_gathered"
    by (simp add: example_gathered_def Add_def addInsert_def example_insert_def NewBuffer_def PresentColumn_def)
  have g: "ci_gather example_cycle = [NextReads (map (\<lambda>x. Received (CopyData [119, x]) False) [0, 1, 2]),
      NextReads (map (\<lambda>x. Received (CopyData [119, x]) False) [3]), DeadlinePassed]"
    by (simp add: example_cycle_def example_received_def)
  show "\<exists>s. gather example_parsers 10000 (ci_gather example_cycle) (example_stream, NewBuffer) = Some (None, s, example_gathered) \<and>
     st_delivered s = 200 \<and> st_failed s = None"
    unfolding g using n a by (simp del: list.map)
  show "changesRead example_parsers 10000 (ci_gather example_cycle) example_stream = [example_insert]"
    unfolding g using n by (simp del: list.map)
qed

lemma example_gathered_sel:
  "buf_entries example_gathered = [5 \<mapsto> newEntry 5 Image (ev_Columns example_insert) 100 7]"
  "buf_pending example_gathered = Map.empty"
  by (auto simp: example_gathered_def Add_def addInsert_def example_insert_def NewBuffer_def PresentColumn_def
      markOldKeyReused_def fun_eq_iff)

lemma example_gathered_inv:
  "buffer_inv example_gathered" "enumerates [5] example_gathered"
  using Add_inv [OF NewBuffer_inv, of example_insert example_gathered]
  by (auto simp: example_gathered_def Add_def addInsert_def example_insert_def NewBuffer_def PresentColumn_def
      enumerates_def markOldKeyReused_def split: if_splits)

lemma example_drained:
  "ba_Entries (fst (Drain [5] example_position AllVisible example_gathered)) = [newEntry 5 Image (ev_Columns example_insert) 100 7]"
proof -
  have "drain_fate example_position AllVisible example_gathered 5 = FateFlush"
    using drain_fate_landed [of example_position AllVisible example_gathered 5]
    by (auto simp: example_position_def Complete_def example_unseen example_gathered_sel int64_simps split: if_splits)
  then have "flushedKeys example_position AllVisible example_gathered = {5}"
    by (auto simp: flushedKeys_def example_gathered_sel)
  moreover have "sorted_list_of_set {5::int64} = [5]" by simp
  ultimately show ?thesis
    using batch_entries [OF example_gathered_inv prod.collapse [symmetric], of example_position AllVisible]
    by (simp add: example_gathered_sel(1))
qed

lemma example_clear_way:
  assumes "st_failed s = None"
  shows "clear_way example_cycle example_catchup AllVisible s example_gathered"
proof -
  let ?e = "newEntry 5 Image (ev_Columns example_insert) 100 7" and ?cols = "[''id'', ''qty'']"
  let ?b = "fst (Drain [5] example_position AllVisible example_gathered)"
  have e: "split ?cols ?e = (ev_Columns example_insert, [])" "\<not> HasMarker ?e"
    by (simp_all add: example_insert_def split_Cons vals_def colOf_def PresentColumn_def Column_Get_def HasMarker_def)
  have w: "rowWritten Map.empty (ev_Columns example_insert) = Inr [''id'' \<mapsto> ColText ''5'', ''qty'' \<mapsto> ColNull]"
    by (simp add: example_insert_def valueSQL_def PresentColumn_def Column_Get_def fun_upd_twist)
  have "\<exists>T. flushApply example_flush_db ?cols ?b Map.empty = Inr (T, emptyResult\<lparr>res_Images := 1\<rparr>)"
    by (simp add: flushApply_def completeMoved_def CompleteFirst_def example_drained e holdAbsent_def checksShadowRow_def
        applyColumnWise_def writeEntry_def writeImage_def upsertRow_def w example_flush_db_def emptyResult_def Let_def)
  then have "\<exists>T. Flush example_flush_db ?cols (ci_env example_cycle) ?b Map.empty = (Inr (emptyResult\<lparr>res_Images := 1\<rparr>), T)"
    by (auto simp: Flush_def flushTx_def example_drained example_cycle_def)
  then have "fst (flush_of example_cycle (example_catchup\<lparr>ca_buffer := example_gathered\<rparr>) AllVisible) = Inr (emptyResult\<lparr>res_Images := 1\<rparr>)"
    by (auto simp: flush_of_def example_cycle_def example_catchup_sel)
  then show ?thesis using assms
    by (simp add: clear_way_def example_catchup_sel example_unseen example_gathered_sel cycleSnapshot_def emptyResult_def)
      (simp add: example_cycle_def copyLanded_def example_position_def Complete_def int64_simps)
qed



lemma cycle_total:
  assumes "gather P (co_MaxChanges (ca_opts c)) (ci_gather ins) (ca_stream c, ca_buffer c) = Some (g, s, b)"
  shows "\<exists>r c'. cycle P slot ins c = Some (r, c')"
proof -
  have "cycle P slot ins c \<noteq> None"
    using assms by (simp add: cycle_def Let_def split: option.split sum.split prod.split)
  then show ?thesis by auto
qed


section \<open>Pausing\<close>

text \<open>Any number of cycles, whatever each meets.\<close>

inductive cycles :: "parsers \<Rightarrow> string \<Rightarrow> Catchup \<Rightarrow> Catchup \<Rightarrow> bool" for P slot where
  cycles_here: "cycles P slot c c"
| cycles_next: "cycles P slot c c1 \<Longrightarrow> cycle P slot ins c1 = Some (r, c2) \<Longrightarrow> cycles P slot c c2"

definition grows :: "Buffer \<Rightarrow> Buffer \<Rightarrow> bool" where
  "grows b b' \<longleftrightarrow> dom (buf_entries b) \<subseteq> dom (buf_entries b')"

lemma grows_intros:
  "grows b b" "grows b c \<Longrightarrow> grows b (put e c)" "grows b (markOldKeyReused k mv b)"
  "grows b (b\<lparr>buf_entries := (buf_entries b)(k \<mapsto> e)\<rparr>)"
  by (auto simp: grows_def markOldKeyReused_def Let_def)

lemma Add_grows:
  assumes "Add ev b = Inr b'"
  shows "grows b b'"
proof -
  have "grows b b'" if "addInsert ev b = Inr b'"
    using that unfolding addInsert_def Let_def by (auto intro: grows_intros split: if_split_asm)
  moreover have "grows b b'" if "addUpdate ev b = Inr b'"
    using that unfolding addUpdate_def by (auto intro: grows_intros split: option.splits if_split_asm)
  moreover have "grows b b'" if km: "addKeyMove old ev b = Inr b'" for old
  proof -
    obtain moved d where "b' = put d (put moved (markOldKeyReused (ev_Key ev) (map_option (\<lambda>_. old) (buf_entries b old)) b))"
      by (rule addKeyMove_shape [OF km])
    then show ?thesis by (auto intro: grows_intros)
  qed
  ultimately show ?thesis using assms unfolding Add_def
    by (auto simp: addDelete_def intro: grows_intros split: ChangeKind.splits option.splits if_splits)
qed

lemma AddAll_dom: "AddAll evs b = Inr b' \<Longrightarrow> dom (buf_entries b) \<subseteq> dom (buf_entries b')"
proof (induction evs arbitrary: b)
  case (Cons ev evs)
  then obtain b1 where "Add ev b = Inr b1" "AddAll evs b1 = Inr b'" by (auto split: sum.splits)
  then show ?case using Cons.IH [of b1] Add_grows [of ev b b1] by (auto simp: grows_def)
qed simp

definition idle :: "Catchup \<Rightarrow> Catchup \<Rightarrow> bool" where
  "idle c c' \<longleftrightarrow> ca_shadow c' = ca_shadow c \<and> ca_gate c' = ca_gate c \<and>
     su_FlushesHeld (ca_status c') = su_FlushesHeld (ca_status c) \<and> su_Applied (ca_status c') = su_Applied (ca_status c) \<and>
     dom (buf_entries (ca_buffer c)) \<subseteq> dom (buf_entries (ca_buffer c'))"

lemma idle_confirm: "catchupConfirm broken c = (r, c') \<Longrightarrow> idle c c'"
  by (auto simp: catchupConfirm_def idle_def Let_def split: if_splits prod.splits sum.splits)

lemma cycle_paused:
  assumes "cycle P slot ins c = Some (r, c')" "\<not> ca_gate c"
  shows "idle c c'"
proof -
  obtain g s b where ga: "gather P (co_MaxChanges (ca_opts c)) (ci_gather ins) (ca_stream c, ca_buffer c) = Some (g, s, b)"
    using assms(1) by (auto simp: cycle_def split: option.splits)
  obtain evs where "AddAll evs (ca_buffer c) = Inr b" using gather_pulls [OF ga] by blast
  then have d: "dom (buf_entries (ca_buffer c)) \<subseteq> dom (buf_entries b)" by (rule AddAll_dom)
  show ?thesis
  proof (cases g)
    case (Some e)
    then show ?thesis using assms(1) ga d by (auto simp: cycle_def idle_def)
  next
    case None
    define c1 where "c1 = c\<lparr>ca_stream := s, ca_buffer := Release (st_delivered s) b\<rparr>"
    have ap: "catchupApply ins c1 = (Inr (noOutcome\<lparr>oc_paused := True\<rparr>), c1)"
      using assms(2) by (simp add: catchupApply_def tryFlushes_def c1_def)
    obtain q c3 where cf: "catchupConfirm (ci_confirmBroken ins) c1 = (q, c3)" by fastforce
    have "idle c c3" using idle_confirm [OF cf] d by (auto simp: idle_def c1_def Release_sel(1))
    moreover have "c' = c3 \<or> (\<exists>w. c' = record_cycle (noOutcome\<lparr>oc_paused := True\<rparr>) w c3)"
      using assms(1) ga None ap cf by (auto simp: cycle_def c1_def split: option.splits sum.splits)
    ultimately show ?thesis by (auto simp: idle_def record_cycle_def Let_def)
  qed
qed

text \<open>
  C18: A paused loop writes nothing and loses nothing. From the moment Pause
  has taken the flush gate, however many cycles run and whatever each meets:
  the shadow is untouched, nothing is counted as applied, no buffered key
  leaves the buffer, the status says flushes are held, and a second Pause has
  to wait. When the holder resumes, the gate is free again.
\<close>

theorem paused_loop_writes_nothing:
  assumes "Pause c = Some c1" "cycles P slot c1 c2"
  shows "ca_shadow c2 = ca_shadow c \<and> su_Applied (ca_status c2) = su_Applied (ca_status c) \<and>
    dom (buf_entries (ca_buffer c)) \<subseteq> dom (buf_entries (ca_buffer c2)) \<and> su_FlushesHeld (ca_status c2) \<and>
    Pause c2 = None \<and> ca_gate (resume c2) \<and> \<not> su_FlushesHeld (ca_status (resume c2))"
proof -
  have c1: "\<not> ca_gate c1" "su_FlushesHeld (ca_status c1)"
    "ca_shadow c1 = ca_shadow c" "ca_buffer c1 = ca_buffer c" "su_Applied (ca_status c1) = su_Applied (ca_status c)"
    using assms(1) by (auto simp: Pause_def markFlushesHeld_def split: if_splits)
  have "idle c1 c2"
    using assms(2) c1(1)
  proof (induction rule: cycles.induct)
    case (cycles_next c c1 ins r c2)
    then have "idle c c1" "\<not> ca_gate c1" by (auto simp: idle_def)
    then show ?case using cycle_paused [OF cycles_next.hyps(2)] by (auto simp: idle_def)
  qed (simp add: idle_def)
  then show ?thesis using c1
    by (auto simp: idle_def Pause_def resume_def releaseFlushes_def markFlushesHeld_def)
qed

theorem paused_loop_writes_nothing_witness:
  "\<exists>c1 r c2. Pause example_catchup = Some c1 \<and> cycle example_parsers ''slot'' example_cycle c1 = Some (r, c2) \<and>
     ca_shadow c2 = Map.empty \<and> Pause c2 = None"
proof -
  obtain c1 where p: "Pause example_catchup = Some c1" "ca_stream c1 = example_stream" "ca_buffer c1 = NewBuffer"
    "co_MaxChanges (ca_opts c1) = 10000"
    using example_catchup_sel by (auto simp: Pause_def markFlushesHeld_def)
  obtain r c2 where c: "cycle example_parsers ''slot'' example_cycle c1 = Some (r, c2)"
    using cycle_total [of example_parsers c1 example_cycle _ _ _ "''slot''"] example_gathers(1) p(2-4) by auto
  show ?thesis
    using p(1) c paused_loop_writes_nothing [OF p(1) cycles_next [OF cycles_here c]] example_catchup_sel(4) by auto
qed

end
