(* ===== verification/Statement_Tree.thy ===== *)
theory Statement_Tree
  imports Go_Strings
begin

text \<open>
  Statements as the PostgreSQL grammar delivers them. The parser is a
  third-party library; its result is data, so this theory declares the parse
  tree the sources walk, with the node kinds and fields they read, and the two
  calls of the library (\<open>parseSingle\<close> of \<open>pkg/statement/rewrite.go\<close> and
  \<open>deparseOne\<close> of \<open>desired.go\<close>). A missing node reads as its zero value, as the
  generated getters do.
\<close>

section \<open>The parse tree\<close>

datatype expr =
    AConst "int option"
  | TypeCast expr "expr list"
  | ColumnRef "expr list"
  | AIndirection expr "expr list"
  | RowExpr "expr list"
  | StringNode string
  | AStar
  | OtherExpr "expr list"

record TypeName =
  tn_names :: "string list"
  tn_typmods :: "expr list"
  tn_arrayBounds :: "expr list"
  tn_setof :: bool
  tn_pctType :: bool

datatype defarg =
    ArgString string
  | ArgInteger int
  | ArgFloat string
  | ArgBoolean bool
  | ArgTypeName TypeName
  | ArgList "string list"
  | ArgOther

record DefElem =
  de_namespace :: string
  de_defname :: string
  de_arg :: "defarg option"

datatype ConstrType =
    CONSTR_NULL | CONSTR_NOTNULL | CONSTR_DEFAULT | CONSTR_IDENTITY | CONSTR_GENERATED | CONSTR_CHECK
  | CONSTR_PRIMARY | CONSTR_UNIQUE | CONSTR_EXCLUSION | CONSTR_FOREIGN | CONSTR_ATTR_DEFERRABLE
  | CONSTR_ATTR_NOT_DEFERRABLE | CONSTR_ATTR_DEFERRED | CONSTR_ATTR_IMMEDIATE | CONSTR_OTHER nat

record RangeVar =
  rv_schemaname :: string
  rv_relname :: string
  rv_inh :: bool

text \<open>\<open>con_exclusions\<close> holds the column name of each EXCLUDE element, empty for an expression.\<close>

record Constraint =
  con_contype :: ConstrType
  con_conname :: string
  con_skipValidation :: bool
  con_initiallyValid :: bool
  con_indexname :: string
  con_keys :: "string list"
  con_including :: "string list"
  con_exclusions :: "string list"
  con_fkAttrs :: "string list"
  con_nullsNotDistinct :: bool
  con_deferrable :: bool
  con_initdeferred :: bool
  con_indexspace :: string
  con_options :: "DefElem option list"
  con_rawExpr :: "expr option"
  con_pktable :: "RangeVar option"

definition zeroConstraint :: Constraint where
  "zeroConstraint = \<lparr>con_contype = CONSTR_OTHER 0, con_conname = '''', con_skipValidation = False, con_initiallyValid = False,
     con_indexname = '''', con_keys = [], con_including = [], con_exclusions = [], con_fkAttrs = [],
     con_nullsNotDistinct = False, con_deferrable = False, con_initdeferred = False, con_indexspace = '''',
     con_options = [], con_rawExpr = None, con_pktable = None\<rparr>"

definition zeroTypeName :: TypeName where
  "zeroTypeName = \<lparr>tn_names = [], tn_typmods = [], tn_arrayBounds = [], tn_setof = False, tn_pctType = False\<rparr>"

record ColumnDef =
  cd_colname :: string
  cd_typeName :: TypeName
  cd_constraints :: "Constraint list"
  cd_collClause :: "string list option"
  cd_rawDefault :: "expr option"

definition zeroColumnDef :: ColumnDef where
  "zeroColumnDef = \<lparr>cd_colname = '''', cd_typeName = zeroTypeName, cd_constraints = [], cd_collClause = None, cd_rawDefault = None\<rparr>"

datatype cmddef = DefNone | DefColumn ColumnDef | DefConstraint Constraint | DefPartition bool | DefOther

datatype AlterTableType =
    AT_AddColumn | AT_DropColumn | AT_AlterColumnType | AT_ColumnDefault | AT_SetNotNull | AT_DropNotNull
  | AT_SetStatistics | AT_SetStorage | AT_SetOptions | AT_ResetOptions | AT_SetRelOptions | AT_ResetRelOptions
  | AT_SetTableSpace | AT_AddConstraint | AT_ValidateConstraint | AT_DropConstraint | AT_AttachPartition
  | AT_DetachPartition | AT_OTHER nat

record AlterTableCmd =
  at_subtype :: AlterTableType
  at_name :: string
  at_cascade :: bool
  at_def :: cmddef

datatype ObjectType = OBJECT_TABLE | OBJECT_INDEX | OBJECT_COLUMN | OBJECT_TABCONSTRAINT | OBJECT_OTHER nat

record AlterTableStmt =
  alter_objtype :: ObjectType
  alter_relation :: RangeVar
  alter_cmds :: "AlterTableCmd list"

datatype TableElt = EltColumn ColumnDef | EltConstraint Constraint | EltLike | EltOther

record CreateStmt =
  create_relation :: RangeVar
  create_elts :: "TableElt list"
  create_partbound :: bool
  create_inhRelations :: "RangeVar list"
  create_ofTypename :: bool
  create_ifNotExists :: bool

record IndexStmt =
  idx_name :: string
  idx_relation :: RangeVar
  idx_concurrent :: bool
  idx_unique :: bool
  idx_ifNotExists :: bool

record DropStmt =
  drop_removeType :: ObjectType
  drop_objects :: "string list list"
  drop_concurrent :: bool
  drop_cascade :: bool

datatype ReindexKind = REINDEX_OBJECT_INDEX | REINDEX_OBJECT_TABLE | REINDEX_OBJECT_OTHER nat

record ReindexStmt =
  re_kind :: ReindexKind
  re_relation :: RangeVar
  re_params :: "DefElem option list"

record RenameStmt =
  ren_renameType :: ObjectType
  ren_relationType :: ObjectType
  ren_relation :: RangeVar
  ren_subname :: string
  ren_newname :: string

record AlterObjectSchemaStmt =
  move_objectType :: ObjectType
  move_relation :: RangeVar
  move_newschema :: string

datatype Node =
    NAlterTable AlterTableStmt
  | NCreate CreateStmt
  | NIndex IndexStmt
  | NDrop DropStmt
  | NReindex ReindexStmt
  | NRename RenameStmt
  | NAlterObjectSchema AlterObjectSchemaStmt
  | InsertStmt | UpdateStmt | DeleteStmt | MergeStmt
  | GrantStmt | GrantRoleStmt | CreateRoleStmt | AlterRoleStmt | CreatePolicyStmt | AlterPolicyStmt
  | CreatePublicationStmt | AlterPublicationStmt | CreateSubscriptionStmt | AlterSubscriptionStmt
  | ViewStmt | CreateFunctionStmt | CreateTrigStmt | CreateExtensionStmt | CreateSeqStmt | CommentStmt
  | NOther nat

text \<open>The library: \<open>None\<close> is a parse or deparse failure.\<close>

record pgquery =
  pg_parse :: "string \<Rightarrow> Node list option"
  pg_deparse :: "Node \<Rightarrow> string option"

datatype statement_error =
    ParseError
  | ErrNotOneStatement nat
  | ErrNotRewritable
  | ErrNotValidNotApplicable
  | ErrNotCreateTable
  | DeparseError
  | ErrParseDesired
  | ErrEmptyDesired
  | ErrNoCreateTable
  | ErrMultipleCreateTables
  | ErrDisallowedStatement
  | ErrQualifiedName
  | ErrConcurrentIndex
  | ErrWrongIndexTarget

definition parseSingle :: "pgquery \<Rightarrow> string \<Rightarrow> statement_error + Node" where
  "parseSingle Q sql =
     (case pg_parse Q sql of
        None \<Rightarrow> Inl ParseError
      | Some stmts \<Rightarrow> (case stmts of [node] \<Rightarrow> Inr node | _ \<Rightarrow> Inl (ErrNotOneStatement (length stmts))))"

definition deparseOne :: "pgquery \<Rightarrow> Node \<Rightarrow> statement_error + string" where
  "deparseOne Q node = (case pg_deparse Q node of None \<Rightarrow> Inl DeparseError | Some out \<Rightarrow> Inr out)"

definition getColumnDef :: "cmddef \<Rightarrow> ColumnDef" where
  "getColumnDef d = (case d of DefColumn c \<Rightarrow> c | _ \<Rightarrow> zeroColumnDef)"

definition getConstraint :: "cmddef \<Rightarrow> Constraint" where
  "getConstraint d = (case d of DefConstraint c \<Rightarrow> c | _ \<Rightarrow> zeroConstraint)"

definition getDefElem :: "DefElem option \<Rightarrow> DefElem" where
  "getDefElem d = (case d of Some e \<Rightarrow> e | None \<Rightarrow> \<lparr>de_namespace = '''', de_defname = '''', de_arg = None\<rparr>)"

end
