(* ===== verification/Statement_Ops.thy ===== *)
theory Statement_Ops
  imports Statement_Tree
begin

text \<open>
  What the sources read out of a parse tree: the typed operations of a
  statement (\<open>pkg/statement/ops.go\<close>) and its kind and target
  (\<open>pkg/statement/statement.go\<close>).
\<close>

section \<open>Operations\<close>

text \<open>An operation shape is an integer in the source; a value outside the set is kept as one.\<close>

datatype OpKind =
    OpUnrecognized | OpCreateTable | OpAddColumn | OpDropColumn | OpAlterColumnType | OpSetDefault | OpDropDefault
  | OpSetNotNull | OpDropNotNull | OpSetColumnOptions | OpRenameColumn | OpRenameTable | OpRenameIndex | OpSetSchema
  | OpSetTablespace | OpSetRelOptions | OpAddConstraint | OpValidateConstraint | OpDropConstraint | OpAttachPartition
  | OpDetachPartition | OpCreateIndex | OpDropIndex | OpReindex | OpKindOther nat

definition OpKinds :: "OpKind list" where
  "OpKinds =
     [OpUnrecognized, OpCreateTable, OpAddColumn, OpDropColumn, OpAlterColumnType, OpSetDefault, OpDropDefault,
      OpSetNotNull, OpDropNotNull, OpSetColumnOptions, OpRenameColumn, OpRenameTable, OpRenameIndex, OpSetSchema,
      OpSetTablespace, OpSetRelOptions, OpAddConstraint, OpValidateConstraint, OpDropConstraint, OpAttachPartition,
      OpDetachPartition, OpCreateIndex, OpDropIndex, OpReindex]"

datatype DefaultKind = DefaultNone | DefaultConstant | DefaultExpression

datatype ConstraintKind =
    ConstraintUnrecognized | ConstraintPrimaryKey | ConstraintUnique | ConstraintCheck | ConstraintForeignKey
  | ConstraintNotNull

record StorageParam =
  sp_Name :: string
  sp_Value :: string
  sp_HasValue :: bool

record Op =
  op_Kind :: OpKind
  op_Column :: string
  op_Name :: string
  op_Only :: bool
  op_Cascade :: bool
  op_Indexes :: "string list"
  op_Columns :: "string list"
  op_IncludeColumns :: "string list"
  op_NullsNotDistinct :: bool
  op_Deferrable :: bool
  op_InitiallyDeferred :: bool
  op_IndexTablespace :: string
  op_IndexStorageParams :: "StorageParam list"
  op_IndexOptionsUnrenderable :: bool
  op_Constraint :: ConstraintKind
  op_NotValid :: bool
  op_UsingIndex :: bool
  op_Concurrent :: bool
  op_Unique :: bool
  op_IfNotExists :: bool
  op_GeneratedStored :: bool
  op_InlineConstraints :: "ConstraintKind list"
  op_PartitionOf :: bool
  op_Inherits :: bool
  op_Like :: bool
  op_OfType :: bool
  op_ForeignKey :: bool
  op_Default :: DefaultKind
  op_NewType :: string
  op_NewTypeMods :: "int list"
  op_NewTypeSchema :: string
  op_NewTypeArray :: bool
  op_NewTypeCollation :: string
  op_HasUsing :: bool

definition mkOp :: "OpKind \<Rightarrow> Op" where
  "mkOp kind = \<lparr>op_Kind = kind, op_Column = '''', op_Name = '''', op_Only = False, op_Cascade = False, op_Indexes = [],
     op_Columns = [], op_IncludeColumns = [], op_NullsNotDistinct = False, op_Deferrable = False, op_InitiallyDeferred = False,
     op_IndexTablespace = '''', op_IndexStorageParams = [], op_IndexOptionsUnrenderable = False,
     op_Constraint = ConstraintUnrecognized, op_NotValid = False, op_UsingIndex = False, op_Concurrent = False,
     op_Unique = False, op_IfNotExists = False, op_GeneratedStored = False, op_InlineConstraints = [], op_PartitionOf = False,
     op_Inherits = False, op_Like = False, op_OfType = False, op_ForeignKey = False, op_Default = DefaultNone,
     op_NewType = '''', op_NewTypeMods = [], op_NewTypeSchema = '''', op_NewTypeArray = False, op_NewTypeCollation = '''',
     op_HasUsing = False\<rparr>"

definition formatNewType :: "Op \<Rightarrow> string" where
  "formatNewType x =
     (if op_NewTypeSchema x \<noteq> '''' then op_NewTypeSchema x @ ''.'' @ op_NewType x else op_NewType x)
     @ (if op_NewTypeMods x \<noteq> [] then ''('' @ join '','' (map itoa (op_NewTypeMods x)) @ '')'' else '''')
     @ (if op_NewTypeArray x then ''[]'' else '''')
     @ (if op_NewTypeCollation x \<noteq> '''' then '' COLLATE '' @ op_NewTypeCollation x else '''')"

definition Describe :: "Op \<Rightarrow> string" where
  "Describe x =
     (case op_Kind x of
        OpCreateTable \<Rightarrow> if op_PartitionOf x then ''CREATE TABLE PARTITION OF'' else ''CREATE TABLE''
      | OpAddColumn \<Rightarrow> ''ADD COLUMN '' @ op_Column x
      | OpDropColumn \<Rightarrow> ''DROP COLUMN '' @ op_Column x
      | OpAlterColumnType \<Rightarrow> ''ALTER COLUMN '' @ op_Column x @ '' TYPE '' @ formatNewType x
      | OpSetDefault \<Rightarrow> ''ALTER COLUMN '' @ op_Column x @ '' SET DEFAULT''
      | OpDropDefault \<Rightarrow> ''ALTER COLUMN '' @ op_Column x @ '' DROP DEFAULT''
      | OpSetNotNull \<Rightarrow> ''ALTER COLUMN '' @ op_Column x @ '' SET NOT NULL''
      | OpDropNotNull \<Rightarrow> ''ALTER COLUMN '' @ op_Column x @ '' DROP NOT NULL''
      | OpSetColumnOptions \<Rightarrow> ''ALTER COLUMN '' @ op_Column x @ '' SET options''
      | OpRenameColumn \<Rightarrow> ''RENAME COLUMN '' @ op_Column x @ '' TO '' @ op_Name x
      | OpRenameTable \<Rightarrow> ''RENAME TO '' @ op_Name x
      | OpRenameIndex \<Rightarrow> ''RENAME INDEX TO '' @ op_Name x
      | OpSetSchema \<Rightarrow> ''SET SCHEMA '' @ op_Name x
      | OpSetTablespace \<Rightarrow> ''SET TABLESPACE '' @ op_Name x
      | OpSetRelOptions \<Rightarrow> ''SET storage parameters''
      | OpAddConstraint \<Rightarrow> ''ADD CONSTRAINT '' @ op_Name x
      | OpValidateConstraint \<Rightarrow> ''VALIDATE CONSTRAINT '' @ op_Name x
      | OpDropConstraint \<Rightarrow> ''DROP CONSTRAINT '' @ op_Name x
      | OpAttachPartition \<Rightarrow> ''ATTACH PARTITION''
      | OpDetachPartition \<Rightarrow> ''DETACH PARTITION''
      | OpCreateIndex \<Rightarrow> trimSpace (''CREATE INDEX '' @ op_Name x)
      | OpDropIndex \<Rightarrow> trimSpace (''DROP INDEX '' @ op_Name x)
      | OpReindex \<Rightarrow> trimSpace (''REINDEX '' @ op_Name x)
      | _ \<Rightarrow> ''unrecognized operation'')"

section \<open>Reading the tree\<close>

definition hasLikeClause :: "CreateStmt \<Rightarrow> bool" where
  "hasLikeClause create = (EltLike \<in> set (create_elts create))"

definition dropIndexNames :: "DropStmt \<Rightarrow> string" where
  "dropIndexNames d = join '', '' (map (join ''.'') (drop_objects d))"

definition droppedIndexes :: "DropStmt \<Rightarrow> string list" where
  "droppedIndexes d = map last (filter (\<lambda>items. items \<noteq> []) (drop_objects d))"

definition typmodValue :: "expr \<Rightarrow> int" where
  "typmodValue m = (case m of AConst (Some i) \<Rightarrow> i | _ \<Rightarrow> 0)"

definition typeRef :: "TypeName \<Rightarrow> string \<times> int list" where
  "typeRef tn =
     (if tn_names tn = [] then ('''', [])
      else (last (tn_names tn), map typmodValue (tn_typmods tn)))"

definition typeQualifiers :: "TypeName \<Rightarrow> string \<times> bool" where
  "typeQualifiers tn =
     (let array = (tn_arrayBounds tn \<noteq> []); names = tn_names tn in
      if length names < 2 then ('''', array)
      else let schema = names ! (length names - 2) in
        if schema = ''pg_catalog'' then ('''', array) else (schema, array))"

definition collationName :: "string list option \<Rightarrow> string" where
  "collationName coll = (case coll of None \<Rightarrow> '''' | Some parts \<Rightarrow> join ''.'' parts)"

definition isSerialType :: "string \<Rightarrow> bool" where
  "isSerialType name =
     (toLower name \<in> {''serial'', ''serial2'', ''serial4'', ''serial8'', ''smallserial'', ''bigserial''})"

fun isConstantExpr :: "expr \<Rightarrow> bool" where
  "isConstantExpr (AConst c) = True"
| "isConstantExpr (TypeCast arg rest) = isConstantExpr arg"
| "isConstantExpr e = False"

definition plainWord :: "TypeName \<Rightarrow> string" where
  "plainWord tn =
     (if length (tn_names tn) \<noteq> 1 \<or> tn_typmods tn \<noteq> [] \<or> tn_arrayBounds tn \<noteq> [] \<or> tn_setof tn \<or> tn_pctType tn
      then '''' else hd (tn_names tn))"

definition storageValue :: "defarg \<Rightarrow> string option" where
  "storageValue arg =
     (case arg of
        ArgString s \<Rightarrow> Some s
      | ArgInteger i \<Rightarrow> Some (itoa i)
      | ArgFloat f \<Rightarrow> Some f
      | ArgBoolean b \<Rightarrow> Some (if b then ''true'' else ''false'')
      | ArgTypeName tn \<Rightarrow> if plainWord tn \<noteq> '''' then Some (plainWord tn) else None
      | _ \<Rightarrow> None)"

definition storageParam :: "DefElem option \<Rightarrow> StorageParam option" where
  "storageParam de =
     (case de of
        None \<Rightarrow> None
      | Some d \<Rightarrow>
          if de_namespace d \<noteq> '''' then None
          else case de_arg d of
            None \<Rightarrow> Some \<lparr>sp_Name = de_defname d, sp_Value = '''', sp_HasValue = False\<rparr>
          | Some arg \<Rightarrow>
              (case storageValue arg of
                 None \<Rightarrow> None
               | Some v \<Rightarrow>
                   if char_of (92 :: nat) \<in> set v then None
                   else Some \<lparr>sp_Name = de_defname d, sp_Value = v, sp_HasValue = True\<rparr>))"

fun keyOptions :: "DefElem option list \<Rightarrow> Op \<Rightarrow> Op" where
  "keyOptions [] op = op"
| "keyOptions (d # ds) op =
     (case storageParam d of
        None \<Rightarrow> keyOptions ds (op\<lparr>op_IndexOptionsUnrenderable := True\<rparr>)
      | Some p \<Rightarrow> keyOptions ds (op\<lparr>op_IndexStorageParams := op_IndexStorageParams op @ [p]\<rparr>))"

definition keyIndexAttributes :: "Constraint \<Rightarrow> Op \<Rightarrow> Op" where
  "keyIndexAttributes con op =
     keyOptions (con_options con)
       (op\<lparr>op_IncludeColumns := op_IncludeColumns op @ con_including con,
          op_NullsNotDistinct := con_nullsNotDistinct con, op_Deferrable := con_deferrable con,
          op_InitiallyDeferred := con_initdeferred con, op_IndexTablespace := con_indexspace con\<rparr>)"

definition constraintKind :: "ConstrType \<Rightarrow> ConstraintKind" where
  "constraintKind t =
     (case t of
        CONSTR_PRIMARY \<Rightarrow> ConstraintPrimaryKey
      | CONSTR_UNIQUE \<Rightarrow> ConstraintUnique
      | CONSTR_CHECK \<Rightarrow> ConstraintCheck
      | CONSTR_FOREIGN \<Rightarrow> ConstraintForeignKey
      | CONSTR_NOTNULL \<Rightarrow> ConstraintNotNull
      | _ \<Rightarrow> ConstraintUnrecognized)"

definition addConstraintOp :: "Constraint \<Rightarrow> Op" where
  "addConstraintOp con =
     (let op = (mkOp OpAddConstraint)\<lparr>op_Name := con_conname con, op_NotValid := con_skipValidation con,
            op_UsingIndex := con_indexname con \<noteq> '''',
            op_Indexes := (if con_indexname con \<noteq> '''' then [con_indexname con] else []),
            op_Constraint := constraintKind (con_contype con), op_Columns := con_keys con\<rparr>
      in if op_Constraint op = ConstraintPrimaryKey \<or> op_Constraint op = ConstraintUnique
         then keyIndexAttributes con op else op)"

definition addColumnConstraint :: "Constraint \<Rightarrow> Op \<Rightarrow> Op" where
  "addColumnConstraint con op =
     (let inline = (\<lambda>k. op\<lparr>op_InlineConstraints := op_InlineConstraints op @ [k]\<rparr>) in
      case con_contype con of
        CONSTR_DEFAULT \<Rightarrow>
          op\<lparr>op_Default := (case con_rawExpr con of
              Some e \<Rightarrow> if isConstantExpr e then DefaultConstant else DefaultExpression
            | None \<Rightarrow> DefaultExpression)\<rparr>
      | CONSTR_IDENTITY \<Rightarrow> op\<lparr>op_Default := DefaultExpression\<rparr>
      | CONSTR_GENERATED \<Rightarrow> op\<lparr>op_GeneratedStored := True\<rparr>
      | CONSTR_NULL \<Rightarrow> op
      | CONSTR_NOTNULL \<Rightarrow> op
      | CONSTR_ATTR_DEFERRABLE \<Rightarrow> op
      | CONSTR_ATTR_NOT_DEFERRABLE \<Rightarrow> op
      | CONSTR_ATTR_DEFERRED \<Rightarrow> op
      | CONSTR_ATTR_IMMEDIATE \<Rightarrow> op
      | CONSTR_UNIQUE \<Rightarrow> inline ConstraintUnique
      | CONSTR_PRIMARY \<Rightarrow> inline ConstraintPrimaryKey
      | CONSTR_FOREIGN \<Rightarrow> inline ConstraintForeignKey
      | CONSTR_CHECK \<Rightarrow> inline ConstraintCheck
      | _ \<Rightarrow> inline ConstraintUnrecognized)"

definition addColumnOp :: "ColumnDef \<Rightarrow> Op" where
  "addColumnOp def =
     (case typeRef (cd_typeName def) of (name, mods) \<Rightarrow>
      case typeQualifiers (cd_typeName def) of (schema, array) \<Rightarrow>
        fold addColumnConstraint (cd_constraints def)
          ((mkOp OpAddColumn)\<lparr>op_Column := cd_colname def, op_NewType := name, op_NewTypeMods := mods,
             op_NewTypeSchema := schema, op_NewTypeArray := array,
             op_Default := (if isSerialType name then DefaultExpression else DefaultNone)\<rparr>))"

definition alterTableOp :: "AlterTableCmd \<Rightarrow> Op" where
  "alterTableOp cmd =
     (case at_subtype cmd of
        AT_AddColumn \<Rightarrow> addColumnOp (getColumnDef (at_def cmd))
      | AT_DropColumn \<Rightarrow> (mkOp OpDropColumn)\<lparr>op_Column := at_name cmd, op_Cascade := at_cascade cmd\<rparr>
      | AT_AlterColumnType \<Rightarrow>
          (let def = getColumnDef (at_def cmd) in
           case typeRef (cd_typeName def) of (name, mods) \<Rightarrow>
           case typeQualifiers (cd_typeName def) of (schema, array) \<Rightarrow>
             (mkOp OpAlterColumnType)\<lparr>op_Column := at_name cmd, op_NewType := name, op_NewTypeMods := mods,
                op_NewTypeSchema := schema, op_NewTypeArray := array, op_NewTypeCollation := collationName (cd_collClause def),
                op_HasUsing := cd_rawDefault def \<noteq> None\<rparr>)
      | AT_ColumnDefault \<Rightarrow>
          (if at_def cmd = DefNone then (mkOp OpDropDefault)\<lparr>op_Column := at_name cmd\<rparr>
           else (mkOp OpSetDefault)\<lparr>op_Column := at_name cmd\<rparr>)
      | AT_SetNotNull \<Rightarrow> (mkOp OpSetNotNull)\<lparr>op_Column := at_name cmd\<rparr>
      | AT_DropNotNull \<Rightarrow> (mkOp OpDropNotNull)\<lparr>op_Column := at_name cmd\<rparr>
      | AT_SetStatistics \<Rightarrow> (mkOp OpSetColumnOptions)\<lparr>op_Column := at_name cmd\<rparr>
      | AT_SetStorage \<Rightarrow> (mkOp OpSetColumnOptions)\<lparr>op_Column := at_name cmd\<rparr>
      | AT_SetOptions \<Rightarrow> (mkOp OpSetColumnOptions)\<lparr>op_Column := at_name cmd\<rparr>
      | AT_ResetOptions \<Rightarrow> (mkOp OpSetColumnOptions)\<lparr>op_Column := at_name cmd\<rparr>
      | AT_SetRelOptions \<Rightarrow> mkOp OpSetRelOptions
      | AT_ResetRelOptions \<Rightarrow> mkOp OpSetRelOptions
      | AT_SetTableSpace \<Rightarrow> (mkOp OpSetTablespace)\<lparr>op_Name := at_name cmd\<rparr>
      | AT_AddConstraint \<Rightarrow> addConstraintOp (getConstraint (at_def cmd))
      | AT_ValidateConstraint \<Rightarrow> (mkOp OpValidateConstraint)\<lparr>op_Name := at_name cmd\<rparr>
      | AT_DropConstraint \<Rightarrow> (mkOp OpDropConstraint)\<lparr>op_Name := at_name cmd, op_Cascade := at_cascade cmd\<rparr>
      | AT_AttachPartition \<Rightarrow> mkOp OpAttachPartition
      | AT_DetachPartition \<Rightarrow>
          (mkOp OpDetachPartition)\<lparr>op_Concurrent := (case at_def cmd of DefPartition c \<Rightarrow> c | _ \<Rightarrow> False)\<rparr>
      | AT_OTHER n \<Rightarrow> mkOp OpUnrecognized)"

definition renameOp :: "RenameStmt \<Rightarrow> Op" where
  "renameOp ren =
     (case ren_renameType ren of
        OBJECT_COLUMN \<Rightarrow> (mkOp OpRenameColumn)\<lparr>op_Column := ren_subname ren, op_Name := ren_newname ren\<rparr>
      | OBJECT_TABLE \<Rightarrow> (mkOp OpRenameTable)\<lparr>op_Name := ren_newname ren\<rparr>
      | OBJECT_INDEX \<Rightarrow> (mkOp OpRenameIndex)\<lparr>op_Name := ren_newname ren\<rparr>
      | _ \<Rightarrow> mkOp OpUnrecognized)"

definition optionEnabled :: "defarg option \<Rightarrow> bool" where
  "optionEnabled arg =
     (case arg of
        None \<Rightarrow> True
      | Some (ArgInteger i) \<Rightarrow> i \<noteq> 0
      | Some (ArgString s) \<Rightarrow> toLower s \<notin> {''false'', ''off''}
      | Some _ \<Rightarrow> True)"

text \<open>\<open>strings.EqualFold\<close>: no letter of the word folds with a character outside ASCII.\<close>

definition isConcurrentlyOption :: "DefElem option \<Rightarrow> bool" where
  "isConcurrentlyOption p = (toLower (de_defname (getDefElem p)) = ''concurrently'')"

definition reindexConcurrently :: "ReindexStmt \<Rightarrow> bool" where
  "reindexConcurrently stmt =
     fold (\<lambda>p concurrent. if isConcurrentlyOption p then optionEnabled (de_arg (getDefElem p)) else concurrent)
       (re_params stmt) False"

definition foreignKeyConstraints :: "CreateStmt \<Rightarrow> Constraint list" where
  "foreignKeyConstraints create =
     concat (map (\<lambda>elt. filter (\<lambda>con. con_contype con = CONSTR_FOREIGN)
         (case elt of EltConstraint con \<Rightarrow> [con] | EltColumn col \<Rightarrow> cd_constraints col | _ \<Rightarrow> []))
       (create_elts create))"

definition nodeOps :: "Node \<Rightarrow> Op list" where
  "nodeOps node =
     (case node of
        NAlterTable alter \<Rightarrow>
          if alter_objtype alter \<noteq> OBJECT_TABLE then [mkOp OpUnrecognized]
          else map (\<lambda>cmd. (alterTableOp cmd)\<lparr>op_Only := \<not> rv_inh (alter_relation alter)\<rparr>) (alter_cmds alter)
      | NCreate create \<Rightarrow>
          [(mkOp OpCreateTable)\<lparr>op_PartitionOf := create_partbound create,
             op_Inherits := \<not> create_partbound create \<and> create_inhRelations create \<noteq> [],
             op_Like := hasLikeClause create, op_OfType := create_ofTypename create,
             op_ForeignKey := foreignKeyConstraints create \<noteq> [], op_IfNotExists := create_ifNotExists create\<rparr>]
      | NIndex idx \<Rightarrow>
          [(mkOp OpCreateIndex)\<lparr>op_Name := idx_name idx, op_Concurrent := idx_concurrent idx, op_Unique := idx_unique idx,
             op_IfNotExists := idx_ifNotExists idx\<rparr>]
      | NDrop d \<Rightarrow>
          if drop_removeType d \<noteq> OBJECT_INDEX then [mkOp OpUnrecognized]
          else [(mkOp OpDropIndex)\<lparr>op_Name := dropIndexNames d, op_Indexes := droppedIndexes d,
                   op_Concurrent := drop_concurrent d, op_Cascade := drop_cascade d\<rparr>]
      | NReindex re \<Rightarrow>
          [(mkOp OpReindex)\<lparr>op_Name := rv_relname (re_relation re), op_Concurrent := reindexConcurrently re\<rparr>]
      | NRename ren \<Rightarrow> [renameOp ren]
      | NAlterObjectSchema move \<Rightarrow>
          if move_objectType move \<noteq> OBJECT_TABLE then [mkOp OpUnrecognized]
          else [(mkOp OpSetSchema)\<lparr>op_Name := move_newschema move\<rparr>]
      | _ \<Rightarrow> [mkOp OpUnrecognized])"

definition ParseOps :: "pgquery \<Rightarrow> string \<Rightarrow> statement_error + Op list" where
  "ParseOps Q sql = (case parseSingle Q sql of Inl e \<Rightarrow> Inl e | Inr node \<Rightarrow> Inr (nodeOps node))"

section \<open>The statement\<close>

datatype Kind =
    KindOther | KindAlterTable | KindCreateIndex | KindDropIndex | KindReindex | KindCreateTable | KindDataChange
  | KindProvisioning | KindCatalogWork | KindRenameIndex

definition Kind_String :: "Kind \<Rightarrow> string" where
  "Kind_String k =
     (case k of
        KindAlterTable \<Rightarrow> ''ALTER TABLE''
      | KindCreateIndex \<Rightarrow> ''CREATE INDEX''
      | KindDropIndex \<Rightarrow> ''DROP INDEX''
      | KindReindex \<Rightarrow> ''REINDEX''
      | KindCreateTable \<Rightarrow> ''CREATE TABLE''
      | KindDataChange \<Rightarrow> ''data change''
      | KindProvisioning \<Rightarrow> ''provisioning''
      | KindCatalogWork \<Rightarrow> ''catalog work''
      | KindRenameIndex \<Rightarrow> ''ALTER INDEX RENAME''
      | KindOther \<Rightarrow> ''other'')"

datatype IndexTarget = IndexTargetNone | IndexTargetSingleRelation | IndexTargetOther
datatype IndexRelationKind = IndexRelationNone | IndexRelationIndex | IndexRelationTable

record IndexRelation =
  ir_Schema :: string
  ir_Name :: string
  ir_Kind :: IndexRelationKind

record Statement =
  stm_sql :: string
  stm_kind :: Kind
  stm_schema :: string
  stm_table :: string
  stm_concurrent :: bool
  stm_indexTarget :: IndexTarget
  stm_indexRelation :: IndexRelation
  stm_renamedTo :: string
  stm_cascades :: bool
  stm_buildsIndex :: bool

definition mkStatement :: "string \<Rightarrow> Statement" where
  "mkStatement sql = \<lparr>stm_sql = sql, stm_kind = KindOther, stm_schema = '''', stm_table = '''', stm_concurrent = False,
     stm_indexTarget = IndexTargetNone,
     stm_indexRelation = \<lparr>ir_Schema = '''', ir_Name = '''', ir_Kind = IndexRelationNone\<rparr>, stm_renamedTo = '''',
     stm_cascades = False, stm_buildsIndex = False\<rparr>"

definition constraintBuildsIndex :: "Constraint \<Rightarrow> bool" where
  "constraintBuildsIndex con =
     (con_indexname con = '''' \<and> con_contype con \<in> {CONSTR_UNIQUE, CONSTR_PRIMARY, CONSTR_EXCLUSION})"

definition alterBuildsIndex :: "AlterTableStmt \<Rightarrow> bool" where
  "alterBuildsIndex alter =
     (\<exists>cmd \<in> set (alter_cmds alter).
        (case at_subtype cmd of
           AT_AddConstraint \<Rightarrow> constraintBuildsIndex (getConstraint (at_def cmd))
         | AT_AddColumn \<Rightarrow> (\<exists>c \<in> set (cd_constraints (getColumnDef (at_def cmd))). constraintBuildsIndex c)
         | _ \<Rightarrow> False))"

definition droppedIndex :: "string list \<Rightarrow> IndexRelation" where
  "droppedIndex items =
     (let rel = \<lparr>ir_Schema = '''', ir_Name = '''', ir_Kind = IndexRelationIndex\<rparr> in
      if items = [] then rel
      else let rel = rel\<lparr>ir_Name := last items\<rparr> in
        if length items > 1 then rel\<lparr>ir_Schema := items ! (length items - 2)\<rparr> else rel)"

definition reindexedRelation :: "RangeVar \<Rightarrow> IndexRelationKind \<Rightarrow> IndexRelation" where
  "reindexedRelation rel kind = \<lparr>ir_Schema = rv_schemaname rel, ir_Name = rv_relname rel, ir_Kind = kind\<rparr>"

definition onTable :: "RangeVar \<Rightarrow> Kind \<Rightarrow> Statement \<Rightarrow> Statement" where
  "onTable rel kind st = st\<lparr>stm_kind := kind, stm_schema := rv_schemaname rel, stm_table := rv_relname rel\<rparr>"

definition renameStatement :: "RenameStmt \<Rightarrow> Statement \<Rightarrow> Statement" where
  "renameStatement ren st =
     (if ren_renameType ren = OBJECT_INDEX
      then st\<lparr>stm_kind := KindRenameIndex, stm_indexTarget := IndexTargetSingleRelation,
              stm_indexRelation := reindexedRelation (ren_relation ren) IndexRelationIndex, stm_renamedTo := ren_newname ren\<rparr>
      else if ren_renameType ren \<noteq> OBJECT_TABLE \<and> ren_renameType ren \<noteq> OBJECT_TABCONSTRAINT \<and> ren_relationType ren \<noteq> OBJECT_TABLE
      then st
      else onTable (ren_relation ren) KindAlterTable st)"

definition dropStatement :: "DropStmt \<Rightarrow> Statement \<Rightarrow> Statement" where
  "dropStatement d st =
     (if drop_removeType d = OBJECT_INDEX
      then let st = st\<lparr>stm_kind := KindDropIndex, stm_concurrent := drop_concurrent d, stm_cascades := drop_cascade d\<rparr> in
        (if length (drop_objects d) = 1 \<and> \<not> stm_cascades st
         then st\<lparr>stm_indexTarget := IndexTargetSingleRelation, stm_indexRelation := droppedIndex (hd (drop_objects d))\<rparr>
         else st\<lparr>stm_indexTarget := IndexTargetOther\<rparr>)
      else st\<lparr>stm_kind := KindCatalogWork\<rparr>)"

definition reindexStatement :: "ReindexStmt \<Rightarrow> Statement \<Rightarrow> Statement" where
  "reindexStatement re st =
     (let st = st\<lparr>stm_kind := KindReindex, stm_concurrent := reindexConcurrently re\<rparr> in
      case re_kind re of
        REINDEX_OBJECT_INDEX \<Rightarrow>
          st\<lparr>stm_indexTarget := IndexTargetSingleRelation, stm_indexRelation := reindexedRelation (re_relation re) IndexRelationIndex\<rparr>
      | REINDEX_OBJECT_TABLE \<Rightarrow>
          st\<lparr>stm_indexTarget := IndexTargetSingleRelation, stm_indexRelation := reindexedRelation (re_relation re) IndexRelationTable\<rparr>
      | REINDEX_OBJECT_OTHER n \<Rightarrow> st\<lparr>stm_indexTarget := IndexTargetOther\<rparr>)"

definition nodeStatement :: "Node \<Rightarrow> Statement \<Rightarrow> Statement" where
  "nodeStatement node st =
     (case node of
        NAlterTable alter \<Rightarrow>
          if alter_objtype alter \<noteq> OBJECT_TABLE then st
          else (onTable (alter_relation alter) KindAlterTable st)\<lparr>stm_buildsIndex := alterBuildsIndex alter\<rparr>
      | NCreate create \<Rightarrow> onTable (create_relation create) KindCreateTable st
      | NRename ren \<Rightarrow> renameStatement ren st
      | NAlterObjectSchema move \<Rightarrow>
          if move_objectType move \<noteq> OBJECT_TABLE then st else onTable (move_relation move) KindAlterTable st
      | NIndex idx \<Rightarrow>
          (onTable (idx_relation idx) KindCreateIndex st)\<lparr>stm_concurrent := idx_concurrent idx, stm_buildsIndex := True\<rparr>
      | NDrop d \<Rightarrow> dropStatement d st
      | NReindex re \<Rightarrow> reindexStatement re st
      | NOther n \<Rightarrow> st
      | _ \<Rightarrow>
          if node \<in> {InsertStmt, UpdateStmt, DeleteStmt, MergeStmt} then st\<lparr>stm_kind := KindDataChange\<rparr>
          else if node \<in> {GrantStmt, GrantRoleStmt, CreateRoleStmt, AlterRoleStmt, CreatePolicyStmt, AlterPolicyStmt,
              CreatePublicationStmt, AlterPublicationStmt, CreateSubscriptionStmt, AlterSubscriptionStmt}
          then st\<lparr>stm_kind := KindProvisioning\<rparr>
          else st\<lparr>stm_kind := KindCatalogWork\<rparr>)"

definition ParseOne :: "pgquery \<Rightarrow> string \<Rightarrow> statement_error + Statement" where
  "ParseOne Q sql = (case parseSingle Q sql of Inl e \<Rightarrow> Inl e | Inr node \<Rightarrow> Inr (nodeStatement node (mkStatement sql)))"

end
