(* ===== verification/Statement_Names.thy ===== *)
theory Statement_Names
  imports Statement_Ops
begin

text \<open>
  The rewrites of a statement into its online form and the names they state
  (\<open>pkg/statement/rewrite.go\<close>, and \<open>makeObjectName\<close> of
  \<open>pkg/statement/implicit.go\<close>). A Go slice expression that would panic is
  \<open>None\<close>; the theory proves that it never does, that the search for a free
  constraint name ends, and that the name fits the server's limit.
\<close>

section \<open>Object names\<close>

definition nameDataLen :: int where
  "nameDataLen = 63"

fun backOff :: "string \<Rightarrow> nat \<Rightarrow> nat" where
  "backOff s 0 = 0"
| "backOff s (Suc n) = (if \<not> runeStart (s ! Suc n) then backOff s n else Suc n)"

definition clipToRuneBoundary :: "string \<Rightarrow> int \<Rightarrow> string option" where
  "clipToRuneBoundary s n =
     (if int (length s) \<le> n then Some s
      else if n < 0 then None
      else Some (take (backOff s (nat n)) s))"

function shrink :: "int \<Rightarrow> int \<Rightarrow> int \<Rightarrow> int \<times> int" where
  "shrink avail n1 n2 =
     (if n1 + n2 > avail then if n1 > n2 then shrink avail (n1 - 1) n2 else shrink avail n1 (n2 - 1) else (n1, n2))"
  by auto
termination by (relation "measure (\<lambda>(avail, n1, n2). nat (n1 + n2 - avail))") auto

declare shrink.simps [simp del]

definition makeObjectName :: "string \<Rightarrow> string \<Rightarrow> string \<Rightarrow> string option" where
  "makeObjectName name1 name2 label =
     (let overhead = int (length label) + 1 + (if name2 \<noteq> '''' then 1 else 0);
          avail = nameDataLen - overhead
      in case shrink avail (int (length name1)) (int (length name2)) of (n1, n2) \<Rightarrow>
        (case clipToRuneBoundary name1 n1 of
           None \<Rightarrow> None
         | Some c1 \<Rightarrow>
             if name2 = '''' then Some (c1 @ ''_'' @ label)
             else case clipToRuneBoundary name2 n2 of
               None \<Rightarrow> None
             | Some c2 \<Rightarrow> Some (c1 @ ''_'' @ c2 @ ''_'' @ label)))"

section \<open>The columns a CHECK reads\<close>

record ConstraintNaming =
  cn_Columns :: "string list option"
  cn_Taken :: "string list"

definition wholeRowRef :: string where
  "wholeRowRef = ''''"

definition stringOf :: "expr \<Rightarrow> string" where
  "stringOf e = (case e of StringNode s \<Rightarrow> s | _ \<Rightarrow> '''')"

definition checkColumn :: "expr list \<Rightarrow> string \<Rightarrow> string list option \<Rightarrow> string option" where
  "checkColumn parts table columns =
     (if parts = [] then None
      else if last parts = AStar then Some wholeRowRef
      else let name = stringOf (last parts) in
        if length parts = 1 \<and> name = table \<and> (case columns of None \<Rightarrow> False | Some cs \<Rightarrow> name \<notin> set cs)
        then Some wholeRowRef else Some name)"

definition wholeRowField :: "expr \<Rightarrow> expr list \<Rightarrow> string \<Rightarrow> string list option \<Rightarrow> string option" where
  "wholeRowField arg inds table columns =
     (case arg of
        ColumnRef parts \<Rightarrow>
          (case inds of
             StringNode field # _ \<Rightarrow> if checkColumn parts table columns = Some wholeRowRef then Some field else None
           | _ \<Rightarrow> None)
      | _ \<Rightarrow> None)"

definition isWholeRowStar :: "expr list \<Rightarrow> string \<Rightarrow> bool" where
  "isWholeRowStar parts table =
     (if parts = [] \<or> last parts \<noteq> AStar then False
      else length parts = 1 \<or> stringOf (parts ! (length parts - 2)) = table)"

text \<open>
  The walk adds the names it has not met. The order in which it visits the
  fields of a message and the columns of an expanded star is not specified; the
  tree and the column list give one.
\<close>

definition addName :: "string \<Rightarrow> string list \<Rightarrow> string list" where
  "addName name names = (if name \<in> set names then names else names @ [name])"

fun checkColumns :: "string \<Rightarrow> string list option \<Rightarrow> expr \<Rightarrow> string list \<Rightarrow> string list" where
  "checkColumns table columns (ColumnRef parts) names =
     (case checkColumn parts table columns of None \<Rightarrow> names | Some name \<Rightarrow> addName name names)"
| "checkColumns table columns (AIndirection arg []) names = checkColumns table columns arg names"
| "checkColumns table columns (AIndirection arg (ind # inds)) names =
     (case wholeRowField arg (ind # inds) table columns of
        Some field \<Rightarrow> fold (checkColumns table columns) inds (addName field names)
      | None \<Rightarrow> fold (checkColumns table columns) (ind # inds) (checkColumns table columns arg names))"
| "checkColumns table columns (RowExpr args) names =
     fold (\<lambda>arg names.
         (case (arg, columns) of
            (ColumnRef parts, Some cs) \<Rightarrow>
              if isWholeRowStar parts table then fold addName cs names else checkColumns table columns arg names
          | _ \<Rightarrow> checkColumns table columns arg names)) args names"
| "checkColumns table columns (TypeCast arg rest) names =
     fold (checkColumns table columns) rest (checkColumns table columns arg names)"
| "checkColumns table columns (OtherExpr es) names = fold (checkColumns table columns) es names"
| "checkColumns table columns _ names = names"

section \<open>Naming an unnamed constraint\<close>

definition firstName :: "string \<Rightarrow> Constraint \<Rightarrow> ConstraintNaming \<Rightarrow> string \<times> string" where
  "firstName table con naming =
     (if con_contype con = CONSTR_FOREIGN then (join ''_'' (con_fkAttrs con), ''fkey'')
      else let refs = (case con_rawExpr con of None \<Rightarrow> [] | Some e \<Rightarrow> checkColumns table (cn_Columns naming) e [])
        in (if length refs = 1 \<and> refs ! 0 \<noteq> wholeRowRef then refs ! 0 else '''', ''check''))"

text \<open>The search for a free name, with at most \<open>fuel\<close> further candidates.\<close>

fun nextName :: "nat \<Rightarrow> nat \<Rightarrow> string \<Rightarrow> string \<Rightarrow> string \<Rightarrow> string list \<Rightarrow> string \<Rightarrow> string option" where
  "nextName 0 pass table column label taken name = (if name \<in> set taken then None else Some name)"
| "nextName (Suc fuel) pass table column label taken name =
     (if name \<in> set taken
      then case makeObjectName table column (label @ itoa (int pass)) of
             None \<Rightarrow> None
           | Some name' \<Rightarrow> nextName fuel (Suc pass) table column label taken name'
      else Some name)"

definition defaultConstraintName :: "nat \<Rightarrow> string \<Rightarrow> Constraint \<Rightarrow> ConstraintNaming \<Rightarrow> string option" where
  "defaultConstraintName fuel table con naming =
     (case firstName table con naming of (column, label) \<Rightarrow>
        (case makeObjectName table column label of
           None \<Rightarrow> None
         | Some name \<Rightarrow> nextName fuel 1 table column label (cn_Taken naming) name))"

section \<open>The rewrites\<close>

definition detachPartitionCmd :: "Node \<Rightarrow> (AlterTableStmt \<times> AlterTableCmd) option" where
  "detachPartitionCmd node =
     (case node of
        NAlterTable alter \<Rightarrow>
          (case alter_cmds alter of
             [cmd] \<Rightarrow>
               if at_subtype cmd \<noteq> AT_DetachPartition then None
               else (case at_def cmd of DefPartition _ \<Rightarrow> Some (alter, cmd) | _ \<Rightarrow> None)
           | _ \<Rightarrow> None)
      | _ \<Rightarrow> None)"

definition concurrentNode :: "Node \<Rightarrow> Node option" where
  "concurrentNode node =
     (case node of
        NIndex idx \<Rightarrow> Some (NIndex (idx\<lparr>idx_concurrent := True\<rparr>))
      | NDrop d \<Rightarrow> if drop_removeType d = OBJECT_INDEX then Some (NDrop (d\<lparr>drop_concurrent := True\<rparr>)) else None
      | NReindex re \<Rightarrow>
          Some (NReindex (if reindexConcurrently re then re
            else re\<lparr>re_params := filter (\<lambda>p. \<not> isConcurrentlyOption p) (re_params re)
                   @ [Some \<lparr>de_namespace = '''', de_defname = ''concurrently'', de_arg = None\<rparr>]\<rparr>))
      | _ \<Rightarrow>
          (case detachPartitionCmd node of
             None \<Rightarrow> None
           | Some (alter, cmd) \<Rightarrow> Some (NAlterTable (alter\<lparr>alter_cmds := [cmd\<lparr>at_def := DefPartition True\<rparr>]\<rparr>))))"

definition Concurrently :: "pgquery \<Rightarrow> string \<Rightarrow> statement_error + string" where
  "Concurrently Q sql =
     (case parseSingle Q sql of
        Inl e \<Rightarrow> Inl e
      | Inr node \<Rightarrow> (case concurrentNode node of None \<Rightarrow> Inl ErrNotRewritable | Some node' \<Rightarrow> deparseOne Q node'))"

definition notValidConstraint :: "nat \<Rightarrow> string \<Rightarrow> ConstraintNaming \<Rightarrow> Constraint \<Rightarrow> Constraint option" where
  "notValidConstraint fuel table naming con =
     (case (if con_conname con = '''' then defaultConstraintName fuel table con naming else Some (con_conname con)) of
        None \<Rightarrow> None
      | Some name \<Rightarrow> Some (con\<lparr>con_conname := name, con_skipValidation := True, con_initiallyValid := False\<rparr>))"

text \<open>\<open>Inr None\<close> stands for a search that did not end or a panic, which the theorems below exclude.\<close>

definition AddNotValid :: "nat \<Rightarrow> pgquery \<Rightarrow> string \<Rightarrow> ConstraintNaming \<Rightarrow> statement_error + (string \<times> string) option" where
  "AddNotValid fuel Q sql naming =
     (case parseSingle Q sql of
        Inl e \<Rightarrow> Inl e
      | Inr (NAlterTable alter) \<Rightarrow>
          (if alter_objtype alter \<noteq> OBJECT_TABLE then Inl ErrNotValidNotApplicable
           else case alter_cmds alter of
             [cmd] \<Rightarrow>
               if at_subtype cmd \<noteq> AT_AddConstraint then Inl ErrNotValidNotApplicable
               else let con = getConstraint (at_def cmd) in
                 if con_contype con \<noteq> CONSTR_CHECK \<and> con_contype con \<noteq> CONSTR_FOREIGN then Inl ErrNotValidNotApplicable
                 else (case notValidConstraint fuel (rv_relname (alter_relation alter)) naming con of
                     None \<Rightarrow> Inr None
                   | Some con' \<Rightarrow>
                       (case deparseOne Q (NAlterTable (alter\<lparr>alter_cmds := [cmd\<lparr>at_def := DefConstraint con'\<rparr>]\<rparr>)) of
                          Inl e \<Rightarrow> Inl e
                        | Inr out \<Rightarrow> Inr (Some (out, con_conname con'))))
           | _ \<Rightarrow> Inl ErrNotValidNotApplicable)
      | Inr _ \<Rightarrow> Inl ErrNotValidNotApplicable)"

section \<open>Names fit and stay well formed\<close>

lemma shrink_bounds:
  "0 \<le> n1 \<Longrightarrow> 0 \<le> n2 \<Longrightarrow> 0 \<le> avail \<Longrightarrow> shrink avail n1 n2 = (m1, m2) \<Longrightarrow>
     0 \<le> m1 \<and> m1 \<le> n1 \<and> 0 \<le> m2 \<and> m2 \<le> n2 \<and> m1 + m2 \<le> avail"
proof (induction avail n1 n2 rule: shrink.induct)
  case (1 avail n1 n2)
  show ?case
  proof (cases "n1 + n2 > avail")
    case True
    show ?thesis
    proof (cases "n1 > n2")
      case gt: True
      then have "shrink avail (n1 - 1) n2 = (m1, m2)" using 1(6) True by (simp add: shrink.simps [of avail n1 n2])
      then show ?thesis using 1(1) [OF True gt] 1(3-5) gt by simp
    next
      case le: False
      then have "shrink avail n1 (n2 - 1) = (m1, m2)" using 1(6) True by (simp add: shrink.simps [of avail n1 n2])
      then show ?thesis using 1(2) [OF True le] 1(3-5) le True by simp
    qed
  next
    case False
    then show ?thesis using 1(3-6) by (simp add: shrink.simps [of avail n1 n2])
  qed
qed

lemma backOff_le: "backOff s n \<le> n"
  by (induction n) auto

lemma clip_Some:
  assumes "0 \<le> n"
  shows "\<exists>c. clipToRuneBoundary s n = Some c \<and> int (length c) \<le> n"
  using assms backOff_le [of s "nat n"] by (auto simp: clipToRuneBoundary_def)

lemma makeObjectName_Some:
  assumes "length label \<le> 61"
  shows "\<exists>c. makeObjectName name1 name2 label = Some (c @ ''_'' @ label) \<and> length (c @ ''_'' @ label) \<le> 63"
proof -
  let ?avail = "nameDataLen - (int (length label) + 1 + (if name2 \<noteq> '''' then 1 else 0))"
  obtain n1 n2 where sh: "shrink ?avail (int (length name1)) (int (length name2)) = (n1, n2)" by fastforce
  have "0 \<le> ?avail" using assms by (simp add: nameDataLen_def)
  then have n: "0 \<le> n1" "0 \<le> n2" "n1 + n2 \<le> ?avail" using shrink_bounds [OF _ _ _ sh] by auto
  obtain c1 c2 where c: "clipToRuneBoundary name1 n1 = Some c1" "int (length c1) \<le> n1"
    "clipToRuneBoundary name2 n2 = Some c2" "int (length c2) \<le> n2"
    using clip_Some [OF n(1)] clip_Some [OF n(2)] by metis
  show ?thesis
  proof (cases "name2 = ''''")
    case True
    then show ?thesis using sh c n by (auto simp: makeObjectName_def nameDataLen_def)
  next
    case False
    then have "makeObjectName name1 name2 label = Some ((c1 @ ''_'' @ c2) @ ''_'' @ label)"
      using sh c by (simp add: makeObjectName_def)
    moreover have "length ((c1 @ ''_'' @ c2) @ ''_'' @ label) \<le> 63" using c n False by (simp add: nameDataLen_def)
    ultimately show ?thesis by blast
  qed
qed

section \<open>The search for a free name\<close>

lemma decStr_length: "n < 10 ^ Suc k \<Longrightarrow> length (decStr n) \<le> Suc k"
proof (induction k arbitrary: n)
  case (Suc k)
  show ?case
  proof (cases "n < 10")
    case False
    have "n div 10 < 10 ^ Suc k" using Suc.prems by (simp add: less_mult_imp_div_less mult.commute)
    then show ?thesis using Suc.IH [of "n div 10"] False by (simp add: decStr.simps [of n])
  qed (simp add: decStr.simps)
qed (simp add: decStr.simps)

lemma decStr_inject: "decStr m = decStr n \<Longrightarrow> m = n"
  using parseDigits_decStr by (metis option.inject)

lemma decStr_no_underscore: "CHR ''_'' \<notin> set (decStr n)"
  using decStr_chars [of "CHR ''_''" n] by auto

lemma last_part:
  assumes "a @ sep # b = c @ sep # d" "sep \<notin> set b" "sep \<notin> set d"
  shows "b = d"
  using assms
proof -
  have "rev b @ sep # rev a = rev d @ sep # rev c" using arg_cong [OF assms(1), of rev] by simp
  moreover have "sep \<notin> set xs \<Longrightarrow> takeWhile (\<lambda>x. x \<noteq> sep) (xs @ sep # ys) = xs" for xs ys by (induction xs) auto
  ultimately show ?thesis using assms(2,3) by (metis rev_rev_ident set_rev)
qed

definition candidate :: "string \<Rightarrow> string \<Rightarrow> string \<Rightarrow> nat \<Rightarrow> string" where
  "candidate table column label pass = the (makeObjectName table column (label @ itoa (int pass)))"

lemma candidate_ok:
  assumes "length label \<le> 11" "pass < 10 ^ 50"
  shows "makeObjectName table column (label @ itoa (int pass)) = Some (candidate table column label pass)"
    "length (candidate table column label pass) \<le> 63"
    "\<exists>c. candidate table column label pass = c @ CHR ''_'' # label @ decStr pass"
proof -
  have i: "itoa (int pass) = decStr pass" by (simp add: itoa_def)
  have "length (decStr pass) \<le> 50" using decStr_length [of pass 49] assms(2) by simp
  then have "length (label @ decStr pass) \<le> 61" using assms(1) by simp
  then obtain c where c: "makeObjectName table column (label @ decStr pass) = Some (c @ ''_'' @ label @ decStr pass)"
    "length (c @ ''_'' @ label @ decStr pass) \<le> 63"
    using makeObjectName_Some by blast
  then show "makeObjectName table column (label @ itoa (int pass)) = Some (candidate table column label pass)"
    "length (candidate table column label pass) \<le> 63"
    "\<exists>c. candidate table column label pass = c @ CHR ''_'' # label @ decStr pass"
    by (auto simp: candidate_def i)
qed

lemma candidate_inj:
  assumes "length label \<le> 11" "CHR ''_'' \<notin> set label"
  shows "inj_on (candidate table column label) {p. p < 10 ^ 50}"
proof (rule inj_onI)
  fix p q assume pq: "p \<in> {p. p < 10 ^ 50}" "q \<in> {p. p < 10 ^ 50}" "candidate table column label p = candidate table column label q"
  then obtain c d where "c @ CHR ''_'' # label @ decStr p = d @ CHR ''_'' # label @ decStr q"
    using candidate_ok(3) [OF assms(1)] by (metis mem_Collect_eq)
  then have "label @ decStr p = label @ decStr q"
    by (rule last_part) (use assms(2) decStr_no_underscore in auto)
  then show "p = q" using decStr_inject by simp
qed

lemma nextName_None:
  assumes "nextName fuel pass table column label taken name = None" "length label \<le> 11" "pass + fuel < 10 ^ 50"
  shows "candidate table column label ` {pass..<pass + fuel} \<subseteq> set taken"
  using assms
proof (induction fuel arbitrary: pass name)
  case (Suc fuel)
  have ok: "makeObjectName table column (label @ itoa (int pass)) = Some (candidate table column label pass)"
    using candidate_ok(1) Suc.prems(2,3) by simp
  then have nxt: "nextName fuel (Suc pass) table column label taken (candidate table column label pass) = None"
    using Suc.prems(1) by (auto split: if_splits)
  then have "candidate table column label pass \<in> set taken" by (cases fuel) (auto split: if_splits)
  moreover have "candidate table column label ` {Suc pass..<Suc pass + fuel} \<subseteq> set taken"
    using Suc.IH [OF nxt] Suc.prems by simp
  moreover have "{pass..<pass + Suc fuel} = insert pass {Suc pass..<Suc pass + fuel}" by auto
  ultimately show ?case by simp
qed simp

lemma nextName_Some:
  assumes "nextName fuel pass table column label taken name = Some name'" "length label \<le> 11" "pass + fuel < 10 ^ 50" "length name \<le> 63"
  shows "name' \<notin> set taken \<and> length name' \<le> 63"
  using assms
proof (induction fuel arbitrary: pass name)
  case (Suc fuel)
  have ok: "makeObjectName table column (label @ itoa (int pass)) = Some (candidate table column label pass)"
    "length (candidate table column label pass) \<le> 63"
    using candidate_ok Suc.prems(2,3) by simp_all
  then show ?case using Suc by (auto split: if_splits)
qed (auto split: if_splits)

lemma nextName_more:
  "nextName fuel pass table column label taken name = Some name' \<Longrightarrow>
     nextName (fuel + k) pass table column label taken name = Some name'"
proof (induction fuel arbitrary: pass name)
  case 0
  then show ?case by (cases k) (auto split: if_splits)
next
  case (Suc fuel)
  then show ?case by (auto split: if_splits option.splits)
qed

lemma nextName_found:
  assumes "length label \<le> 11" "CHR ''_'' \<notin> set label" "length taken < fuel" "pass + fuel < 10 ^ 50"
  shows "nextName fuel pass table column label taken name \<noteq> None"
proof
  assume "nextName fuel pass table column label taken name = None"
  then have sub: "candidate table column label ` {pass..<pass + fuel} \<subseteq> set taken"
    using nextName_None assms(1,4) by blast
  have "inj_on (candidate table column label) {pass..<pass + fuel}"
    using assms(4) by (intro inj_on_subset [OF candidate_inj [OF assms(1,2)]]) auto
  then have "card (candidate table column label ` {pass..<pass + fuel}) = fuel" by (simp add: card_image)
  then have "fuel \<le> length taken" using card_mono [OF finite_set sub] card_length [of taken] by linarith
  then show False using assms(3) by simp
qed

section \<open>Properties\<close>

lemma firstName_label: "firstName table con naming = (column, label) \<Longrightarrow> label = ''fkey'' \<or> label = ''check''"
  by (auto simp: firstName_def Let_def split: if_splits)

text \<open>
  Naming an unnamed constraint always ends, without a slice out of range,
  in a free name the server keeps as it is. Whatever the table, the columns a
  CHECK or FOREIGN KEY reads, and the names already in the schema, the search
  for a name finds one after at most as many further candidates as there are
  taken names, and any larger number of steps finds the same; the name is not
  taken and is at most 63 bytes long, so the server does not truncate it.
\<close>

theorem constraint_name_found:
  assumes "length (cn_Taken naming) < 10 ^ 49"
  shows "\<exists>name. (\<forall>fuel > length (cn_Taken naming). defaultConstraintName fuel table con naming = Some name) \<and>
    name \<notin> set (cn_Taken naming) \<and> length name \<le> 63"
proof -
  let ?t = "cn_Taken naming" and ?f = "Suc (length (cn_Taken naming))"
  obtain column label where fn: "firstName table con naming = (column, label)" by fastforce
  then have label: "length label \<le> 11" "CHR ''_'' \<notin> set label" using firstName_label [OF fn] by auto
  obtain c where c: "makeObjectName table column label = Some (c @ ''_'' @ label)" "length (c @ ''_'' @ label) \<le> 63"
    using makeObjectName_Some [of label table column] label(1) by auto
  have f: "1 + ?f < 10 ^ 50" using assms by simp
  obtain name where n: "nextName ?f 1 table column label ?t (c @ ''_'' @ label) = Some name"
    using nextName_found [OF label _ f, of ?t table column "c @ ''_'' @ label"] by auto
  have "defaultConstraintName fuel table con naming = Some name" if "length ?t < fuel" for fuel
    using nextName_more [OF n, of "fuel - ?f"] that c(1) fn by (simp add: defaultConstraintName_def)
  moreover have "name \<notin> set ?t \<and> length name \<le> 63" using nextName_Some [OF n label(1) f c(2)] .
  ultimately show ?thesis by blast
qed

definition example_naming :: ConstraintNaming where
  "example_naming = \<lparr>cn_Columns = None, cn_Taken = [''orders_qty_check'', ''orders_qty_check1'']\<rparr>"

definition example_check :: Constraint where
  "example_check = zeroConstraint\<lparr>con_contype := CONSTR_CHECK,
     con_rawExpr := Some (OtherExpr [ColumnRef [StringNode ''qty''], AConst (Some 0)])\<rparr>"

theorem constraint_name_found_witness:
  "defaultConstraintName 3 ''orders'' example_check example_naming = Some ''orders_qty_check2'' \<and>
   (\<exists>name. name \<notin> set (cn_Taken example_naming) \<and> length name \<le> 63)"
proof -
  have "defaultConstraintName 3 ''orders'' example_check example_naming = Some ''orders_qty_check2''"
    by code_simp
  moreover have "length (cn_Taken example_naming) < 10 ^ 49" by (simp add: example_naming_def)
  from constraint_name_found [OF this, of "''orders''" example_check]
  have "\<exists>name. name \<notin> set (cn_Taken example_naming) \<and> length name \<le> 63" by blast
  ultimately show ?thesis by blast
qed

end
