(* ===== verification/Schema_Model.thy ===== *)
theory Schema_Model
  imports Statement_Ops
begin

text \<open>
  The canonical description of one table (\<open>pkg/schemadiff/schemadiff.go\<close> and the
  types of \<open>row_security.go\<close>): columns with the declaration of the sequence they
  own, constraints and indexes with the server's text of their definition, and
  what the table's replica identity is built on.
\<close>

section \<open>Columns\<close>

datatype Identity = IdentityNone | IdentityAlways | IdentityByDefault | IdentityOther string

record SequenceOptions =
  so_Type :: string
  so_Start :: int64
  so_Increment :: int64
  so_Min :: int64
  so_Max :: int64
  so_Cache :: int64
  so_Cycle :: bool

record SchemaColumn =
  sc_Name :: string
  sc_Type :: string
  sc_NotNull :: bool
  sc_Default :: string
  sc_SequenceDefault :: bool
  sc_SequenceOwned :: bool
  sc_Collation :: string
  sc_Identity :: Identity
  sc_Generated :: bool
  sc_Virtual :: bool
  sc_Sequence :: "SequenceOptions option"
  sc_MultipleOwnedSequences :: bool

definition defaultSequenceOptions :: "string \<Rightarrow> SequenceOptions option" where
  "defaultSequenceOptions columnType =
     (case map_of [(''smallint'', 32767), (''integer'', 2147483647), (''bigint'', MaxInt64)] columnType of
        None \<Rightarrow> None
      | Some maxValue \<Rightarrow>
          Some \<lparr>so_Type = columnType, so_Start = 1, so_Increment = 1, so_Min = 1, so_Max = maxValue, so_Cache = 1, so_Cycle = False\<rparr>)"

definition declaredSequence :: "string \<Rightarrow> SequenceOptions \<Rightarrow> SequenceOptions option" where
  "declaredSequence columnType opts = (if defaultSequenceOptions columnType = Some opts then None else Some opts)"

definition IsGenerated :: "SchemaColumn \<Rightarrow> bool" where
  "IsGenerated c = (sc_Generated c \<or> sc_Virtual c)"

section \<open>Constraints and indexes\<close>

record SchemaConstraint =
  sk_Name :: string
  sk_Def :: string
  sk_ForeignKey :: bool
  sk_Primary :: bool
  sk_IndexDef :: string
  sk_Deferrable :: bool
  sk_InitiallyDeferred :: bool
  sk_NotValid :: bool

record SchemaIndex =
  sx_Name :: string
  sx_Def :: string
  sx_Invalid :: bool

section \<open>Replica identity\<close>

record ReplicaIdentityKeys =
  ri_Indexes :: "string list"
  ri_Constraints :: "string list"
  ri_Columns :: "string list"
  ri_OwnColumns :: "string list"

definition DroppedBy :: "ReplicaIdentityKeys \<Rightarrow> Op \<Rightarrow> bool" where
  "DroppedBy k op =
     (case op_Kind op of
        OpDropIndex \<Rightarrow> (\<exists>name \<in> set (op_Indexes op). name \<in> set (ri_Indexes k))
      | OpDropConstraint \<Rightarrow> op_Name op \<in> set (ri_Constraints k)
      | OpDropColumn \<Rightarrow>
          if op_Only op then op_Column op \<in> set (ri_OwnColumns k) else op_Column op \<in> set (ri_Columns k)
      | _ \<Rightarrow> False)"

section \<open>Row security and the table\<close>

datatype PolicyCommand = PolicyAll | PolicySelect | PolicyInsert | PolicyUpdate | PolicyDelete | PolicyOther string

record Policy =
  po_Name :: string
  po_Command :: PolicyCommand
  po_Permissive :: bool
  po_Roles :: "string list"
  po_Using :: "string option"
  po_WithCheck :: "string option"
  po_Comment :: "string option"

record RowSecurity =
  rls_Enabled :: bool
  rls_Forced :: bool
  rls_Policies :: "Policy list"

definition present :: "RowSecurity \<Rightarrow> bool" where
  "present r = (rls_Enabled r \<or> rls_Forced r \<or> length (rls_Policies r) \<noteq> 0)"

record SchemaModel =
  sm_Table :: string
  sm_RowSecurity :: RowSecurity
  sm_PartitionKey :: string
  sm_IsPartition :: bool
  sm_InheritsParents :: "string list"
  sm_InheritanceChildren :: "string list"
  sm_Unlogged :: bool
  sm_Options :: "string list"
  sm_ToastMayNotRebuild :: bool
  sm_ReplicaIdentity :: ReplicaIdentityKeys
  sm_ReferencedBy :: "string list"
  sm_Columns :: "SchemaColumn list"
  sm_Constraints :: "SchemaConstraint list"
  sm_Indexes :: "SchemaIndex list"

end
