(* ===== verification/Planner.thy ===== *)
theory Planner
  imports Statement_Names Schema_Model
begin

text \<open>
  Classification of a statement's operations (\<open>pkg/planner/planner.go\<close>,
  \<open>destructive.go\<close>): for each operation a route, a reason and, where
  one can be built, the online sequence to run instead. The SQL parser and
  deparser, the driver's identifier quoting and the hash of the standard
  library are arguments.
\<close>

section \<open>Routes, reasons and decisions\<close>

datatype Route = RouteNative | RouteCopyAndSwap | RouteRefuse | RouteOther string

definition Routes :: "Route list" where
  "Routes = [RouteNative, RouteCopyAndSwap, RouteRefuse]"

definition routeRank :: "Route \<Rightarrow> nat" where
  "routeRank r = (case r of RouteNative \<Rightarrow> 0 | RouteCopyAndSwap \<Rightarrow> 1 | RouteRefuse \<Rightarrow> 2 | RouteOther _ \<Rightarrow> 0)"

definition worseRoute :: "Route \<Rightarrow> Route \<Rightarrow> Route" where
  "worseRoute a b = (if routeRank b > routeRank a then b else a)"

datatype Reason =
    ReasonMetadataOnly | ReasonOnlineIdiom | ReasonFastDefault | ReasonBinaryCoercible | ReasonSaferIdiom
  | ReasonAppBreakingRename | ReasonVolatileDefault | ReasonGeneratedStored | ReasonTypeRewrite | ReasonRelocation
  | ReasonPartitionParentLock | ReasonReplicaIdentity | ReasonDependentView | ReasonDependentPolicy
  | ReasonCascadingDrop | ReasonUnsupportedOperation | ReasonOther string

definition Reasons :: "Reason list" where
  "Reasons =
     [ReasonMetadataOnly, ReasonOnlineIdiom, ReasonFastDefault, ReasonBinaryCoercible, ReasonSaferIdiom,
      ReasonAppBreakingRename, ReasonVolatileDefault, ReasonGeneratedStored, ReasonTypeRewrite, ReasonRelocation,
      ReasonPartitionParentLock, ReasonReplicaIdentity, ReasonDependentView, ReasonDependentPolicy,
      ReasonCascadingDrop, ReasonUnsupportedOperation]"

datatype Execution = ExecutionNone | ExecutionAutocommit

datatype PolicyFix = PolicyFixNone | PolicyFixRewritePolicies | PolicyFixRecreateAroundChange | PolicyFixExpandContract

record Decision =
  dc_Operation :: string
  dc_Kind :: OpKind
  dc_Destructive :: bool
  dc_Route :: Route
  dc_Reason :: Reason
  dc_Unverified :: bool
  dc_SaferSQL :: "string list"
  dc_SaferSQLExecution :: Execution
  dc_DependentViews :: "string list"
  dc_DependentPolicies :: "string list"
  dc_PolicyFix :: PolicyFix

definition ExecutableAsSubmitted :: "Decision \<Rightarrow> bool" where
  "ExecutableAsSubmitted d = (dc_Reason d \<noteq> ReasonSaferIdiom \<and> dc_Reason d \<noteq> ReasonAppBreakingRename)"

definition PoliciesPhrase :: "string list \<Rightarrow> string" where
  "PoliciesPhrase policies =
     (if length policies > 1 then ''policies'' else ''policy'') @ '' '' @ join '', '' policies"

record Plan =
  pl_Statement :: string
  pl_Route :: Route
  pl_Decisions :: "Decision list"

section \<open>Destructive shapes\<close>

definition classifyDestructive :: "OpKind \<Rightarrow> bool \<times> bool" where
  "classifyDestructive kind =
     (case kind of
        OpDropColumn \<Rightarrow> (True, True)
      | OpDropConstraint \<Rightarrow> (True, True)
      | OpDropIndex \<Rightarrow> (True, True)
      | OpDropNotNull \<Rightarrow> (True, True)
      | OpKindOther n \<Rightarrow> (True, False)
      | _ \<Rightarrow> (False, True))"

definition destructiveOp :: "OpKind \<Rightarrow> bool" where
  "destructiveOp kind = fst (classifyDestructive kind)"

definition DestructiveOpKinds :: "OpKind list" where
  "DestructiveOpKinds = filter destructiveOp OpKinds"

section \<open>Facts about the live table\<close>

datatype AddColumnProof =
    AddColumnNone | AddColumnInPlace | AddColumnDefaultRewrites | AddColumnTypeRewrites | AddColumnUnproven
  | AddColumnOther string

type_synonym dependents = "string \<rightharpoonup> string list"

record Facts =
  fa_ColumnTypes :: "(string \<times> string) list option"
  fa_ColumnCollations :: "string \<rightharpoonup> string"
  fa_ReplicaIdentity :: ReplicaIdentityKeys
  fa_AddColumnProofs :: "string \<rightharpoonup> AddColumnProof"
  fa_DependentViews :: dependents
  fa_DropDependentViews :: dependents
  fa_OwnDependentViews :: dependents
  fa_DependentPolicies :: dependents
  fa_DropDependentPolicies :: dependents
  fa_OwnDependentPolicies :: dependents
  fa_ConstraintNames :: "string list"
  fa_RenamedIndexConstraint :: string

definition noKeys :: ReplicaIdentityKeys where
  "noKeys = \<lparr>ri_Indexes = [], ri_Constraints = [], ri_Columns = [], ri_OwnColumns = []\<rparr>"

definition noFacts :: Facts where
  "noFacts = \<lparr>fa_ColumnTypes = None, fa_ColumnCollations = Map.empty, fa_ReplicaIdentity = noKeys,
     fa_AddColumnProofs = Map.empty, fa_DependentViews = Map.empty, fa_DropDependentViews = Map.empty,
     fa_OwnDependentViews = Map.empty, fa_DependentPolicies = Map.empty, fa_DropDependentPolicies = Map.empty,
     fa_OwnDependentPolicies = Map.empty, fa_ConstraintNames = [], fa_RenamedIndexConstraint = ''''\<rparr>"

definition FactsFrom :: "SchemaModel \<Rightarrow> Facts" where
  "FactsFrom live =
     noFacts\<lparr>fa_ColumnTypes := Some (rev (map (\<lambda>c. (sc_Name c, sc_Type c)) (sm_Columns live))),
       fa_ColumnCollations :=
         fold (\<lambda>c m. if sc_Collation c \<noteq> '''' then m(sc_Name c \<mapsto> sc_Collation c) else m) (sm_Columns live) Map.empty,
       fa_ReplicaIdentity := sm_ReplicaIdentity live\<rparr>"

definition columnType :: "Facts \<Rightarrow> string \<Rightarrow> string option" where
  "columnType facts column = (case fa_ColumnTypes facts of None \<Rightarrow> None | Some types \<Rightarrow> map_of types column)"

definition orNil :: "'a list option \<Rightarrow> 'a list" where
  "orNil x = (case x of None \<Rightarrow> [] | Some xs \<Rightarrow> xs)"

definition dependentsReached :: "Op \<Rightarrow> dependents \<Rightarrow> dependents \<Rightarrow> dependents \<Rightarrow> string list" where
  "dependentsReached op tree dropped own =
     (if op_Kind op \<noteq> OpAlterColumnType \<and> op_Kind op \<noteq> OpDropColumn then []
      else if op_Only op then orNil (own (op_Column op))
      else if op_Kind op = OpDropColumn then orNil (dropped (op_Column op))
      else orNil (tree (op_Column op)))"

definition viewsReadingColumn :: "Op \<Rightarrow> Facts \<Rightarrow> string list" where
  "viewsReadingColumn op facts =
     dependentsReached op (fa_DependentViews facts) (fa_DropDependentViews facts) (fa_OwnDependentViews facts)"

definition policiesReadingColumn :: "Op \<Rightarrow> Facts \<Rightarrow> string list" where
  "policiesReadingColumn op facts =
     dependentsReached op (fa_DependentPolicies facts) (fa_DropDependentPolicies facts) (fa_OwnDependentPolicies facts)"

definition addColumnProof :: "Op \<Rightarrow> Facts \<Rightarrow> AddColumnProof" where
  "addColumnProof op facts = (case fa_AddColumnProofs facts (op_Column op) of None \<Rightarrow> AddColumnNone | Some p \<Rightarrow> p)"

definition unprovenRewriteReason :: "Op \<Rightarrow> Reason" where
  "unprovenRewriteReason op = (if op_Default op = DefaultExpression then ReasonVolatileDefault else ReasonTypeRewrite)"

section \<open>Type changes\<close>

record typeShape =
  ts_name :: string
  ts_mods :: "int list"
  ts_array :: bool

definition noShape :: typeShape where
  "noShape = \<lparr>ts_name = '''', ts_mods = [], ts_array = False\<rparr>"

definition catalogTypeName :: "string \<Rightarrow> string" where
  "catalogTypeName name =
     (let name = trimSpace name in
      if name = ''character varying'' then ''varchar''
      else if name = ''timestamp without time zone'' then ''timestamp''
      else if name = ''timestamp with time zone'' then ''timestamptz''
      else if name = ''time without time zone'' then ''time''
      else if name = ''time with time zone'' then ''timetz''
      else name)"

fun parseMods :: "string list \<Rightarrow> int list option" where
  "parseMods [] = Some []"
| "parseMods (part # parts) =
     (case parseInt (trimSpace part) 10 32 of
        None \<Rightarrow> None
      | Some n \<Rightarrow> map_option (Cons n) (parseMods parts))"

definition parseTypeText :: "string \<Rightarrow> typeShape" where
  "parseTypeText text =
     (case cutSuffix (trimSpace text) ''[]'' of (s, array) \<Rightarrow>
        (case stringsCut (CHR ''('') s of
           None \<Rightarrow> \<lparr>ts_name = catalogTypeName s, ts_mods = [], ts_array = array\<rparr>
         | Some (name, rest) \<Rightarrow>
             (case stringsCut (CHR '')'') rest of
                None \<Rightarrow> noShape
              | Some (mods, suffix) \<Rightarrow>
                  (case parseMods (splitOn (CHR '','') mods) of
                     None \<Rightarrow> noShape
                   | Some ms \<Rightarrow> \<lparr>ts_name = catalogTypeName (name @ suffix), ts_mods = ms, ts_array = array\<rparr>))))"

definition targetTypeShape :: "Op \<Rightarrow> typeShape" where
  "targetTypeShape op =
     (if op_NewTypeSchema op \<noteq> '''' \<or> op_NewTypeCollation op \<noteq> '''' then noShape
      else \<lparr>ts_name = trimSpace (op_NewType op), ts_mods = op_NewTypeMods op, ts_array = op_NewTypeArray op\<rparr>)"

definition binaryCoercible :: "typeShape \<Rightarrow> typeShape \<Rightarrow> bool" where
  "binaryCoercible old next =
     (if ts_name old = '''' \<or> ts_name next = '''' then False
      else if ts_array old \<noteq> ts_array next then False
      else if ts_name old = ts_name next \<and> ts_mods old = ts_mods next then True
      else if ts_array old then False
      else if ts_name old = ''varchar''
      then (if ts_name next = ''text'' then True
            else if ts_name next \<noteq> ''varchar'' then False
            else if ts_mods next = [] then True
            else length (ts_mods old) = 1 \<and> length (ts_mods next) = 1 \<and> ts_mods next ! 0 \<ge> ts_mods old ! 0)
      else if ts_name old = ''numeric''
      then (if ts_name next \<noteq> ''numeric'' then False
            else if ts_mods next = [] then True
            else length (ts_mods old) = 2 \<and> length (ts_mods next) = 2 \<and>
              ts_mods next ! 1 = ts_mods old ! 1 \<and> ts_mods next ! 0 \<ge> ts_mods old ! 0)
      else False)"

definition classifyTypeChange :: "Op \<Rightarrow> Facts \<Rightarrow> Route \<times> Reason \<times> bool" where
  "classifyTypeChange op facts =
     (if op_HasUsing op then (RouteCopyAndSwap, ReasonTypeRewrite, False)
      else if fa_ColumnCollations facts (op_Column op) \<noteq> None then (RouteCopyAndSwap, ReasonTypeRewrite, False)
      else case columnType facts (op_Column op) of
        None \<Rightarrow> (RouteCopyAndSwap, ReasonTypeRewrite, True)
      | Some oldType \<Rightarrow>
          if binaryCoercible (parseTypeText oldType) (targetTypeShape op)
          then (RouteNative, ReasonBinaryCoercible, False)
          else (RouteCopyAndSwap, ReasonTypeRewrite, False))"

section \<open>Building the online sequences\<close>

text \<open>The libraries: the SQL parser, the driver's quoting of a qualified identifier, and SHA-256.\<close>

record planner_lib =
  lib_query :: pgquery
  lib_sanitize :: "string list \<Rightarrow> string"
  lib_sha256 :: "string \<Rightarrow> nat list"

definition hexByte :: "nat \<Rightarrow> string" where
  "hexByte b = map (\<lambda>d. char_of (if d < 10 then 48 + d else 87 + d)) [b div 16 mod 16, b mod 16]"

definition maxIdentifierBytes :: nat where
  "maxIdentifierBytes = 63"

function trimInvalid :: "string \<Rightarrow> string" where
  "trimInvalid head = (if validString head then head else trimInvalid (butlast head))"
  by auto
termination
proof (relation "measure length")
  fix head :: string
  assume "\<not> validString head"
  then have "head \<noteq> []" by auto
  then show "(butlast head, head) \<in> measure length" by simp
qed simp

declare trimInvalid.simps [simp del]

definition fitIdentifier :: "planner_lib \<Rightarrow> string \<Rightarrow> string" where
  "fitIdentifier L name =
     (if length name \<le> maxIdentifierBytes then name
      else let suffix = CHR ''_'' # concat (map hexByte (take 4 (lib_sha256 L name)))
        in trimInvalid (take (maxIdentifierBytes - length suffix) name) @ suffix)"

definition tableIdent :: "planner_lib \<Rightarrow> Statement \<Rightarrow> string" where
  "tableIdent L st =
     (if stm_schema st \<noteq> '''' then lib_sanitize L [stm_schema st, stm_table st] else lib_sanitize L [stm_table st])"

definition setNotNullSequence :: "planner_lib \<Rightarrow> Statement \<Rightarrow> string \<Rightarrow> string list" where
  "setNotNullSequence L st column =
     (let table = tableIdent L st;
          conName = fitIdentifier L (stm_table st @ ''_'' @ column @ ''_not_null_check'');
          con = lib_sanitize L [conName];
          col = lib_sanitize L [column]
      in [''ALTER TABLE '' @ table @ '' ADD CONSTRAINT '' @ con @ '' CHECK ('' @ col @ '' IS NOT NULL) NOT VALID'',
          ''ALTER TABLE '' @ table @ '' VALIDATE CONSTRAINT '' @ con,
          ''ALTER TABLE '' @ table @ '' ALTER COLUMN '' @ col @ '' SET NOT NULL'',
          ''ALTER TABLE '' @ table @ '' DROP CONSTRAINT '' @ con])"

definition canBuildUsingIndexSequence :: "bool \<Rightarrow> Op \<Rightarrow> bool" where
  "canBuildUsingIndexSequence single op = (single \<and> op_Columns op \<noteq> [] \<and> \<not> op_IndexOptionsUnrenderable op)"

definition renderParam :: "planner_lib \<Rightarrow> StorageParam \<Rightarrow> string" where
  "renderParam L p =
     lib_sanitize L [sp_Name p]
     @ (if sp_HasValue p
        then '' = '' @ [CHR 0x27] @ replaceChar (CHR 0x27) [CHR 0x27, CHR 0x27] (sp_Value p) @ [CHR 0x27] else '''')"

definition usingIndexSequence :: "planner_lib \<Rightarrow> Statement \<Rightarrow> Op \<Rightarrow> string list" where
  "usingIndexSequence L st op =
     (let primary = (op_Constraint op = ConstraintPrimaryKey);
          suffix = (if primary then ''_pkey'' else ''_key'');
          keyword = (if primary then ''PRIMARY KEY'' else ''UNIQUE'');
          name = (if op_Name op = '''' then fitIdentifier L (stm_table st @ ''_'' @ join ''_'' (op_Columns op) @ suffix)
                  else op_Name op);
          idx = lib_sanitize L [name];
          quoted = (\<lambda>cs. join '', '' (map (\<lambda>c. lib_sanitize L [c]) cs));
          table = tableIdent L st;
          create = ''CREATE UNIQUE INDEX CONCURRENTLY '' @ idx @ '' ON '' @ table @ '' ('' @ quoted (op_Columns op) @ '')''
            @ (if op_IncludeColumns op \<noteq> [] then '' INCLUDE ('' @ quoted (op_IncludeColumns op) @ '')'' else '''')
            @ (if op_NullsNotDistinct op then '' NULLS NOT DISTINCT'' else '''')
            @ (if op_IndexStorageParams op \<noteq> []
               then '' WITH ('' @ join '', '' (map (renderParam L) (op_IndexStorageParams op)) @ '')'' else '''')
            @ (if op_IndexTablespace op \<noteq> '''' then '' TABLESPACE '' @ lib_sanitize L [op_IndexTablespace op] else '''');
          attach = ''ALTER TABLE '' @ table @ '' ADD CONSTRAINT '' @ idx @ '' '' @ keyword @ '' USING INDEX '' @ idx
            @ (if op_Deferrable op then '' DEFERRABLE'' else '''')
            @ (if op_InitiallyDeferred op then '' INITIALLY DEFERRED'' else '''')
      in [create, attach])"

definition constraintNaming :: "Facts \<Rightarrow> ConstraintNaming" where
  "constraintNaming facts =
     \<lparr>cn_Columns = map_option (map fst) (fa_ColumnTypes facts), cn_Taken = fa_ConstraintNames facts\<rparr>"

text \<open>
  The name search is given more steps than there are taken names, which is
  enough (theory \<open>Statement_Names\<close>), so the inner \<open>None\<close> does not occur.
\<close>

definition notValidSequence :: "planner_lib \<Rightarrow> Statement \<Rightarrow> string \<Rightarrow> Facts \<Rightarrow> string list" where
  "notValidSequence L st sql facts =
     (case AddNotValid (Suc (length (fa_ConstraintNames facts))) (lib_query L) sql (constraintNaming facts) of
        Inr (Some (notValid, name)) \<Rightarrow>
          [notValid, ''ALTER TABLE '' @ tableIdent L st @ '' VALIDATE CONSTRAINT '' @ lib_sanitize L [name]]
      | _ \<Rightarrow> [])"

section \<open>Classification\<close>

definition newDecision :: "Op \<Rightarrow> bool \<Rightarrow> Decision" where
  "newDecision op destructive =
     \<lparr>dc_Operation = Describe op, dc_Kind = op_Kind op, dc_Destructive = destructive, dc_Route = RouteOther '''',
      dc_Reason = ReasonOther '''', dc_Unverified = False, dc_SaferSQL = [], dc_SaferSQLExecution = ExecutionNone,
      dc_DependentViews = [], dc_DependentPolicies = [], dc_PolicyFix = PolicyFixNone\<rparr>"

definition routed :: "Route \<Rightarrow> Reason \<Rightarrow> Decision \<Rightarrow> Decision" where
  "routed route reason d = d\<lparr>dc_Route := route, dc_Reason := reason\<rparr>"

definition hasUnrecognizedConstraint :: "ConstraintKind list \<Rightarrow> bool" where
  "hasUnrecognizedConstraint kinds = (ConstraintUnrecognized \<in> set kinds)"

definition validatedOnAdd :: "Op \<Rightarrow> bool" where
  "validatedOnAdd op = (op_Constraint op = ConstraintCheck \<or> op_Constraint op = ConstraintForeignKey)"

definition concurrentlyDecision :: "planner_lib \<Rightarrow> Decision \<Rightarrow> bool \<Rightarrow> string \<Rightarrow> bool \<Rightarrow> Decision" where
  "concurrentlyDecision L d concurrent sql single =
     (if concurrent then routed RouteNative ReasonOnlineIdiom d
      else let d = routed RouteNative ReasonSaferIdiom d in
        if single
        then case Concurrently (lib_query L) sql of Inr safer \<Rightarrow> d\<lparr>dc_SaferSQL := [safer]\<rparr> | Inl _ \<Rightarrow> d
        else d)"

definition classifyAddConstraint :: "planner_lib \<Rightarrow> Op \<Rightarrow> Statement \<Rightarrow> string \<Rightarrow> bool \<Rightarrow> Decision" where
  "classifyAddConstraint L op st sql single =
     (let d = newDecision op False in
      if op_UsingIndex op \<or> op_NotValid op then routed RouteNative ReasonOnlineIdiom d
      else if op_Constraint op = ConstraintPrimaryKey \<or> op_Constraint op = ConstraintUnique
      then let d = routed RouteNative ReasonSaferIdiom d in
        if canBuildUsingIndexSequence single op then d\<lparr>dc_SaferSQL := usingIndexSequence L st op\<rparr> else d
      else if validatedOnAdd op
      then let d = routed RouteNative ReasonSaferIdiom d in
        if single then d\<lparr>dc_SaferSQL := notValidSequence L st sql noFacts\<rparr> else d
      else if op_Constraint op = ConstraintNotNull then routed RouteNative ReasonSaferIdiom d
      else routed RouteRefuse ReasonUnsupportedOperation d)"

definition classifyAddColumn :: "Op \<Rightarrow> Facts \<Rightarrow> Decision \<Rightarrow> Decision" where
  "classifyAddColumn op facts d =
     (let proven = addColumnProof op facts in
      if hasUnrecognizedConstraint (op_InlineConstraints op) then routed RouteRefuse ReasonUnsupportedOperation d
      else if op_GeneratedStored op then routed RouteCopyAndSwap ReasonGeneratedStored d
      else if proven = AddColumnDefaultRewrites then routed RouteCopyAndSwap ReasonVolatileDefault d
      else if proven = AddColumnTypeRewrites then routed RouteCopyAndSwap ReasonTypeRewrite d
      else if proven = AddColumnUnproven
      then (routed RouteCopyAndSwap (unprovenRewriteReason op) d)\<lparr>dc_Unverified := True\<rparr>
      else if op_Default op = DefaultExpression \<and> proven \<noteq> AddColumnInPlace
      then (routed RouteCopyAndSwap ReasonVolatileDefault d)\<lparr>dc_Unverified := True\<rparr>
      else if op_InlineConstraints op \<noteq> [] then routed RouteNative ReasonSaferIdiom d
      else if op_Default op \<noteq> DefaultNone then routed RouteNative ReasonFastDefault d
      else routed RouteNative ReasonMetadataOnly d)"

definition classifyKind :: "planner_lib \<Rightarrow> Op \<Rightarrow> Statement \<Rightarrow> Facts \<Rightarrow> string \<Rightarrow> bool \<Rightarrow> Decision \<Rightarrow> Decision" where
  "classifyKind L op st facts sql single d =
     (case op_Kind op of
        OpCreateTable \<Rightarrow>
          if op_PartitionOf op then routed RouteNative ReasonPartitionParentLock d else routed RouteNative ReasonMetadataOnly d
      | OpAddColumn \<Rightarrow> classifyAddColumn op facts d
      | OpDropColumn \<Rightarrow> routed RouteNative ReasonMetadataOnly d
      | OpSetDefault \<Rightarrow> routed RouteNative ReasonMetadataOnly d
      | OpDropDefault \<Rightarrow> routed RouteNative ReasonMetadataOnly d
      | OpDropNotNull \<Rightarrow> routed RouteNative ReasonMetadataOnly d
      | OpSetColumnOptions \<Rightarrow> routed RouteNative ReasonMetadataOnly d
      | OpSetRelOptions \<Rightarrow> routed RouteNative ReasonMetadataOnly d
      | OpSetSchema \<Rightarrow> routed RouteNative ReasonMetadataOnly d
      | OpDropConstraint \<Rightarrow> routed RouteNative ReasonMetadataOnly d
      | OpRenameColumn \<Rightarrow> routed RouteNative ReasonAppBreakingRename d
      | OpRenameTable \<Rightarrow> routed RouteNative ReasonAppBreakingRename d
      | OpRenameIndex \<Rightarrow>
          if fa_RenamedIndexConstraint facts \<noteq> '''' then routed RouteNative ReasonAppBreakingRename d
          else routed RouteNative ReasonMetadataOnly d
      | OpAlterColumnType \<Rightarrow>
          (case classifyTypeChange op facts of (route, reason, unverified) \<Rightarrow>
             (routed route reason d)\<lparr>dc_Unverified := unverified\<rparr>)
      | OpSetNotNull \<Rightarrow>
          (let d = routed RouteNative ReasonSaferIdiom d in
           if single then d\<lparr>dc_SaferSQL := setNotNullSequence L st (op_Column op)\<rparr> else d)
      | OpSetTablespace \<Rightarrow> routed RouteCopyAndSwap ReasonRelocation d
      | OpAddConstraint \<Rightarrow>
          (let d = classifyAddConstraint L op st sql single in
           if dc_SaferSQL d \<noteq> [] \<and> validatedOnAdd op then d\<lparr>dc_SaferSQL := notValidSequence L st sql facts\<rparr> else d)
      | OpValidateConstraint \<Rightarrow> routed RouteNative ReasonOnlineIdiom d
      | OpAttachPartition \<Rightarrow> routed RouteNative ReasonSaferIdiom d
      | OpDetachPartition \<Rightarrow> concurrentlyDecision L d (op_Concurrent op) sql single
      | OpCreateIndex \<Rightarrow> concurrentlyDecision L d (op_Concurrent op) sql single
      | OpDropIndex \<Rightarrow> concurrentlyDecision L d (op_Concurrent op) sql single
      | OpReindex \<Rightarrow> concurrentlyDecision L d (op_Concurrent op) sql single
      | _ \<Rightarrow> routed RouteRefuse ReasonUnsupportedOperation d)"

definition withoutPolicies :: "Facts \<Rightarrow> Facts" where
  "withoutPolicies facts =
     facts\<lparr>fa_DependentPolicies := Map.empty, fa_DropDependentPolicies := Map.empty, fa_OwnDependentPolicies := Map.empty\<rparr>"

lemma withoutPolicies_none [simp]: "policiesReadingColumn op (withoutPolicies facts) = []"
  by (simp add: policiesReadingColumn_def dependentsReached_def withoutPolicies_def orNil_def)

function classifyOp :: "planner_lib \<Rightarrow> Op \<Rightarrow> Statement \<Rightarrow> Facts \<Rightarrow> string \<Rightarrow> bool \<Rightarrow> Decision"
  and dependentPolicyFix :: "planner_lib \<Rightarrow> Op \<Rightarrow> Statement \<Rightarrow> Facts \<Rightarrow> string \<Rightarrow> bool \<Rightarrow> PolicyFix" where
  "classifyOp L op st facts sql single =
     (let d = newDecision op (destructiveOp (op_Kind op)) in
      if DroppedBy (fa_ReplicaIdentity facts) op then routed RouteRefuse ReasonReplicaIdentity d
      else if op_Cascade op then routed RouteRefuse ReasonCascadingDrop d
      else if viewsReadingColumn op facts \<noteq> []
      then (routed RouteRefuse ReasonDependentView d)\<lparr>dc_DependentViews := viewsReadingColumn op facts\<rparr>
      else if policiesReadingColumn op facts \<noteq> []
      then (routed RouteRefuse ReasonDependentPolicy d)
             \<lparr>dc_DependentPolicies := policiesReadingColumn op facts, dc_PolicyFix := dependentPolicyFix L op st facts sql single\<rparr>
      else classifyKind L op st facts sql single d)"
| "dependentPolicyFix L op st facts sql single =
     (if op_Kind op = OpDropColumn then PolicyFixRewritePolicies
      else if dc_Route (classifyOp L op st (withoutPolicies facts) sql single) = RouteNative
      then PolicyFixRecreateAroundChange else PolicyFixExpandContract)"
  by pat_completeness auto
termination
  by (relation "measure (\<lambda>x. case x of
        Inl (L, op, st, facts, sql, single) \<Rightarrow> if policiesReadingColumn op facts = [] then 0 else 2
      | Inr _ \<Rightarrow> 1)") auto

declare classifyOp.simps [simp del] dependentPolicyFix.simps [simp del]

definition stamp :: "Decision \<Rightarrow> Decision" where
  "stamp d = (if dc_SaferSQL d \<noteq> [] then d\<lparr>dc_SaferSQLExecution := ExecutionAutocommit\<rparr> else d)"

definition Planner_Classify :: "planner_lib \<Rightarrow> string \<Rightarrow> Facts \<Rightarrow> statement_error + Plan" where
  "Planner_Classify L sql facts =
     (case ParseOne (lib_query L) sql of
        Inl e \<Rightarrow> Inl e
      | Inr st \<Rightarrow>
          (case ParseOps (lib_query L) sql of
             Inl e \<Rightarrow> Inl e
           | Inr ops \<Rightarrow>
               let decisions = map (\<lambda>op. stamp (classifyOp L op st facts sql (length ops = 1))) ops in
               Inr \<lparr>pl_Statement = sql, pl_Route = fold (\<lambda>d r. worseRoute r (dc_Route d)) decisions RouteNative,
                    pl_Decisions = decisions\<rparr>))"

section \<open>Concrete statements\<close>

text \<open>
  A parser that knows an index statement, its concurrent form and a cascading
  drop; a hash of four bytes; and the facts of a table with one column. They
  show below that the hypotheses of the properties can hold.
\<close>

definition exampleTable :: RangeVar where
  "exampleTable = \<lparr>rv_schemaname = '''', rv_relname = ''t'', rv_inh = True\<rparr>"

definition exampleIndex :: IndexStmt where
  "exampleIndex = \<lparr>idx_name = ''i'', idx_relation = exampleTable, idx_concurrent = False, idx_unique = False, idx_ifNotExists = False\<rparr>"

definition exampleDrop :: DropStmt where
  "exampleDrop = \<lparr>drop_removeType = OBJECT_INDEX, drop_objects = [[''i'']], drop_concurrent = True, drop_cascade = True\<rparr>"

definition exampleQuery :: pgquery where
  "exampleQuery =
     \<lparr>pg_parse = (\<lambda>s.
        if s = ''CREATE INDEX i ON t (c)'' then Some [NIndex exampleIndex]
        else if s = ''CREATE INDEX CONCURRENTLY i ON t (c)'' then Some [NIndex (exampleIndex\<lparr>idx_concurrent := True\<rparr>)]
        else if s = ''DROP INDEX CONCURRENTLY i CASCADE'' then Some [NDrop exampleDrop]
        else None),
      pg_deparse = (\<lambda>node.
        if node = NIndex (exampleIndex\<lparr>idx_concurrent := True\<rparr>) then Some ''CREATE INDEX CONCURRENTLY i ON t (c)'' else None)\<rparr>"

definition exampleLib :: planner_lib where
  "exampleLib = \<lparr>lib_query = exampleQuery, lib_sanitize = join ''.'', lib_sha256 = (\<lambda>_. [1, 2, 3, 4])\<rparr>"

definition exampleColumn :: SchemaColumn where
  "exampleColumn = \<lparr>sc_Name = ''c'', sc_Type = ''character varying(20)'', sc_NotNull = False, sc_Default = [],
     sc_SequenceDefault = False, sc_SequenceOwned = False, sc_Collation = [], sc_Identity = IdentityNone, sc_Generated = False,
     sc_Virtual = False, sc_Sequence = None, sc_MultipleOwnedSequences = False\<rparr>"

definition exampleModel :: SchemaModel where
  "exampleModel = \<lparr>sm_Table = ''t'', sm_RowSecurity = \<lparr>rls_Enabled = False, rls_Forced = False, rls_Policies = []\<rparr>,
     sm_PartitionKey = [], sm_IsPartition = False, sm_InheritsParents = [], sm_InheritanceChildren = [], sm_Unlogged = False,
     sm_Options = [], sm_ToastMayNotRebuild = False, sm_ReplicaIdentity = noKeys, sm_ReferencedBy = [],
     sm_Columns = [exampleColumn], sm_Constraints = [], sm_Indexes = []\<rparr>"

definition exampleFacts :: Facts where
  "exampleFacts = FactsFrom exampleModel"

definition exampleRetype :: Op where
  "exampleRetype = (mkOp OpAlterColumnType)\<lparr>op_Column := ''c'', op_NewType := ''varchar'', op_NewTypeMods := [40]\<rparr>"

lemma example_column:
  "parseTypeText ''character varying(20)'' = \<lparr>ts_name = ''varchar'', ts_mods = [20], ts_array = False\<rparr>"
  "columnType exampleFacts ''c'' = Some ''character varying(20)''"
  "fa_ColumnCollations exampleFacts = Map.empty" "\<not> DroppedBy (fa_ReplicaIdentity exampleFacts) op"
  "viewsReadingColumn op exampleFacts = []" "policiesReadingColumn op exampleFacts = []"
  by (simp_all add: parseTypeText_def cutSuffix_def stringsCut_def catalogTypeName_def parseInt_def parseUint_def digitVal_def
      trimSpace_graphic graphic_def columnType_def exampleFacts_def exampleModel_def exampleColumn_def FactsFrom_def noFacts_def noKeys_def DroppedBy_def
      viewsReadingColumn_def policiesReadingColumn_def dependentsReached_def orNil_def split: OpKind.split)

section \<open>Generated identifiers\<close>

lemma trimInvalid_valid: "validString (trimInvalid s)"
  by (induction s rule: trimInvalid.induct) (subst trimInvalid.simps, auto)

lemma trimInvalid_prefix: "\<exists>k \<le> length s. trimInvalid s = take k s"
proof (induction s rule: trimInvalid.induct)
  case (1 s)
  show ?case
  proof (cases "validString s")
    case True
    then show ?thesis by (intro exI [of _ "length s"]) (simp add: trimInvalid.simps)
  next
    case False
    then obtain k where k: "k \<le> length (butlast s)" "trimInvalid (butlast s) = take k (butlast s)" using 1 by blast
    have "s \<noteq> []" using False by auto
    then have "k < length s" using k(1) by (simp add: less_eq_Suc_le flip: length_greater_0_conv)
    then show ?thesis using k(2) False by (intro exI [of _ k]) (simp add: trimInvalid.simps [of s] take_butlast)
  qed
qed

lemma trimInvalid_longest: "k \<le> length s \<Longrightarrow> validString (take k s) \<Longrightarrow> k \<le> length (trimInvalid s)"
proof (induction s rule: trimInvalid.induct)
  case (1 s)
  show ?case
  proof (cases "validString s")
    case True
    then show ?thesis using 1(2) by (simp add: trimInvalid.simps)
  next
    case False
    then have "k < length s" using 1(2,3) by (metis le_neq_implies_less take_all_iff order_refl)
    then have "k \<le> length (trimInvalid (butlast s))" using 1(1) [OF False] 1(3) by (simp add: take_butlast)
    then show ?thesis using False by (simp add: trimInvalid.simps [of s])
  qed
qed

lemma hexByte_ascii: "c \<in> set (hexByte b) \<Longrightarrow> (of_char c :: nat) < 128"
  by (auto simp: hexByte_def take_bit_eq_mod split: if_splits)

lemma hexByte_length [simp]: "length (hexByte b) = 2"
  by (simp add: hexByte_def)

lemma fit_suffix:
  assumes "4 \<le> length (lib_sha256 L name)"
  shows "length (CHR ''_'' # concat (map hexByte (take 4 (lib_sha256 L name)))) = 9"
    "validString (CHR ''_'' # concat (map hexByte (take 4 (lib_sha256 L name))))"
proof -
  have "length (concat (map hexByte bs)) = 2 * length bs" for bs by (induction bs) auto
  then show "length (CHR ''_'' # concat (map hexByte (take 4 (lib_sha256 L name)))) = 9" using assms by simp
  show "validString (CHR ''_'' # concat (map hexByte (take 4 (lib_sha256 L name))))"
    by (rule validString_ascii) (auto dest: hexByte_ascii)
qed

text \<open>
  A generated identifier always survives the server's truncation. The name
  \<open>fitIdentifier\<close> returns is at most 63 bytes; a name that fits is returned
  unchanged; and a longer one keeps a prefix of the original that is valid
  UTF-8 and, when the original is valid, at least 51 bytes long, followed by
  nine bytes of the hash, so the loop that drops a split character removes
  at most three bytes. (The hash is assumed to have at least four bytes.)
\<close>

theorem fitIdentifier_fits:
  assumes "\<And>s. 4 \<le> length (lib_sha256 L s)" "validString name"
  shows "length (fitIdentifier L name) \<le> 63 \<and> validString (fitIdentifier L name) \<and>
    (if length name \<le> 63 then fitIdentifier L name = name
     else \<exists>k \<ge> 51. take k (fitIdentifier L name) = take k name \<and> length (fitIdentifier L name) = k + 9)"
proof (cases "length name \<le> 63")
  case True
  then show ?thesis using assms(2) by (simp add: fitIdentifier_def maxIdentifierBytes_def)
next
  case False
  let ?suffix = "CHR ''_'' # concat (map hexByte (take 4 (lib_sha256 L name)))" and ?head = "take 54 name"
  note suffix = fit_suffix [OF assms(1) [of name]]
  have fit: "fitIdentifier L name = trimInvalid ?head @ ?suffix"
    using False suffix(1) by (simp only: fitIdentifier_def maxIdentifierBytes_def Let_def) simp
  obtain k where k: "k \<le> 54" "trimInvalid ?head = take k ?head" using trimInvalid_prefix [of ?head] by fastforce
  then have t: "trimInvalid ?head = take k name" "length (trimInvalid ?head) = k" using False by (auto simp: min_def)
  obtain j where "j \<le> 54" "54 \<le> j + 3" "validString (take j name)" using valid_prefix [OF assms(2), of 54] False by auto
  then have "51 \<le> k" using trimInvalid_longest [of j ?head] t(2) False by (auto simp: min_def)
  moreover have "validString (fitIdentifier L name)"
    unfolding fit by (intro validString_append trimInvalid_valid suffix(2))
  moreover have "take k (fitIdentifier L name) = take k name" "length (fitIdentifier L name) = k + 9"
    unfolding fit using t suffix(1) False k(1) by simp_all
  ultimately show ?thesis using False k(1) by (auto intro!: exI [of _ k])
qed

theorem fitIdentifier_fits_witness:
  "length (fitIdentifier exampleLib (replicate 70 (CHR ''a''))) \<le> 63"
proof -
  have "validString (replicate 70 (CHR ''a''))" by (rule validString_ascii) auto
  moreover have "4 \<le> length (lib_sha256 exampleLib s)" for s by (simp add: exampleLib_def)
  ultimately show ?thesis using fitIdentifier_fits [of exampleLib "replicate 70 (CHR ''a'')"] by blast
qed

section \<open>Type changes that run in place\<close>

text \<open>
  What a column stores: a string by its number of characters, a number by its
  digits and scale, any other value by the type it was stored under; an array's
  elements by the whole shape. \<open>stored t c\<close> says the cell is one a column of the
  type may hold as it stands.
\<close>

datatype cell = Chars nat | Digits int int | Raw typeShape

definition stored :: "typeShape \<Rightarrow> cell \<Rightarrow> bool" where
  "stored t c =
     (if ts_array t then c = Raw t
      else case c of
        Chars n \<Rightarrow> ts_name t = ''text'' \<or>
          ts_name t = ''varchar'' \<and> (ts_mods t = [] \<or> (\<exists>m. ts_mods t = [m] \<and> int n \<le> m))
      | Digits x s \<Rightarrow> ts_name t = ''numeric'' \<and> (ts_mods t = [] \<or> (\<exists>p. ts_mods t = [p, s] \<and> \<bar>x\<bar> < 10 ^ nat p))
      | Raw u \<Rightarrow> u = t \<and> ts_name t \<notin> {''text'', ''varchar'', ''numeric''})"

lemma binaryCoercible_stored:
  assumes "binaryCoercible old new" "stored old c"
  shows "stored new c"
proof (cases "ts_name old = ts_name new \<and> ts_mods old = ts_mods new")
  case True
  then have "old = new" using assms(1) by (cases old; cases new) (auto simp: binaryCoercible_def split: if_splits)
  then show ?thesis using assms(2) by simp
next
  case False
  then have a: "\<not> ts_array old" "\<not> ts_array new" using assms(1) by (auto simp: binaryCoercible_def split: if_splits)
  consider (varchar) "ts_name old = ''varchar''" | (numeric) "ts_name old = ''numeric''"
    using assms(1) False by (auto simp: binaryCoercible_def split: if_splits)
  then show ?thesis
  proof cases
    case varchar
    then obtain n where c: "c = Chars n" using assms(2) a by (cases c) (auto simp: stored_def)
    show ?thesis
    proof (cases "ts_name new = ''text''")
      case True
      then show ?thesis using a c by (simp add: stored_def)
    next
      case nt: False
      then show ?thesis using assms(1,2) False varchar a c
        by (auto simp: binaryCoercible_def stored_def length_Suc_conv split: if_splits)
    qed
  next
    case numeric
    then obtain x s where c: "c = Digits x s" using assms(2) a by (cases c) (auto simp: stored_def)
    have n: "ts_name new = ''numeric''" using assms(1) False numeric a by (auto simp: binaryCoercible_def split: if_splits)
    show ?thesis
    proof (cases "ts_mods new = []")
      case True
      then show ?thesis using n a c by (simp add: stored_def)
    next
      case mods: False
      then have m: "length (ts_mods old) = 2" "length (ts_mods new) = 2" "ts_mods new ! 1 = ts_mods old ! 1" "ts_mods old ! 0 \<le> ts_mods new ! 0"
        using assms(1) False numeric a n by (auto simp: binaryCoercible_def split: if_splits)
      then obtain p q where pq: "ts_mods old = [p, s]" "ts_mods new = [q, s]" "p \<le> q" "\<bar>x\<bar> < 10 ^ nat p"
        using assms(2) numeric a c by (auto simp: stored_def length_Suc_conv numeral_2_eq_2)
      have "(10 :: int) ^ nat p \<le> 10 ^ nat q" using pq(3) by (intro power_increasing) auto
      then have "\<bar>x\<bar> < 10 ^ nat q" using pq(4) by linarith
      then show ?thesis using pq(2) n a c by (simp add: stored_def)
    qed
  qed
qed

lemma classifyOp_typeChange:
  assumes "op_Kind op = OpAlterColumnType" "dc_Route (classifyOp L op st facts sql single) = RouteNative"
  shows "viewsReadingColumn op facts = [] \<and> policiesReadingColumn op facts = [] \<and> \<not> op_HasUsing op \<and>
    fa_ColumnCollations facts (op_Column op) = None \<and>
    (\<exists>old. columnType facts (op_Column op) = Some old \<and> binaryCoercible (parseTypeText old) (targetTypeShape op))"
  using assms
  by (auto simp: classifyOp.simps Let_def routed_def classifyKind_def classifyTypeChange_def split: if_splits option.splits)



text \<open>
  The name of the target type is trimmed before it is compared, so a quoted user
  type whose name is a built-in's followed by a space is taken for the built-in
  and a change to it is routed natively.
\<close>

lemma trimmed_target_taken_for_builtin:
  "dc_Route (classifyOp exampleLib (exampleRetype\<lparr>op_NewType := ''text '', op_NewTypeMods := []\<rparr>) (mkStatement '''')
     exampleFacts '''' True) = RouteNative"
proof -
  have "trimSpace ''text '' = ''text''" using trimSpace_trailing [of "''text''"] by (simp add: graphic_def)
  then have "targetTypeShape (exampleRetype\<lparr>op_NewType := ''text '', op_NewTypeMods := []\<rparr>)
      = \<lparr>ts_name = ''text'', ts_mods = [], ts_array = False\<rparr>"
    by (simp add: targetTypeShape_def exampleRetype_def mkOp_def)
  then show ?thesis
    by (simp add: classifyOp.simps classifyKind_def classifyTypeChange_def binaryCoercible_def exampleRetype_def mkOp_def
        example_column routed_def Let_def)
qed

section \<open>What every decision satisfies\<close>

text \<open>
  The contract of a decision: its route and its reason are values of the closed
  sets the report format publishes, a route of refuse or copy-and-swap goes with
  a reason of that class, and a safer sequence comes only with a native decision
  of the safer-idiom class on a statement of one operation.
\<close>

definition refusing :: "Reason \<Rightarrow> bool" where
  "refusing r = (r \<in> {ReasonReplicaIdentity, ReasonDependentView, ReasonDependentPolicy, ReasonCascadingDrop,
     ReasonUnsupportedOperation})"

definition rewriting :: "Reason \<Rightarrow> bool" where
  "rewriting r = (r \<in> {ReasonVolatileDefault, ReasonGeneratedStored, ReasonTypeRewrite, ReasonRelocation})"

definition decided :: "bool \<Rightarrow> Decision \<Rightarrow> bool" where
  "decided single d =
     (dc_Route d \<in> set Routes \<and> dc_Reason d \<in> set Reasons \<and>
      (dc_Route d = RouteRefuse \<longleftrightarrow> refusing (dc_Reason d)) \<and>
      (dc_Route d = RouteCopyAndSwap \<longleftrightarrow> rewriting (dc_Reason d)) \<and>
      (dc_Unverified d \<longrightarrow> dc_Route d = RouteCopyAndSwap) \<and>
      (dc_SaferSQL d \<noteq> [] \<longrightarrow> single \<and> dc_Reason d = ReasonSaferIdiom))"

lemma decided_routed:
  "dc_SaferSQL d = [] \<Longrightarrow> \<not> dc_Unverified d \<Longrightarrow> route \<in> set Routes \<Longrightarrow> reason \<in> set Reasons \<Longrightarrow>
   (route = RouteRefuse \<longleftrightarrow> refusing reason) \<Longrightarrow> (route = RouteCopyAndSwap \<longleftrightarrow> rewriting reason) \<Longrightarrow>
   decided single (routed route reason d)"
  by (simp add: decided_def routed_def)

lemmas decided_simps = decided_def routed_def newDecision_def Routes_def Reasons_def refusing_def rewriting_def

lemma decided_safer:
  "\<not> dc_Unverified d \<Longrightarrow> decided True ((routed RouteNative ReasonSaferIdiom d)\<lparr>dc_SaferSQL := s\<rparr>)"
  by (simp add: decided_simps)

lemma classifyAddConstraint_decided: "decided single (classifyAddConstraint L op st sql single)"
  by (auto simp: classifyAddConstraint_def decided_simps Let_def canBuildUsingIndexSequence_def)

lemma notValidSequence_only_single:
  "dc_SaferSQL (classifyAddConstraint L op st sql single) \<noteq> [] \<Longrightarrow>
     single \<and> dc_Reason (classifyAddConstraint L op st sql single) = ReasonSaferIdiom"
  using classifyAddConstraint_decided [of single L op st sql] unfolding decided_def by blast

lemma concurrentlyDecision_decided:
  "dc_SaferSQL d = [] \<Longrightarrow> \<not> dc_Unverified d \<Longrightarrow> decided single (concurrentlyDecision L d concurrent sql single)"
  by (auto simp: concurrentlyDecision_def decided_simps Let_def split: sum.splits)

lemma classifyAddColumn_decided:
  "dc_SaferSQL d = [] \<Longrightarrow> \<not> dc_Unverified d \<Longrightarrow> decided single (classifyAddColumn op facts d)"
  by (auto simp: classifyAddColumn_def unprovenRewriteReason_def decided_simps Let_def)

lemma classifyTypeChange_decided:
  assumes "dc_SaferSQL d = []" "classifyTypeChange op facts = (route, reason, unverified)"
  shows "decided single ((routed route reason d)\<lparr>dc_Unverified := unverified\<rparr>)"
  using assms by (auto simp: classifyTypeChange_def decided_simps split: if_splits option.splits)

lemma classifyKind_decided:
  assumes "dc_SaferSQL d = []" "\<not> dc_Unverified d"
  shows "decided single (classifyKind L op st facts sql single d)"
proof (cases "op_Kind op = OpAddConstraint")
  case True
  then show ?thesis
    using classifyAddConstraint_decided [of single L op st sql] notValidSequence_only_single [of L op st sql single]
    by (auto simp: classifyKind_def Let_def decided_def)
next
  case False
  then show ?thesis using assms False classifyTypeChange_decided [OF assms(1)]
    by (cases "op_Kind op")
      (simp_all add: classifyKind_def concurrentlyDecision_decided classifyAddColumn_decided decided_routed decided_safer
         Routes_def Reasons_def refusing_def rewriting_def Let_def split: prod.split)
qed

lemma classifyOp_decided: "decided single (classifyOp L op st facts sql single)"
proof -
  have "decided single (classifyKind L op st facts sql single (newDecision op b))" for b
    by (rule classifyKind_decided) (simp_all add: newDecision_def)
  then show ?thesis by (auto simp: classifyOp.simps Let_def) (auto simp: decided_simps)
qed

lemma classifyAddColumn_subject:
  "dc_Kind (classifyAddColumn op facts d) = dc_Kind d \<and>
   dc_SaferSQLExecution (classifyAddColumn op facts d) = dc_SaferSQLExecution d"
  by (simp add: classifyAddColumn_def routed_def Let_def)

lemma concurrentlyDecision_subject:
  "dc_Kind (concurrentlyDecision L d concurrent sql single) = dc_Kind d \<and>
   dc_SaferSQLExecution (concurrentlyDecision L d concurrent sql single) = dc_SaferSQLExecution d"
  by (simp add: concurrentlyDecision_def routed_def Let_def split: sum.split)

lemma classifyAddConstraint_subject:
  "dc_Kind (classifyAddConstraint L op st sql single) = op_Kind op \<and>
   dc_SaferSQLExecution (classifyAddConstraint L op st sql single) = ExecutionNone"
  by (simp add: classifyAddConstraint_def routed_def newDecision_def Let_def)

lemma classifyKind_subject:
  assumes "dc_Kind d = op_Kind op" "dc_SaferSQLExecution d = ExecutionNone"
  shows "dc_Kind (classifyKind L op st facts sql single d) = op_Kind op \<and>
    dc_SaferSQLExecution (classifyKind L op st facts sql single d) = ExecutionNone"
  using assms
  by (cases "op_Kind op")
    (simp_all add: classifyKind_def classifyAddColumn_subject concurrentlyDecision_subject classifyAddConstraint_subject
       routed_def Let_def split: prod.split)

lemma classifyOp_subject:
  "dc_Kind (classifyOp L op st facts sql single) = op_Kind op \<and>
   dc_SaferSQLExecution (classifyOp L op st facts sql single) = ExecutionNone"
proof -
  have "dc_Kind (newDecision op b) = op_Kind op" "dc_SaferSQLExecution (newDecision op b) = ExecutionNone" for b
    by (simp_all add: newDecision_def)
  then show ?thesis by (simp add: classifyOp.simps Let_def classifyKind_subject routed_def)
qed

section \<open>The plan of a statement\<close>

lemma Planner_Classify_Inr:
  assumes "Planner_Classify L sql facts = Inr p"
  obtains node where "parseSingle (lib_query L) sql = Inr node" "pl_Statement p = sql"
    "pl_Decisions p = map (\<lambda>op. stamp (classifyOp L op (nodeStatement node (mkStatement sql)) facts sql (length (nodeOps node) = 1)))
       (nodeOps node)"
    "pl_Route p = fold (\<lambda>d r. worseRoute r (dc_Route d)) (pl_Decisions p) RouteNative"
  using assms by (auto simp: Planner_Classify_def ParseOne_def ParseOps_def Let_def split: sum.splits)

lemma stamp_simps [simp]:
  "dc_Route (stamp d) = dc_Route d" "dc_Reason (stamp d) = dc_Reason d" "dc_Kind (stamp d) = dc_Kind d"
  "dc_SaferSQL (stamp d) = dc_SaferSQL d" "dc_Unverified (stamp d) = dc_Unverified d"
  by (simp_all add: stamp_def)

lemma decided_stamp [simp]: "decided single (stamp d) = decided single d"
  by (simp add: decided_def)

lemma fold_worseRoute:
  assumes "\<And>d. d \<in> set ds \<Longrightarrow> dc_Route d \<in> set Routes" "r \<in> set Routes"
  shows "fold (\<lambda>d r. worseRoute r (dc_Route d)) ds r =
    (if r = RouteRefuse \<or> (\<exists>d \<in> set ds. dc_Route d = RouteRefuse) then RouteRefuse
     else if r = RouteCopyAndSwap \<or> (\<exists>d \<in> set ds. dc_Route d = RouteCopyAndSwap) then RouteCopyAndSwap else RouteNative)"
  using assms
proof (induction ds arbitrary: r)
  case (Cons d ds)
  have "dc_Route d \<in> set Routes" using Cons.prems(1) by simp
  then have "worseRoute r (dc_Route d) \<in> set Routes" using Cons.prems(2) by (simp add: worseRoute_def)
  moreover have "worseRoute r (dc_Route d) = (if r = RouteRefuse \<or> dc_Route d = RouteRefuse then RouteRefuse
      else if r = RouteCopyAndSwap \<or> dc_Route d = RouteCopyAndSwap then RouteCopyAndSwap else RouteNative)"
    using \<open>dc_Route d \<in> set Routes\<close> Cons.prems(2) by (auto simp: Routes_def worseRoute_def routeRank_def)
  ultimately show ?case using Cons.IH [of "worseRoute r (dc_Route d)"] Cons.prems(1) by (auto split: if_splits)
qed (auto simp: Routes_def)

lemma plan_decisions:
  assumes "Planner_Classify L sql facts = Inr p" "d \<in> set (pl_Decisions p)"
  shows "decided (length (pl_Decisions p) = 1) d \<and> dc_SaferSQLExecution d = (if dc_SaferSQL d = [] then ExecutionNone else ExecutionAutocommit)"
proof -
  obtain node where ds: "pl_Decisions p =
      map (\<lambda>op. stamp (classifyOp L op (nodeStatement node (mkStatement sql)) facts sql (length (nodeOps node) = 1))) (nodeOps node)"
    using Planner_Classify_Inr [OF assms(1)] by metis
  then have "length (pl_Decisions p) = length (nodeOps node)" by simp
  moreover obtain op where "d = stamp (classifyOp L op (nodeStatement node (mkStatement sql)) facts sql (length (nodeOps node) = 1))"
    using assms(2) ds by auto
  moreover have "dc_SaferSQLExecution (stamp e) = (if dc_SaferSQL e = [] then dc_SaferSQLExecution e else ExecutionAutocommit)" for e
    by (simp add: stamp_def)
  ultimately show ?thesis using classifyOp_decided classifyOp_subject by simp
qed

lemma plan_route:
  assumes "Planner_Classify L sql facts = Inr p"
  shows "pl_Route p = (if \<exists>d \<in> set (pl_Decisions p). dc_Route d = RouteRefuse then RouteRefuse
    else if \<exists>d \<in> set (pl_Decisions p). dc_Route d = RouteCopyAndSwap then RouteCopyAndSwap else RouteNative)"
proof -
  have "pl_Route p = fold (\<lambda>d r. worseRoute r (dc_Route d)) (pl_Decisions p) RouteNative"
    using Planner_Classify_Inr [OF assms] by metis
  moreover have "\<And>d. d \<in> set (pl_Decisions p) \<Longrightarrow> dc_Route d \<in> set Routes"
    using plan_decisions [OF assms] by (simp add: decided_def)
  ultimately show ?thesis by (simp add: fold_worseRoute Routes_def)
qed

text \<open>
  What a router relies on: a plan's route is the worst of its decisions' routes.
\<close>

locale plan_source =
  fixes plan :: "'i \<Rightarrow> Plan \<Rightarrow> bool"
  assumes worst_route: "plan i p \<Longrightarrow> pl_Route p =
    (if \<exists>d \<in> set (pl_Decisions p). dc_Route d = RouteRefuse then RouteRefuse
     else if \<exists>d \<in> set (pl_Decisions p). dc_Route d = RouteCopyAndSwap then RouteCopyAndSwap else RouteNative)"
begin

lemma refused: "plan i p \<Longrightarrow> pl_Route p = RouteRefuse \<longleftrightarrow> (\<exists>d \<in> set (pl_Decisions p). dc_Route d = RouteRefuse)"
  using worst_route by (simp split: if_splits)

end

interpretation classified: plan_source "\<lambda>(L, sql, facts) p. Planner_Classify L sql facts = Inr p"
  by unfold_locales (auto simp: plan_route)

text \<open>
  C35: A plan is always well formed for the report format. Whatever statement
  is classified with whatever facts, its route is one of the published routes
  and is the worst of its decisions' routes; each decision has a published
  route and reason; a decision is refused exactly for the refusal reasons and sent to
  copy-and-swap exactly for the rewrite reasons; only a copy-and-swap decision is marked
  unverified; and a safer sequence is present only on the sole decision of a
  statement, with the safer-idiom reason, and exactly then carries the autocommit contract.
\<close>

theorem plan_well_formed:
  assumes "Planner_Classify L sql facts = Inr p"
  shows "pl_Statement p = sql \<and>
    pl_Route p = (if \<exists>d \<in> set (pl_Decisions p). dc_Route d = RouteRefuse then RouteRefuse
      else if \<exists>d \<in> set (pl_Decisions p). dc_Route d = RouteCopyAndSwap then RouteCopyAndSwap else RouteNative) \<and>
    (\<forall>d \<in> set (pl_Decisions p).
       decided (length (pl_Decisions p) = 1) d \<and> (dc_SaferSQLExecution d = ExecutionAutocommit \<longleftrightarrow> dc_SaferSQL d \<noteq> []))"
proof -
  have "pl_Statement p = sql" using Planner_Classify_Inr [OF assms] by metis
  then show ?thesis using plan_route [OF assms] plan_decisions [OF assms] by auto
qed

theorem plan_well_formed_witness:
  "\<exists>p. Planner_Classify exampleLib ''CREATE INDEX i ON t (c)'' noFacts = Inr p \<and> pl_Statement p = ''CREATE INDEX i ON t (c)''"
proof -
  have "parseSingle exampleQuery ''CREATE INDEX i ON t (c)'' = Inr (NIndex exampleIndex)"
    by (simp add: parseSingle_def exampleQuery_def)
  then obtain p where "Planner_Classify exampleLib ''CREATE INDEX i ON t (c)'' noFacts = Inr p"
    by (simp add: Planner_Classify_def ParseOne_def ParseOps_def exampleLib_def Let_def)
  then show ?thesis using plan_well_formed by blast
qed

section \<open>Hazards\<close>

definition hazard :: "Op \<Rightarrow> Facts \<Rightarrow> bool" where
  "hazard op facts =
     (DroppedBy (fa_ReplicaIdentity facts) op \<or> op_Cascade op \<or> viewsReadingColumn op facts \<noteq> [] \<or>
      policiesReadingColumn op facts \<noteq> [] \<or> op_Kind op = OpUnrecognized)"

lemma classifyOp_hazard: "hazard op facts \<Longrightarrow> dc_Route (classifyOp L op st facts sql single) = RouteRefuse"
  by (auto simp: hazard_def classifyOp.simps classifyKind_def Let_def routed_def)

lemma plan_hazard:
  assumes "Planner_Classify L sql facts = Inr p" "ParseOps (lib_query L) sql = Inr ops" "op \<in> set ops" "hazard op facts"
  shows "\<exists>d \<in> set (pl_Decisions p). dc_Route d = RouteRefuse"
proof -
  obtain node where node: "parseSingle (lib_query L) sql = Inr node" and ds: "pl_Decisions p =
      map (\<lambda>op. stamp (classifyOp L op (nodeStatement node (mkStatement sql)) facts sql (length (nodeOps node) = 1))) (nodeOps node)"
    using Planner_Classify_Inr [OF assms(1)] by metis
  then have "ops = nodeOps node" using assms(2) by (simp add: ParseOps_def)
  then show ?thesis using ds assms(3) classifyOp_hazard [OF assms(4)] by force
qed

section \<open>The CONCURRENTLY form\<close>

definition concurrentKind :: "OpKind \<Rightarrow> bool" where
  "concurrentKind k = (k \<in> {OpDetachPartition, OpCreateIndex, OpDropIndex, OpReindex})"



lemma reindexConcurrently_added:
  "reindexConcurrently (re\<lparr>re_params := ps @ [Some \<lparr>de_namespace = '''', de_defname = ''concurrently'', de_arg = None\<rparr>]\<rparr>)"
  by (simp add: reindexConcurrently_def isConcurrentlyOption_def getDefElem_def optionEnabled_def)

lemma concurrentNode_ops:
  assumes "concurrentNode node = Some node'" "nodeOps node = [op]" "concurrentKind (op_Kind op)"
  shows "nodeOps node' = [op\<lparr>op_Concurrent := True\<rparr>]"
proof (cases node)
  case (NAlterTable alter)
  then obtain cmd where cmd: "alter_cmds alter = [cmd]" "at_subtype cmd = AT_DetachPartition"
      "node' = NAlterTable (alter\<lparr>alter_cmds := [cmd\<lparr>at_def := DefPartition True\<rparr>]\<rparr>)"
    using assms(1) by (auto simp: concurrentNode_def detachPartitionCmd_def split: list.splits if_splits cmddef.splits)
  have "alter_objtype alter = OBJECT_TABLE"
  proof (rule ccontr)
    assume "alter_objtype alter \<noteq> OBJECT_TABLE"
    then have "op = mkOp OpUnrecognized" using assms(2) NAlterTable by (simp add: nodeOps_def)
    then show False using assms(3) by (simp add: concurrentKind_def mkOp_def)
  qed
  moreover have "alterTableOp (cmd\<lparr>at_def := DefPartition True\<rparr>) = (alterTableOp cmd)\<lparr>op_Concurrent := True\<rparr>"
    using cmd(2) by (simp add: alterTableOp_def)
  ultimately show ?thesis using assms(2) cmd NAlterTable by (auto simp: nodeOps_def)
next
  case (NReindex re)
  then show ?thesis using assms
    by (auto simp: concurrentNode_def nodeOps_def reindexConcurrently_added split: if_splits)
next
  case (NDrop d)
  have "dropIndexNames (d\<lparr>drop_concurrent := True\<rparr>) = dropIndexNames d" "droppedIndexes (d\<lparr>drop_concurrent := True\<rparr>) = droppedIndexes d"
    by (simp_all add: dropIndexNames_def droppedIndexes_def)
  then show ?thesis using assms NDrop by (cases "mkOp OpDropIndex") (auto simp: concurrentNode_def nodeOps_def split: if_splits)
qed (use assms in \<open>auto simp: concurrentNode_def detachPartitionCmd_def nodeOps_def split: if_splits\<close>)

lemma classifyOp_concurrent:
  assumes "concurrentKind (op_Kind op)" "dc_Route (classifyOp L op st facts sql single) = RouteNative"
  shows "dc_Route (classifyOp L (op\<lparr>op_Concurrent := True\<rparr>) st' facts sql' single') = RouteNative"
    "dc_Reason (classifyOp L (op\<lparr>op_Concurrent := True\<rparr>) st' facts sql' single') = ReasonOnlineIdiom"
    "dc_SaferSQL (classifyOp L (op\<lparr>op_Concurrent := True\<rparr>) st' facts sql' single') = []"
proof -
  let ?op = "op\<lparr>op_Concurrent := True\<rparr>"
  have same: "DroppedBy k ?op = DroppedBy k op" "viewsReadingColumn ?op facts = viewsReadingColumn op facts"
    "policiesReadingColumn ?op facts = policiesReadingColumn op facts" for k
    by (cases "op_Kind op"; simp add: DroppedBy_def viewsReadingColumn_def policiesReadingColumn_def dependentsReached_def)+
  have "\<not> hazard op facts" using classifyOp_hazard assms(2) by fastforce
  then have "classifyOp L ?op st' facts sql' single' =
      classifyKind L ?op st' facts sql' single' (newDecision ?op (destructiveOp (op_Kind op)))"
    by (simp add: classifyOp.simps hazard_def same)
  moreover have "classifyKind L ?op st' facts sql' single' d = routed RouteNative ReasonOnlineIdiom d" for d
    using assms(1) by (auto simp: concurrentKind_def classifyKind_def concurrentlyDecision_def)
  ultimately show "dc_Route (classifyOp L ?op st' facts sql' single') = RouteNative"
    "dc_Reason (classifyOp L ?op st' facts sql' single') = ReasonOnlineIdiom"
    "dc_SaferSQL (classifyOp L ?op st' facts sql' single') = []"
    by (simp_all add: routed_def newDecision_def)
qed

lemma classifyOp_safer_concurrently:
  assumes "concurrentKind (op_Kind op)" "dc_SaferSQL (classifyOp L op st facts sql single) \<noteq> []"
  shows "\<exists>safer. dc_SaferSQL (classifyOp L op st facts sql single) = [safer] \<and> Concurrently (lib_query L) sql = Inr safer"
  using assms
  by (auto simp: concurrentKind_def classifyOp.simps classifyKind_def concurrentlyDecision_def routed_def newDecision_def Let_def
      split: if_splits sum.splits)

end
