(* ===== verification/Router.thy ===== *)
theory Router
  imports Planner
begin

text \<open>
  The routing policy (\<open>pkg/router/router.go\<close>): each classified statement is
  assigned a backend and a disposition, and the plan takes the worst disposition
  of its statements. The properties join the planner and the router: what a plan
  that would execute is known not to contain.
\<close>

section \<open>Backends and dispositions\<close>

text \<open>\<open>BackendNone\<close> is the empty string of a refused statement.\<close>

datatype Backend = BackendNone | BackendNative | BackendCopyAndSwap

definition Backends :: "Backend list" where
  "Backends = [BackendNative, BackendCopyAndSwap]"

definition copyAndSwapCarriesOperation :: "Decision \<Rightarrow> bool" where
  "copyAndSwapCarriesOperation d = (dc_Kind d = OpAlterColumnType \<and> dc_Reason d = ReasonTypeRewrite)"

fun copyAndSwapCarriesAll :: "Decision list \<Rightarrow> bool" where
  "copyAndSwapCarriesAll [] = True"
| "copyAndSwapCarriesAll (d # ds) =
     (if dc_Route d \<noteq> RouteCopyAndSwap then copyAndSwapCarriesAll ds
      else if \<not> copyAndSwapCarriesOperation d then False
      else copyAndSwapCarriesAll ds)"

definition copyAndSwapCarries :: "Plan \<Rightarrow> bool" where
  "copyAndSwapCarries p = copyAndSwapCarriesAll (pl_Decisions p)"

definition available :: "Backend \<Rightarrow> Plan \<Rightarrow> bool" where
  "available b p = (case b of BackendNative \<Rightarrow> True | BackendCopyAndSwap \<Rightarrow> copyAndSwapCarries p | BackendNone \<Rightarrow> False)"

datatype Disposition = DispositionExecute | DispositionRewriteRequired | DispositionUnavailable | DispositionRefuse

definition Dispositions :: "Disposition list" where
  "Dispositions = [DispositionExecute, DispositionRewriteRequired, DispositionUnavailable, DispositionRefuse]"

definition dispositionRank :: "Disposition \<Rightarrow> nat" where
  "dispositionRank d =
     (case d of DispositionExecute \<Rightarrow> 0 | DispositionRewriteRequired \<Rightarrow> 1 | DispositionUnavailable \<Rightarrow> 2 | DispositionRefuse \<Rightarrow> 3)"

definition worse :: "Disposition \<Rightarrow> Disposition \<Rightarrow> Disposition" where
  "worse a b = (if dispositionRank b > dispositionRank a then b else a)"

section \<open>Routing\<close>

record RoutedStatement =
  rs_Plan :: Plan
  rs_Backend :: Backend
  rs_Disposition :: Disposition
  rs_ExecSQL :: "string list"

record RoutedPlan =
  rp_Statements :: "RoutedStatement list"
  rp_Disposition :: Disposition

definition nativeExecSQL :: "Plan \<Rightarrow> string list option" where
  "nativeExecSQL p =
     (if length (pl_Decisions p) = 1 \<and> dc_SaferSQL (pl_Decisions p ! 0) \<noteq> [] then Some (dc_SaferSQL (pl_Decisions p ! 0))
      else if \<exists>d \<in> set (pl_Decisions p). \<not> ExecutableAsSubmitted d then None
      else Some [pl_Statement p])"

definition routeBackend :: "Backend \<Rightarrow> Plan \<Rightarrow> RoutedStatement" where
  "routeBackend b p =
     (let st = \<lparr>rs_Plan = p, rs_Backend = b, rs_Disposition = DispositionExecute, rs_ExecSQL = []\<rparr> in
      if \<not> available b p then st\<lparr>rs_Disposition := DispositionUnavailable\<rparr>
      else if b = BackendNative
      then case nativeExecSQL p of
             None \<Rightarrow> st\<lparr>rs_Disposition := DispositionRewriteRequired\<rparr>
           | Some sql \<Rightarrow> st\<lparr>rs_ExecSQL := sql\<rparr>
      else st)"

definition routeStatement :: "Plan \<Rightarrow> RoutedStatement" where
  "routeStatement p =
     (case pl_Route p of
        RouteNative \<Rightarrow> routeBackend BackendNative p
      | RouteCopyAndSwap \<Rightarrow> routeBackend BackendCopyAndSwap p
      | _ \<Rightarrow> \<lparr>rs_Plan = p, rs_Backend = BackendNone, rs_Disposition = DispositionRefuse, rs_ExecSQL = []\<rparr>)"

fun routeAll :: "Plan list \<Rightarrow> RoutedPlan \<Rightarrow> RoutedPlan" where
  "routeAll [] plan = plan"
| "routeAll (p # plans) plan =
     (let st = routeStatement p in
      routeAll plans \<lparr>rp_Statements = rp_Statements plan @ [st], rp_Disposition = worse (rp_Disposition plan) (rs_Disposition st)\<rparr>)"

definition Router_Route :: "Plan list \<Rightarrow> RoutedPlan" where
  "Router_Route plans = routeAll plans \<lparr>rp_Statements = [], rp_Disposition = DispositionExecute\<rparr>"

section \<open>The order of dispositions\<close>

text \<open>The rank orders the dispositions linearly, and \<open>worse\<close> is the maximum of that order.\<close>

instantiation Disposition :: linorder
begin

definition less_eq_Disposition :: "Disposition \<Rightarrow> Disposition \<Rightarrow> bool" where
  "less_eq_Disposition a b = (dispositionRank a \<le> dispositionRank b)"

definition less_Disposition :: "Disposition \<Rightarrow> Disposition \<Rightarrow> bool" where
  "less_Disposition a b = (dispositionRank a < dispositionRank b)"

instance
  by standard (auto simp: less_eq_Disposition_def less_Disposition_def dispositionRank_def split: Disposition.splits)

end

lemma worse_max: "worse a b = max a b"
  by (cases a; cases b) (simp_all add: worse_def max_def less_eq_Disposition_def dispositionRank_def)

lemma execute_least [simp]: "DispositionExecute \<le> d"
  by (simp add: less_eq_Disposition_def dispositionRank_def)

lemma refuse_greatest [simp]: "d \<le> DispositionRefuse"
  by (cases d) (simp_all add: less_eq_Disposition_def dispositionRank_def)

lemma routeAll_parts:
  "rp_Statements (routeAll plans r) = rp_Statements r @ map routeStatement plans"
  "rp_Disposition (routeAll plans r) = fold (\<lambda>p d. max d (rs_Disposition (routeStatement p))) plans (rp_Disposition r)"
  by (induction plans arbitrary: r) (simp_all add: Let_def worse_max)

lemma fold_max_le:
  "fold (\<lambda>p d. max d (f p)) ps a \<le> (b :: 'a :: linorder) \<longleftrightarrow> a \<le> b \<and> (\<forall>p \<in> set ps. f p \<le> b)"
  by (induction ps arbitrary: a) auto

lemma Route_statements: "rp_Statements (Router_Route plans) = map routeStatement plans"
  by (simp add: Router_Route_def routeAll_parts)

lemma Route_le: "rp_Disposition (Router_Route plans) \<le> d \<longleftrightarrow> (\<forall>p \<in> set plans. rs_Disposition (routeStatement p) \<le> d)"
  by (simp add: Router_Route_def routeAll_parts fold_max_le)

section \<open>What is executed\<close>

text \<open>
  The specification of a statement that may run: no operation is refused, each
  operation that needs a copy is one the copy engine carries, and where nothing
  needs a copy the statement runs either as its one operation's safer sequence or,
  if no operation asks for one, as submitted.
\<close>

definition runnable :: "Plan \<Rightarrow> bool" where
  "runnable p =
     ((\<forall>d \<in> set (pl_Decisions p). dc_Route d \<noteq> RouteRefuse) \<and>
      (\<forall>d \<in> set (pl_Decisions p). dc_Route d = RouteCopyAndSwap \<longrightarrow> dc_Kind d = OpAlterColumnType \<and> dc_Reason d = ReasonTypeRewrite) \<and>
      ((\<exists>d \<in> set (pl_Decisions p). dc_Route d = RouteCopyAndSwap) \<or>
       (\<forall>d \<in> set (pl_Decisions p). ExecutableAsSubmitted d) \<or>
       (\<exists>d. pl_Decisions p = [d] \<and> dc_SaferSQL d \<noteq> [])))"

lemma carriesAll_iff:
  "copyAndSwapCarriesAll ds \<longleftrightarrow> (\<forall>d \<in> set ds. dc_Route d = RouteCopyAndSwap \<longrightarrow> copyAndSwapCarriesOperation d)"
  by (induction ds) auto

lemma nativeExecSQL_cases:
  "nativeExecSQL p =
     (if \<exists>d. pl_Decisions p = [d] \<and> dc_SaferSQL d \<noteq> [] then Some (dc_SaferSQL (hd (pl_Decisions p)))
      else if \<forall>d \<in> set (pl_Decisions p). ExecutableAsSubmitted d then Some [pl_Statement p] else None)"
  by (auto simp: nativeExecSQL_def length_Suc_conv)

context plan_source
begin

lemma routeStatement_execute:
  assumes "plan i p"
  shows "rs_Disposition (routeStatement p) = DispositionExecute \<longleftrightarrow> runnable p"
proof (cases "\<exists>d \<in> set (pl_Decisions p). dc_Route d = RouteRefuse")
  case True
  then show ?thesis using worst_route [OF assms] by (auto simp: routeStatement_def runnable_def)
next
  case False
  show ?thesis
  proof (cases "\<exists>d \<in> set (pl_Decisions p). dc_Route d = RouteCopyAndSwap")
    case True
    then show ?thesis using worst_route [OF assms] False
      by (auto simp: routeStatement_def routeBackend_def available_def copyAndSwapCarries_def carriesAll_iff
          copyAndSwapCarriesOperation_def runnable_def Let_def split: if_splits)
  next
    case native: False
    then have "routeStatement p = routeBackend BackendNative p"
      using worst_route [OF assms] False by (simp add: routeStatement_def)
    then show ?thesis using False native
      by (auto simp: routeBackend_def available_def nativeExecSQL_cases runnable_def Let_def split: option.splits if_splits)
  qed
qed

lemma Route_execute:
  assumes "list_all2 plan inputs plans"
  shows "rp_Disposition (Router_Route plans) = DispositionExecute \<longleftrightarrow> (\<forall>p \<in> set plans. runnable p)"
proof -
  have "\<exists>i. plan i p" if "p \<in> set plans" for p
    using assms that by (fastforce simp: list_all2_conv_all_nth in_set_conv_nth)
  then have "rs_Disposition (routeStatement p) = DispositionExecute \<longleftrightarrow> runnable p" if "p \<in> set plans" for p
    using routeStatement_execute that by blast
  moreover have "d = DispositionExecute \<longleftrightarrow> d \<le> DispositionExecute" for d by (simp add: antisym)
  ultimately show ?thesis by (metis Route_le)
qed

lemma refused_plan:
  assumes "plan i p" "d \<in> set (pl_Decisions p)" "dc_Route d = RouteRefuse"
  shows "routeStatement p = \<lparr>rs_Plan = p, rs_Backend = BackendNone, rs_Disposition = DispositionRefuse, rs_ExecSQL = []\<rparr>"
    "rp_Disposition (Router_Route (before @ p # after)) = DispositionRefuse"
proof -
  show r: "routeStatement p = \<lparr>rs_Plan = p, rs_Backend = BackendNone, rs_Disposition = DispositionRefuse, rs_ExecSQL = []\<rparr>"
    using refused [OF assms(1)] assms(2,3) by (auto simp: routeStatement_def)
  have "rs_Disposition (routeStatement p) \<le> rp_Disposition (Router_Route (before @ p # after))"
    using Route_le [of "before @ p # after" "rp_Disposition (Router_Route (before @ p # after))"] by simp
  then show "rp_Disposition (Router_Route (before @ p # after)) = DispositionRefuse" using r by (simp add: antisym)
qed

end

text \<open>
  C13: A plan would execute exactly when all of it may run safely. For any list of
  classified statements, the aggregate disposition is execute if and only if in every
  statement no operation was refused, each operation that rewrites the table is a
  type rewrite of an existing column, which the copy engine carries, and a statement
  that runs natively either has a safer sequence constructed for its one operation or
  contains no operation that blocks or breaks applications as submitted.
\<close>

theorem plan_executes_iff_runnable:
  assumes "list_all2 (\<lambda>(L, sql, facts) p. Planner_Classify L sql facts = Inr p) inputs plans"
  shows "rp_Disposition (Router_Route plans) = DispositionExecute \<longleftrightarrow> (\<forall>p \<in> set plans. runnable p)"
  by (rule classified.Route_execute [OF assms])

text \<open>
  One hazardous operation refuses the whole plan. If any operation of any
  statement drops what the table's replica identity needs, drops with CASCADE,
  changes a column a view or a policy reads, or is not recognised, then that statement
  has no backend and no SQL to run, and the disposition of the whole plan is refuse.
\<close>

theorem hazard_refuses_plan:
  assumes "Planner_Classify L sql facts = Inr p" "ParseOps (lib_query L) sql = Inr ops" "op \<in> set ops" "hazard op facts"
  shows "rp_Disposition (Router_Route (before @ p # after)) = DispositionRefuse \<and>
    rs_Backend (routeStatement p) = BackendNone \<and> rs_ExecSQL (routeStatement p) = []"
proof -
  have plan: "(\<lambda>(L, sql, facts) p. Planner_Classify L sql facts = Inr p) (L, sql, facts) p" using assms(1) by simp
  obtain d where "d \<in> set (pl_Decisions p)" "dc_Route d = RouteRefuse" using plan_hazard [OF assms] by blast
  then show ?thesis using classified.refused_plan [OF plan] by simp
qed

text \<open>
  C36: The online form of an index or detach statement is final. When the planner
  rewrites a CREATE INDEX, DROP INDEX, REINDEX or DETACH PARTITION to run
  concurrently, that form is what would be executed, and planning that form again
  gives an online-idiom decision that runs it as it is, so a rewrite never needs
  another. (The parser is assumed to read back the tree the deparser wrote.)
\<close>

theorem concurrent_form_is_final:
  assumes "Planner_Classify L sql facts = Inr p" "pl_Decisions p = [d]" "concurrentKind (dc_Kind d)" "dc_SaferSQL d \<noteq> []"
    and "\<And>node out. pg_deparse (lib_query L) node = Some out \<Longrightarrow> pg_parse (lib_query L) out = Some [node]"
  shows "\<exists>safer p' d'. rs_ExecSQL (routeStatement p) = [safer] \<and> Planner_Classify L safer facts = Inr p' \<and>
    pl_Decisions p' = [d'] \<and> dc_Kind d' = dc_Kind d \<and> dc_Reason d' = ReasonOnlineIdiom \<and>
    rs_Disposition (routeStatement p') = DispositionExecute \<and> rs_ExecSQL (routeStatement p') = [safer]"
proof -
  obtain node where node: "parseSingle (lib_query L) sql = Inr node" and ds: "pl_Decisions p =
      map (\<lambda>op. stamp (classifyOp L op (nodeStatement node (mkStatement sql)) facts sql (length (nodeOps node) = 1))) (nodeOps node)"
    using Planner_Classify_Inr [OF assms(1)] by metis
  then obtain op where op: "nodeOps node = [op]" "d = stamp (classifyOp L op (nodeStatement node (mkStatement sql)) facts sql True)"
    using assms(2) by (auto simp: map_eq_Cons_conv)
  let ?d = "classifyOp L op (nodeStatement node (mkStatement sql)) facts sql True"
  have kind: "op_Kind op = dc_Kind d" "concurrentKind (op_Kind op)" using op(2) assms(3) classifyOp_subject by simp_all
  then obtain safer where safer: "dc_SaferSQL ?d = [safer]" "Concurrently (lib_query L) sql = Inr safer"
    using classifyOp_safer_concurrently [OF kind(2)] op(2) assms(4) by fastforce
  have native: "dc_Route ?d = RouteNative"
    using classifyOp_decided [of True L op "nodeStatement node (mkStatement sql)" facts sql] safer(1)
    by (auto simp: decided_def Routes_def refusing_def rewriting_def)
  obtain node' where node': "concurrentNode node = Some node'" "pg_deparse (lib_query L) node' = Some safer"
    using safer(2) node by (auto simp: Concurrently_def deparseOne_def split: option.splits)
  have parsed: "parseSingle (lib_query L) safer = Inr node'" using assms(5) [OF node'(2)] by (simp add: parseSingle_def)
  have ops: "nodeOps node' = [op\<lparr>op_Concurrent := True\<rparr>]" by (rule concurrentNode_ops [OF node'(1) op(1) kind(2)])
  let ?op' = "op\<lparr>op_Concurrent := True\<rparr>" and ?st' = "nodeStatement node' (mkStatement safer)"
  let ?d' = "stamp (classifyOp L ?op' ?st' facts safer True)"
  let ?p' = "\<lparr>pl_Statement = safer, pl_Route = worseRoute RouteNative (dc_Route ?d'), pl_Decisions = [?d']\<rparr>"
  note d' = classifyOp_concurrent [OF kind(2) native, of ?st' safer True]
  have "Planner_Classify L safer facts = Inr ?p'"
    using parsed ops by (simp add: Planner_Classify_def ParseOne_def ParseOps_def)
  moreover have "dc_Kind ?d' = dc_Kind d" using classifyOp_subject kind(1) by simp
  moreover have "routeStatement ?p' = \<lparr>rs_Plan = ?p', rs_Backend = BackendNative, rs_Disposition = DispositionExecute, rs_ExecSQL = [safer]\<rparr>"
    using d' by (simp add: routeStatement_def worseRoute_def routeBackend_def available_def nativeExecSQL_def ExecutableAsSubmitted_def)
  moreover have "rs_ExecSQL (routeStatement p) = [safer]"
    using plan_route [OF assms(1)] assms(2) op(2) safer(1) native
    by (simp add: routeStatement_def routeBackend_def available_def nativeExecSQL_def)
  ultimately show ?thesis using d' by (intro exI [of _ safer] exI [of _ ?p'] exI [of _ ?d']) simp
qed

section \<open>The hypotheses can hold\<close>

lemma example_parses:
  "parseSingle exampleQuery ''CREATE INDEX i ON t (c)'' = Inr (NIndex exampleIndex)"
  "parseSingle exampleQuery ''DROP INDEX CONCURRENTLY i CASCADE'' = Inr (NDrop exampleDrop)"
  by (simp_all add: parseSingle_def exampleQuery_def)

lemma example_rewrite: "Concurrently exampleQuery ''CREATE INDEX i ON t (c)'' = Inr ''CREATE INDEX CONCURRENTLY i ON t (c)''"
  by (simp add: Concurrently_def example_parses concurrentNode_def deparseOne_def) (simp add: exampleQuery_def)

lemma example_index_plan:
  obtains p d where "Planner_Classify exampleLib ''CREATE INDEX i ON t (c)'' noFacts = Inr p" "pl_Decisions p = [d]"
    "dc_Kind d = OpCreateIndex" "dc_SaferSQL d = [''CREATE INDEX CONCURRENTLY i ON t (c)'']"
    "dc_Route d = RouteNative" "dc_Reason d = ReasonSaferIdiom"
proof -
  let ?sql = "''CREATE INDEX i ON t (c)''"
  obtain p where p: "Planner_Classify exampleLib ?sql noFacts = Inr p"
    by (simp add: Planner_Classify_def ParseOne_def ParseOps_def exampleLib_def example_parses Let_def)
  then obtain node where "parseSingle exampleQuery ?sql = Inr node" and ds: "pl_Decisions p =
      map (\<lambda>op. stamp (classifyOp exampleLib op (nodeStatement node (mkStatement ?sql)) noFacts ?sql (length (nodeOps node) = 1)))
        (nodeOps node)"
    using Planner_Classify_Inr [OF p] by (metis exampleLib_def planner_lib.select_convs(1))
  then have node: "node = NIndex exampleIndex" by (simp add: example_parses)
  obtain op where op: "nodeOps node = [op]" "op_Kind op = OpCreateIndex" "\<not> op_Concurrent op" "\<not> op_Cascade op"
    by (simp add: node nodeOps_def exampleIndex_def mkOp_def)
  let ?d = "stamp (classifyOp exampleLib op (nodeStatement node (mkStatement ?sql)) noFacts ?sql True)"
  have "classifyOp exampleLib op st noFacts ?sql True =
      (routed RouteNative ReasonSaferIdiom (newDecision op False))\<lparr>dc_SaferSQL := [''CREATE INDEX CONCURRENTLY i ON t (c)'']\<rparr>" for st
    using op(2-4) example_rewrite
    by (simp add: classifyOp.simps DroppedBy_def viewsReadingColumn_def policiesReadingColumn_def dependentsReached_def orNil_def
        noFacts_def destructiveOp_def classifyDestructive_def classifyKind_def concurrentlyDecision_def exampleLib_def Let_def)
  then have "dc_Kind ?d = OpCreateIndex" "dc_SaferSQL ?d = [''CREATE INDEX CONCURRENTLY i ON t (c)'']"
    "dc_Route ?d = RouteNative" "dc_Reason ?d = ReasonSaferIdiom"
    using op(2) by (simp_all add: routed_def newDecision_def)
  then show ?thesis using that [OF p, of ?d] ds op(1) by simp
qed

theorem plan_executes_iff_runnable_witness:
  "\<exists>p. Planner_Classify exampleLib ''CREATE INDEX i ON t (c)'' noFacts = Inr p \<and>
     rp_Disposition (Router_Route [p]) = DispositionExecute \<and> runnable p"
proof -
  obtain p d where p: "Planner_Classify exampleLib ''CREATE INDEX i ON t (c)'' noFacts = Inr p" "pl_Decisions p = [d]"
    "dc_SaferSQL d = [''CREATE INDEX CONCURRENTLY i ON t (c)'']" "dc_Route d = RouteNative"
    using example_index_plan by metis
  then have "runnable p" by (simp add: runnable_def)
  then show ?thesis using plan_executes_iff_runnable [of "[(exampleLib, ''CREATE INDEX i ON t (c)'', noFacts)]" "[p]"] p(1) by auto
qed

theorem hazard_refuses_plan_witness:
  "\<exists>p. Planner_Classify exampleLib ''DROP INDEX CONCURRENTLY i CASCADE'' noFacts = Inr p \<and>
     rp_Disposition (Router_Route [p]) = DispositionRefuse"
proof -
  let ?sql = "''DROP INDEX CONCURRENTLY i CASCADE''"
  obtain p where p: "Planner_Classify exampleLib ?sql noFacts = Inr p"
    by (simp add: Planner_Classify_def ParseOne_def ParseOps_def exampleLib_def example_parses Let_def)
  obtain op where "ParseOps (lib_query exampleLib) ?sql = Inr [op]" "op_Cascade op"
    by (simp add: ParseOps_def exampleLib_def example_parses nodeOps_def exampleDrop_def)
  then show ?thesis using hazard_refuses_plan [OF p, of "[op]" op "[]" "[]"] p by (auto simp: hazard_def)
qed

theorem concurrent_form_is_final_witness:
  "\<exists>p'. Planner_Classify exampleLib ''CREATE INDEX CONCURRENTLY i ON t (c)'' noFacts = Inr p' \<and>
     rs_ExecSQL (routeStatement p') = [''CREATE INDEX CONCURRENTLY i ON t (c)'']"
proof -
  obtain p d where p: "Planner_Classify exampleLib ''CREATE INDEX i ON t (c)'' noFacts = Inr p" "pl_Decisions p = [d]"
    "dc_Kind d = OpCreateIndex" "dc_SaferSQL d = [''CREATE INDEX CONCURRENTLY i ON t (c)'']" "dc_Route d = RouteNative"
    using example_index_plan by metis
  have "pg_deparse (lib_query exampleLib) node = Some out \<Longrightarrow> pg_parse (lib_query exampleLib) out = Some [node]" for node out
    by (auto simp: exampleLib_def exampleQuery_def split: if_splits)
  moreover have "concurrentKind (dc_Kind d)" "dc_SaferSQL d \<noteq> []" using p(3,4) by (simp_all add: concurrentKind_def)
  ultimately obtain safer p' where "rs_ExecSQL (routeStatement p) = [safer]" "Planner_Classify exampleLib safer noFacts = Inr p'"
      "rs_ExecSQL (routeStatement p') = [safer]"
    using concurrent_form_is_final [OF p(1,2)] by blast
  moreover have "rs_ExecSQL (routeStatement p) = [''CREATE INDEX CONCURRENTLY i ON t (c)'']"
    using plan_route [OF p(1)] p(2,4,5) by (simp add: routeStatement_def routeBackend_def available_def nativeExecSQL_def)
  ultimately show ?thesis by auto
qed

end
