(* ===== verification/Statement_Desired.thy ===== *)
theory Statement_Desired
  imports Statement_Names "HOL-Library.List_Lexorder" "HOL-Library.Char_ord"
begin

text \<open>
  Desired-state schema files (\<open>pkg/statement/desired.go\<close>), the foreign keys of a
  CREATE TABLE (\<open>foreign_key.go\<close>) and the names the server gives to what a CREATE
  TABLE creates besides the table (\<open>implicit.go\<close>). The grammar gives every CREATE
  TABLE, CREATE INDEX and ALTER TABLE a relation, so the check for a missing one
  has no counterpart here.
\<close>

section \<open>Qualification\<close>

definition Qualify :: "pgquery \<Rightarrow> string \<Rightarrow> string \<Rightarrow> statement_error + string" where
  "Qualify Q sql schema =
     (case parseSingle Q sql of
        Inl e \<Rightarrow> Inl e
      | Inr node \<Rightarrow>
          (case node of
             NCreate create \<Rightarrow>
               deparseOne Q (NCreate (create\<lparr>create_relation := (create_relation create)\<lparr>rv_schemaname := schema\<rparr>\<rparr>))
           | NIndex idx \<Rightarrow> deparseOne Q (NIndex (idx\<lparr>idx_relation := (idx_relation idx)\<lparr>rv_schemaname := schema\<rparr>\<rparr>))
           | NAlterTable alter \<Rightarrow>
               deparseOne Q (NAlterTable (alter\<lparr>alter_relation := (alter_relation alter)\<lparr>rv_schemaname := schema\<rparr>\<rparr>))
           | _ \<Rightarrow> Inl ErrDisallowedStatement))"

definition qualifyReference :: "string \<Rightarrow> AlterTableCmd \<Rightarrow> AlterTableCmd" where
  "qualifyReference schema cmd =
     (if at_subtype cmd \<noteq> AT_AddConstraint then cmd
      else case at_def cmd of
        DefConstraint con \<Rightarrow>
          (case con_pktable con of
             None \<Rightarrow> cmd
           | Some rel \<Rightarrow>
               if con_contype con = CONSTR_FOREIGN \<and> rv_schemaname rel = ''''
               then cmd\<lparr>at_def := DefConstraint (con\<lparr>con_pktable := Some (rel\<lparr>rv_schemaname := schema\<rparr>)\<rparr>)\<rparr>
               else cmd)
      | _ \<Rightarrow> cmd)"

definition QualifyForeignKeyReferences :: "pgquery \<Rightarrow> string \<Rightarrow> string \<Rightarrow> statement_error + string" where
  "QualifyForeignKeyReferences Q sql schema =
     (case parseSingle Q sql of
        Inl e \<Rightarrow> Inl e
      | Inr (NAlterTable alter) \<Rightarrow>
          deparseOne Q (NAlterTable (alter\<lparr>alter_cmds := map (qualifyReference schema) (alter_cmds alter)\<rparr>))
      | Inr _ \<Rightarrow> Inl ErrDisallowedStatement)"

section \<open>Desired files\<close>

record DesiredSchema =
  ds_table :: string
  ds_foreignKeys :: bool
  ds_referenced :: "string list"
  ds_statements :: "Statement list"

definition admitDesiredStatement :: "Node \<Rightarrow> string \<Rightarrow> statement_error + Statement" where
  "admitDesiredStatement node seenTable =
     (case node of
        NCreate create \<Rightarrow>
          let rel = create_relation create in
          if rv_schemaname rel \<noteq> '''' then Inl ErrQualifiedName
          else if seenTable \<noteq> '''' then Inl ErrMultipleCreateTables
          else Inr ((mkStatement '''')\<lparr>stm_kind := KindCreateTable, stm_table := rv_relname rel\<rparr>)
      | NIndex idx \<Rightarrow>
          if idx_concurrent idx then Inl ErrConcurrentIndex
          else let rel = idx_relation idx in
            if rv_schemaname rel \<noteq> '''' then Inl ErrQualifiedName
            else Inr ((mkStatement '''')\<lparr>stm_kind := KindCreateIndex, stm_table := rv_relname rel\<rparr>)
      | _ \<Rightarrow> Inl ErrDisallowedStatement)"

text \<open>The zero value stands for a missing referenced table, as the generated getters read it.\<close>

definition getPktable :: "Constraint \<Rightarrow> RangeVar" where
  "getPktable con = (case con_pktable con of Some rel \<Rightarrow> rel | None \<Rightarrow> \<lparr>rv_schemaname = '''', rv_relname = '''', rv_inh = False\<rparr>)"

fun referencedNames :: "string \<Rightarrow> Constraint list \<Rightarrow> string list \<Rightarrow> statement_error + string list" where
  "referencedNames table [] names = Inr names"
| "referencedNames table (con # cons) names =
     (let ref = getPktable con in
      if rv_schemaname ref \<noteq> '''' then Inl ErrQualifiedName
      else if rv_relname ref = table \<or> rv_relname ref \<in> set names then referencedNames table cons names
      else referencedNames table cons (names @ [rv_relname ref]))"

definition referencedTables :: "CreateStmt \<Rightarrow> statement_error + string list" where
  "referencedTables create =
     (case referencedNames (rv_relname (create_relation create)) (foreignKeyConstraints create) [] of
        Inl e \<Rightarrow> Inl e
      | Inr names \<Rightarrow> Inr (sort names))"

definition admitTable :: "Node \<Rightarrow> Statement \<Rightarrow> DesiredSchema \<Rightarrow> statement_error + DesiredSchema" where
  "admitTable node st ds =
     (case node of
        NCreate create \<Rightarrow>
          (case referencedTables create of
             Inl e \<Rightarrow> Inl e
           | Inr names \<Rightarrow>
               Inr (ds\<lparr>ds_table := stm_table st, ds_foreignKeys := foreignKeyConstraints create \<noteq> [], ds_referenced := names\<rparr>))
      | _ \<Rightarrow> Inr ds)"

fun admitAll :: "pgquery \<Rightarrow> Node list \<Rightarrow> DesiredSchema \<Rightarrow> statement_error + DesiredSchema" where
  "admitAll Q [] ds = Inr ds"
| "admitAll Q (node # nodes) ds =
     (case admitDesiredStatement node (ds_table ds) of
        Inl e \<Rightarrow> Inl e
      | Inr st \<Rightarrow>
          (case admitTable node st ds of
             Inl e \<Rightarrow> Inl e
           | Inr ds1 \<Rightarrow>
               (case deparseOne Q node of
                  Inl e \<Rightarrow> Inl e
                | Inr out \<Rightarrow> admitAll Q nodes (ds1\<lparr>ds_statements := ds_statements ds1 @ [st\<lparr>stm_sql := out\<rparr>]\<rparr>))))"

definition executionOrder :: "Statement list \<Rightarrow> Statement list" where
  "executionOrder statements =
     filter (\<lambda>st. stm_kind st = KindCreateTable) statements @ filter (\<lambda>st. stm_kind st \<noteq> KindCreateTable) statements"

definition parseDesiredTree :: "pgquery \<Rightarrow> Node list \<Rightarrow> statement_error + DesiredSchema" where
  "parseDesiredTree Q stmts =
     (if stmts = [] then Inl ErrEmptyDesired
      else case admitAll Q stmts \<lparr>ds_table = '''', ds_foreignKeys = False, ds_referenced = [], ds_statements = []\<rparr> of
        Inl e \<Rightarrow> Inl e
      | Inr ds \<Rightarrow>
          if ds_table ds = '''' then Inl ErrNoCreateTable
          else if \<exists>st \<in> set (ds_statements ds). stm_kind st = KindCreateIndex \<and> stm_table st \<noteq> ds_table ds
          then Inl ErrWrongIndexTarget
          else Inr (ds\<lparr>ds_statements := executionOrder (ds_statements ds)\<rparr>))"

definition ParseDesired :: "pgquery \<Rightarrow> string \<Rightarrow> statement_error + DesiredSchema" where
  "ParseDesired Q sql =
     (case pg_parse Q sql of None \<Rightarrow> Inl ErrParseDesired | Some stmts \<Rightarrow> parseDesiredTree Q stmts)"

section \<open>Implicit relation names\<close>

text \<open>
  A generated name is \<open>None\<close> where a slice expression would panic or the
  numbering has not ended within the fuel; the theory shows below that neither
  happens.
\<close>

fun numberName :: "nat \<Rightarrow> nat \<Rightarrow> string \<Rightarrow> string set \<Rightarrow> string \<Rightarrow> string option" where
  "numberName 0 i origin used name = (if name \<in> used then None else Some name)"
| "numberName (Suc fuel) i origin used name =
     (if name \<notin> used then Some name
      else let suffix = itoa (int i) in
        case clipToRuneBoundary origin (nameDataLen - int (length suffix)) of
          None \<Rightarrow> None
        | Some head \<Rightarrow> numberName fuel (Suc i) origin used (head @ suffix))"

fun nameParts :: "nat \<Rightarrow> string list \<Rightarrow> string set \<Rightarrow> string list \<Rightarrow> string list option" where
  "nameParts fuel [] used parts = Some parts"
| "nameParts fuel (origin # columns) used parts =
     (case numberName fuel 1 origin used origin of
        None \<Rightarrow> None
      | Some name \<Rightarrow> nameParts fuel columns (insert name used) (parts @ [name]))"

definition indexNameAddition :: "nat \<Rightarrow> string list \<Rightarrow> string option" where
  "indexNameAddition fuel columns = map_option (join ''_'') (nameParts fuel columns {} [])"

definition appendIncludedColumns :: "string list \<Rightarrow> Constraint \<Rightarrow> string list" where
  "appendIncludedColumns keys con = keys @ con_including con"

definition constraintKeys :: "Constraint \<Rightarrow> string list" where
  "constraintKeys con = appendIncludedColumns (con_keys con) con"

definition exclusionKeys :: "Constraint \<Rightarrow> string list" where
  "exclusionKeys con =
     appendIncludedColumns (map (\<lambda>name. if name \<noteq> '''' then name else ''expr'') (con_exclusions con)) con"

text \<open>The outer \<open>None\<close> of the name functions is a constraint or column that claims no name.\<close>

definition constraintIndexName :: "nat \<Rightarrow> string \<Rightarrow> Constraint \<Rightarrow> string option option" where
  "constraintIndexName fuel table con =
     (if con_conname con \<noteq> '''' \<and> constraintBuildsIndex con then Some (Some (con_conname con))
      else case con_contype con of
        CONSTR_PRIMARY \<Rightarrow> Some (makeObjectName table '''' ''pkey'')
      | CONSTR_UNIQUE \<Rightarrow>
          Some (Option.bind (indexNameAddition fuel (constraintKeys con)) (\<lambda>a. makeObjectName table a ''key''))
      | CONSTR_EXCLUSION \<Rightarrow>
          Some (Option.bind (indexNameAddition fuel (exclusionKeys con)) (\<lambda>a. makeObjectName table a ''excl''))
      | _ \<Rightarrow> None)"

definition inlineConstraintIndexName :: "string \<Rightarrow> string \<Rightarrow> Constraint \<Rightarrow> string option option" where
  "inlineConstraintIndexName table column con =
     (if con_conname con \<noteq> '''' \<and> constraintBuildsIndex con then Some (Some (con_conname con))
      else case con_contype con of
        CONSTR_PRIMARY \<Rightarrow> Some (makeObjectName table '''' ''pkey'')
      | CONSTR_UNIQUE \<Rightarrow> Some (makeObjectName table column ''key'')
      | _ \<Rightarrow> None)"

definition identitySequenceName :: "Constraint \<Rightarrow> (string \<times> string) option" where
  "identitySequenceName con =
     (case List.find (\<lambda>d. de_defname (getDefElem d) = ''sequence_name'') (con_options con) of
        None \<Rightarrow> None
      | Some d \<Rightarrow>
          (case de_arg (getDefElem d) of
             Some (ArgList items) \<Rightarrow>
               if items = [] then None
               else Some (if length items > 1 then items ! (length items - 2) else '''', last items)
           | _ \<Rightarrow> None))"

definition columnSequenceName :: "string \<Rightarrow> string \<Rightarrow> ColumnDef \<Rightarrow> string option option" where
  "columnSequenceName schema table col =
     (if isSerialType (fst (typeRef (cd_typeName col))) then Some (makeObjectName table (cd_colname col) ''seq'')
      else case List.find (\<lambda>con. con_contype con = CONSTR_IDENTITY) (cd_constraints col) of
        None \<Rightarrow> None
      | Some con \<Rightarrow>
          (case identitySequenceName con of
             None \<Rightarrow> Some (makeObjectName table (cd_colname col) ''seq'')
           | Some (seqSchema, seqName) \<Rightarrow>
               if seqSchema \<noteq> '''' \<and> seqSchema \<noteq> schema then None else Some (Some seqName)))"

definition optionToList :: "'a option \<Rightarrow> 'a list" where
  "optionToList x = (case x of None \<Rightarrow> [] | Some a \<Rightarrow> [a])"

definition elementNames :: "nat \<Rightarrow> string \<Rightarrow> string \<Rightarrow> TableElt \<Rightarrow> string option list" where
  "elementNames fuel schema table elt =
     (case elt of
        EltConstraint con \<Rightarrow> optionToList (constraintIndexName fuel table con)
      | EltColumn col \<Rightarrow>
          optionToList (columnSequenceName schema table col)
          @ concat (map (\<lambda>con. optionToList (inlineConstraintIndexName table (cd_colname col) con)) (cd_constraints col))
      | _ \<Rightarrow> [])"

definition ImplicitRelationNames :: "nat \<Rightarrow> pgquery \<Rightarrow> string \<Rightarrow> statement_error + string option list" where
  "ImplicitRelationNames fuel Q sql =
     (case parseSingle Q sql of
        Inl e \<Rightarrow> Inl e
      | Inr (NCreate create) \<Rightarrow>
          Inr (concat (map (elementNames fuel (rv_schemaname (create_relation create)) (rv_relname (create_relation create)))
            (create_elts create)))
      | Inr _ \<Rightarrow> Inl ErrNotCreateTable)"

section \<open>The numbering of repeated names ends\<close>

definition numbered :: "string \<Rightarrow> nat \<Rightarrow> string" where
  "numbered origin i = the (clipToRuneBoundary origin (nameDataLen - int (length (decStr i)))) @ decStr i"

lemma numbered_ok:
  assumes "i < 10 ^ 50"
  shows "clipToRuneBoundary origin (nameDataLen - int (length (itoa (int i)))) =
      Some (the (clipToRuneBoundary origin (nameDataLen - int (length (decStr i)))))"
    "length (numbered origin i) \<le> 63"
proof -
  have "length (decStr i) \<le> 50" using decStr_length [of i 49] assms by simp
  then have "0 \<le> nameDataLen - int (length (decStr i))" by (simp add: nameDataLen_def)
  then obtain c where "clipToRuneBoundary origin (nameDataLen - int (length (decStr i))) = Some c"
      "int (length c) \<le> nameDataLen - int (length (decStr i))"
    using clip_Some by blast
  then show "clipToRuneBoundary origin (nameDataLen - int (length (itoa (int i)))) =
      Some (the (clipToRuneBoundary origin (nameDataLen - int (length (decStr i)))))"
    "length (numbered origin i) \<le> 63"
    by (simp_all add: itoa_def numbered_def nameDataLen_def)
qed

lemma numberName_None:
  assumes "numberName fuel i origin used name = None" "i + fuel < 10 ^ 50"
  shows "numbered origin ` {i..<i + fuel} \<subseteq> used"
  using assms
proof (induction fuel arbitrary: i name)
  case (Suc fuel)
  have nxt: "numberName fuel (Suc i) origin used (numbered origin i) = None"
    using Suc.prems numbered_ok(1) [of i origin] by (auto simp: Let_def numbered_def itoa_def split: if_splits option.splits)
  then have "numbered origin i \<in> used" by (cases fuel) (auto split: if_splits)
  moreover have "numbered origin ` {Suc i..<Suc i + fuel} \<subseteq> used" using Suc.IH [OF nxt] Suc.prems(2) by simp
  moreover have "{i..<i + Suc fuel} = insert i {Suc i..<Suc i + fuel}" by auto
  ultimately show ?case by simp
qed simp

lemma decStr_length_exact: "10 ^ k \<le> n \<Longrightarrow> n < 10 ^ Suc k \<Longrightarrow> length (decStr n) = Suc k"
proof (induction k arbitrary: n)
  case (Suc k)
  have "10 ^ k \<le> n div 10" "n div 10 < 10 ^ Suc k" using Suc.prems by (auto simp: less_mult_imp_div_less div_le_mono2 less_eq_div_iff_mult_less_eq)
  moreover have "\<not> n < 10" using Suc.prems(1) by (metis le_trans leD one_le_numeral one_le_power power_Suc mult.commute mult_le_mono1 nat_mult_1 not_le)
  ultimately show ?case using Suc.IH [of "n div 10"] by (simp add: decStr.simps [of n])
qed (simp add: decStr.simps)

lemma numbered_inj: "inj_on (numbered origin) {10 ^ 9..<10 ^ 10}"
proof (rule inj_onI)
  fix i j assume ij: "i \<in> {10 ^ 9..<10 ^ 10}" "j \<in> {10 ^ 9..<10 ^ 10 :: nat}" "numbered origin i = numbered origin j"
  then have "length (decStr i) = 10" "length (decStr j) = 10" using decStr_length_exact [of 9] by simp_all
  then have "decStr i = decStr j" using ij(3) by (simp add: numbered_def)
  then show "i = j" by (rule decStr_inject)
qed

lemma numberName_Some:
  assumes "finite used" "card used < 9 * 10 ^ 9" "10 ^ 10 \<le> fuel" "fuel < 10 ^ 49"
  shows "\<exists>name. numberName fuel 1 origin used origin = Some name"
proof (rule ccontr)
  assume "\<nexists>name. numberName fuel 1 origin used origin = Some name"
  then have "numberName fuel 1 origin used origin = None" by (simp add: option.expand)
  then have "numbered origin ` {1..<1 + fuel} \<subseteq> used" using numberName_None assms(4) by fastforce
  moreover have "{10 ^ 9..<10 ^ 10} \<subseteq> {1..<1 + fuel}" using assms(3) by auto
  ultimately have sub: "numbered origin ` {10 ^ 9..<10 ^ 10} \<subseteq> used" by blast
  have "card (numbered origin ` {10 ^ 9..<10 ^ 10}) = 9 * 10 ^ 9" using card_image [OF numbered_inj] by simp
  then show False using card_mono [OF assms(1) sub] assms(2) by linarith
qed

lemma nameParts_Some:
  assumes "finite used" "card used + length columns < 9 * 10 ^ 9" "10 ^ 10 \<le> fuel" "fuel < 10 ^ 49"
  shows "\<exists>ps. nameParts fuel columns used parts = Some ps"
  using assms
proof (induction columns arbitrary: used parts)
  case (Cons origin columns)
  obtain name where n: "numberName fuel 1 origin used origin = Some name"
    using numberName_Some [of used fuel origin] Cons.prems by auto
  have "card (insert name used) \<le> Suc (card used)" by (rule card_insert_le_m1) auto
  then have "card (insert name used) + length columns < 9 * 10 ^ 9" using Cons.prems(2) by simp
  then show ?case using Cons.IH [of "insert name used" "parts @ [name]"] Cons.prems n by simp
qed simp

section \<open>Properties\<close>

text \<open>
  Every name the engine predicts for a CREATE TABLE of fewer than nine billion
  columns per constraint is computed, and a generated one fits the server's limit.
\<close>

lemma indexNameAddition_Some:
  "length columns < 9 * 10 ^ 9 \<Longrightarrow> 10 ^ 10 \<le> fuel \<Longrightarrow> fuel < 10 ^ 49 \<Longrightarrow> \<exists>a. indexNameAddition fuel columns = Some a"
  using nameParts_Some [of "{}" columns fuel "[]"] by (auto simp: indexNameAddition_def)

lemma implicit_names_found:
  assumes "constraintIndexName fuel table con = Some r" "10 ^ 10 \<le> fuel" "fuel < 10 ^ 49"
    and "length (con_keys con) + length (con_exclusions con) + length (con_including con) < 9 * 10 ^ 9"
  shows "\<exists>name. r = Some name \<and> (con_conname con = '''' \<longrightarrow> length name \<le> 63)"
proof -
  have mk: "length label \<le> 61 \<Longrightarrow> \<exists>name. makeObjectName table a label = Some name \<and> length name \<le> 63" for a label
    using makeObjectName_Some [of label table a] by blast
  have "\<exists>a. indexNameAddition fuel (constraintKeys con) = Some a" "\<exists>a. indexNameAddition fuel (exclusionKeys con) = Some a"
    using assms(2-4)
    by (auto intro!: indexNameAddition_Some simp: constraintKeys_def exclusionKeys_def appendIncludedColumns_def)
  then show ?thesis using assms(1) mk [of "''pkey''"] mk [of "''key''"] mk [of "''excl''"]
    by (auto simp: constraintIndexName_def split: if_splits ConstrType.splits) metis+
qed

definition isCreate :: "Node \<Rightarrow> bool" where
  "isCreate node = (case node of NCreate _ \<Rightarrow> True | _ \<Rightarrow> False)"

text \<open>A node and the statement it is admitted as: schema-relative, not concurrent, and in the deparser's words.\<close>

definition admitted :: "pgquery \<Rightarrow> Node \<Rightarrow> Statement \<Rightarrow> bool" where
  "admitted Q node st =
     (deparseOne Q node = Inr (stm_sql st) \<and>
      (case node of
         NCreate create \<Rightarrow> stm_kind st = KindCreateTable \<and> rv_schemaname (create_relation create) = '''' \<and>
           stm_table st = rv_relname (create_relation create)
       | NIndex idx \<Rightarrow> stm_kind st = KindCreateIndex \<and> \<not> idx_concurrent idx \<and>
           rv_schemaname (idx_relation idx) = '''' \<and> stm_table st = rv_relname (idx_relation idx)
       | _ \<Rightarrow> False))"

lemma admitStatement:
  assumes "admitDesiredStatement node seen = Inr st" "deparseOne Q node = Inr out"
  shows "admitted Q node (st\<lparr>stm_sql := out\<rparr>)" "isCreate node \<Longrightarrow> seen = ''''" "stm_kind st = KindCreateTable \<longleftrightarrow> isCreate node"
  using assms by (auto simp: admitDesiredStatement_def admitted_def isCreate_def Let_def split: Node.splits if_splits)

lemma admitTable_table:
  assumes "admitTable node st ds = Inr ds'"
  shows "ds_statements ds' = ds_statements ds" "ds_table ds' = (if isCreate node then stm_table st else ds_table ds)"
  using assms by (auto simp: admitTable_def isCreate_def split: Node.splits sum.splits)

definition table_seen :: "Node list \<Rightarrow> string \<Rightarrow> string \<Rightarrow> bool" where
  "table_seen nodes before after =
     (if before \<noteq> '''' then filter isCreate nodes = [] \<and> after = before
      else (filter isCreate nodes = [] \<and> after = '''') \<or>
        (\<exists>create. filter isCreate nodes = [NCreate create] \<and> after = rv_relname (create_relation create)))"

lemma admitAll_exact:
  assumes "admitAll Q nodes ds = Inr ds'" "\<And>create. NCreate create \<in> set nodes \<Longrightarrow> rv_relname (create_relation create) \<noteq> ''''"
  shows "\<exists>sts. ds_statements ds' = ds_statements ds @ sts \<and> list_all2 (admitted Q) nodes sts \<and>
    table_seen nodes (ds_table ds) (ds_table ds')"
  using assms
proof (induction nodes arbitrary: ds)
  case Nil
  then show ?case by (auto simp: table_seen_def)
next
  case (Cons node nodes)
  then obtain st ds1 out where st: "admitDesiredStatement node (ds_table ds) = Inr st" "admitTable node st ds = Inr ds1"
      "deparseOne Q node = Inr out" "admitAll Q nodes (ds1\<lparr>ds_statements := ds_statements ds1 @ [st\<lparr>stm_sql := out\<rparr>]\<rparr>) = Inr ds'"
    by (auto split: sum.splits)
  note a = admitStatement [OF st(1,3)] and t = admitTable_table [OF st(2)]
  obtain sts where sts: "ds_statements ds' = ds_statements ds @ st\<lparr>stm_sql := out\<rparr> # sts" "list_all2 (admitted Q) nodes sts"
      "table_seen nodes (ds_table ds1) (ds_table ds')"
    using Cons.IH [OF st(4)] Cons.prems(2) t(1) by auto
  have "table_seen (node # nodes) (ds_table ds) (ds_table ds')"
  proof (cases "isCreate node")
    case True
    then obtain create where c: "node = NCreate create" by (auto simp: isCreate_def split: Node.splits)
    then have "stm_table st = rv_relname (create_relation create)" using a(1) by (simp add: admitted_def)
    moreover have "rv_relname (create_relation create) \<noteq> ''''" using Cons.prems(2) c by simp
    ultimately show ?thesis using sts(3) t(2) True a(2) c by (auto simp: table_seen_def)
  next
    case False
    then show ?thesis using sts(3) t(2) by (simp add: table_seen_def)
  qed
  then show ?case using sts a(1) by (intro exI [of _ "st\<lparr>stm_sql := out\<rparr> # sts"]) simp
qed

lemma admitted_create: "admitted Q node st \<Longrightarrow> stm_kind st = KindCreateTable \<longleftrightarrow> isCreate node"
  by (auto simp: admitted_def isCreate_def split: Node.splits)

lemma admitted_filter:
  assumes "list_all2 (admitted Q) nodes sts"
  shows "list_all2 (admitted Q) (filter isCreate nodes @ filter (\<lambda>n. \<not> isCreate n) nodes) (executionOrder sts)"
proof -
  have "list_all2 (admitted Q) (filter isCreate nodes) (filter (\<lambda>st. stm_kind st = KindCreateTable) sts) \<and>
      list_all2 (admitted Q) (filter (\<lambda>n. \<not> isCreate n) nodes) (filter (\<lambda>st. stm_kind st \<noteq> KindCreateTable) sts)"
    using assms by (induction rule: list_all2_induct) (auto dest: admitted_create)
  then show ?thesis unfolding executionOrder_def by (simp add: list_all2_appendI)
qed

text \<open>
  C38: An admitted desired file is one table and its indexes, in an order that
  runs. A file \<open>ParseDesired\<close> accepts has exactly one CREATE TABLE, and its
  statements are, in the deparser's words, that CREATE TABLE followed by the
  file's other statements in the file's order; each of them is a CREATE INDEX on that
  table, none is concurrent, and no target carries a schema, so the file cannot
  reach outside the schema it is run in. (The parser is assumed to give a created
  table a name.)
\<close>

theorem desired_file_admitted:
  assumes "ParseDesired Q sql = Inr ds" "pg_parse Q sql = Some nodes"
    and "\<And>create. NCreate create \<in> set nodes \<Longrightarrow> rv_relname (create_relation create) \<noteq> ''''"
  shows "\<exists>create. filter isCreate nodes = [NCreate create] \<and> ds_table ds = rv_relname (create_relation create) \<and>
    list_all2 (admitted Q) (NCreate create # filter (\<lambda>n. \<not> isCreate n) nodes) (ds_statements ds) \<and>
    (\<forall>st \<in> set (ds_statements ds). stm_table st = ds_table ds)"
proof -
  obtain ds0 where ds0: "admitAll Q nodes \<lparr>ds_table = '''', ds_foreignKeys = False, ds_referenced = [], ds_statements = []\<rparr> = Inr ds0"
      "ds_table ds0 \<noteq> ''''" "\<forall>st \<in> set (ds_statements ds0). stm_kind st = KindCreateIndex \<longrightarrow> stm_table st = ds_table ds0"
      "ds = ds0\<lparr>ds_statements := executionOrder (ds_statements ds0)\<rparr>"
    using assms(1,2) by (auto simp: ParseDesired_def parseDesiredTree_def split: if_splits sum.splits)
  obtain create where c: "filter isCreate nodes = [NCreate create]" "ds_table ds0 = rv_relname (create_relation create)"
    and all: "list_all2 (admitted Q) nodes (ds_statements ds0)"
    using admitAll_exact [OF ds0(1) assms(3)] ds0(2) by (auto simp: table_seen_def)
  have run: "list_all2 (admitted Q) (NCreate create # filter (\<lambda>n. \<not> isCreate n) nodes) (ds_statements ds)"
    using admitted_filter [OF all] c(1) ds0(4) by simp
  have "stm_table st = ds_table ds" if "st \<in> set (ds_statements ds)" for st
  proof -
    have st: "st \<in> set (ds_statements ds0)" using that ds0(4) by (auto simp: executionOrder_def)
    then obtain node where n: "node \<in> set nodes" "admitted Q node st"
      using all by (metis in_set_conv_nth list_all2_conv_all_nth)
    show ?thesis
    proof (cases "isCreate node")
      case True
      then have "node \<in> set (filter isCreate nodes)" using n(1) by simp
      then have "node = NCreate create" using c(1) by simp
      then show ?thesis using n(2) c(2) ds0(4) by (simp add: admitted_def)
    next
      case False
      then have "stm_kind st = KindCreateIndex" using n(2) by (auto simp: admitted_def isCreate_def split: Node.splits)
      then show ?thesis using ds0(3,4) st by simp
    qed
  qed
  then show ?thesis using c run ds0(4) by auto
qed

definition desired_index :: IndexStmt where
  "desired_index = \<lparr>idx_name = ''i'', idx_relation = \<lparr>rv_schemaname = '''', rv_relname = ''t'', rv_inh = True\<rparr>,
     idx_concurrent = False, idx_unique = False, idx_ifNotExists = False\<rparr>"

definition desired_create :: CreateStmt where
  "desired_create = \<lparr>create_relation = \<lparr>rv_schemaname = '''', rv_relname = ''t'', rv_inh = True\<rparr>, create_elts = [],
     create_partbound = False, create_inhRelations = [], create_ofTypename = False, create_ifNotExists = False\<rparr>"

definition desired_query :: pgquery where
  "desired_query = \<lparr>pg_parse = (\<lambda>_. Some [NIndex desired_index, NCreate desired_create]),
     pg_deparse = (\<lambda>node. Some (if isCreate node then ''CREATE TABLE t ()'' else ''CREATE INDEX i ON t (c)''))\<rparr>"

theorem desired_file_admitted_witness:
  "\<exists>ds. ParseDesired desired_query ''f'' = Inr ds \<and>
     map stm_sql (ds_statements ds) = [''CREATE TABLE t ()'', ''CREATE INDEX i ON t (c)''] \<and>
     (\<exists>create. filter isCreate [NIndex desired_index, NCreate desired_create] = [NCreate create])"
proof -
  have "\<exists>ds. ParseDesired desired_query ''f'' = Inr ds \<and>
      map stm_sql (ds_statements ds) = [''CREATE TABLE t ()'', ''CREATE INDEX i ON t (c)'']"
    by (simp add: ParseDesired_def parseDesiredTree_def desired_query_def admitDesiredStatement_def desired_index_def
        desired_create_def admitTable_def referencedTables_def foreignKeyConstraints_def deparseOne_def executionOrder_def
        isCreate_def mkStatement_def Let_def)
  moreover have "pg_parse desired_query ''f'' = Some [NIndex desired_index, NCreate desired_create]"
    by (simp add: desired_query_def)
  ultimately show ?thesis using desired_file_admitted [of desired_query "''f''"] by (fastforce simp: desired_create_def)
qed

end
