(* ===== verification/Schema_Diff.thy ===== *)
theory Schema_Diff
  imports Schema_Model Statement_Desired
begin

text \<open>
  The difference of two tables as an ordered list of statements
  (\<open>pkg/schemadiff/diff.go\<close>, \<open>advisory.go\<close>). What the diff decides to do is a
  \<open>DiffStep\<close>, with the operands the code takes from the two models;
  \<open>changeOf\<close> renders a step to the change the code appends, with its literal SQL. The
  driver's quoting of identifiers (\<open>san\<close>) and the SQL parser (\<open>Q\<close>) are arguments.
\<close>

section \<open>Changes\<close>

datatype schema_error = ErrUnsupportedChange | ErrDifferentTables | SchemaStatement statement_error

datatype SchemaChangeKind =
    ChangeCreateTable | ChangeDropIndex | ChangeDropConstraint | ChangeDropForeignKey | ChangeDropColumn | ChangeAddColumn
  | ChangeAlterType | ChangeSetGeneratedExpression | ChangeSetDefault | ChangeDropDefault | ChangeSetNotNull
  | ChangeDropNotNull | ChangeAddConstraint | ChangeAddForeignKey | ChangeValidateConstraint | ChangeValidateForeignKey
  | ChangeCreateIndex

definition ChangeKinds :: "SchemaChangeKind list" where
  "ChangeKinds =
     [ChangeCreateTable, ChangeDropIndex, ChangeDropConstraint, ChangeDropForeignKey, ChangeDropColumn, ChangeAddColumn,
      ChangeAlterType, ChangeSetGeneratedExpression, ChangeSetDefault, ChangeDropDefault, ChangeSetNotNull, ChangeDropNotNull,
      ChangeAddConstraint, ChangeAddForeignKey, ChangeValidateConstraint, ChangeValidateForeignKey, ChangeCreateIndex]"

definition IsForeignKey :: "SchemaChangeKind \<Rightarrow> bool" where
  "IsForeignKey k = (k = ChangeAddForeignKey \<or> k = ChangeDropForeignKey \<or> k = ChangeValidateForeignKey)"

record IndexAdoption =
  ia_Index :: string
  ia_Def :: string

record ConstraintValidation =
  cv_Constraint :: string
  cv_Def :: string

record Change =
  ch_SQL :: string
  ch_Kind :: SchemaChangeKind
  ch_Destructive :: bool
  ch_Adopts :: "IndexAdoption option"
  ch_Validates :: "ConstraintValidation option"

definition mkChange :: "string \<Rightarrow> SchemaChangeKind \<Rightarrow> Change" where
  "mkChange sql kind = \<lparr>ch_SQL = sql, ch_Kind = kind, ch_Destructive = False, ch_Adopts = None, ch_Validates = None\<rparr>"

section \<open>Sequences of identity columns\<close>

definition integerTypeRange :: "string \<Rightarrow> (int64 \<times> int64) option" where
  "integerTypeRange typ =
     (if typ = ''smallint'' then Some (- 32768, 32767)
      else if typ = ''integer'' then Some (- 2147483648, 2147483647)
      else if typ = ''bigint'' then Some (MinInt64, MaxInt64)
      else None)"

definition identitySequenceAfterRetype :: "SchemaColumn \<Rightarrow> string \<Rightarrow> SequenceOptions option" where
  "identitySequenceAfterRetype live typ =
     (if sc_Type live = typ then sc_Sequence live
      else case (case sc_Sequence live of Some s \<Rightarrow> Some s | None \<Rightarrow> defaultSequenceOptions (sc_Type live)) of
        None \<Rightarrow> sc_Sequence live
      | Some opts \<Rightarrow>
          (case (integerTypeRange (so_Type opts), integerTypeRange typ) of
             (Some (fromMin, fromMax), Some (toMin, toMax)) \<Rightarrow>
               declaredSequence typ
                 (opts\<lparr>so_Type := typ, so_Min := (if so_Min opts = fromMin then toMin else so_Min opts),
                       so_Max := (if so_Max opts = fromMax then toMax else so_Max opts)\<rparr>)
           | _ \<Rightarrow> sc_Sequence live))"

definition sameSequence :: "SequenceOptions option \<Rightarrow> SequenceOptions option \<Rightarrow> bool" where
  "sameSequence a b = (case (a, b) of (Some x, Some y) \<Rightarrow> x = y | (None, None) \<Rightarrow> True | _ \<Rightarrow> False)"

definition identityExpressible :: "SchemaColumn \<Rightarrow> bool" where
  "identityExpressible c =
     (\<not> (sc_Identity c \<noteq> IdentityNone \<and> (case sc_Sequence c of Some s \<Rightarrow> so_Type s \<noteq> sc_Type c | None \<Rightarrow> False)))"

definition sequenceClause :: "SequenceOptions \<Rightarrow> string" where
  "sequenceClause s =
     ''START WITH '' @ itoa (so_Start s) @ '' INCREMENT BY '' @ itoa (so_Increment s) @ '' MINVALUE '' @ itoa (so_Min s)
     @ '' MAXVALUE '' @ itoa (so_Max s) @ '' CACHE '' @ itoa (so_Cache s) @ '' '' @ (if so_Cycle s then ''CYCLE'' else ''NO CYCLE'')"

definition identityOptions :: "SequenceOptions option \<Rightarrow> string" where
  "identityOptions s = (case s of None \<Rightarrow> '''' | Some o' \<Rightarrow> '' ('' @ sequenceClause o' @ '')'')"

definition columnDef :: "(string list \<Rightarrow> string) \<Rightarrow> SchemaColumn \<Rightarrow> string" where
  "columnDef san c =
     san [sc_Name c] @ '' '' @ sc_Type c
     @ (if sc_Generated c then '' GENERATED ALWAYS AS ('' @ sc_Default c @ '') STORED''
        else if sc_Virtual c then '' GENERATED ALWAYS AS ('' @ sc_Default c @ '') VIRTUAL''
        else if sc_Identity c = IdentityAlways then '' GENERATED ALWAYS AS IDENTITY'' @ identityOptions (sc_Sequence c)
        else if sc_Identity c = IdentityByDefault then '' GENERATED BY DEFAULT AS IDENTITY'' @ identityOptions (sc_Sequence c)
        else if sc_Default c \<noteq> '''' then '' DEFAULT '' @ sc_Default c
        else '''')
     @ (if sc_NotNull c then '' NOT NULL'' else '''')"

section \<open>Comparing constraints and indexes\<close>

definition notValidSuffix :: string where
  "notValidSuffix = '' NOT VALID''"

definition validatesInPlace :: "SchemaConstraint \<Rightarrow> SchemaConstraint \<Rightarrow> bool" where
  "validatesInPlace live desired = (sk_NotValid live \<and> \<not> sk_NotValid desired \<and> sk_Def live = sk_Def desired @ notValidSuffix)"

definition columnsByName :: "SchemaColumn list \<Rightarrow> string \<rightharpoonup> SchemaColumn" where
  "columnsByName cols = fold (\<lambda>c m. m(sc_Name c \<mapsto> c)) cols Map.empty"

definition constraintsByName :: "SchemaConstraint list \<Rightarrow> string \<rightharpoonup> SchemaConstraint" where
  "constraintsByName cons = fold (\<lambda>c m. m(sk_Name c \<mapsto> c)) cons Map.empty"

definition indexesByName :: "SchemaIndex list \<Rightarrow> string \<rightharpoonup> SchemaIndex" where
  "indexesByName idxs = fold (\<lambda>ix m. m(sx_Name ix \<mapsto> ix)) idxs Map.empty"

definition isUnfinishedBuild :: "bool \<Rightarrow> SchemaIndex \<Rightarrow> bool" where
  "isUnfinishedBuild partitioned ix = (if partitioned then False else sx_Invalid ix)"

definition indexNeedsDrop :: "bool \<Rightarrow> SchemaIndex \<Rightarrow> (string \<rightharpoonup> SchemaIndex) \<Rightarrow> bool" where
  "indexNeedsDrop partitioned ix desired =
     (if isUnfinishedBuild partitioned ix then False
      else case desired (sx_Name ix) of None \<Rightarrow> True | Some want \<Rightarrow> sx_Def want \<noteq> sx_Def ix)"

definition indexNeedsCreate :: "bool \<Rightarrow> (string \<rightharpoonup> SchemaIndex) \<Rightarrow> SchemaIndex \<Rightarrow> bool" where
  "indexNeedsCreate partitioned liveIdx want =
     (case liveIdx (sx_Name want) of
        None \<Rightarrow> True
      | Some had \<Rightarrow> if sx_Def had \<noteq> sx_Def want then True else isUnfinishedBuild partitioned had)"

definition adoptable :: "(string \<rightharpoonup> SchemaConstraint) \<Rightarrow> (string \<rightharpoonup> SchemaIndex) \<Rightarrow> SchemaConstraint \<Rightarrow> bool" where
  "adoptable liveCons liveIdx con =
     (if sk_IndexDef con = '''' then False
      else if liveCons (sk_Name con) \<noteq> None then False
      else case liveIdx (sk_Name con) of
        None \<Rightarrow> False
      | Some ix \<Rightarrow> \<not> (sx_Invalid ix \<or> sx_Def ix \<noteq> sk_IndexDef con))"

definition adoptableIndexes ::
  "bool \<Rightarrow> (string \<rightharpoonup> SchemaConstraint) \<Rightarrow> (string \<rightharpoonup> SchemaIndex) \<Rightarrow> SchemaConstraint list \<Rightarrow> string set" where
  "adoptableIndexes partitioned liveCons liveIdx desired =
     (if partitioned then {} else set (map sk_Name (filter (adoptable liveCons liveIdx) desired)))"

definition adoptIndexSQL :: "(string list \<Rightarrow> string) \<Rightarrow> string \<Rightarrow> SchemaConstraint \<Rightarrow> string" where
  "adoptIndexSQL san table con =
     ''ALTER TABLE '' @ table @ '' ADD CONSTRAINT '' @ san [sk_Name con] @ '' ''
     @ (if sk_Primary con then ''PRIMARY KEY'' else ''UNIQUE'') @ '' USING INDEX '' @ san [sk_Name con]
     @ (if sk_Deferrable con then '' DEFERRABLE'' else '''')
     @ (if sk_InitiallyDeferred con then '' INITIALLY DEFERRED'' else '''')"

definition dropConstraintKind :: "SchemaConstraint \<Rightarrow> SchemaChangeKind" where
  "dropConstraintKind con = (if sk_ForeignKey con then ChangeDropForeignKey else ChangeDropConstraint)"

definition addConstraintKind :: "SchemaConstraint \<Rightarrow> SchemaChangeKind" where
  "addConstraintKind con = (if sk_ForeignKey con then ChangeAddForeignKey else ChangeAddConstraint)"

definition validateConstraintKind :: "SchemaConstraint \<Rightarrow> SchemaChangeKind" where
  "validateConstraintKind con = (if sk_ForeignKey con then ChangeValidateForeignKey else ChangeValidateConstraint)"

section \<open>Steps\<close>

datatype DiffStep =
    DropIndex SchemaIndex
  | DropConstraint SchemaConstraint
  | DropColumn SchemaColumn
  | AddColumn SchemaColumn
  | SetExpression string string
  | AlterType string string
  | DropDefault string
  | SetDefault string string
  | SetNotNull string
  | DropNotNull string
  | AdoptIndex SchemaConstraint
  | ValidateConstraint SchemaConstraint SchemaConstraint
  | AddConstraint SchemaConstraint
  | CreateIndex SchemaIndex

definition changeOf :: "pgquery \<Rightarrow> (string list \<Rightarrow> string) \<Rightarrow> string \<Rightarrow> string \<Rightarrow> DiffStep \<Rightarrow> schema_error + Change" where
  "changeOf Q san schema table step =
     (let alter = (\<lambda>name. ''ALTER TABLE '' @ table @ '' ALTER COLUMN '' @ san [name]) in
      case step of
        DropIndex ix \<Rightarrow> Inr ((mkChange (''DROP INDEX '' @ san [schema, sx_Name ix]) ChangeDropIndex)\<lparr>ch_Destructive := True\<rparr>)
      | DropConstraint con \<Rightarrow>
          Inr ((mkChange (''ALTER TABLE '' @ table @ '' DROP CONSTRAINT '' @ san [sk_Name con]) (dropConstraintKind con))
                 \<lparr>ch_Destructive := True\<rparr>)
      | DropColumn col \<Rightarrow>
          Inr ((mkChange (''ALTER TABLE '' @ table @ '' DROP COLUMN '' @ san [sc_Name col]) ChangeDropColumn)\<lparr>ch_Destructive := True\<rparr>)
      | AddColumn col \<Rightarrow> Inr (mkChange (''ALTER TABLE '' @ table @ '' ADD COLUMN '' @ columnDef san col) ChangeAddColumn)
      | SetExpression name expr \<Rightarrow>
          Inr (mkChange (alter name @ '' SET EXPRESSION AS ('' @ expr @ '')'') ChangeSetGeneratedExpression)
      | AlterType name typ \<Rightarrow> Inr (mkChange (alter name @ '' TYPE '' @ typ) ChangeAlterType)
      | DropDefault name \<Rightarrow> Inr (mkChange (alter name @ '' DROP DEFAULT'') ChangeDropDefault)
      | SetDefault name expr \<Rightarrow> Inr (mkChange (alter name @ '' SET DEFAULT '' @ expr) ChangeSetDefault)
      | SetNotNull name \<Rightarrow> Inr (mkChange (alter name @ '' SET NOT NULL'') ChangeSetNotNull)
      | DropNotNull name \<Rightarrow> Inr (mkChange (alter name @ '' DROP NOT NULL'') ChangeDropNotNull)
      | AdoptIndex con \<Rightarrow>
          Inr ((mkChange (adoptIndexSQL san table con) ChangeAddConstraint)
                 \<lparr>ch_Adopts := Some \<lparr>ia_Index = sk_Name con, ia_Def = sk_IndexDef con\<rparr>\<rparr>)
      | ValidateConstraint had con \<Rightarrow>
          Inr ((mkChange (''ALTER TABLE '' @ table @ '' VALIDATE CONSTRAINT '' @ san [sk_Name con]) (validateConstraintKind con))
                 \<lparr>ch_Validates := Some \<lparr>cv_Constraint = sk_Name con, cv_Def = sk_Def had\<rparr>\<rparr>)
      | AddConstraint con \<Rightarrow>
          (let sql = ''ALTER TABLE '' @ table @ '' ADD CONSTRAINT '' @ san [sk_Name con] @ '' '' @ sk_Def con in
           if sk_ForeignKey con
           then case QualifyForeignKeyReferences Q sql schema of
                  Inl e \<Rightarrow> Inl (SchemaStatement e)
                | Inr qualified \<Rightarrow> Inr (mkChange qualified (addConstraintKind con))
           else Inr (mkChange sql (addConstraintKind con)))
      | CreateIndex ix \<Rightarrow>
          (case Qualify Q (sx_Def ix) schema of
             Inl e \<Rightarrow> Inl (SchemaStatement e)
           | Inr qualified \<Rightarrow> Inr (mkChange qualified ChangeCreateIndex)))"

section \<open>The difference\<close>

definition defaultSteps :: "SchemaColumn \<Rightarrow> SchemaColumn \<Rightarrow> schema_error + DiffStep list" where
  "defaultSteps live desired =
     (if \<not> IsGenerated desired \<and> sc_Identity desired = IdentityNone \<and> sc_Default live \<noteq> sc_Default desired
      then if sc_SequenceDefault desired then Inl ErrUnsupportedChange
        else if sc_Default desired = '''' then Inr [DropDefault (sc_Name live)]
        else Inr [SetDefault (sc_Name live) (sc_Default desired)]
      else Inr [])"

definition nullSteps :: "SchemaColumn \<Rightarrow> SchemaColumn \<Rightarrow> DiffStep list" where
  "nullSteps live desired =
     (if sc_NotNull live \<noteq> sc_NotNull desired
      then if sc_NotNull desired then [SetNotNull (sc_Name live)] else [DropNotNull (sc_Name live)]
      else [])"

definition alterColumnChanges :: "SchemaColumn \<Rightarrow> SchemaColumn \<Rightarrow> schema_error + DiffStep list" where
  "alterColumnChanges live desired =
     (if sc_Identity live \<noteq> sc_Identity desired then Inl ErrUnsupportedChange
      else if sc_Generated live \<noteq> sc_Generated desired then Inl ErrUnsupportedChange
      else if sc_Virtual live \<noteq> sc_Virtual desired then Inl ErrUnsupportedChange
      else if sc_Identity desired \<noteq> IdentityNone
              \<and> \<not> sameSequence (identitySequenceAfterRetype live (sc_Type desired)) (sc_Sequence desired)
      then Inl ErrUnsupportedChange
      else if sc_Collation live \<noteq> sc_Collation desired then Inl ErrUnsupportedChange
      else if IsGenerated desired \<and> sc_Type live \<noteq> sc_Type desired then Inl ErrUnsupportedChange
      else case defaultSteps live desired of
        Inl e \<Rightarrow> Inl e
      | Inr defaults \<Rightarrow>
          Inr ((if IsGenerated desired \<and> sc_Default live \<noteq> sc_Default desired
                then [SetExpression (sc_Name live) (sc_Default desired)] else [])
               @ (if sc_Type live \<noteq> sc_Type desired then [AlterType (sc_Name live) (sc_Type desired)] else [])
               @ defaults @ nullSteps live desired))"

definition dropIndexSteps :: "bool \<Rightarrow> string set \<Rightarrow> SchemaIndex list \<Rightarrow> (string \<rightharpoonup> SchemaIndex) \<Rightarrow> DiffStep list" where
  "dropIndexSteps partitioned adopted liveIndexes desiredIdx =
     map DropIndex (filter (\<lambda>ix. sx_Name ix \<notin> adopted \<and> indexNeedsDrop partitioned ix desiredIdx) liveIndexes)"

definition keepsConstraint :: "(string \<rightharpoonup> SchemaConstraint) \<Rightarrow> SchemaConstraint \<Rightarrow> bool" where
  "keepsConstraint desiredCons con =
     (case desiredCons (sk_Name con) of
        None \<Rightarrow> False
      | Some want \<Rightarrow> \<not> (sk_Def want \<noteq> sk_Def con \<and> \<not> validatesInPlace con want))"

definition dropConstraintSteps :: "SchemaConstraint list \<Rightarrow> (string \<rightharpoonup> SchemaConstraint) \<Rightarrow> DiffStep list" where
  "dropConstraintSteps liveConstraints desiredCons =
     map DropConstraint (filter (\<lambda>con. \<not> keepsConstraint desiredCons con) liveConstraints)"

definition dropColumnSteps :: "SchemaColumn list \<Rightarrow> (string \<rightharpoonup> SchemaColumn) \<Rightarrow> DiffStep list" where
  "dropColumnSteps liveColumns desiredCols =
     map DropColumn (filter (\<lambda>col. desiredCols (sc_Name col) = None) liveColumns)"

fun addColumnSteps :: "SchemaColumn list \<Rightarrow> (string \<rightharpoonup> SchemaColumn) \<Rightarrow> schema_error + DiffStep list" where
  "addColumnSteps [] liveCols = Inr []"
| "addColumnSteps (col # cols) liveCols =
     (if liveCols (sc_Name col) \<noteq> None then addColumnSteps cols liveCols
      else if sc_SequenceDefault col then Inl ErrUnsupportedChange
      else if sc_Collation col \<noteq> '''' then Inl ErrUnsupportedChange
      else if \<not> identityExpressible col then Inl ErrUnsupportedChange
      else case addColumnSteps cols liveCols of Inl e \<Rightarrow> Inl e | Inr steps \<Rightarrow> Inr (AddColumn col # steps))"

fun alterColumnSteps :: "SchemaColumn list \<Rightarrow> (string \<rightharpoonup> SchemaColumn) \<Rightarrow> schema_error + DiffStep list" where
  "alterColumnSteps [] liveCols = Inr []"
| "alterColumnSteps (col # cols) liveCols =
     (case liveCols (sc_Name col) of
        None \<Rightarrow> alterColumnSteps cols liveCols
      | Some liveCol \<Rightarrow>
          (case alterColumnChanges liveCol col of
             Inl e \<Rightarrow> Inl e
           | Inr alter \<Rightarrow> (case alterColumnSteps cols liveCols of Inl e \<Rightarrow> Inl e | Inr steps \<Rightarrow> Inr (alter @ steps))))"

definition constraintSteps :: "string set \<Rightarrow> (string \<rightharpoonup> SchemaConstraint) \<Rightarrow> SchemaConstraint \<Rightarrow> DiffStep list" where
  "constraintSteps adopted liveCons con =
     (if sk_Name con \<in> adopted then [AdoptIndex con]
      else case liveCons (sk_Name con) of
        None \<Rightarrow> [AddConstraint con]
      | Some had \<Rightarrow>
          if validatesInPlace had con then [ValidateConstraint had con]
          else if sk_Def had \<noteq> sk_Def con then [AddConstraint con] else [])"

definition createIndexSteps :: "bool \<Rightarrow> SchemaIndex list \<Rightarrow> (string \<rightharpoonup> SchemaIndex) \<Rightarrow> DiffStep list" where
  "createIndexSteps partitioned desiredIndexes liveIdx =
     map CreateIndex (filter (indexNeedsCreate partitioned liveIdx) desiredIndexes)"

definition refusesTable :: "SchemaModel \<Rightarrow> SchemaModel \<Rightarrow> schema_error option" where
  "refusesTable live desired =
     (if sm_Table live \<noteq> sm_Table desired then Some ErrDifferentTables
      else if present (sm_RowSecurity desired) then Some ErrUnsupportedChange
      else if sm_PartitionKey live \<noteq> sm_PartitionKey desired then Some ErrUnsupportedChange
      else if sm_IsPartition live \<noteq> sm_IsPartition desired then Some ErrUnsupportedChange
      else if sm_Unlogged live \<noteq> sm_Unlogged desired then Some ErrUnsupportedChange
      else if sm_Options live \<noteq> sm_Options desired then Some ErrUnsupportedChange
      else None)"

definition diffSteps :: "SchemaModel \<Rightarrow> SchemaModel \<Rightarrow> schema_error + DiffStep list" where
  "diffSteps live desired =
     (case refusesTable live desired of
        Some e \<Rightarrow> Inl e
      | None \<Rightarrow>
          let liveCols = columnsByName (sm_Columns live); desiredCols = columnsByName (sm_Columns desired);
              liveCons = constraintsByName (sm_Constraints live); desiredCons = constraintsByName (sm_Constraints desired);
              liveIdx = indexesByName (sm_Indexes live); desiredIdx = indexesByName (sm_Indexes desired);
              partitioned = (sm_PartitionKey live \<noteq> '''');
              adopted = adoptableIndexes partitioned liveCons liveIdx (sm_Constraints desired)
          in case addColumnSteps (sm_Columns desired) liveCols of
               Inl e \<Rightarrow> Inl e
             | Inr adds \<Rightarrow>
                 (case alterColumnSteps (sm_Columns desired) liveCols of
                    Inl e \<Rightarrow> Inl e
                  | Inr alters \<Rightarrow>
                      Inr (dropIndexSteps partitioned adopted (sm_Indexes live) desiredIdx
                           @ dropConstraintSteps (sm_Constraints live) desiredCons
                           @ dropColumnSteps (sm_Columns live) desiredCols
                           @ adds @ alters
                           @ concat (map (constraintSteps adopted liveCons) (sm_Constraints desired))
                           @ createIndexSteps partitioned (sm_Indexes desired) liveIdx)))"

fun renderSteps :: "pgquery \<Rightarrow> (string list \<Rightarrow> string) \<Rightarrow> string \<Rightarrow> string \<Rightarrow> DiffStep list \<Rightarrow> schema_error + Change list" where
  "renderSteps Q san schema table [] = Inr []"
| "renderSteps Q san schema table (step # steps) =
     (case changeOf Q san schema table step of
        Inl e \<Rightarrow> Inl e
      | Inr ch \<Rightarrow> (case renderSteps Q san schema table steps of Inl e \<Rightarrow> Inl e | Inr chs \<Rightarrow> Inr (ch # chs)))"

definition Diff :: "pgquery \<Rightarrow> (string list \<Rightarrow> string) \<Rightarrow> string \<Rightarrow> SchemaModel \<Rightarrow> SchemaModel \<Rightarrow> schema_error + Change list" where
  "Diff Q san schema live desired =
     (case diffSteps live desired of
        Inl e \<Rightarrow> Inl e
      | Inr steps \<Rightarrow> renderSteps Q san schema (san [schema, sm_Table live]) steps)"

section \<open>Advisories\<close>

datatype AdvisoryKind = AdvisoryInvalidIndexRebuild | AdvisoryInvalidIndexUndeclared

record Advisory =
  ad_Kind :: AdvisoryKind
  ad_Index :: string

definition Advisories :: "SchemaModel \<Rightarrow> SchemaModel \<Rightarrow> Advisory list" where
  "Advisories live desired =
     map (\<lambda>ix. \<lparr>ad_Kind = (case indexesByName (sm_Indexes desired) (sx_Name ix) of
            Some _ \<Rightarrow> AdvisoryInvalidIndexRebuild | None \<Rightarrow> AdvisoryInvalidIndexUndeclared), ad_Index = sx_Name ix\<rparr>)
       (filter (isUnfinishedBuild (sm_PartitionKey live \<noteq> '''')) (sm_Indexes live))"

section \<open>What the server makes of a step\<close>

text \<open>
  The catalog as the diff reads it: by name, each column's compared attributes,
  each constraint's definition, and each index's definition and validity.
  A definition \<open>reads\<close> columns, \<open>keys\<close> are the columns a primary key makes NOT
  NULL, and a constraint with \<open>owns\<close> has an index of its own name. A step is
  \<open>None\<close> where the server would refuse it: an object that is missing or already
  there, or a definition over a column the table does not have. Dropping a
  column drops what reads it. An unfinished build under the name of a new index or
  key is replaced, as the concurrent build path does once it has shown it abandoned.
\<close>

record server_defs =
  sd_reads :: "string \<Rightarrow> string set"
  sd_keys :: "string \<Rightarrow> string set"
  sd_owns :: "string \<Rightarrow> bool"

record catalog =
  cg_columns :: "string \<rightharpoonup> SchemaColumn"
  cg_constraints :: "string \<rightharpoonup> string"
  cg_indexes :: "string \<rightharpoonup> string \<times> bool"

definition validatedDef :: "string \<Rightarrow> string" where
  "validatedDef def = fst (cutSuffix def notValidSuffix)"

definition occupied :: "bool \<Rightarrow> (string \<times> bool) option \<Rightarrow> bool" where
  "occupied partitioned ix = (case ix of None \<Rightarrow> False | Some (_, invalid) \<Rightarrow> partitioned \<or> \<not> invalid)"

definition alterCatalog :: "string \<Rightarrow> (SchemaColumn \<Rightarrow> SchemaColumn) \<Rightarrow> catalog \<Rightarrow> catalog option" where
  "alterCatalog name f cat = map_option (\<lambda>c. cat\<lparr>cg_columns := (cg_columns cat)(name \<mapsto> f c)\<rparr>) (cg_columns cat name)"

definition notNullKeys :: "string set \<Rightarrow> catalog \<Rightarrow> catalog" where
  "notNullKeys names cat =
     cat\<lparr>cg_columns := (\<lambda>n. map_option (\<lambda>c. if n \<in> names then c\<lparr>sc_NotNull := True\<rparr> else c) (cg_columns cat n))\<rparr>"

definition addKey :: "server_defs \<Rightarrow> SchemaConstraint \<Rightarrow> catalog \<Rightarrow> catalog" where
  "addKey D con cat =
     (let cat = cat\<lparr>cg_constraints := (cg_constraints cat)(sk_Name con \<mapsto> sk_Def con)\<rparr>
      in if sk_Primary con then notNullKeys (sd_keys D (sk_Def con)) cat else cat)"

definition runStep :: "server_defs \<Rightarrow> bool \<Rightarrow> DiffStep \<Rightarrow> catalog \<Rightarrow> catalog option" where
  "runStep D partitioned step cat =
     (case step of
        DropIndex ix \<Rightarrow>
          if cg_indexes cat (sx_Name ix) = None then None
          else Some (cat\<lparr>cg_indexes := (cg_indexes cat)(sx_Name ix := None)\<rparr>)
      | DropConstraint con \<Rightarrow>
          if cg_constraints cat (sk_Name con) = None then None
          else Some (cat\<lparr>cg_constraints := (cg_constraints cat)(sk_Name con := None)\<rparr>)
      | DropColumn col \<Rightarrow>
          if cg_columns cat (sc_Name col) = None then None
          else Some \<lparr>cg_columns = (cg_columns cat)(sc_Name col := None),
                 cg_constraints = (\<lambda>n. case cg_constraints cat n of
                     Some d \<Rightarrow> if sc_Name col \<in> sd_reads D (validatedDef d) then None else Some d | None \<Rightarrow> None),
                 cg_indexes = (\<lambda>n. case cg_indexes cat n of
                     Some (d, i) \<Rightarrow> if sc_Name col \<in> sd_reads D d then None else Some (d, i) | None \<Rightarrow> None)\<rparr>
      | AddColumn col \<Rightarrow>
          if cg_columns cat (sc_Name col) \<noteq> None then None
          else Some (cat\<lparr>cg_columns := (cg_columns cat)(sc_Name col \<mapsto> col)\<rparr>)
      | SetExpression name expr \<Rightarrow> alterCatalog name (\<lambda>c. c\<lparr>sc_Default := expr\<rparr>) cat
      | AlterType name typ \<Rightarrow>
          alterCatalog name (\<lambda>c. c\<lparr>sc_Type := typ, sc_Sequence :=
            (if sc_Identity c = IdentityNone then sc_Sequence c else identitySequenceAfterRetype c typ)\<rparr>) cat
      | DropDefault name \<Rightarrow> alterCatalog name (\<lambda>c. c\<lparr>sc_Default := ''''\<rparr>) cat
      | SetDefault name expr \<Rightarrow> alterCatalog name (\<lambda>c. c\<lparr>sc_Default := expr\<rparr>) cat
      | SetNotNull name \<Rightarrow> alterCatalog name (\<lambda>c. c\<lparr>sc_NotNull := True\<rparr>) cat
      | DropNotNull name \<Rightarrow> alterCatalog name (\<lambda>c. c\<lparr>sc_NotNull := False\<rparr>) cat
      | AdoptIndex con \<Rightarrow>
          if cg_constraints cat (sk_Name con) \<noteq> None \<or> cg_indexes cat (sk_Name con) \<noteq> Some (sk_IndexDef con, False)
             \<or> partitioned then None
          else Some (addKey D con (cat\<lparr>cg_indexes := (cg_indexes cat)(sk_Name con := None)\<rparr>))
      | ValidateConstraint had con \<Rightarrow>
          map_option (\<lambda>d. cat\<lparr>cg_constraints := (cg_constraints cat)(sk_Name con \<mapsto> validatedDef d)\<rparr>)
            (cg_constraints cat (sk_Name con))
      | AddConstraint con \<Rightarrow>
          if cg_constraints cat (sk_Name con) \<noteq> None \<or> \<not> sd_reads D (sk_Def con) \<subseteq> dom (cg_columns cat)
             \<or> (sd_owns D (sk_Def con) \<and> occupied partitioned (cg_indexes cat (sk_Name con))) then None
          else Some (addKey D con (if sd_owns D (sk_Def con)
                 then cat\<lparr>cg_indexes := (cg_indexes cat)(sk_Name con := None)\<rparr> else cat))
      | CreateIndex ix \<Rightarrow>
          if occupied partitioned (cg_indexes cat (sx_Name ix)) \<or> \<not> sd_reads D (sx_Def ix) \<subseteq> dom (cg_columns cat)
             \<or> (case cg_constraints cat (sx_Name ix) of Some d \<Rightarrow> sd_owns D d | None \<Rightarrow> False) then None
          else Some (cat\<lparr>cg_indexes := (cg_indexes cat)(sx_Name ix \<mapsto> (sx_Def ix, False))\<rparr>))"

fun runSteps :: "server_defs \<Rightarrow> bool \<Rightarrow> DiffStep list \<Rightarrow> catalog \<Rightarrow> catalog option" where
  "runSteps D partitioned [] cat = Some cat"
| "runSteps D partitioned (step # steps) cat =
     (case runStep D partitioned step cat of None \<Rightarrow> None | Some cat' \<Rightarrow> runSteps D partitioned steps cat')"

definition catalogOf :: "SchemaModel \<Rightarrow> catalog" where
  "catalogOf m =
     \<lparr>cg_columns = columnsByName (sm_Columns m),
      cg_constraints = (\<lambda>n. map_option sk_Def (constraintsByName (sm_Constraints m) n)),
      cg_indexes = (\<lambda>n. map_option (\<lambda>ix. (sx_Def ix, sx_Invalid ix)) (indexesByName (sm_Indexes m) n))\<rparr>"

section \<open>Lookup by name\<close>

lemma fold_byName:
  assumes "distinct (map f xs)"
  shows "fold (\<lambda>c m. m(f c \<mapsto> c)) xs m n = Some c \<longleftrightarrow> (c \<in> set xs \<and> f c = n) \<or> (n \<notin> f ` set xs \<and> m n = Some c)"
  using assms by (induction xs arbitrary: m) (auto simp: image_iff)

lemma fold_byName_None: "fold (\<lambda>c m. m(f c \<mapsto> c)) xs m n = None \<longleftrightarrow> n \<notin> f ` set xs \<and> m n = None"
  by (induction xs arbitrary: m) auto

lemma fold_byName_over:
  "fold (\<lambda>c m. m(f c \<mapsto> c)) xs m n = (case fold (\<lambda>c m. m(f c \<mapsto> c)) xs Map.empty n of None \<Rightarrow> m n | Some c \<Rightarrow> Some c)"
proof (induction xs arbitrary: m)
  case (Cons x xs)
  show ?case
    using Cons.IH [of "m(f x \<mapsto> x)"] Cons.IH [of "[f x \<mapsto> x]"] by (auto split: option.splits)
qed simp

lemma name_inj: "distinct (map f xs) \<Longrightarrow> x \<in> set xs \<Longrightarrow> y \<in> set xs \<Longrightarrow> f x = f y \<Longrightarrow> x = y"
  by (simp add: distinct_map inj_on_def)

lemma columnsByName_Some: "distinct (map sc_Name cs) \<Longrightarrow> columnsByName cs n = Some c \<longleftrightarrow> c \<in> set cs \<and> sc_Name c = n"
  by (simp add: columnsByName_def fold_byName)

lemma columnsByName_None: "columnsByName cs n = None \<longleftrightarrow> n \<notin> sc_Name ` set cs"
  by (simp add: columnsByName_def fold_byName_None)

lemma constraintsByName_Some: "distinct (map sk_Name cs) \<Longrightarrow> constraintsByName cs n = Some c \<longleftrightarrow> c \<in> set cs \<and> sk_Name c = n"
  by (simp add: constraintsByName_def fold_byName)

lemma constraintsByName_None: "constraintsByName cs n = None \<longleftrightarrow> n \<notin> sk_Name ` set cs"
  by (simp add: constraintsByName_def fold_byName_None)

lemma indexesByName_Some: "distinct (map sx_Name cs) \<Longrightarrow> indexesByName cs n = Some c \<longleftrightarrow> c \<in> set cs \<and> sx_Name c = n"
  by (simp add: indexesByName_def fold_byName)

lemma indexesByName_None: "indexesByName cs n = None \<longleftrightarrow> n \<notin> sx_Name ` set cs"
  by (simp add: indexesByName_def fold_byName_None)

lemma constraintsByName_Cons:
  "constraintsByName (con # cons) n =
     (case constraintsByName cons n of None \<Rightarrow> if n = sk_Name con then Some con else None | Some c \<Rightarrow> Some c)"
  using fold_byName_over [of sk_Name cons "[sk_Name con \<mapsto> con]" n] by (simp add: constraintsByName_def split: option.splits)

lemma indexesByName_Cons:
  "indexesByName (ix # ixs) n =
     (case indexesByName ixs n of None \<Rightarrow> if n = sx_Name ix then Some ix else None | Some c \<Rightarrow> Some c)"
  using fold_byName_over [of sx_Name ixs "[sx_Name ix \<mapsto> ix]" n] by (simp add: indexesByName_def split: option.splits)

lemmas byName = columnsByName_Some columnsByName_None constraintsByName_Some constraintsByName_None
  indexesByName_Some indexesByName_None

section \<open>Running the drops\<close>

lemma runSteps_append:
  "runSteps D p (xs @ ys) cat = (case runSteps D p xs cat of None \<Rightarrow> None | Some cat' \<Rightarrow> runSteps D p ys cat')"
  by (induction xs arbitrary: cat) (auto split: option.splits)

lemma runSteps_then: "runSteps D p xs cat = Some mid \<Longrightarrow> runSteps D p ys mid = r \<Longrightarrow> runSteps D p (xs @ ys) cat = r"
  by (simp add: runSteps_append)

lemma run_dropIndexes:
  assumes "distinct (map sx_Name ixs)" "\<forall>ix \<in> set ixs. cg_indexes cat (sx_Name ix) \<noteq> None"
  shows "runSteps D p (map DropIndex ixs) cat = Some (cat\<lparr>cg_indexes := cg_indexes cat |` (- (sx_Name ` set ixs))\<rparr>)"
  using assms
proof (induction ixs arbitrary: cat)
  case (Cons ix ixs)
  let ?cat = "cat\<lparr>cg_indexes := (cg_indexes cat)(sx_Name ix := None)\<rparr>"
  have "\<forall>x \<in> set ixs. cg_indexes ?cat (sx_Name x) \<noteq> None" using Cons.prems by (force simp: image_iff)
  then have "runSteps D p (map DropIndex ixs) ?cat = Some (?cat\<lparr>cg_indexes := cg_indexes ?cat |` (- (sx_Name ` set ixs))\<rparr>)"
    using Cons.IH Cons.prems(1) by simp
  moreover have "(cg_indexes cat)(sx_Name ix := None) |` (- (sx_Name ` set ixs)) = cg_indexes cat |` (- (sx_Name ` set (ix # ixs)))"
    by (auto simp: restrict_map_def fun_eq_iff)
  ultimately show ?case using Cons.prems(2) by (simp add: runStep_def)
qed (simp add: restrict_map_def)

lemma run_dropConstraints:
  assumes "distinct (map sk_Name cons)" "\<forall>con \<in> set cons. cg_constraints cat (sk_Name con) \<noteq> None"
  shows "runSteps D p (map DropConstraint cons) cat = Some (cat\<lparr>cg_constraints := cg_constraints cat |` (- (sk_Name ` set cons))\<rparr>)"
  using assms
proof (induction cons arbitrary: cat)
  case (Cons con cons)
  let ?cat = "cat\<lparr>cg_constraints := (cg_constraints cat)(sk_Name con := None)\<rparr>"
  have "\<forall>x \<in> set cons. cg_constraints ?cat (sk_Name x) \<noteq> None" using Cons.prems by (force simp: image_iff)
  then have "runSteps D p (map DropConstraint cons) ?cat = Some (?cat\<lparr>cg_constraints := cg_constraints ?cat |` (- (sk_Name ` set cons))\<rparr>)"
    using Cons.IH Cons.prems(1) by simp
  moreover have "(cg_constraints cat)(sk_Name con := None) |` (- (sk_Name ` set cons)) = cg_constraints cat |` (- (sk_Name ` set (con # cons)))"
    by (auto simp: restrict_map_def fun_eq_iff)
  ultimately show ?case using Cons.prems(2) by (simp add: runStep_def)
qed (simp add: restrict_map_def)

definition unread :: "server_defs \<Rightarrow> string set \<Rightarrow> catalog \<Rightarrow> catalog" where
  "unread D N cat =
     \<lparr>cg_columns = cg_columns cat |` (- N),
      cg_constraints = (\<lambda>n. case cg_constraints cat n of
          Some d \<Rightarrow> if sd_reads D (validatedDef d) \<inter> N \<noteq> {} then None else Some d | None \<Rightarrow> None),
      cg_indexes = (\<lambda>n. case cg_indexes cat n of Some (d, i) \<Rightarrow> if sd_reads D d \<inter> N \<noteq> {} then None else Some (d, i) | None \<Rightarrow> None)\<rparr>"

lemma unread_unread: "unread D N (unread D {m} cat) = unread D (insert m N) cat"
  by (auto simp: unread_def restrict_map_def fun_eq_iff split: option.splits if_splits)

lemma unread_none [simp]: "unread D {} cat = cat"
  by (cases cat) (auto simp: unread_def fun_eq_iff split: option.splits)

lemma run_dropColumns:
  assumes "distinct (map sc_Name cols)" "\<forall>col \<in> set cols. cg_columns cat (sc_Name col) \<noteq> None"
  shows "runSteps D p (map DropColumn cols) cat = Some (unread D (sc_Name ` set cols) cat)"
  using assms
proof (induction cols arbitrary: cat)
  case (Cons col cols)
  let ?cat = "unread D {sc_Name col} cat"
  have "runStep D p (DropColumn col) cat = Some ?cat"
    using Cons.prems(2) by (auto simp: runStep_def unread_def restrict_map_def fun_eq_iff split: option.splits)
  moreover have "\<forall>x \<in> set cols. cg_columns ?cat (sc_Name x) \<noteq> None"
    using Cons.prems by (force simp: unread_def restrict_map_def image_iff)
  ultimately show ?case using Cons.IH [of ?cat] Cons.prems(1) by (simp add: unread_unread)
qed simp

section \<open>Running the column changes\<close>

definition columnsOver :: "SchemaColumn list \<Rightarrow> (string \<rightharpoonup> SchemaColumn) \<Rightarrow> string \<rightharpoonup> SchemaColumn" where
  "columnsOver cols m = fold (\<lambda>c m. m(sc_Name c \<mapsto> c)) cols m"

lemma addColumnSteps_adds:
  "addColumnSteps cols liveCols = Inr adds \<Longrightarrow> adds = map AddColumn (filter (\<lambda>c. liveCols (sc_Name c) = None) cols)"
  by (induction cols arbitrary: adds) (auto split: if_splits sum.splits)

lemma run_adds:
  assumes "distinct (map sc_Name cols)" "\<forall>col \<in> set cols. cg_columns cat (sc_Name col) = None"
  shows "runSteps D p (map AddColumn cols) cat = Some (cat\<lparr>cg_columns := columnsOver cols (cg_columns cat)\<rparr>)"
  using assms
proof (induction cols arbitrary: cat)
  case (Cons col cols)
  let ?cat = "cat\<lparr>cg_columns := (cg_columns cat)(sc_Name col \<mapsto> col)\<rparr>"
  have "\<forall>x \<in> set cols. cg_columns ?cat (sc_Name x) = None" using Cons.prems by (force simp: image_iff)
  then show ?case using Cons.IH [of ?cat] Cons.prems by (simp add: runStep_def columnsOver_def fun_upd_def)
qed (simp add: columnsOver_def)

definition altered :: "SchemaColumn \<Rightarrow> SchemaColumn \<Rightarrow> SchemaColumn" where
  "altered live want = live\<lparr>sc_Type := sc_Type want,
     sc_Default := (if IsGenerated want \<or> sc_Identity want = IdentityNone then sc_Default want else sc_Default live),
     sc_Sequence := (if sc_Identity want = IdentityNone then sc_Sequence live else sc_Sequence want),
     sc_NotNull := sc_NotNull want\<rparr>"

lemma keep_column: "cg_columns cat n = Some v \<Longrightarrow> cat\<lparr>cg_columns := (cg_columns cat)(n \<mapsto> v)\<rparr> = cat"
  by (cases cat) (simp add: map_upd_triv)

lemma run_null:
  assumes "cg_columns cat (sc_Name live) = Some c" "sc_NotNull c = sc_NotNull live"
  shows "runSteps D p (nullSteps live want) cat
    = Some (cat\<lparr>cg_columns := (cg_columns cat)(sc_Name live \<mapsto> c\<lparr>sc_NotNull := sc_NotNull want\<rparr>)\<rparr>)"
  using assms by (cases c) (simp add: nullSteps_def runStep_def alterCatalog_def keep_column)

lemma run_alter:
  assumes "alterColumnChanges live want = Inr steps" "cg_columns cat (sc_Name live) = Some live"
  shows "runSteps D p steps cat = Some (cat\<lparr>cg_columns := (cg_columns cat)(sc_Name live \<mapsto> altered live want)\<rparr>)"
proof -
  let ?exp = "if IsGenerated want \<and> sc_Default live \<noteq> sc_Default want then [SetExpression (sc_Name live) (sc_Default want)] else []"
  let ?retype = "if sc_Type live \<noteq> sc_Type want then [AlterType (sc_Name live) (sc_Type want)] else []"
  obtain defaults where defaults: "defaultSteps live want = Inr defaults"
      and steps: "steps = (?exp @ ?retype @ defaults) @ nullSteps live want"
      and same: "sc_Identity live = sc_Identity want"
        "sc_Identity want \<noteq> IdentityNone \<longrightarrow> identitySequenceAfterRetype live (sc_Type want) = sc_Sequence want"
        "IsGenerated want \<longrightarrow> sc_Type live = sc_Type want"
    using assms(1) by (auto simp: alterColumnChanges_def sameSequence_def split: if_splits sum.splits option.splits)
  let ?d = "if IsGenerated want \<or> sc_Identity want = IdentityNone then sc_Default want else sc_Default live"
  let ?s = "if sc_Identity want = IdentityNone then sc_Sequence live else sc_Sequence want"
  have "runSteps D p (?exp @ ?retype @ defaults) cat
      = Some (cat\<lparr>cg_columns := (cg_columns cat)(sc_Name live \<mapsto> live\<lparr>sc_Type := sc_Type want, sc_Default := ?d, sc_Sequence := ?s\<rparr>)\<rparr>)"
    using defaults same assms(2)
    by (cases live) (auto simp: runStep_def alterCatalog_def defaultSteps_def identitySequenceAfterRetype_def keep_column
        split: if_splits)
  then show ?thesis
    unfolding steps by (subst runSteps_append) (simp add: run_null altered_def)
qed

lemma alter_name: "sc_Name (altered live want) = sc_Name live"
  by (simp add: altered_def)

lemma run_alters:
  assumes "alterColumnSteps cols liveCols = Inr steps" "distinct (map sc_Name cols)"
    and "\<forall>col \<in> set cols. \<forall>l. liveCols (sc_Name col) = Some l \<longrightarrow> cg_columns cat (sc_Name col) = Some l \<and> sc_Name l = sc_Name col"
  shows "\<exists>cat'. runSteps D p steps cat = Some cat' \<and> cg_constraints cat' = cg_constraints cat \<and> cg_indexes cat' = cg_indexes cat
    \<and> (\<forall>n. n \<notin> sc_Name ` set cols \<longrightarrow> cg_columns cat' n = cg_columns cat n)
    \<and> (\<forall>col \<in> set cols. cg_columns cat' (sc_Name col) =
         (case liveCols (sc_Name col) of None \<Rightarrow> cg_columns cat (sc_Name col) | Some l \<Rightarrow> Some (altered l col)))"
  using assms
proof (induction cols arbitrary: steps cat)
  case (Cons col cols)
  have fresh: "sc_Name col \<notin> sc_Name ` set cols" and dist: "distinct (map sc_Name cols)" using Cons.prems(2) by auto
  show ?case
  proof (cases "liveCols (sc_Name col)")
    case None
    then have rest: "alterColumnSteps cols liveCols = Inr steps" using Cons.prems(1) by simp
    have "\<forall>x \<in> set cols. \<forall>l. liveCols (sc_Name x) = Some l \<longrightarrow> cg_columns cat (sc_Name x) = Some l \<and> sc_Name l = sc_Name x"
      using Cons.prems(3) by (meson list.set_intros(2))
    from Cons.IH [OF rest dist this] obtain cat' where cat': "runSteps D p steps cat = Some cat'"
        "cg_constraints cat' = cg_constraints cat" "cg_indexes cat' = cg_indexes cat"
        "\<forall>n. n \<notin> sc_Name ` set cols \<longrightarrow> cg_columns cat' n = cg_columns cat n"
        "\<forall>x \<in> set cols. cg_columns cat' (sc_Name x) =
           (case liveCols (sc_Name x) of None \<Rightarrow> cg_columns cat (sc_Name x) | Some l \<Rightarrow> Some (altered l x))"
      by auto
    then show ?thesis using None fresh by (intro exI [of _ cat']) simp
  next
    case (Some l)
    then obtain alter rest where steps: "alterColumnChanges l col = Inr alter" "alterColumnSteps cols liveCols = Inr rest"
        "steps = alter @ rest"
      using Cons.prems(1) by (auto split: sum.splits)
    have l: "cg_columns cat (sc_Name l) = Some l" "sc_Name l = sc_Name col" using Cons.prems(3) Some by auto
    let ?cat = "cat\<lparr>cg_columns := (cg_columns cat)(sc_Name col \<mapsto> altered l col)\<rparr>"
    have run: "runSteps D p alter cat = Some ?cat" using run_alter [OF steps(1) l(1)] l(2) by simp
    have other: "cg_columns ?cat (sc_Name x) = cg_columns cat (sc_Name x)" if "x \<in> set cols" for x
      using that fresh by (auto simp: image_iff)
    have "\<forall>x \<in> set cols. \<forall>l. liveCols (sc_Name x) = Some l \<longrightarrow> cg_columns ?cat (sc_Name x) = Some l \<and> sc_Name l = sc_Name x"
      using Cons.prems(3) by (metis list.set_intros(2) other)
    from Cons.IH [OF steps(2) dist this] obtain cat' where cat': "runSteps D p rest ?cat = Some cat'"
        "cg_constraints cat' = cg_constraints cat" "cg_indexes cat' = cg_indexes cat"
        "\<forall>n. n \<notin> sc_Name ` set cols \<longrightarrow> cg_columns cat' n = cg_columns ?cat n"
        "\<forall>x \<in> set cols. cg_columns cat' (sc_Name x) =
           (case liveCols (sc_Name x) of None \<Rightarrow> cg_columns ?cat (sc_Name x) | Some l \<Rightarrow> Some (altered l x))"
      by auto
    then show ?thesis using run fresh Some other
      by (intro exI [of _ cat']) (auto simp: steps(3) runSteps_append split: option.splits)
  qed
qed simp

section \<open>Running the constraints and index builds\<close>

lemma notNullKeys_idle:
  assumes "\<forall>n \<in> names. \<forall>c. cg_columns cat n = Some c \<longrightarrow> sc_NotNull c"
  shows "notNullKeys names cat = cat"
proof -
  have "map_option (\<lambda>c. if n \<in> names then c\<lparr>sc_NotNull := True\<rparr> else c) (cg_columns cat n) = cg_columns cat n" for n
    using assms by (cases "cg_columns cat n") (auto intro!: SchemaColumn.equality)
  then show ?thesis by (cases cat) (simp add: notNullKeys_def)
qed

definition nameReady :: "server_defs \<Rightarrow> bool \<Rightarrow> string set \<Rightarrow> (string \<rightharpoonup> SchemaConstraint) \<Rightarrow> catalog \<Rightarrow> SchemaConstraint \<Rightarrow> bool" where
  "nameReady D p adopted liveCons cat con \<longleftrightarrow>
     (if sk_Name con \<in> adopted
      then \<not> p \<and> sd_owns D (sk_Def con) \<and> cg_constraints cat (sk_Name con) = None \<and> cg_indexes cat (sk_Name con) = Some (sk_IndexDef con, False)
      else if \<exists>had. liveCons (sk_Name con) = Some had \<and> validatesInPlace had con
      then validatedDef (sk_Def con) = sk_Def con \<and> cg_constraints cat (sk_Name con) = Some (sk_Def con @ notValidSuffix)
        \<and> (sd_owns D (sk_Def con) \<longrightarrow> cg_indexes cat (sk_Name con) = None)
      else if \<exists>had. liveCons (sk_Name con) = Some had \<and> sk_Def had = sk_Def con
      then cg_constraints cat (sk_Name con) = Some (sk_Def con) \<and> (sd_owns D (sk_Def con) \<longrightarrow> cg_indexes cat (sk_Name con) = None)
      else cg_constraints cat (sk_Name con) = None
        \<and> (sd_owns D (sk_Def con) \<longrightarrow> \<not> occupied p (cg_indexes cat (sk_Name con))))"

definition constraintReady :: "server_defs \<Rightarrow> bool \<Rightarrow> string set \<Rightarrow> (string \<rightharpoonup> SchemaConstraint) \<Rightarrow> catalog \<Rightarrow> SchemaConstraint \<Rightarrow> bool" where
  "constraintReady D p adopted liveCons cat con \<longleftrightarrow>
     sd_reads D (sk_Def con) \<subseteq> dom (cg_columns cat)
     \<and> (sk_Primary con \<longrightarrow> (\<forall>n \<in> sd_keys D (sk_Def con). \<forall>c. cg_columns cat n = Some c \<longrightarrow> sc_NotNull c))
     \<and> nameReady D p adopted liveCons cat con"

definition withConstraint :: "server_defs \<Rightarrow> SchemaConstraint \<Rightarrow> catalog \<Rightarrow> catalog" where
  "withConstraint D con cat = cat\<lparr>cg_constraints := (cg_constraints cat)(sk_Name con \<mapsto> sk_Def con),
     cg_indexes := (if sd_owns D (sk_Def con) then (cg_indexes cat)(sk_Name con := None) else cg_indexes cat)\<rparr>"

lemma addKey_idle:
  assumes "sk_Primary con \<longrightarrow> (\<forall>n \<in> sd_keys D (sk_Def con). \<forall>c. cg_columns cat n = Some c \<longrightarrow> sc_NotNull c)"
  shows "addKey D con cat = cat\<lparr>cg_constraints := (cg_constraints cat)(sk_Name con \<mapsto> sk_Def con)\<rparr>"
  using assms by (simp add: addKey_def Let_def notNullKeys_idle)

lemma validatedDef_suffix: "validatedDef (def @ notValidSuffix) = def"
  by (simp add: validatedDef_def cutSuffix_def)

lemma run_constraint:
  assumes "constraintReady D p adopted liveCons cat con"
  shows "runSteps D p (constraintSteps adopted liveCons con) cat = Some (withConstraint D con cat)"
proof -
  let ?keys = "sk_Primary con \<longrightarrow> (\<forall>n \<in> sd_keys D (sk_Def con). \<forall>c. cg_columns cat n = Some c \<longrightarrow> sc_NotNull c)"
  have keys: ?keys using assms by (simp add: constraintReady_def nameReady_def)
  consider (adopts) "sk_Name con \<in> adopted"
    | (validates) had where "sk_Name con \<notin> adopted" "liveCons (sk_Name con) = Some had" "validatesInPlace had con"
    | (holds) had where "sk_Name con \<notin> adopted" "liveCons (sk_Name con) = Some had" "\<not> validatesInPlace had con" "sk_Def had = sk_Def con"
    | (adds) "sk_Name con \<notin> adopted" "constraintSteps adopted liveCons con = [AddConstraint con]"
        "\<not> (\<exists>had. liveCons (sk_Name con) = Some had \<and> (validatesInPlace had con \<or> sk_Def had = sk_Def con))"
    by (cases "liveCons (sk_Name con)") (auto simp: constraintSteps_def)
  then show ?thesis
  proof cases
    case adopts
    then show ?thesis using assms keys
      by (simp add: constraintReady_def nameReady_def constraintSteps_def runStep_def addKey_idle withConstraint_def)
  next
    case validates
    then show ?thesis using assms
      by (cases cat) (auto simp: constraintReady_def nameReady_def constraintSteps_def runStep_def withConstraint_def validatedDef_suffix fun_upd_idem)
  next
    case holds
    then show ?thesis using assms
      by (cases cat) (auto simp: constraintReady_def nameReady_def constraintSteps_def withConstraint_def fun_upd_idem)
  next
    case adds
    then show ?thesis using assms keys
      by (auto simp: constraintReady_def nameReady_def runStep_def addKey_idle withConstraint_def)
  qed
qed


lemma ready_after:
  assumes "constraintReady D p adopted liveCons cat con" "sk_Name con \<noteq> sk_Name other"
  shows "constraintReady D p adopted liveCons (withConstraint D other cat) con"
  using assms by (simp add: constraintReady_def nameReady_def withConstraint_def)

definition ownedNames :: "server_defs \<Rightarrow> SchemaConstraint list \<Rightarrow> string set" where
  "ownedNames D cons = sk_Name ` {con \<in> set cons. sd_owns D (sk_Def con)}"

lemma run_constraints:
  assumes "\<forall>con \<in> set cons. constraintReady D p adopted liveCons cat con" "distinct (map sk_Name cons)"
  shows "\<exists>cat'. runSteps D p (concat (map (constraintSteps adopted liveCons) cons)) cat = Some cat'
    \<and> cg_columns cat' = cg_columns cat
    \<and> (\<forall>n. cg_constraints cat' n = (case constraintsByName cons n of Some con \<Rightarrow> Some (sk_Def con) | None \<Rightarrow> cg_constraints cat n))
    \<and> cg_indexes cat' = cg_indexes cat |` (- ownedNames D cons)"
  using assms
proof (induction cons arbitrary: cat)
  case Nil
  then show ?case by (simp add: constraintsByName_def ownedNames_def restrict_map_def)
next
  case (Cons con cons)
  let ?cat = "withConstraint D con cat"
  have run: "runSteps D p (constraintSteps adopted liveCons con) cat = Some ?cat" using Cons.prems(1) by (simp add: run_constraint)
  have "\<forall>x \<in> set cons. constraintReady D p adopted liveCons ?cat x"
    using Cons.prems by (metis ready_after distinct.simps(2) image_eqI list.set_intros(2) list.set_map list.simps(9))
  from Cons.IH [OF this] Cons.prems(2) obtain cat' where cat': "runSteps D p (concat (map (constraintSteps adopted liveCons) cons)) ?cat = Some cat'"
      "cg_columns cat' = cg_columns cat"
      "\<forall>n. cg_constraints cat' n = (case constraintsByName cons n of Some con \<Rightarrow> Some (sk_Def con) | None \<Rightarrow> cg_constraints ?cat n)"
      "cg_indexes cat' = cg_indexes ?cat |` (- ownedNames D cons)"
    by (auto simp: withConstraint_def)
  have "cg_indexes ?cat |` (- ownedNames D cons) = cg_indexes cat |` (- ownedNames D (con # cons))"
    by (auto simp: withConstraint_def ownedNames_def restrict_map_def fun_eq_iff)
  then show ?case using run cat'
    by (intro exI [of _ cat']) (auto simp: constraintsByName_Cons runSteps_append withConstraint_def split: option.splits)
qed

lemma run_creates:
  assumes "distinct (map sx_Name ixs)"
    and "\<forall>ix \<in> set ixs. \<not> occupied p (cg_indexes cat (sx_Name ix)) \<and> sd_reads D (sx_Def ix) \<subseteq> dom (cg_columns cat)
      \<and> (\<forall>d. cg_constraints cat (sx_Name ix) = Some d \<longrightarrow> \<not> sd_owns D d)"
  shows "\<exists>cat'. runSteps D p (map CreateIndex ixs) cat = Some cat' \<and> cg_columns cat' = cg_columns cat
    \<and> cg_constraints cat' = cg_constraints cat
    \<and> (\<forall>n. cg_indexes cat' n = (case indexesByName ixs n of Some ix \<Rightarrow> Some (sx_Def ix, False) | None \<Rightarrow> cg_indexes cat n))"
  using assms
proof (induction ixs arbitrary: cat)
  case Nil
  then show ?case by (simp add: indexesByName_def)
next
  case (Cons ix ixs)
  let ?cat = "cat\<lparr>cg_indexes := (cg_indexes cat)(sx_Name ix \<mapsto> (sx_Def ix, False))\<rparr>"
  have run: "runStep D p (CreateIndex ix) cat = Some ?cat" using Cons.prems(2) by (auto simp: runStep_def split: option.splits)
  have "cg_indexes ?cat (sx_Name x) = cg_indexes cat (sx_Name x)" if "x \<in> set ixs" for x
    using that Cons.prems(1) by (auto simp: image_iff)
  then have "\<forall>x \<in> set ixs. \<not> occupied p (cg_indexes ?cat (sx_Name x)) \<and> sd_reads D (sx_Def x) \<subseteq> dom (cg_columns ?cat)
      \<and> (\<forall>d. cg_constraints ?cat (sx_Name x) = Some d \<longrightarrow> \<not> sd_owns D d)"
    using Cons.prems(2) by simp
  from Cons.IH [OF _ this] Cons.prems(1) obtain cat' where cat': "runSteps D p (map CreateIndex ixs) ?cat = Some cat'"
      "cg_columns cat' = cg_columns cat" "cg_constraints cat' = cg_constraints cat"
      "\<forall>n. cg_indexes cat' n = (case indexesByName ixs n of Some ix \<Rightarrow> Some (sx_Def ix, False) | None \<Rightarrow> cg_indexes ?cat n)"
    by auto
  then show ?case using run by (intro exI [of _ cat']) (auto simp: indexesByName_Cons split: option.splits)
qed


section \<open>The plan converges\<close>

text \<open>
  What a table read from a server satisfies: its names are distinct, and no index
  has the name of a constraint that owns its index. A desired table was built from the
  file in a scratch schema, so its constraints are validated, its indexes are valid, its
  definitions read its own columns, and the columns of its primary key are NOT NULL.
\<close>

definition tableCoherent :: "server_defs \<Rightarrow> SchemaModel \<Rightarrow> bool" where
  "tableCoherent D m \<longleftrightarrow> distinct (map sc_Name (sm_Columns m)) \<and> distinct (map sk_Name (sm_Constraints m))
     \<and> distinct (map sx_Name (sm_Indexes m))
     \<and> (\<forall>con \<in> set (sm_Constraints m). sd_owns D (validatedDef (sk_Def con)) \<longrightarrow> sk_Name con \<notin> sx_Name ` set (sm_Indexes m))"

definition constraintCoherent :: "server_defs \<Rightarrow> SchemaModel \<Rightarrow> SchemaConstraint \<Rightarrow> bool" where
  "constraintCoherent D m con \<longleftrightarrow> \<not> sk_NotValid con \<and> validatedDef (sk_Def con) = sk_Def con
     \<and> sd_reads D (sk_Def con) \<subseteq> sc_Name ` set (sm_Columns m)
     \<and> (sk_IndexDef con \<noteq> '''' \<longrightarrow> sd_owns D (sk_Def con) \<and> sd_reads D (sk_IndexDef con) \<subseteq> sc_Name ` set (sm_Columns m))
     \<and> (sk_Primary con \<longrightarrow> (\<forall>col \<in> set (sm_Columns m). sc_Name col \<in> sd_keys D (sk_Def con) \<longrightarrow> sc_NotNull col))"

definition desiredCoherent :: "server_defs \<Rightarrow> SchemaModel \<Rightarrow> bool" where
  "desiredCoherent D m \<longleftrightarrow> tableCoherent D m
     \<and> (\<forall>con \<in> set (sm_Constraints m). constraintCoherent D m con)
     \<and> (\<forall>ix \<in> set (sm_Indexes m). \<not> sx_Invalid ix \<and> sd_reads D (sx_Def ix) \<subseteq> sc_Name ` set (sm_Columns m))"

definition columnConverged :: "SchemaColumn \<Rightarrow> SchemaColumn \<Rightarrow> bool" where
  "columnConverged c want \<longleftrightarrow> sc_Name c = sc_Name want \<and> sc_Type c = sc_Type want \<and> sc_NotNull c = sc_NotNull want
     \<and> sc_Collation c = sc_Collation want \<and> sc_Identity c = sc_Identity want
     \<and> sc_Generated c = sc_Generated want \<and> sc_Virtual c = sc_Virtual want
     \<and> (IsGenerated want \<or> sc_Identity want = IdentityNone \<longrightarrow> sc_Default c = sc_Default want)
     \<and> (sc_Identity want \<noteq> IdentityNone \<longrightarrow> sc_Sequence c = sc_Sequence want)"

lemma altered_converged:
  assumes "alterColumnChanges live want = Inr steps" "sc_Name live = sc_Name want"
  shows "columnConverged (altered live want) want"
  using assms by (auto simp: alterColumnChanges_def columnConverged_def altered_def split: if_splits)

lemma alterColumnSteps_each:
  assumes "alterColumnSteps cols liveCols = Inr steps" "col \<in> set cols" "liveCols (sc_Name col) = Some l"
  shows "\<exists>alter. alterColumnChanges l col = Inr alter"
  using assms by (induction cols arbitrary: steps) (auto split: option.splits sum.splits)

definition indexesDropped :: "SchemaModel \<Rightarrow> SchemaModel \<Rightarrow> string set" where
  "indexesDropped live desired =
     (let p = (sm_PartitionKey live \<noteq> ''''); adopted = adoptableIndexes p (constraintsByName (sm_Constraints live))
        (indexesByName (sm_Indexes live)) (sm_Constraints desired)
      in sx_Name ` {ix \<in> set (sm_Indexes live). sx_Name ix \<notin> adopted \<and> indexNeedsDrop p ix (indexesByName (sm_Indexes desired))})"

definition afterDrops :: "server_defs \<Rightarrow> SchemaModel \<Rightarrow> SchemaModel \<Rightarrow> catalog" where
  "afterDrops D live desired =
     unread D (sc_Name ` set (sm_Columns live) - sc_Name ` set (sm_Columns desired))
       \<lparr>cg_columns = columnsByName (sm_Columns live),
        cg_constraints = (\<lambda>n. case constraintsByName (sm_Constraints live) n of
            Some con \<Rightarrow> if keepsConstraint (constraintsByName (sm_Constraints desired)) con then Some (sk_Def con) else None
          | None \<Rightarrow> None),
        cg_indexes = cg_indexes (catalogOf live) |` (- indexesDropped live desired)\<rparr>"

lemma run_drops:
  assumes "tableCoherent D live" "p = (sm_PartitionKey live \<noteq> '''')"
    "adopted = adoptableIndexes p (constraintsByName (sm_Constraints live)) (indexesByName (sm_Indexes live)) (sm_Constraints desired)"
  shows "runSteps D p (dropIndexSteps p adopted (sm_Indexes live) (indexesByName (sm_Indexes desired))
      @ dropConstraintSteps (sm_Constraints live) (constraintsByName (sm_Constraints desired))
      @ dropColumnSteps (sm_Columns live) (columnsByName (sm_Columns desired))) (catalogOf live)
    = Some (afterDrops D live desired)"
proof -
  let ?ixs = "filter (\<lambda>ix. sx_Name ix \<notin> adopted \<and> indexNeedsDrop p ix (indexesByName (sm_Indexes desired))) (sm_Indexes live)"
  let ?cons = "filter (\<lambda>con. \<not> keepsConstraint (constraintsByName (sm_Constraints desired)) con) (sm_Constraints live)"
  let ?cols = "filter (\<lambda>col. columnsByName (sm_Columns desired) (sc_Name col) = None) (sm_Columns live)"
  have dist: "distinct (map sc_Name (sm_Columns live))" "distinct (map sk_Name (sm_Constraints live))" "distinct (map sx_Name (sm_Indexes live))"
    using assms(1) by (auto simp: tableCoherent_def)
  have inj: "x = y" if "x \<in> set (sm_Constraints live)" "y \<in> set (sm_Constraints live)" "sk_Name x = sk_Name y" for x y
    using name_inj [OF dist(2)] that by blast
  have "\<forall>ix \<in> set ?ixs. cg_indexes (catalogOf live) (sx_Name ix) \<noteq> None"
    by (simp add: catalogOf_def indexesByName_None)
  then have ixs: "runSteps D p (map DropIndex ?ixs) (catalogOf live)
      = Some ((catalogOf live)\<lparr>cg_indexes := cg_indexes (catalogOf live) |` (- (sx_Name ` set ?ixs))\<rparr>)" (is "_ = Some ?one")
    by (intro run_dropIndexes) (use dist in \<open>simp_all add: distinct_map_filter\<close>)
  have "\<forall>con \<in> set ?cons. cg_constraints ?one (sk_Name con) \<noteq> None" by (simp add: catalogOf_def constraintsByName_None)
  then have cons: "runSteps D p (map DropConstraint ?cons) ?one
      = Some (?one\<lparr>cg_constraints := cg_constraints ?one |` (- (sk_Name ` set ?cons))\<rparr>)" (is "_ = Some ?two")
    by (intro run_dropConstraints) (use dist in \<open>simp_all add: distinct_map_filter\<close>)
  have "\<forall>col \<in> set ?cols. cg_columns ?two (sc_Name col) \<noteq> None" by (simp add: catalogOf_def columnsByName_None)
  then have cols: "runSteps D p (map DropColumn ?cols) ?two = Some (unread D (sc_Name ` set ?cols) ?two)"
    by (intro run_dropColumns) (use dist in \<open>simp_all add: distinct_map_filter\<close>)
  have "cg_constraints ?two = (\<lambda>n. case constraintsByName (sm_Constraints live) n of
      Some con \<Rightarrow> if keepsConstraint (constraintsByName (sm_Constraints desired)) con then Some (sk_Def con) else None | None \<Rightarrow> None)"
    using dist inj by (auto simp: catalogOf_def restrict_map_def fun_eq_iff byName split: option.splits)
  moreover have "sc_Name ` set ?cols = sc_Name ` set (sm_Columns live) - sc_Name ` set (sm_Columns desired)"
    by (auto simp: columnsByName_None)
  moreover have "sx_Name ` set ?ixs = indexesDropped live desired" using assms(2,3) by (auto simp: indexesDropped_def Let_def)
  ultimately have "unread D (sc_Name ` set ?cols) ?two = afterDrops D live desired"
    by (simp add: afterDrops_def catalogOf_def)
  then show ?thesis using ixs cons cols
    by (simp add: dropIndexSteps_def dropConstraintSteps_def dropColumnSteps_def runSteps_append)
qed


abbreviation adoptedBy :: "SchemaModel \<Rightarrow> SchemaModel \<Rightarrow> string set" where
  "adoptedBy live desired \<equiv> adoptableIndexes (sm_PartitionKey live \<noteq> '''') (constraintsByName (sm_Constraints live))
     (indexesByName (sm_Indexes live)) (sm_Constraints desired)"

lemma drops_columns:
  "cg_columns (afterDrops D live desired) n = (if n \<in> sc_Name ` set (sm_Columns desired) then columnsByName (sm_Columns live) n else None)"
  using columnsByName_None [of "sm_Columns live" n] by (auto simp: afterDrops_def unread_def restrict_map_def)

lemma kept_def:
  assumes "keepsConstraint (constraintsByName cons) had" "distinct (map sk_Name cons)" "\<forall>con \<in> set cons. validatedDef (sk_Def con) = sk_Def con"
  shows "\<exists>con \<in> set cons. sk_Name con = sk_Name had \<and> validatedDef (sk_Def had) = sk_Def con"
proof -
  obtain con where con: "con \<in> set cons" "sk_Name con = sk_Name had" "sk_Def con = sk_Def had \<or> validatesInPlace had con"
    using assms(1,2) by (auto simp: keepsConstraint_def byName split: option.splits)
  moreover from this have "validatedDef (sk_Def had) = sk_Def con"
    using assms(3) by (auto simp: validatesInPlace_def validatedDef_suffix)
  ultimately show ?thesis by blast
qed

lemma drops_constraints:
  assumes "desiredCoherent D desired" "tableCoherent D live"
  shows "cg_constraints (afterDrops D live desired) n = (case constraintsByName (sm_Constraints live) n of
      Some had \<Rightarrow> if keepsConstraint (constraintsByName (sm_Constraints desired)) had then Some (sk_Def had) else None | None \<Rightarrow> None)"
proof (cases "constraintsByName (sm_Constraints live) n")
  case (Some had)
  show ?thesis
  proof (cases "keepsConstraint (constraintsByName (sm_Constraints desired)) had")
    case True
    then obtain con where "con \<in> set (sm_Constraints desired)" "validatedDef (sk_Def had) = sk_Def con"
      using kept_def [OF True] assms(1) by (auto simp: desiredCoherent_def tableCoherent_def constraintCoherent_def)
    then have "sd_reads D (validatedDef (sk_Def had)) \<subseteq> sc_Name ` set (sm_Columns desired)"
      using assms(1) by (auto simp: desiredCoherent_def constraintCoherent_def)
    then show ?thesis using Some True by (auto simp: afterDrops_def unread_def)
  qed (use Some in \<open>simp add: afterDrops_def unread_def\<close>)
qed (simp add: afterDrops_def unread_def)

lemma drops_index:
  assumes "tableCoherent D live"
  shows "cg_indexes (afterDrops D live desired) n = Some (d, i) \<longleftrightarrow>
    (\<exists>ix \<in> set (sm_Indexes live). sx_Name ix = n \<and> d = sx_Def ix \<and> i = sx_Invalid ix \<and> n \<notin> indexesDropped live desired
      \<and> sd_reads D d \<inter> (sc_Name ` set (sm_Columns live) - sc_Name ` set (sm_Columns desired)) = {})"
proof (cases "indexesByName (sm_Indexes live) n")
  case None
  then have "n \<notin> sx_Name ` set (sm_Indexes live)" by (simp add: indexesByName_None)
  then show ?thesis using None by (auto simp: afterDrops_def unread_def restrict_map_def catalogOf_def)
next
  case (Some ix)
  have dist: "distinct (map sx_Name (sm_Indexes live))" using assms by (simp add: tableCoherent_def)
  then have ix: "ix \<in> set (sm_Indexes live)" "sx_Name ix = n" using Some by (auto simp: byName)
  have "(\<exists>y \<in> set (sm_Indexes live). sx_Name y = n \<and> P y) \<longleftrightarrow> P ix" for P
    using ix name_inj [OF dist] by blast
  then show ?thesis using Some by (auto simp: afterDrops_def unread_def restrict_map_def catalogOf_def)
qed

lemma dropped_iff:
  assumes "tableCoherent D live" "ix \<in> set (sm_Indexes live)"
  shows "sx_Name ix \<in> indexesDropped live desired \<longleftrightarrow> sx_Name ix \<notin> adoptedBy live desired
    \<and> indexNeedsDrop (sm_PartitionKey live \<noteq> '''') ix (indexesByName (sm_Indexes desired))"
proof -
  have "y = ix" if "y \<in> set (sm_Indexes live)" "sx_Name y = sx_Name ix" for y
    using assms that name_inj [of sx_Name "sm_Indexes live"] by (simp add: tableCoherent_def)
  then show ?thesis using assms(2) by (auto simp: indexesDropped_def Let_def image_iff)
qed


lemma adopted_iff:
  assumes "tableCoherent D desired" "con \<in> set (sm_Constraints desired)"
  shows "sk_Name con \<in> adoptedBy live desired \<longleftrightarrow> sm_PartitionKey live = ''''
    \<and> adoptable (constraintsByName (sm_Constraints live)) (indexesByName (sm_Indexes live)) con"
proof -
  have "y = con" if "y \<in> set (sm_Constraints desired)" "sk_Name y = sk_Name con" for y
    using assms that name_inj [of sk_Name "sm_Constraints desired"] by (simp add: tableCoherent_def)
  then show ?thesis using assms(2) by (auto simp: adoptableIndexes_def)
qed

lemma owned_not_index:
  assumes "desiredCoherent D desired" "con \<in> set (sm_Constraints desired)" "sd_owns D (sk_Def con)"
  shows "sk_Name con \<notin> sx_Name ` set (sm_Indexes desired)"
  using assms by (simp add: desiredCoherent_def tableCoherent_def constraintCoherent_def)

lemma adopted_owned:
  assumes "desiredCoherent D desired" "n \<in> adoptedBy live desired"
  shows "\<exists>con \<in> set (sm_Constraints desired). sk_Name con = n \<and> sd_owns D (sk_Def con)"
  using assms by (force simp: adoptableIndexes_def adoptable_def desiredCoherent_def constraintCoherent_def split: if_splits)

lemma drops_keep_adopted:
  assumes "desiredCoherent D desired" "tableCoherent D live" "con \<in> set (sm_Constraints desired)" "sk_Name con \<in> adoptedBy live desired"
  shows "cg_indexes (afterDrops D live desired) (sk_Name con) = Some (sk_IndexDef con, False)"
proof -
  have "tableCoherent D desired" using assms(1) by (simp add: desiredCoherent_def)
  from adopted_iff [OF this assms(3)] assms(4)
  have ad: "adoptable (constraintsByName (sm_Constraints live)) (indexesByName (sm_Indexes live)) con" by blast
  then obtain ix where "indexesByName (sm_Indexes live) (sk_Name con) = Some ix" "\<not> sx_Invalid ix" "sx_Def ix = sk_IndexDef con"
    by (auto simp: adoptable_def split: if_splits option.splits)
  then have ix: "ix \<in> set (sm_Indexes live)" "sx_Name ix = sk_Name con" "\<not> sx_Invalid ix" "sx_Def ix = sk_IndexDef con"
    using assms(2) by (auto simp: tableCoherent_def byName)
  have "sd_reads D (sk_IndexDef con) \<subseteq> sc_Name ` set (sm_Columns desired)"
    using assms(1,3) ad by (auto simp: desiredCoherent_def constraintCoherent_def adoptable_def)
  then show ?thesis unfolding drops_index [OF assms(2)]
    using ix dropped_iff [OF assms(2) ix(1), of desired] assms(4) by (intro bexI [of _ ix]) auto
qed

lemma drops_free_key:
  assumes "desiredCoherent D desired" "tableCoherent D live" "con \<in> set (sm_Constraints desired)" "sd_owns D (sk_Def con)"
    and "sk_Name con \<notin> adoptedBy live desired"
  shows "\<not> occupied (sm_PartitionKey live \<noteq> '''') (cg_indexes (afterDrops D live desired) (sk_Name con))"
proof (cases "cg_indexes (afterDrops D live desired) (sk_Name con)")
  case (Some e)
  obtain d i where e: "e = (d, i)" by (cases e)
  from Some [unfolded e] obtain ix where ix: "ix \<in> set (sm_Indexes live)" "sx_Name ix = sk_Name con" "i = sx_Invalid ix"
      "sk_Name con \<notin> indexesDropped live desired"
    unfolding drops_index [OF assms(2)] by blast
  have "sk_Name con \<notin> sx_Name ` set (sm_Indexes desired)"
    using owned_not_index [OF assms(1,3,4)] .
  then have "indexesByName (sm_Indexes desired) (sx_Name ix) = None" using ix(2) by (simp add: indexesByName_None)
  then have "isUnfinishedBuild (sm_PartitionKey live \<noteq> '''') ix"
    using dropped_iff [OF assms(2) ix(1), of desired] ix(2,4) assms(5) by (auto simp: indexNeedsDrop_def split: if_splits)
  then show ?thesis using Some e ix(3) by (auto simp: occupied_def isUnfinishedBuild_def split: if_splits)
qed (simp add: occupied_def)

lemma drops_declared_index:
  assumes "desiredCoherent D desired" "tableCoherent D live" "want \<in> set (sm_Indexes desired)"
  shows "if indexNeedsCreate (sm_PartitionKey live \<noteq> '''') (indexesByName (sm_Indexes live)) want
    then \<not> occupied (sm_PartitionKey live \<noteq> '''') (cg_indexes (afterDrops D live desired) (sx_Name want))
    else \<exists>i. cg_indexes (afterDrops D live desired) (sx_Name want) = Some (sx_Def want, i) \<and> (i \<longrightarrow> sm_PartitionKey live \<noteq> '''')"
    (is "if indexNeedsCreate ?p _ _ then _ else _")
proof (cases "indexesByName (sm_Indexes live) (sx_Name want)")
  case None
  then have "cg_indexes (afterDrops D live desired) (sx_Name want) = None"
    by (simp add: afterDrops_def unread_def restrict_map_def catalogOf_def)
  then show ?thesis using None by (simp add: indexNeedsCreate_def occupied_def)
next
  case (Some had)
  then have had: "had \<in> set (sm_Indexes live)" "sx_Name had = sx_Name want" using assms(2) by (auto simp: tableCoherent_def byName)
  have only: "y = had" if "y \<in> set (sm_Indexes live)" "sx_Name y = sx_Name want" for y
    using assms(2) that had name_inj [of sx_Name "sm_Indexes live" y had] by (simp add: tableCoherent_def)
  have "sx_Name want \<notin> adoptedBy live desired"
    using adopted_owned [OF assms(1)] owned_not_index [OF assms(1)] assms(3) by (metis image_eqI)
  moreover have "indexesByName (sm_Indexes desired) (sx_Name had) = Some want"
    using assms(1,3) had(2) by (simp add: desiredCoherent_def tableCoherent_def byName)
  ultimately have gone: "sx_Name want \<in> indexesDropped live desired \<longleftrightarrow> \<not> isUnfinishedBuild ?p had \<and> sx_Def want \<noteq> sx_Def had"
    using dropped_iff [OF assms(2) had(1), of desired] had(2) by (simp add: indexNeedsDrop_def)
  have reads: "sd_reads D (sx_Def want) \<subseteq> sc_Name ` set (sm_Columns desired)" using assms(1,3) by (auto simp: desiredCoherent_def)
  show ?thesis
  proof (cases "indexNeedsCreate ?p (indexesByName (sm_Indexes live)) want")
    case True
    have "\<not> occupied ?p (Some (d, i))" if "cg_indexes (afterDrops D live desired) (sx_Name want) = Some (d, i)" for d i
      using that [unfolded drops_index [OF assms(2)]] True gone Some only
      by (auto simp: indexNeedsCreate_def isUnfinishedBuild_def occupied_def split: if_splits)
    then show ?thesis using True by (cases "cg_indexes (afterDrops D live desired) (sx_Name want)") (auto simp: occupied_def)
  next
    case False
    then have "sx_Def had = sx_Def want" "\<not> isUnfinishedBuild ?p had" using Some by (auto simp: indexNeedsCreate_def split: if_splits)
    then have "cg_indexes (afterDrops D live desired) (sx_Name want) = Some (sx_Def want, sx_Invalid had)"
      unfolding drops_index [OF assms(2)] using had reads gone by (intro bexI [of _ had]) auto
    then show ?thesis using False \<open>\<not> isUnfinishedBuild ?p had\<close> by (auto simp: isUnfinishedBuild_def)
  qed
qed


lemma drops_constraint:
  assumes "desiredCoherent D desired" "tableCoherent D live" "con \<in> set (sm_Constraints desired)"
  shows "cg_constraints (afterDrops D live desired) (sk_Name con) = (case constraintsByName (sm_Constraints live) (sk_Name con) of
      Some had \<Rightarrow> if sk_Def had = sk_Def con \<or> validatesInPlace had con then Some (sk_Def had) else None | None \<Rightarrow> None)"
proof (cases "constraintsByName (sm_Constraints live) (sk_Name con)")
  case (Some had)
  have "constraintsByName (sm_Constraints desired) (sk_Name con) = Some con"
    using assms(1,3) by (simp add: desiredCoherent_def tableCoherent_def byName)
  moreover have "sk_Name had = sk_Name con" using assms(2) Some by (simp add: tableCoherent_def byName)
  ultimately show ?thesis using Some by (auto simp: drops_constraints [OF assms(1,2)] keepsConstraint_def)
qed (simp add: drops_constraints [OF assms(1,2)])

lemma drops_owned:
  assumes "tableCoherent D live" "constraintsByName (sm_Constraints live) n = Some had" "sd_owns D (validatedDef (sk_Def had))"
  shows "cg_indexes (afterDrops D live desired) n = None"
proof -
  have "had \<in> set (sm_Constraints live)" "sk_Name had = n" using assms(1,2) by (auto simp: tableCoherent_def byName)
  then have "n \<notin> sx_Name ` set (sm_Indexes live)" using assms(1,3) by (auto simp: tableCoherent_def)
  then have "cg_indexes (afterDrops D live desired) n \<noteq> Some (d, i)" for d i unfolding drops_index [OF assms(1)] by blast
  then show ?thesis by (cases "cg_indexes (afterDrops D live desired) n") auto
qed

lemma nameReadyAfterDrops:
  assumes "desiredCoherent D desired" "tableCoherent D live" "con \<in> set (sm_Constraints desired)"
  shows "nameReady D (sm_PartitionKey live \<noteq> '''') (adoptedBy live desired) (constraintsByName (sm_Constraints live))
    (afterDrops D live desired) con"
    (is "nameReady D ?p ?ad ?live ?cat con")
proof (cases "sk_Name con \<in> ?ad")
  case True
  have "tableCoherent D desired" using assms(1) by (simp add: desiredCoherent_def)
  from adopted_iff [OF this assms(3), of live] True
  have ad: "\<not> ?p" "adoptable ?live (indexesByName (sm_Indexes live)) con" by auto
  then have "?live (sk_Name con) = None" "sk_IndexDef con \<noteq> ''''" by (auto simp: adoptable_def split: if_splits)
  then have "sd_owns D (sk_Def con)" using assms(1,3) by (auto simp: desiredCoherent_def constraintCoherent_def)
  moreover have "cg_constraints ?cat (sk_Name con) = None" using drops_constraint [OF assms] \<open>?live (sk_Name con) = None\<close> by simp
  ultimately show ?thesis using True ad(1) drops_keep_adopted [OF assms True] by (simp add: nameReady_def)
next
  case False
  have con: "validatedDef (sk_Def con) = sk_Def con" using assms(1,3) by (simp add: desiredCoherent_def constraintCoherent_def)
  have free: "sd_owns D (sk_Def con) \<longrightarrow> \<not> occupied ?p (cg_indexes ?cat (sk_Name con))"
    using drops_free_key [OF assms _ False] by blast
  show ?thesis
  proof (cases "?live (sk_Name con)")
    case None
    then show ?thesis using False free drops_constraint [OF assms] by (simp add: nameReady_def)
  next
    case (Some had)
    have "sd_owns D (sk_Def con) \<longrightarrow> cg_indexes ?cat (sk_Name con) = None" if "validatedDef (sk_Def had) = sk_Def con"
      using drops_owned [OF assms(2) Some, of desired] that by simp
    then show ?thesis using False Some free drops_constraint [OF assms] con
      by (auto simp: nameReady_def validatesInPlace_def validatedDef_suffix)
  qed
qed


lemma run_columns:
  assumes "desiredCoherent D desired" "tableCoherent D live"
    and adds: "addColumnSteps (sm_Columns desired) (columnsByName (sm_Columns live)) = Inr adds"
    and alters: "alterColumnSteps (sm_Columns desired) (columnsByName (sm_Columns live)) = Inr alters"
  shows "\<exists>cat. runSteps D p (adds @ alters) (afterDrops D live desired) = Some cat
    \<and> cg_constraints cat = cg_constraints (afterDrops D live desired) \<and> cg_indexes cat = cg_indexes (afterDrops D live desired)
    \<and> dom (cg_columns cat) = sc_Name ` set (sm_Columns desired)
    \<and> (\<forall>want \<in> set (sm_Columns desired). \<exists>c. cg_columns cat (sc_Name want) = Some c \<and> columnConverged c want)"
proof -
  let ?live = "columnsByName (sm_Columns live)" and ?start = "afterDrops D live desired"
  let ?new = "filter (\<lambda>c. ?live (sc_Name c) = None) (sm_Columns desired)"
  let ?cat = "?start\<lparr>cg_columns := columnsOver ?new (cg_columns ?start)\<rparr>"
  have dist: "distinct (map sc_Name (sm_Columns desired))" "distinct (map sc_Name (sm_Columns live))"
    using assms(1,2) by (auto simp: desiredCoherent_def tableCoherent_def)
  have new: "distinct (map sc_Name ?new)" using dist(1) by (simp add: distinct_map_filter)
  have "\<forall>col \<in> set ?new. cg_columns ?start (sc_Name col) = None" by (simp add: drops_columns)
  with new have one: "runSteps D p adds ?start = Some ?cat" unfolding addColumnSteps_adds [OF adds] by (rule run_adds)
  have at: "cg_columns ?cat (sc_Name want) = (case ?live (sc_Name want) of None \<Rightarrow> Some want | Some l \<Rightarrow> Some l)"
    if want: "want \<in> set (sm_Columns desired)" for want
  proof (cases "?live (sc_Name want)")
    case None
    then show ?thesis using want by (simp add: columnsOver_def fold_byName [OF new])
  next
    case (Some l)
    then have "sc_Name want \<notin> sc_Name ` set ?new" by auto
    then show ?thesis using want Some by (simp add: columnsOver_def fold_byName [OF new] drops_columns)
  qed
  have other: "cg_columns ?cat n = None" if n: "n \<notin> sc_Name ` set (sm_Columns desired)" for n
  proof -
    have "n \<notin> sc_Name ` set ?new" using n by auto
    then show ?thesis using n by (simp add: columnsOver_def fold_byName_None drops_columns)
  qed
  have names: "?live n = Some l \<Longrightarrow> sc_Name l = n" for n l using dist(2) by (simp add: byName)
  have "\<forall>col \<in> set (sm_Columns desired). \<forall>l. ?live (sc_Name col) = Some l \<longrightarrow> cg_columns ?cat (sc_Name col) = Some l \<and> sc_Name l = sc_Name col"
    using at names by (metis option.simps(5))
  from run_alters [OF alters dist(1) this, of D p] obtain cat where cat: "runSteps D p alters ?cat = Some cat"
      "cg_constraints cat = cg_constraints ?start" "cg_indexes cat = cg_indexes ?start"
      "\<forall>n. n \<notin> sc_Name ` set (sm_Columns desired) \<longrightarrow> cg_columns cat n = cg_columns ?cat n"
      "\<forall>col \<in> set (sm_Columns desired). cg_columns cat (sc_Name col) =
         (case ?live (sc_Name col) of None \<Rightarrow> cg_columns ?cat (sc_Name col) | Some l \<Rightarrow> Some (altered l col))"
    by auto
  have conv: "\<exists>c. cg_columns cat (sc_Name want) = Some c \<and> columnConverged c want" if want: "want \<in> set (sm_Columns desired)" for want
  proof (cases "?live (sc_Name want)")
    case None
    then show ?thesis using cat(5) at [OF want] want by (simp add: columnConverged_def)
  next
    case (Some l)
    then obtain alter where "alterColumnChanges l want = Inr alter" using alterColumnSteps_each [OF alters want Some] by blast
    then have "columnConverged (altered l want) want" using names [OF Some] by (rule altered_converged)
    then show ?thesis using cat(5) want Some by simp
  qed
  have "dom (cg_columns cat) = sc_Name ` set (sm_Columns desired)" using conv cat(4) other by force
  then show ?thesis using one cat(1,2,3) conv by (auto simp: runSteps_append)
qed


definition converged :: "SchemaModel \<Rightarrow> SchemaModel \<Rightarrow> catalog \<Rightarrow> bool" where
  "converged live desired cat \<longleftrightarrow>
     dom (cg_columns cat) = sc_Name ` set (sm_Columns desired)
     \<and> (\<forall>want \<in> set (sm_Columns desired). \<exists>c. cg_columns cat (sc_Name want) = Some c \<and> columnConverged c want)
     \<and> cg_constraints cat = cg_constraints (catalogOf desired)
     \<and> (\<forall>want \<in> set (sm_Indexes desired). \<exists>i. cg_indexes cat (sx_Name want) = Some (sx_Def want, i) \<and> (i \<longrightarrow> sm_PartitionKey live \<noteq> ''''))
     \<and> (\<forall>n d i. cg_indexes cat n = Some (d, i) \<and> n \<notin> sx_Name ` set (sm_Indexes desired) \<longrightarrow>
          i \<and> sm_PartitionKey live = '''' \<and> \<lparr>ad_Kind = AdvisoryInvalidIndexUndeclared, ad_Index = n\<rparr> \<in> set (Advisories live desired))"

lemma readyAfterColumns:
  assumes "desiredCoherent D desired" "tableCoherent D live"
    and same: "cg_constraints cat = cg_constraints (afterDrops D live desired)" "cg_indexes cat = cg_indexes (afterDrops D live desired)"
    and dom: "dom (cg_columns cat) = sc_Name ` set (sm_Columns desired)"
    and cols: "\<forall>want \<in> set (sm_Columns desired). \<exists>c. cg_columns cat (sc_Name want) = Some c \<and> columnConverged c want"
    and con: "con \<in> set (sm_Constraints desired)"
  shows "constraintReady D (sm_PartitionKey live \<noteq> '''') (adoptedBy live desired) (constraintsByName (sm_Constraints live)) cat con"
proof -
  have coherent: "constraintCoherent D desired con" using assms(1) con by (simp add: desiredCoherent_def)
  have "sc_NotNull c" if key: "sk_Primary con" "n \<in> sd_keys D (sk_Def con)" "cg_columns cat n = Some c" for n c
  proof -
    from key(3) have "n \<in> sc_Name ` set (sm_Columns desired)" unfolding dom [symmetric] by blast
    then obtain want where want: "want \<in> set (sm_Columns desired)" "sc_Name want = n" by blast
    then have "sc_NotNull want" using coherent key(1,2) by (simp add: constraintCoherent_def)
    moreover have "columnConverged c want" using bspec [OF cols want(1)] want(2) key(3) by auto
    ultimately show ?thesis by (simp add: columnConverged_def)
  qed
  moreover have "nameReady D p ad L cat con = nameReady D p ad L (afterDrops D live desired) con" for p ad L
    unfolding nameReady_def same by (rule refl)
  ultimately show ?thesis
    using nameReadyAfterDrops [OF assms(1,2) con] coherent dom by (simp add: constraintReady_def constraintCoherent_def)
qed

lemma drops_undeclared:
  assumes "desiredCoherent D desired" "tableCoherent D live" "constraintsByName (sm_Constraints desired) n = None"
  shows "cg_constraints (afterDrops D live desired) n = None"
proof (cases "constraintsByName (sm_Constraints live) n")
  case (Some had)
  then have "sk_Name had = n" using assms(2) by (simp add: tableCoherent_def byName)
  then show ?thesis using Some assms(3) by (simp add: drops_constraints [OF assms(1,2)] keepsConstraint_def)
qed (simp add: drops_constraints [OF assms(1,2)])

lemma createReady:
  assumes "desiredCoherent D desired" "tableCoherent D live" "ix \<in> set (sm_Indexes desired)"
    and "indexNeedsCreate (sm_PartitionKey live \<noteq> '''') (indexesByName (sm_Indexes live)) ix"
  shows "\<not> occupied (sm_PartitionKey live \<noteq> '''') ((cg_indexes (afterDrops D live desired) |` S) (sx_Name ix))"
    and "sd_reads D (sx_Def ix) \<subseteq> sc_Name ` set (sm_Columns desired)"
    and "cg_constraints (catalogOf desired) (sx_Name ix) = Some d \<Longrightarrow> \<not> sd_owns D d"
proof -
  show "\<not> occupied (sm_PartitionKey live \<noteq> '''') ((cg_indexes (afterDrops D live desired) |` S) (sx_Name ix))"
    using drops_declared_index [OF assms(1-3)] assms(4) by (simp add: restrict_map_def occupied_def)
  show "sd_reads D (sx_Def ix) \<subseteq> sc_Name ` set (sm_Columns desired)" using assms(1,3) by (simp add: desiredCoherent_def)
  assume "cg_constraints (catalogOf desired) (sx_Name ix) = Some d"
  then obtain con where "con \<in> set (sm_Constraints desired)" "sk_Name con = sx_Name ix" "d = sk_Def con"
    using assms(1) by (auto simp: catalogOf_def byName desiredCoherent_def tableCoherent_def)
  then show "\<not> sd_owns D d" using owned_not_index [OF assms(1)] assms(3) by (metis image_eqI)
qed

lemma indexesConverge:
  assumes "desiredCoherent D desired" "tableCoherent D live"
    and final: "\<forall>n. cg_indexes final n = (case indexesByName
         (filter (indexNeedsCreate (sm_PartitionKey live \<noteq> '''') (indexesByName (sm_Indexes live))) (sm_Indexes desired)) n of
       Some ix \<Rightarrow> Some (sx_Def ix, False)
     | None \<Rightarrow> (cg_indexes (afterDrops D live desired) |` (- ownedNames D (sm_Constraints desired))) n)"
  shows "\<forall>want \<in> set (sm_Indexes desired). \<exists>i. cg_indexes final (sx_Name want) = Some (sx_Def want, i) \<and> (i \<longrightarrow> sm_PartitionKey live \<noteq> '''')"
    and "\<forall>n d i. cg_indexes final n = Some (d, i) \<and> n \<notin> sx_Name ` set (sm_Indexes desired) \<longrightarrow>
          i \<and> sm_PartitionKey live = '''' \<and> \<lparr>ad_Kind = AdvisoryInvalidIndexUndeclared, ad_Index = n\<rparr> \<in> set (Advisories live desired)"
proof -
  let ?p = "sm_PartitionKey live \<noteq> ''''"
  let ?new = "filter (indexNeedsCreate ?p (indexesByName (sm_Indexes live))) (sm_Indexes desired)"
  have dist: "distinct (map sx_Name (sm_Indexes desired))" using assms(1) by (simp add: desiredCoherent_def tableCoherent_def)
  then have new: "distinct (map sx_Name ?new)" by (simp add: distinct_map_filter)
  show "\<forall>want \<in> set (sm_Indexes desired). \<exists>i. cg_indexes final (sx_Name want) = Some (sx_Def want, i) \<and> (i \<longrightarrow> ?p)"
  proof
    fix want assume want: "want \<in> set (sm_Indexes desired)"
    show "\<exists>i. cg_indexes final (sx_Name want) = Some (sx_Def want, i) \<and> (i \<longrightarrow> ?p)"
    proof (cases "indexNeedsCreate ?p (indexesByName (sm_Indexes live)) want")
      case True
      then have "indexesByName ?new (sx_Name want) = Some want" using want by (simp add: indexesByName_Some [OF new])
      then have "cg_indexes final (sx_Name want) = Some (sx_Def want, False)" using final by simp
      then show ?thesis by blast
    next
      case False
      then have "indexesByName ?new (sx_Name want) = None"
        using want name_inj [OF dist] by (auto simp: indexesByName_None)
      moreover have "sx_Name want \<notin> ownedNames D (sm_Constraints desired)"
        using owned_not_index [OF assms(1)] want by (force simp: ownedNames_def)
      ultimately show ?thesis using final drops_declared_index [OF assms(1,2) want] False by simp
    qed
  qed
  show "\<forall>n d i. cg_indexes final n = Some (d, i) \<and> n \<notin> sx_Name ` set (sm_Indexes desired) \<longrightarrow>
      i \<and> sm_PartitionKey live = '''' \<and> \<lparr>ad_Kind = AdvisoryInvalidIndexUndeclared, ad_Index = n\<rparr> \<in> set (Advisories live desired)"
  proof (intro allI impI; elim conjE)
    fix n d i assume entry: "cg_indexes final n = Some (d, i)" and n: "n \<notin> sx_Name ` set (sm_Indexes desired)"
    have "indexesByName ?new n = None" using n by (auto simp: indexesByName_None)
    then have left: "cg_indexes (afterDrops D live desired) n = Some (d, i)" "n \<notin> ownedNames D (sm_Constraints desired)"
      using final entry by (auto simp: restrict_map_def split: if_splits)
    then have notAd: "n \<notin> adoptedBy live desired" using adopted_owned [OF assms(1)] by (auto simp: ownedNames_def)
    obtain ix where ix: "ix \<in> set (sm_Indexes live)" "sx_Name ix = n" "i = sx_Invalid ix" "n \<notin> indexesDropped live desired"
      using left(1) unfolding drops_index [OF assms(2)] by blast
    have none: "indexesByName (sm_Indexes desired) (sx_Name ix) = None" using n ix(2) by (simp add: indexesByName_None)
    have "isUnfinishedBuild ?p ix"
      using dropped_iff [OF assms(2) ix(1), of desired] ix(2,4) notAd none by (auto simp: indexNeedsDrop_def split: if_splits)
    then show "i \<and> sm_PartitionKey live = '''' \<and> \<lparr>ad_Kind = AdvisoryInvalidIndexUndeclared, ad_Index = n\<rparr> \<in> set (Advisories live desired)"
      using ix none by (auto simp: Advisories_def isUnfinishedBuild_def image_iff split: if_splits)
  qed
qed

lemma run_plan:
  assumes "diffSteps live desired = Inr steps" "tableCoherent D live" "desiredCoherent D desired"
  shows "\<exists>final. runSteps D (sm_PartitionKey live \<noteq> '''') steps (catalogOf live) = Some final \<and> converged live desired final"
proof -
  let ?p = "sm_PartitionKey live \<noteq> ''''" and ?ad = "adoptedBy live desired"
  let ?liveCons = "constraintsByName (sm_Constraints live)" and ?start = "afterDrops D live desired"
  let ?new = "filter (indexNeedsCreate ?p (indexesByName (sm_Indexes live))) (sm_Indexes desired)"
  obtain adds alters where adds: "addColumnSteps (sm_Columns desired) (columnsByName (sm_Columns live)) = Inr adds"
      and alters: "alterColumnSteps (sm_Columns desired) (columnsByName (sm_Columns live)) = Inr alters"
      and steps: "steps = (dropIndexSteps ?p ?ad (sm_Indexes live) (indexesByName (sm_Indexes desired))
        @ dropConstraintSteps (sm_Constraints live) (constraintsByName (sm_Constraints desired))
        @ dropColumnSteps (sm_Columns live) (columnsByName (sm_Columns desired)))
        @ (adds @ alters) @ concat (map (constraintSteps ?ad ?liveCons) (sm_Constraints desired)) @ map CreateIndex ?new"
    using assms(1) by (auto simp: diffSteps_def Let_def createIndexSteps_def split: option.splits sum.splits)
  from run_columns [OF assms(3,2) adds alters, of ?p] obtain cols where cols:
      "runSteps D ?p (adds @ alters) ?start = Some cols" "cg_constraints cols = cg_constraints ?start" "cg_indexes cols = cg_indexes ?start"
      "dom (cg_columns cols) = sc_Name ` set (sm_Columns desired)"
      "\<forall>want \<in> set (sm_Columns desired). \<exists>c. cg_columns cols (sc_Name want) = Some c \<and> columnConverged c want"
    by blast
  have dist: "distinct (map sk_Name (sm_Constraints desired))" "distinct (map sx_Name (sm_Indexes desired))"
    using assms(3) by (auto simp: desiredCoherent_def tableCoherent_def)
  have "\<forall>con \<in> set (sm_Constraints desired). constraintReady D ?p ?ad ?liveCons cols con"
    using readyAfterColumns [OF assms(3,2) cols(2-5)] by blast
  from run_constraints [OF this dist(1)] obtain cons where cons:
      "runSteps D ?p (concat (map (constraintSteps ?ad ?liveCons) (sm_Constraints desired))) cols = Some cons"
      "cg_columns cons = cg_columns cols"
      "\<forall>n. cg_constraints cons n = (case constraintsByName (sm_Constraints desired) n of
         Some con \<Rightarrow> Some (sk_Def con) | None \<Rightarrow> cg_constraints cols n)"
      "cg_indexes cons = cg_indexes ?start |` (- ownedNames D (sm_Constraints desired))"
    using cols(3) by auto
  have constraints: "cg_constraints cons = cg_constraints (catalogOf desired)"
    using cons(3) cols(2) drops_undeclared [OF assms(3,2)] by (auto simp: catalogOf_def fun_eq_iff split: option.splits)
  have "\<forall>ix \<in> set ?new. \<not> occupied ?p (cg_indexes cons (sx_Name ix)) \<and> sd_reads D (sx_Def ix) \<subseteq> dom (cg_columns cons)
      \<and> (\<forall>d. cg_constraints cons (sx_Name ix) = Some d \<longrightarrow> \<not> sd_owns D d)"
    using createReady [OF assms(3,2)] cons(2,4) cols(4) constraints by fastforce
  with run_creates [of ?new ?p cons D] dist(2) obtain final where final: "runSteps D ?p (map CreateIndex ?new) cons = Some final"
      "cg_columns final = cg_columns cons" "cg_constraints final = cg_constraints cons"
      "\<forall>n. cg_indexes final n = (case indexesByName ?new n of Some ix \<Rightarrow> Some (sx_Def ix, False) | None \<Rightarrow> cg_indexes cons n)"
    by (auto simp: distinct_map_filter)
  have "converged live desired final"
    unfolding converged_def final(2,3) cons(2) constraints
    using cols(4,5) indexesConverge [OF assms(3,2) final(4) [unfolded cons(4)]] by (intro conjI refl)
  then show ?thesis
    unfolding steps using runSteps_then [OF run_drops [OF assms(2) refl refl] runSteps_then [OF cols(1) runSteps_then [OF cons(1) final(1)]]]
    by blast
qed


section \<open>A converged table has no plan\<close>

lemma sameSequence_refl: "sameSequence a a"
  by (cases a) (simp_all add: sameSequence_def)

lemma converged_alters_nothing: "columnConverged c want \<Longrightarrow> alterColumnChanges c want = Inr []"
  by (auto simp: columnConverged_def alterColumnChanges_def defaultSteps_def nullSteps_def identitySequenceAfterRetype_def
      sameSequence_refl)

lemma alterColumnSteps_nothing:
  assumes "\<forall>col \<in> set cols. \<forall>l. liveCols (sc_Name col) = Some l \<longrightarrow> alterColumnChanges l col = Inr []"
  shows "alterColumnSteps cols liveCols = Inr []"
  using assms by (induction cols) (auto split: option.splits)

lemma addColumnSteps_nothing: "\<forall>col \<in> set cols. liveCols (sc_Name col) \<noteq> None \<Longrightarrow> addColumnSteps cols liveCols = Inr []"
  by (induction cols) auto

lemma validates_changes: "validatesInPlace had con \<Longrightarrow> sk_Def had \<noteq> sk_Def con"
  by (auto simp: validatesInPlace_def notValidSuffix_def)

lemma converged_constraints_nothing:
  assumes "tableCoherent D live" "tableCoherent D desired" "cg_constraints (catalogOf live) = cg_constraints (catalogOf desired)"
  shows "adoptedBy live desired = {}"
    and "dropConstraintSteps (sm_Constraints live) (constraintsByName (sm_Constraints desired)) = []"
    and "concat (map (constraintSteps {} (constraintsByName (sm_Constraints live))) (sm_Constraints desired)) = []"
proof -
  have same: "map_option sk_Def (constraintsByName (sm_Constraints live) n) = map_option sk_Def (constraintsByName (sm_Constraints desired) n)" for n
    using assms(3) by (auto simp: catalogOf_def fun_eq_iff)
  have liveBy: "constraintsByName (sm_Constraints live) (sk_Name con) = Some con" if "con \<in> set (sm_Constraints live)" for con
    using assms(1) that by (simp add: tableCoherent_def byName)
  have desiredBy: "constraintsByName (sm_Constraints desired) (sk_Name con) = Some con" if "con \<in> set (sm_Constraints desired)" for con
    using assms(2) that by (simp add: tableCoherent_def byName)
  have "keepsConstraint (constraintsByName (sm_Constraints desired)) con" if "con \<in> set (sm_Constraints live)" for con
    using same [of "sk_Name con"] liveBy [OF that]
    by (cases "constraintsByName (sm_Constraints desired) (sk_Name con)") (auto simp: keepsConstraint_def)
  then show "dropConstraintSteps (sm_Constraints live) (constraintsByName (sm_Constraints desired)) = []"
    by (simp add: dropConstraintSteps_def filter_empty_conv)
  have had: "\<exists>had. constraintsByName (sm_Constraints live) (sk_Name con) = Some had \<and> sk_Def had = sk_Def con"
    if "con \<in> set (sm_Constraints desired)" for con
    using same [of "sk_Name con"] desiredBy [OF that] by auto
  have "\<not> adoptable (constraintsByName (sm_Constraints live)) (indexesByName (sm_Indexes live)) con"
    if "con \<in> set (sm_Constraints desired)" for con
    using had [OF that] by (auto simp: adoptable_def)
  then show "adoptedBy live desired = {}" by (simp add: adoptableIndexes_def filter_empty_conv)
  have "constraintSteps {} (constraintsByName (sm_Constraints live)) con = []" if "con \<in> set (sm_Constraints desired)" for con
    using had [OF that] by (auto simp: constraintSteps_def dest: validates_changes)
  then show "concat (map (constraintSteps {} (constraintsByName (sm_Constraints live))) (sm_Constraints desired)) = []" by simp
qed


lemma converged_indexes_nothing:
  assumes "tableCoherent D after" "tableCoherent D desired" "converged live desired (catalogOf after)"
    and key: "sm_PartitionKey after = sm_PartitionKey live"
  shows "dropIndexSteps (sm_PartitionKey after \<noteq> '''') ad (sm_Indexes after) (indexesByName (sm_Indexes desired)) = []"
    and "createIndexSteps (sm_PartitionKey after \<noteq> '''') (sm_Indexes desired) (indexesByName (sm_Indexes after)) = []"
proof -
  let ?p = "sm_PartitionKey after \<noteq> ''''"
  have after: "indexesByName (sm_Indexes after) n = Some ix \<longleftrightarrow> ix \<in> set (sm_Indexes after) \<and> sx_Name ix = n" for n ix
    using assms(1) by (simp add: tableCoherent_def byName)
  have want: "indexesByName (sm_Indexes desired) n = Some ix \<longleftrightarrow> ix \<in> set (sm_Indexes desired) \<and> sx_Name ix = n" for n ix
    using assms(2) by (simp add: tableCoherent_def byName)
  have entry: "\<exists>had. indexesByName (sm_Indexes after) (sx_Name w) = Some had \<and> sx_Def had = sx_Def w \<and> (sx_Invalid had \<longrightarrow> ?p)"
    if "w \<in> set (sm_Indexes desired)" for w
    using assms(3) that key by (fastforce simp: converged_def catalogOf_def)
  have "\<not> indexNeedsCreate ?p (indexesByName (sm_Indexes after)) w" if "w \<in> set (sm_Indexes desired)" for w
    using entry [OF that] by (auto simp: indexNeedsCreate_def isUnfinishedBuild_def split: if_splits)
  then show "createIndexSteps ?p (sm_Indexes desired) (indexesByName (sm_Indexes after)) = []"
    by (simp add: createIndexSteps_def filter_empty_conv)
  have "\<not> indexNeedsDrop ?p ix (indexesByName (sm_Indexes desired))" if ix: "ix \<in> set (sm_Indexes after)" for ix
  proof (cases "indexesByName (sm_Indexes desired) (sx_Name ix)")
    case None
    have "indexesByName (sm_Indexes after) (sx_Name ix) = Some ix" using ix after by blast
    then have "cg_indexes (catalogOf after) (sx_Name ix) = Some (sx_Def ix, sx_Invalid ix)" by (simp add: catalogOf_def)
    moreover have "sx_Name ix \<notin> sx_Name ` set (sm_Indexes desired)" using None by (simp add: indexesByName_None)
    ultimately have "sx_Invalid ix" "\<not> ?p" using assms(3) key unfolding converged_def by metis+
    then show ?thesis by (simp add: indexNeedsDrop_def isUnfinishedBuild_def)
  next
    case (Some w)
    then have "w \<in> set (sm_Indexes desired)" "sx_Name w = sx_Name ix" using want by auto
    moreover have "indexesByName (sm_Indexes after) (sx_Name ix) = Some ix" using ix after by blast
    ultimately have "sx_Def w = sx_Def ix" using entry [of w] by simp
    then show ?thesis using Some by (simp add: indexNeedsDrop_def)
  qed
  then show "dropIndexSteps ?p ad (sm_Indexes after) (indexesByName (sm_Indexes desired)) = []"
    by (auto simp: dropIndexSteps_def filter_empty_conv)
qed

lemma converged_silent:
  assumes "tableCoherent D after" "tableCoherent D desired" "converged live desired (catalogOf after)"
    and key: "sm_PartitionKey after = sm_PartitionKey live" and "refusesTable after desired = None"
  shows "diffSteps after desired = Inr []"
proof -
  have cols: "dom (columnsByName (sm_Columns after)) = sc_Name ` set (sm_Columns desired)"
      "\<forall>want \<in> set (sm_Columns desired). \<exists>c. columnsByName (sm_Columns after) (sc_Name want) = Some c \<and> columnConverged c want"
      "cg_constraints (catalogOf after) = cg_constraints (catalogOf desired)"
    using assms(3) by (simp_all add: converged_def catalogOf_def)
  have "addColumnSteps (sm_Columns desired) (columnsByName (sm_Columns after)) = Inr []"
    using cols(2) by (intro addColumnSteps_nothing) auto
  moreover have "alterColumnSteps (sm_Columns desired) (columnsByName (sm_Columns after)) = Inr []"
    using cols(2) converged_alters_nothing by (intro alterColumnSteps_nothing) fastforce
  moreover have "sc_Name col \<in> sc_Name ` set (sm_Columns desired)" if "col \<in> set (sm_Columns after)" for col
    using that columnsByName_None [of "sm_Columns after" "sc_Name col"] unfolding cols(1) [symmetric] by (auto simp: domIff)
  then have "dropColumnSteps (sm_Columns after) (columnsByName (sm_Columns desired)) = []"
    by (simp add: dropColumnSteps_def filter_empty_conv columnsByName_None)
  ultimately show ?thesis
    using converged_constraints_nothing [OF assms(1,2) cols(3)] converged_indexes_nothing [OF assms(1-4)] assms(5)
    by (simp add: diffSteps_def Let_def)
qed


section \<open>Properties\<close>


definition accountColumn :: "string \<Rightarrow> string \<Rightarrow> SchemaColumn" where
  "accountColumn name typ = \<lparr>sc_Name = name, sc_Type = typ, sc_NotNull = True, sc_Default = '''', sc_SequenceDefault = False,
     sc_SequenceOwned = False, sc_Collation = '''', sc_Identity = IdentityNone, sc_Generated = False, sc_Virtual = False,
     sc_Sequence = None, sc_MultipleOwnedSequences = False\<rparr>"

definition accountModel :: "SchemaColumn list \<Rightarrow> SchemaConstraint list \<Rightarrow> SchemaIndex list \<Rightarrow> SchemaModel" where
  "accountModel cols cons ixs = \<lparr>sm_Table = ''account'', sm_RowSecurity = \<lparr>rls_Enabled = False, rls_Forced = False, rls_Policies = []\<rparr>,
     sm_PartitionKey = '''', sm_IsPartition = False, sm_InheritsParents = [], sm_InheritanceChildren = [], sm_Unlogged = False,
     sm_Options = [], sm_ToastMayNotRebuild = False, sm_ReplicaIdentity = \<lparr>ri_Indexes = [], ri_Constraints = [], ri_Columns = [], ri_OwnColumns = []\<rparr>,
     sm_ReferencedBy = [], sm_Columns = cols, sm_Constraints = cons, sm_Indexes = ixs\<rparr>"

definition accountKey :: SchemaConstraint where
  "accountKey = \<lparr>sk_Name = ''k'', sk_Def = ''PRIMARY KEY (id)'', sk_ForeignKey = False, sk_Primary = True, sk_IndexDef = ''UNIQUE (id)'',
     sk_Deferrable = False, sk_InitiallyDeferred = False, sk_NotValid = False\<rparr>"

definition accountLive :: SchemaModel where
  "accountLive = accountModel [accountColumn ''id'' ''integer'', accountColumn ''old'' ''text''] []
     [\<lparr>sx_Name = ''k'', sx_Def = ''UNIQUE (id)'', sx_Invalid = False\<rparr>, \<lparr>sx_Name = ''x'', sx_Def = ''(old)'', sx_Invalid = True\<rparr>]"

definition accountDesired :: SchemaModel where
  "accountDesired = accountModel [accountColumn ''id'' ''bigint'', accountColumn ''at'' ''date''] [accountKey] []"

definition accountDefs :: server_defs where
  "accountDefs = \<lparr>sd_reads = (\<lambda>d. if d = ''PRIMARY KEY (id)'' \<or> d = ''UNIQUE (id)'' then {''id''} else if d = ''(old)'' then {''old''} else {}),
     sd_keys = (\<lambda>d. if d = ''PRIMARY KEY (id)'' then {''id''} else {}), sd_owns = (\<lambda>d. d = ''PRIMARY KEY (id)'')\<rparr>"

lemmas account = accountColumn_def accountModel_def accountKey_def accountLive_def accountDesired_def accountDefs_def

lemma account_steps:
  "diffSteps accountLive accountDesired =
     Inr [DropColumn (accountColumn ''old'' ''text''), AddColumn (accountColumn ''at'' ''date''), AlterType ''id'' ''bigint'', AdoptIndex accountKey]"
  by code_simp

lemma account_coherent: "tableCoherent accountDefs accountLive" "desiredCoherent accountDefs accountDesired"
  by (simp_all add: tableCoherent_def desiredCoherent_def constraintCoherent_def account validatedDef_def cutSuffix_def notValidSuffix_def)


text \<open>
  C31: A second plan is empty. When the steps derived for a table have run and the catalog
  then reads as another model of the same table, the difference of that model and the same
  desired table is no change at all.
\<close>
theorem diff_then_silent:
  assumes "diffSteps live desired = Inr steps" "tableCoherent D live" "desiredCoherent D desired"
    and "runSteps D (sm_PartitionKey live \<noteq> '''') steps (catalogOf live) = Some (catalogOf after)"
    and "tableCoherent D after" "sm_Table after = sm_Table live" "sm_PartitionKey after = sm_PartitionKey live"
    and "sm_IsPartition after = sm_IsPartition live" "sm_Unlogged after = sm_Unlogged live" "sm_Options after = sm_Options live"
  shows "Diff Q san schema after desired = Inr []"
proof -
  have "converged live desired (catalogOf after)" using run_plan [OF assms(1-3)] assms(4) by simp
  moreover have "refusesTable live desired = None" using assms(1) by (auto simp: diffSteps_def split: option.splits)
  then have "refusesTable after desired = None" by (simp only: refusesTable_def assms(6-10))
  ultimately have "diffSteps after desired = Inr []"
    using converged_silent [of D after desired live] assms(3,5,7) by (simp add: desiredCoherent_def)
  then show ?thesis by (simp add: Diff_def)
qed


definition accountAfter :: SchemaModel where
  "accountAfter = accountModel [accountColumn ''at'' ''date'', accountColumn ''id'' ''bigint''] [accountKey] []"

lemma account_ran:
  "runSteps accountDefs False
     [DropColumn (accountColumn ''old'' ''text''), AddColumn (accountColumn ''at'' ''date''), AlterType ''id'' ''bigint'', AdoptIndex accountKey]
     (catalogOf accountLive) = Some (catalogOf accountAfter)"
  by (auto simp: runStep_def alterCatalog_def addKey_def notNullKeys_def catalogOf_def accountAfter_def account columnsByName_def
      constraintsByName_def indexesByName_def fun_eq_iff validatedDef_def cutSuffix_def Let_def)

theorem diff_then_silent_witness: "Diff desired_query (join ''.'') ''s'' accountAfter accountDesired = Inr []"
proof (rule diff_then_silent)
  show "diffSteps accountLive accountDesired =
     Inr [DropColumn (accountColumn ''old'' ''text''), AddColumn (accountColumn ''at'' ''date''), AlterType ''id'' ''bigint'', AdoptIndex accountKey]"
    by (rule account_steps)
  show "tableCoherent accountDefs accountAfter"
    by (simp add: tableCoherent_def accountAfter_def account validatedDef_def cutSuffix_def notValidSuffix_def)
qed (use account_coherent account_ran in \<open>simp_all add: accountAfter_def accountLive_def accountModel_def\<close>)

end
