(* ===== verification/Checksum_Verifier.thy ===== *)
theory Checksum_Verifier
  imports Copier_Work Decode_Types
begin

text \<open>
  The comparison of the shadow with its source (\<open>pkg/checksum\<close>: \<open>verifier.go\<close>,
  \<open>guard.go\<close>, \<open>digest.go\<close>, \<open>check.go\<close>, \<open>policy.go\<close>, \<open>proofs.go\<close>, \<open>report.go\<close>,
  \<open>repair.go\<close>, \<open>recopy_retry.go\<close>, \<open>work.go\<close>). Every transaction has a number, its tick. The
  database is an argument: the source as each statement of each tick reads it, what
  other sessions make of the shadow between two ticks, the server's answers to the guard's
  statements, the conversion of a row, the hash, and the clock. The verifier's own state is
  the shadow it leaves, its counters and whether a pass runs.
\<close>

section \<open>Digests, reports and errors\<close>

record Digest =
  dg_Rows :: int64
  dg_Hash :: string

record Mismatch =
  mm_Chunk :: Chunk
  mm_Source :: Digest
  mm_Shadow :: Digest

record Report =
  rp_Through :: Watermark
  rp_Chunks :: int64
  rp_Rows :: int64
  rp_Mismatches :: "Mismatch list"
  rp_Settled :: int64
  rp_Unsettled :: int64

definition Report_Clean :: "Report \<Rightarrow> bool" where
  "Report_Clean r = (length (rp_Mismatches r) = 0 \<and> rp_Unsettled r = 0)"

record Repair =
  rr_Mismatch :: Mismatch
  rr_Removed :: int64
  rr_Inserted :: int64

datatype UnresolvedCause = CauseLagging | CauseHot

record UnresolvedError =
  ue_Chunk :: Chunk
  ue_Cause :: UnresolvedCause
  ue_Rereads :: int64
  ue_Source :: Digest
  ue_Shadow :: Digest
  ue_Captured :: LSN
  ue_Confirmed :: LSN

datatype verify_error =
    Violation string
  | ErrVerifierOptions
  | ErrNothingLanded
  | ErrPassRunning
  | ErrNoDivergencePolicy
  | FromCopier copier_error
  | ServerError string
  | DivergenceError Report
  | RepairError Repair Mismatch
  | ErrUnresolved UnresolvedError

section \<open>Divergence policies\<close>

datatype DivergencePolicy = DivergenceAbort | DivergenceRepair | DivergenceRecopy | DivergenceUnnamed string

definition policyOf :: "string \<Rightarrow> DivergencePolicy" where
  "policyOf value =
     (if value = ''abort'' then DivergenceAbort
      else if value = ''repair'' then DivergenceRepair
      else if value = ''recopy'' then DivergenceRecopy
      else DivergenceUnnamed value)"

definition ParseDivergencePolicy :: "string \<Rightarrow> verify_error + DivergencePolicy" where
  "ParseDivergencePolicy value =
     (case policyOf value of
        DivergenceAbort \<Rightarrow> Inr DivergenceAbort
      | DivergenceRepair \<Rightarrow> Inr DivergenceRepair
      | DivergenceRecopy \<Rightarrow> Inl ErrNoDivergencePolicy
      | DivergenceUnnamed _ \<Rightarrow> Inl ErrNoDivergencePolicy)"

definition policyValidate :: "DivergencePolicy \<Rightarrow> verify_error option" where
  "policyValidate p =
     (case p of
        DivergenceAbort \<Rightarrow> None
      | DivergenceRepair \<Rightarrow> None
      | DivergenceRecopy \<Rightarrow> None
      | DivergenceUnnamed _ \<Rightarrow> Some ErrNoDivergencePolicy)"

section \<open>The verifier\<close>

definition DefaultRecopyAttempts :: int64 where "DefaultRecopyAttempts = 5"

record VerifierOptions =
  vo_LockTimeout :: int64
  vo_StatementTimeout :: int64
  vo_Chunker :: ChunkerOptions
  vo_RecopyAttempts :: int64

definition verifierWithDefaults :: "VerifierOptions \<Rightarrow> VerifierOptions" where
  "verifierWithDefaults opts =
     (let opts = (if vo_LockTimeout opts = 0 then opts\<lparr>vo_LockTimeout := DefaultLockTimeout\<rparr> else opts);
          opts = (if vo_StatementTimeout opts = 0 then opts\<lparr>vo_StatementTimeout := DefaultStatementTimeout\<rparr> else opts);
          opts = (if vo_RecopyAttempts opts = 0 then opts\<lparr>vo_RecopyAttempts := DefaultRecopyAttempts\<rparr> else opts)
      in opts)"

definition verifierValidate :: "VerifierOptions \<Rightarrow> verify_error option" where
  "verifierValidate opts =
     (if \<exists>t \<in> set [vo_LockTimeout opts, vo_StatementTimeout opts]. t < Millisecond then Some ErrVerifierOptions
      else if vo_RecopyAttempts opts < 1 then Some ErrVerifierOptions
      else None)"

definition verifierCheckShadow :: "CopySwapTarget \<Rightarrow> Shadow option \<Rightarrow> verify_error option" where
  "verifierCheckShadow target shadow =
     (let refuse = Some (Violation ''ST-6'') in
      case shadow of
        None \<Rightarrow> refuse
      | Some s \<Rightarrow>
          (let converts = length (sh_Conversions s) > 0; fingerprinted = sh_ConversionFingerprint s \<noteq> '''' in
           if sh_ShadowTable s = '''' then refuse
           else if sh_Schema s \<noteq> target_schema target \<or> sh_SourceTable s \<noteq> target_table target then refuse
           else if sh_ShadowTable s = sh_SourceTable s then refuse
           else if sh_SourceOID s = 0 \<or> sh_ShadowOID s = 0 then refuse
           else if sh_SourceOID s = sh_ShadowOID s then refuse
           else if target_pkColumn target \<notin> set (sh_CopyColumns s) then refuse
           else if map_of (sh_Conversions s) (target_pkColumn target) \<noteq> None then refuse
           else if \<exists>(column, expr) \<in> set (sh_Conversions s). column \<notin> set (sh_CopyColumns s) \<or> expr = '''' then refuse
           else if converts \<and> \<not> fingerprinted then refuse
           else if \<not> converts \<and> fingerprinted then refuse
           else None))"

definition verifierRequireTableLock :: "TableLockSession option \<Rightarrow> CopySwapTarget \<Rightarrow> verify_error option" where
  "verifierRequireTableLock lock target =
     (case lock of
        None \<Rightarrow> Some (Violation ''LK-1'')
      | Some held \<Rightarrow>
          if lock_table held = '''' then Some (Violation ''LK-1'')
          else if lock_schema held \<noteq> target_schema target \<or> lock_table held \<noteq> target_table target
            then Some (Violation ''LK-1'')
          else if lock_lost held then Some (Violation ''LK-1'')
          else None)"

record Verifier =
  vf_target :: CopySwapTarget
  vf_shadow :: Shadow
  vf_lock :: TableLockSession
  vf_opts :: VerifierOptions

definition NewVerifier ::
  "CopySwapTarget \<Rightarrow> Shadow option \<Rightarrow> TableLockSession option \<Rightarrow> VerifierOptions \<Rightarrow> verify_error + Verifier" where
  "NewVerifier target shadow lock opts =
     (if target_table target = '''' then Inl (Violation ''ST-6'')
      else case verifierCheckShadow target shadow of
        Some e \<Rightarrow> Inl e
      | None \<Rightarrow>
          (case verifierRequireTableLock lock target of
             Some e \<Rightarrow> Inl e
           | None \<Rightarrow>
               let opts = verifierWithDefaults opts in
               (case verifierValidate opts of
                  Some e \<Rightarrow> Inl e
                | None \<Rightarrow>
                    (case NewChunker target zeroWatermark (vo_Chunker opts) of
                       Inl e \<Rightarrow> Inl (FromCopier e)
                     | Inr _ \<Rightarrow> Inr \<lparr>vf_target = target, vf_shadow = the shadow, vf_lock = the lock, vf_opts = opts\<rparr>))))"

section \<open>The database and the pass's state\<close>

record tx_answers =
  ta_begin :: "string option"
  ta_session :: "string option"
  ta_role :: "string option"
  ta_hold :: "string option"
  ta_holder :: "string + 32 word option"
  ta_oids :: "string + 32 word option \<times> 32 word option"
  ta_fingerprint :: "string + string"
  ta_refingerprint :: "string + string"
  ta_types :: "string + (string \<times> string) list"
  ta_cut :: boundary_db
  ta_digest :: "bool \<Rightarrow> string option"
  ta_mark :: "string + LSN"
  ta_fence :: "string option"
  ta_delete :: "nat \<Rightarrow> string option"
  ta_copy :: "nat \<Rightarrow> string option"
  ta_commit :: "string option"
  ta_applied :: bool

record 'r verify_db =
  vd_source :: "nat \<Rightarrow> nat \<Rightarrow> 'r table"
  vd_between :: "nat \<Rightarrow> 'r table \<Rightarrow> 'r table"
  vd_answers :: "nat \<Rightarrow> tx_answers"
  vd_conv :: "'r \<Rightarrow> copier_error + 'r"
  vd_clash :: "'r \<Rightarrow> 'r \<Rightarrow> bool"
  vd_hash :: "'r table \<Rightarrow> string"
  vd_lost :: "nat \<Rightarrow> bool"
  vd_now :: "nat \<Rightarrow> int64"
  vd_elapsed :: "nat \<Rightarrow> int64"
  vd_round :: "rat \<Rightarrow> rat"
  vd_sleep :: "nat \<Rightarrow> nat \<Rightarrow> verify_error option"

record verify_work =
  vw_ChunksCompared :: "64 word"
  vw_RowsHashed :: "64 word"
  vw_ChunksMismatched :: "64 word"
  vw_ChunksRepaired :: "64 word"
  vw_ChunksReread :: "64 word"

definition noWork :: verify_work where
  "noWork = \<lparr>vw_ChunksCompared = 0, vw_RowsHashed = 0, vw_ChunksMismatched = 0, vw_ChunksRepaired = 0, vw_ChunksReread = 0\<rparr>"

record 'r verify_state =
  vs_tick :: nat
  vs_shadow :: "'r table"
  vs_reads :: nat
  vs_held :: bool
  vs_running :: bool
  vs_work :: verify_work

type_synonym ('r, 'a) pass = "'r verify_state \<Rightarrow> (verify_error + 'a) \<times> 'r verify_state"

definition returnV :: "'a \<Rightarrow> ('r, 'a) pass" where
  "returnV a = (\<lambda>st. (Inr a, st))"

definition failV :: "verify_error \<Rightarrow> ('r, 'a) pass" where
  "failV e = (\<lambda>st. (Inl e, st))"

definition bindV :: "('r, 'a) pass \<Rightarrow> ('a \<Rightarrow> ('r, 'b) pass) \<Rightarrow> ('r, 'b) pass" where
  "bindV m f = (\<lambda>st. case m st of (Inl e, st') \<Rightarrow> (Inl e, st') | (Inr a, st') \<Rightarrow> f a st')"

definition answerV :: "string option \<Rightarrow> ('r, unit) pass" where
  "answerV a = (case a of Some e \<Rightarrow> failV (ServerError e) | None \<Rightarrow> returnV ())"

definition countWork :: "(verify_work \<Rightarrow> verify_work) \<Rightarrow> ('r, unit) pass" where
  "countWork f = (\<lambda>st. (Inr (), st\<lparr>vs_work := f (vs_work st)\<rparr>))"

definition countCompared :: "int64 \<Rightarrow> ('r, unit) pass" where
  "countCompared rows = countWork (\<lambda>w. w\<lparr>vw_ChunksCompared := vw_ChunksCompared w + 1, vw_RowsHashed := vw_RowsHashed w + of_int rows\<rparr>)"

definition countMismatch :: "('r, unit) pass" where
  "countMismatch = countWork (\<lambda>w. w\<lparr>vw_ChunksMismatched := vw_ChunksMismatched w + 1\<rparr>)"

definition countRepaired :: "nat \<Rightarrow> ('r, unit) pass" where
  "countRepaired chunks = countWork (\<lambda>w. w\<lparr>vw_ChunksRepaired := vw_ChunksRepaired w + of_nat chunks\<rparr>)"

definition countReread :: "('r, unit) pass" where
  "countReread = countWork (\<lambda>w. w\<lparr>vw_ChunksReread := vw_ChunksReread w + 1\<rparr>)"


section \<open>The guarded transaction\<close>

definition onTick :: "'r verify_db \<Rightarrow> (nat \<Rightarrow> ('r, 'a) pass) \<Rightarrow> ('r, 'a) pass" where
  "onTick db f = (\<lambda>st. f (vs_tick st) (st\<lparr>vs_tick := Suc (vs_tick st), vs_shadow := vd_between db (vs_tick st) (vs_shadow st)\<rparr>))"

definition setVerifySession :: "tx_answers \<Rightarrow> ('r, unit) pass" where
  "setVerifySession a = bindV (answerV (ta_session a)) (\<lambda>_. answerV (ta_role a))"

definition verifierHoldRelations :: "tx_answers \<Rightarrow> ('r, unit) pass" where
  "verifierHoldRelations a =
     (case ta_hold a of
        None \<Rightarrow> returnV ()
      | Some e \<Rightarrow> if e = sqlstateUndefinedTable then failV (Violation ''ST-6'') else failV (ServerError e))"

definition verifierConfirmLock :: "Verifier \<Rightarrow> tx_answers \<Rightarrow> ('r, unit) pass" where
  "verifierConfirmLock v a =
     (case ta_holder a of
        Inl e \<Rightarrow> failV (ServerError e)
      | Inr None \<Rightarrow> failV (Violation ''LK-1'')
      | Inr (Some pid) \<Rightarrow> if pid \<noteq> lock_pid (vf_lock v) then failV (Violation ''LK-1'') else returnV ())"

definition verifierConfirmRelation :: "32 word \<Rightarrow> 32 word option \<Rightarrow> ('r, unit) pass" where
  "verifierConfirmRelation proven found =
     (case found of
        None \<Rightarrow> failV (Violation ''ST-6'')
      | Some oid \<Rightarrow> if oid \<noteq> proven then failV (Violation ''ST-6'') else returnV ())"

definition verifierConfirmRelations :: "Verifier \<Rightarrow> tx_answers \<Rightarrow> ('r, unit) pass" where
  "verifierConfirmRelations v a =
     (case ta_oids a of
        Inl e \<Rightarrow> failV (ServerError e)
      | Inr (sourceOID, shadowOID) \<Rightarrow>
          bindV (verifierConfirmRelation (sh_SourceOID (vf_shadow v)) sourceOID) (\<lambda>_.
          verifierConfirmRelation (sh_ShadowOID (vf_shadow v)) shadowOID))"

definition verifierConfirmResolution :: "Verifier \<Rightarrow> string + string \<Rightarrow> ('r, unit) pass" where
  "verifierConfirmResolution v answer =
     (if length (sh_Conversions (vf_shadow v)) = 0 then returnV ()
      else case answer of
        Inl e \<Rightarrow> failV (ServerError e)
      | Inr found \<Rightarrow>
          if found \<noteq> sh_ConversionFingerprint (vf_shadow v) then failV (Violation ''CO-9'') else returnV ())"

definition verifierGuard :: "Verifier \<Rightarrow> tx_answers \<Rightarrow> ('r, unit) pass" where
  "verifierGuard v a =
     bindV (setVerifySession a) (\<lambda>_.
     bindV (verifierHoldRelations a) (\<lambda>_.
     bindV (verifierConfirmLock v a) (\<lambda>_.
     bindV (verifierConfirmRelations v a) (\<lambda>_.
     verifierConfirmResolution v (ta_fingerprint a)))))"

definition verifierBegin :: "Verifier \<Rightarrow> tx_answers \<Rightarrow> ('r, unit) pass" where
  "verifierBegin v a = bindV (answerV (ta_begin a)) (\<lambda>_. verifierGuard v a)"

section \<open>Digests\<close>

text \<open>
  A digest statement counts the rows of a key range and hashes them in key order. The rows are
  rendered with their copy columns, the key among them; the source's rows are converted first.
\<close>

definition rowsBetween :: "int64 \<Rightarrow> int64 \<Rightarrow> 'r table \<Rightarrow> 'r table" where
  "rowsBetween lower upper t = filter (\<lambda>(k, _). lower \<le> k \<and> k \<le> upper) t"

definition digestOf :: "('r table \<Rightarrow> string) \<Rightarrow> 'r table \<Rightarrow> Digest" where
  "digestOf hash rows = \<lparr>dg_Rows = int (length rows), dg_Hash = hash (sort_key fst rows)\<rparr>"

record digestColumn =
  ct_name :: string
  ct_typeName :: string

definition shadowColumnTypes :: "Shadow \<Rightarrow> (string \<times> string) list \<Rightarrow> verify_error + digestColumn list" where
  "shadowColumnTypes shadow found =
     (let byName = fold (\<lambda>(n, t) m. m(n \<mapsto> t)) found Map.empty in
      if \<exists>column \<in> set (sh_CopyColumns shadow). byName column = None then Inl (Violation ''ST-6'')
      else Inr (map (\<lambda>column. \<lparr>ct_name = column, ct_typeName = the (byName column)\<rparr>) (sh_CopyColumns shadow)))"

definition castColumn :: "(string list \<Rightarrow> string) \<Rightarrow> (string \<times> string) list \<Rightarrow> digestColumn \<Rightarrow> string" where
  "castColumn san conversions c =
     (case map_of conversions (ct_name c) of
        Some expr \<Rightarrow> ''('' @ expr @ '')::'' @ ct_typeName c
      | None \<Rightarrow> san [ct_name c] @ ''::'' @ ct_typeName c)"

definition digestSQL ::
  "(string list \<Rightarrow> string) \<Rightarrow> CopySwapTarget \<Rightarrow> string \<Rightarrow> string \<Rightarrow> digestColumn list \<Rightarrow> (string \<times> string) list \<Rightarrow> string" where
  "digestSQL san target schema table types conversions =
     (let key = san [target_pkColumn target];
          quote = [char_of (39 :: nat)];
          rowHash = ''pg_catalog.sha256(pg_catalog.convert_to(ROW('' @ join '', '' (map (castColumn san conversions) types)
            @ '')::text, pg_catalog.getdatabaseencoding()))''
      in ''SELECT pg_catalog.count(*),''
         @ '' pg_catalog.encode(pg_catalog.sha256(COALESCE(pg_catalog.string_agg('' @ rowHash @ '', '' @ quote @ quote @ ''::bytea ORDER BY '' @ key
         @ ''), '' @ quote @ quote @ ''::bytea)), '' @ quote @ ''hex'' @ quote @ '')''
         @ '' FROM '' @ san [schema, table]
         @ '' WHERE '' @ key @ '' BETWEEN $1::bigint AND $2::bigint'')"

definition repairSQL :: "(string list \<Rightarrow> string) \<Rightarrow> CopySwapTarget \<Rightarrow> Shadow \<Rightarrow> string" where
  "repairSQL san target shadow =
     ''DELETE FROM '' @ san [sh_Schema shadow, sh_ShadowTable shadow] @ '' WHERE '' @ san [target_pkColumn target]
     @ '' BETWEEN $1::bigint AND $2::bigint''"

definition fenceSQL :: "(string list \<Rightarrow> string) \<Rightarrow> Shadow \<Rightarrow> string" where
  "fenceSQL san shadow = ''LOCK TABLE '' @ san [sh_Schema shadow, sh_ShadowTable shadow] @ '' IN SHARE MODE''"

definition digestSource :: "'r verify_db \<Rightarrow> nat \<Rightarrow> int64 \<Rightarrow> int64 \<Rightarrow> verify_error + Digest" where
  "digestSource db t lower upper =
     (case ta_digest (vd_answers db t) True of
        Some e \<Rightarrow> Inl (ServerError e)
      | None \<Rightarrow>
          (case selectRows (vd_conv db) (rowsBetween lower upper (vd_source db t 0)) of
             Inl e \<Rightarrow> Inl (FromCopier e)
           | Inr rows \<Rightarrow> Inr (digestOf (vd_hash db) rows)))"

definition digestShadow :: "'r verify_db \<Rightarrow> nat \<Rightarrow> 'r table \<Rightarrow> int64 \<Rightarrow> int64 \<Rightarrow> verify_error + Digest" where
  "digestShadow db t shadow lower upper =
     (case ta_digest (vd_answers db t) False of
        Some e \<Rightarrow> Inl (ServerError e)
      | None \<Rightarrow> Inr (digestOf (vd_hash db) (rowsBetween lower upper shadow)))"

definition digestRange :: "'r verify_db \<Rightarrow> nat \<Rightarrow> int64 \<Rightarrow> int64 \<Rightarrow> ('r, Digest \<times> Digest) pass" where
  "digestRange db t lower upper = (\<lambda>st.
     (case digestSource db t lower upper of
        Inl e \<Rightarrow> Inl e
      | Inr source \<Rightarrow>
          (case digestShadow db t (vs_shadow st) lower upper of
             Inl e \<Rightarrow> Inl e
           | Inr shadow \<Rightarrow> Inr (source, shadow)), st))"

definition markPosition :: "tx_answers \<Rightarrow> ('r, LSN) pass" where
  "markPosition a = (case ta_mark a of Inl e \<Rightarrow> failV (ServerError e) | Inr lsn \<Rightarrow> returnV lsn)"

definition digestStatements :: "(string list \<Rightarrow> string) \<Rightarrow> 'r verify_db \<Rightarrow> Verifier \<Rightarrow> ('r, string \<times> string) pass" where
  "digestStatements san db v = onTick db (\<lambda>t.
     let a = vd_answers db t; shadow = vf_shadow v in
     bindV (verifierBegin v a) (\<lambda>_.
     bindV (case ta_types a of
              Inl e \<Rightarrow> failV (ServerError e)
            | Inr found \<Rightarrow> (case shadowColumnTypes shadow found of Inl e \<Rightarrow> failV e | Inr types \<Rightarrow> returnV types)) (\<lambda>types.
     bindV (answerV (ta_commit a)) (\<lambda>_.
     returnV (digestSQL san (vf_target v) (sh_Schema shadow) (sh_SourceTable shadow) types (sh_Conversions shadow),
              digestSQL san (vf_target v) (sh_Schema shadow) (sh_ShadowTable shadow) types [])))))"

definition digestChunk :: "'r verify_db \<Rightarrow> Verifier \<Rightarrow> int64 \<Rightarrow> int64 \<Rightarrow> ('r, Digest \<times> Digest) pass" where
  "digestChunk db v lower upper = onTick db (\<lambda>t.
     let a = vd_answers db t in
     bindV (verifierBegin v a) (\<lambda>_.
     bindV (digestRange db t lower upper) (\<lambda>d.
     bindV (answerV (ta_commit a)) (\<lambda>_.
     returnV d))))"


section \<open>The sweep\<close>

record observation =
  ob_chunk :: Chunk
  ob_source :: Digest
  ob_shadow :: Digest
  ob_lsn :: LSN

record comparison =
  cm_cut :: Chunk
  cm_compared :: Chunk
  cm_source :: Digest
  cm_shadow :: Digest
  cm_lsn :: LSN

definition compareCut :: "'r verify_db \<Rightarrow> nat \<Rightarrow> Watermark \<Rightarrow> bool \<Rightarrow> Chunk \<Rightarrow> ('r, comparison) pass" where
  "compareCut db t through live whole =
     (let a = vd_answers db t; lower = chunk_lower whole; upper = min (chunk_upper whole) (wm_value through) in
      case NewChunk lower upper of
        Inl _ \<Rightarrow> failV (Violation ''CO-1'')
      | Inr compared \<Rightarrow>
          bindV (digestRange db t lower upper) (\<lambda>(source, shadow).
          bindV (if live \<and> source \<noteq> shadow then markPosition a else returnV 0) (\<lambda>lsn.
          bindV (answerV (ta_commit a)) (\<lambda>_.
          returnV \<lparr>cm_cut = whole, cm_compared = compared, cm_source = source, cm_shadow = shadow, cm_lsn = lsn\<rparr>))))"

definition compareNext ::
  "'r verify_db \<Rightarrow> Verifier \<Rightarrow> Watermark \<Rightarrow> bool \<Rightarrow> Chunker \<Rightarrow> ('r, comparison option \<times> Chunker) pass" where
  "compareNext db v through live chunker = onTick db (\<lambda>t.
     let a = vd_answers db t in
     bindV (verifierBegin v a) (\<lambda>_.
       case Next (ta_cut a) chunker of
         Inl e \<Rightarrow> failV (FromCopier e)
       | Inr (None, chunker') \<Rightarrow> bindV (answerV (ta_commit a)) (\<lambda>_. returnV (None, chunker'))
       | Inr (Some whole, chunker') \<Rightarrow>
           bindV (compareCut db t through live whole) (\<lambda>c. returnV (Some c, chunker'))))"

definition countChunk :: "bool \<Rightarrow> comparison \<Rightarrow> Report \<Rightarrow> observation list \<Rightarrow> Report \<times> observation list" where
  "countChunk live c report differing =
     (let report = report\<lparr>rp_Chunks := rp_Chunks report + 1, rp_Rows := add64 (rp_Rows report) (dg_Rows (cm_source c))\<rparr> in
      if cm_source c \<noteq> cm_shadow c
      then if live
        then (report, differing @ [\<lparr>ob_chunk = cm_compared c, ob_source = cm_source c, ob_shadow = cm_shadow c, ob_lsn = cm_lsn c\<rparr>])
        else (report\<lparr>rp_Mismatches := rp_Mismatches report @ [\<lparr>mm_Chunk = cm_compared c, mm_Source = cm_source c, mm_Shadow = cm_shadow c\<rparr>]\<rparr>,
              differing)
      else (report, differing))"

fun sweepLoop ::
  "nat \<Rightarrow> 'r verify_db \<Rightarrow> Verifier \<Rightarrow> Watermark \<Rightarrow> bool \<Rightarrow> Chunker \<Rightarrow> Report \<Rightarrow> observation list \<Rightarrow>
   'r verify_state \<Rightarrow> ((verify_error + Report \<times> observation list) \<times> 'r verify_state) option" where
  "sweepLoop 0 db v through live chunker report differing st = None"
| "sweepLoop (Suc fuel) db v through live chunker report differing st =
     (case compareNext db v through live chunker st of
        (Inl e, st1) \<Rightarrow> Some (Inl e, st1)
      | (Inr (None, _), st1) \<Rightarrow> Some (Inr (report, differing), st1)
      | (Inr (Some c, chunker1), st1) \<Rightarrow>
          let st2 = snd (countCompared (dg_Rows (cm_source c)) st1);
              st3 = (if cm_source c \<noteq> cm_shadow c then snd (countMismatch st2) else st2);
              (report1, differing1) = countChunk live c report differing
          in if chunk_upper (cm_compared c) = wm_value through then Some (Inr (report1, differing1), st3)
             else case Feedback (vd_round db) chunker1 (cm_cut c) (vd_elapsed db (vs_tick st)) of
               Inl e \<Rightarrow> Some (Inl (FromCopier e), st3)
             | Inr chunker2 \<Rightarrow> sweepLoop fuel db v through live chunker2 report1 differing1 st3)"

definition emptyReport :: "Watermark \<Rightarrow> Report" where
  "emptyReport through = \<lparr>rp_Through = through, rp_Chunks = 0, rp_Rows = 0, rp_Mismatches = [], rp_Settled = 0, rp_Unsettled = 0\<rparr>"

definition sweep ::
  "nat \<Rightarrow> 'r verify_db \<Rightarrow> Verifier \<Rightarrow> Watermark \<Rightarrow> bool \<Rightarrow> 'r verify_state \<Rightarrow>
   ((verify_error + Report \<times> observation list) \<times> 'r verify_state) option" where
  "sweep fuel db v through live st =
     (case NewChunker (vf_target v) zeroWatermark (vo_Chunker (vf_opts v)) of
        Inl e \<Rightarrow> Some (Inl (FromCopier e), st)
      | Inr chunker \<Rightarrow> sweepLoop fuel db v through live chunker (emptyReport through) [] st)"

definition lockLost :: "'r verify_db \<Rightarrow> 'r verify_state \<Rightarrow> verify_error option" where
  "lockLost db st = (if vd_lost db (vs_tick st) then Some (Violation ''LK-1'') else None)"

definition passLostOr :: "'r verify_db \<Rightarrow> 'r verify_state \<Rightarrow> verify_error \<Rightarrow> verify_error" where
  "passLostOr db st e = (case lockLost db st of Some lost \<Rightarrow> lost | None \<Rightarrow> e)"

definition verifierPass ::
  "nat \<Rightarrow> (string list \<Rightarrow> string) \<Rightarrow> 'r verify_db \<Rightarrow> Verifier \<Rightarrow> Watermark \<Rightarrow> 'r verify_state \<Rightarrow>
   ((verify_error + Report) \<times> 'r verify_state) option" where
  "verifierPass fuel san db v through st =
     (case digestStatements san db v st of
        (Inl e, st1) \<Rightarrow> Some (Inl e, st1)
      | (Inr _, st1) \<Rightarrow>
          (case sweep fuel db v through False st1 of
             None \<Rightarrow> None
           | Some (Inl e, st2) \<Rightarrow> Some (Inl e, st2)
           | Some (Inr (report, _), st2) \<Rightarrow> Some (Inr report, st2)))"

definition verify ::
  "nat \<Rightarrow> (string list \<Rightarrow> string) \<Rightarrow> 'r verify_db \<Rightarrow> Verifier \<Rightarrow> Watermark \<Rightarrow> 'r verify_state \<Rightarrow>
   ((verify_error + Report) \<times> 'r verify_state) option" where
  "verify fuel san db v through st =
     (if \<not> wm_valid through then Some (Inl ErrNothingLanded, st)
      else case verifierPass fuel san db v through st of
        None \<Rightarrow> None
      | Some (Inl e, st1) \<Rightarrow> Some (Inl (passLostOr db st1 e), st1)
      | Some (Inr report, st1) \<Rightarrow>
          Some (case lockLost db st1 of Some lost \<Rightarrow> Inl lost | None \<Rightarrow> Inr report, st1))"

definition startPass :: "'r verify_state \<Rightarrow> verify_error + 'r verify_state" where
  "startPass st = (if vs_running st then Inl ErrPassRunning else Inr (st\<lparr>vs_running := True, vs_work := noWork\<rparr>))"

definition stopPass :: "'r verify_state \<Rightarrow> 'r verify_state" where
  "stopPass st = st\<lparr>vs_running := False\<rparr>"

definition Verify ::
  "nat \<Rightarrow> (string list \<Rightarrow> string) \<Rightarrow> 'r verify_db \<Rightarrow> Verifier \<Rightarrow> Watermark \<Rightarrow> 'r verify_state \<Rightarrow>
   ((verify_error + Report) \<times> 'r verify_state) option" where
  "Verify fuel san db v through st =
     (case startPass st of
        Inl e \<Rightarrow> Some (Inl e, st)
      | Inr st1 \<Rightarrow> map_option (\<lambda>(r, st2). (r, stopPass st2)) (verify fuel san db v through st1))"

section \<open>The recopy\<close>

fun clearChunks :: "tx_answers \<Rightarrow> nat \<Rightarrow> Mismatch list \<Rightarrow> 'r table \<Rightarrow> verify_error + Repair list \<times> 'r table" where
  "clearChunks a i [] shadow = Inr ([], shadow)"
| "clearChunks a i (m # ms) shadow =
     (case ta_delete a i of
        Some e \<Rightarrow> Inl (ServerError e)
      | None \<Rightarrow>
          let lower = chunk_lower (mm_Chunk m); upper = chunk_upper (mm_Chunk m);
              left = filter (\<lambda>(k, _). \<not> (lower \<le> k \<and> k \<le> upper)) shadow
          in (case clearChunks a (Suc i) ms left of
                Inl e \<Rightarrow> Inl e
              | Inr (repairs, shadow') \<Rightarrow>
                  Inr (\<lparr>rr_Mismatch = m, rr_Removed = int (length shadow) - int (length left), rr_Inserted = 0\<rparr> # repairs, shadow')))"

fun copyChunks :: "'r verify_db \<Rightarrow> nat \<Rightarrow> nat \<Rightarrow> Repair list \<Rightarrow> 'r table \<Rightarrow> verify_error + Repair list \<times> 'r table" where
  "copyChunks db t i [] shadow = Inr ([], shadow)"
| "copyChunks db t i (r # rs) shadow =
     (case ta_copy (vd_answers db t) i of
        Some e \<Rightarrow> Inl (ServerError e)
      | None \<Rightarrow>
          (case Insert (vd_conv db) (vd_clash db) (chunk_lower (mm_Chunk (rr_Mismatch r))) (chunk_upper (mm_Chunk (rr_Mismatch r)))
                  (vd_source db t i) shadow of
             Inl e \<Rightarrow> Inl (FromCopier e)
           | Inr (inserted, shadow1) \<Rightarrow>
               (case copyChunks db t (Suc i) rs shadow1 of
                  Inl e \<Rightarrow> Inl e
                | Inr (repairs, shadow2) \<Rightarrow> Inr (r\<lparr>rr_Inserted := inserted\<rparr> # repairs, shadow2))))"

definition recopyIn :: "'r verify_db \<Rightarrow> Verifier \<Rightarrow> nat \<Rightarrow> Mismatch list \<Rightarrow> ('r, Repair list \<times> 'r table) pass" where
  "recopyIn db v t mismatches = (\<lambda>st.
     case clearChunks (vd_answers db t) 0 mismatches (vs_shadow st) of
       Inl e \<Rightarrow> (Inl e, st)
     | Inr (cleared, shadow1) \<Rightarrow>
         (case copyChunks db t 0 cleared shadow1 of
            Inl e \<Rightarrow> (Inl e, st)
          | Inr (repairs, shadow2) \<Rightarrow>
              bindV (verifierConfirmResolution v (ta_refingerprint (vd_answers db t))) (\<lambda>_. returnV (repairs, shadow2)) st))"

definition commitShadow :: "tx_answers \<Rightarrow> 'r table \<Rightarrow> ('r, unit) pass" where
  "commitShadow a shadow = (\<lambda>st.
     case ta_commit a of
       Some e \<Rightarrow> (Inl (ServerError e), if ta_applied a then st\<lparr>vs_shadow := shadow\<rparr> else st)
     | None \<Rightarrow> (Inr (), st\<lparr>vs_shadow := shadow\<rparr>))"

definition recopy :: "'r verify_db \<Rightarrow> Verifier \<Rightarrow> Mismatch list \<Rightarrow> ('r, Repair list) pass" where
  "recopy db v mismatches = onTick db (\<lambda>t.
     let a = vd_answers db t in
     bindV (verifierBegin v a) (\<lambda>_.
     bindV (recopyIn db v t mismatches) (\<lambda>(repairs, shadow).
     bindV (commitShadow a shadow) (\<lambda>_.
     bindV (countRepaired (length repairs)) (\<lambda>_.
     returnV repairs)))))"

definition reread :: "'r verify_db \<Rightarrow> Verifier \<Rightarrow> Repair \<Rightarrow> ('r, unit) pass" where
  "reread db v repair =
     (let chunk = mm_Chunk (rr_Mismatch repair) in
      bindV (digestChunk db v (chunk_lower chunk) (chunk_upper chunk)) (\<lambda>(source, shadow).
      bindV countReread (\<lambda>_.
      if source \<noteq> shadow
      then failV (RepairError repair \<lparr>mm_Chunk = chunk, mm_Source = source, mm_Shadow = shadow\<rparr>)
      else returnV ())))"

fun rereadAll :: "'r verify_db \<Rightarrow> Verifier \<Rightarrow> Repair list \<Rightarrow> ('r, unit) pass" where
  "rereadAll db v [] = returnV ()"
| "rereadAll db v (r # rs) = bindV (reread db v r) (\<lambda>_. rereadAll db v rs)"

definition repairAll ::
  "(string list \<Rightarrow> string) \<Rightarrow> 'r verify_db \<Rightarrow> Verifier \<Rightarrow> Mismatch list \<Rightarrow> 'r verify_state \<Rightarrow>
   Repair list \<times> verify_error option \<times> 'r verify_state" where
  "repairAll san db v mismatches st =
     (case digestStatements san db v st of
        (Inl e, st1) \<Rightarrow> ([], Some (passLostOr db st1 e), st1)
      | (Inr _, st1) \<Rightarrow>
          (case recopy db v mismatches st1 of
             (Inl e, st2) \<Rightarrow> ([], Some (passLostOr db st2 e), st2)
           | (Inr repairs, st2) \<Rightarrow>
               (case rereadAll db v repairs st2 of
                  (Inl e, st3) \<Rightarrow> (repairs, Some (passLostOr db st3 e), st3)
                | (Inr _, st3) \<Rightarrow> (repairs, lockLost db st3, st3))))"

definition recopyAll :: "'r verify_db \<Rightarrow> Verifier \<Rightarrow> Mismatch list \<Rightarrow> 'r verify_state \<Rightarrow> Repair list \<times> verify_error option \<times> 'r verify_state" where
  "recopyAll db v mismatches st =
     (case recopy db v mismatches st of
        (Inl e, st1) \<Rightarrow> ([], Some (passLostOr db st1 e), st1)
      | (Inr repairs, st1) \<Rightarrow> (repairs, lockLost db st1, st1))"


section \<open>Proofs and outcomes\<close>

record VerifiedShadow =
  vp_schema :: string
  vp_table :: string
  vp_shadow :: string
  vp_sourceOID :: "32 word"
  vp_shadowOID :: "32 word"
  vp_watermark :: Watermark
  vp_verifiedAt :: int64
  vp_live :: bool

definition newVerifiedShadow :: "Shadow \<Rightarrow> Watermark \<Rightarrow> int64 \<Rightarrow> bool \<Rightarrow> VerifiedShadow" where
  "newVerifiedShadow shadow watermark verifiedAt live =
     \<lparr>vp_schema = sh_Schema shadow, vp_table = sh_SourceTable shadow, vp_shadow = sh_ShadowTable shadow,
      vp_sourceOID = sh_SourceOID shadow, vp_shadowOID = sh_ShadowOID shadow, vp_watermark = watermark,
      vp_verifiedAt = verifiedAt, vp_live = live\<rparr>"

definition noVerifiedShadow :: VerifiedShadow where
  "noVerifiedShadow =
     \<lparr>vp_schema = '''', vp_table = '''', vp_shadow = '''', vp_sourceOID = 0, vp_shadowOID = 0, vp_watermark = zeroWatermark,
      vp_verifiedAt = 0, vp_live = False\<rparr>"

record Outcome =
  oc_Report :: Report
  oc_Repairs :: "Repair list"
  oc_Collisions :: int64
  oc_clean :: Watermark
  oc_verified :: VerifiedShadow

definition mkOutcome :: "Report \<Rightarrow> Repair list \<Rightarrow> Outcome" where
  "mkOutcome report repairs =
     \<lparr>oc_Report = report, oc_Repairs = repairs, oc_Collisions = 0, oc_clean = zeroWatermark, oc_verified = noVerifiedShadow\<rparr>"

definition Outcome_Clean :: "Outcome \<Rightarrow> bool" where
  "Outcome_Clean oc = wm_valid (oc_clean oc)"

definition CleanWatermark :: "Outcome \<Rightarrow> Watermark option" where
  "CleanWatermark oc = (if wm_valid (oc_clean oc) then Some (oc_clean oc) else None)"

definition Outcome_VerifiedShadow :: "Outcome \<Rightarrow> VerifiedShadow option" where
  "Outcome_VerifiedShadow oc = (if vp_table (oc_verified oc) \<noteq> '''' then Some (oc_verified oc) else None)"

definition prove :: "'r verify_db \<Rightarrow> Verifier \<Rightarrow> Report \<Rightarrow> bool \<Rightarrow> nat \<Rightarrow> Outcome" where
  "prove db v report live t =
     (let outcome = (mkOutcome report [])\<lparr>oc_clean := rp_Through report\<rparr> in
      if Complete (rp_Through report)
      then outcome\<lparr>oc_verified := newVerifiedShadow (vf_shadow v) (rp_Through report) (vd_now db t) live\<rparr>
      else outcome)"

section \<open>A pass under a policy\<close>

definition recopyCollided :: "verify_error \<Rightarrow> bool" where
  "recopyCollided e =
     (case e of
        ServerError code \<Rightarrow> code = sqlstateUniqueViolation \<or> code = sqlstateExclusionViolation
      | FromCopier (PgError code) \<Rightarrow> code = sqlstateUniqueViolation \<or> code = sqlstateExclusionViolation
      | _ \<Rightarrow> False)"

text \<open>\<open>left\<close> counts the attempts after this one; the code stops when the attempt equals \<open>RecopyAttempts\<close>.\<close>

fun recopyAttempts ::
  "nat \<Rightarrow> nat \<Rightarrow> (string list \<Rightarrow> string) \<Rightarrow> 'r verify_db \<Rightarrow> Verifier \<Rightarrow> Watermark \<Rightarrow> Outcome \<Rightarrow> 'r verify_state \<Rightarrow>
   (Outcome \<times> verify_error option \<times> 'r verify_state) option" where
  "recopyAttempts left fuel san db v through outcome st =
     (case recopyAll db v (rp_Mismatches (oc_Report outcome)) st of
        (repairs, None, st1) \<Rightarrow> Some (outcome\<lparr>oc_Repairs := repairs\<rparr>, None, st1)
      | (repairs, Some e, st1) \<Rightarrow>
          let outcome1 = outcome\<lparr>oc_Repairs := repairs\<rparr> in
          if \<not> recopyCollided e then Some (outcome1, Some e, st1)
          else let outcome2 = outcome1\<lparr>oc_Collisions := oc_Collisions outcome1 + 1\<rparr> in
            (case left of
               0 \<Rightarrow> Some (outcome2, Some e, st1)
             | Suc left' \<Rightarrow>
                 (case verify fuel san db v through st1 of
                    None \<Rightarrow> None
                  | Some (Inl e2, st2) \<Rightarrow> Some (outcome2, Some e2, st2)
                  | Some (Inr compared, st2) \<Rightarrow>
                      if Report_Clean compared
                      then Some ((prove db v compared False (vs_tick st2))\<lparr>oc_Collisions := oc_Collisions outcome2\<rparr>, None, st2)
                      else recopyAttempts left' fuel san db v through (outcome2\<lparr>oc_Report := compared\<rparr>) st2)))"

definition recopyUntilClear ::
  "nat \<Rightarrow> (string list \<Rightarrow> string) \<Rightarrow> 'r verify_db \<Rightarrow> Verifier \<Rightarrow> Watermark \<Rightarrow> Report \<Rightarrow> 'r verify_state \<Rightarrow>
   (Outcome \<times> verify_error option \<times> 'r verify_state) option" where
  "recopyUntilClear fuel san db v through report st =
     recopyAttempts (nat (vo_RecopyAttempts (vf_opts v) - 1)) fuel san db v through (mkOutcome report []) st"

definition zeroReport :: Report where
  "zeroReport = emptyReport zeroWatermark"

definition actOnReport ::
  "nat \<Rightarrow> (string list \<Rightarrow> string) \<Rightarrow> 'r verify_db \<Rightarrow> Verifier \<Rightarrow> Watermark \<Rightarrow> DivergencePolicy \<Rightarrow> Report \<Rightarrow> 'r verify_state \<Rightarrow>
   (Outcome \<times> verify_error option \<times> 'r verify_state) option" where
  "actOnReport fuel san db v through policy report st =
     (if Report_Clean report then Some (prove db v report False (vs_tick st), None, st)
      else case policy of
        DivergenceAbort \<Rightarrow> Some (mkOutcome report [], Some (DivergenceError report), st)
      | DivergenceRepair \<Rightarrow>
          (case repairAll san db v (rp_Mismatches report) st of
             (repairs, e, st1) \<Rightarrow> Some (mkOutcome report repairs, e, st1))
      | DivergenceRecopy \<Rightarrow> recopyUntilClear fuel san db v through report st
      | DivergenceUnnamed _ \<Rightarrow> Some (mkOutcome report [], Some (Violation ''CO-3''), st))"

definition Check ::
  "nat \<Rightarrow> (string list \<Rightarrow> string) \<Rightarrow> 'r verify_db \<Rightarrow> Verifier \<Rightarrow> Watermark \<Rightarrow> DivergencePolicy \<Rightarrow> 'r verify_state \<Rightarrow>
   (Outcome \<times> verify_error option \<times> 'r verify_state) option" where
  "Check fuel san db v through policy st =
     (case policyValidate policy of
        Some e \<Rightarrow> Some (mkOutcome zeroReport [], Some e, st)
      | None \<Rightarrow>
          (case startPass st of
             Inl e \<Rightarrow> Some (mkOutcome zeroReport [], Some e, st)
           | Inr st1 \<Rightarrow>
               map_option (\<lambda>(oc, e, st2). (oc, e, stopPass st2))
                 (case verify fuel san db v through st1 of
                    None \<Rightarrow> None
                  | Some (Inl e, st2) \<Rightarrow> Some (mkOutcome zeroReport [], Some e, st2)
                  | Some (Inr report, st2) \<Rightarrow> actOnReport fuel san db v through policy report st2)))"


section \<open>Read-only transactions\<close>

named_theorems still_intro \<open>steps that leave the pass's state alone\<close>

definition still :: "('r, 'a) pass \<Rightarrow> bool" where
  "still m \<longleftrightarrow> (\<forall>st. snd (m st) = st)"

lemma still_return [still_intro]: "still (returnV a)" and still_fail [still_intro]: "still (failV e)"
  by (simp_all add: still_def returnV_def failV_def)

lemma still_bind [still_intro]: "still m \<Longrightarrow> (\<And>a. still (f a)) \<Longrightarrow> still (bindV m f)"
  by (auto simp: still_def bindV_def split: prod.splits sum.splits) (metis snd_conv)+

lemma still_answer [still_intro]: "still (answerV a)"
  by (cases a) (simp_all add: answerV_def still_intro)

lemma still_resolution [still_intro]: "still (verifierConfirmResolution v a)"
  by (auto simp: verifierConfirmResolution_def intro!: still_intro split: sum.splits)

lemma still_confirms [still_intro]: "still (verifierHoldRelations a)" "still (verifierConfirmLock v a)"
    "still (verifierConfirmRelation p f)"
  by (auto simp: verifierHoldRelations_def verifierConfirmLock_def verifierConfirmRelation_def intro!: still_intro
      split: option.splits sum.splits)

lemma still_relations [still_intro]: "still (verifierConfirmRelations v a)"
  by (auto simp: verifierConfirmRelations_def intro!: still_intro split: sum.splits)

lemma still_begin [still_intro]: "still (verifierBegin v a)"
  unfolding verifierBegin_def verifierGuard_def setVerifySession_def by (intro still_intro)

lemma still_digestRange [still_intro]: "still (digestRange db t lower upper)"
  by (simp add: still_def digestRange_def)

lemma still_mark [still_intro]: "still (markPosition a)"
  by (cases "ta_mark a") (simp_all add: markPosition_def still_intro)

lemma still_state: "still m \<Longrightarrow> m st = (r, st') \<Longrightarrow> st' = st"
  unfolding still_def by (metis snd_conv)

lemma bindV_Inr: "bindV m f st = (Inr b, st2) \<longleftrightarrow> (\<exists>a st1. m st = (Inr a, st1) \<and> f a st1 = (Inr b, st2))"
  by (auto simp: bindV_def split: prod.splits sum.splits)

lemma answerV_Inr: "answerV a st = (Inr u, st') \<longleftrightarrow> a = None \<and> st' = st"
  by (cases a) (auto simp: answerV_def returnV_def failV_def)

lemma returnV_Inr: "returnV a st = (Inr b, st') \<longleftrightarrow> b = a \<and> st' = st"
  by (auto simp: returnV_def)

lemma failV_Inr: "failV e st \<noteq> (Inr b, st')"
  by (simp add: failV_def)

lemmas pass_Inr = bindV_Inr answerV_Inr returnV_Inr failV_Inr

text \<open>What others make of the shadow from one tick to another.\<close>

definition drift :: "'r verify_db \<Rightarrow> 'r table \<Rightarrow> nat \<Rightarrow> nat \<Rightarrow> 'r table" where
  "drift db shadow t t' = fold (vd_between db) [t..<t'] shadow"

lemma drift_same [simp]: "drift db shadow t t = shadow"
  by (simp add: drift_def)

lemma drift_Suc: "t \<le> t' \<Longrightarrow> drift db shadow t (Suc t') = vd_between db t' (drift db shadow t t')"
  by (simp add: drift_def)

lemma drift_trans: "t \<le> t1 \<Longrightarrow> t1 \<le> t2 \<Longrightarrow> drift db (drift db shadow t t1) t1 t2 = drift db shadow t t2"
  using upt_add_eq_append [of t t1 "t2 - t1"] by (simp add: drift_def)

definition reads :: "'r verify_db \<Rightarrow> 'r verify_state \<Rightarrow> 'r verify_state \<Rightarrow> bool" where
  "reads db st st' \<longleftrightarrow> vs_tick st \<le> vs_tick st' \<and> vs_shadow st' = drift db (vs_shadow st) (vs_tick st) (vs_tick st')
     \<and> vs_held st' = vs_held st \<and> vs_running st' = vs_running st \<and> vs_reads st \<le> vs_reads st'"

lemma reads_refl [simp]: "reads db st st"
  by (simp add: reads_def)

lemma reads_trans: "reads db st st1 \<Longrightarrow> reads db st1 st2 \<Longrightarrow> reads db st st2"
  unfolding reads_def by (auto simp: drift_trans)

lemma reads_onTick:
  assumes "\<And>t. still (f t)"
  shows "reads db st (snd (onTick db f st))" "vs_tick (snd (onTick db f st)) = Suc (vs_tick st)"
  using assms by (simp_all add: onTick_def still_def reads_def drift_Suc)

lemma reads_work [simp]: "reads db st (st'\<lparr>vs_work := w\<rparr>) = reads db st st'" "reads db (st\<lparr>vs_work := w\<rparr>) st' = reads db st st'"
  by (simp_all add: reads_def)

lemma countWork_sel: "fst (countWork f st) = Inr ()" "snd (countWork f st) = st\<lparr>vs_work := f (vs_work st)\<rparr>"
  by (simp_all add: countWork_def)

section \<open>What a comparison read\<close>

definition honest :: "'r verify_db \<Rightarrow> nat \<Rightarrow> 'r table \<Rightarrow> Chunk \<Rightarrow> Digest \<Rightarrow> Digest \<Rightarrow> bool" where
  "honest db t shadow chunk source other \<longleftrightarrow>
     (\<exists>rows. selectRows (vd_conv db) (rowsBetween (chunk_lower chunk) (chunk_upper chunk) (vd_source db t 0)) = Inr rows
        \<and> source = digestOf (vd_hash db) rows)
     \<and> other = digestOf (vd_hash db) (rowsBetween (chunk_lower chunk) (chunk_upper chunk) shadow)"

lemma digestRange_Inr:
  assumes "digestRange db t lower upper st = (Inr (source, shadow), st')" "chunk_lower chunk = lower" "chunk_upper chunk = upper"
  shows "st' = st" "honest db t (vs_shadow st) chunk source shadow"
  using assms by (auto simp: digestRange_def digestSource_def digestShadow_def honest_def split: sum.splits option.splits)

lemma still_compareCut [still_intro]: "still (compareCut db t through live ch)"
  by (auto simp: compareCut_def Let_def intro!: still_intro split: sum.splits)

lemma compareCut_Inr:
  assumes "compareCut db t through live ch st = (Inr c, st')"
  shows "cm_cut c = ch" "chunk_lower (cm_compared c) = chunk_lower ch"
    "chunk_upper (cm_compared c) = min (chunk_upper ch) (wm_value through)"
    "chunk_lower (cm_compared c) \<le> chunk_upper (cm_compared c)"
    "honest db t (vs_shadow st) (cm_compared c) (cm_source c) (cm_shadow c)"
    "live \<Longrightarrow> cm_source c \<noteq> cm_shadow c \<Longrightarrow> ta_mark (vd_answers db t) = Inr (cm_lsn c)"
proof -
  let ?lo = "chunk_lower ch" and ?up = "min (chunk_upper ch) (wm_value through)" and ?a = "vd_answers db t"
  obtain compared where new: "NewChunk ?lo ?up = Inr compared"
    using assms by (cases "NewChunk ?lo ?up") (simp_all add: compareCut_def Let_def failV_def)
  from assms new obtain d st1 where dig0: "digestRange db t ?lo ?up st = (Inr d, st1)"
      and rest: "(\<lambda>(source, shadow). bindV (if live \<and> source \<noteq> shadow then markPosition ?a else returnV 0) (\<lambda>lsn.
          bindV (answerV (ta_commit ?a)) (\<lambda>_. returnV \<lparr>cm_cut = ch, cm_compared = compared, cm_source = source,
            cm_shadow = shadow, cm_lsn = lsn\<rparr>))) d st1 = (Inr c, st')"
    by (auto simp: compareCut_def Let_def bindV_Inr)
  obtain source shadow where d: "d = (source, shadow)" by (cases d)
  have dig: "digestRange db t ?lo ?up st = (Inr (source, shadow), st1)" using dig0 d by simp
  obtain lsn st2 where mark: "(if live \<and> source \<noteq> shadow then markPosition ?a else returnV 0) st1 = (Inr lsn, st2)"
      and c: "c = \<lparr>cm_cut = ch, cm_compared = compared, cm_source = source, cm_shadow = shadow, cm_lsn = lsn\<rparr>"
    using rest d by (auto simp: pass_Inr)
  have compared: "chunk_lower compared = chunk_lower ch" "chunk_upper compared = min (chunk_upper ch) (wm_value through)"
      "chunk_lower compared \<le> chunk_upper compared"
    using new by (auto simp: NewChunk_def split: if_splits)
  show "cm_cut c = ch" "chunk_lower (cm_compared c) = chunk_lower ch"
    "chunk_upper (cm_compared c) = min (chunk_upper ch) (wm_value through)"
    "chunk_lower (cm_compared c) \<le> chunk_upper (cm_compared c)"
    using compared by (simp_all add: c)
  show "honest db t (vs_shadow st) (cm_compared c) (cm_source c) (cm_shadow c)"
    using digestRange_Inr(2) [OF dig] compared by (simp add: c)
  show "live \<Longrightarrow> cm_source c \<noteq> cm_shadow c \<Longrightarrow> ta_mark (vd_answers db t) = Inr (cm_lsn c)"
    using mark by (auto simp: c markPosition_def returnV_def failV_def split: sum.splits)
qed


lemma compareNext_reads:
  "reads db st (snd (compareNext db v through live chunker st))"
  "vs_tick (snd (compareNext db v through live chunker st)) = Suc (vs_tick st)"
  unfolding compareNext_def Let_def
  by (rule reads_onTick, auto intro!: still_intro split: sum.splits option.splits prod.splits)+

lemma compareNext_Inr:
  assumes "compareNext db v through live chunker st = (Inr (Some c, chunker'), st')"
  shows "Next (ta_cut (vd_answers db (vs_tick st))) chunker = Inr (Some (cm_cut c), chunker')"
    "chunk_lower (cm_compared c) = chunk_lower (cm_cut c)"
    "chunk_upper (cm_compared c) = min (chunk_upper (cm_cut c)) (wm_value through)"
    "chunk_lower (cm_compared c) \<le> chunk_upper (cm_compared c)"
    "honest db (vs_tick st) (drift db (vs_shadow st) (vs_tick st) (Suc (vs_tick st))) (cm_compared c) (cm_source c) (cm_shadow c)"
    "live \<Longrightarrow> cm_source c \<noteq> cm_shadow c \<Longrightarrow> ta_mark (vd_answers db (vs_tick st)) = Inr (cm_lsn c)"
proof -
  let ?t = "vs_tick st" and ?st = "st\<lparr>vs_tick := Suc (vs_tick st), vs_shadow := vd_between db (vs_tick st) (vs_shadow st)\<rparr>"
  obtain st1 where "verifierBegin v (vd_answers db ?t) ?st = (Inr (), st1)" and
      cmp: "(case Next (ta_cut (vd_answers db ?t)) chunker of
         Inl e \<Rightarrow> failV (FromCopier e)
       | Inr (None, chunker') \<Rightarrow> bindV (answerV (ta_commit (vd_answers db ?t))) (\<lambda>_. returnV (None, chunker'))
       | Inr (Some ch, chunker') \<Rightarrow> bindV (compareCut db ?t through live ch) (\<lambda>c. returnV (Some c, chunker'))) st1
       = (Inr (Some c, chunker'), st')"
    using assms by (auto simp: compareNext_def onTick_def Let_def bindV_Inr)
  moreover from this have "st1 = ?st" using still_state [OF still_begin] by blast
  ultimately obtain ch where next': "Next (ta_cut (vd_answers db ?t)) chunker = Inr (Some ch, chunker')"
      and cut: "compareCut db ?t through live ch ?st = (Inr c, st')"
    by (auto simp: pass_Inr split: sum.splits option.splits prod.splits)
  note cc = compareCut_Inr [OF cut]
  show "Next (ta_cut (vd_answers db (vs_tick st))) chunker = Inr (Some (cm_cut c), chunker')" using next' cc(1) by simp
  show "chunk_lower (cm_compared c) = chunk_lower (cm_cut c)" "chunk_lower (cm_compared c) \<le> chunk_upper (cm_compared c)"
    "chunk_upper (cm_compared c) = min (chunk_upper (cm_cut c)) (wm_value through)"
    using cc(1-4) by simp_all
  show "honest db (vs_tick st) (drift db (vs_shadow st) (vs_tick st) (Suc (vs_tick st))) (cm_compared c) (cm_source c) (cm_shadow c)"
    using cc(5) by (simp add: drift_Suc)
  show "live \<Longrightarrow> cm_source c \<noteq> cm_shadow c \<Longrightarrow> ta_mark (vd_answers db (vs_tick st)) = Inr (cm_lsn c)"
    using cc(6) .
qed

definition mismatchOf :: "comparison \<Rightarrow> Mismatch" where
  "mismatchOf c = \<lparr>mm_Chunk = cm_compared c, mm_Source = cm_source c, mm_Shadow = cm_shadow c\<rparr>"

definition observationOf :: "comparison \<Rightarrow> observation" where
  "observationOf c = \<lparr>ob_chunk = cm_compared c, ob_source = cm_source c, ob_shadow = cm_shadow c, ob_lsn = cm_lsn c\<rparr>"

abbreviation differs :: "comparison \<Rightarrow> bool" where
  "differs c \<equiv> cm_source c \<noteq> cm_shadow c"

definition compared :: "'r verify_db \<Rightarrow> bool \<Rightarrow> 'r verify_state \<Rightarrow> 'r verify_state \<Rightarrow> comparison \<Rightarrow> bool" where
  "compared db live st st' c \<longleftrightarrow> (\<exists>t. vs_tick st \<le> t \<and> t < vs_tick st'
     \<and> honest db t (drift db (vs_shadow st) (vs_tick st) (Suc t)) (cm_compared c) (cm_source c) (cm_shadow c)
     \<and> (live \<and> differs c \<longrightarrow> ta_mark (vd_answers db t) = Inr (cm_lsn c)))"

lemma compared_later:
  assumes "reads db st st1" "compared db live st1 st' c"
  shows "compared db live st st' c"
proof -
  obtain t where t: "vs_tick st1 \<le> t" "t < vs_tick st'"
      "honest db t (drift db (vs_shadow st1) (vs_tick st1) (Suc t)) (cm_compared c) (cm_source c) (cm_shadow c)"
      "live \<and> differs c \<longrightarrow> ta_mark (vd_answers db t) = Inr (cm_lsn c)"
    using assms(2) by (auto simp: compared_def)
  have "drift db (vs_shadow st1) (vs_tick st1) (Suc t) = drift db (vs_shadow st) (vs_tick st) (Suc t)"
    using assms(1) t(1) by (simp add: reads_def drift_trans)
  then show ?thesis using t assms(1) unfolding compared_def reads_def by (intro exI [of _ t]) auto
qed

lemma compared_sooner: "compared db live st st1 c \<Longrightarrow> vs_tick st1 \<le> vs_tick st' \<Longrightarrow> compared db live st st' c"
  unfolding compared_def by (meson order_less_le_trans)

definition swept :: "bool \<Rightarrow> comparison list \<Rightarrow> Report \<Rightarrow> observation list \<Rightarrow> Report \<Rightarrow> observation list \<Rightarrow> bool" where
  "swept live cs report differing report' differing' \<longleftrightarrow>
     rp_Through report' = rp_Through report \<and> rp_Settled report' = rp_Settled report \<and> rp_Unsettled report' = rp_Unsettled report
     \<and> rp_Mismatches report' = rp_Mismatches report @ (if live then [] else map mismatchOf (filter differs cs))
     \<and> differing' = differing @ (if live then map observationOf (filter differs cs) else [])"

lemma swept_Cons:
  assumes "countChunk live c report differing = (report1, differing1)" "swept live cs report1 differing1 report' differing'"
  shows "swept live (c # cs) report differing report' differing'"
  using assms by (auto simp: swept_def countChunk_def Let_def mismatchOf_def observationOf_def split: if_splits)

lemma swept_Nil: "swept live [] report differing report differing"
  by (simp add: swept_def)

lemma cut_keys_through:
  assumes "chunker_inv c" "\<not> chunker_done c" "chunker_next c \<le> w" "is_int64 w" "chunk_lower ch = chunker_next c" "chunk_upper ch = w"
  shows "cut_keys c \<union> chunk_keys ch = {k. MinInt64 \<le> k \<and> k \<le> w}"
  using assms by (auto simp: cut_keys_def chunk_keys_def chunker_inv_def is_int64_def)


definition cuts_ok :: "'r verify_db \<Rightarrow> bool" where
  "cuts_ok db \<longleftrightarrow> (\<forall>t. db_ok (ta_cut (vd_answers db t)))"

definition ahead :: "Chunker \<Rightarrow> Watermark \<Rightarrow> bool" where
  "ahead chunker through \<longleftrightarrow> chunker_inv chunker \<and> \<not> chunker_done chunker \<and> wm_valid through \<and> is_int64 (wm_value through)
     \<and> chunker_next chunker \<le> wm_value through"

lemma ahead_step:
  assumes "ahead chunker through" "cuts_ok db" "Next (ta_cut (vd_answers db t)) chunker = Inr (Some ch, chunker1)"
    and "chunk_upper ch < wm_value through" "Feedback rnd chunker1 ch e = Inr chunker2"
  shows "ahead chunker2 through" "cut_keys chunker2 = cut_keys chunker \<union> chunk_keys ch" "chunker_next chunker < chunker_next chunker2"
proof -
  have inv: "chunker_inv chunker" and db: "db_ok (ta_cut (vd_answers db t))" using assms(1,2) by (auto simp: ahead_def cuts_ok_def)
  note nc = Next_cut [OF inv db assms(3)] and fb = Feedback_cursor [OF assms(5)]
  have up: "chunk_upper ch \<noteq> MaxInt64" using assms(1,4) by (auto simp: ahead_def is_int64_def)
  have adv: "chunker1 = chunkerAdvance chunker (chunk_upper ch)"
    using assms(3) by (auto simp: Next_def Let_def NewChunk_def split: if_splits sum.splits)
  have nxt: "chunker_next chunker1 = chunk_upper ch + 1" "\<not> chunker_done chunker1"
    using up nc(6,7) by (simp_all add: adv chunkerAdvance_def succ64_exact)
  show "ahead chunker2 through" using assms(1,4) nxt nc(1) fb by (simp add: ahead_def)
  show "cut_keys chunker2 = cut_keys chunker \<union> chunk_keys ch" using nc(8) fb by simp
  show "chunker_next chunker < chunker_next chunker2" using nxt fb nc(2,4) by simp
qed

lemma sweepLoop_spec:
  assumes "sweepLoop fuel db v through live chunker report differing st = Some (Inr (report', differing'), st')"
    and "ahead chunker through" "cuts_ok db"
  shows "reads db st st' \<and> (\<exists>cs. covers (cut_keys chunker) (map cm_compared cs) (wm_keys through)
    \<and> (\<forall>c \<in> set cs. compared db live st st' c) \<and> swept live cs report differing report' differing')"
  using assms
proof (induction fuel arbitrary: chunker report differing st)
  case (Suc fuel)
  let ?next = "compareNext db v through live chunker st"
  obtain r st1 where step: "?next = (r, st1)" by (cases ?next)
  have reads1: "reads db st st1" "vs_tick st1 = Suc (vs_tick st)"
    using compareNext_reads [where db = db and st = st and v = v and through = through and live = live and chunker = chunker] step
    by simp_all
  have nd: "\<not> chunker_done chunker" "chunker_inv chunker" using Suc.prems(2) by (auto simp: ahead_def)
  obtain c chunker1 where r: "r = Inr (Some c, chunker1)"
  proof (cases r)
    case (Inr p)
    obtain co ch where p: "p = (co, ch)" by (cases p)
    show ?thesis
    proof (cases co)
      case None
      then have "Next (ta_cut (vd_answers db (vs_tick st))) chunker = Inr (None, ch)"
        using step Inr p by (auto simp: compareNext_def onTick_def Let_def pass_Inr split: sum.splits option.splits prod.splits)
      then show ?thesis using nd by (simp add: Next_none)
    qed (use that Inr p in blast)
  qed (use Suc.prems(1) step in simp)
  note cn = compareNext_Inr [OF step [unfolded r]]
  let ?st2 = "snd (countCompared (dg_Rows (cm_source c)) st1)"
  let ?st3 = "if differs c then snd (countMismatch ?st2) else ?st2"
  obtain report1 differing1 where counted: "countChunk live c report differing = (report1, differing1)" by fastforce
  have reads3: "reads db st ?st3" "vs_tick ?st3 = vs_tick st1"
    using reads1(1) by (simp_all add: countCompared_def countMismatch_def countWork_sel)
  have db: "db_ok (ta_cut (vd_answers db (vs_tick st)))" using Suc.prems(3) by (simp add: cuts_ok_def)
  note nc = Next_cut [OF nd(2) db cn(1)]
  have here: "compared db live st ?st3 c"
    using cn(5,6) reads3(2) reads1(2) unfolding compared_def by (intro exI [of _ "vs_tick st"]) auto
  have keys: "chunk_keys (cm_compared c) \<inter> cut_keys chunker = {}" "chunk_keys (cm_compared c) \<noteq> {}"
    using cn(2,4) nd nc(4) by (auto simp: cut_keys_def chunk_keys_def)
  show ?case
  proof (cases "chunk_upper (cm_compared c) = wm_value through")
    case True
    then have end': "st' = ?st3" "report' = report1" "differing' = differing1"
      using Suc.prems(1) step r counted by (auto simp: Let_def)
    have "cut_keys chunker \<union> chunk_keys (cm_compared c) = wm_keys through"
      using Suc.prems(2) True cn(2) nc(4) cut_keys_through [OF nd(2,1), of "wm_value through" "cm_compared c"]
      by (auto simp: ahead_def wm_keys_def)
    then have "covers (cut_keys chunker) (map cm_compared [c]) (wm_keys through)"
      using covers_Cons [of "cut_keys chunker" "cm_compared c" "[]" "wm_keys through"] keys by (simp add: covers_def)
    then show ?thesis using reads3(1) here swept_Cons [OF counted swept_Nil] unfolding end' by (intro conjI exI [of _ "[c]"]) auto
  next
    case False
    then obtain chunker2 where fb: "Feedback (vd_round db) chunker1 (cm_cut c) (vd_elapsed db (vs_tick st)) = Inr chunker2"
        and rest: "sweepLoop fuel db v through live chunker2 report1 differing1 ?st3 = Some (Inr (report', differing'), st')"
      using Suc.prems(1) step r counted by (auto simp: Let_def split: sum.splits)
    have lt: "chunk_upper (cm_cut c) < wm_value through" using False cn(3) by auto
    note ah = ahead_step [OF Suc.prems(2,3) cn(1) lt fb]
    have same: "chunk_keys (cm_cut c) = chunk_keys (cm_compared c)" using cn(2,3) lt by (simp add: chunk_keys_def)
    from Suc.IH [OF rest ah(1) Suc.prems(3)] obtain cs where cs: "reads db ?st3 st'"
        "covers (cut_keys chunker2) (map cm_compared cs) (wm_keys through)"
        "\<forall>c \<in> set cs. compared db live ?st3 st' c" "swept live cs report1 differing1 report' differing'"
      by blast
    have "covers (cut_keys chunker) (map cm_compared (c # cs)) (wm_keys through)"
      using covers_Cons [of "cut_keys chunker" "cm_compared c" "map cm_compared cs" "wm_keys through"] cs(2) ah(2) same keys by simp
    moreover have "compared db live st st' c" using here cs(1) by (auto intro: compared_sooner simp: reads_def)
    ultimately show ?thesis
      using reads_trans [OF reads3(1) cs(1)] cs(3,4) compared_later [OF reads3(1)] swept_Cons [OF counted cs(4)]
      by (intro conjI exI [of _ "c # cs"]) auto
  qed
qed simp


lemma sweepLoop_total:
  assumes "ahead chunker through" "cuts_ok db" "nat (wm_value through - chunker_next chunker) < fuel"
  shows "\<exists>r. sweepLoop fuel db v through live chunker report differing st = Some r"
  using assms
proof (induction fuel arbitrary: chunker report differing st)
  case (Suc fuel)
  obtain r st1 where step: "compareNext db v through live chunker st = (r, st1)" by (cases "compareNext db v through live chunker st")
  show ?case
  proof (cases "\<exists>c chunker1. r = Inr (Some c, chunker1)")
    case False
    then show ?thesis using step by (cases r) (auto split: option.splits)
  next
    case True
    then obtain c chunker1 where r: "r = Inr (Some c, chunker1)" by blast
    note cn = compareNext_Inr [OF step [unfolded r]]
    obtain report1 differing1 where counted: "countChunk live c report differing = (report1, differing1)" by fastforce
    show ?thesis
    proof (cases "chunk_upper (cm_compared c) = wm_value through")
      case False
      then have lt: "chunk_upper (cm_cut c) < wm_value through" using cn(3) by auto
      show ?thesis
      proof (cases "Feedback (vd_round db) chunker1 (cm_cut c) (vd_elapsed db (vs_tick st))")
        case (Inr chunker2)
        note ah = ahead_step [OF Suc.prems(1,2) cn(1) lt Inr]
        have "nat (wm_value through - chunker_next chunker2) < fuel" using ah(1,3) Suc.prems(3) unfolding ahead_def by linarith
        from Suc.IH [OF ah(1) Suc.prems(2) this] show ?thesis using False step r counted Inr by (simp add: Let_def)
      qed (use False step r counted in \<open>simp add: Let_def\<close>)
    qed (use step r counted in \<open>simp add: Let_def\<close>)
  qed
qed simp

lemma NewChunker_ahead:
  assumes "NewChunker target zeroWatermark opts = Inr chunker" "wm_valid through" "is_int64 (wm_value through)"
  shows "ahead chunker through" "cut_keys chunker = {}" "chunker_next chunker = MinInt64"
proof -
  have inv: "chunker_inv chunker" "cut_keys chunker = {}"
    using NewChunker_inv [OF assms(1)] by (auto simp: wm_ok_def wm_keys_def)
  have "chunker_next chunker = MinInt64" "\<not> chunker_done chunker"
    using assms(1) by (auto simp: NewChunker_def startAfter_def Let_def split: if_splits sum.splits)
  then show "ahead chunker through" "cut_keys chunker = {}" "chunker_next chunker = MinInt64"
    using inv assms(2,3) by (auto simp: ahead_def is_int64_def)
qed

lemma digestStatements_reads: "reads db st (snd (digestStatements san db v st))"
  unfolding digestStatements_def Let_def
  by (rule reads_onTick) (auto intro!: still_intro split: sum.splits)

lemma verifierPass_spec:
  assumes "verifierPass fuel san db v through st = Some (r, st')" "wm_valid through" "is_int64 (wm_value through)" "cuts_ok db"
  shows "r = Inr report \<Longrightarrow> reads db st st' \<and> (\<exists>cs. covers {} (map cm_compared cs) (wm_keys through)
    \<and> (\<forall>c \<in> set cs. compared db False st st' c) \<and> swept False cs (emptyReport through) [] report [])"
proof -
  assume r: "r = Inr report"
  obtain texts st1 where ds: "digestStatements san db v st = (Inr texts, st1)"
    using assms(1) r by (auto simp: verifierPass_def split: prod.splits sum.splits)
  then obtain differing where sw: "sweep fuel db v through False st1 = Some (Inr (report, differing), st')"
    using assms(1) r by (auto simp: verifierPass_def split: option.splits sum.splits prod.splits)
  then obtain chunker where ch: "NewChunker (vf_target v) zeroWatermark (vo_Chunker (vf_opts v)) = Inr chunker"
      and loop: "sweepLoop fuel db v through False chunker (emptyReport through) [] st1 = Some (Inr (report, differing), st')"
    by (auto simp: sweep_def split: sum.splits)
  note ah = NewChunker_ahead [OF ch assms(2,3)]
  have st1: "reads db st st1" using digestStatements_reads [of db st san v] ds by simp
  from sweepLoop_spec [OF loop ah(1) assms(4)] ah(2) obtain cs where cs: "reads db st1 st'"
      "covers {} (map cm_compared cs) (wm_keys through)" "\<forall>c \<in> set cs. compared db False st1 st' c"
      "swept False cs (emptyReport through) [] report differing"
    by auto
  then have "differing = []" by (simp add: swept_def)
  then show ?thesis using cs reads_trans [OF st1 cs(1)] compared_later [OF st1] by blast
qed

lemma verify_spec:
  assumes "verify fuel san db v through st = Some (Inr report, st')" "is_int64 (wm_value through)" "cuts_ok db"
  shows "wm_valid through \<and> rp_Through report = through \<and> rp_Unsettled report = 0 \<and> reads db st st'
    \<and> (\<exists>cs. covers {} (map cm_compared cs) (wm_keys through) \<and> (\<forall>c \<in> set cs. compared db False st st' c)
      \<and> rp_Mismatches report = map mismatchOf (filter differs cs))"
proof -
  have valid: "wm_valid through" using assms(1) by (auto simp: verify_def split: if_splits)
  then have "verifierPass fuel san db v through st = Some (Inr report, st')"
    using assms(1) by (auto simp: verify_def split: option.splits sum.splits prod.splits)
  from verifierPass_spec [OF this valid assms(2,3) refl] show ?thesis
    using valid by (auto simp: swept_def emptyReport_def)
qed


section \<open>Equal digests, equal rows\<close>

definition agree :: "('r \<Rightarrow> copier_error + 'r) \<Rightarrow> 'r table \<Rightarrow> 'r table \<Rightarrow> int64 set \<Rightarrow> bool" where
  "agree conv source shadow K \<longleftrightarrow>
     (\<forall>k \<in> K. \<forall>r. (k, r) \<in> set source \<longrightarrow> (\<exists>r'. conv r = Inr r'))
     \<and> (\<forall>k \<in> K. \<forall>r'. (k, r') \<in> set shadow \<longleftrightarrow> (\<exists>r. (k, r) \<in> set source \<and> conv r = Inr r'))"

text \<open>The hash keeps the ranges of these two tables apart: no two of them that differ have one hash.\<close>

definition separates :: "('r \<Rightarrow> copier_error + 'r) \<Rightarrow> ('r table \<Rightarrow> string) \<Rightarrow> 'r table \<Rightarrow> 'r table \<Rightarrow> bool" where
  "separates conv hash source shadow \<longleftrightarrow>
     (\<forall>lower upper rows. selectRows conv (rowsBetween lower upper source) = Inr rows \<longrightarrow>
        hash (sort_key fst rows) = hash (sort_key fst (rowsBetween lower upper shadow)) \<longrightarrow>
        sort_key fst rows = sort_key fst (rowsBetween lower upper shadow))"

lemma selectRows_total: "selectRows conv rows = Inr rows' \<Longrightarrow> (k, r) \<in> set rows \<Longrightarrow> \<exists>r'. conv r = Inr r'"
  by (induction conv rows arbitrary: rows' rule: selectRows.induct) (auto split: sum.splits)

lemma selectRows_set:
  assumes "selectRows conv rows = Inr rows'"
  shows "(k, r') \<in> set rows' \<longleftrightarrow> (\<exists>r. (k, r) \<in> set rows \<and> conv r = Inr r')"
  using assms
proof (induction conv rows arbitrary: rows' rule: selectRows.induct)
  case (2 conv k0 r0 rs)
  from "2.prems" obtain q qs where q: "conv r0 = Inr q" "selectRows conv rs = Inr qs" "rows' = (k0, q) # qs"
    by (auto split: sum.splits)
  have "(k, r') \<in> set qs \<longleftrightarrow> (\<exists>r. (k, r) \<in> set rs \<and> conv r = Inr r')" using "2.IH" [OF q(1,2)] .
  then show ?case using q by auto
qed auto

lemma rowsBetween_set: "(k, r) \<in> set (rowsBetween lower upper t) \<longleftrightarrow> (k, r) \<in> set t \<and> lower \<le> k \<and> k \<le> upper"
  by (auto simp: rowsBetween_def)

lemma honest_agree:
  assumes "honest db t shadow chunk d d" "separates (vd_conv db) (vd_hash db) (vd_source db t 0) shadow"
  shows "agree (vd_conv db) (vd_source db t 0) shadow (chunk_keys chunk)"
proof -
  let ?lo = "chunk_lower chunk" and ?up = "chunk_upper chunk"
  obtain rows where rows: "selectRows (vd_conv db) (rowsBetween ?lo ?up (vd_source db t 0)) = Inr rows"
      "digestOf (vd_hash db) rows = digestOf (vd_hash db) (rowsBetween ?lo ?up shadow)"
    using assms(1) by (auto simp: honest_def)
  then have "sort_key fst rows = sort_key fst (rowsBetween ?lo ?up shadow)"
    using assms(2) by (simp add: separates_def digestOf_def)
  then have "set rows = set (rowsBetween ?lo ?up shadow)" by (metis set_sort)
  then have eq: "(k, r) \<in> set rows \<longleftrightarrow> (k, r) \<in> set shadow \<and> k \<in> chunk_keys chunk" for k r
    by (auto simp: rowsBetween_set chunk_keys_def)
  show ?thesis unfolding agree_def
  proof (intro conjI ballI allI impI)
    fix k r assume "k \<in> chunk_keys chunk" "(k, r) \<in> set (vd_source db t 0)"
    then show "\<exists>r'. vd_conv db r = Inr r'"
      using selectRows_total [OF rows(1), of k r] by (simp add: rowsBetween_set chunk_keys_def)
  next
    fix k r' assume "k \<in> chunk_keys chunk"
    then show "(k, r') \<in> set shadow \<longleftrightarrow> (\<exists>r. (k, r) \<in> set (vd_source db t 0) \<and> vd_conv db r = Inr r')"
      using selectRows_set [OF rows(1), of k r'] eq [of k r'] by (simp add: rowsBetween_set chunk_keys_def)
  qed
qed

lemma agree_UN: "(\<forall>i \<in> I. agree conv source shadow (K i)) \<longleftrightarrow> agree conv source shadow (\<Union>i \<in> I. K i)"
  by (auto simp: agree_def)

text \<open>Nothing but the pass writes: the source stands still and no one touches the shadow.\<close>

definition quiet :: "'r verify_db \<Rightarrow> 'r table \<Rightarrow> bool" where
  "quiet db source \<longleftrightarrow> (\<forall>t s. vd_between db t s = s) \<and> (\<forall>t i. vd_source db t i = source)"

lemma quiet_drift:
  assumes "quiet db source"
  shows "drift db shadow t t' = shadow"
proof -
  have "vd_between db = (\<lambda>_ s. s)" using assms by (simp add: quiet_def fun_eq_iff)
  moreover have "fold (\<lambda>_ s. s) xs s = s" for xs :: "nat list" and s :: "'a table"
    by (induction xs arbitrary: s) simp_all
  ultimately show ?thesis by (simp add: drift_def)
qed

lemma compared_quiet:
  assumes "compared db False st st' c" "quiet db source"
  shows "\<exists>t. honest db t (vs_shadow st) (cm_compared c) (cm_source c) (cm_shadow c)"
  using assms by (auto simp: compared_def quiet_drift)

lemma clean_agree:
  assumes "\<forall>c \<in> set cs. compared db False st st' c" "quiet db source"
    and "separates (vd_conv db) (vd_hash db) source (vs_shadow st)"
  shows "agree (vd_conv db) source (vs_shadow st) (\<Union>c \<in> set (filter (\<lambda>c. \<not> differs c) cs). chunk_keys (cm_compared c))"
  unfolding agree_UN [symmetric]
proof
  fix c assume "c \<in> set (filter (\<lambda>c. \<not> differs c) cs)"
  then have c: "compared db False st st' c" "cm_shadow c = cm_source c" using assms(1) by auto
  from compared_quiet [OF c(1) assms(2)] c(2) obtain t where
    "honest db t (vs_shadow st) (cm_compared c) (cm_source c) (cm_source c)" by auto
  moreover have "vd_source db t 0 = source" using assms(2) by (simp add: quiet_def)
  ultimately show "agree (vd_conv db) source (vs_shadow st) (chunk_keys (cm_compared c))"
    using honest_agree [of db t "vs_shadow st" "cm_compared c"] assms(3) by simp
qed


section \<open>What a recopy leaves\<close>

definition keysAt :: "Mismatch list \<Rightarrow> int64 set" where
  "keysAt ms = (\<Union>m \<in> set ms. chunk_keys (mm_Chunk m))"

lemma clearChunks_result:
  assumes "clearChunks a i ms shadow = Inr (repairs, shadow')"
  shows "map rr_Mismatch repairs = ms" "shadow' = filter (\<lambda>(k, _). k \<notin> keysAt ms) shadow"
  using assms
proof (induction a i ms shadow arbitrary: repairs rule: clearChunks.induct)
  case (2 a i m ms shadow)
  let ?left = "filter (\<lambda>(k, _). \<not> (chunk_lower (mm_Chunk m) \<le> k \<and> k \<le> chunk_upper (mm_Chunk m))) shadow"
  { case 1 then show ?case using "2.IH"(1) by (auto simp: Let_def split: option.splits sum.splits)
  next
    case 2
    then obtain rest where rest: "clearChunks a (Suc i) ms ?left = Inr (rest, shadow')" and ok: "ta_delete a i = None"
      by (auto simp: Let_def split: option.splits sum.splits)
    have "shadow' = filter (\<lambda>(k, _). k \<notin> keysAt ms) ?left" using "2.IH"(2) [OF ok refl refl refl rest] .
    then show ?case by (auto simp: keysAt_def chunk_keys_def intro!: filter_cong)
  }
qed (auto simp: keysAt_def)

lemma insertStrict_fresh:
  assumes "insertStrict clash rows shadow = Inr shadow'" "distinct (map fst rows)" "keysOf rows \<inter> keysOf shadow = {}"
  shows "shadow' = shadow @ rows"
  using assms
proof (induction clash rows shadow rule: insertStrict.induct)
  case (2 clash k r rs shadow)
  have fresh: "k \<notin> keysOf shadow" using "2.prems"(3) by auto
  then have "insertStrict clash rs (shadow @ [(k, r)]) = Inr shadow'" using "2.prems"(1) by (auto split: if_splits)
  moreover have "\<not> (\<exists>(_, q) \<in> set shadow. clash q r)" using "2.prems"(1) fresh by (auto split: if_splits)
  moreover have "keysOf rs \<inter> keysOf (shadow @ [(k, r)]) = {}" using "2.prems"(2,3) by (auto simp: keysOf_def)
  ultimately show ?case using "2.IH"(2) [OF fresh] "2.prems"(2) by simp
qed simp

lemma Insert_range:
  assumes "Insert conv clash lower upper source shadow = Inr (n, shadow')" "distinct (map fst source)" "keysOf shadow \<inter> {lower..upper} = {}"
  shows "set shadow' = set shadow \<union> {(k, r'). lower \<le> k \<and> k \<le> upper \<and> (\<exists>r. (k, r) \<in> set source \<and> conv r = Inr r')}"
proof -
  obtain rows where rows: "selectRows conv (filter (\<lambda>(k, _). lower \<le> k \<and> k \<le> upper) source) = Inr rows"
      and ins: "insertStrict clash rows shadow = Inr shadow'"
    using assms(1) by (auto simp: Insert_def split: sum.splits)
  have names: "map fst rows = map fst (filter (\<lambda>(k, _). lower \<le> k \<and> k \<le> upper) source)" using selectRows_keys [OF rows] .
  have "distinct (map fst rows)" unfolding names using assms(2) by (simp add: distinct_map_filter)
  moreover have "keysOf rows \<subseteq> {lower..upper}" unfolding keysOf_def using arg_cong [OF names, of set] by auto
  ultimately have "shadow' = shadow @ rows" using insertStrict_fresh [OF ins] assms(3) by blast
  then show ?thesis using selectRows_set [OF rows] by auto
qed

lemma copyChunks_result:
  assumes "copyChunks db t i repairs shadow = Inr (repairs', shadow')"
    and "pairwise (\<lambda>a b. chunk_keys a \<inter> chunk_keys b = {}) (set (map (mm_Chunk \<circ> rr_Mismatch) repairs))"
    and "distinct (map (mm_Chunk \<circ> rr_Mismatch) repairs)" "\<forall>j. distinct (map fst (vd_source db t j))"
    and "keysOf shadow \<inter> keysAt (map rr_Mismatch repairs) = {}"
  shows "map rr_Mismatch repairs' = map rr_Mismatch repairs \<and> set shadow' = set shadow \<union>
    {(k, r'). \<exists>j < length repairs. k \<in> chunk_keys (mm_Chunk (rr_Mismatch (repairs ! j)))
       \<and> (\<exists>r. (k, r) \<in> set (vd_source db t (i + j)) \<and> vd_conv db r = Inr r')}"
  using assms
proof (induction db t i repairs shadow arbitrary: repairs' rule: copyChunks.induct)
  case (2 db t i rep reps shadow)
  let ?ch = "mm_Chunk (rr_Mismatch rep)"
  from "2.prems"(1) obtain n shadow1 rest where one: "Insert (vd_conv db) (vd_clash db) (chunk_lower ?ch) (chunk_upper ?ch)
        (vd_source db t i) shadow = Inr (n, shadow1)" "ta_copy (vd_answers db t) i = None"
      and rest: "copyChunks db t (Suc i) reps shadow1 = Inr (rest, shadow')" "repairs' = rep\<lparr>rr_Inserted := n\<rparr> # rest"
    by (auto split: option.splits sum.splits)
  have here: "set shadow1 = set shadow \<union> {(k, r'). k \<in> chunk_keys ?ch \<and> (\<exists>r. (k, r) \<in> set (vd_source db t i) \<and> vd_conv db r = Inr r')}"
    using Insert_range [OF one(1)] "2.prems"(4,5) by (auto simp: keysAt_def chunk_keys_def)
  have "chunk_keys ?ch \<inter> chunk_keys (mm_Chunk (rr_Mismatch x)) = {}" if "x \<in> set reps" for x
  proof -
    have "?ch \<noteq> mm_Chunk (rr_Mismatch x)" using "2.prems"(3) that by (auto simp: image_iff)
    then show ?thesis using pairwiseD [OF "2.prems"(2), of ?ch "mm_Chunk (rr_Mismatch x)"] that by auto
  qed
  then have apart: "chunk_keys ?ch \<inter> keysAt (map rr_Mismatch reps) = {}" by (auto simp: keysAt_def)
  have "keysOf shadow1 \<inter> keysAt (map rr_Mismatch reps) = {}"
    using "2.prems"(5) apart here by (fastforce simp: keysOf_def keysAt_def)
  then have IH: "map rr_Mismatch rest = map rr_Mismatch reps \<and> set shadow' = set shadow1 \<union>
      {(k, r'). \<exists>j < length reps. k \<in> chunk_keys (mm_Chunk (rr_Mismatch (reps ! j)))
         \<and> (\<exists>r. (k, r) \<in> set (vd_source db t (Suc i + j)) \<and> vd_conv db r = Inr r')}"
    using "2.IH" [OF one(2,1) refl rest(1)] "2.prems"(2-4) by (simp add: pairwise_insert)
  have "(\<exists>j < length (rep # reps). k \<in> chunk_keys (mm_Chunk (rr_Mismatch ((rep # reps) ! j)))
         \<and> (\<exists>r. (k, r) \<in> set (vd_source db t (i + j)) \<and> vd_conv db r = Inr r'))
     \<longleftrightarrow> (k \<in> chunk_keys ?ch \<and> (\<exists>r. (k, r) \<in> set (vd_source db t i) \<and> vd_conv db r = Inr r'))
       \<or> (\<exists>j < length reps. k \<in> chunk_keys (mm_Chunk (rr_Mismatch (reps ! j)))
         \<and> (\<exists>r. (k, r) \<in> set (vd_source db t (Suc i + j)) \<and> vd_conv db r = Inr r'))" for k r'
    by (simp add: Ex_less_Suc2)
  then show ?case using IH here rest(2) by auto
qed auto


lemma resolution_then: "snd (bindV (verifierConfirmResolution v a) (\<lambda>_. returnV x) st) = st"
  by (simp add: verifierConfirmResolution_def bindV_def returnV_def failV_def split: sum.splits)

lemma still_recopyIn [still_intro]: "still (recopyIn db v t ms)"
proof -
  have "snd (recopyIn db v t ms st) = st" for st
  proof (cases "clearChunks (vd_answers db t) 0 ms (vs_shadow st)")
    case (Inr p)
    then show ?thesis
      by (cases p; cases "copyChunks db t 0 (fst p) (snd p)") (auto simp: recopyIn_def resolution_then split: prod.splits)
  qed (simp add: recopyIn_def)
  then show ?thesis by (simp add: still_def)
qed

definition recopied :: "'r verify_db \<Rightarrow> nat \<Rightarrow> Mismatch list \<Rightarrow> 'r table \<Rightarrow> 'r table \<Rightarrow> bool" where
  "recopied db t ms shadow shadow' \<longleftrightarrow> set shadow' = {(k, r) \<in> set shadow. k \<notin> keysAt ms} \<union>
     {(k, r'). \<exists>j < length ms. k \<in> chunk_keys (mm_Chunk (ms ! j)) \<and> (\<exists>r. (k, r) \<in> set (vd_source db t j) \<and> vd_conv db r = Inr r')}"

definition apart :: "Mismatch list \<Rightarrow> bool" where
  "apart ms \<longleftrightarrow> pairwise (\<lambda>a b. chunk_keys a \<inter> chunk_keys b = {}) (set (map mm_Chunk ms)) \<and> distinct (map mm_Chunk ms)"

lemma recopyIn_result:
  assumes "recopyIn db v t ms st = (Inr (repairs, shadow'), st')" "apart ms" "\<forall>j. distinct (map fst (vd_source db t j))"
  shows "map rr_Mismatch repairs = ms" "recopied db t ms (vs_shadow st) shadow'" "st' = st"
proof -
  obtain cleared shadow1 where clear: "clearChunks (vd_answers db t) 0 ms (vs_shadow st) = Inr (cleared, shadow1)"
      and copy: "copyChunks db t 0 cleared shadow1 = Inr (repairs, shadow')"
    using assms(1) by (auto simp: recopyIn_def pass_Inr split: sum.splits)
  note cl = clearChunks_result [OF clear]
  have "map (mm_Chunk \<circ> rr_Mismatch) cleared = map mm_Chunk ms" using cl(1) by (metis map_map)
  moreover have "keysOf shadow1 \<inter> keysAt ms = {}" unfolding cl(2) by (auto simp: keysOf_def)
  ultimately have cp: "map rr_Mismatch repairs = map rr_Mismatch cleared \<and> set shadow' = set shadow1 \<union>
      {(k, r'). \<exists>j < length cleared. k \<in> chunk_keys (mm_Chunk (rr_Mismatch (cleared ! j)))
         \<and> (\<exists>r. (k, r) \<in> set (vd_source db t (0 + j)) \<and> vd_conv db r = Inr r')}"
    using copyChunks_result [OF copy] assms(2,3) cl(1) by (simp add: apart_def)
  then show "map rr_Mismatch repairs = ms" using cl(1) by simp
  have len: "length cleared = length ms" "\<forall>j < length ms. rr_Mismatch (cleared ! j) = ms ! j" using cl(1) by auto
  show "recopied db t ms (vs_shadow st) shadow'"
    unfolding recopied_def using cp len by (auto simp: cl(2))
  show "st' = st" using still_state [OF still_recopyIn assms(1)] .
qed

lemma recopy_result:
  assumes "recopy db v ms st = (Inr repairs, st')" "apart ms" "\<forall>j. distinct (map fst (vd_source db (vs_tick st) j))"
  shows "map rr_Mismatch repairs = ms" "vs_tick st' = Suc (vs_tick st)"
    "recopied db (vs_tick st) ms (vd_between db (vs_tick st) (vs_shadow st)) (vs_shadow st')"
    "vs_running st' = vs_running st"
proof -
  let ?t = "vs_tick st" and ?st = "st\<lparr>vs_tick := Suc (vs_tick st), vs_shadow := vd_between db (vs_tick st) (vs_shadow st)\<rparr>"
  obtain st1 p st2 st3 where begin': "verifierBegin v (vd_answers db ?t) ?st = (Inr (), st1)"
      and re: "recopyIn db v ?t ms st1 = (Inr p, st2)"
      and rest: "(\<lambda>(repairs, shadow). bindV (commitShadow (vd_answers db ?t) shadow) (\<lambda>_.
          bindV (countRepaired (length repairs)) (\<lambda>_. returnV repairs))) p st2 = (Inr repairs, st')"
    using assms(1) by (auto simp: recopy_def onTick_def Let_def bindV_Inr)
  have st1: "st1 = ?st" using still_state [OF still_begin begin'] .
  obtain rs shadow where p: "p = (rs, shadow)" by (cases p)
  note ri = recopyIn_result [OF re [unfolded p] assms(2,3)]
  have fin: "rs = repairs" "st' = (st2\<lparr>vs_shadow := shadow\<rparr>)\<lparr>vs_work := vs_work st'\<rparr>"
    using rest p by (auto simp: pass_Inr commitShadow_def countRepaired_def countWork_def split: option.splits)
  show "map rr_Mismatch repairs = ms" using ri(1) fin(1) by simp
  show "vs_tick st' = Suc (vs_tick st)" "vs_running st' = vs_running st"
    using arg_cong [OF fin(2), of vs_tick] arg_cong [OF fin(2), of vs_running] ri(3) st1 by simp_all
  show "recopied db (vs_tick st) ms (vd_between db (vs_tick st) (vs_shadow st)) (vs_shadow st')"
    using ri(2,3) st1 arg_cong [OF fin(2), of vs_shadow] by simp
qed


lemma recopy_refused:
  assumes "recopy db v ms st = (Inl e, st')" "\<not> ta_applied (vd_answers db (vs_tick st)) \<or> ta_commit (vd_answers db (vs_tick st)) = None"
  shows "vs_shadow st' = vd_between db (vs_tick st) (vs_shadow st)"
proof -
  let ?a = "vd_answers db (vs_tick st)"
  let ?st = "st\<lparr>vs_tick := Suc (vs_tick st), vs_shadow := vd_between db (vs_tick st) (vs_shadow st)\<rparr>"
  obtain r1 st1 where begin': "verifierBegin v ?a ?st = (r1, st1)" by (cases "verifierBegin v ?a ?st")
  have st1: "st1 = ?st" using still_state [OF still_begin begin'] .
  show ?thesis
  proof (cases r1)
    case (Inl e1)
    then have "st' = ?st" using assms(1) begin' st1 by (simp add: recopy_def onTick_def Let_def bindV_def)
    then show ?thesis by simp
  next
    case (Inr u)
    obtain r2 st2 where re: "recopyIn db v (vs_tick st) ms ?st = (r2, st2)" by (cases "recopyIn db v (vs_tick st) ms ?st")
    have st2: "st2 = ?st" using still_state [OF still_recopyIn re] .
    show ?thesis
    proof (cases r2)
      case (Inl e2)
      then have "st' = ?st" using assms(1) begin' st1 Inr re st2 by (simp add: recopy_def onTick_def Let_def bindV_def)
      then show ?thesis by simp
    next
      case (Inr p)
      then show ?thesis using assms begin' st1 \<open>r1 = Inr u\<close> re st2
        by (cases p) (auto simp: recopy_def onTick_def Let_def bindV_def commitShadow_def countRepaired_def countWork_def returnV_def
            split: option.splits)
    qed
  qed
qed

section \<open>A pass's claims\<close>

lemma covers_apart:
  assumes "covers {} (map cm_compared cs) K"
  shows "apart (map mismatchOf (filter P cs))"
proof -
  have chunks: "map mm_Chunk (map mismatchOf (filter P cs)) = map cm_compared (filter P cs)" by (simp add: mismatchOf_def)
  have "pairwise (\<lambda>a b. chunk_keys a \<inter> chunk_keys b = {}) (set (map cm_compared (filter P cs)))"
    by (rule pairwise_subset [of _ "set (map cm_compared cs)"]) (use assms in \<open>auto simp: covers_def\<close>)
  moreover have "distinct (map cm_compared (filter P cs))" using assms by (simp add: covers_def distinct_map_filter)
  ultimately show ?thesis unfolding apart_def chunks by blast
qed

lemma covers_split:
  assumes "covers {} (map cm_compared cs) K"
  shows "K = (\<Union>c \<in> set (filter (\<lambda>c. \<not> differs c) cs). chunk_keys (cm_compared c)) \<union> keysAt (map mismatchOf (filter differs cs))"
    and "(\<Union>c \<in> set (filter (\<lambda>c. \<not> differs c) cs). chunk_keys (cm_compared c)) \<inter> keysAt (map mismatchOf (filter differs cs)) = {}"
proof -
  show "K = (\<Union>c \<in> set (filter (\<lambda>c. \<not> differs c) cs). chunk_keys (cm_compared c)) \<union> keysAt (map mismatchOf (filter differs cs))"
    using assms by (auto simp: covers_def keysAt_def mismatchOf_def)
  have "chunk_keys (cm_compared a) \<inter> chunk_keys (cm_compared b) = {}" if "a \<in> set cs" "b \<in> set cs" "\<not> differs a" "differs b" for a b
  proof -
    have "distinct (map cm_compared cs)" "a \<noteq> b" using assms that by (auto simp: covers_def)
    then have "cm_compared a \<noteq> cm_compared b" using that(1,2) by (auto simp: distinct_map inj_on_def)
    then show ?thesis using assms that(1,2) by (auto simp: covers_def pairwise_def)
  qed
  then show "(\<Union>c \<in> set (filter (\<lambda>c. \<not> differs c) cs). chunk_keys (cm_compared c)) \<inter> keysAt (map mismatchOf (filter differs cs)) = {}"
    by (fastforce simp: keysAt_def mismatchOf_def)
qed

lemma recopied_agree:
  assumes "recopied db t ms shadow shadow'" "\<forall>i. vd_source db t i = source" "agree (vd_conv db) source shadow K" "K \<inter> keysAt ms = {}"
    and "\<forall>r \<in> snd ` set source. \<exists>r'. vd_conv db r = Inr r'"
  shows "agree (vd_conv db) source shadow' (K \<union> keysAt ms)"
    and "\<forall>k. k \<notin> keysAt ms \<longrightarrow> (\<forall>r. (k, r) \<in> set shadow' \<longleftrightarrow> (k, r) \<in> set shadow)"
proof -
  have outside: "(k, r) \<in> set shadow' \<longleftrightarrow> (k, r) \<in> set shadow" if "k \<notin> keysAt ms" for k r
    using that assms(1) by (fastforce simp: recopied_def keysAt_def)
  then show "\<forall>k. k \<notin> keysAt ms \<longrightarrow> (\<forall>r. (k, r) \<in> set shadow' \<longleftrightarrow> (k, r) \<in> set shadow)" by blast
  have inside: "(k, r') \<in> set shadow' \<longleftrightarrow> (\<exists>r. (k, r) \<in> set source \<and> vd_conv db r = Inr r')" if "k \<in> keysAt ms" for k r'
  proof -
    have "\<exists>j < length ms. k \<in> chunk_keys (mm_Chunk (ms ! j))" using that by (auto simp: keysAt_def in_set_conv_nth)
    then show ?thesis using that assms(1,2) by (auto simp: recopied_def)
  qed
  show "agree (vd_conv db) source shadow' (K \<union> keysAt ms)"
    unfolding agree_def
  proof (intro conjI ballI allI impI)
    fix k r assume "(k, r) \<in> set source"
    then show "\<exists>r'. vd_conv db r = Inr r'" using assms(5) by (metis image_eqI snd_conv)
  next
    fix k r' assume "k \<in> K \<union> keysAt ms"
    then show "(k, r') \<in> set shadow' \<longleftrightarrow> (\<exists>r. (k, r) \<in> set source \<and> vd_conv db r = Inr r')"
      using inside [of k r'] outside [of k r'] assms(3) by (cases "k \<in> keysAt ms") (auto simp: agree_def)
  qed
qed


lemma verify_clean:
  assumes "verify fuel san db v through st = Some (Inr report, st')" "Report_Clean report" "is_int64 (wm_value through)" "cuts_ok db"
    and "quiet db source" "separates (vd_conv db) (vd_hash db) source (vs_shadow st')"
  shows "agree (vd_conv db) source (vs_shadow st') (wm_keys through)" "rp_Through report = through" "wm_valid through"
proof -
  obtain cs where cs: "covers {} (map cm_compared cs) (wm_keys through)" "\<forall>c \<in> set cs. compared db False st st' c"
      "rp_Mismatches report = map mismatchOf (filter differs cs)"
      and more: "reads db st st'" "rp_Through report = through" "wm_valid through"
    using verify_spec [OF assms(1,3,4)] by blast
  have same: "vs_shadow st' = vs_shadow st" using more(1) assms(5) by (simp add: reads_def quiet_drift)
  have none: "filter differs cs = []" using assms(2) cs(3) by (simp add: Report_Clean_def)
  have "agree (vd_conv db) source (vs_shadow st) (\<Union>c \<in> set (filter (\<lambda>c. \<not> differs c) cs). chunk_keys (cm_compared c))"
    using clean_agree [OF cs(2) assms(5)] assms(6) same by simp
  then show "agree (vd_conv db) source (vs_shadow st') (wm_keys through)"
    using covers_split(1) [OF cs(1)] none same by (simp add: keysAt_def)
  show "rp_Through report = through" "wm_valid through" using more by auto
qed

definition cleanVerify :: "nat \<Rightarrow> (string list \<Rightarrow> string) \<Rightarrow> 'r verify_db \<Rightarrow> Verifier \<Rightarrow> Watermark \<Rightarrow> Outcome \<Rightarrow> 'r verify_state \<Rightarrow> bool" where
  "cleanVerify fuel san db v through oc st' \<longleftrightarrow> (\<exists>st report n. verify fuel san db v through st = Some (Inr report, st')
     \<and> Report_Clean report \<and> oc = (prove db v report False (vs_tick st'))\<lparr>oc_Collisions := n\<rparr>)"

lemma mkOutcome_unproved [simp]: "\<not> Outcome_Clean (mkOutcome report repairs)"
  by (simp add: Outcome_Clean_def mkOutcome_def)

lemma recopyAttempts_clean:
  assumes "recopyAttempts left fuel san db v through oc0 st = Some (oc, e, st')" "Outcome_Clean oc" "\<not> Outcome_Clean oc0"
  shows "e = None \<and> cleanVerify fuel san db v through oc st'"
  using assms
proof (induction left arbitrary: oc0 st)
  case 0
  then show ?case by (auto simp: Outcome_Clean_def Let_def split: prod.splits option.splits if_splits)
next
  case (Suc left)
  obtain repairs r st1 where re: "recopyAll db v (rp_Mismatches (oc_Report oc0)) st = (repairs, r, st1)"
    by (metis prod_cases3)
  let ?oc2 = "oc0\<lparr>oc_Repairs := repairs, oc_Collisions := oc_Collisions oc0 + 1\<rparr>"
  have un: "\<not> Outcome_Clean (oc0\<lparr>oc_Repairs := repairs\<rparr>)" "\<not> Outcome_Clean ?oc2" "\<not> Outcome_Clean (?oc2\<lparr>oc_Report := x\<rparr>)" for x
    using Suc.prems(3) by (simp_all add: Outcome_Clean_def)
  obtain err where err: "r = Some err" "recopyCollided err"
    using Suc.prems(1,2) re un by (cases r) (auto simp: Let_def split: if_splits)
  show ?case
  proof (cases "verify fuel san db v through st1")
    case (Some q)
    then obtain w st2 where q: "verify fuel san db v through st1 = Some (w, st2)" by (cases q) auto
    show ?thesis
    proof (cases w)
      case (Inr compared)
      show ?thesis
      proof (cases "Report_Clean compared")
        case True
        then have "e = None" "st' = st2" "oc = (prove db v compared False (vs_tick st2))\<lparr>oc_Collisions := oc_Collisions oc0 + 1\<rparr>"
          using Suc.prems(1) re err q Inr by (auto simp: Let_def)
        then show ?thesis unfolding cleanVerify_def using q Inr True by blast
      next
        case False
        then have "recopyAttempts left fuel san db v through (?oc2\<lparr>oc_Report := compared\<rparr>) st2 = Some (oc, e, st')"
          using Suc.prems(1) re err q Inr by (simp add: Let_def)
        from Suc.IH [OF this Suc.prems(2) un(3)] show ?thesis .
      qed
    qed (use Suc.prems(1,2) re err q un in \<open>simp add: Let_def\<close>)
  qed (use Suc.prems(1) re err in \<open>simp add: Let_def\<close>)
qed

lemma Check_clean:
  assumes "Check fuel san db v through policy st = Some (oc, e, st')" "Outcome_Clean oc"
  shows "e = None \<and> (\<exists>st2. cleanVerify fuel san db v through oc st2 \<and> st' = stopPass st2)"
proof -
  obtain st1 report st2 st3 where v: "verify fuel san db v through st1 = Some (Inr report, st2)"
      and act: "actOnReport fuel san db v through policy report st2 = Some (oc, e, st3)" and st': "st' = stopPass st3"
    using assms by (auto simp: Check_def split: option.splits sum.splits prod.splits)
  show ?thesis
  proof (cases "Report_Clean report")
    case True
    then have oc: "oc = prove db v report False (vs_tick st2)" "e = None" "st3 = st2" using act by (auto simp: actOnReport_def)
    have "oc = (prove db v report False (vs_tick st2))\<lparr>oc_Collisions := oc_Collisions oc\<rparr>" using oc(1) by simp
    then show ?thesis unfolding cleanVerify_def using v True oc st' by blast
  next
    case False
    then have "recopyUntilClear fuel san db v through report st2 = Some (oc, e, st3)"
      using act assms(2) by (auto simp: actOnReport_def split: DivergencePolicy.splits prod.splits)
    then show ?thesis using recopyAttempts_clean assms(2) st' unfolding recopyUntilClear_def by (metis mkOutcome_unproved)
  qed
qed

lemma prove_sel:
  "oc_clean (prove db v report live t) = rp_Through report" "oc_Repairs (prove db v report live t) = []"
  "oc_verified (prove db v report live t) =
     (if Complete (rp_Through report) then newVerifiedShadow (vf_shadow v) (rp_Through report) (vd_now db t) live else noVerifiedShadow)"
  by (simp_all add: prove_def Let_def mkOutcome_def)


lemma rereadAll_reads: "reads db st (snd (rereadAll db v rs st))"
proof (induction rs arbitrary: st)
  case (Cons r rs)
  have one: "reads db st (snd (reread db v r st))" for st
  proof -
    let ?dig = "digestChunk db v (chunk_lower (mm_Chunk (rr_Mismatch r))) (chunk_upper (mm_Chunk (rr_Mismatch r))) st"
    have "reads db st (snd ?dig)"
      unfolding digestChunk_def Let_def by (rule reads_onTick) (auto intro!: still_intro split: prod.splits)
    then show ?thesis
      by (cases ?dig; cases "fst ?dig")
        (auto simp: reread_def Let_def bindV_def countReread_def countWork_def failV_def returnV_def split: prod.splits)
  qed
  show ?case
  proof (cases "reread db v r st")
    case (Pair a st1)
    then show ?thesis using one [of st] Cons.IH [of st1] by (cases a) (auto simp: bindV_def intro: reads_trans)
  qed
qed (simp add: returnV_def)

lemma repairAll_result:
  assumes "repairAll san db v ms st = (repairs, None, st')" "apart ms" "quiet db source" "distinct (map fst source)"
  shows "recopied db t ms (vs_shadow st) (vs_shadow st')" "map rr_Mismatch repairs = ms"
proof -
  obtain texts st1 st2 u st3 where ds: "digestStatements san db v st = (Inr texts, st1)" and re: "recopy db v ms st1 = (Inr repairs, st2)"
      and rr: "rereadAll db v repairs st2 = (Inr u, st3)" and st': "st' = st3"
    using assms(1) by (auto simp: repairAll_def split: prod.splits sum.splits)
  have dist: "\<forall>j. distinct (map fst (vd_source db (vs_tick st1) j))" using assms(3,4) by (simp add: quiet_def)
  note r = recopy_result [OF re assms(2) dist]
  have "vs_shadow st1 = vs_shadow st" using digestStatements_reads [of db st san v] ds assms(3) by (simp add: reads_def quiet_drift)
  moreover have "vs_shadow st3 = vs_shadow st2" using rereadAll_reads [of db st2 v repairs] rr assms(3) by (simp add: reads_def quiet_drift)
  ultimately show "recopied db t ms (vs_shadow st) (vs_shadow st')" using r(3) assms(3) st' by (simp add: quiet_def recopied_def)
  show "map rr_Mismatch repairs = ms" by (rule r(1))
qed

section \<open>Properties\<close>

text \<open>
  C5: A proof is only ever minted for equal tables. When a pass over a source that stands still and a
  shadow no one else writes mints the clean watermark, whatever policy it ran under, it reported no
  error and repaired nothing, and at every key at or below the watermark the shadow it leaves
  holds exactly the converted row of the source. It mints the verified shadow exactly when the
  watermark covers every key, naming the two relations of the shadow proof. The hash is assumed
  to tell the rows of the two tables apart.
\<close>
theorem proof_means_equal:
  assumes "Check fuel san db v through policy st = Some (oc, e, st')" "Outcome_Clean oc"
    and "quiet db source" "cuts_ok db" "is_int64 (wm_value through)" "separates (vd_conv db) (vd_hash db) source (vs_shadow st')"
    and "sh_SourceTable (vf_shadow v) \<noteq> ''''"
  shows "e = None \<and> oc_Repairs oc = [] \<and> oc_clean oc = through \<and> agree (vd_conv db) source (vs_shadow st') (wm_keys through)
    \<and> Outcome_VerifiedShadow oc = (if Complete through
        then Some (newVerifiedShadow (vf_shadow v) through (vd_now db (vs_tick st')) False) else None)"
proof -
  obtain st2 where e: "e = None" and c: "cleanVerify fuel san db v through oc st2" and st': "st' = stopPass st2"
    using Check_clean [OF assms(1,2)] by blast
  obtain st1 report n where v: "verify fuel san db v through st1 = Some (Inr report, st2)" "Report_Clean report"
      and oc: "oc = (prove db v report False (vs_tick st2))\<lparr>oc_Collisions := n\<rparr>"
    using c unfolding cleanVerify_def by blast
  have sep: "separates (vd_conv db) (vd_hash db) source (vs_shadow st2)" using assms(6) st' by (simp add: stopPass_def)
  note vc = verify_clean [OF v assms(5,4,3) sep]
  show ?thesis using e vc assms(7) unfolding oc st'
    by (simp add: prove_sel stopPass_def Outcome_VerifiedShadow_def newVerifiedShadow_def noVerifiedShadow_def)
qed



text \<open>
  C32: A recopy is all or nothing. A recopy of disjoint chunks that succeeds leaves exactly the
  rows outside the chunks as they stood and, inside each chunk, the converted rows of the source as
  its copy statement read them; one that is refused leaves the shadow as the transaction found
  it, unless the commit itself failed and was applied all the same.
\<close>
theorem recopy_all_or_nothing:
  assumes "recopy db v ms st = (r, st')" "apart ms" "\<forall>j. distinct (map fst (vd_source db (vs_tick st) j))"
  shows "case r of
      Inr repairs \<Rightarrow> map rr_Mismatch repairs = ms
        \<and> recopied db (vs_tick st) ms (vd_between db (vs_tick st) (vs_shadow st)) (vs_shadow st')
    | Inl e \<Rightarrow> vs_shadow st' = vd_between db (vs_tick st) (vs_shadow st)
        \<or> (ta_commit (vd_answers db (vs_tick st)) \<noteq> None \<and> ta_applied (vd_answers db (vs_tick st)))"
proof (cases r)
  case (Inl e)
  then show ?thesis using recopy_refused [of db v ms st e st'] assms(1)
    by (cases "ta_commit (vd_answers db (vs_tick st))") auto
next
  case (Inr repairs)
  then show ?thesis using recopy_result(1,3) [of db v ms st repairs st'] assms by simp
qed

lemma sweep_total:
  assumes "is_int64 (wm_value through)" "cuts_ok db" "2 ^ 64 < fuel" "wm_valid through"
  shows "\<exists>r. sweep fuel db v through live st = Some r"
proof (cases "NewChunker (vf_target v) zeroWatermark (vo_Chunker (vf_opts v))")
  case (Inr chunker)
  note ah = NewChunker_ahead [OF Inr assms(4,1)]
  have "nat (wm_value through - chunker_next chunker) \<le> 2 ^ 64" using ah(3) assms(1) by (simp add: is_int64_def int64_simps nat_le_iff)
  then have "nat (wm_value through - chunker_next chunker) < fuel" using assms(3) by linarith
  then show ?thesis using sweepLoop_total [OF ah(1) assms(2)] Inr by (simp add: sweep_def)
qed (simp add: sweep_def)

lemma verify_total:
  assumes "is_int64 (wm_value through)" "cuts_ok db" "2 ^ 64 < fuel"
  shows "\<exists>r. verify fuel san db v through st = Some r"
proof (cases "wm_valid through")
  case True
  have "\<exists>r. sweep fuel db v through live st = Some r" for live st using sweep_total [OF assms True] .
  then have "\<exists>r. verifierPass fuel san db v through st = Some r"
    by (cases "digestStatements san db v st"; cases "fst (digestStatements san db v st)")
      (auto simp: verifierPass_def split: option.splits sum.splits prod.splits)
  then show ?thesis using True by (auto simp: verify_def split: sum.splits)
qed (simp add: verify_def)

lemma recopyAttempts_total:
  assumes "is_int64 (wm_value through)" "cuts_ok db" "2 ^ 64 < fuel"
  shows "\<exists>oc e st'. recopyAttempts left fuel san db v through oc0 st = Some (oc, e, st')
    \<and> oc_Collisions oc \<le> oc_Collisions oc0 + int left + 1"
proof (induction left arbitrary: oc0 st)
  case 0
  obtain repairs r st1 where "recopyAll db v (rp_Mismatches (oc_Report oc0)) st = (repairs, r, st1)" by (metis prod_cases3)
  then show ?case by (cases r) (auto simp: Let_def)
next
  case (Suc left)
  obtain repairs r st1 where re: "recopyAll db v (rp_Mismatches (oc_Report oc0)) st = (repairs, r, st1)" by (metis prod_cases3)
  obtain w st2 where v: "verify fuel san db v through st1 = Some (w, st2)" using verify_total [OF assms, of san v st1] by auto
  let ?oc2 = "oc0\<lparr>oc_Repairs := repairs, oc_Collisions := oc_Collisions oc0 + 1\<rparr>"
  have IH: "\<exists>oc e st'. recopyAttempts left fuel san db v through (?oc2\<lparr>oc_Report := x\<rparr>) st2 = Some (oc, e, st')
      \<and> oc_Collisions oc \<le> oc_Collisions oc0 + int (Suc left) + 1" for x
    using Suc.IH [of "?oc2\<lparr>oc_Report := x\<rparr>" st2] by (auto simp: algebra_simps)
  show ?case using re v IH by (cases r; cases w) (auto simp: Let_def)
qed

text \<open>
  A pass ends. Whatever the server answers, the sweep needs at most one comparison for each
  key value, so with that much fuel a pass returns under every policy, and it never recopies more
  often than the configured number of attempts.
\<close>
theorem Check_terminates:
  assumes "is_int64 (wm_value through)" "cuts_ok db" "2 ^ 64 < fuel" "1 \<le> vo_RecopyAttempts (vf_opts v)"
  shows "\<exists>oc e st'. Check fuel san db v through policy st = Some (oc, e, st') \<and> oc_Collisions oc \<le> vo_RecopyAttempts (vf_opts v)"
proof -
  have act: "\<exists>oc e st'. actOnReport fuel san db v through policy report st = Some (oc, e, st')
      \<and> oc_Collisions oc \<le> vo_RecopyAttempts (vf_opts v)" for report st
    using recopyAttempts_total [OF assms(1-3), of "nat (vo_RecopyAttempts (vf_opts v) - 1)" san v "mkOutcome report []" st] assms(4)
    by (cases policy) (auto simp: actOnReport_def recopyUntilClear_def prove_def Let_def mkOutcome_def split: prod.splits)
  have "\<exists>oc e st'. Check fuel san db v through policy st = Some (oc, e, st') \<and> oc_Collisions oc \<le> vo_RecopyAttempts (vf_opts v)"
    if start: "startPass st = Inr st1" "policyValidate policy = None" for st1
  proof -
    obtain w st2 where v: "verify fuel san db v through st1 = Some (w, st2)" using verify_total [OF assms(1-3), of san v st1] by auto
    show ?thesis using act [of _ st2] start v assms(4) by (cases w) (fastforce simp: Check_def mkOutcome_def)+
  qed
  then show ?thesis using assms(4) by (cases "policyValidate policy"; cases "startPass st") (auto simp: Check_def mkOutcome_def)
qed


section \<open>Witnesses\<close>

definition fairAnswers :: tx_answers where
  "fairAnswers =
     \<lparr>ta_begin = None, ta_session = None, ta_role = None, ta_hold = None, ta_holder = Inr (Some 7), ta_oids = Inr (Some 1, Some 2),
      ta_fingerprint = Inr '''', ta_refingerprint = Inr '''', ta_types = Inr [(''id'', ''bigint'')], ta_cut = boundaryQuery [1],
      ta_digest = (\<lambda>_. None), ta_mark = Inr 1, ta_fence = None, ta_delete = (\<lambda>_. None), ta_copy = (\<lambda>_. None),
      ta_commit = None, ta_applied = False\<rparr>"

definition oneRow :: "string table" where
  "oneRow = [(1, ''a'')]"

definition oneRowHash :: "string table \<Rightarrow> string" where
  "oneRowHash rows = (if rows = [] then ''e'' else if rows = oneRow then ''a'' else ''x'')"

definition fairDb :: "string verify_db" where
  "fairDb =
     \<lparr>vd_source = (\<lambda>_ _. oneRow), vd_between = (\<lambda>_ s. s), vd_answers = (\<lambda>_. fairAnswers), vd_conv = Inr, vd_clash = (\<lambda>_ _. False),
      vd_hash = oneRowHash, vd_lost = (\<lambda>_. False), vd_now = (\<lambda>_. 5), vd_elapsed = (\<lambda>_. 1), vd_round = (\<lambda>x. x),
      vd_sleep = (\<lambda>_ _. None)\<rparr>"

definition fairVerifier :: Verifier where
  "fairVerifier =
     \<lparr>vf_target = example_target,
      vf_shadow = \<lparr>sh_Schema = ''public'', sh_SourceTable = ''orders'', sh_ShadowTable = ''_orders_new'', sh_SourceOID = 1, sh_ShadowOID = 2,
        sh_CopyColumns = [''id''], sh_Conversions = [], sh_ConversionFingerprint = ''''\<rparr>,
      vf_lock = \<lparr>lock_schema = ''public'', lock_table = ''orders'', lock_key = 1, lock_pid = 7, lock_lost = False\<rparr>,
      vf_opts = \<lparr>vo_LockTimeout = Millisecond, vo_StatementTimeout = Millisecond, vo_Chunker = example_opts, vo_RecopyAttempts = 2\<rparr>\<rparr>"

definition idleState :: "string table \<Rightarrow> string verify_state" where
  "idleState shadow = \<lparr>vs_tick = 0, vs_shadow = shadow, vs_reads = 0, vs_held = False, vs_running = False, vs_work = noWork\<rparr>"

lemma fairDb_ok: "quiet fairDb oneRow" "cuts_ok fairDb"
  by (simp_all add: quiet_def cuts_ok_def fairDb_def fairAnswers_def boundaryQuery_db_ok is_int64_def int64_simps)

lemma fairDb_separates: "separates (vd_conv fairDb) (vd_hash fairDb) oneRow shadow"
  unfolding separates_def
proof (intro allI impI)
  fix lower upper rows
  assume sel: "selectRows (vd_conv fairDb) (rowsBetween lower upper oneRow) = Inr rows"
    and same: "vd_hash fairDb (sort_key fst rows) = vd_hash fairDb (sort_key fst (rowsBetween lower upper shadow))"
  have "rowsBetween lower upper oneRow = [] \<or> rowsBetween lower upper oneRow = oneRow" by (simp add: rowsBetween_def oneRow_def)
  then have "sort_key fst rows = [] \<or> sort_key fst rows = oneRow" using sel by (auto simp: fairDb_def oneRow_def)
  then show "sort_key fst rows = sort_key fst (rowsBetween lower upper shadow)"
    using same by (auto simp: fairDb_def oneRowHash_def oneRow_def split: if_splits)
qed

definition passed :: "(Outcome \<times> verify_error option \<times> string verify_state) option \<Rightarrow> bool \<Rightarrow> bool" where
  "passed r clean = (case r of Some (oc, None, _) \<Rightarrow> Outcome_Clean oc = clean | _ \<Rightarrow> False)"

lemma fair_check:
  "passed (Check 5 (join ''.'') fairDb fairVerifier (NewWatermark MaxInt64) DivergenceAbort (idleState oneRow)) True"
  by code_simp

lemma fair_repair:
  "passed (Check 5 (join ''.'') fairDb fairVerifier (NewWatermark MaxInt64) DivergenceRepair (idleState [(2, ''b'')])) False"
  by code_simp


lemma passedE:
  assumes "passed r clean"
  obtains oc st' where "r = Some (oc, None, st')" "Outcome_Clean oc = clean"
  using assms that by (auto simp: passed_def split: option.splits prod.splits)

theorem proof_means_equal_witness:
  "\<exists>oc st'. Check 5 (join ''.'') fairDb fairVerifier (NewWatermark MaxInt64) DivergenceAbort (idleState oneRow) = Some (oc, None, st')
     \<and> agree (vd_conv fairDb) oneRow (vs_shadow st') (wm_keys (NewWatermark MaxInt64))"
proof -
  obtain oc st' where run: "Check 5 (join ''.'') fairDb fairVerifier (NewWatermark MaxInt64) DivergenceAbort (idleState oneRow) = Some (oc, None, st')"
      and clean: "Outcome_Clean oc"
    using passedE [OF fair_check] by blast
  have "agree (vd_conv fairDb) oneRow (vs_shadow st') (wm_keys (NewWatermark MaxInt64))"
    using proof_means_equal [OF run clean fairDb_ok] fairDb_separates by (simp add: fairVerifier_def)
  then show ?thesis using run by blast
qed


definition wholeMismatch :: Mismatch where
  "wholeMismatch = \<lparr>mm_Chunk = \<lparr>chunk_lower = 0, chunk_upper = 9, chunk_rows = 0\<rparr>, mm_Source = \<lparr>dg_Rows = 1, dg_Hash = ''a''\<rparr>,
     mm_Shadow = \<lparr>dg_Rows = 1, dg_Hash = ''x''\<rparr>\<rparr>"

theorem recopy_all_or_nothing_witness:
  "\<exists>repairs st'. recopy fairDb fairVerifier [wholeMismatch] (idleState [(2, ''b'')]) = (Inr repairs, st')
     \<and> recopied fairDb 0 [wholeMismatch] [(2, ''b'')] (vs_shadow st')"
proof -
  obtain r st' where run: "recopy fairDb fairVerifier [wholeMismatch] (idleState [(2, ''b'')]) = (r, st')"
    by (cases "recopy fairDb fairVerifier [wholeMismatch] (idleState [(2, ''b'')])")
  have "case fst (recopy fairDb fairVerifier [wholeMismatch] (idleState [(2, ''b'')])) of Inr _ \<Rightarrow> True | Inl _ \<Rightarrow> False" by code_simp
  then obtain repairs where r: "r = Inr repairs" using run by (cases r) simp_all
  have "apart [wholeMismatch]" "\<forall>j. distinct (map fst (vd_source fairDb (vs_tick (idleState [(2, ''b'')])) j))"
    by (simp_all add: apart_def fairDb_def oneRow_def)
  from recopy_all_or_nothing [OF run this] r run show ?thesis by (simp add: idleState_def fairDb_def)
qed

theorem Check_terminates_witness:
  "\<exists>oc e st'. Check (2 ^ 64 + 1) (join ''.'') fairDb fairVerifier (NewWatermark 3) DivergenceRecopy (idleState []) = Some (oc, e, st')
     \<and> oc_Collisions oc \<le> 2"
  using Check_terminates [of "NewWatermark 3" fairDb "2 ^ 64 + 1" fairVerifier "join ''.''" DivergenceRecopy "idleState []"] fairDb_ok(2)
  by (simp add: fairVerifier_def is_int64_def int64_simps)

end
