(* ===== verification/Checksum_Live.thy ===== *)
theory Checksum_Live
  imports Checksum_Verifier
begin

text \<open>
  Verification while the source is written and the catch-up applies the stream to the shadow
  (\<open>live.go\<close>, \<open>settle.go\<close>, \<open>live_repair.go\<close> of \<open>pkg/checksum\<close>). The catch-up is an argument of
  the pass, inside its options: the confirmed position it answers, and the gate that holds its
  flushes. Both answer by the tick they are asked after and the number of waits made
  before. A chunk that differs is read again until two reads can be judged together.
\<close>

section \<open>Options of a live pass\<close>

definition DefaultSettleAttempts :: int64 where "DefaultSettleAttempts = 3"
definition DefaultSettleWait :: int64 where "DefaultSettleWait = 30000 * Millisecond"
definition DefaultSettlePoll :: int64 where "DefaultSettlePoll = 100 * Millisecond"

record LiveOptions =
  lo_Confirmed :: "(nat \<Rightarrow> nat \<Rightarrow> LSN) option"
  lo_Flushes :: "(nat \<Rightarrow> nat \<Rightarrow> verify_error option) option"
  lo_Attempts :: int64
  lo_SettleWait :: int64
  lo_Poll :: int64
  lo_Sleep :: "(nat \<Rightarrow> nat \<Rightarrow> verify_error option) option"

definition polls :: "LiveOptions \<Rightarrow> int64" where
  "polls opts = lo_SettleWait opts div lo_Poll opts"

definition liveWithDefaults :: "(nat \<Rightarrow> nat \<Rightarrow> verify_error option) \<Rightarrow> LiveOptions \<Rightarrow> LiveOptions" where
  "liveWithDefaults sleepContext opts =
     (let opts = (if lo_Attempts opts = 0 then opts\<lparr>lo_Attempts := DefaultSettleAttempts\<rparr> else opts);
          opts = (if lo_SettleWait opts = 0 then opts\<lparr>lo_SettleWait := DefaultSettleWait\<rparr> else opts);
          opts = (if lo_Poll opts = 0 then opts\<lparr>lo_Poll := DefaultSettlePoll\<rparr> else opts);
          opts = (case lo_Sleep opts of None \<Rightarrow> opts\<lparr>lo_Sleep := Some sleepContext\<rparr> | Some _ \<Rightarrow> opts)
      in opts)"

definition liveValidate :: "DivergencePolicy \<Rightarrow> LiveOptions \<Rightarrow> verify_error option" where
  "liveValidate policy opts =
     (if lo_Confirmed opts = None then Some ErrVerifierOptions
      else if policy = DivergenceRepair \<and> lo_Flushes opts = None then Some ErrVerifierOptions
      else if lo_Attempts opts < 1 then Some ErrVerifierOptions
      else if \<exists>t \<in> set [lo_SettleWait opts, lo_Poll opts]. t < Millisecond then Some ErrVerifierOptions
      else if lo_SettleWait opts < lo_Poll opts then Some ErrVerifierOptions
      else None)"

text \<open>Asking the catch-up, sleeping and pausing; each is one of the pass's waits.\<close>

definition askV :: "(nat \<Rightarrow> nat \<Rightarrow> 'a) option \<Rightarrow> 'a \<Rightarrow> ('r, 'a) pass" where
  "askV f missing = (\<lambda>st.
     (Inr (case f of Some g \<Rightarrow> g (vs_tick st) (vs_reads st) | None \<Rightarrow> missing), st\<lparr>vs_reads := Suc (vs_reads st)\<rparr>))"

definition readConfirmed :: "LiveOptions \<Rightarrow> ('r, LSN) pass" where
  "readConfirmed live = askV (lo_Confirmed live) 0"

definition orFail :: "verify_error option \<Rightarrow> ('r, unit) pass" where
  "orFail answer = (case answer of Some e \<Rightarrow> failV e | None \<Rightarrow> returnV ())"

definition sleepPoll :: "LiveOptions \<Rightarrow> ('r, unit) pass" where
  "sleepPoll live = bindV (askV (lo_Sleep live) None) orFail"

section \<open>Settling a chunk\<close>

datatype verdict = verdictEqual | verdictSettled | verdictHot | verdictDiverged

definition judgeReads :: "observation \<Rightarrow> observation \<Rightarrow> verdict" where
  "judgeReads prior now =
     (if ob_shadow now = ob_source now then verdictEqual
      else if ob_shadow now = ob_source prior then verdictSettled
      else if ob_source now \<noteq> ob_source prior then verdictHot
      else if ob_shadow now \<noteq> ob_shadow prior then verdictHot
      else verdictDiverged)"

definition unresolvedError :: "UnresolvedCause \<Rightarrow> observation \<Rightarrow> int64 \<Rightarrow> LSN \<Rightarrow> verify_error" where
  "unresolvedError cause ob rereads confirmed = ErrUnresolved
     \<lparr>ue_Chunk = ob_chunk ob, ue_Cause = cause, ue_Rereads = rereads, ue_Source = ob_source ob, ue_Shadow = ob_shadow ob,
      ue_Captured = ob_lsn ob, ue_Confirmed = confirmed\<rparr>"

text \<open>\<open>left\<close> counts the polls still allowed; the code stops when it has polled \<open>polls\<close> times.\<close>

fun awaitPolls :: "nat \<Rightarrow> observation \<Rightarrow> int64 \<Rightarrow> LiveOptions \<Rightarrow> ('r, unit) pass" where
  "awaitPolls 0 prior rereads live =
     bindV (readConfirmed live) (\<lambda>confirmed.
       if ob_lsn prior \<le> confirmed then returnV () else failV (unresolvedError CauseLagging prior rereads confirmed))"
| "awaitPolls (Suc left) prior rereads live =
     bindV (readConfirmed live) (\<lambda>confirmed.
       if ob_lsn prior \<le> confirmed then returnV ()
       else bindV (sleepPoll live) (\<lambda>_. awaitPolls left prior rereads live))"

definition awaitConfirmed :: "observation \<Rightarrow> int64 \<Rightarrow> LiveOptions \<Rightarrow> ('r, unit) pass" where
  "awaitConfirmed prior rereads live = awaitPolls (nat (polls live)) prior rereads live"

definition observe :: "'r verify_db \<Rightarrow> Verifier \<Rightarrow> Chunk \<Rightarrow> ('r, observation) pass" where
  "observe db v chunk = onTick db (\<lambda>t.
     let a = vd_answers db t in
     bindV (verifierBegin v a) (\<lambda>_.
     bindV (digestRange db t (chunk_lower chunk) (chunk_upper chunk)) (\<lambda>(source, shadow).
     bindV (markPosition a) (\<lambda>lsn.
     bindV (answerV (ta_commit a)) (\<lambda>_.
     returnV \<lparr>ob_chunk = chunk, ob_source = source, ob_shadow = shadow, ob_lsn = lsn\<rparr>)))))"

text \<open>\<open>left\<close> counts the rereads allowed after this one.\<close>

fun settleRereads :: "nat \<Rightarrow> 'r verify_db \<Rightarrow> Verifier \<Rightarrow> LiveOptions \<Rightarrow> observation \<Rightarrow> int64 \<Rightarrow> ('r, verdict \<times> observation) pass" where
  "settleRereads left db v live prior rereads =
     bindV (awaitConfirmed prior rereads live) (\<lambda>_.
     bindV (observe db v (ob_chunk prior)) (\<lambda>now.
     bindV countReread (\<lambda>_.
     if judgeReads prior now \<noteq> verdictHot then returnV (judgeReads prior now, now)
     else case left of
       0 \<Rightarrow> bindV (readConfirmed live) (\<lambda>confirmed. failV (unresolvedError CauseHot now (rereads + 1) confirmed))
     | Suc left' \<Rightarrow> settleRereads left' db v live now (rereads + 1))))"

declare settleRereads.simps [simp del]

definition settleChunk :: "'r verify_db \<Rightarrow> Verifier \<Rightarrow> LiveOptions \<Rightarrow> observation \<Rightarrow> int64 \<Rightarrow> ('r, verdict \<times> observation) pass" where
  "settleChunk db v live prior rereads = settleRereads (nat (lo_Attempts live - rereads - 1)) db v live prior rereads"

fun settleAll ::
  "'r verify_db \<Rightarrow> Verifier \<Rightarrow> LiveOptions \<Rightarrow> observation list \<Rightarrow> Report \<Rightarrow> UnresolvedError option \<Rightarrow> ('r, Report \<times> UnresolvedError option) pass" where
  "settleAll db v live [] report first st = (Inr (report, first), st)"
| "settleAll db v live (prior # rest) report first st =
     (case settleChunk db v live prior 0 st of
        (Inl (ErrUnresolved u), st1) \<Rightarrow>
          settleAll db v live rest (report\<lparr>rp_Unsettled := rp_Unsettled report + 1\<rparr>)
            (case first of None \<Rightarrow> Some u | Some _ \<Rightarrow> first) st1
      | (Inl e, st1) \<Rightarrow> (Inl e, st1)
      | (Inr (result, now), st1) \<Rightarrow>
          (case result of
             verdictHot \<Rightarrow> (Inl (Violation ''CO-1''), st1)
           | verdictDiverged \<Rightarrow>
               settleAll db v live rest (report\<lparr>rp_Mismatches := rp_Mismatches report
                 @ [\<lparr>mm_Chunk = ob_chunk now, mm_Source = ob_source now, mm_Shadow = ob_shadow now\<rparr>]\<rparr>) first st1
           | _ \<Rightarrow> settleAll db v live rest (report\<lparr>rp_Settled := rp_Settled report + 1\<rparr>) first st1))"

definition sweepAndSettle ::
  "nat \<Rightarrow> (string list \<Rightarrow> string) \<Rightarrow> 'r verify_db \<Rightarrow> Verifier \<Rightarrow> Watermark \<Rightarrow> LiveOptions \<Rightarrow> 'r verify_state \<Rightarrow>
   ((verify_error + Report \<times> UnresolvedError option) \<times> 'r verify_state) option" where
  "sweepAndSettle fuel san db v through live st =
     (case digestStatements san db v st of
        (Inl e, st1) \<Rightarrow> Some (Inl e, st1)
      | (Inr _, st1) \<Rightarrow>
          (case sweep fuel db v through True st1 of
             None \<Rightarrow> None
           | Some (Inl e, st2) \<Rightarrow> Some (Inl e, st2)
           | Some (Inr (report, differing), st2) \<Rightarrow>
               Some (case settleAll db v live differing report None st2 of
                 (Inl e, st3) \<Rightarrow> (Inl e, st3)
               | (Inr result, st3) \<Rightarrow>
                   (case lockLost db st3 of Some lost \<Rightarrow> (Inl lost, st3) | None \<Rightarrow> (Inr result, st3)))))"

section \<open>Repairing a shadow the stream writes\<close>

definition pauseFlushes :: "LiveOptions \<Rightarrow> ('r, unit) pass" where
  "pauseFlushes live =
     bindV (askV (lo_Flushes live) None) (\<lambda>answer.
     bindV (orFail answer) (\<lambda>_ st. (Inr (), st\<lparr>vs_held := True\<rparr>)))"

definition recopyHeld :: "'r verify_db \<Rightarrow> Verifier \<Rightarrow> Mismatch list \<Rightarrow> ('r, Repair list \<times> LSN) pass" where
  "recopyHeld db v mismatches = onTick db (\<lambda>t.
     let a = vd_answers db t in
     bindV (verifierBegin v a) (\<lambda>_.
     bindV (answerV (ta_fence a)) (\<lambda>_.
     bindV (recopyIn db v t mismatches) (\<lambda>(repairs, shadow).
     bindV (markPosition a) (\<lambda>recopiedAt.
     bindV (commitShadow a shadow) (\<lambda>_.
     bindV (countRepaired (length repairs)) (\<lambda>_.
     returnV (repairs, recopiedAt))))))))"

definition recopyFenced :: "'r verify_db \<Rightarrow> Verifier \<Rightarrow> LiveOptions \<Rightarrow> Mismatch list \<Rightarrow> ('r, Repair list \<times> LSN) pass" where
  "recopyFenced db v live mismatches = (\<lambda>st.
     case pauseFlushes live st of
       (Inl e, st1) \<Rightarrow> (Inl e, st1)
     | (Inr _, st1) \<Rightarrow>
         let (r, st2) = recopyHeld db v mismatches st1 in (r, st2\<lparr>vs_held := False\<rparr>))"

definition settleRepair :: "'r verify_db \<Rightarrow> Verifier \<Rightarrow> LiveOptions \<Rightarrow> LSN \<Rightarrow> Repair \<Rightarrow> ('r, unit) pass" where
  "settleRepair db v live recopiedAt repair =
     (let chunk = mm_Chunk (rr_Mismatch repair);
          none = \<lparr>dg_Rows = 0, dg_Hash = ''''\<rparr>;
          prior = \<lparr>ob_chunk = chunk, ob_source = none, ob_shadow = none, ob_lsn = recopiedAt\<rparr> in
      bindV (awaitConfirmed prior 0 live) (\<lambda>_.
      bindV (observe db v chunk) (\<lambda>now.
      bindV countReread (\<lambda>_.
      if ob_source now = ob_shadow now then returnV ()
      else bindV (settleChunk db v live now 1) (\<lambda>(result, last).
        case result of
          verdictHot \<Rightarrow> failV (Violation ''CO-2'')
        | verdictDiverged \<Rightarrow>
            failV (RepairError repair \<lparr>mm_Chunk = chunk, mm_Source = ob_source last, mm_Shadow = ob_shadow last\<rparr>)
        | _ \<Rightarrow> returnV ())))))"

fun settleRepairs :: "'r verify_db \<Rightarrow> Verifier \<Rightarrow> LiveOptions \<Rightarrow> LSN \<Rightarrow> Repair list \<Rightarrow> ('r, unit) pass" where
  "settleRepairs db v live recopiedAt [] = returnV ()"
| "settleRepairs db v live recopiedAt (r # rs) =
     bindV (settleRepair db v live recopiedAt r) (\<lambda>_. settleRepairs db v live recopiedAt rs)"

definition repairLive ::
  "(string list \<Rightarrow> string) \<Rightarrow> 'r verify_db \<Rightarrow> Verifier \<Rightarrow> LiveOptions \<Rightarrow> Mismatch list \<Rightarrow> 'r verify_state \<Rightarrow>
   Repair list \<times> verify_error option \<times> 'r verify_state" where
  "repairLive san db v live mismatches st =
     (case digestStatements san db v st of
        (Inl e, st1) \<Rightarrow> ([], Some e, st1)
      | (Inr _, st1) \<Rightarrow>
          (case recopyFenced db v live mismatches st1 of
             (Inl e, st2) \<Rightarrow> ([], Some e, st2)
           | (Inr (repairs, recopiedAt), st2) \<Rightarrow>
               (case settleRepairs db v live recopiedAt repairs st2 of
                  (Inl e, st3) \<Rightarrow> (repairs, Some e, st3)
                | (Inr _, st3) \<Rightarrow> (repairs, None, st3))))"

section \<open>A live pass under a policy\<close>

definition actOnLiveReport ::
  "(string list \<Rightarrow> string) \<Rightarrow> 'r verify_db \<Rightarrow> Verifier \<Rightarrow> LiveOptions \<Rightarrow> DivergencePolicy \<Rightarrow> Report \<Rightarrow> UnresolvedError option \<Rightarrow>
   'r verify_state \<Rightarrow> Outcome \<times> verify_error option \<times> 'r verify_state" where
  "actOnLiveReport san db v live policy report unresolved st =
     (if Report_Clean report then (prove db v report True (vs_tick st), None, st)
      else if rp_Mismatches report = [] then (mkOutcome report [], map_option ErrUnresolved unresolved, st)
      else case policy of
        DivergenceAbort \<Rightarrow> (mkOutcome report [], Some (DivergenceError report), st)
      | DivergenceRepair \<Rightarrow>
          (case repairLive san db v live (rp_Mismatches report) st of
             (repairs, Some e, st1) \<Rightarrow> (mkOutcome report repairs, Some (passLostOr db st1 e), st1)
           | (repairs, None, st1) \<Rightarrow> (mkOutcome report repairs, map_option ErrUnresolved unresolved, st1))
      | _ \<Rightarrow> (mkOutcome report [], Some (Violation ''CO-3''), st))"

definition CheckLive ::
  "nat \<Rightarrow> (string list \<Rightarrow> string) \<Rightarrow> 'r verify_db \<Rightarrow> Verifier \<Rightarrow> Watermark \<Rightarrow> DivergencePolicy \<Rightarrow> LiveOptions \<Rightarrow> 'r verify_state \<Rightarrow>
   (Outcome \<times> verify_error option \<times> 'r verify_state) option" where
  "CheckLive fuel san db v through policy opts st =
     (let refuse = (\<lambda>e. Some (mkOutcome zeroReport [], Some e, st)); live = liveWithDefaults (vd_sleep db) opts in
      case policyValidate policy of
        Some e \<Rightarrow> refuse e
      | None \<Rightarrow>
          if policy = DivergenceRecopy then refuse ErrNoDivergencePolicy
          else (case liveValidate policy live of
            Some e \<Rightarrow> refuse e
          | None \<Rightarrow>
              (case startPass st of
                 Inl e \<Rightarrow> refuse e
               | Inr st1 \<Rightarrow>
                   if \<not> wm_valid through then Some (mkOutcome zeroReport [], Some ErrNothingLanded, stopPass st1)
                   else map_option (\<lambda>(oc, e, st2). (oc, e, stopPass st2))
                     (case sweepAndSettle fuel san db v through live st1 of
                        None \<Rightarrow> None
                      | Some (Inl e, st2) \<Rightarrow> Some (mkOutcome zeroReport [], Some (passLostOr db st2 e), st2)
                      | Some (Inr (report, unresolved), st2) \<Rightarrow>
                          Some (actOnLiveReport san db v live policy report unresolved st2)))))"


section \<open>What a live pass leaves alone\<close>

named_theorems reading_intro \<open>steps that write nothing\<close>

definition reading :: "'r verify_db \<Rightarrow> ('r, 'a) pass \<Rightarrow> bool" where
  "reading db m \<longleftrightarrow> (\<forall>st. reads db st (snd (m st)))"

lemma reading_still: "still m \<Longrightarrow> reading db m"
  by (simp add: still_def reading_def)

lemmas reading_stills [reading_intro] = still_return [THEN reading_still] still_fail [THEN reading_still]

lemma reading_bind [reading_intro]: "reading db m \<Longrightarrow> (\<And>a. reading db (f a)) \<Longrightarrow> reading db (bindV m f)"
  by (auto simp: reading_def bindV_def split: prod.splits sum.splits) (metis reads_trans snd_conv)+

lemma reading_ask [reading_intro]: "reading db (askV f d)"
  by (simp add: reading_def askV_def reads_def)

lemma reading_orFail [reading_intro]: "reading db (orFail a)"
  by (cases a) (simp_all add: orFail_def reading_intro)

lemma reading_count [reading_intro]: "reading db countReread"
  by (simp add: reading_def countReread_def countWork_sel)

lemma reading_await [reading_intro]: "reading db (awaitConfirmed prior rereads live)"
proof -
  have "reading db (awaitPolls left prior rereads live)" for left
    by (induction left) (auto simp: readConfirmed_def sleepPoll_def intro!: reading_intro)
  then show ?thesis by (simp add: awaitConfirmed_def)
qed

lemma observe_tick: "vs_tick (snd (observe db v chunk st)) = Suc (vs_tick st)"
  unfolding observe_def Let_def by (rule reads_onTick) (auto intro!: still_intro split: prod.splits)

lemma reading_observe [reading_intro]: "reading db (observe db v chunk)"
  unfolding reading_def observe_def Let_def by (intro allI reads_onTick) (auto intro!: still_intro split: prod.splits)

lemma reading_settleChunk [reading_intro]: "reading db (settleChunk db v live prior rereads)"
proof -
  have "reading db (settleRereads left db v live prior rereads)" for left
    by (induction left arbitrary: prior rereads; subst settleRereads.simps)
      (auto simp: readConfirmed_def intro!: reading_intro)
  then show ?thesis by (simp add: settleChunk_def)
qed

lemma settleAll_reads: "reads db st (snd (settleAll db v live obs report first st))"
proof (induction obs arbitrary: report first st)
  case (Cons prior rest)
  obtain r st1 where s: "settleChunk db v live prior 0 st = (r, st1)" by (cases "settleChunk db v live prior 0 st")
  have "reads db st st1" using reading_settleChunk [of db v live prior 0] s unfolding reading_def by (metis snd_conv)
  then show ?case using s Cons.IH by (auto intro: reads_trans split: sum.splits prod.splits verify_error.splits verdict.splits)
qed simp

lemma reads_tick: "reads db st st' \<Longrightarrow> vs_tick st \<le> vs_tick st'"
  by (simp add: reads_def)

section \<open>What the reads of a chunk say\<close>

definition confirmedAt :: "LiveOptions \<Rightarrow> nat \<Rightarrow> nat \<Rightarrow> LSN" where
  "confirmedAt live t n = (case lo_Confirmed live of Some f \<Rightarrow> f t n | None \<Rightarrow> 0)"

lemma awaitPolls_Inr:
  assumes "awaitPolls left prior rereads live st = (Inr u, st')"
  shows "\<exists>n. ob_lsn prior \<le> confirmedAt live (vs_tick st) n" "vs_tick st' = vs_tick st"
  using assms
  by (induction left arbitrary: st)
    (force simp: readConfirmed_def sleepPoll_def pass_Inr askV_def confirmedAt_def orFail_def split: if_splits option.splits)+

definition observed :: "'r verify_db \<Rightarrow> 'r verify_state \<Rightarrow> 'r verify_state \<Rightarrow> nat \<Rightarrow> observation \<Rightarrow> bool" where
  "observed db st st' t ob \<longleftrightarrow> vs_tick st \<le> t \<and> t < vs_tick st'
     \<and> honest db t (drift db (vs_shadow st) (vs_tick st) (Suc t)) (ob_chunk ob) (ob_source ob) (ob_shadow ob)
     \<and> ta_mark (vd_answers db t) = Inr (ob_lsn ob)"

lemma observed_sooner: "observed db st st1 t ob \<Longrightarrow> vs_tick st1 \<le> vs_tick st' \<Longrightarrow> observed db st st' t ob"
  by (simp add: observed_def)

lemma observe_Inr:
  assumes "observe db v chunk st = (Inr now, st')" "reads db st0 st"
  shows "observed db st0 st' (vs_tick st) now" "ob_chunk now = chunk"
proof -
  let ?t = "vs_tick st" and ?st = "st\<lparr>vs_tick := Suc (vs_tick st), vs_shadow := vd_between db (vs_tick st) (vs_shadow st)\<rparr>"
  obtain u st1 d st2 lsn st3 where b: "verifierBegin v (vd_answers db ?t) ?st = (Inr u, st1)"
      and d: "digestRange db ?t (chunk_lower chunk) (chunk_upper chunk) st1 = (Inr d, st2)"
      and m: "markPosition (vd_answers db ?t) st2 = (Inr lsn, st3)"
      and now: "now = \<lparr>ob_chunk = chunk, ob_source = fst d, ob_shadow = snd d, ob_lsn = lsn\<rparr>"
    using assms(1) by (auto simp: observe_def onTick_def Let_def pass_Inr split: prod.splits)
  have st1: "st1 = ?st" using still_state [OF still_begin b] .
  have "honest db ?t (vs_shadow st1) chunk (fst d) (snd d)"
    using digestRange_Inr(2) [of db ?t "chunk_lower chunk" "chunk_upper chunk" st1 "fst d" "snd d" st2 chunk] d by simp
  moreover have "ta_mark (vd_answers db ?t) = Inr lsn"
    using m by (auto simp: markPosition_def returnV_def failV_def split: sum.splits)
  moreover have "vs_tick st' = Suc ?t" using observe_tick [of db v chunk st] assms(1) by simp
  ultimately show "observed db st0 st' (vs_tick st) now"
    using assms(2) by (simp add: observed_def now st1 reads_def drift_Suc)
  show "ob_chunk now = chunk" by (simp add: now)
qed

text \<open>Two reads of one chunk, the later one made after the catch-up confirmed the marker of the earlier one.\<close>

definition settled_by :: "'r verify_db \<Rightarrow> LiveOptions \<Rightarrow> 'r verify_state \<Rightarrow> 'r verify_state \<Rightarrow> verdict \<Rightarrow> observation \<Rightarrow> bool" where
  "settled_by db live st st' result now \<longleftrightarrow>
     (\<exists>prior t1 t2 n. observed db st st' t1 prior \<and> observed db st st' t2 now \<and> t1 < t2
        \<and> ob_lsn prior \<le> confirmedAt live t2 n \<and> ob_chunk prior = ob_chunk now
        \<and> result = judgeReads prior now \<and> result \<noteq> verdictHot)"

lemma settleRereads_spec:
  assumes "settleRereads left db v live prior rereads st = (Inr (result, now), st')" "reads db st0 st" "observed db st0 st t0 prior"
  shows "settled_by db live st0 st' result now \<and> ob_chunk now = ob_chunk prior"
  using assms
proof (induction left arbitrary: prior rereads st t0 rule: nat_less_induct)
  case (1 left)
  obtain u st1 ob st2 st3 where w: "awaitConfirmed prior rereads live st = (Inr u, st1)"
      and o: "observe db v (ob_chunk prior) st1 = (Inr ob, st2)" and st3: "st3 = snd (countReread st2)"
      and k: "(if judgeReads prior ob \<noteq> verdictHot then returnV (judgeReads prior ob, ob)
         else case left of
           0 \<Rightarrow> bindV (readConfirmed live) (\<lambda>confirmed. failV (unresolvedError CauseHot ob (rereads + 1) confirmed))
         | Suc left' \<Rightarrow> settleRereads left' db v live ob (rereads + 1)) st3 = (Inr (result, now), st')"
    using "1.prems"(1) by (subst (asm) settleRereads.simps) (auto simp: bindV_Inr countReread_def countWork_def)
  have reads1: "reads db st0 st1" using reading_await w "1.prems"(2) unfolding reading_def by (metis reads_trans snd_conv)
  note ob = observe_Inr [OF o reads1]
  have "reads db st0 st2"
    using reading_observe [of db v "ob_chunk prior"] o reads1 unfolding reading_def by (metis reads_trans snd_conv)
  then have reads3: "reads db st0 st3" "vs_tick st3 = vs_tick st2" by (simp_all add: st3 countReread_def countWork_sel)
  have tick: "vs_tick st2 = Suc (vs_tick st1)" using observe_tick [of db v "ob_chunk prior" st1] o by simp
  obtain n where n: "ob_lsn prior \<le> confirmedAt live (vs_tick st1) n" and t1: "vs_tick st1 = vs_tick st"
    using awaitPolls_Inr [OF w [unfolded awaitConfirmed_def]] by auto
  have now3: "observed db st0 st3 (vs_tick st1) ob" using ob(1) reads3(2) by (simp add: observed_def)
  show ?case
  proof (cases "judgeReads prior ob = verdictHot")
    case False
    then have e: "result = judgeReads prior ob" "now = ob" "st' = st3" using k by (auto simp: returnV_def)
    have "observed db st0 st3 t0 prior" "t0 < vs_tick st1"
      using "1.prems"(3) t1 tick reads3(2) by (simp_all add: observed_def)
    then show ?thesis using now3 n False ob(2) unfolding settled_by_def e by metis
  next
    case True
    then obtain left' where left': "left = Suc left'" using k by (auto simp: pass_Inr split: nat.splits)
    then have "settleRereads left' db v live ob (rereads + 1) st3 = (Inr (result, now), st')" using k True by simp
    then show ?thesis using "1.IH" left' reads3(1) now3 ob(2) by fastforce
  qed
qed



lemma settleChunk_spec:
  assumes "settleChunk db v live prior rereads st = (Inr (result, now), st')" "reads db st0 st" "observed db st0 st t0 prior"
  shows "settled_by db live st0 st' result now" "ob_chunk now = ob_chunk prior"
  using settleRereads_spec [OF assms(1) [unfolded settleChunk_def] assms(2,3)] by simp_all

lemma settled_by_sooner: "settled_by db live st st1 result now \<Longrightarrow> vs_tick st1 \<le> vs_tick st' \<Longrightarrow> settled_by db live st st' result now"
  unfolding settled_by_def by (blast intro: observed_sooner)

definition mismatchNow :: "observation \<Rightarrow> Mismatch" where
  "mismatchNow now = \<lparr>mm_Chunk = ob_chunk now, mm_Source = ob_source now, mm_Shadow = ob_shadow now\<rparr>"

definition clears :: "'r verify_db \<Rightarrow> LiveOptions \<Rightarrow> 'r verify_state \<Rightarrow> 'r verify_state \<Rightarrow> observation \<Rightarrow> bool" where
  "clears db live st st' ob \<longleftrightarrow>
     (\<exists>result now. settled_by db live st st' result now \<and> ob_chunk now = ob_chunk ob \<and> result \<in> {verdictEqual, verdictSettled})"

lemma clears_sooner: "clears db live st st1 ob \<Longrightarrow> vs_tick st1 \<le> vs_tick st' \<Longrightarrow> clears db live st st' ob"
  unfolding clears_def by (blast intro: settled_by_sooner)

definition divergedIn :: "'r verify_db \<Rightarrow> LiveOptions \<Rightarrow> 'r verify_state \<Rightarrow> 'r verify_state \<Rightarrow> Chunk set \<Rightarrow> Mismatch \<Rightarrow> bool" where
  "divergedIn db live st st' C m \<longleftrightarrow>
     (\<exists>now. m = mismatchNow now \<and> ob_chunk now \<in> C \<and> settled_by db live st st' verdictDiverged now)"



lemma settleAll_spec:
  assumes "settleAll db v live obs report first st = (Inr (report', first'), st')" "reads db st0 st"
    and "\<forall>ob \<in> set obs. \<exists>t. observed db st0 st t ob" "ob_chunk ` set obs \<subseteq> C"
  shows "rp_Through report' = rp_Through report \<and> 0 \<le> rp_Unsettled report' - rp_Unsettled report
    \<and> (rp_Unsettled report' > rp_Unsettled report \<or> first \<noteq> None \<longrightarrow> first' \<noteq> None)
    \<and> (\<exists>ms. rp_Mismatches report' = rp_Mismatches report @ ms
        \<and> (\<forall>m \<in> set ms. divergedIn db live st0 st' C m)
        \<and> (ms = [] \<and> rp_Unsettled report' = rp_Unsettled report \<longrightarrow> (\<forall>ob \<in> set obs. clears db live st0 st' ob)))"
  using assms
proof (induction obs arbitrary: report first st)
  case (Cons prior rest)
  obtain r st1 where s: "settleChunk db v live prior 0 st = (r, st1)" by (cases "settleChunk db v live prior 0 st")
  have r1: "reads db st st1" using reading_settleChunk [of db v live prior 0] s unfolding reading_def by (metis snd_conv)
  then have reads1: "reads db st0 st1" using Cons.prems(2) reads_trans by blast
  have obs1: "\<forall>ob \<in> set rest. \<exists>t. observed db st0 st1 t ob"
    using Cons.prems(3) observed_sooner reads_tick [OF r1] by (meson list.set_intros(2))
  obtain t0 where t0: "observed db st0 st t0 prior" using Cons.prems(3) by auto
  have "ob_chunk ` set rest \<subseteq> C" using Cons.prems(4) by auto
  note IH = Cons.IH [OF _ reads1 obs1 this]
  have end': "reads db st1 st'" if "settleAll db v live rest rep fst' st1 = (Inr (report', first'), st')" for rep fst'
    using settleAll_reads [of db st1 v live rest rep fst'] that by simp
  show ?case
  proof (cases r)
    case (Inl e)
    then obtain u where "e = ErrUnresolved u" using Cons.prems(1) s by (cases e) auto
    then have "settleAll db v live rest (report\<lparr>rp_Unsettled := rp_Unsettled report + 1\<rparr>)
        (case first of None \<Rightarrow> Some u | Some _ \<Rightarrow> first) st1 = (Inr (report', first'), st')"
      using Cons.prems(1) s Inl by simp
    from IH [OF this] show ?thesis by (auto split: option.splits)
  next
    case (Inr p)
    obtain result now where p: "p = (result, now)" by (cases p)
    note sp = settleChunk_spec [OF s [unfolded Inr p] Cons.prems(2) t0]
    show ?thesis
    proof (cases "result = verdictDiverged")
      case True
      let ?rep = "report\<lparr>rp_Mismatches := rp_Mismatches report @ [mismatchNow now]\<rparr>"
      have go: "settleAll db v live rest ?rep first st1 = (Inr (report', first'), st')"
        using Cons.prems(1) s Inr p True by (simp add: mismatchNow_def)
      have "settled_by db live st0 st' verdictDiverged now"
        using sp(1) True end' [OF go] by (auto dest: reads_tick intro: settled_by_sooner)
      then have "divergedIn db live st0 st' C (mismatchNow now)" using sp(2) Cons.prems(4) unfolding divergedIn_def by auto
      with IH [OF go] show ?thesis by auto
    next
      case False
      then have res: "result \<in> {verdictEqual, verdictSettled}" using sp(1) by (cases result) (auto simp: settled_by_def)
      then have go: "settleAll db v live rest (report\<lparr>rp_Settled := rp_Settled report + 1\<rparr>) first st1 = (Inr (report', first'), st')"
        using Cons.prems(1) s Inr p by auto
      have "clears db live st0 st1 prior" using sp res unfolding clears_def by blast
      then have "clears db live st0 st' prior" using end' [OF go] by (auto dest: reads_tick intro: clears_sooner)
      with IH [OF go] show ?thesis by auto
    qed
  qed
qed simp



text \<open>
  The shadow was seen to hold what the source held: at tick \<open>t2\<close> the shadow's rows of the chunk have the
  digest of the source's rows at tick \<open>t1\<close>, and when \<open>t1\<close> is earlier, the catch-up had by then
  confirmed past the marker written at \<open>t1\<close>.
\<close>

definition reached :: "'r verify_db \<Rightarrow> LiveOptions \<Rightarrow> 'r verify_state \<Rightarrow> nat \<Rightarrow> nat \<Rightarrow> Chunk \<Rightarrow> bool" where
  "reached db live st t1 t2 chunk \<longleftrightarrow> vs_tick st \<le> t1 \<and> t1 \<le> t2
     \<and> (\<exists>d. honest db t1 (drift db (vs_shadow st) (vs_tick st) (Suc t2)) chunk d d)
     \<and> (t1 < t2 \<longrightarrow> (\<exists>lsn n. ta_mark (vd_answers db t1) = Inr lsn \<and> lsn \<le> confirmedAt live t2 n))"

lemma clears_reached:
  assumes "clears db live st st' ob"
  shows "\<exists>t1 t2. reached db live st t1 t2 (ob_chunk ob) \<and> t2 < vs_tick st'"
proof -
  obtain prior now t1 t2 n where o: "observed db st st' t1 prior" "observed db st st' t2 now" "t1 < t2"
      "ob_lsn prior \<le> confirmedAt live t2 n" "ob_chunk prior = ob_chunk ob" "ob_chunk now = ob_chunk ob"
      and j: "judgeReads prior now = verdictEqual \<or> judgeReads prior now = verdictSettled"
    using assms unfolding clears_def settled_by_def by auto
  from j consider "ob_shadow now = ob_source now" | "ob_shadow now = ob_source prior"
    by (auto simp: judgeReads_def split: if_splits)
  then show ?thesis
  proof cases
    case 1
    then have "reached db live st t2 t2 (ob_chunk ob)" using o by (auto simp: reached_def observed_def)
    then show ?thesis using o(2) by (auto simp: observed_def)
  next
    case 2
    have "honest db t1 (drift db (vs_shadow st) (vs_tick st) (Suc t2)) (ob_chunk ob) (ob_source prior) (ob_source prior)"
      using o(1,2,5,6) 2 by (auto simp: observed_def honest_def)
    then have "reached db live st t1 t2 (ob_chunk ob)" using o by (auto simp: reached_def observed_def)
    then show ?thesis using o(2) by (auto simp: observed_def)
  qed
qed

lemma compared_reached:
  assumes "compared db True st st' c" "\<not> differs c"
  shows "\<exists>t1 t2. reached db live st t1 t2 (cm_compared c) \<and> t2 < vs_tick st'"
  using assms unfolding compared_def reached_def by auto

lemma compared_observed:
  assumes "compared db True st st' c" "differs c"
  shows "\<exists>t. observed db st st' t (observationOf c)"
  using assms by (auto simp: compared_def observed_def observationOf_def)

lemma sweepAndSettle_spec:
  assumes "sweepAndSettle fuel san db v through live st = Some (Inr (report, unresolved), st')"
    and "wm_valid through" "is_int64 (wm_value through)" "cuts_ok db"
  shows "reads db st st'" "rp_Through report = through" "0 \<le> rp_Unsettled report" "0 < rp_Unsettled report \<Longrightarrow> unresolved \<noteq> None"
    "m \<in> set (rp_Mismatches report) \<Longrightarrow> \<exists>now. m = mismatchNow now \<and> chunk_upper (ob_chunk now) \<le> wm_value through
       \<and> settled_by db live st st' verdictDiverged now"
    "Report_Clean report \<Longrightarrow> \<exists>chunks. covers {} chunks (wm_keys through)
       \<and> (\<forall>c \<in> set chunks. \<exists>t1 t2. reached db live st t1 t2 c \<and> t2 < vs_tick st')"
proof -
  obtain texts st1 where ds: "digestStatements san db v st = (Inr texts, st1)"
    using assms(1) by (auto simp: sweepAndSettle_def split: prod.splits sum.splits)
  obtain report0 obs st2 where sw: "sweep fuel db v through True st1 = Some (Inr (report0, obs), st2)"
      and settled: "settleAll db v live obs report0 None st2 = (Inr (report, unresolved), st')"
    using assms(1) ds by (auto simp: sweepAndSettle_def split: option.splits sum.splits prod.splits)
  obtain chunker where ch: "NewChunker (vf_target v) zeroWatermark (vo_Chunker (vf_opts v)) = Inr chunker"
      and loop: "sweepLoop fuel db v through True chunker (emptyReport through) [] st1 = Some (Inr (report0, obs), st2)"
    using sw by (auto simp: sweep_def split: sum.splits)
  note ah = NewChunker_ahead [OF ch assms(2,3)]
  have st1: "reads db st st1" using digestStatements_reads [of db st san v] ds by simp
  from sweepLoop_spec [OF loop ah(1) assms(4)] ah(2) obtain cs where cs: "reads db st1 st2"
      "covers {} (map cm_compared cs) (wm_keys through)" "\<forall>c \<in> set cs. compared db True st1 st2 c"
      "swept True cs (emptyReport through) [] report0 obs"
    by auto
  have st2: "reads db st st2" using reads_trans [OF st1 cs(1)] .
  have st': "reads db st2 st'" using settleAll_reads [of db st2 v live obs report0 None] settled by simp
  have cmp: "compared db True st st2 c" if "c \<in> set cs" for c using cs(3) compared_later [OF st1] that by blast
  have obs: "obs = map observationOf (filter differs cs)" and rep0: "rp_Through report0 = through" "rp_Unsettled report0 = 0"
      "rp_Mismatches report0 = []"
    using cs(4) by (simp_all add: swept_def emptyReport_def)
  have seen: "\<forall>ob \<in> set obs. \<exists>t. observed db st st2 t ob" using cmp compared_observed unfolding obs by fastforce
  note sa = settleAll_spec [OF settled st2 seen order_refl]
  show "reads db st st'" using reads_trans [OF st2 st'] .
  show "rp_Through report = through" "0 \<le> rp_Unsettled report" "0 < rp_Unsettled report \<Longrightarrow> unresolved \<noteq> None"
    using sa rep0 by auto
  have "chunk_upper (ob_chunk ob) \<le> wm_value through" if ob: "ob \<in> set obs" for ob
  proof -
    obtain c where c: "c \<in> set cs" "ob_chunk ob = cm_compared c" using ob by (auto simp: obs observationOf_def)
    then have "chunk_keys (cm_compared c) \<noteq> {}" "chunk_keys (cm_compared c) \<subseteq> wm_keys through" using cs(2) by (auto simp: covers_def)
    then show ?thesis using c(2) by (auto simp: chunk_keys_def wm_keys_def split: if_splits)
  qed
  then show "m \<in> set (rp_Mismatches report) \<Longrightarrow> \<exists>now. m = mismatchNow now \<and> chunk_upper (ob_chunk now) \<le> wm_value through
       \<and> settled_by db live st st' verdictDiverged now"
    using sa rep0(3) unfolding divergedIn_def by fastforce
  assume "Report_Clean report"
  then have clear: "\<forall>ob \<in> set obs. clears db live st st' ob" using sa rep0 by (auto simp: Report_Clean_def)
  have "\<exists>t1 t2. reached db live st t1 t2 (cm_compared c) \<and> t2 < vs_tick st'" if c: "c \<in> set cs" for c
  proof (cases "differs c")
    case True
    then have "clears db live st st' (observationOf c)" using clear c obs by auto
    from clears_reached [OF this] show ?thesis by (simp add: observationOf_def)
  next
    case False
    from compared_reached [OF cmp [OF c] False] reads_tick [OF st'] show ?thesis by (meson order_less_le_trans)
  qed
  then show "\<exists>chunks. covers {} chunks (wm_keys through)
       \<and> (\<forall>c \<in> set chunks. \<exists>t1 t2. reached db live st t1 t2 c \<and> t2 < vs_tick st')"
    using cs(2) by (intro exI [of _ "map cm_compared cs"]) auto
qed



lemma CheckLive_cases:
  assumes "CheckLive fuel san db v through policy opts st = Some (oc, e, st')"
  obtains (refused) "oc = mkOutcome zeroReport []" "e \<noteq> None"
    | (acted) st1 report unresolved st2 st3 where "startPass st = Inr st1" "wm_valid through"
        "sweepAndSettle fuel san db v through (liveWithDefaults (vd_sleep db) opts) st1 = Some (Inr (report, unresolved), st2)"
        "actOnLiveReport san db v (liveWithDefaults (vd_sleep db) opts) policy report unresolved st2 = (oc, e, st3)" "st' = stopPass st3"
  using assms by (cases e) (auto simp: CheckLive_def Let_def split: option.splits if_splits sum.splits prod.splits)

lemma actOnLiveReport_report:
  assumes "actOnLiveReport san db v live policy report unresolved st = (oc, e, st')"
  shows "rp_Mismatches (oc_Report oc) = rp_Mismatches report" "Outcome_Clean oc \<Longrightarrow> Report_Clean report \<and> st' = st"
    "\<not> Report_Clean report \<Longrightarrow> \<not> Outcome_Clean oc"
  using assms
  by (auto simp: actOnLiveReport_def prove_def Let_def mkOutcome_def Outcome_Clean_def split: if_splits DivergencePolicy.splits prod.splits option.splits)

lemma startPass_sel: "startPass st = Inr st1 \<Longrightarrow> vs_tick st1 = vs_tick st \<and> vs_shadow st1 = vs_shadow st \<and> vs_held st1 = vs_held st"
  by (auto simp: startPass_def split: if_splits)

lemma stopPass_sel [simp]: "vs_tick (stopPass st) = vs_tick st" "vs_shadow (stopPass st) = vs_shadow st" "vs_held (stopPass st) = vs_held st"
  by (simp_all add: stopPass_def)

text \<open>
  C7: A live pass mints its proof only for chunks the shadow was seen to reach. When a live pass mints the
  clean watermark it reported no error and repaired nothing, and chunks that tile the keys at or
  below the watermark each have two ticks of the pass, the first no later than the second, such that
  at the second the shadow held exactly the converted rows the source held at the first; where
  the ticks differ, the catch-up had meanwhile confirmed past the marker of the first. The
  verified shadow it mints for the complete watermark is marked as a live pass's.
\<close>
theorem live_proof_means_reached:
  assumes "CheckLive fuel san db v through policy opts st = Some (oc, e, st')" "Outcome_Clean oc"
    and "is_int64 (wm_value through)" "cuts_ok db"
    and "\<forall>t1 t2. separates (vd_conv db) (vd_hash db) (vd_source db t1 0) (drift db (vs_shadow st) (vs_tick st) t2)"
  shows "e = None \<and> oc_Repairs oc = [] \<and> oc_clean oc = through
    \<and> (\<exists>chunks. covers {} chunks (wm_keys through) \<and> (\<forall>c \<in> set chunks. \<exists>t1 t2. t2 < vs_tick st'
        \<and> reached db (liveWithDefaults (vd_sleep db) opts) st t1 t2 c
        \<and> agree (vd_conv db) (vd_source db t1 0) (drift db (vs_shadow st) (vs_tick st) (Suc t2)) (chunk_keys c)))
    \<and> (\<forall>proof'. Outcome_VerifiedShadow oc = Some proof' \<longrightarrow> vp_live proof' \<and> Complete through)"
  using assms(1)
proof (cases rule: CheckLive_cases)
  case refused
  then show ?thesis using assms(2) by (simp add: mkOutcome_def Outcome_Clean_def)
next
  case (acted st1 report unresolved st2 st3)
  let ?live = "liveWithDefaults (vd_sleep db) opts"
  have clean: "Report_Clean report" "st3 = st2" using actOnLiveReport_report(2) [OF acted(4) assms(2)] by simp_all
  then have oc: "oc = prove db v report True (vs_tick st2)" "e = None" using acted(4) by (simp_all add: actOnLiveReport_def)
  note sp = sweepAndSettle_spec [OF acted(3,2) assms(3,4)]
  note same = startPass_sel [OF acted(1)]
  obtain chunks where chunks: "covers {} chunks (wm_keys through)"
      "\<forall>c \<in> set chunks. \<exists>t1 t2. reached db ?live st1 t1 t2 c \<and> t2 < vs_tick st2"
    using sp(6) [OF clean(1)] by blast
  have "\<exists>t1 t2. t2 < vs_tick st' \<and> reached db ?live st t1 t2 c
      \<and> agree (vd_conv db) (vd_source db t1 0) (drift db (vs_shadow st) (vs_tick st) (Suc t2)) (chunk_keys c)"
    if c: "c \<in> set chunks" for c
  proof -
    have "reached db ?live st1 = reached db ?live st" by (simp add: fun_eq_iff reached_def same)
    then obtain t1 t2 where t: "reached db ?live st t1 t2 c" "t2 < vs_tick st2" using bspec [OF chunks(2) c] by auto
    then obtain d where "honest db t1 (drift db (vs_shadow st) (vs_tick st) (Suc t2)) c d d" by (auto simp: reached_def)
    from honest_agree [OF this] assms(5) t acted(5) clean(2) show ?thesis by auto
  qed
  then show ?thesis using oc chunks(1) sp(2)
    by (auto simp: prove_sel prove_def Let_def Outcome_VerifiedShadow_def mkOutcome_def newVerifiedShadow_def noVerifiedShadow_def
        split: if_splits)
qed



section \<open>When a divergence is reported\<close>

text \<open>
  The stream is the shadow's only writer: at tick \<open>t\<close> the shadow's rows at or below the watermark are the
  converted rows the source held at an earlier tick \<open>lag t\<close>, and once the catch-up confirms a position
  at or past the marker of a tick, the shadow has everything the source held at it.
\<close>

definition streamed :: "'r verify_db \<Rightarrow> LiveOptions \<Rightarrow> Watermark \<Rightarrow> (nat \<Rightarrow> nat) \<Rightarrow> bool" where
  "streamed db live through lag \<longleftrightarrow>
     (\<forall>t. lag t \<le> t)
     \<and> (\<forall>t shadow lower upper. upper \<le> wm_value through \<longrightarrow>
          (\<exists>rows. selectRows (vd_conv db) (rowsBetween lower upper (vd_source db (lag t) 0)) = Inr rows
             \<and> sort_key fst rows = sort_key fst (rowsBetween lower upper (vd_between db t shadow))))
     \<and> (\<forall>t1 t2 n lsn. t1 < t2 \<and> ta_mark (vd_answers db t1) = Inr lsn \<and> lsn \<le> confirmedAt live t2 n \<longrightarrow> t1 \<le> lag t2)"

definition sourceDigest :: "'r verify_db \<Rightarrow> nat \<Rightarrow> Chunk \<Rightarrow> Digest option" where
  "sourceDigest db t chunk =
     (case selectRows (vd_conv db) (rowsBetween (chunk_lower chunk) (chunk_upper chunk) (vd_source db t 0)) of
        Inl _ \<Rightarrow> None
      | Inr rows \<Rightarrow> Some (digestOf (vd_hash db) rows))"

lemma honest_sourceDigest: "honest db t shadow chunk source other \<Longrightarrow> sourceDigest db t chunk = Some source"
  by (auto simp: honest_def sourceDigest_def)

lemma digestOf_sorted: "sort_key fst rows = sort_key fst rows' \<Longrightarrow> digestOf hash rows = digestOf hash rows'"
  by (simp add: digestOf_def) (metis length_sort)

lemma streamed_shadow:
  assumes "streamed db live through lag" "honest db t (drift db shadow t0 (Suc t)) chunk source other" "t0 \<le> t"
    and "chunk_upper chunk \<le> wm_value through"
  shows "sourceDigest db (lag t) chunk = Some other"
proof -
  obtain rows where rows: "selectRows (vd_conv db) (rowsBetween (chunk_lower chunk) (chunk_upper chunk) (vd_source db (lag t) 0)) = Inr rows"
      "sort_key fst rows = sort_key fst (rowsBetween (chunk_lower chunk) (chunk_upper chunk) (vd_between db t (drift db shadow t0 t)))"
    using assms(1,4) unfolding streamed_def by blast
  then show ?thesis using assms(2,3) digestOf_sorted [OF rows(2)] by (simp add: honest_def sourceDigest_def drift_Suc)
qed

lemma diverged_revisits:
  assumes "settled_by db live st st' verdictDiverged now" "streamed db live through lag" "chunk_upper (ob_chunk now) \<le> wm_value through"
  shows "\<exists>t1 t t2. vs_tick st \<le> t1 \<and> t1 < t \<and> t < t2 \<and> t2 < vs_tick st'
    \<and> sourceDigest db t1 (ob_chunk now) = sourceDigest db t2 (ob_chunk now)
    \<and> sourceDigest db t (ob_chunk now) \<noteq> sourceDigest db t1 (ob_chunk now)"
proof -
  obtain prior t1 t2 n where o: "observed db st st' t1 prior" "observed db st st' t2 now" "t1 < t2"
      "ob_lsn prior \<le> confirmedAt live t2 n" "ob_chunk prior = ob_chunk now" and j: "judgeReads prior now = verdictDiverged"
    using assms(1) unfolding settled_by_def by auto
  have eq: "ob_source now = ob_source prior" "ob_shadow now \<noteq> ob_source now" using j by (auto simp: judgeReads_def split: if_splits)
  have d: "sourceDigest db t1 (ob_chunk now) = Some (ob_source now)" "sourceDigest db t2 (ob_chunk now) = Some (ob_source now)"
    using o(1,2,5) eq by (auto simp: observed_def dest: honest_sourceDigest)
  have s: "sourceDigest db (lag t2) (ob_chunk now) = Some (ob_shadow now)"
    using streamed_shadow [OF assms(2) _ _ assms(3)] o(2) by (auto simp: observed_def)
  have "t1 \<le> lag t2" "lag t2 \<le> t2" using assms(2) o(1,3,4) unfolding streamed_def observed_def by blast+
  moreover have "lag t2 \<noteq> t1" "lag t2 \<noteq> t2" using d s eq(2) by auto
  ultimately show ?thesis using d s eq(2) o(1,2)
    by (intro exI [of _ t1] exI [of _ "lag t2"] exI [of _ t2]) (auto simp: observed_def)
qed



section \<open>A live pass ends with the flushes released\<close>

definition calm :: "'r verify_state \<Rightarrow> 'r verify_state \<Rightarrow> bool" where
  "calm st st' \<longleftrightarrow> vs_tick st \<le> vs_tick st' \<and> (\<not> vs_held st \<longrightarrow> \<not> vs_held st') \<and> vs_running st' = vs_running st"

lemma calm_refl [simp]: "calm st st"
  by (simp add: calm_def)

lemma calm_trans: "calm st st1 \<Longrightarrow> calm st1 st2 \<Longrightarrow> calm st st2"
  by (auto simp: calm_def)

lemma reads_calm: "reads db st st' \<Longrightarrow> calm st st'"
  by (simp add: reads_def calm_def)

lemma reading_calm: "reading db m \<Longrightarrow> m st = (r, st') \<Longrightarrow> calm st st'"
  unfolding reading_def by (metis reads_calm snd_conv)

definition keepsTick :: "('r, 'a) pass \<Rightarrow> bool" where
  "keepsTick m \<longleftrightarrow> (\<forall>st. vs_tick (snd (m st)) = vs_tick st \<and> vs_running (snd (m st)) = vs_running st)"

lemma keepsTick_still: "still m \<Longrightarrow> keepsTick m"
  by (simp add: still_def keepsTick_def)

lemmas keepsTick_stills = still_begin [THEN keepsTick_still] still_answer [THEN keepsTick_still] still_recopyIn [THEN keepsTick_still]
  still_mark [THEN keepsTick_still] still_return [THEN keepsTick_still]

lemma keepsTick_bind: "keepsTick m \<Longrightarrow> (\<And>a. keepsTick (f a)) \<Longrightarrow> keepsTick (bindV m f)"
  by (auto simp: keepsTick_def bindV_def split: prod.splits sum.splits) (metis snd_conv)+

lemma keepsTick_write: "keepsTick (commitShadow a shadow)" "keepsTick (countRepaired n)"
  by (auto simp: keepsTick_def commitShadow_def countRepaired_def countWork_def split: option.splits)

lemma recopyHeld_tick:
  "vs_tick (snd (recopyHeld db v ms st)) = Suc (vs_tick st)" "vs_running (snd (recopyHeld db v ms st)) = vs_running st"
proof -
  let ?a = "vd_answers db (vs_tick st)"
  have "keepsTick (bindV (verifierBegin v ?a) (\<lambda>_.
     bindV (answerV (ta_fence ?a)) (\<lambda>_.
     bindV (recopyIn db v (vs_tick st) ms) (\<lambda>(repairs, shadow).
     bindV (markPosition ?a) (\<lambda>recopiedAt.
     bindV (commitShadow ?a shadow) (\<lambda>_.
     bindV (countRepaired (length repairs)) (\<lambda>_.
     returnV (repairs, recopiedAt))))))))"
    by (auto intro!: keepsTick_bind keepsTick_write keepsTick_stills split: prod.splits)
  then show "vs_tick (snd (recopyHeld db v ms st)) = Suc (vs_tick st)" "vs_running (snd (recopyHeld db v ms st)) = vs_running st"
    by (simp_all add: recopyHeld_def onTick_def Let_def keepsTick_def)
qed

lemma recopyFenced_calm:
  assumes "recopyFenced db v live ms st = (r, st')"
  shows "calm st st'"
proof -
  obtain p st1 where pause: "pauseFlushes live st = (p, st1)" by (cases "pauseFlushes live st")
  have st1: "vs_tick st1 = vs_tick st" "vs_running st1 = vs_running st" "p = Inl e \<Longrightarrow> vs_held st1 = vs_held st" for e
    using pause by (auto simp: pauseFlushes_def bindV_def askV_def orFail_def returnV_def failV_def split: option.splits)
  show ?thesis
  proof (cases p)
    case (Inl e)
    then show ?thesis using assms pause st1 by (auto simp: recopyFenced_def calm_def)
  next
    case (Inr u)
    then show ?thesis using assms pause st1(1,2) recopyHeld_tick [of db v ms st1]
      by (auto simp: recopyFenced_def calm_def Let_def split: prod.splits)
  qed
qed

lemma settleRepairs_calm: "settleRepairs db v live pos repairs st = (r, st') \<Longrightarrow> calm st st'"
proof -
  have "reading db (settleRepair db v live pos repair)" for repair
    unfolding settleRepair_def Let_def by (auto intro!: reading_intro split: prod.splits verdict.splits)
  then have "reading db (settleRepairs db v live pos repairs)" by (induction repairs) (auto intro!: reading_intro)
  then show "settleRepairs db v live pos repairs st = (r, st') \<Longrightarrow> calm st st'" by (rule reading_calm)
qed

lemma repairLive_calm:
  assumes "repairLive san db v live ms st = (repairs, e, st')"
  shows "calm st st'"
proof -
  obtain d st1 where d: "digestStatements san db v st = (d, st1)" by (cases "digestStatements san db v st")
  have c1: "calm st st1" using digestStatements_reads [of db st san v] d by (auto intro: reads_calm)
  obtain q st2 where q: "recopyFenced db v live ms st1 = (q, st2)" by (cases "recopyFenced db v live ms st1")
  have c2: "calm st st2" using calm_trans [OF c1 recopyFenced_calm [OF q]] .
  have c3: "settleRepairs db v live pos rs st2 = (r, st3) \<Longrightarrow> calm st st3" for pos rs r st3
    using calm_trans [OF c2 settleRepairs_calm] .
  show ?thesis using assms d q c1 c2 c3 by (auto simp: repairLive_def split: sum.splits prod.splits)
qed

lemma actOnLiveReport_calm:
  assumes "actOnLiveReport san db v live policy report unresolved st = (oc, e, st')"
  shows "calm st st'"
  using assms repairLive_calm [of san db v live "rp_Mismatches report" st]
  by (auto simp: actOnLiveReport_def split: if_splits DivergencePolicy.splits prod.splits option.splits)

lemma sweepAndSettle_total:
  assumes "is_int64 (wm_value through)" "cuts_ok db" "2 ^ 64 < fuel" "wm_valid through"
  shows "\<exists>r. sweepAndSettle fuel san db v through live st = Some r"
proof -
  have sw: "\<exists>r. sweep fuel db v through True st = Some r" for st using sweep_total [OF assms] .
  obtain d st1 where d: "digestStatements san db v st = (d, st1)" by (cases "digestStatements san db v st")
  obtain w st2 where "sweep fuel db v through True st1 = Some (w, st2)" using sw [of st1] by auto
  then show ?thesis using d by (cases d; cases w) (auto simp: sweepAndSettle_def)
qed


lemma sweepLoop_calm: "sweepLoop fuel db v through live chunker report differing st = Some (r, st') \<Longrightarrow> calm st st'"
proof (induction fuel arbitrary: chunker report differing st)
  case (Suc fuel)
  obtain q st1 where step: "compareNext db v through live chunker st = (q, st1)" by (cases "compareNext db v through live chunker st")
  have c1: "calm st (st1\<lparr>vs_work := w\<rparr>)" "calm st st1" for w
    using compareNext_reads(1) [of db st v through live chunker] step by (auto dest!: reads_calm simp: calm_def)
  show ?case
  proof (cases "\<exists>c chunker1. q = Inr (Some c, chunker1)")
    case False
    then show ?thesis using Suc.prems step c1 by (cases q) (auto split: option.splits)
  next
    case True
    then obtain c chunker1 where q: "q = Inr (Some c, chunker1)" by blast
    obtain w where w: "(if differs c then snd (countMismatch (snd (countCompared (dg_Rows (cm_source c)) st1)))
        else snd (countCompared (dg_Rows (cm_source c)) st1)) = st1\<lparr>vs_work := w\<rparr>"
      by (cases "differs c") (auto simp: countMismatch_def countCompared_def countWork_sel)
    obtain report1 differing1 where "countChunk live c report differing = (report1, differing1)" by fastforce
    then have "(r, st') = (r, st1\<lparr>vs_work := w\<rparr>)
        \<or> (\<exists>chunker2. sweepLoop fuel db v through live chunker2 report1 differing1 (st1\<lparr>vs_work := w\<rparr>) = Some (r, st'))"
      using Suc.prems step q w by (auto simp: Let_def split: if_splits sum.splits)
    then show ?thesis using c1 Suc.IH calm_trans by blast
  qed
qed simp

lemma sweepAndSettle_calm:
  assumes "sweepAndSettle fuel san db v through live st = Some (r, st')"
  shows "calm st st'"
proof -
  obtain d st1 where d: "digestStatements san db v st = (d, st1)" by (cases "digestStatements san db v st")
  have c1: "calm st st1" using digestStatements_reads [of db st san v] d by (auto intro: reads_calm)
  have c2: "calm st st2" if "sweep fuel db v through True st1 = Some (w, st2)" for w st2
    using that c1 sweepLoop_calm calm_trans by (fastforce simp: sweep_def split: sum.splits)
  have c3: "calm st st3" if "sweep fuel db v through True st1 = Some (w, st2)" "settleAll db v live obs report None st2 = (q, st3)"
    for w st2 obs report q st3
    using settleAll_reads [of db st2 v live obs report None] c2 [OF that(1)] that(2) by (auto intro: reads_calm calm_trans)
  show ?thesis using assms d c1 c2 c3 by (auto simp: sweepAndSettle_def split: option.splits sum.splits prod.splits)
qed



text \<open>
  C33: A live pass ends and gives the flushes back. Whatever the server, the catch-up and the clock answer, with
  fuel for one comparison of each key value a live pass returns; it is then no longer registered
  as running, and the catch-up's flushes are not held unless they were before.
\<close>
theorem CheckLive_returns:
  assumes "is_int64 (wm_value through)" "cuts_ok db" "2 ^ 64 < fuel" "\<not> vs_held st"
  shows "\<exists>oc e st'. CheckLive fuel san db v through policy opts st = Some (oc, e, st') \<and> \<not> vs_held st' \<and> vs_running st' = vs_running st"
proof -
  let ?live = "liveWithDefaults (vd_sleep db) opts"
  have "\<exists>oc e st'. CheckLive fuel san db v through policy opts st = Some (oc, e, st') \<and> \<not> vs_held st' \<and> vs_running st' = vs_running st"
    if go: "policyValidate policy = None" "policy \<noteq> DivergenceRecopy" "liveValidate policy ?live = None" "startPass st = Inr st1"
      "wm_valid through" for st1
  proof -
    obtain r st2 where ss: "sweepAndSettle fuel san db v through ?live st1 = Some (r, st2)"
      using sweepAndSettle_total [OF assms(1-3) go(5)] by fastforce
    have idle: "\<not> vs_running st" "\<not> vs_held st1" using go(4) assms(4) by (auto simp: startPass_def split: if_splits)
    have c2: "\<not> vs_held st2" using sweepAndSettle_calm [OF ss] idle(2) by (simp add: calm_def)
    have c3: "actOnLiveReport san db v ?live policy report u st2 = (oc, e, st3) \<Longrightarrow> \<not> vs_held st3" for report u oc e st3
      using actOnLiveReport_calm [of san db v ?live policy report u st2] c2 by (auto simp: calm_def)
    show ?thesis
    proof (cases r)
      case (Inl e)
      then show ?thesis using go ss idle c2 by (auto simp: CheckLive_def Let_def stopPass_def)
    next
      case (Inr q)
      obtain oc e st3 where act: "actOnLiveReport san db v ?live policy (fst q) (snd q) st2 = (oc, e, st3)" by (metis prod_cases3)
      then have "CheckLive fuel san db v through policy opts st = Some (oc, e, stopPass st3)"
        using go ss Inr by (cases q) (simp add: CheckLive_def Let_def)
      then show ?thesis using c3 [OF act] idle by (simp add: stopPass_def)
    qed
  qed
  moreover have "policyValidate policy = None \<Longrightarrow> startPass st = Inr st1 \<Longrightarrow> \<not> vs_held (stopPass st1) \<and> vs_running (stopPass st1) = vs_running st" for st1
    using assms(4) by (auto simp: startPass_def stopPass_def split: if_splits)
  ultimately show ?thesis using assms(4)
    by (cases "policyValidate policy"; cases "liveValidate policy ?live"; cases "startPass st"; cases "wm_valid through")
      (auto simp: CheckLive_def Let_def)
qed



section \<open>Witnesses\<close>

definition rowsHash :: "string table \<Rightarrow> string" where
  "rowsHash rows = concat (map snd rows)"

definition twoCuts :: tx_answers where
  "twoCuts = fairAnswers\<lparr>ta_cut := boundaryQuery [1, 2, 3]\<rparr>"

text \<open>A source whose first row is written back and forth, and a stream that is one tick behind.\<close>

definition flipSource :: "nat \<Rightarrow> string table" where
  "flipSource t = [(1, if even t then ''b'' else ''a''), (3, ''c'')]"

definition flipDb :: "string verify_db" where
  "flipDb = fairDb\<lparr>vd_source := \<lambda>t _. flipSource t, vd_between := \<lambda>t _. flipSource (t - 1), vd_answers := \<lambda>_. twoCuts, vd_hash := rowsHash\<rparr>"

definition keenOptions :: LiveOptions where
  "keenOptions = \<lparr>lo_Confirmed = Some (\<lambda>_ _. 9), lo_Flushes = None, lo_Attempts = 0, lo_SettleWait = 0, lo_Poll = 0, lo_Sleep = None\<rparr>"

definition mismatches :: "(Outcome \<times> verify_error option \<times> string verify_state) option \<Rightarrow> Mismatch list" where
  "mismatches r = (case r of Some (oc, _, _) \<Rightarrow> rp_Mismatches (oc_Report oc) | None \<Rightarrow> [])"

lemma flip_check:
  "map (\<lambda>m. (chunk_upper (mm_Chunk m), dg_Hash (mm_Source m), dg_Hash (mm_Shadow m)))
     (mismatches (CheckLive 5 (join ''.'') flipDb fairVerifier (NewWatermark 5) DivergenceAbort keenOptions (idleState [])))
     = [(2, ''a'', ''b'')]"
  by code_simp

lemma selectRows_Inr: "selectRows Inr rows = Inr rows"
  by (induction rows) auto

lemma flip_streamed: "streamed flipDb live through (\<lambda>t. t - 1)"
  by (auto simp: streamed_def flipDb_def fairDb_def selectRows_Inr)

lemma flip_cuts: "cuts_ok flipDb"
  by (simp add: cuts_ok_def flipDb_def fairDb_def twoCuts_def fairAnswers_def boundaryQuery_db_ok is_int64_def int64_simps)


text \<open>A shadow that receives the source's row only after the sweep has read the chunk.\<close>

definition lateDb :: "string verify_db" where
  "lateDb = fairDb\<lparr>vd_source := \<lambda>t _. if t \<le> 1 then oneRow else [(1, ''b'')], vd_between := \<lambda>t _. if t < 2 then [] else oneRow,
     vd_hash := rowsHash\<rparr>"

lemma late_check:
  "passed (CheckLive 5 (join ''.'') lateDb fairVerifier (NewWatermark MaxInt64) DivergenceAbort keenOptions (idleState [])) True"
  by code_simp

lemma late_separates: "separates (vd_conv lateDb) (vd_hash lateDb) (vd_source lateDb t1 0) (drift lateDb [] 0 t2)"
proof -
  have "drift lateDb [] 0 t2 = [] \<or> drift lateDb [] 0 t2 = oneRow"
    by (cases t2) (simp_all add: drift_Suc lateDb_def)
  moreover have "sh = [] \<or> sh = oneRow \<Longrightarrow> separates (vd_conv lateDb) (vd_hash lateDb) (vd_source lateDb t1 0) sh" for sh
    unfolding separates_def by (auto simp: lateDb_def fairDb_def selectRows_Inr rowsBetween_def oneRow_def rowsHash_def)
  ultimately show ?thesis by blast
qed

text \<open>With a single attempt a repaired chunk that keeps changing is read twice.\<close>

definition busyDb :: "string verify_db" where
  "busyDb = fairDb\<lparr>vd_source := \<lambda>t _. [(1, replicate (Suc t) CHR ''a'')], vd_between := \<lambda>_ _. [(1, ''b'')], vd_hash := rowsHash\<rparr>"

definition rereadsOf :: "(verify_error + unit) \<times> string verify_state \<Rightarrow> int64" where
  "rereadsOf r = (case fst r of Inl (ErrUnresolved u) \<Rightarrow> ue_Rereads u | _ \<Rightarrow> 0)"

lemma one_attempt_two_rereads:
  "rereadsOf (settleRepair busyDb fairVerifier (liveWithDefaults (vd_sleep busyDb) (keenOptions\<lparr>lo_Attempts := 1\<rparr>)) 1
     \<lparr>rr_Mismatch = wholeMismatch, rr_Removed = 0, rr_Inserted = 0\<rparr> (idleState [])) = 2"
  by code_simp

theorem live_proof_means_reached_witness:
  "\<exists>oc st' chunks. CheckLive 5 (join ''.'') lateDb fairVerifier (NewWatermark MaxInt64) DivergenceAbort keenOptions (idleState []) = Some (oc, None, st')
     \<and> covers {} chunks (wm_keys (NewWatermark MaxInt64)) \<and> (\<forall>c \<in> set chunks. \<exists>t1 t2.
        agree (vd_conv lateDb) (vd_source lateDb t1 0) (drift lateDb [] 0 (Suc t2)) (chunk_keys c))"
proof -
  obtain oc st' where run: "CheckLive 5 (join ''.'') lateDb fairVerifier (NewWatermark MaxInt64) DivergenceAbort keenOptions (idleState []) = Some (oc, None, st')"
      and clean: "Outcome_Clean oc"
    using passedE [OF late_check] by blast
  have int: "is_int64 (wm_value (NewWatermark MaxInt64))" by (simp add: is_int64_def int64_simps)
  have cuts: "cuts_ok lateDb"
    by (simp add: cuts_ok_def lateDb_def fairDb_def fairAnswers_def boundaryQuery_db_ok is_int64_def int64_simps)
  have "\<forall>t1 t2. separates (vd_conv lateDb) (vd_hash lateDb) (vd_source lateDb t1 0)
      (drift lateDb (vs_shadow (idleState [])) (vs_tick (idleState [])) t2)"
    using late_separates by (simp add: idleState_def)
  note live = live_proof_means_reached [OF run clean int cuts this]
  have same: "vs_shadow (idleState sh) = sh" "vs_tick (idleState sh) = 0" for sh by (simp_all add: idleState_def)
  from live [unfolded same] run show ?thesis by blast
qed

theorem CheckLive_returns_witness:
  "\<exists>oc e st'. CheckLive (2 ^ 64 + 1) (join ''.'') flipDb fairVerifier (NewWatermark 5) DivergenceRepair
       (keenOptions\<lparr>lo_Flushes := Some (\<lambda>_ _. None)\<rparr>) (idleState []) = Some (oc, e, st') \<and> \<not> vs_held st'"
  using CheckLive_returns [of "NewWatermark 5" flipDb "2 ^ 64 + 1" "idleState []" "join ''.''" fairVerifier DivergenceRepair
      "keenOptions\<lparr>lo_Flushes := Some (\<lambda>_ _. None)\<rparr>"] flip_cuts
  by (auto simp: is_int64_def int64_simps idleState_def)

end
