(* ===== verification/Shadow_Refusal.thy ===== *)
theory Shadow_Refusal
  imports Copier_Chunk
begin

text \<open>
  The refusals of the copy-and-swap operations (\<open>pkg/schemachange/refusal.go\<close>): the causes with the
  invariant and the routing class of each, and the translation of a copier's refusal into this vocabulary
  (\<open>runner_copy_refusal.go\<close>). An error is a tree, as errors that wrap several errors are in Go; the cause of
  an error is found by the pre-order search of \<open>errors.As\<close>.
\<close>

section \<open>Refusals\<close>

datatype ShadowCause =
    ShLockUnproven | ShLockLost | ShLockHeldElsewhere | ShLockUnconfirmed | ShProofEmpty | ShSourceShape
  | ShStatementTarget | ShStatementConversion | ShShadowOwner | ShForeignRelation | ShGrantsDiffer | ShIdentityHandoff
  | ShStatementReadd | ShStatementNewColumn | ShStatementNewSequence | ShCutoverUnverified | ShCutoverUndrained
  | ShCutoverUnfenced | ShDrainDeferred | ShRelationReplaced | ShSchemaDrift | ShFidelityDrift | ShIndexInvalid
  | ShNameTaken | ShSwapMismatch | ShOutcomeAmbiguous | ShResumeTerminal | ShResumeCutover | ShRestartSwapCommitted
  | ShResumeRowMismatch | ShResumeRowDecoding | ShShadowUnrecorded | ShResumeShadowGone | ShResumeSlotForeign
  | ShResumeSlotHeld | ShCopyShadowMismatch | ShCopyConversionDrift | ShCopyFrontierBroken | ShCopyChunksInFlight
  | ShCopyChunkUnknown

definition ShadowCauses :: "ShadowCause list" where
  "ShadowCauses = [
     ShLockUnproven, ShLockLost, ShLockHeldElsewhere, ShLockUnconfirmed, ShProofEmpty, ShSourceShape,
     ShStatementTarget, ShStatementConversion, ShShadowOwner, ShForeignRelation, ShGrantsDiffer, ShIdentityHandoff,
     ShStatementReadd, ShStatementNewColumn, ShStatementNewSequence, ShCutoverUnverified, ShCutoverUndrained,
     ShCutoverUnfenced, ShDrainDeferred, ShRelationReplaced, ShSchemaDrift, ShFidelityDrift, ShIndexInvalid,
     ShNameTaken, ShSwapMismatch, ShOutcomeAmbiguous, ShResumeTerminal, ShResumeCutover, ShRestartSwapCommitted,
     ShResumeRowMismatch, ShResumeRowDecoding, ShShadowUnrecorded, ShResumeShadowGone, ShResumeSlotForeign,
     ShResumeSlotHeld, ShCopyShadowMismatch, ShCopyConversionDrift, ShCopyFrontierBroken, ShCopyChunksInFlight,
     ShCopyChunkUnknown]"

fun shadowInvariant :: "ShadowCause \<Rightarrow> string" where
  "shadowInvariant ShLockUnproven = ''LK-1''"
| "shadowInvariant ShLockLost = ''LK-1''"
| "shadowInvariant ShLockHeldElsewhere = ''LK-1''"
| "shadowInvariant ShLockUnconfirmed = ''LK-1''"
| "shadowInvariant ShProofEmpty = ''ST-6''"
| "shadowInvariant ShSourceShape = ''ST-6''"
| "shadowInvariant ShStatementNewSequence = ''ST-6''"
| "shadowInvariant ShRelationReplaced = ''ST-6''"
| "shadowInvariant ShSwapMismatch = ''ST-6''"
| "shadowInvariant ShCopyShadowMismatch = ''ST-6''"
| "shadowInvariant ShCopyChunkUnknown = ''ST-6''"
| "shadowInvariant ShCopyFrontierBroken = ''CO-4''"
| "shadowInvariant ShCopyConversionDrift = ''CO-9''"
| "shadowInvariant ShCopyChunksInFlight = ''LK-3''"
| "shadowInvariant ShStatementTarget = ''ST-7''"
| "shadowInvariant ShStatementConversion = ''ST-7''"
| "shadowInvariant ShStatementReadd = ''ST-11''"
| "shadowInvariant ShStatementNewColumn = ''ST-11''"
| "shadowInvariant ShShadowOwner = ''ST-5''"
| "shadowInvariant ShForeignRelation = ''ST-5''"
| "shadowInvariant ShGrantsDiffer = ''ST-5''"
| "shadowInvariant ShIdentityHandoff = ''ST-5''"
| "shadowInvariant ShSchemaDrift = ''ST-5''"
| "shadowInvariant ShFidelityDrift = ''ST-5''"
| "shadowInvariant ShIndexInvalid = ''ST-5''"
| "shadowInvariant ShNameTaken = ''ST-5''"
| "shadowInvariant ShCutoverUnverified = ''CO-1''"
| "shadowInvariant ShCutoverUndrained = ''CO-1''"
| "shadowInvariant ShCutoverUnfenced = ''CO-1''"
| "shadowInvariant ShDrainDeferred = ''CO-6''"
| "shadowInvariant ShOutcomeAmbiguous = ''LK-4''"
| "shadowInvariant ShResumeCutover = ''LK-4''"
| "shadowInvariant ShRestartSwapCommitted = ''LK-4''"
| "shadowInvariant ShResumeTerminal = ''ST-4''"
| "shadowInvariant ShResumeSlotHeld = ''ST-4''"
| "shadowInvariant ShResumeRowMismatch = ''ST-2''"
| "shadowInvariant ShShadowUnrecorded = ''ST-2''"
| "shadowInvariant ShResumeShadowGone = ''ST-2''"
| "shadowInvariant ShResumeSlotForeign = ''ST-3''"
| "shadowInvariant ShResumeRowDecoding = ''ST-3''"

fun shadowClass :: "ShadowCause \<Rightarrow> Class" where
  "shadowClass ShLockLost = ClassEnvironmental"
| "shadowClass ShLockHeldElsewhere = ClassEnvironmental"
| "shadowClass ShLockUnconfirmed = ClassEnvironmental"
| "shadowClass ShSourceShape = ClassEnvironmental"
| "shadowClass ShShadowOwner = ClassEnvironmental"
| "shadowClass ShForeignRelation = ClassEnvironmental"
| "shadowClass ShIdentityHandoff = ClassEnvironmental"
| "shadowClass ShDrainDeferred = ClassEnvironmental"
| "shadowClass ShRelationReplaced = ClassEnvironmental"
| "shadowClass ShSchemaDrift = ClassEnvironmental"
| "shadowClass ShFidelityDrift = ClassEnvironmental"
| "shadowClass ShIndexInvalid = ClassEnvironmental"
| "shadowClass ShNameTaken = ClassEnvironmental"
| "shadowClass ShOutcomeAmbiguous = ClassEnvironmental"
| "shadowClass ShCutoverUnfenced = ClassEnvironmental"
| "shadowClass ShShadowUnrecorded = ClassEnvironmental"
| "shadowClass ShResumeShadowGone = ClassEnvironmental"
| "shadowClass ShResumeSlotForeign = ClassEnvironmental"
| "shadowClass ShResumeSlotHeld = ClassEnvironmental"
| "shadowClass ShRestartSwapCommitted = ClassEnvironmental"
| "shadowClass ShCopyConversionDrift = ClassEnvironmental"
| "shadowClass ShStatementConversion = ClassCapabilityBoundary"
| "shadowClass ShStatementReadd = ClassCapabilityBoundary"
| "shadowClass ShStatementNewColumn = ClassCapabilityBoundary"
| "shadowClass ShStatementNewSequence = ClassCapabilityBoundary"
| "shadowClass ShLockUnproven = ClassInvariantViolation"
| "shadowClass ShProofEmpty = ClassInvariantViolation"
| "shadowClass ShStatementTarget = ClassInvariantViolation"
| "shadowClass ShGrantsDiffer = ClassInvariantViolation"
| "shadowClass ShCutoverUnverified = ClassInvariantViolation"
| "shadowClass ShCutoverUndrained = ClassInvariantViolation"
| "shadowClass ShSwapMismatch = ClassInvariantViolation"
| "shadowClass ShResumeTerminal = ClassInvariantViolation"
| "shadowClass ShResumeCutover = ClassInvariantViolation"
| "shadowClass ShResumeRowMismatch = ClassInvariantViolation"
| "shadowClass ShResumeRowDecoding = ClassInvariantViolation"
| "shadowClass ShCopyShadowMismatch = ClassInvariantViolation"
| "shadowClass ShCopyFrontierBroken = ClassInvariantViolation"
| "shadowClass ShCopyChunksInFlight = ClassInvariantViolation"
| "shadowClass ShCopyChunkUnknown = ClassInvariantViolation"

section \<open>Errors that wrap errors\<close>

datatype wrapped_error =
    ShadowRefusal ShadowCause "wrapped_error list"
  | CopierError copier_error
  | JoinedErrors "wrapped_error list"
  | PlainError string

fun shadowCauseOf :: "wrapped_error \<Rightarrow> ShadowCause option"
  and shadowCauseOfs :: "wrapped_error list \<Rightarrow> ShadowCause option" where
  "shadowCauseOf (ShadowRefusal cause es) = Some cause"
| "shadowCauseOf (CopierError e) = None"
| "shadowCauseOf (JoinedErrors es) = shadowCauseOfs es"
| "shadowCauseOf (PlainError msg) = None"
| "shadowCauseOfs [] = None"
| "shadowCauseOfs (e # es) = (case shadowCauseOf e of Some cause \<Rightarrow> Some cause | None \<Rightarrow> shadowCauseOfs es)"

fun copierCauseOf :: "wrapped_error \<Rightarrow> RefusalCause option"
  and copierCauseOfs :: "wrapped_error list \<Rightarrow> RefusalCause option" where
  "copierCauseOf (ShadowRefusal cause es) = copierCauseOfs es"
| "copierCauseOf (CopierError e) = (case e of Refusal cause \<Rightarrow> Some cause | _ \<Rightarrow> None)"
| "copierCauseOf (JoinedErrors es) = copierCauseOfs es"
| "copierCauseOf (PlainError msg) = None"
| "copierCauseOfs [] = None"
| "copierCauseOfs (e # es) = (case copierCauseOf e of Some cause \<Rightarrow> Some cause | None \<Rightarrow> copierCauseOfs es)"

fun copierCause :: "RefusalCause \<Rightarrow> ShadowCause" where
  "copierCause CauseProofEmpty = ShProofEmpty"
| "copierCause CauseShadowMismatch = ShCopyShadowMismatch"
| "copierCause CauseLockUnproven = ShLockUnproven"
| "copierCause CauseLockLost = ShLockLost"
| "copierCause CauseLockHeldElsewhere = ShLockHeldElsewhere"
| "copierCause CauseLockUnconfirmed = ShLockUnconfirmed"
| "copierCause CauseRelationReplaced = ShRelationReplaced"
| "copierCause CauseConversionDrift = ShCopyConversionDrift"
| "copierCause CauseFrontierBroken = ShCopyFrontierBroken"
| "copierCause CauseChunksInFlight = ShCopyChunksInFlight"
| "copierCause CauseChunkUnknown = ShCopyChunkUnknown"

definition copyRefusal :: "wrapped_error \<Rightarrow> wrapped_error" where
  "copyRefusal err = (case copierCauseOf err of None \<Rightarrow> err | Some cause \<Rightarrow> ShadowRefusal (copierCause cause) [err])"

text \<open>The run's error is absent when the copy ended without one.\<close>

definition copyStopped :: "wrapped_error option \<Rightarrow> wrapped_error \<Rightarrow> wrapped_error" where
  "copyStopped runErr saveErr =
     (case runErr of
        None \<Rightarrow> saveErr
      | Some e \<Rightarrow> if copierCauseOf e = None then saveErr else JoinedErrors [copyRefusal e, saveErr])"

lemma ShadowCauses_all: "set ShadowCauses = UNIV" "distinct ShadowCauses"
proof -
  have "c \<in> set ShadowCauses" for c by (cases c) (simp_all add: ShadowCauses_def)
  then show "set ShadowCauses = UNIV" by blast
  show "distinct ShadowCauses" by (simp add: ShadowCauses_def)
qed

lemma copierCause_same: "shadowInvariant (copierCause c) = causeInvariant c" "shadowClass (copierCause c) = causeClass c"
  by (cases c; simp)+

text \<open>
  A copier's refusal is re-minted without loss. The runner's error for a copy that ended in a refusal
  names a cause of its own of the same invariant and the same routing class, the copier's cause can still be
  read from it, and an error that carries no copier refusal is passed on as it is. When a
  save failed as well, the copy's cause is still the one that is read.
\<close>
theorem copyRefusal_faithful:
  "case copierCauseOf err of
     None \<Rightarrow> copyRefusal err = err \<and> copyStopped (Some err) saveErr = saveErr
   | Some cause \<Rightarrow>
       (\<exists>sc. shadowCauseOf (copyRefusal err) = Some sc \<and> shadowCauseOf (copyStopped (Some err) saveErr) = Some sc
          \<and> shadowInvariant sc = causeInvariant cause \<and> shadowClass sc = causeClass cause)
       \<and> copierCauseOf (copyRefusal err) = Some cause \<and> copierCauseOf (copyStopped (Some err) saveErr) = Some cause"
  by (auto simp: copyRefusal_def copyStopped_def copierCause_same split: option.splits)

end
