(* ===== verification/Cutover_Dependents.thy ===== *)
theory Cutover_Dependents
  imports Shadow_Refusal Schema_Model "HOL-Library.Multiset"
begin

text \<open>
  The pieces a cutover works with (\<open>pkg/schemachange\<close>): the names
  it derives (\<open>names.go\<close>), the pairing of the source's indexes and statistics with the shadow's
  (\<open>dependents.go\<close>, \<open>dependents_retype.go\<close>, the re-derivation of \<open>inspect_swapped.go\<close>), the bounds of a
  recreated identity sequence (\<open>identity_bounds.go\<close>) and the statements that carry grants over
  (\<open>grants.go\<close>). The code pairs by the JSON text of a definition; the text is the encoding of the
  fields kept by \<open>definitionKey\<close>, which stands for it.
\<close>

section \<open>Derived names\<close>

definition namePrefix :: string where "namePrefix = ''_pgsprite_''"

definition hexLower :: "nat \<Rightarrow> char" where
  "hexLower d = (if d < 10 then char_of (48 + d) else char_of (87 + d))"

fun hexPadded :: "nat \<Rightarrow> nat \<Rightarrow> string" where
  "hexPadded 0 n = []"
| "hexPadded (Suc w) n = hexPadded w (n div 16) @ [hexLower (n mod 16)]"

definition fnv64a :: "string \<Rightarrow> 64 word" where
  "fnv64a input = fold (\<lambda>c h. xor h (of_nat (of_char c)) * 1099511628211) input 14695981039346656037"

definition nameHash :: "string \<Rightarrow> string" where
  "nameHash input = hexPadded 16 (unat (fnv64a input))"

definition NameHash :: "string \<Rightarrow> string \<Rightarrow> string" where
  "NameHash schema table = nameHash (schema @ ''.'' @ table)"

definition ShadowName :: "string \<Rightarrow> string \<Rightarrow> string" where
  "ShadowName schema table = namePrefix @ NameHash schema table @ ''_new''"

definition OldName :: "string \<Rightarrow> string \<Rightarrow> string" where
  "OldName schema table = namePrefix @ NameHash schema table @ ''_old''"

definition OldDependentName :: "string \<Rightarrow> string \<Rightarrow> string \<Rightarrow> string" where
  "OldDependentName schema table dep = OldName schema table @ ''_'' @ nameHash dep"

datatype DerivedKind = DerivedShadow | DerivedOld

fun SourceOfDerivedName :: "string \<Rightarrow> string \<Rightarrow> string list \<Rightarrow> (string \<times> DerivedKind) option" where
  "SourceOfDerivedName schema derived [] = None"
| "SourceOfDerivedName schema derived (table # tables) =
     (if derived = ShadowName schema table then Some (table, DerivedShadow)
      else if derived = OldName schema table then Some (table, DerivedOld)
      else SourceOfDerivedName schema derived tables)"

section \<open>Pairing by definition\<close>

datatype DependentKind = DependentIndex | DependentStatistics

record DependentPair =
  pr_Kind :: DependentKind
  pr_SourceName :: string
  pr_ShadowName :: string

record DependentPairing =
  pg_Pairs :: "DependentPair list"
  pg_UnpairedSource :: "string list"
  pg_UnpairedShadow :: "string list"

record 'k dependent =
  dp_name :: string
  dp_key :: 'k

fun freeNames :: "'k dependent list \<Rightarrow> ('k \<Rightarrow> string list) \<Rightarrow> 'k \<Rightarrow> string list" where
  "freeNames [] free = free"
| "freeNames (d # ds) free = freeNames ds (free(dp_key d := free (dp_key d) @ [dp_name d]))"

fun pairLoop :: "DependentKind \<Rightarrow> 'k dependent list \<Rightarrow> ('k \<Rightarrow> string list) \<Rightarrow>
    DependentPair list \<times> string list \<times> ('k \<Rightarrow> string list)" where
  "pairLoop kind [] free = ([], [], free)"
| "pairLoop kind (d # ds) free =
     (case free (dp_key d) of
        [] \<Rightarrow> (let (pairs, unpaired, free') = pairLoop kind ds free in (pairs, dp_name d # unpaired, free'))
      | c # cs \<Rightarrow>
          (let (pairs, unpaired, free') = pairLoop kind ds (free(dp_key d := cs))
           in (\<lparr>pr_Kind = kind, pr_SourceName = dp_name d, pr_ShadowName = c\<rparr> # pairs, unpaired, free')))"

definition pairByDefinition :: "DependentKind \<Rightarrow> 'k dependent list \<Rightarrow> 'k dependent list \<Rightarrow> DependentPairing" where
  "pairByDefinition kind source shadow =
     (let (pairs, unpaired, free) = pairLoop kind source (freeNames shadow (\<lambda>_. [])) in
      \<lparr>pg_Pairs = pairs, pg_UnpairedSource = unpaired,
       pg_UnpairedShadow = map dp_name (filter (\<lambda>d. dp_name d \<in> set (free (dp_key d))) shadow)\<rparr>)"

definition pairingSourceNames :: "DependentPairing \<Rightarrow> string list" where
  "pairingSourceNames p = map pr_SourceName (pg_Pairs p) @ pg_UnpairedSource p"

definition oldNames :: "string \<Rightarrow> string \<Rightarrow> string list \<Rightarrow> string list" where
  "oldNames schema table dependents = OldName schema table # map (OldDependentName schema table) dependents"

section \<open>Indexes and retyped columns\<close>

record indexDefinition =
  id_AccessMethod :: string
  id_Unique :: bool
  id_Primary :: bool
  id_NullsNotDistinct :: bool
  id_KeyColumns :: "string list"
  id_Included :: "string list"
  id_Opclasses :: "string list"
  id_Collations :: "string list"
  id_DefaultOpclasses :: "bool list"
  id_OwnCollations :: "bool list"
  id_Options :: "int list"
  id_Predicate :: string
  id_Constraint :: string

record indexEntry =
  ie_name :: string
  ie_valid :: bool
  ie_definition :: indexDefinition

definition definitionKey :: "indexDefinition \<Rightarrow> indexDefinition" where
  "definitionKey d = d\<lparr>id_DefaultOpclasses := [], id_OwnCollations := []\<rparr>"

definition retypedColumns :: "(string list \<Rightarrow> string) \<Rightarrow> SchemaModel \<Rightarrow> SchemaModel \<Rightarrow> string list" where
  "retypedColumns san source target =
     (let targetTypes = fold (\<lambda>c m. m(sc_Name c \<mapsto> sc_Type c)) (sm_Columns target) Map.empty in
      concat (map (\<lambda>c. case targetTypes (sc_Name c) of
          None \<Rightarrow> []
        | Some targetType \<Rightarrow> if targetType = sc_Type c then [] else [sc_Name c, san [sc_Name c]]) (sm_Columns source)))"

definition defaultOpclass :: "indexDefinition \<Rightarrow> nat \<Rightarrow> bool" where
  "defaultOpclass d i = (i < length (id_DefaultOpclasses d) \<and> id_DefaultOpclasses d ! i)"

definition ownCollation :: "indexDefinition \<Rightarrow> nat \<Rightarrow> bool" where
  "ownCollation d i = (i < length (id_OwnCollations d) \<and> id_OwnCollations d ! i)"

definition clearAt :: "(nat \<Rightarrow> bool) \<Rightarrow> string list \<Rightarrow> string list" where
  "clearAt P xs = map (\<lambda>(i, x). if P i then '''' else x) (enumerate 0 xs)"

definition retypedKey :: "string list \<Rightarrow> indexDefinition \<Rightarrow> nat \<Rightarrow> bool" where
  "retypedKey retyped d i = (i < length (id_KeyColumns d) \<and> id_KeyColumns d ! i \<in> set retyped)"

definition relaxedAcross :: "string list \<Rightarrow> indexDefinition \<Rightarrow> indexDefinition" where
  "relaxedAcross retyped d = d\<lparr>
     id_Opclasses := clearAt (\<lambda>i. retypedKey retyped d i \<and> defaultOpclass d i) (id_Opclasses d),
     id_Collations := clearAt (\<lambda>i. retypedKey retyped d i \<and> ownCollation d i) (id_Collations d)\<rparr>"

definition indexDependents :: "string list \<Rightarrow> indexEntry list \<Rightarrow> indexDefinition dependent list" where
  "indexDependents retyped indexes =
     map (\<lambda>e. \<lparr>dp_name = ie_name e, dp_key = definitionKey (relaxedAcross retyped (ie_definition e))\<rparr>) indexes"

fun sharedKeysOn :: "'k set \<Rightarrow> 'k dependent list \<Rightarrow> 'k set" where
  "sharedKeysOn seen [] = {}"
| "sharedKeysOn seen (d # ds) =
     (if dp_key d \<in> seen then insert (dp_key d) (sharedKeysOn seen ds) else sharedKeysOn (insert (dp_key d) seen) ds)"

definition sharedKeys :: "'k dependent list list \<Rightarrow> 'k set" where
  "sharedKeys sides = (\<Union>side \<in> set sides. sharedKeysOn {} side)"

definition withoutKeys :: "'k dependent list \<Rightarrow> 'k set \<Rightarrow> 'k dependent list" where
  "withoutKeys dependents keys = filter (\<lambda>d. dp_key d \<notin> keys) dependents"

definition unpairedNames :: "'k dependent list \<Rightarrow> DependentPair list \<Rightarrow> (DependentPair \<Rightarrow> string) \<Rightarrow> string list" where
  "unpairedNames dependents pairs nameOf = filter (\<lambda>n. n \<notin> nameOf ` set pairs) (map dp_name dependents)"

definition indexesNamed :: "indexEntry list \<Rightarrow> string list \<Rightarrow> indexEntry list" where
  "indexesNamed indexes names = filter (\<lambda>e. ie_name e \<in> set names) indexes"

definition pairIndexEntries :: "indexEntry list \<Rightarrow> indexEntry list \<Rightarrow> string list \<Rightarrow> DependentPairing" where
  "pairIndexEntries source shadow retyped =
     (let sourceDependents = indexDependents retyped source; shadowDependents = indexDependents retyped shadow in
      if retyped = [] then pairByDefinition DependentIndex sourceDependents shadowDependents
      else
        let ambiguous = sharedKeys [sourceDependents, shadowDependents];
            pairing = pairByDefinition DependentIndex (withoutKeys sourceDependents ambiguous) (withoutKeys shadowDependents ambiguous)
        in pairing\<lparr>pg_UnpairedSource := unpairedNames sourceDependents (pg_Pairs pairing) pr_SourceName,
                   pg_UnpairedShadow := unpairedNames shadowDependents (pg_Pairs pairing) pr_ShadowName\<rparr>)"

definition partnerOf :: "DependentPair list \<Rightarrow> string \<Rightarrow> string option" where
  "partnerOf pairs = fold (\<lambda>p m. m(pr_SourceName p \<mapsto> pr_ShadowName p)) pairs Map.empty"

definition pairIndexes :: "indexEntry list \<Rightarrow> indexEntry list \<Rightarrow> string list \<Rightarrow> DependentPairing" where
  "pairIndexes source shadow retyped =
     (let exact = pairIndexEntries source shadow [] in
      if retyped = [] \<or> pg_UnpairedSource exact = [] \<or> pg_UnpairedShadow exact = [] then exact
      else
        let relaxed = pairIndexEntries (indexesNamed source (pg_UnpairedSource exact)) (indexesNamed shadow (pg_UnpairedShadow exact)) retyped;
            partner = partnerOf (pg_Pairs exact @ pg_Pairs relaxed)
        in \<lparr>pg_Pairs = concat (map (\<lambda>e. case partner (ie_name e) of
                None \<Rightarrow> []
              | Some shadowName \<Rightarrow> [\<lparr>pr_Kind = DependentIndex, pr_SourceName = ie_name e, pr_ShadowName = shadowName\<rparr>]) source),
            pg_UnpairedSource = pg_UnpairedSource relaxed, pg_UnpairedShadow = pg_UnpairedShadow relaxed\<rparr>)"

definition invalidIndexes :: "indexEntry list \<Rightarrow> string list" where
  "invalidIndexes indexes = map ie_name (filter (\<lambda>e. \<not> ie_valid e) indexes)"

definition missingNames :: "DependentPair list \<Rightarrow> string list \<Rightarrow> string list" where
  "missingNames pairs live = filter (\<lambda>n. n \<notin> set live) (map pr_SourceName pairs)"

text \<open>After the swap: a live dependent pairs with the old-table dependent under its derived name.\<close>

fun derivedLoop :: "DependentKind \<Rightarrow> string \<Rightarrow> string \<Rightarrow> string set \<Rightarrow> string list \<Rightarrow> DependentPair list \<times> string list \<times> string set" where
  "derivedLoop kind schema table unpairedOld [] = ([], [], unpairedOld)"
| "derivedLoop kind schema table unpairedOld (n # ns) =
     (let derived = OldDependentName schema table n in
      if derived \<notin> unpairedOld
      then (let (pairs, unpaired, left) = derivedLoop kind schema table unpairedOld ns in (pairs, n # unpaired, left))
      else (let (pairs, unpaired, left) = derivedLoop kind schema table (unpairedOld - {derived}) ns
            in (\<lparr>pr_Kind = kind, pr_SourceName = n, pr_ShadowName = ''''\<rparr> # pairs, unpaired, left)))"

definition pairByDerivedName :: "DependentKind \<Rightarrow> string \<Rightarrow> string \<Rightarrow> string list \<Rightarrow> string list \<Rightarrow> DependentPairing" where
  "pairByDerivedName kind schema table old live =
     (let (pairs, unpaired, left) = derivedLoop kind schema table (set old) live in
      \<lparr>pg_Pairs = pairs, pg_UnpairedSource = filter (\<lambda>n. n \<in> left) old, pg_UnpairedShadow = unpaired\<rparr>)"

section \<open>Identity sequences\<close>

record HandoffOptions =
  ho_Start :: int64
  ho_Increment :: int64
  ho_Min :: int64
  ho_Max :: int64
  ho_Cache :: int64
  ho_Cycle :: bool

record IdentityColumn =
  ic_Column :: string
  ic_Always :: bool
  ic_SequenceSchema :: string
  ic_SequenceName :: string
  ic_Options :: HandoffOptions

record OwnedSequence =
  os_Column :: string
  os_SequenceSchema :: string
  os_SequenceName :: string

definition integerTypeBounds :: "32 word \<Rightarrow> (int64 \<times> int64) option" where
  "integerTypeBounds typeOID =
     (if typeOID = 21 then Some (- 32768, 32767)
      else if typeOID = 23 then Some (- 2147483648, 2147483647)
      else if typeOID = 20 then Some (MinInt64, MaxInt64)
      else None)"

definition rebaseSequenceBounds :: "HandoffOptions \<Rightarrow> 32 word \<Rightarrow> 32 word \<Rightarrow> HandoffOptions" where
  "rebaseSequenceBounds opts fromType toType =
     (case (integerTypeBounds fromType, integerTypeBounds toType) of
        (Some (fromMin, fromMax), Some (toMin, toMax)) \<Rightarrow>
          let opts = (if ho_Min opts = fromMin then opts\<lparr>ho_Min := toMin\<rparr> else opts);
              opts = (if ho_Max opts = fromMax then opts\<lparr>ho_Max := toMax\<rparr> else opts)
          in opts
      | _ \<Rightarrow> opts)"

definition identityClause :: "IdentityColumn \<Rightarrow> string" where
  "identityClause c =
     (let opts = ic_Options c in
      (if ic_Always c then ''GENERATED ALWAYS'' else ''GENERATED BY DEFAULT'') @ '' AS IDENTITY (''
      @ ''INCREMENT BY '' @ itoa (ho_Increment opts)
      @ '' MINVALUE '' @ itoa (ho_Min opts)
      @ '' MAXVALUE '' @ itoa (ho_Max opts)
      @ '' START WITH '' @ itoa (ho_Start opts)
      @ '' CACHE '' @ itoa (ho_Cache opts)
      @ '' '' @ (if ho_Cycle opts then ''CYCLE'' else ''NO CYCLE'') @ '')'')"

definition handoffIdentities :: "IdentityColumn list \<Rightarrow> SchemaModel \<Rightarrow> IdentityColumn list" where
  "handoffIdentities identities shadow = filter (\<lambda>c. ic_Column c \<in> sc_Name ` set (sm_Columns shadow)) identities"

definition keptSequences :: "OwnedSequence list \<Rightarrow> SchemaModel \<Rightarrow> OwnedSequence list" where
  "keptSequences sequences shadow = filter (\<lambda>s. os_Column s \<in> sc_Name ` set (sm_Columns shadow)) sequences"

section \<open>Grants\<close>

record Grant =
  gr_Privilege :: string
  gr_Grantee :: string
  gr_Public :: bool
  gr_Grantable :: bool

datatype aclObject = aclTable | aclSequence

type_synonym grantee = "string \<times> string \<times> bool"

definition granteeOf :: "Grant \<Rightarrow> grantee" where
  "granteeOf g = (gr_Privilege g, gr_Grantee g, gr_Public g)"

datatype acl_statement = RevokeAll Grant | RevokeOption Grant | GrantTo Grant

definition aclMap :: "Grant list \<Rightarrow> grantee \<Rightarrow> Grant option" where
  "aclMap grants = fold (\<lambda>g m. m(granteeOf g \<mapsto> g)) grants Map.empty"

definition revokeFor :: "(grantee \<Rightarrow> Grant option) \<Rightarrow> Grant \<Rightarrow> acl_statement list" where
  "revokeFor wanted h =
     (case wanted (granteeOf h) of
        None \<Rightarrow> [RevokeAll h]
      | Some w \<Rightarrow> if gr_Grantable h \<and> \<not> gr_Grantable w then [RevokeOption h] else [])"

definition grantFor :: "(grantee \<Rightarrow> Grant option) \<Rightarrow> Grant \<Rightarrow> acl_statement list" where
  "grantFor held w =
     (case held (granteeOf w) of
        None \<Rightarrow> [GrantTo w]
      | Some h \<Rightarrow> if gr_Grantable h = gr_Grantable w then [] else if gr_Grantable h then [] else [GrantTo w])"

definition reconcileACL :: "Grant list \<Rightarrow> Grant list \<Rightarrow> acl_statement list" where
  "reconcileACL have' want = concat (map (revokeFor (aclMap want)) have') @ concat (map (grantFor (aclMap have')) want)"

definition privilegeSQL :: "(string list \<Rightarrow> string) \<Rightarrow> string \<Rightarrow> string \<Rightarrow> string" where
  "privilegeSQL san privilege column = (if column = '''' then privilege else privilege @ '' ('' @ san [column] @ '')'')"

definition roleSQL :: "(string list \<Rightarrow> string) \<Rightarrow> string \<Rightarrow> bool \<Rightarrow> string" where
  "roleSQL san role public = (if public then ''PUBLIC'' else san [role])"

definition objectSQL :: "aclObject \<Rightarrow> string" where
  "objectSQL object = (case object of aclTable \<Rightarrow> ''TABLE'' | aclSequence \<Rightarrow> ''SEQUENCE'')"

definition grantSQL :: "(string list \<Rightarrow> string) \<Rightarrow> aclObject \<Rightarrow> string \<Rightarrow> string \<Rightarrow> Grant \<Rightarrow> string" where
  "grantSQL san object name column g =
     ''GRANT '' @ privilegeSQL san (gr_Privilege g) column @ '' ON '' @ objectSQL object @ '' '' @ name
     @ '' TO '' @ roleSQL san (gr_Grantee g) (gr_Public g) @ (if gr_Grantable g then '' WITH GRANT OPTION'' else '''')"

definition revokeSQL :: "(string list \<Rightarrow> string) \<Rightarrow> aclObject \<Rightarrow> string \<Rightarrow> string \<Rightarrow> Grant \<Rightarrow> bool \<Rightarrow> string" where
  "revokeSQL san object name column g grantOptionOnly =
     ''REVOKE '' @ (if grantOptionOnly then ''GRANT OPTION FOR '' else '''') @ privilegeSQL san (gr_Privilege g) column
     @ '' ON '' @ objectSQL object @ '' '' @ name @ '' FROM '' @ roleSQL san (gr_Grantee g) (gr_Public g)"

definition isSequencePrivilege :: "string \<Rightarrow> bool" where
  "isSequencePrivilege privilege = (privilege \<in> set [''USAGE'', ''SELECT'', ''UPDATE''])"


section \<open>Derived names fit\<close>

lemma hexPadded_length [simp]: "length (hexPadded w n) = w"
  by (induction w n rule: hexPadded.induct) simp_all

lemma hexPadded_inj: "hexPadded w m = hexPadded w n \<Longrightarrow> m < 16 ^ w \<Longrightarrow> n < 16 ^ w \<Longrightarrow> m = n"
proof (induction w arbitrary: m n)
  case (Suc w)
  have low: "hexLower (m mod 16) = hexLower (n mod 16)" and high: "hexPadded w (m div 16) = hexPadded w (n div 16)"
    using Suc.prems(1) by simp_all
  have "m div 16 < 16 ^ w" "n div 16 < 16 ^ w" using Suc.prems(2,3) by (simp_all add: less_mult_imp_div_less mult.commute)
  then have hi: "m div 16 = n div 16" using Suc.IH high by blast
  have "a = b" if "hexLower a = hexLower b" "a < 16" "b < 16" for a b
  proof -
    have "of_char (hexLower a) = (of_char (hexLower b) :: nat)" using that(1) by simp
    then show ?thesis using that(2,3) by (auto simp: hexLower_def split: if_splits)
  qed
  then have "m mod 16 = n mod 16" using low by simp
  with hi show ?case by (metis div_mult_mod_eq)
qed simp

lemma nameHash_length [simp]: "length (nameHash s) = 16"
  by (simp add: nameHash_def)

lemma nameHash_eq: "nameHash a = nameHash b \<longleftrightarrow> fnv64a a = fnv64a b"
proof
  assume "nameHash a = nameHash b"
  moreover have "unat (fnv64a x) < 16 ^ 16" for x using unsigned_less [of "fnv64a x"] by simp
  ultimately have "unat (fnv64a a) = unat (fnv64a b)" unfolding nameHash_def by (intro hexPadded_inj)
  then show "fnv64a a = fnv64a b" by (simp add: word_unat_eq_iff)
qed (simp add: nameHash_def)

lemma derived_lengths: "length (ShadowName s t) = 30" "length (OldName s t) = 30" "length (OldDependentName s t d) = 47"
  by (simp_all add: ShadowName_def OldName_def OldDependentName_def NameHash_def namePrefix_def)

lemma OldDependentName_eq: "OldDependentName s t a = OldDependentName s t b \<longleftrightarrow> fnv64a a = fnv64a b"
  by (simp add: OldDependentName_def nameHash_eq)

lemma derived_apart: "OldName s t \<noteq> OldDependentName s t' d" "ShadowName s t \<noteq> OldDependentName s t' d" "ShadowName s t \<noteq> OldName s t"
proof -
  show "OldName s t \<noteq> OldDependentName s t' d" "ShadowName s t \<noteq> OldDependentName s t' d"
    using derived_lengths(1,2) [of s t] derived_lengths(3) [of s t' d] by (auto simp del: length_0_conv dest: arg_cong [of _ _ length])
  show "ShadowName s t \<noteq> OldName s t" by (simp add: ShadowName_def OldName_def)
qed

section \<open>The pairing is a matching\<close>

text \<open>A list of names split in two parts, each name on exactly one side.\<close>

definition splits :: "string list \<Rightarrow> string list \<Rightarrow> string list \<Rightarrow> bool" where
  "splits names xs ys \<longleftrightarrow> distinct (xs @ ys) \<and> set (xs @ ys) = set names"

definition matching :: "('d \<Rightarrow> string) \<Rightarrow> ('d \<Rightarrow> 'd \<Rightarrow> bool) \<Rightarrow> 'd list \<Rightarrow> 'd list \<Rightarrow> DependentPairing \<Rightarrow> bool" where
  "matching name same source shadow p \<longleftrightarrow>
     (\<forall>q \<in> set (pg_Pairs p). \<exists>s \<in> set source. \<exists>t \<in> set shadow.
        name s = pr_SourceName q \<and> name t = pr_ShadowName q \<and> same s t)
     \<and> splits (map name source) (map pr_SourceName (pg_Pairs p)) (pg_UnpairedSource p)
     \<and> splits (map name shadow) (map pr_ShadowName (pg_Pairs p)) (pg_UnpairedShadow p)"

lemma matchingE:
  assumes "matching name same source shadow p" "q \<in> set (pg_Pairs p)"
  obtains s t where "s \<in> set source" "t \<in> set shadow" "name s = pr_SourceName q" "name t = pr_ShadowName q" "same s t"
  using assms by (auto simp: matching_def)

lemma matching_splits:
  assumes "matching name same source shadow p"
  shows "splits (map name source) (map pr_SourceName (pg_Pairs p)) (pg_UnpairedSource p)"
    "splits (map name shadow) (map pr_ShadowName (pg_Pairs p)) (pg_UnpairedShadow p)"
  using assms by (simp_all add: matching_def)

lemma freeNames_eq: "freeNames ds free k = free k @ map dp_name (filter (\<lambda>d. dp_key d = k) ds)"
  by (induction ds arbitrary: free) auto

lemma pairLoop_source:
  "pairLoop kind ds free = (pairs, unp, free') \<Longrightarrow> mset (map pr_SourceName pairs) + mset unp = mset (map dp_name ds)"
  by (induction ds arbitrary: free pairs unp free') (auto split: list.splits prod.splits)

lemma pairLoop_free:
  "pairLoop kind ds free = (pairs, unp, free') \<Longrightarrow> \<exists>us. free k = us @ free' k"
proof (induction ds arbitrary: free pairs unp free')
  case (Cons d ds)
  show ?case
  proof (cases "free (dp_key d)")
    case Nil
    then show ?thesis using Cons by (auto split: prod.splits)
  next
    case (Cons c cs)
    then obtain pairs' where "pairLoop kind ds (free(dp_key d := cs)) = (pairs', unp, free')"
      using Cons.prems by (auto split: prod.splits)
    from Cons.IH [OF this] show ?thesis using Cons by (cases "k = dp_key d") auto
  qed
qed simp

lemma pairLoop_pairs:
  "pairLoop kind ds free = (pairs, unp, free') \<Longrightarrow> p \<in> set pairs \<Longrightarrow>
   \<exists>d \<in> set ds. dp_name d = pr_SourceName p \<and> pr_ShadowName p \<in> set (free (dp_key d))"
proof (induction ds arbitrary: free pairs unp free')
  case (Cons d ds)
  show ?case
  proof (cases "free (dp_key d)")
    case Nil
    then show ?thesis using Cons by (auto split: prod.splits)
  next
    case (Cons c cs)
    then obtain pairs' where r: "pairLoop kind ds (free(dp_key d := cs)) = (pairs', unp, free')"
        and p: "pairs = \<lparr>pr_Kind = kind, pr_SourceName = dp_name d, pr_ShadowName = c\<rparr> # pairs'"
      using Cons.prems by (auto split: prod.splits)
    show ?thesis
    proof (cases "p \<in> set pairs'")
      case True
      from Cons.IH [OF r True] show ?thesis using Cons by (auto split: if_splits)
    qed (use Cons.prems(2) p Cons in auto)
  qed
qed simp

lemma pairLoop_unpaired:
  "pairLoop kind ds free = (pairs, unp, free') \<Longrightarrow> n \<in> set unp \<Longrightarrow> \<exists>d \<in> set ds. dp_name d = n \<and> free' (dp_key d) = []"
proof (induction ds arbitrary: free pairs unp free')
  case (Cons d ds)
  show ?case
  proof (cases "free (dp_key d)")
    case Nil
    then obtain unp' where r: "pairLoop kind ds free = (pairs, unp', free')" and u: "unp = dp_name d # unp'"
      using Cons.prems by (auto split: prod.splits)
    have "free' (dp_key d) = []" using pairLoop_free [OF r, of "dp_key d"] Nil by simp
    then show ?thesis using Cons.IH [OF r] Cons.prems(2) u by auto
  next
    case (Cons c cs)
    then show ?thesis using Cons.IH Cons.prems by (fastforce split: prod.splits)
  qed
qed simp


lemma select_convs_shadow: "pr_ShadowName \<lparr>pr_Kind = kind, pr_SourceName = s, pr_ShadowName = c\<rparr> = c"
  by simp

lemma pairLoop_shadow:
  assumes "pairLoop kind ds free = (pairs, unp, free')" "\<forall>k. distinct (free k)" "\<forall>k k'. k \<noteq> k' \<longrightarrow> set (free k) \<inter> set (free k') = {}"
  shows "distinct (map pr_ShadowName pairs) \<and> (\<forall>k. set (free' k) = set (free k) - pr_ShadowName ` set pairs)"
  using assms
proof (induction ds arbitrary: free pairs unp free')
  case (Cons d ds)
  show ?case
  proof (cases "free (dp_key d)")
    case Nil
    then show ?thesis using Cons by (auto split: prod.splits)
  next
    case (Cons c cs)
    let ?free = "free(dp_key d := cs)"
    obtain pairs' where r: "pairLoop kind ds ?free = (pairs', unp, free')"
        and p: "pairs = \<lparr>pr_Kind = kind, pr_SourceName = dp_name d, pr_ShadowName = c\<rparr> # pairs'"
      using Cons.prems(1) Cons by (auto split: prod.splits)
    have "\<forall>k. distinct (?free k)" using Cons.prems(2) Cons by (auto) (metis distinct.simps(2))
    moreover have "\<forall>k k'. k \<noteq> k' \<longrightarrow> set (?free k) \<inter> set (?free k') = {}"
      using Cons.prems(3) Cons by (auto simp: disjoint_iff) (metis list.set_intros(2))+
    ultimately have IH: "distinct (map pr_ShadowName pairs')" "\<forall>k. set (free' k) = set (?free k) - pr_ShadowName ` set pairs'"
      using Cons.IH [OF r] by blast+
    have gone: "c \<notin> set (?free k)" for k
      using Cons.prems(2,3) Cons by (cases "k = dp_key d") (auto simp: disjoint_iff dest: spec [of _ "dp_key d"])
    have "c \<notin> pr_ShadowName ` set pairs'" using pairLoop_pairs [OF r] gone by fastforce
    moreover have "set (free k) - {c} = set (?free k)" for k
      using gone [of k] Cons by (cases "k = dp_key d") auto
    ultimately have "set (free' k) = set (free k) - pr_ShadowName ` set pairs" for k
      using IH(2) [rule_format, of k] p by (metis Diff_insert2 image_insert list.simps(15) select_convs_shadow)
    then show ?thesis using IH(1) p \<open>c \<notin> pr_ShadowName ` set pairs'\<close> by auto
  qed
qed simp

lemma freeNames_apart:
  assumes "distinct (map dp_name shadow)"
  shows "distinct (freeNames shadow (\<lambda>_. []) k)" "k \<noteq> k' \<Longrightarrow> set (freeNames shadow (\<lambda>_. []) k) \<inter> set (freeNames shadow (\<lambda>_. []) k') = {}"
  using assms by (auto simp: freeNames_eq distinct_map inj_on_def) (metis distinct_filter)?

lemma pairByDefinition_matching:
  assumes "distinct (map dp_name source)" "distinct (map dp_name shadow)"
  shows "matching dp_name (\<lambda>s t. dp_key s = dp_key t) source shadow (pairByDefinition kind source shadow)"
    "dp_name s \<in> set (pg_UnpairedSource (pairByDefinition kind source shadow)) \<Longrightarrow> s \<in> set source \<Longrightarrow>
     dp_name t \<in> set (pg_UnpairedShadow (pairByDefinition kind source shadow)) \<Longrightarrow> t \<in> set shadow \<Longrightarrow> dp_key s \<noteq> dp_key t"
proof -
  let ?free = "freeNames shadow (\<lambda>_. [])"
  obtain pairs unp free' where r: "pairLoop kind source ?free = (pairs, unp, free')" by (metis prod_cases3)
  have p: "pairByDefinition kind source shadow = \<lparr>pg_Pairs = pairs, pg_UnpairedSource = unp,
      pg_UnpairedShadow = map dp_name (filter (\<lambda>d. dp_name d \<in> set (free' (dp_key d))) shadow)\<rparr>"
    by (simp add: pairByDefinition_def r)
  have sh: "distinct (map pr_ShadowName pairs)" "\<And>k. set (free' k) = set (?free k) - pr_ShadowName ` set pairs"
    using pairLoop_shadow [OF r] freeNames_apart [OF assms(2)] by blast+
  have free: "n \<in> set (?free k) \<longleftrightarrow> (\<exists>t \<in> set shadow. dp_name t = n \<and> dp_key t = k)" for n k by (auto simp: freeNames_eq)
  let ?left = "map dp_name (filter (\<lambda>d. dp_name d \<in> set (free' (dp_key d))) shadow)"
  have left: "n \<in> set ?left \<longleftrightarrow> n \<in> dp_name ` set shadow \<and> n \<notin> pr_ShadowName ` set pairs" for n
    using sh(2) free by auto
  have named: "pr_ShadowName q \<in> dp_name ` set shadow" if "q \<in> set pairs" for q
    using pairLoop_pairs [OF r that] free by (metis imageI)
  have "distinct ?left" using assms(2) by (simp add: distinct_map_filter)
  then have "distinct (map pr_ShadowName pairs @ ?left)" using sh(1) left by auto
  moreover have "set (map pr_ShadowName pairs @ ?left) = set (map dp_name shadow)" using left named by auto
  ultimately have shadow: "splits (map dp_name shadow) (map pr_ShadowName pairs) ?left" by (simp add: splits_def)
  have source: "splits (map dp_name source) (map pr_SourceName pairs) unp"
    using pairLoop_source [OF r] assms(1) unfolding splits_def
    by (metis mset_append mset_eq_imp_distinct_iff mset_eq_setD)
  have "\<exists>s \<in> set source. \<exists>t \<in> set shadow. dp_name s = pr_SourceName q \<and> dp_name t = pr_ShadowName q \<and> dp_key s = dp_key t"
    if "q \<in> set pairs" for q
    using pairLoop_pairs [OF r that] free by metis
  then show "matching dp_name (\<lambda>s t. dp_key s = dp_key t) source shadow (pairByDefinition kind source shadow)"
    using source shadow unfolding matching_def p by simp
  assume s: "dp_name s \<in> set (pg_UnpairedSource (pairByDefinition kind source shadow))" "s \<in> set source"
    and t: "dp_name t \<in> set (pg_UnpairedShadow (pairByDefinition kind source shadow))" "t \<in> set shadow"
  obtain d where "d \<in> set source" "dp_name d = dp_name s" "free' (dp_key d) = []"
    using pairLoop_unpaired [OF r] s(1) p by auto
  then have "free' (dp_key s) = []" using assms(1) s(2) by (metis distinct_map inj_onD)
  moreover have "dp_name t \<in> set (free' (dp_key t))"
    using t assms(2) p by (auto simp: distinct_map inj_on_def)
  ultimately show "dp_key s \<noteq> dp_key t" by auto
qed


definition sameIndex :: "string list \<Rightarrow> indexEntry \<Rightarrow> indexEntry \<Rightarrow> bool" where
  "sameIndex retyped s t \<longleftrightarrow>
     definitionKey (relaxedAcross retyped (ie_definition s)) = definitionKey (relaxedAcross retyped (ie_definition t))"

lemma indexDependents_names [simp]: "map dp_name (indexDependents retyped es) = map ie_name es"
  by (simp add: indexDependents_def comp_def)

lemma indexDependents_member:
  "d \<in> set (indexDependents retyped es) \<Longrightarrow>
   \<exists>e \<in> set es. ie_name e = dp_name d \<and> dp_key d = definitionKey (relaxedAcross retyped (ie_definition e))"
  by (auto simp: indexDependents_def)

lemma splits_unpaired:
  assumes "distinct names" "splits names' xs ys" "set names' \<subseteq> set names"
  shows "splits names xs (filter (\<lambda>n. n \<notin> set xs) names)"
  using assms by (auto simp: splits_def)

lemma pairIndexEntries_matching:
  assumes "distinct (map ie_name source)" "distinct (map ie_name shadow)"
  shows "matching ie_name (sameIndex retyped) source shadow (pairIndexEntries source shadow retyped)"
proof -
  let ?s = "indexDependents retyped source" and ?t = "indexDependents retyped shadow"
  have entries: "\<exists>s \<in> set source. \<exists>t \<in> set shadow. ie_name s = dp_name a \<and> ie_name t = dp_name b \<and> sameIndex retyped s t"
    if "a \<in> set ?s" "b \<in> set ?t" "dp_key a = dp_key b" for a b
    using indexDependents_member [OF that(1)] indexDependents_member [OF that(2)] that(3) by (metis sameIndex_def)
  show ?thesis
  proof (cases "retyped = []")
    case True
    have "matching dp_name (\<lambda>s t. dp_key s = dp_key t) ?s ?t (pairByDefinition DependentIndex ?s ?t)"
      using assms by (intro pairByDefinition_matching) simp_all
    then show ?thesis using True entries by (fastforce simp: matching_def pairIndexEntries_def Let_def)
  next
    case False
    let ?amb = "sharedKeys [?s, ?t]"
    let ?s' = "withoutKeys ?s ?amb" and ?t' = "withoutKeys ?t ?amb"
    let ?p = "pairByDefinition DependentIndex ?s' ?t'"
    have "distinct (map dp_name ?s')" "distinct (map dp_name ?t')"
      using assms distinct_map_filter [of dp_name ?s] distinct_map_filter [of dp_name ?t] by (simp_all add: withoutKeys_def)
    then have m: "matching dp_name (\<lambda>s t. dp_key s = dp_key t) ?s' ?t' ?p" by (rule pairByDefinition_matching)
    have sub: "set (map dp_name ?s') \<subseteq> set (map ie_name source)" "set (map dp_name ?t') \<subseteq> set (map ie_name shadow)"
      by (auto simp: withoutKeys_def dest!: indexDependents_member) (metis imageI)+
    have ms: "splits (map dp_name ?s') (map pr_SourceName (pg_Pairs ?p)) (pg_UnpairedSource ?p)"
        "splits (map dp_name ?t') (map pr_ShadowName (pg_Pairs ?p)) (pg_UnpairedShadow ?p)"
      using m by (simp_all add: matching_def)
    have "splits (map ie_name source) (map pr_SourceName (pg_Pairs ?p)) (unpairedNames ?s (pg_Pairs ?p) pr_SourceName)"
      "splits (map ie_name shadow) (map pr_ShadowName (pg_Pairs ?p)) (unpairedNames ?t (pg_Pairs ?p) pr_ShadowName)"
      using splits_unpaired [OF assms(1) ms(1) sub(1)] splits_unpaired [OF assms(2) ms(2) sub(2)]
      by (simp_all add: unpairedNames_def)
    moreover have "\<exists>s \<in> set source. \<exists>t \<in> set shadow. ie_name s = pr_SourceName q \<and> ie_name t = pr_ShadowName q \<and> sameIndex retyped s t"
      if q: "q \<in> set (pg_Pairs ?p)" for q
    proof -
      obtain a b where "a \<in> set ?s'" "b \<in> set ?t'" "dp_name a = pr_SourceName q" "dp_name b = pr_ShadowName q" "dp_key a = dp_key b"
        using matchingE [OF m q] .
      then show ?thesis using entries [of a b] by (simp add: withoutKeys_def)
    qed
    ultimately show ?thesis using False by (simp add: matching_def pairIndexEntries_def Let_def)
  qed
qed

lemma clearAt_id: "(\<And>i. \<not> P i) \<Longrightarrow> clearAt P xs = xs"
  by (simp add: clearAt_def case_prod_unfold)

lemma sameIndex_exact: "sameIndex [] s t \<longleftrightarrow> definitionKey (ie_definition s) = definitionKey (ie_definition t)"
  by (simp add: sameIndex_def relaxedAcross_def retypedKey_def clearAt_id)

lemma partnerOf_distinct:
  assumes "distinct (map pr_SourceName pairs)"
  shows "partnerOf pairs n = Some m \<longleftrightarrow> (\<exists>q \<in> set pairs. pr_SourceName q = n \<and> pr_ShadowName q = m)"
proof -
  have "fold (\<lambda>p m. m(pr_SourceName p \<mapsto> pr_ShadowName p)) ps f = f ++ map_of (rev (map (\<lambda>p. (pr_SourceName p, pr_ShadowName p)) ps))" for ps f
    by (induction ps arbitrary: f) (auto simp: map_add_def fun_eq_iff split: option.splits)
  from this [of pairs Map.empty] have "partnerOf pairs = map_of (rev (map (\<lambda>p. (pr_SourceName p, pr_ShadowName p)) pairs))"
    unfolding partnerOf_def by simp
  moreover have "distinct (map fst (rev (map (\<lambda>p. (pr_SourceName p, pr_ShadowName p)) pairs)))"
    using assms by (simp add: rev_map [symmetric] comp_def)
  ultimately show ?thesis by (auto simp: map_of_eq_Some_iff)
qed



lemma splits_names:
  assumes "splits names xs ys" "splits zs xs' ys'" "set zs = set ys" "distinct names"
    and "set ps = set xs \<union> set xs'" "distinct ps"
  shows "splits names ps ys'"
  using assms by (auto simp: splits_def)

lemma splits_append:
  assumes "splits names xs ys" "splits zs xs' ys'" "set zs = set ys"
  shows "distinct (xs @ xs')" "set (xs @ xs') \<subseteq> set names"
  using assms unfolding splits_def by auto

lemma merged_names:
  fixes partner :: "string \<Rightarrow> string option" and source :: "indexEntry list"
  defines "merged \<equiv> concat (map (\<lambda>e. case partner (ie_name e) of
        None \<Rightarrow> []
      | Some shadowName \<Rightarrow> [\<lparr>pr_Kind = DependentIndex, pr_SourceName = ie_name e, pr_ShadowName = shadowName\<rparr>]) source)"
  shows "map pr_SourceName merged = filter (\<lambda>n. partner n \<noteq> None) (map ie_name source)"
    "map pr_ShadowName merged = map (\<lambda>n. the (partner n)) (filter (\<lambda>n. partner n \<noteq> None) (map ie_name source))"
  unfolding merged_def by (induction source) (auto split: option.splits)

lemma indexesNamed_sub: "e \<in> set (indexesNamed es names) \<Longrightarrow> e \<in> set es"
  by (simp add: indexesNamed_def)

lemma indexesNamed_names: "set names \<subseteq> ie_name ` set es \<Longrightarrow> set (map ie_name (indexesNamed es names)) = set names"
  by (auto simp: indexesNamed_def)

text \<open>
  C28: The index pairing is a matching. Over two lists of distinctly named indexes every source index is either
  in exactly one pair or listed as unpaired, and so is every shadow index, and the two indexes of a pair
  have the same definition, exactly or once the operator class and collation derived from a retyped
  column's type are set aside. No index can be put under the name of an index it does not
  stand for, nor two under one name.
\<close>
theorem pairIndexes_matching:
  assumes "distinct (map ie_name source)" "distinct (map ie_name shadow)"
  shows "matching ie_name (\<lambda>s t. sameIndex [] s t \<or> sameIndex retyped s t) source shadow (pairIndexes source shadow retyped)"
proof -
  let ?exact = "pairIndexEntries source shadow []"
  have ex: "matching ie_name (sameIndex []) source shadow ?exact" using pairIndexEntries_matching [OF assms] .
  show ?thesis
  proof (cases "retyped = [] \<or> pg_UnpairedSource ?exact = [] \<or> pg_UnpairedShadow ?exact = []")
    case True
    then show ?thesis using ex by (fastforce simp: pairIndexes_def Let_def matching_def)
  next
    case False
    let ?s = "indexesNamed source (pg_UnpairedSource ?exact)" and ?t = "indexesNamed shadow (pg_UnpairedShadow ?exact)"
    let ?relaxed = "pairIndexEntries ?s ?t retyped"
    let ?pairs = "pg_Pairs ?exact @ pg_Pairs ?relaxed"
    let ?merged = "concat (map (\<lambda>e. case partnerOf ?pairs (ie_name e) of
        None \<Rightarrow> []
      | Some shadowName \<Rightarrow> [\<lparr>pr_Kind = DependentIndex, pr_SourceName = ie_name e, pr_ShadowName = shadowName\<rparr>]) source)"
    have "distinct (map ie_name ?s)" "distinct (map ie_name ?t)"
      using assms by (simp_all add: indexesNamed_def distinct_map_filter)
    then have re: "matching ie_name (sameIndex retyped) ?s ?t ?relaxed" by (rule pairIndexEntries_matching)
    have left: "set (map ie_name ?s) = set (pg_UnpairedSource ?exact)" "set (map ie_name ?t) = set (pg_UnpairedShadow ?exact)"
      using ex by (intro indexesNamed_names; auto simp: matching_def splits_def)+
    have src: "distinct (map pr_SourceName ?pairs)" "distinct (map pr_ShadowName ?pairs)"
        "set (map pr_SourceName ?pairs) \<subseteq> ie_name ` set source"
      using splits_append [OF matching_splits(1) [OF ex] matching_splits(1) [OF re] left(1)]
        splits_append [OF matching_splits(2) [OF ex] matching_splits(2) [OF re] left(2)] by simp_all
    note partner = partnerOf_distinct [OF src(1)]
    let ?in = "filter (\<lambda>n. partnerOf ?pairs n \<noteq> None) (map ie_name source)"
    have dom: "partnerOf ?pairs n \<noteq> None \<longleftrightarrow> n \<in> set (map pr_SourceName ?pairs)" for n using partner [of n] by fastforce
    have inS: "set ?in = set (map pr_SourceName ?pairs)" using dom src(3) by auto
    have the: "the (partnerOf ?pairs (pr_SourceName q)) = pr_ShadowName q" if "q \<in> set ?pairs" for q
      using partner [of "pr_SourceName q" "pr_ShadowName q"] that by auto
    have inT: "(\<lambda>n. the (partnerOf ?pairs n)) ` set ?in = set (map pr_ShadowName ?pairs)"
      unfolding inS set_map image_image using the by (intro image_cong) simp_all
    have inj: "inj_on (\<lambda>n. the (partnerOf ?pairs n)) (set ?in)"
    proof (rule inj_onI, unfold inS)
      fix a b assume "a \<in> set (map pr_SourceName ?pairs)" "b \<in> set (map pr_SourceName ?pairs)"
        and eq: "the (partnerOf ?pairs a) = the (partnerOf ?pairs b)"
      then obtain p q where pq: "p \<in> set ?pairs" "q \<in> set ?pairs" "a = pr_SourceName p" "b = pr_SourceName q" by auto
      then have "pr_ShadowName p = pr_ShadowName q" using eq the by simp
      then show "a = b" using pq src(2) by (metis distinct_map inj_onD)
    qed
    have merged: "map pr_SourceName ?merged = ?in" "map pr_ShadowName ?merged = map (\<lambda>n. the (partnerOf ?pairs n)) ?in"
      by (rule merged_names)+
    have "splits (map ie_name source) (map pr_SourceName ?merged) (pg_UnpairedSource ?relaxed)"
      using assms(1) inS unfolding merged
      by (intro splits_names [OF matching_splits(1) [OF ex] matching_splits(1) [OF re] left(1)]) simp_all
    moreover have "splits (map ie_name shadow) (map pr_ShadowName ?merged) (pg_UnpairedShadow ?relaxed)"
      using assms inT inj unfolding merged
      by (intro splits_names [OF matching_splits(2) [OF ex] matching_splits(2) [OF re] left(2)]) (simp_all add: distinct_map)
    moreover have "\<exists>s \<in> set source. \<exists>t \<in> set shadow. ie_name s = pr_SourceName q \<and> ie_name t = pr_ShadowName q
        \<and> (sameIndex [] s t \<or> sameIndex retyped s t)" if q: "q \<in> set ?merged" for q
    proof -
      obtain p where p: "p \<in> set ?pairs" "pr_SourceName p = pr_SourceName q" "pr_ShadowName p = pr_ShadowName q"
        using q partner [of "pr_SourceName q" "pr_ShadowName q"] by (fastforce split: option.splits)
      from p(1) consider "p \<in> set (pg_Pairs ?exact)" | "p \<in> set (pg_Pairs ?relaxed)" by auto
      then show ?thesis
      proof cases
        case 1
        from matchingE [OF ex 1] show ?thesis using p by metis
      next
        case 2
        from matchingE [OF re 2] show ?thesis using p indexesNamed_sub by metis
      qed
    qed
    ultimately show ?thesis using False by (simp add: pairIndexes_def Let_def matching_def)
  qed
qed

text \<open>An instance on a table whose column \<open>id\<close> is retyped: its primary key and a partial index exchange their order.\<close>

definition sampleIndex :: "string \<Rightarrow> string \<Rightarrow> string \<Rightarrow> bool \<Rightarrow> indexEntry" where
  "sampleIndex name opclass predicate primary = \<lparr>ie_name = name, ie_valid = True, ie_definition =
     \<lparr>id_AccessMethod = ''btree'', id_Unique = primary, id_Primary = primary, id_NullsNotDistinct = False,
      id_KeyColumns = [''id''], id_Included = [], id_Opclasses = [opclass], id_Collations = [''''],
      id_DefaultOpclasses = [True], id_OwnCollations = [False], id_Options = [0], id_Predicate = predicate, id_Constraint = ''''\<rparr>\<rparr>"

theorem pairIndexes_matching_witness:
  "let source = [sampleIndex ''t_pkey'' ''int4_ops'' '''' True, sampleIndex ''t_live'' ''int4_ops'' ''live'' False];
       shadow = [sampleIndex ''n_live'' ''int8_ops'' ''live'' False, sampleIndex ''n_pkey'' ''int8_ops'' '''' True]
   in matching ie_name (\<lambda>s t. sameIndex [] s t \<or> sameIndex [''id''] s t) source shadow (pairIndexes source shadow [''id''])
     \<and> map pr_ShadowName (pg_Pairs (pairIndexes source shadow [''id''])) = [''n_pkey'', ''n_live'']"
proof -
  let ?source = "[sampleIndex ''t_pkey'' ''int4_ops'' '''' True, sampleIndex ''t_live'' ''int4_ops'' ''live'' False]"
  let ?shadow = "[sampleIndex ''n_live'' ''int8_ops'' ''live'' False, sampleIndex ''n_pkey'' ''int8_ops'' '''' True]"
  have "distinct (map ie_name ?source)" "distinct (map ie_name ?shadow)" by (simp_all add: sampleIndex_def)
  from pairIndexes_matching [OF this, of "[''id'']"] show ?thesis
    by (simp add: Let_def) code_simp
qed

end
