(* ===== verification/Cutover_Grants.thy ===== *)
theory Cutover_Grants
  imports Cutover_Dependents
begin

text \<open>
  The grants of a table, of its columns and of a recreated sequence are made equal to the source's
  (\<open>grants.go\<close>, \<open>cutover_grants.go\<close>, the reads of \<open>fidelity.go\<close>): read, issue the REVOKE and GRANT
  statements of \<open>reconcileACL\<close>, read again and refuse a difference. An access control list is the folded
  list \<open>readACL\<close> answers, at most one entry per privilege and grantee, in the order of its ORDER BY, which
  depends on the server's collation and is the parameter \<open>rank\<close>. \<open>applyACL\<close> is what PostgreSQL documents of
  a REVOKE, a REVOKE GRANT OPTION FOR and a GRANT; whether the server accepts a statement is an
  argument.
\<close>

section \<open>Reading\<close>

record ColumnGrant =
  cg_Column :: string
  cg_Grant :: Grant

datatype 'e aclError = AclServer 'e | AclUnknownPrivilege Grant | AclRefused ShadowCause

definition isTablePrivilege :: "string \<Rightarrow> bool" where
  "isTablePrivilege privilege = (privilege \<in> set [''SELECT'', ''INSERT'', ''UPDATE'', ''DELETE'', ''TRUNCATE'', ''REFERENCES'', ''TRIGGER'', ''MAINTAIN''])"

definition isColumnPrivilege :: "string \<Rightarrow> bool" where
  "isColumnPrivilege privilege = (privilege \<in> set [''SELECT'', ''INSERT'', ''UPDATE'', ''REFERENCES''])"

definition readKnown :: "(string \<Rightarrow> bool) \<Rightarrow> 'e option \<Rightarrow> Grant list \<Rightarrow> 'e aclError + Grant list" where
  "readKnown known answer acl =
     (case answer of
        Some e \<Rightarrow> Inl (AclServer e)
      | None \<Rightarrow> (case find (\<lambda>g. \<not> known (gr_Privilege g)) acl of Some g \<Rightarrow> Inl (AclUnknownPrivilege g) | None \<Rightarrow> Inr acl))"

definition readGrants :: "'e option \<Rightarrow> Grant list \<Rightarrow> 'e aclError + Grant list" where
  "readGrants = readKnown isTablePrivilege"

definition readSequenceGrants :: "'e option \<Rightarrow> Grant list \<Rightarrow> 'e aclError + Grant list" where
  "readSequenceGrants = readKnown isSequencePrivilege"

text \<open>The columns' lists, by column, are answered column by column in attribute order.\<close>

definition columnRows :: "string list \<Rightarrow> (string \<Rightarrow> Grant list) \<Rightarrow> ColumnGrant list" where
  "columnRows columns acls = concat (map (\<lambda>c. map (\<lambda>g. \<lparr>cg_Column = c, cg_Grant = g\<rparr>) (acls c)) columns)"

definition readColumnGrants :: "'e option \<Rightarrow> ColumnGrant list \<Rightarrow> 'e aclError + ColumnGrant list" where
  "readColumnGrants answer rows =
     (case answer of
        Some e \<Rightarrow> Inl (AclServer e)
      | None \<Rightarrow> (case find (\<lambda>g. \<not> isColumnPrivilege (gr_Privilege (cg_Grant g))) rows of
            Some g \<Rightarrow> Inl (AclUnknownPrivilege (cg_Grant g)) | None \<Rightarrow> Inr rows))"

section \<open>Statements against an access control list\<close>

fun statementGrant :: "acl_statement \<Rightarrow> Grant" where
  "statementGrant (RevokeAll g) = g"
| "statementGrant (RevokeOption g) = g"
| "statementGrant (GrantTo g) = g"

fun statementSQL :: "(string list \<Rightarrow> string) \<Rightarrow> aclObject \<Rightarrow> string \<Rightarrow> string \<Rightarrow> acl_statement \<Rightarrow> string" where
  "statementSQL san object name column (RevokeAll g) = revokeSQL san object name column g False"
| "statementSQL san object name column (RevokeOption g) = revokeSQL san object name column g True"
| "statementSQL san object name column (GrantTo g) = grantSQL san object name column g"

fun applyACL :: "(grantee \<Rightarrow> nat) \<Rightarrow> acl_statement \<Rightarrow> Grant list \<Rightarrow> Grant list" where
  "applyACL rank (RevokeAll g) acl = filter (\<lambda>h. granteeOf h \<noteq> granteeOf g) acl"
| "applyACL rank (RevokeOption g) acl = map (\<lambda>h. if granteeOf h = granteeOf g then h\<lparr>gr_Grantable := False\<rparr> else h) acl"
| "applyACL rank (GrantTo g) acl =
     (if \<exists>h \<in> set acl. granteeOf h = granteeOf g
      then map (\<lambda>h. if granteeOf h = granteeOf g then h\<lparr>gr_Grantable := gr_Grantable h \<or> gr_Grantable g\<rparr> else h) acl
      else insort_key (\<lambda>h. rank (granteeOf h)) g acl)"

fun execACL :: "(grantee \<Rightarrow> nat) \<Rightarrow> (string \<Rightarrow> 'e option) \<Rightarrow> (acl_statement \<Rightarrow> string) \<Rightarrow> acl_statement list \<Rightarrow> Grant list \<Rightarrow>
    'e option \<times> Grant list" where
  "execACL rank answer sql [] acl = (None, acl)"
| "execACL rank answer sql (s # ss) acl =
     (case answer (sql s) of Some e \<Rightarrow> (Some e, acl) | None \<Rightarrow> execACL rank answer sql ss (applyACL rank s acl))"

section \<open>Synchronising\<close>

record 'e aclServer =
  av_rank :: "grantee \<Rightarrow> nat"
  av_have :: "'e option"
  av_exec :: "string \<Rightarrow> 'e option"
  av_got :: "'e option"

definition reconcileGrants ::
  "(string list \<Rightarrow> string) \<Rightarrow> 'e aclServer \<Rightarrow> aclObject \<Rightarrow> string \<Rightarrow> string \<Rightarrow> Grant list \<Rightarrow> Grant list \<Rightarrow> Grant list \<Rightarrow> 'e option \<times> Grant list" where
  "reconcileGrants san sv object name column have' want acl =
     execACL (av_rank sv) (av_exec sv) (statementSQL san object name column) (reconcileACL have' want) acl"

definition syncGrants :: "(string list \<Rightarrow> string) \<Rightarrow> 'e aclServer \<Rightarrow> string \<Rightarrow> Grant list \<Rightarrow> Grant list \<Rightarrow> 'e aclError option \<times> Grant list" where
  "syncGrants san sv table want acl =
     (case readGrants (av_have sv) acl of
        Inl e \<Rightarrow> (Some e, acl)
      | Inr have' \<Rightarrow>
          (case reconcileGrants san sv aclTable table '''' have' want acl of
             (Some e, acl') \<Rightarrow> (Some (AclServer e), acl')
           | (None, acl') \<Rightarrow>
               (case readGrants (av_got sv) acl' of
                  Inl e \<Rightarrow> (Some e, acl')
                | Inr got \<Rightarrow> if got \<noteq> want then (Some (AclRefused ShGrantsDiffer), acl') else (None, acl'))))"

fun columnsIn :: "string list \<Rightarrow> ColumnGrant list \<Rightarrow> string list" where
  "columnsIn columns [] = columns"
| "columnsIn columns (g # gs) = columnsIn (if cg_Column g \<in> set columns then columns else columns @ [cg_Column g]) gs"

definition columnsOf :: "ColumnGrant list \<Rightarrow> ColumnGrant list \<Rightarrow> string list" where
  "columnsOf have' want = columnsIn [] (have' @ want)"

definition grantsOnColumn :: "ColumnGrant list \<Rightarrow> string \<Rightarrow> Grant list" where
  "grantsOnColumn grants column = map cg_Grant (filter (\<lambda>g. cg_Column g = column) grants)"

fun reconcileColumns ::
  "(string list \<Rightarrow> string) \<Rightarrow> 'e aclServer \<Rightarrow> string \<Rightarrow> ColumnGrant list \<Rightarrow> ColumnGrant list \<Rightarrow> string list \<Rightarrow> (string \<Rightarrow> Grant list) \<Rightarrow>
    'e option \<times> (string \<Rightarrow> Grant list)" where
  "reconcileColumns san sv table have' want [] acls = (None, acls)"
| "reconcileColumns san sv table have' want (column # columns) acls =
     (case reconcileGrants san sv aclTable table column (grantsOnColumn have' column) (grantsOnColumn want column) (acls column) of
        (Some e, acl) \<Rightarrow> (Some e, acls(column := acl))
      | (None, acl) \<Rightarrow> reconcileColumns san sv table have' want columns (acls(column := acl)))"

definition syncColumnGrants ::
  "(string list \<Rightarrow> string) \<Rightarrow> 'e aclServer \<Rightarrow> string \<Rightarrow> string list \<Rightarrow> ColumnGrant list \<Rightarrow> (string \<Rightarrow> Grant list) \<Rightarrow>
    'e aclError option \<times> (string \<Rightarrow> Grant list)" where
  "syncColumnGrants san sv table columns want acls =
     (case readColumnGrants (av_have sv) (columnRows columns acls) of
        Inl e \<Rightarrow> (Some e, acls)
      | Inr have' \<Rightarrow>
          (case reconcileColumns san sv table have' want (columnsOf have' want) acls of
             (Some e, acls') \<Rightarrow> (Some (AclServer e), acls')
           | (None, acls') \<Rightarrow>
               (case readColumnGrants (av_got sv) (columnRows columns acls') of
                  Inl e \<Rightarrow> (Some e, acls')
                | Inr got \<Rightarrow> if got \<noteq> want then (Some (AclRefused ShGrantsDiffer), acls') else (None, acls'))))"

definition carrySequenceGrants ::
  "(string list \<Rightarrow> string) \<Rightarrow> 'e aclServer \<Rightarrow> 'e option \<Rightarrow> string \<Rightarrow> Grant list \<Rightarrow> Grant list \<Rightarrow> 'e aclError option \<times> Grant list" where
  "carrySequenceGrants san sv wantAnswer to' source acl =
     (case readSequenceGrants wantAnswer source of
        Inl e \<Rightarrow> (Some e, acl)
      | Inr want \<Rightarrow>
          (case readSequenceGrants (av_have sv) acl of
             Inl e \<Rightarrow> (Some e, acl)
           | Inr have' \<Rightarrow>
               (case reconcileGrants san sv aclSequence to' '''' have' want acl of
                  (Some e, acl') \<Rightarrow> (Some (AclServer e), acl')
                | (None, acl') \<Rightarrow>
                    (case readSequenceGrants (av_got sv) acl' of
                       Inl e \<Rightarrow> (Some e, acl')
                     | Inr got \<Rightarrow> if got \<noteq> want then (Some (AclRefused ShGrantsDiffer), acl') else (None, acl')))))"

section \<open>Reconciling gives the wanted list\<close>

definition wfACL :: "(grantee \<Rightarrow> nat) \<Rightarrow> Grant list \<Rightarrow> bool" where
  "wfACL rank acl \<longleftrightarrow> sorted (map rank (map granteeOf acl)) \<and> distinct (map granteeOf acl)"

definition look :: "Grant list \<Rightarrow> grantee \<Rightarrow> bool option" where
  "look acl = map_of (map (\<lambda>g. (granteeOf g, gr_Grantable g)) acl)"

fun effectACL :: "acl_statement \<Rightarrow> (grantee \<Rightarrow> bool option) \<Rightarrow> grantee \<Rightarrow> bool option" where
  "effectACL (RevokeAll g) m = m(granteeOf g := None)"
| "effectACL (RevokeOption g) m = m(granteeOf g := map_option (\<lambda>_. False) (m (granteeOf g)))"
| "effectACL (GrantTo g) m = m(granteeOf g := Some (gr_Grantable g \<or> m (granteeOf g) = Some True))"

lemma look_Cons: "look (g # acl) = (look acl)(granteeOf g \<mapsto> gr_Grantable g)"
  by (simp add: look_def fun_eq_iff)

lemma look_Nil [simp]: "look [] = Map.empty"
  by (simp add: look_def)

lemma look_member: "distinct (map granteeOf acl) \<Longrightarrow> g \<in> set acl \<Longrightarrow> look acl (granteeOf g) = Some (gr_Grantable g)"
  unfolding look_def by (rule map_of_is_SomeI) (auto simp: comp_def)

lemma look_None: "look acl k = None \<longleftrightarrow> k \<notin> granteeOf ` set acl"
  by (induction acl) (auto simp: look_Cons)

lemma granteeOf_update [simp]: "granteeOf (h\<lparr>gr_Grantable := b\<rparr>) = granteeOf h"
  by (simp add: granteeOf_def)

lemma Grant_eq: "granteeOf g = granteeOf h \<Longrightarrow> gr_Grantable g = gr_Grantable h \<Longrightarrow> g = (h :: Grant)"
  by (cases g; cases h) (simp add: granteeOf_def)

lemma look_filter: "look (filter (\<lambda>h. granteeOf h \<noteq> k) acl) = (look acl)(k := None)"
  by (induction acl) (auto simp: look_Cons fun_eq_iff)

lemma look_map: "look (map (\<lambda>h. if granteeOf h = k then h\<lparr>gr_Grantable := f (gr_Grantable h)\<rparr> else h) acl)
    = (look acl)(k := map_option f (look acl k))"
  by (induction acl) (auto simp: look_Cons fun_eq_iff)

lemma look_insort: "granteeOf g \<notin> granteeOf ` set acl \<Longrightarrow> look (insort_key r g acl) = (look acl)(granteeOf g \<mapsto> gr_Grantable g)"
  by (induction acl) (auto simp: look_Cons fun_upd_twist)

lemma look_applyACL: "look (applyACL rank s acl) = effectACL s (look acl)"
proof (cases s)
  case (GrantTo g)
  show ?thesis
  proof (cases "granteeOf g \<in> granteeOf ` set acl")
    case True
    then obtain b where b: "look acl (granteeOf g) = Some b" using look_None [of acl "granteeOf g"] by auto
    have ex: "\<exists>h \<in> set acl. granteeOf h = granteeOf g" using True by force
    then show ?thesis using b look_map [where f = "\<lambda>x. x \<or> gr_Grantable g"] GrantTo by (auto simp: fun_eq_iff)
  next
    case False
    then have "\<not> (\<exists>h \<in> set acl. granteeOf h = granteeOf g)" by (metis imageI)
    then show ?thesis using False GrantTo look_None [of acl "granteeOf g"] by (simp add: look_insort)
  qed
qed (simp_all add: look_filter look_map [where f = "\<lambda>_. False", simplified])

lemma granteeOf_regrant [simp]: "map granteeOf (map (\<lambda>h. if granteeOf h = k then h\<lparr>gr_Grantable := f h\<rparr> else h) acl) = map granteeOf acl"
  by simp

lemma map_insort_granteeOf: "map granteeOf (insort_key (\<lambda>h. rank (granteeOf h)) g acl) = insort_key rank (granteeOf g) (map granteeOf acl)"
  by (induction acl) simp_all

lemma wfACL_applyACL:
  assumes "wfACL rank acl"
  shows "wfACL rank (applyACL rank s acl)"
proof (cases s)
  case (RevokeAll g)
  then show ?thesis using assms by (simp add: wfACL_def sorted_filter distinct_map_filter)
next
  case (RevokeOption g)
  then show ?thesis using assms unfolding wfACL_def by (simp only: applyACL.simps granteeOf_regrant)
next
  case (GrantTo g)
  then show ?thesis
  proof (cases "\<exists>h \<in> set acl. granteeOf h = granteeOf g")
    case True
    then show ?thesis using assms GrantTo unfolding wfACL_def by (simp only: applyACL.simps granteeOf_regrant if_True)
  next
    case False
    then have new: "granteeOf g \<notin> set (map granteeOf acl)" by (metis imageE set_map)
    show ?thesis using assms GrantTo new False unfolding wfACL_def
      by (simp only: applyACL.simps if_False map_insort_granteeOf sorted_insort_key distinct_insort) simp
  qed
qed

lemma wfACL_unique:
  assumes "wfACL rank xs" "wfACL rank ys" "look xs = look ys" "inj_on rank (granteeOf ` set xs)"
  shows "xs = ys"
proof (rule map_sorted_distinct_set_unique [where f = "\<lambda>g. rank (granteeOf g)"])
  have sub: "set us \<subseteq> set vs" if "wfACL rank us" "wfACL rank vs" "look us = look vs" for us vs
  proof
    fix g assume g: "g \<in> set us"
    then have l: "look vs (granteeOf g) = Some (gr_Grantable g)" using that look_member [of us g] by (simp add: wfACL_def)
    then have "granteeOf g \<in> granteeOf ` set vs" using look_None [of vs "granteeOf g"] by force
    then obtain h where h: "h \<in> set vs" "granteeOf g = granteeOf h" by blast
    then have "gr_Grantable g = gr_Grantable h" using l that(2) look_member [of vs h] by (simp add: wfACL_def)
    then show "g \<in> set vs" using h Grant_eq by metis
  qed
  then show eq: "set xs = set ys" using assms(1-3) by (metis subset_antisym)
  have "inj_on (\<lambda>g. rank (granteeOf g)) (set xs)"
    using assms(1,4) comp_inj_on [of granteeOf "set xs" rank] by (simp add: wfACL_def distinct_map comp_def)
  then show "inj_on (\<lambda>g. rank (granteeOf g)) (set xs \<union> set ys)" using eq by simp
  then show "distinct (map (\<lambda>g. rank (granteeOf g)) xs)" "distinct (map (\<lambda>g. rank (granteeOf g)) ys)"
    using assms(1,2) eq by (simp_all add: wfACL_def distinct_map)
qed (use assms in \<open>simp_all add: wfACL_def comp_def\<close>)

lemma aclMap_eq: "aclMap gs = map_of (rev (map (\<lambda>g. (granteeOf g, g)) gs))"
proof -
  have "fold (\<lambda>g m. m(granteeOf g \<mapsto> g)) gs f = f ++ map_of (rev (map (\<lambda>g. (granteeOf g, g)) gs))" for f
    by (induction gs arbitrary: f) (auto simp: map_add_def fun_eq_iff split: option.splits)
  from this [of Map.empty] show ?thesis by (simp add: aclMap_def)
qed

lemma aclMap_Some:
  assumes "distinct (map granteeOf gs)"
  shows "aclMap gs k = Some g \<longleftrightarrow> g \<in> set gs \<and> granteeOf g = k"
proof -
  have "distinct (map fst (rev (map (\<lambda>g. (granteeOf g, g)) gs)))" using assms by (simp add: rev_map [symmetric] comp_def)
  then show ?thesis unfolding aclMap_eq by (auto simp: map_of_eq_Some_iff)
qed

lemma aclMap_None: "aclMap gs k = None \<longleftrightarrow> k \<notin> granteeOf ` set gs"
  unfolding aclMap_eq by (auto simp: map_of_eq_None_iff image_iff)

lemma effect_elsewhere: "granteeOf (statementGrant s) \<noteq> k \<Longrightarrow> effectACL s m k = m k"
  by (cases s) auto

lemma effects_elsewhere: "(\<And>s. s \<in> set ss \<Longrightarrow> granteeOf (statementGrant s) \<noteq> k) \<Longrightarrow> fold effectACL ss m k = m k"
  by (induction ss arbitrary: m) (auto simp: effect_elsewhere)

lemma effects_local:
  assumes "m1 k = m2 k" "\<And>s. s \<in> set ss \<Longrightarrow> granteeOf (statementGrant s) = k"
  shows "fold effectACL ss m1 k = fold effectACL ss m2 k"
  using assms
proof (induction ss arbitrary: m1 m2)
  case (Cons s ss)
  have "effectACL s m1 k = effectACL s m2 k" using Cons.prems(1) Cons.prems(2) [of s] by (cases s) auto
  then show ?case using Cons.IH [of "effectACL s m1" "effectACL s m2"] Cons.prems(2) by simp
qed simp

lemma effects_keyed:
  assumes "\<And>g s. s \<in> set (f g) \<Longrightarrow> statementGrant s = g" "distinct (map granteeOf gs)" "g \<in> set gs"
  shows "fold effectACL (concat (map f gs)) m (granteeOf g) = fold effectACL (f g) m (granteeOf g)"
  using assms(2,3)
proof (induction gs arbitrary: m)
  case (Cons h gs)
  have rest: "fold effectACL (concat (map f hs)) m' (granteeOf g) = m' (granteeOf g)" if "granteeOf g \<notin> granteeOf ` set hs" for hs m'
    using that by (intro effects_elsewhere, auto dest!: assms(1)) (metis image_eqI)
  show ?case
  proof (cases "g = h")
    case True
    then show ?thesis using Cons.prems rest [of gs] by simp
  next
    case False
    then have g: "g \<in> set gs" "granteeOf h \<noteq> granteeOf g" using Cons.prems by force+
    have key: "fold effectACL (f g) m' (granteeOf g) = fold effectACL (f g) m (granteeOf g)" if "m' (granteeOf g) = m (granteeOf g)" for m'
      using that assms(1) by (intro effects_local) auto
    have skip: "fold effectACL (f h) m (granteeOf g) = m (granteeOf g)" using g assms(1) by (intro effects_elsewhere) force
    have "fold effectACL (concat (map f (h # gs))) m (granteeOf g) = fold effectACL (f g) (fold effectACL (f h) m) (granteeOf g)"
      using Cons.IH [of "fold effectACL (f h) m"] Cons.prems(1) g(1) by simp
    then show ?thesis using key [of "fold effectACL (f h) m", OF skip] by (simp only:)
  qed
qed simp

lemma reconcile_look:
  assumes "distinct (map granteeOf have')" "distinct (map granteeOf want)"
  shows "fold effectACL (reconcileACL have' want) (look have') = look want"
proof
  fix k
  let ?W = "aclMap want" and ?H = "aclMap have'"
  let ?m = "fold effectACL (concat (map (revokeFor ?W) have')) (look have')"
  have keys: "s \<in> set (revokeFor ?W g) \<Longrightarrow> statementGrant s = g" "s \<in> set (grantFor ?H g) \<Longrightarrow> statementGrant s = g" for s g
    by (auto simp: revokeFor_def grantFor_def split: option.splits if_splits)
  have held: "?m (granteeOf h) = fold effectACL (revokeFor ?W h) (look have') (granteeOf h)" if "h \<in> set have'" for h
    using effects_keyed [OF keys(1) assms(1) that] .
  have unheld: "?m k = look have' k" if "k \<notin> granteeOf ` set have'"
    using that by (intro effects_elsewhere) (auto dest!: keys(1))
  have "fold effectACL (concat (map (grantFor ?H) want)) ?m k = look want k"
  proof (cases "k \<in> granteeOf ` set want")
    case True
    then obtain w where w: "w \<in> set want" "k = granteeOf w" by blast
    have W: "?W k = Some w" using w aclMap_Some [OF assms(2)] by simp
    have granted: "fold effectACL (concat (map (grantFor ?H) want)) m k = fold effectACL (grantFor ?H w) m k" for m
      using effects_keyed [OF keys(2) assms(2) w(1)] w(2) by simp
    have l: "look want k = Some (gr_Grantable w)" using look_member [OF assms(2) w(1)] w(2) by simp
    show ?thesis
    proof (cases "?H k")
      case None
      then have "?m k = None" using unheld aclMap_None [of have' k] look_None [of have' k] by simp
      then show ?thesis unfolding granted using None w(2) l by (simp add: grantFor_def)
    next
      case (Some h)
      then have h: "h \<in> set have'" "granteeOf h = k" using aclMap_Some [OF assms(1)] by simp_all
      have "?m k = Some (gr_Grantable h \<and> gr_Grantable w)"
        using held [OF h(1)] h(2) W look_member [OF assms(1) h(1)] by (auto simp: revokeFor_def)
      then show ?thesis unfolding granted using Some w(2) l by (auto simp: grantFor_def)
    qed
  next
    case False
    then have W: "?W k = None" "look want k = None" using aclMap_None look_None by metis+
    have "fold effectACL (concat (map (grantFor ?H) want)) ?m k = ?m k"
      using False by (intro effects_elsewhere) (auto dest!: keys(2))
    moreover have "?m k = None"
    proof (cases "k \<in> granteeOf ` set have'")
      case True
      then obtain h where "h \<in> set have'" "k = granteeOf h" by blast
      then show ?thesis using held W by (simp add: revokeFor_def)
    next
      case False
      then show ?thesis using unheld look_None by metis
    qed
    ultimately show ?thesis using W by simp
  qed
  then show "fold effectACL (reconcileACL have' want) (look have') k = look want k" by (simp add: reconcileACL_def)
qed

lemma execACL_accepted:
  assumes "\<And>s. answer s = None" "wfACL rank acl"
  shows "\<exists>acl'. execACL rank answer sql ss acl = (None, acl') \<and> wfACL rank acl' \<and> look acl' = fold effectACL ss (look acl)"
  using assms(2)
proof (induction ss arbitrary: acl)
  case (Cons s ss)
  then show ?case using assms(1) wfACL_applyACL [of rank acl s] Cons.IH [of "applyACL rank s acl"] by (simp add: look_applyACL)
qed simp

lemma reconcileGrants_accepted:
  assumes "\<And>s. av_exec sv s = None" "wfACL (av_rank sv) acl" "wfACL (av_rank sv) want" "inj_on (av_rank sv) (granteeOf ` set want)"
  shows "reconcileGrants san sv object name column acl want acl = (None, want)"
proof -
  have d: "distinct (map granteeOf acl)" "distinct (map granteeOf want)" using assms(2,3) by (simp_all add: wfACL_def)
  obtain acl' where a: "execACL (av_rank sv) (av_exec sv) (statementSQL san object name column) (reconcileACL acl want) acl = (None, acl')"
      "wfACL (av_rank sv) acl'" "look acl' = look want"
    using execACL_accepted [of "av_exec sv", OF assms(1,2), where sql = "statementSQL san object name column" and ss = "reconcileACL acl want"]
    unfolding reconcile_look [OF d] by blast
  have "want = acl'" using wfACL_unique [OF assms(3) a(2)] a(3) assms(4) by simp
  then show ?thesis using a(1) by (simp add: reconcileGrants_def)
qed

lemma readKnown_Inr: "readKnown known answer acl = Inr got \<longleftrightarrow> got = acl \<and> answer = None \<and> (\<forall>g \<in> set acl. known (gr_Privilege g))"
  by (auto simp: readKnown_def find_None_iff find_Some_iff split: option.splits dest: nth_mem)

text \<open>
  C29: The table's grants become the source's, or the build refuses. Whatever the server answers, when the
  synchronisation returns without an error the shadow's list is exactly the wanted one, in content and
  order: the grants a default privilege gave the shadow are gone, and so is a grant option the source does not give.
  And when the server accepts every statement, the wanted list is reached from any list the shadow was born with.
\<close>
theorem syncGrants_equal:
  fixes sv :: "'e aclServer"
  assumes "wfACL (av_rank sv) acl" "wfACL (av_rank sv) want" "inj_on (av_rank sv) (granteeOf ` set want)"
    and "\<forall>g \<in> set acl \<union> set want. isTablePrivilege (gr_Privilege g)"
  shows "(\<forall>acl'. syncGrants san sv table want acl = (None, acl') \<longrightarrow> acl' = want)
    \<and> (av_have sv = None \<and> av_got sv = None \<and> (\<forall>s. av_exec sv s = None) \<longrightarrow> syncGrants san sv table want acl = (None, want))"
proof (intro conjI allI impI)
  fix acl' assume "syncGrants san sv table want acl = (None, acl')"
  then show "acl' = want"
    by (auto simp: syncGrants_def readGrants_def readKnown_Inr split: sum.splits prod.splits option.splits if_splits)
next
  assume ok: "av_have sv = None \<and> av_got sv = None \<and> (\<forall>s. av_exec sv s = None)"
  then have "reconcileGrants san sv aclTable table '''' acl want acl = (None, want)"
    using assms(1-3) by (intro reconcileGrants_accepted) simp_all
  moreover have "readGrants (None :: 'e option) acl = Inr acl" "readGrants (None :: 'e option) want = Inr want"
    using assms(4) by (auto simp: readGrants_def readKnown_Inr)
  ultimately show "syncGrants san sv table want acl = (None, want)"
    using ok by (simp add: syncGrants_def)
qed

text \<open>An instance on a shadow born with a default grant to a role the source does not know and a surplus grant option.\<close>

theorem syncGrants_equal_witness:
  "let rank = (\<lambda>(p, r, pub). length r);
       owner = \<lparr>gr_Privilege = ''SELECT'', gr_Grantee = ''app'', gr_Public = False, gr_Grantable = False\<rparr>;
       audit = \<lparr>gr_Privilege = ''SELECT'', gr_Grantee = ''audit'', gr_Public = False, gr_Grantable = False\<rparr>;
       other = \<lparr>gr_Privilege = ''SELECT'', gr_Grantee = ''none'', gr_Public = False, gr_Grantable = False\<rparr>;
       sv = \<lparr>av_rank = rank, av_have = None, av_exec = (\<lambda>_. None), av_got = (None :: nat option)\<rparr>
   in syncGrants hd sv ''t'' [owner, audit] [owner\<lparr>gr_Grantable := True\<rparr>, other] = (None, [owner, audit])"
proof -
  let ?rank = "(\<lambda>(p, r, pub). length r) :: grantee \<Rightarrow> nat"
  let ?owner = "\<lparr>gr_Privilege = ''SELECT'', gr_Grantee = ''app'', gr_Public = False, gr_Grantable = False\<rparr>"
  let ?audit = "\<lparr>gr_Privilege = ''SELECT'', gr_Grantee = ''audit'', gr_Public = False, gr_Grantable = False\<rparr>"
  let ?other = "\<lparr>gr_Privilege = ''SELECT'', gr_Grantee = ''none'', gr_Public = False, gr_Grantable = False\<rparr>"
  let ?sv = "\<lparr>av_rank = ?rank, av_have = None, av_exec = (\<lambda>_. None), av_got = (None :: nat option)\<rparr>"
  have "wfACL ?rank [?owner\<lparr>gr_Grantable := True\<rparr>, ?other]" "wfACL ?rank [?owner, ?audit]"
      "inj_on ?rank (granteeOf ` set [?owner, ?audit])"
    by (simp_all add: wfACL_def granteeOf_def)
  then show ?thesis
    using syncGrants_equal [of ?sv "[?owner\<lparr>gr_Grantable := True\<rparr>, ?other]" "[?owner, ?audit]" hd "''t''"]
    by (simp add: isTablePrivilege_def Let_def)
qed

section \<open>Columns and sequences\<close>

lemma carrySequenceGrants_equal:
  fixes sv :: "'e aclServer"
  shows "carrySequenceGrants san sv answer to' source acl = (None, acl') \<Longrightarrow> acl' = source"
    and "wfACL (av_rank sv) acl \<Longrightarrow> wfACL (av_rank sv) source \<Longrightarrow> inj_on (av_rank sv) (granteeOf ` set source) \<Longrightarrow>
      \<forall>g \<in> set acl \<union> set source. isSequencePrivilege (gr_Privilege g) \<Longrightarrow>
      answer = None \<Longrightarrow> av_have sv = None \<Longrightarrow> av_got sv = None \<Longrightarrow> (\<And>s. av_exec sv s = None) \<Longrightarrow>
      carrySequenceGrants san sv answer to' source acl = (None, source)"
proof -
  assume "carrySequenceGrants san sv answer to' source acl = (None, acl')"
  then show "acl' = source"
    by (auto simp: carrySequenceGrants_def readSequenceGrants_def readKnown_Inr split: sum.splits prod.splits option.splits if_splits)
next
  assume w: "wfACL (av_rank sv) acl" "wfACL (av_rank sv) source" "inj_on (av_rank sv) (granteeOf ` set source)"
    and k: "\<forall>g \<in> set acl \<union> set source. isSequencePrivilege (gr_Privilege g)"
    and a: "answer = None" "av_have sv = None" "av_got sv = None" "\<And>s. av_exec sv s = None"
  have "readSequenceGrants (None :: 'e option) acl = Inr acl" "readSequenceGrants (None :: 'e option) source = Inr source"
    using k by (auto simp: readSequenceGrants_def readKnown_Inr)
  then show "carrySequenceGrants san sv answer to' source acl = (None, source)"
    using reconcileGrants_accepted [OF a(4) w] a(1-3) by (simp add: carrySequenceGrants_def)
qed

lemma grantsOnColumn_rows:
  assumes "distinct columns"
  shows "grantsOnColumn (columnRows columns acls) c = (if c \<in> set columns then acls c else [])"
proof -
  have hit: "grantsOnColumn (map (\<lambda>g. \<lparr>cg_Column = d, cg_Grant = g\<rparr>) gs) c = (if c = d then gs else [])" for d gs
    by (induction gs) (auto simp: grantsOnColumn_def)
  have app: "grantsOnColumn (xs @ ys) c = grantsOnColumn xs c @ grantsOnColumn ys c" for xs ys
    by (simp add: grantsOnColumn_def)
  show ?thesis using assms
    by (induction columns) (auto simp: columnRows_def app hit, simp add: grantsOnColumn_def)
qed

lemma columnsIn_set: "set (columnsIn cs gs) = set cs \<union> cg_Column ` set gs" "distinct cs \<Longrightarrow> distinct (columnsIn cs gs)"
  by (induction gs arbitrary: cs) auto

lemma reconcileColumns_accepted:
  assumes "\<And>s. av_exec sv s = None"
    and "\<And>c. grantsOnColumn have' c = acls c" "\<And>c. wfACL (av_rank sv) (acls c)"
    and "\<And>c. wfACL (av_rank sv) (grantsOnColumn want c)" "\<And>c. inj_on (av_rank sv) (granteeOf ` set (grantsOnColumn want c))"
    and "distinct columns" "\<And>c. c \<in> set columns \<Longrightarrow> now c = acls c"
  shows "reconcileColumns san sv table have' want columns now
    = (None, \<lambda>c. if c \<in> set columns then grantsOnColumn want c else now c)"
  using assms(6,7)
proof (induction columns arbitrary: now)
  case (Cons c cs)
  have "reconcileGrants san sv aclTable table c (acls c) (grantsOnColumn want c) (acls c) = (None, grantsOnColumn want c)"
    using reconcileGrants_accepted [OF assms(1,3,4,5)] .
  moreover have "reconcileColumns san sv table have' want cs (now(c := grantsOnColumn want c))
      = (None, \<lambda>d. if d \<in> set cs then grantsOnColumn want d else (now(c := grantsOnColumn want c)) d)"
    using Cons.prems by (intro Cons.IH) auto
  moreover have "(\<lambda>d. if d \<in> set cs then grantsOnColumn want d else (now(c := grantsOnColumn want c)) d)
      = (\<lambda>d. if d \<in> set (c # cs) then grantsOnColumn want d else now d)" by auto
  ultimately show ?case using Cons.prems(2) [of c] assms(2) by simp
qed simp

lemma readColumnGrants_None:
  "readColumnGrants None rows = Inr rows \<longleftrightarrow> (\<forall>g \<in> set rows. isColumnPrivilege (gr_Privilege (cg_Grant g)))"
  by (auto simp: readColumnGrants_def find_None_iff find_Some_iff split: option.splits dest: nth_mem)

lemma syncColumnGrants_equal:
  fixes sv :: "'e aclServer"
  assumes "distinct columns" "\<And>c. c \<notin> set columns \<Longrightarrow> acls c = []" "\<And>c. c \<notin> set columns \<Longrightarrow> wanted c = []"
    and "\<And>c. wfACL (av_rank sv) (acls c)" "\<And>c. wfACL (av_rank sv) (wanted c)" "\<And>c. inj_on (av_rank sv) (granteeOf ` set (wanted c))"
    and "\<And>c g. g \<in> set (acls c) \<union> set (wanted c) \<Longrightarrow> isColumnPrivilege (gr_Privilege g)"
    and "av_have sv = None" "av_got sv = None" "\<And>s. av_exec sv s = None"
  shows "syncColumnGrants san sv table columns (columnRows columns wanted) acls = (None, wanted)"
proof -
  let ?have = "columnRows columns acls" and ?want = "columnRows columns wanted"
  have on: "grantsOnColumn ?have = acls" "grantsOnColumn ?want = wanted"
    using grantsOnColumn_rows [OF assms(1)] assms(2,3) by (auto simp: fun_eq_iff)
  have known: "readColumnGrants (None :: 'e option) ?have = Inr ?have" "readColumnGrants (None :: 'e option) ?want = Inr ?want"
    using assms(7) by (auto simp: readColumnGrants_None columnRows_def)
  have "reconcileColumns san sv table ?have ?want (columnsOf ?have ?want) acls
      = (None, \<lambda>c. if c \<in> set (columnsOf ?have ?want) then grantsOnColumn ?want c else acls c)"
    using assms(4-6,10) by (intro reconcileColumns_accepted) (simp_all add: on columnsOf_def columnsIn_set)
  moreover have "(\<lambda>c. if c \<in> set (columnsOf ?have ?want) then grantsOnColumn ?want c else acls c) = wanted"
  proof
    fix c
    have "grantsOnColumn ?have c = [] \<and> grantsOnColumn ?want c = []" if "c \<notin> set (columnsOf ?have ?want)"
      using that by (auto simp: columnsOf_def columnsIn_set grantsOnColumn_def filter_empty_conv)
    then have "acls c = [] \<and> wanted c = []" if "c \<notin> set (columnsOf ?have ?want)" using that unfolding on by blast
    then show "(if c \<in> set (columnsOf ?have ?want) then grantsOnColumn ?want c else acls c) = wanted c" using on by auto
  qed
  ultimately show ?thesis using known assms(8,9) by (simp add: syncColumnGrants_def)
qed

end
