(* ===== verification/Cutover_Catalog.thy ===== *)
theory Cutover_Catalog
  imports Cutover_Grants "HOL-Library.List_Lexorder" "HOL-Library.Char_ord"
begin

text \<open>
  The catalog a swap works on, and the errors it can meet (\<open>pkg/schemachange\<close>). The catalog is the part of
  \<open>pg_class\<close>, \<open>pg_index\<close>, \<open>pg_statistic_ext\<close>, \<open>pg_constraint\<close>, \<open>pg_attribute\<close>, \<open>pg_sequence\<close> and \<open>pg_depend\<close>
  the queries of the package read; a statement of the swap is its documented effect on it: a rename
  fails on a taken name, an index takes the name of its constraint along, an identity clause makes a
  sequence. The reads are those of \<open>dependents.go\<close>, \<open>sequences.go\<close>, \<open>identity.go\<close>, \<open>shadow.go\<close> and \<open>inspect_swapped.go\<close>.
\<close>

section \<open>Errors\<close>

datatype cut_error =
    CutRefusal ShadowCause "cut_error list"
  | CutPg string
  | CutNet
  | CutEOF
  | CutUnexpectedEOF
  | CutUnsent
  | CutCanceled
  | CutDeadlineExceeded
  | CutNoRows
  | CutNotSwapped
  | CutOldTableNotFound
  | CutInvalidOptions
  | CutLockNotHeld
  | CutLockHeldElsewhere
  | CutLockLost
  | CutRolledBack cut_error
  | CutRetriesExhausted cut_error
  | CutJoined "cut_error list"
  | CutOther string

text \<open>Every error in the tree an error wraps, in the order \<open>errors.Is\<close> and \<open>errors.As\<close> visit them.\<close>

fun errorTree :: "cut_error \<Rightarrow> cut_error list" and errorTrees :: "cut_error list \<Rightarrow> cut_error list" where
  "errorTree (CutRefusal c es) = CutRefusal c es # errorTrees es"
| "errorTree (CutRolledBack e) = CutRolledBack e # errorTree e"
| "errorTree (CutRetriesExhausted e) = CutRetriesExhausted e # errorTree e"
| "errorTree (CutJoined es) = CutJoined es # errorTrees es"
| "errorTree e = [e]"
| "errorTrees [] = []"
| "errorTrees (e # es) = errorTree e @ errorTrees es"

definition errorIs :: "cut_error \<Rightarrow> cut_error \<Rightarrow> bool" where
  "errorIs target err = (target \<in> set (errorTree err))"

definition pgErrorCode :: "cut_error \<Rightarrow> string option" where
  "pgErrorCode err = (case concat (map (\<lambda>e. case e of CutPg code \<Rightarrow> [code] | _ \<Rightarrow> []) (errorTree err)) of [] \<Rightarrow> None | code # _ \<Rightarrow> Some code)"

definition isRolledBack :: "cut_error \<Rightarrow> bool" where
  "isRolledBack err = (\<exists>e \<in> set (errorTree err). case e of CutRolledBack _ \<Rightarrow> True | _ \<Rightarrow> False)"

definition rolledBack :: "cut_error \<Rightarrow> cut_error" where
  "rolledBack err = CutRolledBack err"

definition codeLockNotAvailable :: string where "codeLockNotAvailable = ''55P03''"
definition codeDeadlockDetected :: string where "codeDeadlockDetected = ''40P01''"
definition codeAdminShutdown :: string where "codeAdminShutdown = ''57P01''"
definition codeCrashShutdown :: string where "codeCrashShutdown = ''57P02''"
definition classConnectionException :: string where "classConnectionException = ''08''"

definition lockRetryable :: "cut_error \<Rightarrow> bool" where
  "lockRetryable err = (case pgErrorCode err of None \<Rightarrow> False | Some code \<Rightarrow> code = codeLockNotAvailable \<or> code = codeDeadlockDetected)"

text \<open>A deadline's error is a \<open>net.Error\<close> as well.\<close>

definition connectionLost :: "cut_error \<Rightarrow> bool" where
  "connectionLost err =
     (case pgErrorCode err of
        Some code \<Rightarrow> code = codeAdminShutdown \<or> code = codeCrashShutdown \<or> take 2 code = classConnectionException
      | None \<Rightarrow>
          if errorIs CutNet err \<or> errorIs CutDeadlineExceeded err then True
          else errorIs CutEOF err \<or> errorIs CutUnexpectedEOF err \<or> errorIs CutUnsent err)"

definition contextEnded :: "cut_error \<Rightarrow> bool" where
  "contextEnded err = (errorIs CutCanceled err \<or> errorIs CutDeadlineExceeded err)"

definition outcomeUnknown :: "cut_error \<Rightarrow> bool" where
  "outcomeUnknown err = (connectionLost err \<or> contextEnded err)"

section \<open>The catalog\<close>

type_synonym oid = "32 word"

datatype relKind = RelTable | RelIndex | RelSequence | RelOther

record pgRelation =
  rl_oid :: oid
  rl_schema :: string
  rl_name :: string
  rl_kind :: relKind
  rl_owner :: string

record indexRow =
  ix_oid :: oid
  ix_table :: oid
  ix_valid :: bool
  ix_definition :: indexDefinition

record statisticsRow =
  st_oid :: oid
  st_table :: oid
  st_schema :: string
  st_name :: string
  st_kinds :: string
  st_columns :: string

record constraintRow =
  cn_table :: oid
  cn_name :: string
  cn_index :: "oid option"

record columnRow =
  cl_table :: oid
  cl_name :: string
  cl_type :: oid
  cl_default :: "oid option"
  cl_identity :: "(bool \<times> oid) option"

record ownedRow =
  ow_sequence :: oid
  ow_table :: oid
  ow_column :: string

record sequenceRow =
  sq_oid :: oid
  sq_type :: oid
  sq_options :: HandoffOptions
  sq_last :: int64
  sq_called :: bool
  sq_acl :: "Grant list"

record pgCatalog =
  ct_relations :: "pgRelation list"
  ct_indexes :: "indexRow list"
  ct_statistics :: "statisticsRow list"
  ct_constraints :: "constraintRow list"
  ct_columns :: "columnRow list"
  ct_owned :: "ownedRow list"
  ct_sequences :: "sequenceRow list"

section \<open>Reads\<close>

definition relationNamed :: "pgCatalog \<Rightarrow> string \<Rightarrow> string \<Rightarrow> pgRelation option" where
  "relationNamed cat schema name = find (\<lambda>r. rl_schema r = schema \<and> rl_name r = name) (ct_relations cat)"

definition lookupRelation :: "pgCatalog \<Rightarrow> string \<Rightarrow> string \<Rightarrow> oid option" where
  "lookupRelation cat schema name = map_option rl_oid (relationNamed cat schema name)"

definition resolveRelation :: "string \<Rightarrow> string \<Rightarrow> pgCatalog \<Rightarrow> cut_error + oid" where
  "resolveRelation schema table cat = (case lookupRelation cat schema table of None \<Rightarrow> Inl CutNoRows | Some x \<Rightarrow> Inr x)"

definition relationOf :: "pgCatalog \<Rightarrow> oid \<Rightarrow> pgRelation option" where
  "relationOf cat x = find (\<lambda>r. rl_oid r = x) (ct_relations cat)"

definition lookupRelationName :: "pgCatalog \<Rightarrow> oid \<Rightarrow> (string \<times> string) option" where
  "lookupRelationName cat x = map_option (\<lambda>r. (rl_schema r, rl_name r)) (relationOf cat x)"

definition readOwner :: "oid \<Rightarrow> pgCatalog \<Rightarrow> cut_error + string" where
  "readOwner x cat = (case relationOf cat x of None \<Rightarrow> Inl CutNoRows | Some r \<Rightarrow> Inr (rl_owner r))"

definition sequenceOf :: "pgCatalog \<Rightarrow> oid \<Rightarrow> sequenceRow option" where
  "sequenceOf cat x = find (\<lambda>s. sq_oid s = x) (ct_sequences cat)"

definition tableColumns :: "pgCatalog \<Rightarrow> oid \<Rightarrow> columnRow list" where
  "tableColumns cat x = filter (\<lambda>c. cl_table c = x) (ct_columns cat)"

definition readIndexes :: "oid \<Rightarrow> pgCatalog \<Rightarrow> indexEntry list" where
  "readIndexes x cat = sort_key ie_name (concat (map (\<lambda>i. case relationOf cat (ix_oid i) of
       None \<Rightarrow> []
     | Some r \<Rightarrow> [\<lparr>ie_name = rl_name r, ie_valid = ix_valid i, ie_definition = ix_definition i\<rparr>]) (filter (\<lambda>i. ix_table i = x) (ct_indexes cat))))"

definition readStatistics :: "oid \<Rightarrow> pgCatalog \<Rightarrow> string dependent list" where
  "readStatistics x cat = sort_key dp_name (map (\<lambda>s. \<lparr>dp_name = st_name s, dp_key = st_kinds s @ '' ON '' @ st_columns s\<rparr>)
     (filter (\<lambda>s. st_table s = x) (ct_statistics cat)))"

definition readOwnedSequences :: "oid \<Rightarrow> pgCatalog \<Rightarrow> OwnedSequence list" where
  "readOwnedSequences x cat = concat (map (\<lambda>c.
     sort_key os_SequenceSchema (sort_key os_SequenceName (concat (map (\<lambda>o'. case relationOf cat (ow_sequence o') of
          None \<Rightarrow> []
        | Some r \<Rightarrow> [\<lparr>os_Column = cl_name c, os_SequenceSchema = rl_schema r, os_SequenceName = rl_name r\<rparr>])
       (filter (\<lambda>o'. ow_table o' = x \<and> ow_column o' = cl_name c) (ct_owned cat)))))) (tableColumns cat x))"

fun identityRows :: "pgCatalog \<Rightarrow> columnRow list \<Rightarrow> cut_error + IdentityColumn list" where
  "identityRows cat [] = Inr []"
| "identityRows cat (c # cs) =
     (case cl_identity c of
        None \<Rightarrow> identityRows cat cs
      | Some (always, s) \<Rightarrow>
          (case (relationOf cat s, sequenceOf cat s) of
             (Some r, Some q) \<Rightarrow>
               (case identityRows cat cs of
                  Inl e \<Rightarrow> Inl e
                | Inr ids \<Rightarrow> Inr (\<lparr>ic_Column = cl_name c, ic_Always = always, ic_SequenceSchema = rl_schema r,
                                  ic_SequenceName = rl_name r, ic_Options = sq_options q\<rparr> # ids))
           | _ \<Rightarrow> Inl (CutRefusal ShSourceShape [])))"

definition readIdentityColumns :: "oid \<Rightarrow> pgCatalog \<Rightarrow> cut_error + IdentityColumn list" where
  "readIdentityColumns x cat = identityRows cat (tableColumns cat x)"

definition takenNames :: "string \<Rightarrow> string list \<Rightarrow> pgCatalog \<Rightarrow> string list" where
  "takenNames schema candidates cat = sort (remdups (
     map rl_name (filter (\<lambda>r. rl_schema r = schema \<and> rl_name r \<in> set candidates) (ct_relations cat))
     @ map st_name (filter (\<lambda>s. st_schema s = schema \<and> st_name s \<in> set candidates) (ct_statistics cat))))"

definition backsConstraint :: "indexEntry list \<Rightarrow> string \<Rightarrow> bool" where
  "backsConstraint shadow name = (case find (\<lambda>e. ie_name e = name) (rev shadow) of None \<Rightarrow> False | Some e \<Rightarrow> id_Constraint (ie_definition e) \<noteq> '''')"

definition constraintNamesTaken :: "oid \<Rightarrow> DependentPairing \<Rightarrow> indexEntry list \<Rightarrow> pgCatalog \<Rightarrow> string list" where
  "constraintNamesTaken shadowOID indexes shadow cat =
     (let pairs = filter (\<lambda>p. backsConstraint shadow (pr_ShadowName p)) (pg_Pairs indexes);
          targets = map pr_SourceName pairs; paired = map pr_ShadowName pairs in
      sort (map cn_name (filter (\<lambda>c. cn_table c = shadowOID \<and> cn_name c \<in> set targets
        \<and> \<not> (case cn_index c of None \<Rightarrow> False
             | Some i \<Rightarrow> (case relationOf cat i of None \<Rightarrow> False | Some r \<Rightarrow> rl_name r \<in> set paired))) (ct_constraints cat))))"

section \<open>Statements\<close>

definition mapRelation :: "oid \<Rightarrow> (pgRelation \<Rightarrow> pgRelation) \<Rightarrow> pgCatalog \<Rightarrow> pgCatalog" where
  "mapRelation x f cat = cat\<lparr>ct_relations := map (\<lambda>r. if rl_oid r = x then f r else r) (ct_relations cat)\<rparr>"

definition renameRelation :: "relKind \<Rightarrow> string \<Rightarrow> string \<Rightarrow> string \<Rightarrow> pgCatalog \<Rightarrow> cut_error + pgCatalog" where
  "renameRelation kind schema old new cat =
     (case relationNamed cat schema old of
        None \<Rightarrow> Inl (CutPg ''42P01'')
      | Some r \<Rightarrow>
          if rl_kind r \<noteq> kind then Inl (CutPg ''42809'')
          else if relationNamed cat schema new \<noteq> None then Inl (CutPg ''42P07'')
          else Inr (mapRelation (rl_oid r) (\<lambda>r. r\<lparr>rl_name := new\<rparr>) cat))"

definition renameTable :: "string \<Rightarrow> string \<Rightarrow> string \<Rightarrow> pgCatalog \<Rightarrow> cut_error + pgCatalog" where
  "renameTable = renameRelation RelTable"

definition renameSequence :: "string \<Rightarrow> string \<Rightarrow> string \<Rightarrow> pgCatalog \<Rightarrow> cut_error + pgCatalog" where
  "renameSequence = renameRelation RelSequence"

definition renameConstraintOf :: "oid \<Rightarrow> string \<Rightarrow> pgCatalog \<Rightarrow> cut_error + pgCatalog" where
  "renameConstraintOf x new cat =
     (case find (\<lambda>c. cn_index c = Some x) (ct_constraints cat) of
        None \<Rightarrow> Inr cat
      | Some c \<Rightarrow>
          if \<exists>d \<in> set (ct_constraints cat). cn_table d = cn_table c \<and> cn_name d = new then Inl (CutPg ''42710'')
          else Inr (cat\<lparr>ct_constraints := map (\<lambda>d. if cn_index d = Some x then d\<lparr>cn_name := new\<rparr> else d) (ct_constraints cat)\<rparr>))"

definition renameIndex :: "string \<Rightarrow> string \<Rightarrow> string \<Rightarrow> pgCatalog \<Rightarrow> cut_error + pgCatalog" where
  "renameIndex schema old new cat =
     (case renameRelation RelIndex schema old new cat of
        Inl e \<Rightarrow> Inl e
      | Inr cat' \<Rightarrow>
          (case lookupRelation cat schema old of None \<Rightarrow> Inr cat' | Some x \<Rightarrow> renameConstraintOf x new cat'))"

definition renameStatistics :: "string \<Rightarrow> string \<Rightarrow> string \<Rightarrow> pgCatalog \<Rightarrow> cut_error + pgCatalog" where
  "renameStatistics schema old new cat =
     (if \<not> (\<exists>s \<in> set (ct_statistics cat). st_schema s = schema \<and> st_name s = old) then Inl (CutPg ''42704'')
      else if \<exists>s \<in> set (ct_statistics cat). st_schema s = schema \<and> st_name s = new then Inl (CutPg ''42710'')
      else Inr (cat\<lparr>ct_statistics := map (\<lambda>s. if st_schema s = schema \<and> st_name s = old then s\<lparr>st_name := new\<rparr> else s) (ct_statistics cat)\<rparr>))"

definition mapColumn :: "oid \<Rightarrow> string \<Rightarrow> (columnRow \<Rightarrow> columnRow) \<Rightarrow> pgCatalog \<Rightarrow> pgCatalog" where
  "mapColumn x column f cat = cat\<lparr>ct_columns := map (\<lambda>c. if cl_table c = x \<and> cl_name c = column then f c else c) (ct_columns cat)\<rparr>"

definition columnNamed :: "pgCatalog \<Rightarrow> oid \<Rightarrow> string \<Rightarrow> columnRow option" where
  "columnNamed cat x column = find (\<lambda>c. cl_name c = column) (tableColumns cat x)"

definition reownSequence :: "OwnedSequence \<Rightarrow> string \<Rightarrow> string \<Rightarrow> pgCatalog \<Rightarrow> cut_error + pgCatalog" where
  "reownSequence s schema live cat =
     (case (relationNamed cat (os_SequenceSchema s) (os_SequenceName s), lookupRelation cat schema live) of
        (Some r, Some x) \<Rightarrow>
          if rl_kind r \<noteq> RelSequence then Inl (CutPg ''42809'')
          else if columnNamed cat x (os_Column s) = None then Inl (CutPg ''42703'')
          else Inr (cat\<lparr>ct_owned := filter (\<lambda>o'. ow_sequence o' \<noteq> rl_oid r) (ct_owned cat)
                 @ [\<lparr>ow_sequence = rl_oid r, ow_table = x, ow_column = os_Column s\<rparr>]\<rparr>)
      | _ \<Rightarrow> Inl (CutPg ''42P01''))"

definition dropColumnDefault :: "string \<Rightarrow> string \<Rightarrow> string \<Rightarrow> pgCatalog \<Rightarrow> cut_error + pgCatalog" where
  "dropColumnDefault schema table column cat =
     (case lookupRelation cat schema table of
        None \<Rightarrow> Inl (CutPg ''42P01'')
      | Some x \<Rightarrow> if columnNamed cat x column = None then Inl (CutPg ''42703'')
                 else Inr (mapColumn x column (\<lambda>c. c\<lparr>cl_default := None\<rparr>) cat))"

text \<open>
  ADD GENERATED AS IDENTITY makes a sequence of the column's type with the declared options, whose name and OID the
  server chooses, at its start and with the owner's default privileges. The unique indexes of pg_class refuse a name
  or an OID that another relation has.
\<close>

record newSequence =
  ns_name :: string
  ns_oid :: oid
  ns_acl :: "Grant list"

definition addIdentity :: "newSequence \<Rightarrow> string \<Rightarrow> string \<Rightarrow> IdentityColumn \<Rightarrow> pgCatalog \<Rightarrow> cut_error + pgCatalog" where
  "addIdentity ns schema table declared cat =
     (case relationNamed cat schema table of
        None \<Rightarrow> Inl (CutPg ''42P01'')
      | Some t \<Rightarrow>
          (case columnNamed cat (rl_oid t) (ic_Column declared) of
             None \<Rightarrow> Inl (CutPg ''42703'')
           | Some c \<Rightarrow>
               let opts = ic_Options declared in
               if cl_identity c \<noteq> None \<or> cl_default c \<noteq> None then Inl (CutPg ''55000'')
               else if \<not> (case integerTypeBounds (cl_type c) of None \<Rightarrow> False
                       | Some (lo, hi) \<Rightarrow> lo \<le> ho_Min opts \<and> ho_Max opts \<le> hi \<and> ho_Min opts \<le> ho_Start opts \<and> ho_Start opts \<le> ho_Max opts)
                 then Inl (CutPg ''22023'')
               else if relationNamed cat schema (ns_name ns) \<noteq> None \<or> relationOf cat (ns_oid ns) \<noteq> None then Inl (CutPg ''23505'')
               else Inr ((mapColumn (rl_oid t) (ic_Column declared) (\<lambda>c. c\<lparr>cl_identity := Some (ic_Always declared, ns_oid ns)\<rparr>) cat)
                   \<lparr>ct_relations := ct_relations cat @ [\<lparr>rl_oid = ns_oid ns, rl_schema = schema, rl_name = ns_name ns, rl_kind = RelSequence, rl_owner = rl_owner t\<rparr>],
                    ct_sequences := ct_sequences cat @ [\<lparr>sq_oid = ns_oid ns, sq_type = cl_type c, sq_options = opts, sq_last = ho_Start opts,
                      sq_called = False, sq_acl = ns_acl ns\<rparr>]\<rparr>)))"

definition mapSequence :: "oid \<Rightarrow> (sequenceRow \<Rightarrow> sequenceRow) \<Rightarrow> pgCatalog \<Rightarrow> pgCatalog" where
  "mapSequence x f cat = cat\<lparr>ct_sequences := map (\<lambda>s. if sq_oid s = x then f s else s) (ct_sequences cat)\<rparr>"

definition sequenceNamed :: "string \<Rightarrow> string \<Rightarrow> pgCatalog \<Rightarrow> cut_error + sequenceRow" where
  "sequenceNamed schema name cat =
     (case lookupRelation cat schema name of
        None \<Rightarrow> Inl (CutPg ''42P01'')
      | Some x \<Rightarrow> (case sequenceOf cat x of None \<Rightarrow> Inl (CutPg ''42809'') | Some q \<Rightarrow> Inr q))"

definition setval :: "string \<Rightarrow> string \<Rightarrow> int64 \<Rightarrow> bool \<Rightarrow> pgCatalog \<Rightarrow> cut_error + pgCatalog" where
  "setval schema name lastValue isCalled cat =
     (case sequenceNamed schema name cat of
        Inl e \<Rightarrow> Inl e
      | Inr q \<Rightarrow>
          if lastValue < ho_Min (sq_options q) \<or> ho_Max (sq_options q) < lastValue then Inl (CutPg ''22003'')
          else Inr (mapSequence (sq_oid q) (\<lambda>s. s\<lparr>sq_last := lastValue, sq_called := isCalled\<rparr>) cat))"

definition dropTable :: "string \<Rightarrow> string \<Rightarrow> pgCatalog \<Rightarrow> cut_error + pgCatalog" where
  "dropTable schema name cat =
     (case relationNamed cat schema name of
        None \<Rightarrow> Inl (CutPg ''42P01'')
      | Some r \<Rightarrow> if rl_kind r \<noteq> RelTable then Inl (CutPg ''42809'')
                 else
                   let x = rl_oid r;
                       gone = x # map ix_oid (filter (\<lambda>i. ix_table i = x) (ct_indexes cat))
                         @ map ow_sequence (filter (\<lambda>w. ow_table w = x) (ct_owned cat))
                         @ concat (map (\<lambda>c. case cl_identity c of None \<Rightarrow> [] | Some (_, s) \<Rightarrow> [s]) (tableColumns cat x))
                   in if \<exists>c \<in> set (ct_columns cat). cl_table c \<noteq> x \<and> (case cl_default c of None \<Rightarrow> False | Some s \<Rightarrow> s \<in> set gone)
                      then Inl (CutPg ''2BP01'')
                      else Inr \<lparr>ct_relations = filter (\<lambda>r. rl_oid r \<notin> set gone) (ct_relations cat),
                                ct_indexes = filter (\<lambda>i. ix_table i \<noteq> x) (ct_indexes cat),
                                ct_statistics = filter (\<lambda>s. st_table s \<noteq> x) (ct_statistics cat),
                                ct_constraints = filter (\<lambda>c. cn_table c \<noteq> x) (ct_constraints cat),
                                ct_columns = filter (\<lambda>c. cl_table c \<noteq> x) (ct_columns cat),
                                ct_owned = filter (\<lambda>w. ow_table w \<noteq> x) (ct_owned cat),
                                ct_sequences = filter (\<lambda>s. sq_oid s \<notin> set gone) (ct_sequences cat)\<rparr>)"

end
