(* ===== verification/Cutover_Gate.thy ===== *)
theory Cutover_Gate
  imports Cutover_Catalog Checksum_Live
begin

text \<open>
  The gate before a swap (\<open>cutover_gate.go\<close>, \<open>lock.go\<close>, \<open>fidelity_drift.go\<close>, \<open>proof.go\<close>, the options of \<open>shadow.go\<close>) and the
  server it runs against. A transaction is a sequence of statements. Before statement \<open>n\<close>
  other sessions may commit whatever the locks held allow (\<open>cs_others\<close>); the server may answer the statement
  with an error or stop answering. \<open>w_base\<close> is the committed pgCatalog, \<open>w_view\<close> what the open transaction sees.
  An attempt the client stopped hearing from is left with the server (\<open>w_deciding\<close>): it keeps its locks until
  its backend exits, and it commits only if a COMMIT was sent and takes effect. Introspection,
  fingerprints, metadata snapshots, the fence's trigger and the shape check are the server's answers.
\<close>

section \<open>The server\<close>

record FidelityPolicy =
  fp_Name :: string
  fp_Permissive :: bool
  fp_Command :: string
  fp_Roles :: "string list"
  fp_AppliesToPublic :: bool
  fp_Using :: string
  fp_WithCheck :: string

record FidelitySnapshot =
  fs_Owner :: string
  fs_ReplicaIdentity :: string
  fs_RLSEnabled :: bool
  fs_RLSForced :: bool
  fs_Comment :: string
  fs_Tablespace :: string
  fs_RelOptions :: "string list"
  fs_Grants :: "Grant list"
  fs_ColumnGrants :: "ColumnGrant list"
  fs_Policies :: "FidelityPolicy list"
  fs_UnvalidatedChecks :: "(string \<times> string) list"
  fs_ColumnStatisticsTargets :: "(string \<times> int) list"
  fs_ExtendedStatisticsTargets :: "(string \<times> int) list"

record cut_server =
  cs_answer :: "nat \<Rightarrow> cut_error option"
  cs_others :: "nat \<Rightarrow> oid list \<Rightarrow> pgCatalog \<Rightarrow> pgCatalog"
  cs_gone :: "nat \<Rightarrow> bool"
  cs_commits :: "nat \<Rightarrow> bool"
  cs_pid :: "nat \<Rightarrow> 32 word"
  cs_holder :: "nat \<Rightarrow> 32 word option"
  cs_lockLost :: "nat \<Rightarrow> bool"
  cs_sleep :: "nat \<Rightarrow> int64 \<Rightarrow> cut_error option"
  cs_introspect :: "pgCatalog \<Rightarrow> string \<Rightarrow> string \<Rightarrow> SchemaModel"
  cs_fingerprint :: "SchemaModel \<Rightarrow> string"
  cs_fidelity :: "pgCatalog \<Rightarrow> oid \<Rightarrow> FidelitySnapshot"
  cs_exclusive :: "nat \<Rightarrow> bool"
  cs_fence :: "pgCatalog \<Rightarrow> oid \<Rightarrow> string option"
  cs_shape :: "nat \<Rightarrow> cut_error option"
  cs_newSequence :: "nat \<Rightarrow> pgCatalog \<Rightarrow> newSequence"
  cs_rank :: "grantee \<Rightarrow> nat"
  cs_sanitize :: "string list \<Rightarrow> string"

text \<open>
  A transaction reads one snapshot (REPEATABLE READ), or what is committed at each statement (READ COMMITTED), and
  in the second case may have changes of its own.
\<close>

datatype txMode = SnapshotTx | ReadingTx | WritingTx

record world =
  w_tick :: nat
  w_base :: pgCatalog
  w_view :: pgCatalog
  w_mode :: txMode
  w_locks :: "oid list"
  w_deciding :: "(pgCatalog \<times> oid list \<times> bool) option"
  w_log :: "pgCatalog list"

type_synonym 'a txn = "world \<Rightarrow> (cut_error + 'a) \<times> world"

definition returnW :: "'a \<Rightarrow> 'a txn" where
  "returnW a = (\<lambda>w. (Inr a, w))"

definition failW :: "cut_error \<Rightarrow> 'a txn" where
  "failW e = (\<lambda>w. (Inl e, w))"

definition bindW :: "'a txn \<Rightarrow> ('a \<Rightarrow> 'b txn) \<Rightarrow> 'b txn" where
  "bindW m f = (\<lambda>w. case m w of (Inl e, w') \<Rightarrow> (Inl e, w') | (Inr a, w') \<Rightarrow> f a w')"

definition liftW :: "cut_error + 'a \<Rightarrow> 'a txn" where
  "liftW r = (case r of Inl e \<Rightarrow> failW e | Inr a \<Rightarrow> returnW a)"

definition refuseW :: "ShadowCause \<Rightarrow> 'a txn" where
  "refuseW cause = failW (CutRefusal cause [])"

fun forW :: "('a \<Rightarrow> unit txn) \<Rightarrow> 'a list \<Rightarrow> unit txn" where
  "forW f [] = returnW ()"
| "forW f (x # xs) = bindW (f x) (\<lambda>_. forW f xs)"

definition heldLocks :: "world \<Rightarrow> oid list" where
  "heldLocks w = w_locks w @ (case w_deciding w of None \<Rightarrow> [] | Some (_, locks, _) \<Rightarrow> locks)"

text \<open>What happens on the server before the next statement: others commit, and a lost attempt may reach its end.\<close>

definition stepW :: "cut_server \<Rightarrow> world \<Rightarrow> world" where
  "stepW sv w =
     (let n = w_tick w; others = cs_others sv n (heldLocks w);
          decided = (case w_deciding w of Some (v, _, True) \<Rightarrow> if cs_gone sv n then [others v] else [] | _ \<Rightarrow> []);
          base = (case decided of [] \<Rightarrow> others (w_base w) | v # _ \<Rightarrow> v) in
      w\<lparr>w_tick := n + 1, w_base := base,
        w_view := (case w_mode w of SnapshotTx \<Rightarrow> w_view w | ReadingTx \<Rightarrow> base | WritingTx \<Rightarrow> others (w_view w)),
        w_deciding := (case w_deciding w of None \<Rightarrow> None
          | Some (v, locks, commits) \<Rightarrow> if cs_gone sv n then None else Some (others v, locks, commits)),
        w_log := w_log w @ decided\<rparr>)"

text \<open>
  The errors by which the driver reports that no answer came: a socket, a closed connection, an ended context, and the
  SQLSTATEs of a server that ends the session. A transaction that ended in any other error is rolled back; one that ended
  in these is left to the server.
\<close>

fun unheard :: "cut_error \<Rightarrow> bool" where
  "unheard (CutPg code) = (code = ''57P01'' \<or> code = ''57P02'' \<or> take 2 code = ''08'')"
| "unheard CutNet = True"
| "unheard CutEOF = True"
| "unheard CutUnexpectedEOF = True"
| "unheard CutUnsent = True"
| "unheard CutCanceled = True"
| "unheard CutDeadlineExceeded = True"
| "unheard _ = False"

definition abandon :: "cut_error \<Rightarrow> bool \<Rightarrow> world \<Rightarrow> world" where
  "abandon e commits w =
     (if unheard e \<and> w_deciding w = None
      then w\<lparr>w_deciding := Some (w_view w, w_locks w, commits), w_locks := []\<rparr> else w\<lparr>w_locks := []\<rparr>)"

definition runStmt :: "cut_server \<Rightarrow> (nat \<Rightarrow> pgCatalog \<Rightarrow> cut_error + 'a \<times> pgCatalog) \<Rightarrow> 'a txn" where
  "runStmt sv f = (\<lambda>w.
     let n = w_tick w; w1 = stepW sv w in
     case cs_answer sv n of
       Some e \<Rightarrow> (Inl e, abandon e False w1)
     | None \<Rightarrow> (case f n (w_view w1) of
           Inl e \<Rightarrow> (Inl e, abandon e False w1)
         | Inr (a, v) \<Rightarrow> (Inr a, w1\<lparr>w_view := v\<rparr>)))"

definition askW :: "cut_server \<Rightarrow> (pgCatalog \<Rightarrow> 'a) \<Rightarrow> 'a txn" where
  "askW sv g = runStmt sv (\<lambda>_ cat. Inr (g cat, cat))"

definition queryW :: "cut_server \<Rightarrow> (pgCatalog \<Rightarrow> cut_error + 'a) \<Rightarrow> 'a txn" where
  "queryW sv g = runStmt sv (\<lambda>_ cat. case g cat of Inl e \<Rightarrow> Inl e | Inr a \<Rightarrow> Inr (a, cat))"

definition execW :: "cut_server \<Rightarrow> (pgCatalog \<Rightarrow> cut_error + pgCatalog) \<Rightarrow> unit txn" where
  "execW sv f = runStmt sv (\<lambda>_ cat. case f cat of Inl e \<Rightarrow> Inl e | Inr cat' \<Rightarrow> Inr ((), cat'))"

definition answerW :: "cut_server \<Rightarrow> (nat \<Rightarrow> cut_error option) \<Rightarrow> unit txn" where
  "answerW sv a = runStmt sv (\<lambda>n cat. case a n of Some e \<Rightarrow> Inl e | None \<Rightarrow> Inr ((), cat))"

definition sessionW :: "cut_server \<Rightarrow> unit txn" where
  "sessionW sv = answerW sv (\<lambda>_. None)"

section \<open>Options and proofs\<close>

record SwapOptions =
  so_LockTimeout :: int64
  so_StatementTimeout :: int64

definition swapOptionsValidate :: "SwapOptions \<Rightarrow> cut_error + unit" where
  "swapOptionsValidate opts =
     (if \<exists>t \<in> set [so_LockTimeout opts, so_StatementTimeout opts]. t \<noteq> 0 \<and> t < Millisecond then Inl CutInvalidOptions else Inr ())"

definition swapLockTimeout :: "SwapOptions \<Rightarrow> int64" where
  "swapLockTimeout opts = (if so_LockTimeout opts = 0 then DefaultLockTimeout else so_LockTimeout opts)"

definition swapStatementTimeout :: "SwapOptions \<Rightarrow> int64" where
  "swapStatementTimeout opts = (if so_StatementTimeout opts = 0 then DefaultStatementTimeout else so_StatementTimeout opts)"

record BuiltShadow =
  bs_target :: CopySwapTarget
  bs_Schema :: string
  bs_SourceTable :: string
  bs_ShadowTable :: string
  bs_SourceOID :: oid
  bs_ShadowOID :: oid
  bs_SourceFingerprint :: string
  bs_TargetFingerprint :: string
  bs_IdentityColumns :: "IdentityColumn list"
  bs_Fidelity :: FidelitySnapshot
  bs_ShadowFidelity :: FidelitySnapshot
  bs_CopyColumns :: "string list"
  bs_Conversions :: "(string \<times> string) list"
  bs_ConversionFingerprint :: string

record ShadowProof =
  pf_Schema :: string
  pf_SourceTable :: string
  pf_ShadowTable :: string
  pf_SourceOID :: oid
  pf_ShadowOID :: oid
  pf_SourceFingerprint :: string
  pf_TargetFingerprint :: string
  pf_IdentityColumns :: "IdentityColumn list"
  pf_Fidelity :: FidelitySnapshot
  pf_ShadowFidelity :: FidelitySnapshot
  pf_CopyColumns :: "string list"
  pf_Conversions :: "(string \<times> string) list"
  pf_ConversionFingerprint :: string

definition builtProof :: "BuiltShadow \<Rightarrow> ShadowProof" where
  "builtProof b = \<lparr>pf_Schema = bs_Schema b, pf_SourceTable = bs_SourceTable b, pf_ShadowTable = bs_ShadowTable b,
     pf_SourceOID = bs_SourceOID b, pf_ShadowOID = bs_ShadowOID b, pf_SourceFingerprint = bs_SourceFingerprint b,
     pf_TargetFingerprint = bs_TargetFingerprint b, pf_IdentityColumns = bs_IdentityColumns b, pf_Fidelity = bs_Fidelity b,
     pf_ShadowFidelity = bs_ShadowFidelity b, pf_CopyColumns = bs_CopyColumns b, pf_Conversions = bs_Conversions b,
     pf_ConversionFingerprint = bs_ConversionFingerprint b\<rparr>"

record CutoverReady =
  cr_built :: BuiltShadow
  cr_verified :: VerifiedShadow
  cr_indexes :: DependentPairing
  cr_statistics :: DependentPairing
  cr_sequences :: "OwnedSequence list"

definition shadowRequireLock :: "TableLockSession option \<Rightarrow> string \<Rightarrow> string \<Rightarrow> cut_error + unit" where
  "shadowRequireLock lock schema table =
     (case lock of
        None \<Rightarrow> Inl (CutRefusal ShLockUnproven [])
      | Some held \<Rightarrow>
          if lock_table held = '''' then Inl (CutRefusal ShLockUnproven [])
          else if lock_schema held \<noteq> schema \<or> lock_table held \<noteq> table then Inl (CutRefusal ShLockUnproven [])
          else if lock_lost held then Inl (CutRefusal ShLockLost [CutLockLost])
          else Inr ())"

definition confirmTableLock :: "cut_server \<Rightarrow> TableLockSession \<Rightarrow> unit txn" where
  "confirmTableLock sv lock =
     bindW (runStmt sv (\<lambda>n cat. Inr (cs_holder sv n, cat))) (\<lambda>holder.
       case holder of
         None \<Rightarrow> failW (CutRefusal ShLockUnconfirmed [CutLockNotHeld])
       | Some pid \<Rightarrow> if pid \<noteq> lock_pid lock then failW (CutRefusal ShLockHeldElsewhere [CutLockHeldElsewhere]) else returnW ())"

definition lockLossCause :: "cut_server \<Rightarrow> cut_error \<Rightarrow> world \<Rightarrow> cut_error" where
  "lockLossCause sv err w = (if cs_lockLost sv (w_tick w) then CutRefusal ShLockLost [CutLockLost, err] else err)"

definition checkCutoverProofs :: "BuiltShadow \<Rightarrow> VerifiedShadow \<Rightarrow> cut_error + unit" where
  "checkCutoverProofs built verified =
     (let refuse = Inl (CutRefusal ShCutoverUnverified []) in
      if bs_ShadowTable built = '''' then refuse
      else if vp_table verified = '''' then refuse
      else if vp_schema verified \<noteq> bs_Schema built \<or> vp_table verified \<noteq> bs_SourceTable built \<or> vp_shadow verified \<noteq> bs_ShadowTable built then refuse
      else if vp_sourceOID verified \<noteq> bs_SourceOID built \<or> vp_shadowOID verified \<noteq> bs_ShadowOID built then refuse
      else if \<not> Complete (vp_watermark verified) then refuse
      else Inr ())"

section \<open>The checklist\<close>

definition setSession :: "cut_server \<Rightarrow> unit txn" where
  "setSession sv = bindW (sessionW sv) (\<lambda>_. bindW (sessionW sv) (\<lambda>_. sessionW sv))"

definition gateConfirmRelations :: "cut_server \<Rightarrow> BuiltShadow \<Rightarrow> unit txn" where
  "gateConfirmRelations sv built =
     bindW (queryW sv (resolveRelation (bs_Schema built) (bs_SourceTable built))) (\<lambda>sourceOID.
     if sourceOID \<noteq> bs_SourceOID built then refuseW ShRelationReplaced
     else bindW (queryW sv (resolveRelation (bs_Schema built) (bs_ShadowTable built))) (\<lambda>shadowOID.
     if shadowOID \<noteq> bs_ShadowOID built then refuseW ShRelationReplaced else returnW ()))"

definition confirmFingerprints :: "cut_server \<Rightarrow> BuiltShadow \<Rightarrow> SchemaModel \<Rightarrow> SchemaModel \<Rightarrow> unit txn" where
  "confirmFingerprints sv built sourceModel targetModel =
     (if cs_fingerprint sv sourceModel \<noteq> bs_SourceFingerprint built then refuseW ShSchemaDrift
      else if cs_fingerprint sv targetModel \<noteq> bs_TargetFingerprint built then refuseW ShSchemaDrift
      else returnW ())"

definition fidelityDrift :: "FidelitySnapshot \<Rightarrow> FidelitySnapshot \<Rightarrow> string list" where
  "fidelityDrift have' want = concat (map (\<lambda>(name, same). if same then [] else [name])
     [(''owner'', fs_Owner have' = fs_Owner want),
      (''replica_identity'', fs_ReplicaIdentity have' = fs_ReplicaIdentity want),
      (''rls_enabled'', fs_RLSEnabled have' = fs_RLSEnabled want),
      (''rls_forced'', fs_RLSForced have' = fs_RLSForced want),
      (''comment'', fs_Comment have' = fs_Comment want),
      (''tablespace'', fs_Tablespace have' = fs_Tablespace want),
      (''rel_options'', fs_RelOptions have' = fs_RelOptions want),
      (''grants'', fs_Grants have' = fs_Grants want),
      (''column_grants'', fs_ColumnGrants have' = fs_ColumnGrants want),
      (''policies'', fs_Policies have' = fs_Policies want),
      (''unvalidated_checks'', fs_UnvalidatedChecks have' = fs_UnvalidatedChecks want),
      (''column_statistics_targets'', fs_ColumnStatisticsTargets have' = fs_ColumnStatisticsTargets want),
      (''extended_statistics_targets'', fs_ExtendedStatisticsTargets have' = fs_ExtendedStatisticsTargets want)])"

definition confirmFidelity :: "cut_server \<Rightarrow> BuiltShadow \<Rightarrow> unit txn" where
  "confirmFidelity sv built =
     bindW (askW sv (\<lambda>cat. cs_fidelity sv cat (bs_SourceOID built))) (\<lambda>source.
     if fidelityDrift source (bs_Fidelity built) \<noteq> [] then refuseW ShFidelityDrift
     else bindW (askW sv (\<lambda>cat. cs_fidelity sv cat (bs_ShadowOID built))) (\<lambda>shadow.
     if fidelityDrift shadow (bs_ShadowFidelity built) \<noteq> [] then refuseW ShFidelityDrift
     else if fs_Grants source \<noteq> fs_Grants shadow then refuseW ShFidelityDrift
     else returnW ()))"

definition identityDefault :: "oid \<Rightarrow> IdentityColumn \<Rightarrow> pgCatalog \<Rightarrow> cut_error + unit" where
  "identityDefault shadowOID c cat =
     (let refuse = Inl (CutRefusal ShIdentityHandoff []) in
      case columnNamed cat shadowOID (ic_Column c) of
        None \<Rightarrow> refuse
      | Some row \<Rightarrow>
          if cl_identity row \<noteq> None then refuse
          else if cl_default row = None \<or> cl_default row \<noteq> lookupRelation cat (ic_SequenceSchema c) (ic_SequenceName c) then refuse
          else Inr ())"

definition verifyIdentityDefaults :: "cut_server \<Rightarrow> oid \<Rightarrow> IdentityColumn list \<Rightarrow> unit txn" where
  "verifyIdentityDefaults sv shadowOID identities = forW (\<lambda>c. queryW sv (identityDefault shadowOID c)) identities"

definition confirmIdentities :: "cut_server \<Rightarrow> BuiltShadow \<Rightarrow> SchemaModel \<Rightarrow> unit txn" where
  "confirmIdentities sv built targetModel =
     bindW (verifyIdentityDefaults sv (bs_ShadowOID built) (bs_IdentityColumns built)) (\<lambda>_.
     bindW (queryW sv (readIdentityColumns (bs_SourceOID built))) (\<lambda>live.
     if handoffIdentities live targetModel \<noteq> bs_IdentityColumns built then refuseW ShFidelityDrift else returnW ()))"

definition pairStatistics :: "cut_server \<Rightarrow> BuiltShadow \<Rightarrow> DependentPairing txn" where
  "pairStatistics sv built =
     bindW (askW sv (readStatistics (bs_SourceOID built))) (\<lambda>source.
     bindW (askW sv (readStatistics (bs_ShadowOID built))) (\<lambda>shadow.
     returnW (pairByDefinition DependentStatistics source shadow)))"

definition renamedDependents :: "BuiltShadow \<Rightarrow> DependentPairing \<Rightarrow> DependentPairing \<Rightarrow> string list" where
  "renamedDependents built indexes statistics =
     pairingSourceNames indexes @ pairingSourceNames statistics @ map ic_SequenceName (bs_IdentityColumns built)"

definition confirmNamesFree :: "cut_server \<Rightarrow> BuiltShadow \<Rightarrow> DependentPairing \<Rightarrow> DependentPairing \<Rightarrow> indexEntry list \<Rightarrow> unit txn" where
  "confirmNamesFree sv built indexes statistics shadowIndexes =
     bindW (askW sv (takenNames (bs_Schema built)
       (oldNames (bs_Schema built) (bs_SourceTable built) (renamedDependents built indexes statistics)))) (\<lambda>taken.
     if taken \<noteq> [] then refuseW ShNameTaken
     else bindW (askW sv (constraintNamesTaken (bs_ShadowOID built) indexes shadowIndexes)) (\<lambda>taken.
     if taken \<noteq> [] then refuseW ShNameTaken else returnW ()))"

definition gateCutoverTx :: "cut_server \<Rightarrow> BuiltShadow \<Rightarrow> VerifiedShadow \<Rightarrow> CutoverReady txn" where
  "gateCutoverTx sv built verified =
     bindW (gateConfirmRelations sv built) (\<lambda>_.
     bindW (askW sv (readIndexes (bs_ShadowOID built))) (\<lambda>shadowIndexes.
     if invalidIndexes shadowIndexes \<noteq> [] then refuseW ShIndexInvalid
     else bindW (askW sv (\<lambda>cat. cs_introspect sv cat (bs_Schema built) (bs_SourceTable built))) (\<lambda>sourceModel.
     bindW (askW sv (\<lambda>cat. cs_introspect sv cat (bs_Schema built) (bs_ShadowTable built))) (\<lambda>targetModel.
     bindW (confirmFingerprints sv built sourceModel targetModel) (\<lambda>_.
     bindW (confirmFidelity sv built) (\<lambda>_.
     bindW (confirmIdentities sv built targetModel) (\<lambda>_.
     bindW (askW sv (readIndexes (bs_SourceOID built))) (\<lambda>sourceIndexes.
     let indexes = pairIndexes sourceIndexes shadowIndexes (retypedColumns (cs_sanitize sv) sourceModel targetModel) in
     bindW (pairStatistics sv built) (\<lambda>statistics.
     bindW (confirmNamesFree sv built indexes statistics shadowIndexes) (\<lambda>_.
     bindW (askW sv (readOwnedSequences (bs_SourceOID built))) (\<lambda>sequences.
     returnW \<lparr>cr_built = built, cr_verified = verified, cr_indexes = indexes, cr_statistics = statistics,
              cr_sequences = keptSequences sequences targetModel\<rparr>)))))))))))"

text \<open>The standalone gate reads one snapshot, taken when its transaction begins, and writes nothing.\<close>

definition beginTx :: "cut_server \<Rightarrow> txMode \<Rightarrow> unit txn" where
  "beginTx sv mode = (\<lambda>w. let w1 = stepW sv w in
     case cs_answer sv (w_tick w) of
       Some e \<Rightarrow> (Inl e, w1)
     | None \<Rightarrow> (Inr (), w1\<lparr>w_view := w_base w1, w_mode := mode, w_locks := []\<rparr>))"

definition readOnly :: "cut_server \<Rightarrow> txMode \<Rightarrow> 'a txn \<Rightarrow> 'a txn" where
  "readOnly sv mode body = bindW (beginTx sv mode) (\<lambda>_. bindW body (\<lambda>a. bindW (sessionW sv) (\<lambda>_. returnW a)))"

definition GateCutover :: "cut_server \<Rightarrow> TableLockSession option \<Rightarrow> BuiltShadow \<Rightarrow> VerifiedShadow \<Rightarrow> SwapOptions \<Rightarrow> CutoverReady txn" where
  "GateCutover sv lock built verified opts = (\<lambda>w.
     case swapOptionsValidate opts of Inl e \<Rightarrow> (Inl e, w) | Inr _ \<Rightarrow>
     (case checkCutoverProofs built verified of Inl e \<Rightarrow> (Inl e, w) | Inr _ \<Rightarrow>
     (case shadowRequireLock lock (bs_Schema built) (bs_SourceTable built) of Inl e \<Rightarrow> (Inl e, w) | Inr _ \<Rightarrow>
     (case readOnly sv SnapshotTx (bindW (setSession sv) (\<lambda>_. bindW (confirmTableLock sv (the lock)) (\<lambda>_. gateCutoverTx sv built verified))) w of
        (Inl e, w') \<Rightarrow> (Inl (lockLossCause sv e w'), w')
      | (Inr ready, w') \<Rightarrow> (Inr ready, w')))))"

end
