(* ===== verification/Cutover_Swap.thy ===== *)
theory Cutover_Swap
  imports Cutover_Gate
begin

text \<open>
  The swap (\<open>cutover.go\<close>, \<open>cutover_swap.go\<close>, \<open>cutover_handoff.go\<close>, \<open>cutover_outcome.go\<close>, \<open>cutover_resolve.go\<close>,
  \<open>cutover_backend.go\<close>), the reading of its outcome (\<open>inspect_swapped.go\<close>, \<open>swap_proof.go\<close>) and the drop of the retained source
  (\<open>drop_old.go\<close>), every statement a step against the server of theory \<open>Cutover_Gate\<close>. The waits between attempts and
  polls are answers of \<open>cs_sleep\<close>; the polls for a backend's exit are counted down, so every run ends.
\<close>

section \<open>Options\<close>

record CutoverOptions =
  co_Options :: SwapOptions
  co_LockAttempts :: int64
  co_LockBackoff :: int64
  co_requireWriteFence :: bool

definition withWriteFence :: "CutoverOptions \<Rightarrow> CutoverOptions" where
  "withWriteFence opts = opts\<lparr>co_requireWriteFence := True\<rparr>"

definition cutoverValidate :: "CutoverOptions \<Rightarrow> cut_error + unit" where
  "cutoverValidate opts =
     (case swapOptionsValidate (co_Options opts) of
        Inl e \<Rightarrow> Inl e
      | Inr _ \<Rightarrow> if co_LockAttempts opts < 0 then Inl CutInvalidOptions
                else if co_LockBackoff opts < 0 then Inl CutInvalidOptions
                else Inr ())"

definition lockAttempts :: "CutoverOptions \<Rightarrow> int64" where
  "lockAttempts opts = (if co_LockAttempts opts = 0 then 5 else co_LockAttempts opts)"

definition lockBackoff :: "CutoverOptions \<Rightarrow> int64" where
  "lockBackoff opts = (if co_LockBackoff opts = 0 then 500 * Millisecond else co_LockBackoff opts)"

definition checkDrain :: "VerifiedShadow \<Rightarrow> 'd option \<Rightarrow> cut_error + unit" where
  "checkDrain verified drain = (if vp_live verified \<and> drain = None then Inl (CutRefusal ShCutoverUndrained []) else Inr ())"

section \<open>Renames\<close>

definition lockForSwap :: "cut_server \<Rightarrow> BuiltShadow \<Rightarrow> unit txn" where
  "lockForSwap sv built =
     bindW (queryW sv (\<lambda>cat.
       case (lookupRelation cat (bs_Schema built) (bs_SourceTable built), lookupRelation cat (bs_Schema built) (bs_ShadowTable built)) of
         (Some x, Some y) \<Rightarrow> Inr [x, y] | _ \<Rightarrow> Inl (CutPg ''42P01'')))
     (\<lambda>oids w. (Inr (), w\<lparr>w_locks := oids\<rparr>))"

definition confirmWriteFence :: "cut_server \<Rightarrow> BuiltShadow \<Rightarrow> unit txn" where
  "confirmWriteFence sv built =
     bindW (askW sv (\<lambda>cat. cs_fence sv cat (bs_SourceOID built))) (\<lambda>enabled.
     case enabled of None \<Rightarrow> refuseW ShCutoverUnfenced | Some s \<Rightarrow> if s \<noteq> ''A'' then refuseW ShCutoverUnfenced else returnW ())"

definition renameForSwap :: "cut_server \<Rightarrow> CutoverReady \<Rightarrow> unit txn" where
  "renameForSwap sv ready =
     (let built = cr_built ready; schema = bs_Schema built; source = bs_SourceTable built in
      bindW (forW (\<lambda>name. execW sv (renameIndex schema name (OldDependentName schema source name))) (pairingSourceNames (cr_indexes ready))) (\<lambda>_.
      bindW (forW (\<lambda>name. execW sv (renameStatistics schema name (OldDependentName schema source name))) (pairingSourceNames (cr_statistics ready))) (\<lambda>_.
      bindW (forW (\<lambda>c. execW sv (renameSequence (ic_SequenceSchema c) (ic_SequenceName c) (OldDependentName schema source (ic_SequenceName c))))
        (bs_IdentityColumns built)) (\<lambda>_.
      bindW (execW sv (renameTable schema source (OldName schema source))) (\<lambda>_.
      bindW (execW sv (renameTable schema (bs_ShadowTable built) source)) (\<lambda>_.
      bindW (forW (\<lambda>p. execW sv (renameIndex schema (pr_ShadowName p) (pr_SourceName p))) (pg_Pairs (cr_indexes ready))) (\<lambda>_.
      forW (\<lambda>p. execW sv (renameStatistics schema (pr_ShadowName p) (pr_SourceName p))) (pg_Pairs (cr_statistics ready)))))))))"

section \<open>Sequences\<close>

definition readSequenceGrantsOf :: "cut_server \<Rightarrow> string \<Rightarrow> string \<Rightarrow> Grant list txn" where
  "readSequenceGrantsOf sv schema name =
     bindW (queryW sv (resolveRelation schema name)) (\<lambda>x.
     queryW sv (\<lambda>cat. case readSequenceGrants (None :: unit option) (case sequenceOf cat x of None \<Rightarrow> [] | Some q \<Rightarrow> sq_acl q) of
       Inl _ \<Rightarrow> Inl (CutOther ''unknown privilege'') | Inr grants \<Rightarrow> Inr grants))"

definition changeGrants :: "cut_server \<Rightarrow> string \<Rightarrow> string \<Rightarrow> acl_statement \<Rightarrow> unit txn" where
  "changeGrants sv schema name s = execW sv (\<lambda>cat. case sequenceNamed schema name cat of
     Inl e \<Rightarrow> Inl e | Inr q \<Rightarrow> Inr (mapSequence (sq_oid q) (\<lambda>q. q\<lparr>sq_acl := applyACL (cs_rank sv) s (sq_acl q)\<rparr>) cat))"

definition carryGrants :: "cut_server \<Rightarrow> string \<Rightarrow> string \<Rightarrow> string \<Rightarrow> unit txn" where
  "carryGrants sv schema old new =
     bindW (readSequenceGrantsOf sv schema old) (\<lambda>want.
     bindW (readSequenceGrantsOf sv schema new) (\<lambda>have'.
     bindW (forW (changeGrants sv schema new) (reconcileACL have' want)) (\<lambda>_.
     bindW (readSequenceGrantsOf sv schema new) (\<lambda>got.
     if got \<noteq> want then refuseW ShGrantsDiffer else returnW ()))))"

definition readIdentityTypes :: "string \<Rightarrow> string \<Rightarrow> string \<Rightarrow> string \<Rightarrow> string \<Rightarrow> pgCatalog \<Rightarrow> cut_error + oid \<times> oid" where
  "readIdentityTypes seqSchema oldSequence schema live column cat =
     (case sequenceNamed seqSchema oldSequence cat of
        Inl e \<Rightarrow> Inl e
      | Inr q \<Rightarrow>
          (case lookupRelation cat schema live of
             None \<Rightarrow> Inl (CutPg ''42P01'')
           | Some x \<Rightarrow> (case columnNamed cat x column of None \<Rightarrow> Inl CutNoRows | Some c \<Rightarrow> Inr (sq_type q, cl_type c))))"

definition identitySequenceOf :: "cut_server \<Rightarrow> string \<Rightarrow> string \<Rightarrow> string \<Rightarrow> IdentityColumn txn" where
  "identitySequenceOf sv schema table column =
     bindW (queryW sv (resolveRelation schema table)) (\<lambda>x.
     bindW (queryW sv (readIdentityColumns x)) (\<lambda>identities.
     case find (\<lambda>c. ic_Column c = column) identities of Some c \<Rightarrow> returnW c | None \<Rightarrow> refuseW ShSwapMismatch))"

definition handOffIdentity :: "cut_server \<Rightarrow> string \<Rightarrow> string \<Rightarrow> IdentityColumn \<Rightarrow> IdentityColumn txn" where
  "handOffIdentity sv schema live c =
     (let oldSequence = OldDependentName schema live (ic_SequenceName c) in
      bindW (queryW sv (sequenceNamed (ic_SequenceSchema c) oldSequence)) (\<lambda>position.
      bindW (queryW sv (readIdentityTypes (ic_SequenceSchema c) oldSequence schema live (ic_Column c))) (\<lambda>(oldType, newType).
      let declared = c\<lparr>ic_Options := rebaseSequenceBounds (ic_Options c) oldType newType\<rparr> in
      bindW (execW sv (dropColumnDefault schema live (ic_Column c))) (\<lambda>_.
      bindW (runStmt sv (\<lambda>n cat. case addIdentity (cs_newSequence sv n cat) schema live declared cat of Inl e \<Rightarrow> Inl e | Inr cat' \<Rightarrow> Inr ((), cat'))) (\<lambda>_.
      bindW (identitySequenceOf sv schema live (ic_Column c)) (\<lambda>created.
      bindW (if ic_SequenceName created \<noteq> ic_SequenceName c
             then execW sv (renameSequence (ic_SequenceSchema created) (ic_SequenceName created) (ic_SequenceName c)) else returnW ()) (\<lambda>_.
      bindW (carryGrants sv (ic_SequenceSchema c) oldSequence (ic_SequenceName c)) (\<lambda>_.
      bindW (execW sv (setval (ic_SequenceSchema c) (ic_SequenceName c) (sq_last position) (sq_called position))) (\<lambda>_.
      returnW declared)))))))))"

fun handOffIdentities :: "cut_server \<Rightarrow> string \<Rightarrow> string \<Rightarrow> IdentityColumn list \<Rightarrow> IdentityColumn list txn" where
  "handOffIdentities sv schema live [] = returnW []"
| "handOffIdentities sv schema live (c # cs) =
     bindW (handOffIdentity sv schema live c) (\<lambda>declared. bindW (handOffIdentities sv schema live cs) (\<lambda>ds. returnW (declared # ds)))"

definition handOffSequences :: "cut_server \<Rightarrow> CutoverReady \<Rightarrow> IdentityColumn list txn" where
  "handOffSequences sv ready =
     (let built = cr_built ready; schema = bs_Schema built; live = bs_SourceTable built in
      bindW (forW (\<lambda>s. execW sv (reownSequence s schema live)) (cr_sequences ready)) (\<lambda>_.
      handOffIdentities sv schema live (bs_IdentityColumns built)))"

section \<open>One attempt\<close>

record SwappedTable =
  sw_schema :: string
  sw_table :: string
  sw_liveOID :: oid
  sw_oldOID :: oid
  sw_owner :: string
  sw_indexes :: DependentPairing
  sw_statistics :: DependentPairing
  sw_sequences :: "OwnedSequence list"
  sw_identities :: "IdentityColumn list"
  sw_attempts :: int64

definition newSwappedTable :: "CutoverReady \<Rightarrow> IdentityColumn list \<Rightarrow> int64 \<Rightarrow> SwappedTable" where
  "newSwappedTable ready identities tries =
     (let built = cr_built ready in
      \<lparr>sw_schema = bs_Schema built, sw_table = bs_SourceTable built, sw_liveOID = bs_ShadowOID built, sw_oldOID = bs_SourceOID built,
       sw_owner = fs_Owner (bs_Fidelity built), sw_indexes = cr_indexes ready, sw_statistics = cr_statistics ready,
       sw_sequences = cr_sequences ready, sw_identities = identities, sw_attempts = tries\<rparr>)"

definition OldTable :: "SwappedTable \<Rightarrow> string" where
  "OldTable s = OldName (sw_schema s) (sw_table s)"

definition confirmSwap :: "cut_server \<Rightarrow> CutoverReady \<Rightarrow> IdentityColumn list \<Rightarrow> unit txn" where
  "confirmSwap sv ready identities =
     (let built = cr_built ready; schema = bs_Schema built; live = bs_SourceTable built; old = OldName schema live in
      bindW (queryW sv (resolveRelation schema live)) (\<lambda>liveOID.
      if liveOID \<noteq> bs_ShadowOID built then refuseW ShSwapMismatch
      else bindW (queryW sv (resolveRelation schema old)) (\<lambda>oldOID.
      if oldOID \<noteq> bs_SourceOID built then refuseW ShSwapMismatch
      else bindW (askW sv (readIndexes liveOID)) (\<lambda>indexes.
      if missingNames (pg_Pairs (cr_indexes ready)) (map ie_name indexes) \<noteq> [] then refuseW ShSwapMismatch
      else bindW (askW sv (readStatistics liveOID)) (\<lambda>statistics.
      if missingNames (pg_Pairs (cr_statistics ready)) (map dp_name statistics) \<noteq> [] then refuseW ShSwapMismatch
      else bindW (askW sv (readOwnedSequences liveOID)) (\<lambda>sequences.
      if sequences \<noteq> cr_sequences ready then refuseW ShSwapMismatch
      else bindW (queryW sv (readIdentityColumns liveOID)) (\<lambda>onLive.
      if onLive \<noteq> identities then refuseW ShSwapMismatch else returnW ())))))))"

type_synonym drain = "nat \<Rightarrow> cut_error option"

definition swapInTx :: "cut_server \<Rightarrow> TableLockSession \<Rightarrow> CutoverReady \<Rightarrow> drain option \<Rightarrow> bool \<Rightarrow> SwappedTable txn" where
  "swapInTx sv lock ready drain requireFence =
     (let built = cr_built ready in
      bindW (setSession sv) (\<lambda>_.
      bindW (confirmTableLock sv lock) (\<lambda>_.
      bindW (lockForSwap sv built) (\<lambda>_.
      bindW (if requireFence \<and> \<not> vp_live (cr_verified ready) then confirmWriteFence sv built else returnW ()) (\<lambda>_.
      bindW (case drain of None \<Rightarrow> returnW () | Some d \<Rightarrow> answerW sv d) (\<lambda>_.
      bindW (answerW sv (cs_shape sv)) (\<lambda>_.
      bindW (gateCutoverTx sv built (cr_verified ready)) (\<lambda>fresh.
      bindW (renameForSwap sv fresh) (\<lambda>_.
      bindW (handOffSequences sv fresh) (\<lambda>identities.
      bindW (confirmSwap sv fresh identities) (\<lambda>_.
      returnW (newSwappedTable fresh identities 0))))))))))))"

definition commitTx :: "cut_server \<Rightarrow> unit txn" where
  "commitTx sv = (\<lambda>w. let n = w_tick w; w1 = stepW sv w in
     case cs_answer sv n of
       Some e \<Rightarrow> (Inl e, abandon e (cs_commits sv n) w1)
     | None \<Rightarrow> (Inr (), w1\<lparr>w_base := w_view w1, w_locks := [], w_log := w_log w1 @ [w_view w1]\<rparr>))"

text \<open>The backend is absent when the attempt ended before its transaction ran a statement.\<close>

definition swapOnce :: "cut_server \<Rightarrow> TableLockSession \<Rightarrow> CutoverReady \<Rightarrow> drain option \<Rightarrow> bool \<Rightarrow> world \<Rightarrow>
    (cut_error + SwappedTable) \<times> 32 word option \<times> world" where
  "swapOnce sv lock ready drain requireFence w =
     (case beginTx sv WritingTx w of
        (Inl e, w1) \<Rightarrow> (Inl e, None, w1)
      | (Inr _, w1) \<Rightarrow>
          (case runStmt sv (\<lambda>n cat. Inr (cs_pid sv n, cat)) w1 of
             (Inl e, w2) \<Rightarrow> (Inl e, None, w2\<lparr>w_locks := []\<rparr>)
           | (Inr backend, w2) \<Rightarrow>
               (case bindW (swapInTx sv lock ready drain requireFence) (\<lambda>swapped. bindW (commitTx sv) (\<lambda>_. returnW swapped)) w2 of
                  (r, w3) \<Rightarrow> (r, Some backend, w3\<lparr>w_locks := []\<rparr>))))"

section \<open>Reading the outcome\<close>

definition refuseSwapInFlight :: "cut_server \<Rightarrow> ShadowProof \<Rightarrow> unit txn" where
  "refuseSwapInFlight sv expected =
     bindW (runStmt sv (\<lambda>n cat. Inr (cs_exclusive sv n, cat))) (\<lambda>held w.
     if held \<or> (case w_deciding w of None \<Rightarrow> False
              | Some (_, locks, _) \<Rightarrow> pf_SourceOID expected \<in> set locks \<or> pf_ShadowOID expected \<in> set locks)
     then refuseW ShOutcomeAmbiguous w else returnW () w)"

definition confirmLive :: "cut_server \<Rightarrow> ShadowProof \<Rightarrow> oid txn" where
  "confirmLive sv expected =
     bindW (askW sv (\<lambda>cat. lookupRelation cat (pf_Schema expected) (pf_SourceTable expected))) (\<lambda>found.
     case found of
       None \<Rightarrow> refuseW ShOutcomeAmbiguous
     | Some liveOID \<Rightarrow>
         if liveOID = pf_SourceOID expected then failW CutNotSwapped
         else if liveOID \<noteq> pf_ShadowOID expected then refuseW ShOutcomeAmbiguous
         else returnW liveOID)"

definition confirmSourceGone :: "cut_server \<Rightarrow> ShadowProof \<Rightarrow> oid txn" where
  "confirmSourceGone sv expected =
     bindW (askW sv (\<lambda>cat. lookupRelationName cat (pf_SourceOID expected))) (\<lambda>found.
     case found of None \<Rightarrow> failW CutOldTableNotFound | Some _ \<Rightarrow> refuseW ShRelationReplaced)"

definition confirmOld :: "cut_server \<Rightarrow> ShadowProof \<Rightarrow> oid txn" where
  "confirmOld sv expected =
     bindW (askW sv (\<lambda>cat. lookupRelation cat (pf_Schema expected) (OldName (pf_Schema expected) (pf_SourceTable expected)))) (\<lambda>found.
     case found of
       None \<Rightarrow> confirmSourceGone sv expected
     | Some oldOID \<Rightarrow> if oldOID \<noteq> pf_SourceOID expected then refuseW ShRelationReplaced else returnW oldOID)"

definition confirmOwner :: "cut_server \<Rightarrow> ShadowProof \<Rightarrow> oid \<Rightarrow> oid \<Rightarrow> unit txn" where
  "confirmOwner sv expected liveOID oldOID =
     bindW (queryW sv (readOwner liveOID)) (\<lambda>liveOwner.
     bindW (queryW sv (readOwner oldOID)) (\<lambda>oldOwner.
     if liveOwner \<noteq> fs_Owner (pf_Fidelity expected) then refuseW ShSwapMismatch
     else if oldOwner \<noteq> fs_Owner (pf_Fidelity expected) then refuseW ShSwapMismatch
     else returnW ()))"

definition confirmHandoff :: "ShadowProof \<Rightarrow> IdentityColumn list \<Rightarrow> cut_error + unit" where
  "confirmHandoff expected live =
     (if \<forall>want \<in> set (pf_IdentityColumns expected).
           (case find (\<lambda>c. ic_Column c = ic_Column want) (rev live) of
              None \<Rightarrow> False
            | Some got \<Rightarrow> ic_Always got = ic_Always want \<and> ic_SequenceSchema got = ic_SequenceSchema want \<and> ic_SequenceName got = ic_SequenceName want)
      then Inr () else Inl (CutRefusal ShSwapMismatch []))"

definition readSwappedTable :: "cut_server \<Rightarrow> ShadowProof \<Rightarrow> SwappedTable txn" where
  "readSwappedTable sv expected =
     (let schema = pf_Schema expected; table = pf_SourceTable expected in
      bindW (refuseSwapInFlight sv expected) (\<lambda>_.
      bindW (confirmLive sv expected) (\<lambda>liveOID.
      bindW (confirmOld sv expected) (\<lambda>oldOID.
      bindW (confirmOwner sv expected liveOID oldOID) (\<lambda>_.
      bindW (askW sv (readIndexes liveOID)) (\<lambda>liveIndexes.
      bindW (askW sv (readIndexes oldOID)) (\<lambda>oldIndexes.
      bindW (askW sv (readStatistics liveOID)) (\<lambda>liveStatistics.
      bindW (askW sv (readStatistics oldOID)) (\<lambda>oldStatistics.
      bindW (askW sv (readOwnedSequences liveOID)) (\<lambda>sequences.
      bindW (queryW sv (readIdentityColumns liveOID)) (\<lambda>identities.
      bindW (liftW (confirmHandoff expected identities)) (\<lambda>_.
      returnW \<lparr>sw_schema = schema, sw_table = table, sw_liveOID = liveOID, sw_oldOID = oldOID, sw_owner = fs_Owner (pf_Fidelity expected),
        sw_indexes = pairByDerivedName DependentIndex schema table (map ie_name oldIndexes) (map ie_name liveIndexes),
        sw_statistics = pairByDerivedName DependentStatistics schema table (map dp_name oldStatistics) (map dp_name liveStatistics),
        sw_sequences = sequences, sw_identities = identities, sw_attempts = 0\<rparr>))))))))))))"

definition readOutcome :: "cut_server \<Rightarrow> ShadowProof \<Rightarrow> SwappedTable txn" where
  "readOutcome sv expected = readOnly sv ReadingTx (readSwappedTable sv expected)"

definition InspectSwapped :: "cut_server \<Rightarrow> TableLockSession option \<Rightarrow> ShadowProof \<Rightarrow> SwapOptions \<Rightarrow> SwappedTable txn" where
  "InspectSwapped sv lock expected opts = (\<lambda>w.
     case swapOptionsValidate opts of Inl e \<Rightarrow> (Inl e, w) | Inr _ \<Rightarrow>
     if pf_ShadowTable expected = '''' then (Inl (CutRefusal ShProofEmpty []), w) else
     (case shadowRequireLock lock (pf_Schema expected) (pf_SourceTable expected) of Inl e \<Rightarrow> (Inl e, w) | Inr _ \<Rightarrow>
     (case readOnly sv ReadingTx (bindW (setSession sv) (\<lambda>_. bindW (confirmTableLock sv (the lock)) (\<lambda>_. readSwappedTable sv expected))) w of
        (Inl e, w') \<Rightarrow> (Inl (lockLossCause sv e w'), w')
      | (Inr swapped, w') \<Rightarrow> (Inr swapped, w'))))"

section \<open>The whole cutover\<close>

definition backendExitPoll :: int64 where "backendExitPoll = 50 * Millisecond"

definition exitPolls :: "int64 \<Rightarrow> nat" where
  "exitPolls bound = nat (add64 (if bound < 0 then - ((- bound) div backendExitPoll) else bound div backendExitPoll) 1)"

fun awaitBackendExit :: "cut_server \<Rightarrow> nat \<Rightarrow> unit txn" where
  "awaitBackendExit sv 0 = failW (CutOther ''still running'')"
| "awaitBackendExit sv (Suc k) = (\<lambda>w.
     let w1 = stepW sv w in
     case cs_answer sv (w_tick w) of
       Some e \<Rightarrow> (Inl e, w1)
     | None \<Rightarrow>
         if w_deciding w1 = None then (Inr (), w1)
         else (case cs_sleep sv (w_tick w1) backendExitPoll of
                 Some e \<Rightarrow> (Inl e, w1)
               | None \<Rightarrow> awaitBackendExit sv k w1))"

definition resolveUnknownOutcome :: "cut_server \<Rightarrow> CutoverReady \<Rightarrow> 32 word option \<Rightarrow> int64 \<Rightarrow> cut_error \<Rightarrow> CutoverOptions \<Rightarrow> SwappedTable txn" where
  "resolveUnknownOutcome sv ready backend attempt lost opts =
     (if backend = None then failW (rolledBack lost)
      else (\<lambda>w.
        case awaitBackendExit sv (exitPolls (add64 (swapLockTimeout (co_Options opts)) (swapStatementTimeout (co_Options opts)))) w of
          (Inl e, w1) \<Rightarrow> (Inl (CutRefusal ShOutcomeAmbiguous [lost, e]), w1)
        | (Inr _, w1) \<Rightarrow>
            (case readOutcome sv (builtProof (cr_built ready)) w1 of
               (Inr swapped, w2) \<Rightarrow> (Inr (swapped\<lparr>sw_attempts := attempt\<rparr>), w2)
             | (Inl e, w2) \<Rightarrow> if errorIs CutNotSwapped e then (Inl (rolledBack lost), w2) else (Inl (CutJoined [lost, e]), w2))))"

fun cutoverLoop :: "cut_server \<Rightarrow> TableLockSession \<Rightarrow> CutoverReady \<Rightarrow> drain option \<Rightarrow> CutoverOptions \<Rightarrow> nat \<Rightarrow> int64 \<Rightarrow> cut_error \<Rightarrow> SwappedTable txn" where
  "cutoverLoop sv lock ready drain opts 0 attempt prior = failW (rolledBack (CutRetriesExhausted prior))"
| "cutoverLoop sv lock ready drain opts (Suc left) attempt prior = (\<lambda>w.
     case swapOnce sv lock ready drain (co_requireWriteFence opts) w of
       (Inr swapped, _, w1) \<Rightarrow> (Inr (swapped\<lparr>sw_attempts := attempt\<rparr>), w1)
     | (Inl err, backend, w1) \<Rightarrow>
         if outcomeUnknown err then resolveUnknownOutcome sv ready backend attempt err opts w1
         else if \<not> lockRetryable err then (Inl (rolledBack err), w1)
         else if left = 0 then (Inl (rolledBack (CutRetriesExhausted err)), w1)
         else (case cs_sleep sv (w_tick w1) (wrap64 (lockBackoff opts * attempt)) of
                 Some e \<Rightarrow> (Inl (rolledBack e), w1)
               | None \<Rightarrow> cutoverLoop sv lock ready drain opts left (add64 attempt 1) err w1))"

definition cutoverWithRetry :: "cut_server \<Rightarrow> TableLockSession \<Rightarrow> CutoverReady \<Rightarrow> drain option \<Rightarrow> CutoverOptions \<Rightarrow> SwappedTable txn" where
  "cutoverWithRetry sv lock ready drain opts = cutoverLoop sv lock ready drain opts (nat (lockAttempts opts)) 1 (CutOther ''nil'')"

definition Cutover :: "cut_server \<Rightarrow> TableLockSession option \<Rightarrow> CutoverReady \<Rightarrow> drain option \<Rightarrow> CutoverOptions \<Rightarrow> SwappedTable txn" where
  "Cutover sv lock ready drain opts = (\<lambda>w.
     let built = cr_built ready in
     case cutoverValidate opts of Inl e \<Rightarrow> (Inl e, w) | Inr _ \<Rightarrow>
     (case checkCutoverProofs built (cr_verified ready) of Inl e \<Rightarrow> (Inl e, w) | Inr _ \<Rightarrow>
     (case checkDrain (cr_verified ready) drain of Inl e \<Rightarrow> (Inl e, w) | Inr _ \<Rightarrow>
     (case shadowRequireLock lock (bs_Schema built) (bs_SourceTable built) of Inl e \<Rightarrow> (Inl e, w) | Inr _ \<Rightarrow>
     (case cutoverWithRetry sv (the lock) ready drain opts w of
        (Inl e, w') \<Rightarrow> (Inl (lockLossCause sv e w'), w')
      | (Inr swapped, w') \<Rightarrow> (Inr swapped, w'))))))"

section \<open>Comparing and dropping\<close>

record SwapProof =
  xp_Schema :: string
  xp_Table :: string
  xp_OldTable :: string
  xp_LiveOID :: oid
  xp_OldOID :: oid
  xp_Owner :: string
  xp_Indexes :: DependentPairing
  xp_Statistics :: DependentPairing
  xp_OwnedSequences :: "OwnedSequence list"
  xp_IdentityColumns :: "IdentityColumn list"
  xp_Attempts :: int64

definition swapProof :: "SwappedTable \<Rightarrow> SwapProof" where
  "swapProof s = \<lparr>xp_Schema = sw_schema s, xp_Table = sw_table s, xp_OldTable = OldTable s, xp_LiveOID = sw_liveOID s, xp_OldOID = sw_oldOID s,
     xp_Owner = sw_owner s, xp_Indexes = sw_indexes s, xp_Statistics = sw_statistics s, xp_OwnedSequences = sw_sequences s,
     xp_IdentityColumns = sw_identities s, xp_Attempts = sw_attempts s\<rparr>"

definition SameSwap :: "SwapProof \<Rightarrow> SwapProof \<Rightarrow> bool" where
  "SameSwap p q \<longleftrightarrow> xp_Schema p = xp_Schema q \<and> xp_Table p = xp_Table q \<and> xp_OldTable p = xp_OldTable q \<and> xp_LiveOID p = xp_LiveOID q
     \<and> xp_OldOID p = xp_OldOID q \<and> xp_Owner p = xp_Owner q \<and> xp_OwnedSequences p = xp_OwnedSequences q
     \<and> xp_IdentityColumns p = xp_IdentityColumns q"

definition lockOldTable :: "cut_server \<Rightarrow> string \<Rightarrow> string \<Rightarrow> unit txn" where
  "lockOldTable sv schema old =
     bindW (queryW sv (\<lambda>cat. case lookupRelation cat schema old of None \<Rightarrow> Inl (CutPg ''42P01'') | Some x \<Rightarrow> Inr x))
     (\<lambda>x w. (Inr (), w\<lparr>w_locks := [x]\<rparr>))"



definition dropOldTable :: "cut_server \<Rightarrow> TableLockSession \<Rightarrow> SwappedTable \<Rightarrow> unit txn" where
  "dropOldTable sv lock swapped =
     bindW (beginTx sv WritingTx) (\<lambda>_.
     bindW (setSession sv) (\<lambda>_.
     bindW (confirmTableLock sv lock) (\<lambda>_.
     bindW (lockOldTable sv (sw_schema swapped) (OldTable swapped)) (\<lambda>_.
     bindW (queryW sv (resolveRelation (sw_schema swapped) (OldTable swapped))) (\<lambda>x.
     if x \<noteq> sw_oldOID swapped then refuseW ShRelationReplaced
     else bindW (execW sv (dropTable (sw_schema swapped) (OldTable swapped))) (\<lambda>_. commitTx sv))))))"

definition DropOldTable :: "cut_server \<Rightarrow> TableLockSession option \<Rightarrow> SwappedTable \<Rightarrow> SwapOptions \<Rightarrow> unit txn" where
  "DropOldTable sv lock swapped opts = (\<lambda>w.
     case swapOptionsValidate opts of Inl e \<Rightarrow> (Inl e, w) | Inr _ \<Rightarrow>
     if sw_table swapped = '''' then (Inl (CutRefusal ShProofEmpty []), w) else
     (case shadowRequireLock lock (sw_schema swapped) (sw_table swapped) of Inl e \<Rightarrow> (Inl e, w) | Inr _ \<Rightarrow>
     (case dropOldTable sv (the lock) swapped w of
        (Inl e, w') \<Rightarrow> (Inl (lockLossCause sv e w'), w'\<lparr>w_locks := []\<rparr>)
      | (Inr u, w') \<Rightarrow> (Inr u, w'\<lparr>w_locks := []\<rparr>))))"

end
