(* ===== verification/Cutover_Outcome.thy ===== *)
theory Cutover_Outcome
  imports Cutover_Swap
begin

text \<open>
  What a cutover leaves behind. A transaction of the swap is reasoned about with two judgements: \<open>valid\<close>, what
  holds when it succeeds, and \<open>quiet\<close>, that it neither commits nor leaves a commit behind. On them rest the
  theorems about \<open>swapOnce\<close> and \<open>Cutover\<close>: a committed swap is the one that was confirmed under the locks, and
  the answer of a cutover is never a guess.
\<close>

section \<open>Well-formed catalogs\<close>

definition wfCatalog :: "pgCatalog \<Rightarrow> bool" where
  "wfCatalog cat \<longleftrightarrow> distinct (map rl_oid (ct_relations cat)) \<and> distinct (map (\<lambda>r. (rl_schema r, rl_name r)) (ct_relations cat))"

lemma find_Some_unique:
  assumes "distinct (map f xs)" "\<And>x y. P x \<Longrightarrow> P y \<Longrightarrow> f x = f y"
  shows "find P xs = Some x \<longleftrightarrow> x \<in> set xs \<and> P x"
proof
  assume "x \<in> set xs \<and> P x"
  then obtain y where y: "find P xs = Some y" by (cases "find P xs") (auto simp: find_None_iff)
  then have "y \<in> set xs" "P y" using find_index_in_set by metis+
  then have "y = x" using \<open>x \<in> set xs \<and> P x\<close> assms by (metis distinct_map inj_onD)
  then show "find P xs = Some x" using y by simp
qed (rule find_index_in_set)

lemma relationNamed_iff:
  "wfCatalog cat \<Longrightarrow> relationNamed cat s n = Some r \<longleftrightarrow> r \<in> set (ct_relations cat) \<and> rl_schema r = s \<and> rl_name r = n"
  unfolding relationNamed_def wfCatalog_def by (subst find_Some_unique [where f = "\<lambda>r. (rl_schema r, rl_name r)"]) auto

lemma relationOf_iff: "wfCatalog cat \<Longrightarrow> relationOf cat x = Some r \<longleftrightarrow> r \<in> set (ct_relations cat) \<and> rl_oid r = x"
  unfolding relationOf_def wfCatalog_def by (subst find_Some_unique [where f = rl_oid]) auto

lemma lookupRelation_iff:
  "wfCatalog cat \<Longrightarrow> lookupRelation cat s n = Some x \<longleftrightarrow> (\<exists>r \<in> set (ct_relations cat). rl_schema r = s \<and> rl_name r = n \<and> rl_oid r = x)"
  unfolding lookupRelation_def by (auto simp: relationNamed_iff)

lemma relationNamed_None: "relationNamed cat s n = None \<longleftrightarrow> (\<forall>r \<in> set (ct_relations cat). \<not> (rl_schema r = s \<and> rl_name r = n))"
  unfolding relationNamed_def by (auto simp: find_None_conv)

lemma relationOf_None: "relationOf cat x = None \<longleftrightarrow> (\<forall>r \<in> set (ct_relations cat). rl_oid r \<noteq> x)"
  unfolding relationOf_def by (auto simp: find_None_conv)

named_theorems keeps_wf \<open>statements keep the catalog well formed\<close>

lemma wfCatalog_same: "ct_relations cat' = ct_relations cat \<Longrightarrow> wfCatalog cat \<Longrightarrow> wfCatalog cat'"
  by (simp add: wfCatalog_def)

lemma renameRelation_wf [keeps_wf]:
  assumes "renameRelation kind s old new cat = Inr cat'" "wfCatalog cat"
  shows "wfCatalog cat'"
proof -
  obtain r where r: "relationNamed cat s old = Some r" and free: "relationNamed cat s new = None"
    and cat': "cat' = mapRelation (rl_oid r) (\<lambda>r. r\<lparr>rl_name := new\<rparr>) cat"
    using assms(1) by (auto simp: renameRelation_def split: option.splits if_splits)
  have rin: "r \<in> set (ct_relations cat)" "rl_schema r = s" using r assms(2) by (simp_all add: relationNamed_iff)
  have only: "u = r" if "u \<in> set (ct_relations cat)" "rl_oid u = rl_oid r" for u
    using that rin assms(2) unfolding wfCatalog_def by (metis distinct_map inj_onD)
  let ?f = "\<lambda>u. if rl_oid u = rl_oid r then u\<lparr>rl_name := new\<rparr> else u"
  have "map rl_oid (map ?f (ct_relations cat)) = map rl_oid (ct_relations cat)" by simp
  moreover have "inj_on (\<lambda>u. (rl_schema (?f u), rl_name (?f u))) (set (ct_relations cat))"
  proof (rule inj_onI)
    fix u v assume uv: "u \<in> set (ct_relations cat)" "v \<in> set (ct_relations cat)"
      and eq: "(rl_schema (?f u), rl_name (?f u)) = (rl_schema (?f v), rl_name (?f v))"
    show "u = v"
    proof (cases "rl_oid u = rl_oid r \<or> rl_oid v = rl_oid r")
      case True
      have new: "\<not> (rl_schema x = s \<and> rl_name x = new)" if "x \<in> set (ct_relations cat)" for x
        using free that unfolding relationNamed_None by blast
      have sch: "rl_schema x = s" if "x \<in> set (ct_relations cat)" "rl_oid x = rl_oid r" for x using only [OF that] rin(2) by simp
      have "rl_oid u = rl_oid r \<and> rl_oid v = rl_oid r"
        using True eq uv new [of u] new [of v] sch [of u] sch [of v] by (auto split: if_splits)
      then show ?thesis using only uv by metis
    next
      case False
      then show ?thesis using uv eq assms(2) unfolding wfCatalog_def by (auto simp: distinct_map dest: inj_onD)
    qed
  qed
  moreover have "distinct (ct_relations cat)" using assms(2) unfolding wfCatalog_def by (metis distinct_map)
  ultimately show ?thesis using assms(2) unfolding cat' mapRelation_def wfCatalog_def
    by (simp add: distinct_map comp_def inj_on_def)
qed

lemma renameIndex_wf [keeps_wf]:
  assumes "renameIndex s old new cat = Inr cat'" "wfCatalog cat"
  shows "wfCatalog cat'"
proof -
  obtain c where c: "renameRelation RelIndex s old new cat = Inr c" "ct_relations cat' = ct_relations c"
    using assms(1) by (auto simp: renameIndex_def renameConstraintOf_def split: sum.splits option.splits if_splits)
  then show ?thesis using renameRelation_wf [OF c(1) assms(2)] wfCatalog_same by blast
qed

lemma other_wf [keeps_wf]:
  "renameTable s old new cat = Inr cat' \<Longrightarrow> wfCatalog cat \<Longrightarrow> wfCatalog cat'"
  "renameSequence s old new cat = Inr cat' \<Longrightarrow> wfCatalog cat \<Longrightarrow> wfCatalog cat'"
  "renameStatistics s old new cat = Inr cat' \<Longrightarrow> wfCatalog cat \<Longrightarrow> wfCatalog cat'"
  "reownSequence q s live cat = Inr cat' \<Longrightarrow> wfCatalog cat \<Longrightarrow> wfCatalog cat'"
  "dropColumnDefault s table column cat = Inr cat' \<Longrightarrow> wfCatalog cat \<Longrightarrow> wfCatalog cat'"
  "setval s name v called cat = Inr cat' \<Longrightarrow> wfCatalog cat \<Longrightarrow> wfCatalog cat'"
  "wfCatalog cat \<Longrightarrow> wfCatalog (mapSequence x f cat)"
  by (auto simp: renameTable_def renameSequence_def renameStatistics_def reownSequence_def dropColumnDefault_def setval_def
      mapColumn_def mapSequence_def elim: renameRelation_wf intro: wfCatalog_same split: if_splits option.splits sum.splits)

lemma addIdentity_wf [keeps_wf]:
  assumes "addIdentity ns s table declared cat = Inr cat'" "wfCatalog cat"
  shows "wfCatalog cat'"
proof -
  have "relationNamed cat s (ns_name ns) = None" "relationOf cat (ns_oid ns) = None"
    using assms(1) by (auto simp: addIdentity_def Let_def split: option.splits if_splits)
  moreover obtain own where "ct_relations cat' = ct_relations cat @ [\<lparr>rl_oid = ns_oid ns, rl_schema = s, rl_name = ns_name ns, rl_kind = RelSequence, rl_owner = own\<rparr>]"
    using assms(1) by (auto simp: addIdentity_def Let_def split: option.splits if_splits)
  ultimately show ?thesis using assms(2) unfolding wfCatalog_def relationNamed_None relationOf_None by auto
qed

section \<open>What PostgreSQL promises\<close>

text \<open>
  Other sessions leave the catalog well formed and cannot change a relation that is locked exclusively.
\<close>

definition lawful :: "cut_server \<Rightarrow> bool" where
  "lawful sv \<longleftrightarrow>
     (\<forall>n locks cat. wfCatalog cat \<longrightarrow> wfCatalog (cs_others sv n locks cat)
        \<and> (\<forall>r \<in> set (ct_relations cat). rl_oid r \<in> set locks \<longrightarrow> r \<in> set (ct_relations (cs_others sv n locks cat))))"

lemma lawful_others:
  assumes "lawful sv" "wfCatalog cat"
  shows "wfCatalog (cs_others sv n locks cat)"
    "r \<in> set (ct_relations cat) \<Longrightarrow> rl_oid r \<in> set locks \<Longrightarrow> r \<in> set (ct_relations (cs_others sv n locks cat))"
  using assms unfolding lawful_def by blast+



section \<open>Successful runs\<close>

definition valid :: "(world \<Rightarrow> bool) \<Rightarrow> 'a txn \<Rightarrow> ('a \<Rightarrow> world \<Rightarrow> bool) \<Rightarrow> bool" where
  "valid P m Q \<longleftrightarrow> (\<forall>w a w'. P w \<longrightarrow> m w = (Inr a, w') \<longrightarrow> Q a w')"

named_theorems valid_intros \<open>rules of the judgement valid\<close>

lemma validD: "valid P m Q \<Longrightarrow> P w \<Longrightarrow> m w = (Inr a, w') \<Longrightarrow> Q a w'"
  unfolding valid_def by blast

lemma valid_bind:
  assumes "valid P m Q" "\<And>a. valid (Q a) (f a) R"
  shows "valid P (bindW m f) R"
  unfolding valid_def bindW_def
proof (intro allI impI)
  fix w b w' assume "P w" and m: "(case m w of (Inl e, w1) \<Rightarrow> (Inl e, w1) | (Inr a, w1) \<Rightarrow> f a w1) = (Inr b, w')"
  then obtain a w1 where "m w = (Inr a, w1)" "f a w1 = (Inr b, w')" by (auto split: prod.splits sum.splits)
  then show "R b w'" using assms validD \<open>P w\<close> by metis
qed

lemma valid_return: "(\<And>w. P w \<Longrightarrow> Q a w) \<Longrightarrow> valid P (returnW a) Q"
  by (auto simp: valid_def returnW_def)

lemma valid_fail [simp]: "valid P (failW e) Q" "valid P (refuseW c) Q"
  by (simp_all add: valid_def failW_def refuseW_def)

lemma valid_pre: "valid P m Q \<Longrightarrow> (\<And>w. P' w \<Longrightarrow> P w) \<Longrightarrow> valid P' m Q"
  unfolding valid_def by blast

lemma valid_post: "valid P m Q \<Longrightarrow> (\<And>a w. Q a w \<Longrightarrow> Q' a w) \<Longrightarrow> valid P m Q'"
  unfolding valid_def by blast

lemma valid_if: "(b \<Longrightarrow> valid P m Q) \<Longrightarrow> (\<not> b \<Longrightarrow> valid P m' Q) \<Longrightarrow> valid P (if b then m else m') Q"
  by simp

lemma valid_forW: "(\<And>x. valid P (f x) (\<lambda>_. P)) \<Longrightarrow> valid P (forW f xs) (\<lambda>_. P)"
  by (induction xs) (auto intro: valid_return valid_bind)

text \<open>Inside the swap's transaction, with these locks.\<close>

definition inTx :: "oid list \<Rightarrow> world \<Rightarrow> bool" where
  "inTx locks w \<longleftrightarrow> w_mode w = WritingTx \<and> w_deciding w = None \<and> w_locks w = locks \<and> wfCatalog (w_view w) \<and> wfCatalog (w_base w)"

lemma inTx_step:
  assumes "lawful sv" "inTx locks w"
  shows "inTx locks (stepW sv w)" "w_view (stepW sv w) = cs_others sv (w_tick w) locks (w_view w)" "w_log (stepW sv w) = w_log w"
  using assms lawful_others(1) by (auto simp: inTx_def stepW_def Let_def heldLocks_def)

text \<open>A fact about rows that are locked survives whatever others do.\<close>

definition rowIn :: "string \<Rightarrow> string \<Rightarrow> oid list \<Rightarrow> pgCatalog \<Rightarrow> bool" where
  "rowIn s n locks cat \<longleftrightarrow> (\<exists>r \<in> set (ct_relations cat). rl_schema r = s \<and> rl_name r = n \<and> rl_oid r \<in> set locks)"

definition rowOf :: "string \<Rightarrow> string \<Rightarrow> oid \<Rightarrow> pgCatalog \<Rightarrow> bool" where
  "rowOf s n x cat \<longleftrightarrow> (\<exists>r \<in> set (ct_relations cat). rl_schema r = s \<and> rl_name r = n \<and> rl_oid r = x)"

lemma rowOf_lookup: "wfCatalog cat \<Longrightarrow> lookupRelation cat s n = Some x \<longleftrightarrow> rowOf s n x cat"
  by (simp add: lookupRelation_iff rowOf_def)

definition survives :: "cut_server \<Rightarrow> oid list \<Rightarrow> (pgCatalog \<Rightarrow> bool) \<Rightarrow> bool" where
  "survives sv locks J \<longleftrightarrow> (\<forall>n cat. wfCatalog cat \<longrightarrow> J cat \<longrightarrow> J (cs_others sv n locks cat))"

lemma survives_rows [valid_intros]:
  assumes "lawful sv"
  shows "survives sv locks (rowIn s n locks)" "x \<in> set locks \<Longrightarrow> survives sv locks (rowOf s n x)"
  using lawful_others(2) [OF assms] unfolding survives_def rowIn_def rowOf_def by blast+

lemma survives_conj [valid_intros]: "survives sv locks J \<Longrightarrow> survives sv locks K \<Longrightarrow> survives sv locks (\<lambda>cat. J cat \<and> K cat)"
  by (simp add: survives_def)

lemma survives_True [valid_intros]: "survives sv locks (\<lambda>_. True)"
  by (simp add: survives_def)

lemma valid_stmt:
  assumes "lawful sv" "survives sv locks J"
    and "\<And>n cat a v. wfCatalog cat \<Longrightarrow> J cat \<Longrightarrow> f n cat = Inr (a, v) \<Longrightarrow> wfCatalog v \<and> K a v"
  shows "valid (\<lambda>w. inTx locks w \<and> J (w_view w)) (runStmt sv f) (\<lambda>a w. inTx locks w \<and> K a (w_view w))"
  unfolding valid_def
proof (intro allI impI)
  fix w a w' assume pre: "inTx locks w \<and> J (w_view w)" and run: "runStmt sv f w = (Inr a, w')"
  obtain v where v: "f (w_tick w) (w_view (stepW sv w)) = Inr (a, v)" "w' = (stepW sv w)\<lparr>w_view := v\<rparr>"
    using run by (auto simp: runStmt_def Let_def split: option.splits sum.splits)
  have st: "inTx locks (stepW sv w)" using inTx_step(1) [OF assms(1)] pre by blast
  have "J (w_view (stepW sv w))"
    using assms(2) pre inTx_step(2) [OF assms(1)] by (simp add: survives_def inTx_def)
  then have "wfCatalog v \<and> K a v" using assms(3) [OF _ _ v(1)] st by (simp add: inTx_def)
  then show "inTx locks w' \<and> K a (w_view w')" using st v(2) by (simp add: inTx_def)
qed

lemma valid_query:
  assumes "lawful sv" "survives sv locks J"
  shows "valid (\<lambda>w. inTx locks w \<and> J (w_view w)) (queryW sv g) (\<lambda>a w. inTx locks w \<and> J (w_view w) \<and> g (w_view w) = Inr a)"
  unfolding queryW_def using assms
  by (intro valid_stmt [where K = "\<lambda>a cat. J cat \<and> g cat = Inr a", simplified conj_assoc]) (auto split: sum.splits)

lemma valid_ask:
  assumes "lawful sv" "survives sv locks J"
  shows "valid (\<lambda>w. inTx locks w \<and> J (w_view w)) (askW sv g) (\<lambda>a w. inTx locks w \<and> J (w_view w) \<and> a = g (w_view w))"
  unfolding askW_def using assms
  by (intro valid_stmt [where K = "\<lambda>a cat. J cat \<and> a = g cat", simplified conj_assoc]) auto

lemma valid_answer:
  assumes "lawful sv" "survives sv locks J"
  shows "valid (\<lambda>w. inTx locks w \<and> J (w_view w)) (answerW sv g) (\<lambda>_ w. inTx locks w \<and> J (w_view w))"
  unfolding answerW_def using assms by (intro valid_stmt) (auto split: option.splits)

definition keeps :: "oid list \<Rightarrow> (pgCatalog \<Rightarrow> bool) \<Rightarrow> 'a txn \<Rightarrow> bool" where
  "keeps locks J m \<longleftrightarrow> valid (\<lambda>w. inTx locks w \<and> J (w_view w)) m (\<lambda>_ w. inTx locks w \<and> J (w_view w))"

named_theorems keeps_intros \<open>transactions that keep the locks and what they protect\<close>

lemma keeps_bind [keeps_intros]: "keeps locks J m \<Longrightarrow> (\<And>a. keeps locks J (f a)) \<Longrightarrow> keeps locks J (bindW m f)"
  unfolding keeps_def by (rule valid_bind)

lemma keeps_unit [keeps_intros]: "keeps locks J (returnW a)" "keeps locks J (failW e)" "keeps locks J (refuseW c)"
  unfolding keeps_def by (auto intro: valid_return)

lemma keeps_if [keeps_intros]: "keeps locks J m \<Longrightarrow> keeps locks J m' \<Longrightarrow> keeps locks J (if b then m else m')"
  by simp

lemma keeps_forW [keeps_intros]: "(\<And>x. keeps locks J (f x)) \<Longrightarrow> keeps locks J (forW f xs)"
  unfolding keeps_def by (rule valid_forW)

lemma keeps_stmt:
  assumes "lawful sv" "survives sv locks J" "\<And>n cat a v. wfCatalog cat \<Longrightarrow> J cat \<Longrightarrow> f n cat = Inr (a, v) \<Longrightarrow> wfCatalog v \<and> J v"
  shows "keeps locks J (runStmt sv f)"
  unfolding keeps_def using assms by (rule valid_stmt)

lemma keeps_reads [keeps_intros]:
  assumes "lawful sv" "survives sv locks J"
  shows "keeps locks J (queryW sv g)" "keeps locks J (askW sv h)" "keeps locks J (answerW sv k)" "keeps locks J (sessionW sv)"
    "keeps locks J (runStmt sv (\<lambda>n cat. Inr (l n, cat)))"
  unfolding queryW_def askW_def sessionW_def answerW_def
  using assms by (auto intro!: keeps_stmt split: sum.splits option.splits)

lemma keeps_exec [keeps_intros]:
  assumes "lawful sv" "\<And>cat cat'. f cat = Inr cat' \<Longrightarrow> wfCatalog cat \<Longrightarrow> wfCatalog cat'"
  shows "keeps locks (\<lambda>_. True) (execW sv f)"
  unfolding execW_def using assms by (auto intro!: keeps_stmt survives_True split: sum.splits)

lemma keeps_reading [keeps_intros]:
  assumes "lawful sv" "survives sv locks J"
  shows "keeps locks J (setSession sv)" "keeps locks J (confirmTableLock sv lock)" "keeps locks J (confirmWriteFence sv built)"
    "keeps locks J (gateConfirmRelations sv built)" "keeps locks J (confirmFingerprints sv built m m')" "keeps locks J (confirmFidelity sv built)"
    "keeps locks J (verifyIdentityDefaults sv x ids)" "keeps locks J (confirmIdentities sv built m)" "keeps locks J (pairStatistics sv built)"
    "keeps locks J (confirmNamesFree sv built ix st es)" "keeps locks J (readSequenceGrantsOf sv s name)" "keeps locks J (identitySequenceOf sv s t c)"
  unfolding setSession_def confirmTableLock_def confirmWriteFence_def gateConfirmRelations_def confirmFingerprints_def confirmFidelity_def
    verifyIdentityDefaults_def confirmIdentities_def pairStatistics_def confirmNamesFree_def readSequenceGrantsOf_def identitySequenceOf_def
  using assms by (auto intro!: keeps_intros split: option.splits)

lemma keeps_gate [keeps_intros]:
  assumes "lawful sv" "survives sv locks J"
  shows "keeps locks J (gateCutoverTx sv built verified)" "keeps locks J (confirmSwap sv ready ids)"
  unfolding gateCutoverTx_def confirmSwap_def Let_def using assms by (auto intro!: keeps_intros keeps_reading)

lemma keeps_renames [keeps_intros]:
  assumes "lawful sv"
  shows "keeps locks (\<lambda>_. True) (renameForSwap sv ready)"
  unfolding renameForSwap_def Let_def using assms by (auto intro!: keeps_intros elim: keeps_wf)

lemma keeps_carry [keeps_intros]:
  assumes "lawful sv"
  shows "keeps locks (\<lambda>_. True) (carryGrants sv s old new)"
  unfolding carryGrants_def changeGrants_def using assms
  by (auto intro!: keeps_intros survives_True simp: keeps_wf split: sum.splits)

lemma keeps_handOff [keeps_intros]:
  assumes "lawful sv"
  shows "keeps locks (\<lambda>_. True) (handOffIdentity sv s live c)"
proof -
  have "keeps locks (\<lambda>_. True) (runStmt sv (\<lambda>n cat. case addIdentity (cs_newSequence sv n cat) s live d cat of Inl e \<Rightarrow> Inl e | Inr cat' \<Rightarrow> Inr ((), cat')))" for d
    using assms by (intro keeps_stmt survives_True) (auto split: sum.splits intro: addIdentity_wf)
  then show ?thesis unfolding handOffIdentity_def Let_def using assms
    by (auto intro!: keeps_intros survives_True elim: keeps_wf)
qed

lemma keeps_handOffs [keeps_intros]:
  assumes "lawful sv"
  shows "keeps locks (\<lambda>_. True) (handOffIdentities sv s live cs)" "keeps locks (\<lambda>_. True) (handOffSequences sv ready)"
proof -
  show all: "keeps locks (\<lambda>_. True) (handOffIdentities sv s live cs)" for s live cs
    using assms by (induction cs) (auto intro!: keeps_intros)
  show "keeps locks (\<lambda>_. True) (handOffSequences sv ready)"
    unfolding handOffSequences_def Let_def using assms all by (auto intro!: keeps_intros elim: keeps_wf)
qed

section \<open>A committed swap is the one that was confirmed\<close>

lemma valid_ex: "(\<And>x. valid (P x) m Q) \<Longrightarrow> valid (\<lambda>w. \<exists>x. P x w) m Q"
  unfolding valid_def by blast

lemma valid_pure: "(P \<Longrightarrow> valid R m Q) \<Longrightarrow> valid (\<lambda>w. R w \<and> P) m Q"
  unfolding valid_def by blast

lemma keeps_valid: "keeps locks (\<lambda>_. True) m \<Longrightarrow> valid (inTx locks) m (\<lambda>_. inTx locks)"
  by (simp add: keeps_def)

lemma valid_keeps:
  assumes "keeps locks J m" "\<And>w. P w \<Longrightarrow> inTx locks w \<and> J (w_view w)" "\<And>w. inTx locks w \<and> J (w_view w) \<Longrightarrow> Q w"
  shows "valid P m (\<lambda>_. Q)"
  using assms unfolding keeps_def valid_def by blast

definition results :: "('a \<Rightarrow> bool) \<Rightarrow> 'a txn \<Rightarrow> bool" where
  "results Q m \<longleftrightarrow> (\<forall>w a w'. m w = (Inr a, w') \<longrightarrow> Q a)"

lemma results_bind: "(\<And>a. results Q (f a)) \<Longrightarrow> results Q (bindW m f)"
  unfolding results_def bindW_def by (auto split: prod.splits sum.splits)

lemma results_unit: "Q a \<Longrightarrow> results Q (returnW a)" "results Q (failW e)" "results Q (refuseW c)"
  by (simp_all add: results_def returnW_def failW_def refuseW_def)

lemma results_if: "results Q m \<Longrightarrow> results Q m' \<Longrightarrow> results Q (if b then m else m')"
  by simp

lemma gate_result: "results (\<lambda>ready. cr_built ready = built \<and> cr_verified ready = verified) (gateCutoverTx sv built verified)"
  unfolding gateCutoverTx_def Let_def by (auto intro!: results_bind results_unit results_if)

lemma valid_results: "valid P m Q \<Longrightarrow> results R m \<Longrightarrow> valid P m (\<lambda>a w. Q a w \<and> R a)"
  unfolding valid_def results_def by blast

abbreviation bothLocked :: "BuiltShadow \<Rightarrow> oid list \<Rightarrow> pgCatalog \<Rightarrow> bool" where
  "bothLocked built locks cat \<equiv>
     rowIn (bs_Schema built) (bs_SourceTable built) locks cat \<and> rowIn (bs_Schema built) (bs_ShadowTable built) locks cat"

lemma valid_query_plain: "lawful sv \<Longrightarrow> valid (inTx locks) (queryW sv g) (\<lambda>a w. inTx locks w \<and> g (w_view w) = Inr a)"
  using valid_query [OF _ survives_True] by simp

lemma lockForSwap_valid:
  assumes "lawful sv"
  shows "valid (inTx locks) (lockForSwap sv built) (\<lambda>_ w. \<exists>locks. inTx locks w \<and> bothLocked built locks (w_view w))"
proof -
  let ?g = "\<lambda>cat. case (lookupRelation cat (bs_Schema built) (bs_SourceTable built), lookupRelation cat (bs_Schema built) (bs_ShadowTable built)) of
         (Some x, Some y) \<Rightarrow> Inr [x, y] | _ \<Rightarrow> Inl (CutPg ''42P01'')"
  have lk: "bothLocked built xs cat" if "wfCatalog cat" "?g cat = Inr xs" for cat xs
    using that by (auto simp: lookupRelation_iff rowIn_def split: option.splits)
  show ?thesis unfolding lockForSwap_def
  proof (rule valid_bind [OF valid_query_plain [OF assms]])
    show "valid (\<lambda>w. inTx locks w \<and> ?g (w_view w) = Inr oids) (\<lambda>w. (Inr (), w\<lparr>w_locks := oids\<rparr>))
        (\<lambda>_ w. \<exists>locks. inTx locks w \<and> bothLocked built locks (w_view w))" for oids
      using lk unfolding valid_def inTx_def by auto
  qed
qed

lemma gateConfirmRelations_valid:
  assumes "lawful sv"
  shows "valid (\<lambda>w. inTx locks w \<and> bothLocked built locks (w_view w)) (gateConfirmRelations sv built)
    (\<lambda>_ w. inTx locks w \<and> bs_SourceOID built \<in> set locks \<and> bs_ShadowOID built \<in> set locks)"
proof -
  note sv = survives_conj [OF survives_rows(1) [OF assms] survives_rows(1) [OF assms]]
  have row: "x \<in> set locks" if "wfCatalog cat" "rowIn s n locks cat" "resolveRelation s n cat = Inr x" for x s n cat
    using that by (auto simp: resolveRelation_def rowOf_lookup rowIn_def rowOf_def lookupRelation_iff split: option.splits)
      (metis (mono_tags, lifting) distinct_map fst_conv inj_onD snd_conv wfCatalog_def)
  let ?J = "\<lambda>cat. bothLocked built locks cat \<and> bs_SourceOID built \<in> set locks"
  have both: "survives sv locks (bothLocked built locks)" by (rule sv)
  have surv: "survives sv locks ?J" using both by (simp add: survives_def)
  show ?thesis unfolding gateConfirmRelations_def
  proof (rule valid_bind [OF valid_query [OF assms sv]], rule valid_if, simp, rule valid_pre, rule valid_bind [OF valid_query [OF assms surv]])
    show "valid (\<lambda>w. inTx locks w \<and> ?J (w_view w) \<and> resolveRelation (bs_Schema built) (bs_ShadowTable built) (w_view w) = Inr y)
        (if y \<noteq> bs_ShadowOID built then refuseW ShRelationReplaced else returnW ())
        (\<lambda>_ w. inTx locks w \<and> bs_SourceOID built \<in> set locks \<and> bs_ShadowOID built \<in> set locks)" for y
      by (rule valid_if, simp, rule valid_return) (use row in \<open>auto simp: inTx_def\<close>)
  next
    fix x w assume "\<not> x \<noteq> bs_SourceOID built" "inTx locks w \<and> bothLocked built locks (w_view w)
        \<and> resolveRelation (bs_Schema built) (bs_SourceTable built) (w_view w) = Inr x"
    then show "inTx locks w \<and> ?J (w_view w)" using row by (auto simp: inTx_def)
  qed
qed

lemma gate_valid:
  assumes "lawful sv"
  shows "valid (\<lambda>w. inTx locks w \<and> bothLocked built locks (w_view w)) (gateCutoverTx sv built verified)
    (\<lambda>ready w. (inTx locks w \<and> bs_SourceOID built \<in> set locks \<and> bs_ShadowOID built \<in> set locks) \<and> cr_built ready = built \<and> cr_verified ready = verified)"
proof (rule valid_results [OF _ gate_result])
  let ?J = "\<lambda>cat :: pgCatalog. bs_SourceOID built \<in> set locks \<and> bs_ShadowOID built \<in> set locks"
  have surv: "survives sv locks ?J" by (simp add: survives_def)
  show "valid (\<lambda>w. inTx locks w \<and> bothLocked built locks (w_view w)) (gateCutoverTx sv built verified)
      (\<lambda>_ w. inTx locks w \<and> bs_SourceOID built \<in> set locks \<and> bs_ShadowOID built \<in> set locks)"
    unfolding gateCutoverTx_def Let_def
    by (rule valid_bind [OF gateConfirmRelations_valid [OF assms]], rule valid_keeps [where J = ?J])
      (use assms surv in \<open>auto intro!: keeps_intros\<close>)
qed

lemma confirmSwap_valid:
  assumes "lawful sv" "bs_SourceOID (cr_built ready) \<in> set locks" "bs_ShadowOID (cr_built ready) \<in> set locks"
  defines "built \<equiv> cr_built ready"
  defines "live \<equiv> rowOf (bs_Schema built) (bs_SourceTable built) (bs_ShadowOID built)"
    and "old \<equiv> rowOf (bs_Schema built) (OldName (bs_Schema built) (bs_SourceTable built)) (bs_SourceOID built)"
  shows "valid (inTx locks) (confirmSwap sv ready ids) (\<lambda>_ w. inTx locks w \<and> live (w_view w) \<and> old (w_view w))"
proof -
  have row: "rowOf s n x cat" if "wfCatalog cat" "resolveRelation s n cat = Inr x" for s n x cat
    using that by (simp add: resolveRelation_def rowOf_lookup split: option.splits)
  have sl: "survives sv locks live" and so: "survives sv locks old"
    using survives_rows(2) [OF assms(1)] assms(2,3) unfolding live_def old_def built_def by blast+
  have slo: "survives sv locks (\<lambda>cat. live cat \<and> old cat)" using survives_conj [OF sl so] .
  show ?thesis unfolding confirmSwap_def Let_def built_def [symmetric]
  proof (rule valid_bind [OF valid_query_plain [OF assms(1)]], rule valid_if, simp, rule valid_pre,
      rule valid_bind [OF valid_query [OF assms(1) sl]], rule valid_if, simp)
    fix x y assume y: "\<not> y \<noteq> bs_SourceOID built"
    show "valid (\<lambda>w. inTx locks w \<and> live (w_view w) \<and> resolveRelation (bs_Schema built) (OldName (bs_Schema built) (bs_SourceTable built)) (w_view w) = Inr y)
       (bindW (askW sv (readIndexes x)) (\<lambda>indexes.
        if missingNames (pg_Pairs (cr_indexes ready)) (map ie_name indexes) \<noteq> [] then refuseW ShSwapMismatch
        else bindW (askW sv (readStatistics x)) (\<lambda>statistics.
        if missingNames (pg_Pairs (cr_statistics ready)) (map dp_name statistics) \<noteq> [] then refuseW ShSwapMismatch
        else bindW (askW sv (readOwnedSequences x)) (\<lambda>sequences.
        if sequences \<noteq> cr_sequences ready then refuseW ShSwapMismatch
        else bindW (queryW sv (readIdentityColumns x)) (\<lambda>onLive. if onLive \<noteq> ids then refuseW ShSwapMismatch else returnW ())))))
       (\<lambda>_ w. inTx locks w \<and> live (w_view w) \<and> old (w_view w))"
      by (rule valid_keeps [where J = "\<lambda>cat. live cat \<and> old cat"])
        (use assms(1) slo y row in \<open>auto intro!: keeps_intros simp: old_def inTx_def\<close>)
  next
    fix x w assume "\<not> x \<noteq> bs_ShadowOID built" "inTx locks w \<and> resolveRelation (bs_Schema built) (bs_SourceTable built) (w_view w) = Inr x"
    then show "inTx locks w \<and> live (w_view w)" using row by (auto simp: live_def inTx_def)
  qed
qed

abbreviation liveRow :: "BuiltShadow \<Rightarrow> pgCatalog \<Rightarrow> bool" where
  "liveRow built \<equiv> rowOf (bs_Schema built) (bs_SourceTable built) (bs_ShadowOID built)"

abbreviation oldRow :: "BuiltShadow \<Rightarrow> pgCatalog \<Rightarrow> bool" where
  "oldRow built \<equiv> rowOf (bs_Schema built) (OldName (bs_Schema built) (bs_SourceTable built)) (bs_SourceOID built)"

definition describes :: "BuiltShadow \<Rightarrow> SwappedTable \<Rightarrow> bool" where
  "describes built s \<longleftrightarrow> sw_schema s = bs_Schema built \<and> sw_table s = bs_SourceTable built \<and> sw_liveOID s = bs_ShadowOID built
     \<and> sw_oldOID s = bs_SourceOID built \<and> sw_owner s = fs_Owner (bs_Fidelity built)"

definition readyToCommit :: "BuiltShadow \<Rightarrow> world \<Rightarrow> bool" where
  "readyToCommit built w \<longleftrightarrow> (\<exists>locks. inTx locks w \<and> bs_SourceOID built \<in> set locks \<and> bs_ShadowOID built \<in> set locks
     \<and> liveRow built (w_view w) \<and> oldRow built (w_view w))"

lemma swapTail_valid:
  assumes "lawful sv" "bs_SourceOID built \<in> set locks" "bs_ShadowOID built \<in> set locks" "cr_built fresh = built"
  shows "valid (inTx locks)
    (bindW (renameForSwap sv fresh) (\<lambda>_. bindW (handOffSequences sv fresh) (\<lambda>ids. bindW (confirmSwap sv fresh ids) (\<lambda>_.
      returnW (newSwappedTable fresh ids 0)))))
    (\<lambda>swapped w. readyToCommit built w \<and> describes built swapped)"
proof (rule valid_bind [OF keeps_valid [OF keeps_renames [OF assms(1)]]], rule valid_bind [OF keeps_valid [OF keeps_handOffs(2) [OF assms(1)]]])
  fix ids
  have "valid (inTx locks) (confirmSwap sv fresh ids) (\<lambda>_ w. inTx locks w \<and> liveRow built (w_view w) \<and> oldRow built (w_view w))"
    using confirmSwap_valid [OF assms(1), where ready = fresh] assms(2-4) by simp
  then show "valid (inTx locks) (bindW (confirmSwap sv fresh ids) (\<lambda>_. returnW (newSwappedTable fresh ids 0)))
      (\<lambda>swapped w. readyToCommit built w \<and> describes built swapped)"
    by (rule valid_bind, intro valid_return)
      (use assms(2-4) in \<open>auto simp: readyToCommit_def describes_def newSwappedTable_def Let_def\<close>)
qed

lemma swapInTx_valid:
  assumes "lawful sv"
  shows "valid (inTx locks) (swapInTx sv lock ready drain fence) (\<lambda>swapped w. readyToCommit (cr_built ready) w \<and> describes (cr_built ready) swapped)"
proof -
  let ?built = "cr_built ready"
  have k: "keeps l (bothLocked ?built l) (if b then confirmWriteFence sv ?built else returnW ())"
      "keeps l (bothLocked ?built l) (case drain of None \<Rightarrow> returnW () | Some d \<Rightarrow> answerW sv d)"
      "keeps l (bothLocked ?built l) (answerW sv (cs_shape sv))" for l b
    using assms survives_conj [OF survives_rows(1) survives_rows(1)] by (auto intro!: keeps_intros split: option.splits)
  have tail: "valid (\<lambda>w. \<exists>l. inTx l w \<and> bothLocked ?built l (w_view w))
      (bindW (if b then confirmWriteFence sv ?built else returnW ()) (\<lambda>_.
       bindW (case drain of None \<Rightarrow> returnW () | Some d \<Rightarrow> answerW sv d) (\<lambda>_.
       bindW (answerW sv (cs_shape sv)) (\<lambda>_.
       bindW (gateCutoverTx sv ?built (cr_verified ready)) (\<lambda>fresh.
       bindW (renameForSwap sv fresh) (\<lambda>_. bindW (handOffSequences sv fresh) (\<lambda>ids. bindW (confirmSwap sv fresh ids) (\<lambda>_.
        returnW (newSwappedTable fresh ids 0)))))))))
      (\<lambda>swapped w. readyToCommit ?built w \<and> describes ?built swapped)" for b
  proof (rule valid_ex, rule valid_bind [OF k(1) [unfolded keeps_def]], rule valid_bind [OF k(2) [unfolded keeps_def]],
      rule valid_bind [OF k(3) [unfolded keeps_def]], rule valid_bind [OF gate_valid [OF assms]])
    fix l fresh
    show "valid (\<lambda>w. (inTx l w \<and> bs_SourceOID ?built \<in> set l \<and> bs_ShadowOID ?built \<in> set l) \<and> cr_built fresh = ?built \<and> cr_verified fresh = cr_verified ready)
      (bindW (renameForSwap sv fresh) (\<lambda>_. bindW (handOffSequences sv fresh) (\<lambda>ids. bindW (confirmSwap sv fresh ids) (\<lambda>_.
        returnW (newSwappedTable fresh ids 0)))))
      (\<lambda>swapped w. readyToCommit ?built w \<and> describes ?built swapped)"
      using swapTail_valid [OF assms] unfolding valid_def by blast
  qed
  show ?thesis unfolding swapInTx_def Let_def
    using assms tail
    by (intro valid_bind [OF keeps_valid [OF keeps_reading(1)]] valid_bind [OF keeps_valid [OF keeps_reading(2)]]
        valid_bind [OF lockForSwap_valid]) (auto intro: survives_True)
qed

section \<open>Transactions that do not commit\<close>

definition wfWorld :: "world \<Rightarrow> bool" where
  "wfWorld w \<longleftrightarrow> wfCatalog (w_base w) \<and> wfCatalog (w_view w) \<and> (case w_deciding w of None \<Rightarrow> True | Some (v, l, c) \<Rightarrow> wfCatalog v)"

definition stable :: "cut_server \<Rightarrow> (pgCatalog \<Rightarrow> bool) \<Rightarrow> bool" where
  "stable sv B \<longleftrightarrow> (\<forall>n locks cat. wfCatalog cat \<longrightarrow> B cat \<longrightarrow> B (cs_others sv n locks cat))"

definition uncommitted :: "cut_error + 'a \<Rightarrow> world \<Rightarrow> bool" where
  "uncommitted r w \<longleftrightarrow> (case w_deciding w of None \<Rightarrow> True | Some (v, l, c) \<Rightarrow> \<not> c \<and> (\<exists>e. r = Inl e \<and> unheard e))"

definition steady :: "(pgCatalog \<Rightarrow> bool) \<Rightarrow> 'a txn \<Rightarrow> bool" where
  "steady B m \<longleftrightarrow> (\<forall>w r w'. m w = (r, w') \<longrightarrow> wfWorld w \<longrightarrow> w_deciding w = None \<longrightarrow> B (w_base w) \<longrightarrow>
     wfWorld w' \<and> B (w_base w') \<and> w_log w' = w_log w \<and> uncommitted r w')"

named_theorems steady_intros \<open>transactions that do not commit\<close>

lemma steady_bind [steady_intros]:
  assumes "steady B m" "\<And>a. steady B (f a)"
  shows "steady B (bindW m f)"
  unfolding steady_def
proof (intro allI impI)
  fix w r w' assume run: "bindW m f w = (r, w')" and pre: "wfWorld w" "w_deciding w = None" "B (w_base w)"
  obtain r1 w1 where m: "m w = (r1, w1)" by fastforce
  then have one: "wfWorld w1 \<and> B (w_base w1) \<and> w_log w1 = w_log w \<and> uncommitted r1 w1" using assms(1) pre unfolding steady_def by blast
  show "wfWorld w' \<and> B (w_base w') \<and> w_log w' = w_log w \<and> uncommitted r w'"
  proof (cases r1)
    case (Inl e)
    then have "w' = w1 \<and> (\<exists>x. r = Inl x \<and> x = e)" using run m by (simp add: bindW_def)
    then show ?thesis using one Inl by (auto simp: uncommitted_def split: option.splits)
  next
    case (Inr a)
    then have "f a w1 = (r, w')" "w_deciding w1 = None" using run m one by (auto simp: bindW_def uncommitted_def split: option.splits)
    then show ?thesis using assms(2) [of a] one unfolding steady_def by metis
  qed
qed

lemma steady_unit [steady_intros]: "steady B (returnW a)" "steady B (failW e)" "steady B (refuseW c)" "steady B (liftW s)"
  by (auto simp: steady_def returnW_def failW_def refuseW_def liftW_def uncommitted_def split: sum.splits)

lemma steady_if [steady_intros]: "steady B m \<Longrightarrow> steady B m' \<Longrightarrow> steady B (if b then m else m')"
  by simp

lemma steady_forW [steady_intros]: "(\<And>x. steady B (f x)) \<Longrightarrow> steady B (forW f xs)"
  by (induction xs) (auto intro: steady_intros)

lemma stepW_None:
  assumes "w_deciding w = None"
  shows "w_base (stepW sv w) = cs_others sv (w_tick w) (heldLocks w) (w_base w)"
    "w_view (stepW sv w) = (case w_mode w of SnapshotTx \<Rightarrow> w_view w
       | ReadingTx \<Rightarrow> cs_others sv (w_tick w) (heldLocks w) (w_base w) | WritingTx \<Rightarrow> cs_others sv (w_tick w) (heldLocks w) (w_view w))"
    "w_log (stepW sv w) = w_log w" "w_deciding (stepW sv w) = None" "w_locks (stepW sv w) = w_locks w" "w_mode (stepW sv w) = w_mode w"
  using assms by (cases "w_mode w"; simp add: stepW_def Let_def)+

lemma steady_step:
  assumes "lawful sv" "stable sv B" "wfWorld w" "w_deciding w = None" "B (w_base w)"
  shows "wfWorld (stepW sv w) \<and> B (w_base (stepW sv w)) \<and> w_log (stepW sv w) = w_log w \<and> w_deciding (stepW sv w) = None"
proof -
  have wf: "wfCatalog (w_base w)" "wfCatalog (w_view w)" using assms(3) by (simp_all add: wfWorld_def)
  have "wfCatalog (cs_others sv (w_tick w) (heldLocks w) (w_base w))" "wfCatalog (cs_others sv (w_tick w) (heldLocks w) (w_view w))"
      "B (cs_others sv (w_tick w) (heldLocks w) (w_base w))"
    using lawful_others(1) [OF assms(1)] wf assms(2,5) unfolding stable_def by blast+
  then show ?thesis using assms(4) wf by (cases "w_mode w") (simp_all add: stepW_None wfWorld_def)
qed

lemma runStmt_cases:
  assumes "runStmt sv f w = (r, w')"
  shows "(\<exists>e. r = Inl e \<and> w' = abandon e False (stepW sv w))
    \<or> (\<exists>a v. r = Inr a \<and> f (w_tick w) (w_view (stepW sv w)) = Inr (a, v) \<and> w' = (stepW sv w)\<lparr>w_view := v\<rparr>)"
  using assms unfolding runStmt_def Let_def by (fastforce split: option.splits sum.splits)

lemma abandon_uncommitted:
  assumes "w_deciding w = None" "wfWorld w"
  shows "wfWorld (abandon e False w)" "w_base (abandon e False w) = w_base w" "w_log (abandon e False w) = w_log w"
    "uncommitted (Inl e) (abandon e False w)"
  using assms by (simp_all add: abandon_def wfWorld_def uncommitted_def)

lemma steady_stmt:
  assumes "lawful sv" "stable sv B" "\<And>n cat a v. wfCatalog cat \<Longrightarrow> f n cat = Inr (a, v) \<Longrightarrow> wfCatalog v"
  shows "steady B (runStmt sv f)"
  unfolding steady_def
proof (intro allI impI)
  fix w r w' assume run: "runStmt sv f w = (r, w')" and pre: "wfWorld w" "w_deciding w = None" "B (w_base w)"
  note st = steady_step [OF assms(1,2) pre]
  from runStmt_cases [OF run] show "wfWorld w' \<and> B (w_base w') \<and> w_log w' = w_log w \<and> uncommitted r w'"
  proof (elim disjE exE conjE)
    fix e assume "r = Inl e" "w' = abandon e False (stepW sv w)"
    then show ?thesis using st abandon_uncommitted [of "stepW sv w" e] by simp
  next
    fix a v assume "r = Inr a" "f (w_tick w) (w_view (stepW sv w)) = Inr (a, v)" "w' = (stepW sv w)\<lparr>w_view := v\<rparr>"
    then show ?thesis using st assms(3) by (auto simp: wfWorld_def uncommitted_def)
  qed
qed

lemma steady_reads [steady_intros]:
  assumes "lawful sv" "stable sv B"
  shows "steady B (queryW sv g)" "steady B (askW sv h)" "steady B (answerW sv k)" "steady B (sessionW sv)"
    "steady B (runStmt sv (\<lambda>n cat. Inr (l n, cat)))"
  unfolding queryW_def askW_def sessionW_def answerW_def
  using assms by (auto intro!: steady_stmt split: sum.splits option.splits)

lemma steady_exec [steady_intros]:
  assumes "lawful sv" "stable sv B" "\<And>cat cat'. f cat = Inr cat' \<Longrightarrow> wfCatalog cat \<Longrightarrow> wfCatalog cat'"
  shows "steady B (execW sv f)"
  unfolding execW_def using assms by (auto intro!: steady_stmt split: sum.splits)

lemma steady_reading [steady_intros]:
  assumes "lawful sv" "stable sv B"
  shows "steady B (setSession sv)" "steady B (confirmTableLock sv lock)" "steady B (confirmWriteFence sv built)"
    "steady B (gateConfirmRelations sv built)" "steady B (confirmFingerprints sv built m m')" "steady B (confirmFidelity sv built)"
    "steady B (verifyIdentityDefaults sv x ids)" "steady B (confirmIdentities sv built m)" "steady B (pairStatistics sv built)"
    "steady B (confirmNamesFree sv built ix st es)" "steady B (readSequenceGrantsOf sv s name)" "steady B (identitySequenceOf sv s t c)"
  unfolding setSession_def confirmTableLock_def confirmWriteFence_def gateConfirmRelations_def confirmFingerprints_def confirmFidelity_def
    verifyIdentityDefaults_def confirmIdentities_def pairStatistics_def confirmNamesFree_def readSequenceGrantsOf_def identitySequenceOf_def
  using assms by (auto intro!: steady_intros split: option.splits)

lemma steady_lock [steady_intros]:
  assumes "lawful sv" "stable sv B"
  shows "steady B (lockForSwap sv built)"
proof -
  have "steady B (\<lambda>w. (Inr (), w\<lparr>w_locks := oids\<rparr>))" for oids
    by (auto simp: steady_def wfWorld_def uncommitted_def)
  then show ?thesis unfolding lockForSwap_def using assms by (intro steady_bind steady_reads)
qed

lemma steady_writes [steady_intros]:
  assumes "lawful sv" "stable sv B"
  shows "steady B (gateCutoverTx sv built verified)" "steady B (confirmSwap sv ready ids)" "steady B (renameForSwap sv ready)"
    "steady B (carryGrants sv s old new)"
  unfolding gateCutoverTx_def confirmSwap_def renameForSwap_def carryGrants_def changeGrants_def Let_def
  using assms by (auto intro!: steady_intros elim: keeps_wf simp: keeps_wf split: sum.splits)

lemma steady_handOff [steady_intros]:
  assumes "lawful sv" "stable sv B"
  shows "steady B (handOffIdentity sv s live c)"
proof -
  have "steady B (runStmt sv (\<lambda>n cat. case addIdentity (cs_newSequence sv n cat) s live d cat of Inl e \<Rightarrow> Inl e | Inr cat' \<Rightarrow> Inr ((), cat')))" for d
    using assms by (intro steady_stmt) (auto split: sum.splits intro: addIdentity_wf)
  then show ?thesis unfolding handOffIdentity_def Let_def using assms by (auto intro!: steady_intros elim: keeps_wf)
qed

lemma steady_swapInTx [steady_intros]:
  assumes "lawful sv" "stable sv B"
  shows "steady B (handOffSequences sv ready)" "steady B (swapInTx sv lock ready drain fence)"
proof -
  have all: "steady B (handOffIdentities sv s live cs)" for s live cs
    using assms by (induction cs) (auto intro!: steady_intros)
  show seqs: "steady B (handOffSequences sv ready)" for ready
    unfolding handOffSequences_def Let_def using assms all by (auto intro!: steady_intros elim: keeps_wf)
  show "steady B (swapInTx sv lock ready drain fence)"
    unfolding swapInTx_def Let_def using assms seqs by (auto intro!: steady_intros split: option.splits)
qed

lemma steady_begin [steady_intros]:
  assumes "lawful sv" "stable sv B"
  shows "steady B (beginTx sv mode)"
  unfolding steady_def
proof (intro allI impI)
  fix w r w' assume "beginTx sv mode w = (r, w')" "wfWorld w" "w_deciding w = None" "B (w_base w)"
  then show "wfWorld w' \<and> B (w_base w') \<and> w_log w' = w_log w \<and> uncommitted r w'"
    using steady_step [OF assms, of w] by (auto simp: beginTx_def Let_def wfWorld_def uncommitted_def split: option.splits)
qed

lemma steady_readSwapped [steady_intros]:
  assumes "lawful sv" "stable sv B"
  shows "steady B (readSwappedTable sv p)"
proof -
  have "steady B (\<lambda>w. if held \<or> b w then refuseW c w else returnW () w)" for held b c
    by (auto simp: steady_def refuseW_def failW_def returnW_def uncommitted_def)
  then have "steady B (refuseSwapInFlight sv p)" unfolding refuseSwapInFlight_def using assms by (auto intro!: steady_intros)
  moreover have "steady B (confirmLive sv p)" "steady B (confirmOld sv p)" "steady B (confirmOwner sv p x y)" for x y
    unfolding confirmLive_def confirmOld_def confirmSourceGone_def confirmOwner_def
    using assms by (auto intro!: steady_intros split: option.splits)
  ultimately show ?thesis unfolding readSwappedTable_def Let_def using assms by (auto intro!: steady_intros)
qed

lemma steady_readOutcome [steady_intros]:
  assumes "lawful sv" "stable sv B"
  shows "steady B (readOnly sv mode m) \<or> \<not> steady B m" "steady B (readOutcome sv p)"
proof -
  show "steady B (readOnly sv mode m) \<or> \<not> steady B m"
    unfolding readOnly_def using assms by (auto intro!: steady_intros)
  show "steady B (readOutcome sv p)"
    unfolding readOutcome_def readOnly_def using assms by (auto intro!: steady_intros)
qed

section \<open>One attempt\<close>

lemma readyToCommit_step:
  assumes "lawful sv" "readyToCommit built w"
  shows "readyToCommit built (stepW sv w)"
proof -
  obtain locks where l: "inTx locks w" "bs_SourceOID built \<in> set locks" "bs_ShadowOID built \<in> set locks" "liveRow built (w_view w)" "oldRow built (w_view w)"
    using assms(2) by (auto simp: readyToCommit_def)
  have "survives sv locks (liveRow built)" "survives sv locks (oldRow built)" using survives_rows(2) [OF assms(1)] l(2,3) by blast+
  then have "liveRow built (w_view (stepW sv w))" "oldRow built (w_view (stepW sv w))"
    using l inTx_step(2) [OF assms(1) l(1)] by (simp_all add: survives_def inTx_def)
  then show ?thesis using l inTx_step(1) [OF assms(1) l(1)] by (auto simp: readyToCommit_def)
qed

lemma commitTx_cases:
  assumes "commitTx sv w = (r, w')"
  shows "(r = Inr () \<and> w' = (stepW sv w)\<lparr>w_base := w_view (stepW sv w), w_locks := [], w_log := w_log (stepW sv w) @ [w_view (stepW sv w)]\<rparr>)
    \<or> (\<exists>e c. r = Inl e \<and> w' = abandon e c (stepW sv w))"
  using assms unfolding commitTx_def Let_def by (auto split: option.splits)

definition attemptEnds :: "BuiltShadow \<Rightarrow> (pgCatalog \<Rightarrow> bool) \<Rightarrow> world \<Rightarrow> cut_error + SwappedTable \<Rightarrow> bool \<Rightarrow> world \<Rightarrow> bool" where
  "attemptEnds built B w r followed w' \<longleftrightarrow> wfWorld w' \<and>
     (case r of
        Inr s \<Rightarrow> w_deciding w' = None \<and> w_log w' = w_log w @ [w_base w'] \<and> liveRow built (w_base w') \<and> oldRow built (w_base w') \<and> describes built s
      | Inl e \<Rightarrow> w_log w' = w_log w \<and> B (w_base w')
          \<and> (case w_deciding w' of None \<Rightarrow> True
             | Some (v, l, c) \<Rightarrow> unheard e \<and> (c \<longrightarrow> followed \<and> liveRow built v \<and> oldRow built v)))"

lemma wfWorld_locks [simp]: "wfWorld (w\<lparr>w_locks := x\<rparr>) = wfWorld w"
  by (simp add: wfWorld_def)

lemma attemptEnds_locks [simp]: "attemptEnds built B w r followed (w'\<lparr>w_locks := x\<rparr>) = attemptEnds built B w r followed w'"
  by (simp add: attemptEnds_def wfWorld_def split: sum.splits)

lemma uncommitted_Inl [simp]:
  "uncommitted (Inl e) w \<longleftrightarrow> (case w_deciding w of None \<Rightarrow> True | Some (v, l, c) \<Rightarrow> \<not> c \<and> unheard e)"
  by (simp add: uncommitted_def split: option.splits)

lemma uncommitted_ends:
  assumes "wfWorld w'" "B (w_base w')" "w_log w' = w_log w"
    and "case w_deciding w' of None \<Rightarrow> True | Some (v, l, c) \<Rightarrow> \<not> c \<and> unheard e"
  shows "attemptEnds built B w (Inl e) followed w'"
  using assms by (auto simp: attemptEnds_def uncommitted_def split: option.splits)

lemma commit_ends:
  assumes "lawful sv" "stable sv B" "wfWorld w" "w_deciding w = None" "B (w_base w)" "readyToCommit built w" "describes built s"
    and "bindW (commitTx sv) (\<lambda>_. returnW s) w = (r, w')"
  shows "attemptEnds built B w r True w'"
proof -
  let ?w = "stepW sv w"
  note st = steady_step [OF assms(1-5)]
  have rd: "liveRow built (w_view ?w)" "oldRow built (w_view ?w)" "wfCatalog (w_view ?w)"
    using readyToCommit_step [OF assms(1,6)] by (auto simp: readyToCommit_def inTx_def)
  obtain r1 where c: "commitTx sv w = (r1, w')" and r: "r = (case r1 of Inl e \<Rightarrow> Inl e | Inr _ \<Rightarrow> Inr s)"
    using assms(8) by (auto simp: bindW_def returnW_def split: prod.splits sum.splits)
  from commitTx_cases [OF c] show ?thesis
  proof (elim disjE exE conjE)
    assume "r1 = Inr ()" "w' = ?w\<lparr>w_base := w_view ?w, w_locks := [], w_log := w_log ?w @ [w_view ?w]\<rparr>"
    then show ?thesis using st rd assms(7) r by (simp add: attemptEnds_def wfWorld_def)
  next
    fix e c assume "r1 = Inl e" "w' = abandon e c ?w"
    then show ?thesis using st rd r by (simp add: attemptEnds_def abandon_def wfWorld_def)
  qed
qed

lemma swapOnce_ends:
  assumes "lawful sv" "stable sv B" "wfWorld w" "w_deciding w = None" "B (w_base w)"
    and "swapOnce sv lock ready drain fence w = (r, backend, w')"
  shows "attemptEnds (cr_built ready) B w r (backend \<noteq> None) w'"
proof -
  obtain r1 w1 where b: "beginTx sv WritingTx w = (r1, w1)" by fastforce
  have s1: "wfWorld w1 \<and> B (w_base w1) \<and> w_log w1 = w_log w \<and> uncommitted r1 w1"
    using steady_begin [OF assms(1,2)] b assms(3-5) unfolding steady_def by blast
  show ?thesis
  proof (cases r1)
    case (Inl e)
    then show ?thesis using assms(6) b s1 uncommitted_ends [of w1 B w e] by (simp add: swapOnce_def)
  next
    case (Inr u)
    have w1: "w_deciding w1 = None" using s1 Inr by (auto simp: uncommitted_def split: option.splits)
    have tx1: "inTx [] w1" using b Inr s1 w1 by (auto simp: beginTx_def Let_def inTx_def wfWorld_def split: option.splits)
    let ?pid = "runStmt sv (\<lambda>n cat. Inr (cs_pid sv n, cat))"
    obtain r2 w2 where p: "?pid w1 = (r2, w2)" by fastforce
    have s2: "wfWorld w2 \<and> B (w_base w2) \<and> w_log w2 = w_log w \<and> uncommitted r2 w2"
      using steady_reads(5) [OF assms(1,2)] p s1 w1 unfolding steady_def by metis
    show ?thesis
    proof (cases r2)
      case (Inl e)
      then show ?thesis using assms(6) b p s2 \<open>r1 = Inr u\<close> uncommitted_ends [of w2 B w e] by (auto simp: swapOnce_def)
    next
      case (Inr pid)
      have w2: "w_deciding w2 = None" using s2 Inr by (auto simp: uncommitted_def split: option.splits)
      have tx2: "inTx [] w2"
        by (rule validD [OF keeps_valid [OF keeps_reads(5) [OF assms(1) survives_True]] tx1 p [unfolded Inr]])
      let ?body = "swapInTx sv lock ready drain fence"
      obtain r3 w3 where m: "?body w2 = (r3, w3)" by fastforce
      have s3: "wfWorld w3 \<and> B (w_base w3) \<and> w_log w3 = w_log w \<and> uncommitted r3 w3"
        using steady_swapInTx(2) [OF assms(1,2)] m s2 w2 unfolding steady_def by metis
      show ?thesis
      proof (cases r3)
        case (Inl e)
        then show ?thesis using assms(6) b p m s3 \<open>r1 = Inr u\<close> \<open>r2 = Inr pid\<close> uncommitted_ends [of w3 B w e]
          by (auto simp: swapOnce_def bindW_def)
      next
        case (Inr s)
        have w3: "w_deciding w3 = None" using s3 Inr by (auto simp: uncommitted_def split: option.splits)
        have rd: "readyToCommit (cr_built ready) w3 \<and> describes (cr_built ready) s"
          by (rule validD [OF swapInTx_valid [OF assms(1)] tx2 m [unfolded Inr]])
        obtain r4 w4 where c: "bindW (commitTx sv) (\<lambda>_. returnW s) w3 = (r4, w4)" by fastforce
        have "attemptEnds (cr_built ready) B w3 r4 True w4"
          using commit_ends [OF assms(1,2) _ w3 _ _ _ c] s3 rd by blast
        moreover have "r = r4" "backend = Some pid" "w' = w4\<lparr>w_locks := []\<rparr>"
          using assms(6) b p m c Inr \<open>r1 = Inr u\<close> \<open>r2 = Inr pid\<close> by (auto simp: swapOnce_def bindW_def [of ?body])
        ultimately show ?thesis using s3 by (simp add: attemptEnds_def split: sum.splits)
      qed
    qed
  qed
qed

text \<open>
  C21: A committed swap is the one that was confirmed. When an attempt reports success, the committed catalog
  has the shadow under the source's name and the source under its derived name, by OID, whatever other
  sessions did between its statements: what they could change is limited only by the locks the attempt
  took, and everything it checked before them it checked again under them.
\<close>
theorem swap_commits_confirmed:
  assumes "lawful sv" "wfWorld w" "w_deciding w = None" "swapOnce sv lock ready drain fence w = (Inr swapped, backend, w')"
  defines "built \<equiv> cr_built ready"
  shows "lookupRelation (w_base w') (bs_Schema built) (bs_SourceTable built) = Some (bs_ShadowOID built)
    \<and> lookupRelation (w_base w') (bs_Schema built) (OldName (bs_Schema built) (bs_SourceTable built)) = Some (bs_SourceOID built)
    \<and> sw_liveOID swapped = bs_ShadowOID built \<and> sw_oldOID swapped = bs_SourceOID built \<and> w_log w' = w_log w @ [w_base w']"
proof -
  have "attemptEnds built (\<lambda>_. True) w (Inr swapped) (backend \<noteq> None) w'"
    unfolding built_def using assms by (intro swapOnce_ends) (auto simp: stable_def)
  then show ?thesis by (simp add: attemptEnds_def describes_def wfWorld_def rowOf_lookup)
qed

section \<open>Errors that are the engine's own\<close>

definition raises :: "(cut_error \<Rightarrow> bool) \<Rightarrow> 'a txn \<Rightarrow> bool" where
  "raises X m \<longleftrightarrow> (\<forall>w e w'. m w = (Inl e, w') \<longrightarrow> X e)"

named_theorems raises_intros \<open>where the errors of a transaction come from\<close>

lemma raises_bind [raises_intros]: "raises X m \<Longrightarrow> (\<And>a. raises X (f a)) \<Longrightarrow> raises X (bindW m f)"
  unfolding raises_def bindW_def by (fastforce split: prod.splits sum.splits)

lemma raises_unit [raises_intros]: "raises X (returnW a)" "X e \<Longrightarrow> raises X (failW e)" "X (CutRefusal c []) \<Longrightarrow> raises X (refuseW c)"
  by (simp_all add: raises_def returnW_def failW_def refuseW_def)

lemma raises_if [raises_intros]: "raises X m \<Longrightarrow> raises X m' \<Longrightarrow> raises X (if b then m else m')"
  by simp

lemma raises_forW [raises_intros]: "(\<And>x. raises X (f x)) \<Longrightarrow> raises X (forW f xs)"
  by (induction xs) (auto intro: raises_intros)

lemma raises_stmt:
  assumes "\<And>n e. cs_answer sv n = Some e \<Longrightarrow> X e" "\<And>n cat e. f n cat = Inl e \<Longrightarrow> X e"
  shows "raises X (runStmt sv f)"
  using assms unfolding raises_def runStmt_def Let_def by (auto split: option.splits sum.splits)

text \<open>
  Nothing outside the engine reports its verdicts: what a statement answers is an error of the driver, bare, and neither a
  drain, a wait nor the shape check marks its error as a roll-back.
\<close>

fun bareAnswer :: "cut_error \<Rightarrow> bool" where
  "bareAnswer (CutPg code) = True"
| "bareAnswer (CutOther m) = True"
| "bareAnswer CutNoRows = True"
| "bareAnswer e = unheard e"

definition ownVerdicts :: "cut_server \<Rightarrow> drain option \<Rightarrow> bool" where
  "ownVerdicts sv drain \<longleftrightarrow>
     (\<forall>n e. cs_answer sv n = Some e \<longrightarrow> bareAnswer e)
     \<and> (\<forall>n d e. cs_sleep sv n d = Some e \<longrightarrow> \<not> isRolledBack e) \<and> (\<forall>n e. cs_shape sv n = Some e \<longrightarrow> \<not> isRolledBack e)
     \<and> (\<forall>f n e. drain = Some f \<longrightarrow> f n = Some e \<longrightarrow> \<not> isRolledBack e)"

lemma bareAnswer_bare: "bareAnswer e \<Longrightarrow> \<not> isRolledBack e \<and> \<not> errorIs CutNotSwapped e"
  by (cases e) (auto simp: isRolledBack_def errorIs_def)

lemma unheard_unknown: "unheard e \<Longrightarrow> outcomeUnknown e"
  by (cases e) (auto simp: outcomeUnknown_def connectionLost_def contextEnded_def errorIs_def pgErrorCode_def codeAdminShutdown_def
      codeCrashShutdown_def classConnectionException_def)

lemma errorTrees_set: "set (errorTrees es) = (\<Union>e \<in> set es. set (errorTree e))"
  by (induction es) auto

lemma isRolledBack_simps [simp]:
  "isRolledBack (CutRefusal c es) \<longleftrightarrow> (\<exists>e \<in> set es. isRolledBack e)" "isRolledBack (CutJoined es) \<longleftrightarrow> (\<exists>e \<in> set es. isRolledBack e)"
  "isRolledBack (CutRolledBack e)" "isRolledBack (CutRetriesExhausted e) \<longleftrightarrow> isRolledBack e"
  "\<not> isRolledBack (CutPg code)" "\<not> isRolledBack CutNoRows" "\<not> isRolledBack CutLockNotHeld" "\<not> isRolledBack CutLockHeldElsewhere"
  "\<not> isRolledBack CutLockLost" "\<not> isRolledBack (CutOther msg)" "\<not> isRolledBack CutNotSwapped" "\<not> isRolledBack CutOldTableNotFound"
  "\<not> isRolledBack CutInvalidOptions"
  by (auto simp: isRolledBack_def errorTrees_set)

abbreviation notRolledBack :: "cut_error \<Rightarrow> bool" where
  "notRolledBack e \<equiv> \<not> isRolledBack e"

lemma statement_errors:
  "resolveRelation s n cat = Inl e \<Longrightarrow> notRolledBack e" "readOwner x cat = Inl e \<Longrightarrow> notRolledBack e"
  "renameTable s old new cat = Inl e \<Longrightarrow> notRolledBack e" "renameSequence s old new cat = Inl e \<Longrightarrow> notRolledBack e"
  "renameIndex s old new cat = Inl e \<Longrightarrow> notRolledBack e" "renameStatistics s old new cat = Inl e \<Longrightarrow> notRolledBack e"
  "reownSequence q s live cat = Inl e \<Longrightarrow> notRolledBack e" "dropColumnDefault s t c cat = Inl e \<Longrightarrow> notRolledBack e"
  "addIdentity ns s t d cat = Inl e \<Longrightarrow> notRolledBack e" "sequenceNamed s n cat = Inl e \<Longrightarrow> notRolledBack e"
  by (auto simp: resolveRelation_def readOwner_def renameTable_def renameSequence_def renameRelation_def renameIndex_def renameConstraintOf_def
      renameStatistics_def reownSequence_def dropColumnDefault_def addIdentity_def sequenceNamed_def Let_def
      split: option.splits if_splits sum.splits)

lemma identityRows_error: "identityRows cat cs = Inl e \<Longrightarrow> notRolledBack e"
  by (induction cs) (auto split: option.splits sum.splits prod.splits)

lemma read_errors:
  "setval s n v c cat = Inl e \<Longrightarrow> notRolledBack e" "readIdentityTypes qs q s l col cat = Inl e \<Longrightarrow> notRolledBack e"
  "readIdentityColumns x cat = Inl e \<Longrightarrow> notRolledBack e" "identityDefault x d cat = Inl e \<Longrightarrow> notRolledBack e"
  by (auto simp: setval_def readIdentityTypes_def readIdentityColumns_def identityDefault_def Let_def identityRows_error statement_errors
      split: option.splits if_splits sum.splits)

lemmas own_errors = statement_errors read_errors

lemma raises_reads [raises_intros]:
  assumes "\<And>n e. cs_answer sv n = Some e \<Longrightarrow> X e"
  shows "(\<And>cat e. g cat = Inl e \<Longrightarrow> X e) \<Longrightarrow> raises X (queryW sv g)" "raises X (askW sv h)"
    "(\<And>n e. k n = Some e \<Longrightarrow> X e) \<Longrightarrow> raises X (answerW sv k)" "raises X (sessionW sv)"
    "raises X (runStmt sv (\<lambda>n cat. Inr (l n, cat)))" "(\<And>cat e. f cat = Inl e \<Longrightarrow> X e) \<Longrightarrow> raises X (execW sv f)"
  unfolding queryW_def askW_def sessionW_def answerW_def execW_def
  using assms by (auto intro!: raises_stmt split: sum.splits option.splits)

lemma raises_swapInTx:
  assumes "ownVerdicts sv drain"
  shows "raises notRolledBack (swapInTx sv lock ready drain fence)"
proof -
  have a: "\<And>n e. cs_answer sv n = Some e \<Longrightarrow> notRolledBack e" using assms bareAnswer_bare by (auto simp: ownVerdicts_def)
  have d: "\<And>f n e. drain = Some f \<Longrightarrow> f n = Some e \<Longrightarrow> notRolledBack e" "\<And>n e. cs_shape sv n = Some e \<Longrightarrow> notRolledBack e"
    using assms by (auto simp: ownVerdicts_def)
  have lock: "raises notRolledBack (lockForSwap sv built)" for built
    unfolding lockForSwap_def using a by (auto intro!: raises_intros simp: raises_def [of _ "\<lambda>w. (Inr (), w\<lparr>w_locks := _\<rparr>)"] split: option.splits)
  have gate: "raises notRolledBack (gateCutoverTx sv built v)" for built v
    unfolding gateCutoverTx_def gateConfirmRelations_def confirmFingerprints_def confirmFidelity_def confirmIdentities_def
      verifyIdentityDefaults_def pairStatistics_def confirmNamesFree_def Let_def
    using a by (auto intro!: raises_intros dest: own_errors)
  have rename: "raises notRolledBack (renameForSwap sv fresh)" for fresh
    unfolding renameForSwap_def Let_def using a by (auto intro!: raises_intros dest: own_errors)
  have grants: "raises notRolledBack (carryGrants sv s old new)" for s old new
    unfolding carryGrants_def readSequenceGrantsOf_def changeGrants_def using a
    by (auto intro!: raises_intros dest: own_errors split: sum.splits)
  have identity: "raises notRolledBack (handOffIdentity sv s live c)" for s live c
    unfolding handOffIdentity_def identitySequenceOf_def Let_def using a grants
    by (auto intro!: raises_intros raises_stmt dest: own_errors split: sum.splits option.splits)
  have all: "raises notRolledBack (handOffIdentities sv s live cs)" for s live cs
    by (induction cs) (use identity in \<open>auto intro!: raises_intros\<close>)
  have "raises notRolledBack (handOffSequences sv fresh)" for fresh
    unfolding handOffSequences_def Let_def using a all by (auto intro!: raises_intros dest: own_errors)
  moreover have "raises notRolledBack (confirmSwap sv fresh ids)" for fresh ids
    unfolding confirmSwap_def Let_def using a by (auto intro!: raises_intros dest: own_errors)
  ultimately show ?thesis
    unfolding swapInTx_def setSession_def confirmTableLock_def confirmWriteFence_def Let_def using a d lock gate rename
    by (auto intro!: raises_intros split: option.splits)
qed

section \<open>Reading the outcome\<close>

definition midRead :: "world \<Rightarrow> bool" where
  "midRead w \<longleftrightarrow> wfWorld w \<and> w_deciding w = None \<and> w_mode w = ReadingTx \<and> w_view w = w_base w"

abbreviation readsWith :: "(pgCatalog \<Rightarrow> bool) \<Rightarrow> world \<Rightarrow> bool" where
  "readsWith B w \<equiv> midRead w \<and> B (w_base w)"

lemma reads_stmt:
  assumes "lawful sv" "stable sv B" "\<And>n cat a v. f n cat = Inr (a, v) \<Longrightarrow> v = cat \<and> K a cat"
  shows "valid (readsWith B) (runStmt sv f) (\<lambda>a w. readsWith B w \<and> K a (w_base w))"
  unfolding valid_def
proof (intro allI impI)
  fix w a w' assume pre: "readsWith B w" and run: "runStmt sv f w = (Inr a, w')"
  let ?w = "stepW sv w"
  have none: "w_deciding w = None" and mode: "w_mode w = ReadingTx" and wf: "wfWorld w" and B: "B (w_base w)" using pre by (auto simp: midRead_def)
  note st = steady_step [OF assms(1,2) wf none B]
  have view: "w_view ?w = w_base ?w" "w_mode ?w = ReadingTx" using stepW_None [OF none, of sv] mode by simp_all
  from runStmt_cases [OF run] obtain v where f: "f (w_tick w) (w_view ?w) = Inr (a, v)" and w': "w' = ?w\<lparr>w_view := v\<rparr>" by auto
  have "v = w_view ?w" "K a (w_view ?w)" using assms(3) [OF f] by simp_all
  then show "readsWith B w' \<and> K a (w_base w')" using st view w' by (simp add: midRead_def wfWorld_def)
qed

lemma reads_query:
  assumes "lawful sv" "stable sv B"
  shows "valid (readsWith B) (queryW sv g) (\<lambda>_. readsWith B)" "valid (readsWith B) (askW sv h) (\<lambda>a w. readsWith B w \<and> a = h (w_base w))"
    "valid (readsWith B) (sessionW sv) (\<lambda>_. readsWith B)" "valid (readsWith B) (runStmt sv (\<lambda>n cat. Inr (l n, cat))) (\<lambda>_. readsWith B)"
proof -
  have plain: "valid (readsWith B) (runStmt sv f) (\<lambda>_. readsWith B)" if "\<And>n cat a v. f n cat = Inr (a, v) \<Longrightarrow> v = cat"
    for f :: "nat \<Rightarrow> pgCatalog \<Rightarrow> cut_error + 'z \<times> pgCatalog"
    using reads_stmt [OF assms, where f = f and K = "\<lambda>_ _. True"] that by simp
  show "valid (readsWith B) (queryW sv g) (\<lambda>_. readsWith B)"
    unfolding queryW_def by (rule plain) (auto split: sum.splits)
  show "valid (readsWith B) (askW sv h) (\<lambda>a w. readsWith B w \<and> a = h (w_base w))"
    unfolding askW_def by (rule reads_stmt [OF assms]) simp
  show "valid (readsWith B) (sessionW sv) (\<lambda>_. readsWith B)"
    unfolding sessionW_def answerW_def by (rule plain) (auto split: option.splits)
  show "valid (readsWith B) (runStmt sv (\<lambda>n cat. Inr (l n, cat))) (\<lambda>_. readsWith B)"
    by (rule plain) auto
qed

lemma refuseSwapInFlight_reads: "lawful sv \<Longrightarrow> stable sv B \<Longrightarrow> valid (readsWith B) (refuseSwapInFlight sv p) (\<lambda>_. readsWith B)"
  unfolding refuseSwapInFlight_def
  by (rule valid_bind [OF reads_query(4)]) (auto simp: valid_def refuseW_def failW_def returnW_def split: if_splits)

lemma midRead_wf: "midRead w \<Longrightarrow> wfCatalog (w_base w)"
  by (simp add: midRead_def wfWorld_def)

text \<open>While the source bears its name the outcome is never read as a swap, and while the shadow does it is never read as none.\<close>

lemma readSwappedTable_needs_live:
  assumes "lawful sv" "stable sv B" "\<And>cat. wfCatalog cat \<Longrightarrow> B cat \<Longrightarrow> lookupRelation cat (pf_Schema p) (pf_SourceTable p) = Some (pf_SourceOID p)"
  shows "valid (readsWith B) (readSwappedTable sv p) (\<lambda>_ _. False)"
proof -
  have "valid (readsWith B) (confirmLive sv p) (\<lambda>_ _. False)"
    unfolding confirmLive_def by (rule valid_bind [OF reads_query(2) [OF assms(1,2)]])
      (auto simp: valid_def refuseW_def failW_def returnW_def midRead_wf assms(3) split: option.splits if_splits)
  then show ?thesis unfolding readSwappedTable_def Let_def
    by (intro valid_bind [OF refuseSwapInFlight_reads [OF assms(1,2)]] valid_bind [where Q = "\<lambda>_ _. False"]) (simp_all add: valid_def)
qed

lemma errs_bind:
  assumes "\<And>w e w'. P w \<Longrightarrow> m w = (Inl e, w') \<Longrightarrow> X e" "valid P m Q" "\<And>a w e w'. Q a w \<Longrightarrow> f a w = (Inl e, w') \<Longrightarrow> X e"
    and "P w" "bindW m f w = (Inl e, w')"
  shows "X e"
proof (cases "m w")
  case (Pair r w1)
  then show ?thesis using assms(5) assms(1) [OF assms(4)] assms(3) validD [OF assms(2,4)]
    by (cases r) (auto simp: bindW_def)
qed

abbreviation notUnswapped :: "cut_error \<Rightarrow> bool" where
  "notUnswapped e \<equiv> \<not> errorIs CutNotSwapped e"

lemma notUnswapped_simps [simp]:
  "notUnswapped (CutRefusal c [])" "notUnswapped CutNoRows" "notUnswapped CutOldTableNotFound" "notUnswapped (CutPg code)"
  by (simp_all add: errorIs_def)

lemma raises_rest:
  assumes "\<And>n e. cs_answer sv n = Some e \<Longrightarrow> notUnswapped e"
  shows "raises notUnswapped (refuseSwapInFlight sv p)" "raises notUnswapped (confirmOld sv p)" "raises notUnswapped (confirmOwner sv p x y)"
    "raises notUnswapped (queryW sv (readIdentityColumns x))" "raises notUnswapped (liftW (confirmHandoff p ids))"
proof -
  have flight: "raises notUnswapped (\<lambda>w. if held \<or> b w then refuseW ShOutcomeAmbiguous w else returnW () w)" for held b
    by (simp add: raises_def refuseW_def failW_def returnW_def)
  show "raises notUnswapped (refuseSwapInFlight sv p)"
    unfolding refuseSwapInFlight_def using assms flight by (intro raises_bind raises_reads(5)) auto
  show "raises notUnswapped (confirmOld sv p)"
    unfolding confirmOld_def confirmSourceGone_def using assms by (auto intro!: raises_intros split: option.splits)
  show "raises notUnswapped (confirmOwner sv p x y)"
    unfolding confirmOwner_def using assms by (auto intro!: raises_intros simp: readOwner_def split: option.splits)
  have "identityRows cat cs = Inl e \<Longrightarrow> notUnswapped e" for cat cs e
    by (induction cs) (auto split: option.splits sum.splits prod.splits)
  then show "raises notUnswapped (queryW sv (readIdentityColumns x))"
    using assms by (auto intro!: raises_intros simp: readIdentityColumns_def)
  show "raises notUnswapped (liftW (confirmHandoff p ids))"
    by (simp add: liftW_def confirmHandoff_def raises_intros)
qed

lemma readSwappedTable_sees_swap:
  assumes "lawful sv" "stable sv B" "\<And>n e. cs_answer sv n = Some e \<Longrightarrow> notUnswapped e"
    and "\<And>cat. wfCatalog cat \<Longrightarrow> B cat \<Longrightarrow> lookupRelation cat (pf_Schema p) (pf_SourceTable p) = Some (pf_ShadowOID p)"
    and "pf_SourceOID p \<noteq> pf_ShadowOID p" "readsWith B w" "readSwappedTable sv p w = (Inl e, w')"
  shows "notUnswapped e"
proof (rule errs_bind [where P = "readsWith B" and Q = "\<lambda>_. readsWith B", OF _ refuseSwapInFlight_reads [OF assms(1,2)] _ assms(6)
      assms(7) [unfolded readSwappedTable_def Let_def]])
  have "raises notUnswapped (refuseSwapInFlight sv p)" using assms(3) by (rule raises_rest(1))
  then show "notUnswapped e" if "refuseSwapInFlight sv p w = (Inl e, w')" for w e w'
    using that unfolding raises_def by blast
next
  fix w e w'
  let ?rest = "\<lambda>liveOID. bindW (confirmOld sv p) (\<lambda>oldOID. bindW (confirmOwner sv p liveOID oldOID) (\<lambda>_.
      bindW (askW sv (readIndexes liveOID)) (\<lambda>liveIndexes. bindW (askW sv (readIndexes oldOID)) (\<lambda>oldIndexes.
      bindW (askW sv (readStatistics liveOID)) (\<lambda>liveStatistics. bindW (askW sv (readStatistics oldOID)) (\<lambda>oldStatistics.
      bindW (askW sv (readOwnedSequences liveOID)) (\<lambda>sequences. bindW (queryW sv (readIdentityColumns liveOID)) (\<lambda>identities.
      bindW (liftW (confirmHandoff p identities)) (\<lambda>_.
      returnW \<lparr>sw_schema = pf_Schema p, sw_table = pf_SourceTable p, sw_liveOID = liveOID, sw_oldOID = oldOID, sw_owner = fs_Owner (pf_Fidelity p),
        sw_indexes = pairByDerivedName DependentIndex (pf_Schema p) (pf_SourceTable p) (map ie_name oldIndexes) (map ie_name liveIndexes),
        sw_statistics = pairByDerivedName DependentStatistics (pf_Schema p) (pf_SourceTable p) (map dp_name oldStatistics) (map dp_name liveStatistics),
        sw_sequences = sequences, sw_identities = identities, sw_attempts = 0\<rparr>)))))))))"
  assume pre: "readsWith B w" and run: "bindW (confirmLive sv p) ?rest w = (Inl e, w')"
  have live: "notUnswapped e" if "readsWith B w" "confirmLive sv p w = (Inl e, w')" for w e w'
  proof (rule errs_bind [where P = "readsWith B", OF _ reads_query(2) [OF assms(1,2)] _ that(1) that(2) [unfolded confirmLive_def]])
    have "raises notUnswapped (askW sv h)" for h :: "pgCatalog \<Rightarrow> oid option" using assms(3) by (rule raises_reads(2))
    then show "notUnswapped e" if "askW sv (\<lambda>cat. lookupRelation cat (pf_Schema p) (pf_SourceTable p)) w = (Inl e, w')" for w e w'
      using that unfolding raises_def by blast
  qed (auto simp: assms(4) midRead_wf assms(5) not_sym [OF assms(5)] refuseW_def failW_def returnW_def split: option.splits if_splits)
  have "raises notUnswapped (?rest x)" for x
    using assms(3) by (auto intro!: raises_intros raises_rest)
  then have "notUnswapped e" if "?rest x w = (Inl e, w')" for x w e w' using that unfolding raises_def by blast
  then show "notUnswapped e"
    using errs_bind [where P = "readsWith B" and m = "confirmLive sv p" and Q = "\<lambda>_ _. True" and X = notUnswapped, OF live _ _ pre run]
    by (simp add: valid_def)
qed

lemma begin_reads:
  assumes "lawful sv" "stable sv B" "wfWorld w" "w_deciding w = None" "B (w_base w)" "beginTx sv ReadingTx w = (Inr u, w')"
  shows "readsWith B w'"
  using steady_step [OF assms(1-5)] assms(6) by (auto simp: beginTx_def Let_def midRead_def wfWorld_def split: option.splits)

lemma readOutcome_reads:
  assumes "lawful sv" "stable sv B" "wfWorld w" "w_deciding w = None" "B (w_base w)" "readOutcome sv p w = (r, w')"
  shows "(\<And>cat. wfCatalog cat \<Longrightarrow> B cat \<Longrightarrow> lookupRelation cat (pf_Schema p) (pf_SourceTable p) = Some (pf_SourceOID p)) \<Longrightarrow> \<exists>e. r = Inl e"
    and "(\<And>n e. cs_answer sv n = Some e \<Longrightarrow> notUnswapped e) \<Longrightarrow>
      (\<And>cat. wfCatalog cat \<Longrightarrow> B cat \<Longrightarrow> lookupRelation cat (pf_Schema p) (pf_SourceTable p) = Some (pf_ShadowOID p)) \<Longrightarrow>
      pf_SourceOID p \<noteq> pf_ShadowOID p \<Longrightarrow> r = Inl e \<Longrightarrow> notUnswapped e"
proof -
  obtain r1 w1 where b: "beginTx sv ReadingTx w = (r1, w1)" by fastforce
  obtain r2 w2 where m: "readSwappedTable sv p w1 = (r2, w2)" by fastforce
  obtain r3 w3 where c: "sessionW sv w2 = (r3, w3)" by fastforce
  have r: "r = (case r1 of Inl e \<Rightarrow> Inl e | Inr _ \<Rightarrow> (case r2 of Inl e \<Rightarrow> Inl e | Inr s \<Rightarrow> (case r3 of Inl e \<Rightarrow> Inl e | Inr _ \<Rightarrow> Inr s)))"
    using assms(6) b m c by (auto simp: readOutcome_def readOnly_def bindW_def returnW_def split: sum.splits)
  have rd: "readsWith B w1" if "r1 = Inr u" for u using begin_reads [OF assms(1-5)] b that by blast
  show "\<exists>e. r = Inl e" if live: "\<And>cat. wfCatalog cat \<Longrightarrow> B cat \<Longrightarrow> lookupRelation cat (pf_Schema p) (pf_SourceTable p) = Some (pf_SourceOID p)"
    using readSwappedTable_needs_live [OF assms(1,2), of p] live rd m r unfolding valid_def by (cases r1; cases r2) auto
  assume h: "\<And>n e. cs_answer sv n = Some e \<Longrightarrow> notUnswapped e"
    and live: "\<And>cat. wfCatalog cat \<Longrightarrow> B cat \<Longrightarrow> lookupRelation cat (pf_Schema p) (pf_SourceTable p) = Some (pf_ShadowOID p)"
    and ne: "pf_SourceOID p \<noteq> pf_ShadowOID p" and e: "r = Inl e"
  have be: "notUnswapped e" if "beginTx sv ReadingTx w = (Inl e, w1)" for e
    using that h by (auto simp: beginTx_def Let_def split: option.splits)
  have ce: "notUnswapped e" if "sessionW sv w2 = (Inl e, w3)" for e
  proof -
    have "raises notUnswapped (sessionW sv)" using h by (rule raises_reads(4))
    then show ?thesis using that unfolding raises_def by blast
  qed
  show "notUnswapped e"
  proof (cases r1)
    case (Inl x)
    then show ?thesis using be b r e by simp
  next
    case (Inr u)
    then show ?thesis using r e c ce m rd readSwappedTable_sees_swap [OF assms(1,2) h live ne] by (auto split: sum.splits)
  qed
qed

section \<open>The answer of a cutover\<close>

text \<open>Other sessions leave the two tables alone: the locks apart, nobody renames or drops them while the cutover runs.\<close>

definition handsOff :: "cut_server \<Rightarrow> BuiltShadow \<Rightarrow> bool" where
  "handsOff sv built \<longleftrightarrow> (\<forall>n locks cat. wfCatalog cat \<longrightarrow>
     (\<forall>r \<in> set (ct_relations cat). rl_oid r = bs_SourceOID built \<or> rl_oid r = bs_ShadowOID built \<longrightarrow> r \<in> set (ct_relations (cs_others sv n locks cat))))"

abbreviation sourceRow :: "BuiltShadow \<Rightarrow> pgCatalog \<Rightarrow> bool" where
  "sourceRow built \<equiv> rowOf (bs_Schema built) (bs_SourceTable built) (bs_SourceOID built)"

lemma handsOff_stable:
  assumes "handsOff sv built"
  shows "stable sv (sourceRow built)" "stable sv (liveRow built)" "stable sv (oldRow built)" "stable sv (\<lambda>cat. liveRow built cat \<and> oldRow built cat)"
  using assms unfolding handsOff_def stable_def rowOf_def by meson+

text \<open>What is true of the world while the outcome is awaited: nothing committed yet, or the swap did.\<close>

definition undecided :: "BuiltShadow \<Rightarrow> world \<Rightarrow> world \<Rightarrow> bool" where
  "undecided built w0 w \<longleftrightarrow> w_log w = w_log w0 \<and> sourceRow built (w_base w)
     \<and> (case w_deciding w of None \<Rightarrow> True | Some (v, l, c) \<Rightarrow> c \<longrightarrow> liveRow built v \<and> oldRow built v)"

definition swappedIn :: "BuiltShadow \<Rightarrow> world \<Rightarrow> world \<Rightarrow> bool" where
  "swappedIn built w0 w \<longleftrightarrow> w_deciding w = None \<and> (\<exists>cat. w_log w = w_log w0 @ [cat]) \<and> liveRow built (w_base w) \<and> oldRow built (w_base w)"

lemma awaiting_step:
  assumes "lawful sv" "handsOff sv built" "wfWorld w" "undecided built w0 w \<or> swappedIn built w0 w"
  shows "wfWorld (stepW sv w)" "undecided built w0 (stepW sv w) \<or> swappedIn built w0 (stepW sv w)"
proof -
  let ?o = "cs_others sv (w_tick w) (heldLocks w)"
  have wf: "wfCatalog (?o (w_base w))" "wfCatalog (?o (w_view w))" using lawful_others(1) [OF assms(1)] assms(3) by (auto simp: wfWorld_def)
  have row: "rowOf s n x (?o cat)" if "wfCatalog cat" "rowOf s n x cat" "x = bs_SourceOID built \<or> x = bs_ShadowOID built" for s n x cat
    using that assms(2) unfolding handsOff_def rowOf_def by blast
  have base: "wfCatalog (w_base w)" using assms(3) by (simp add: wfWorld_def)
  have both: "wfWorld (stepW sv w) \<and> (undecided built w0 (stepW sv w) \<or> swappedIn built w0 (stepW sv w))"
  proof (cases "w_deciding w")
    case None
    have "wfWorld (stepW sv w)" using steady_step [OF assms(1) _ assms(3) None, of "\<lambda>_. True"] by (simp add: stable_def)
    moreover have "undecided built w0 (stepW sv w) \<or> swappedIn built w0 (stepW sv w)"
      using assms(4) None row [OF base] by (auto simp: undecided_def swappedIn_def stepW_None [OF None])
    ultimately show ?thesis by simp
  next
    case (Some d)
    obtain v l c where d: "d = (v, l, c)" by (cases d)
    have v: "wfCatalog (?o v)" using lawful_others(1) [OF assms(1)] assms(3) Some d by (auto simp: wfWorld_def)
    have vw: "wfCatalog v" using assms(3) Some d by (simp add: wfWorld_def)
    have u: "undecided built w0 w" using assms(4) Some by (simp add: swappedIn_def)
    then have vr: "liveRow built (?o v) \<and> oldRow built (?o v)" if c using that Some d row [OF vw] by (auto simp: undecided_def)
    have br: "sourceRow built (?o (w_base w))" using u row [OF base] by (auto simp: undecided_def)
    show ?thesis using u v vr br wf Some d assms(3)
      by (cases c; cases "cs_gone sv (w_tick w)"; cases "w_mode w") (simp_all add: stepW_def Let_def undecided_def swappedIn_def wfWorld_def)
  qed
  then show "wfWorld (stepW sv w)" "undecided built w0 (stepW sv w) \<or> swappedIn built w0 (stepW sv w)" by simp_all
qed

lemma await_ends:
  assumes "lawful sv" "handsOff sv built" "wfWorld w" "undecided built w0 w \<or> swappedIn built w0 w" "awaitBackendExit sv k w = (r, w')"
  shows "wfWorld w' \<and> (undecided built w0 w' \<or> swappedIn built w0 w') \<and> (is_ok r \<longrightarrow> w_deciding w' = None)"
  using assms(3-5)
proof (induction k arbitrary: w)
  case 0
  then show ?case by (auto simp: failW_def)
next
  case (Suc k)
  note st = awaiting_step [OF assms(1,2) Suc.prems(1,2)]
  show ?case using Suc.prems(3) Suc.IH [OF st] st by (auto simp: Let_def split: option.splits if_splits)
qed

lemma raises_await:
  assumes "ownVerdicts sv drain"
  shows "raises notRolledBack (awaitBackendExit sv k)"
proof (induction k)
  case 0
  then show ?case by (simp add: raises_intros)
next
  case (Suc k)
  then show ?case using assms bareAnswer_bare unfolding raises_def ownVerdicts_def by (auto simp: Let_def split: option.splits if_splits)
qed

lemma raises_readOutcome:
  assumes "ownVerdicts sv drain"
  shows "raises notRolledBack (readOutcome sv p)"
proof -
  have a: "\<And>n e. cs_answer sv n = Some e \<Longrightarrow> notRolledBack e" using assms bareAnswer_bare by (auto simp: ownVerdicts_def)
  have flight: "raises notRolledBack (\<lambda>w. if held \<or> b w then refuseW ShOutcomeAmbiguous w else returnW () w)" for held b
    by (simp add: raises_def refuseW_def failW_def returnW_def)
  have "raises notRolledBack (refuseSwapInFlight sv p)"
    unfolding refuseSwapInFlight_def using a flight by (intro raises_bind raises_reads(5)) auto
  moreover have "raises notRolledBack (beginTx sv ReadingTx)"
    using a by (auto simp: raises_def beginTx_def Let_def split: option.splits)
  moreover have "raises notRolledBack (liftW (confirmHandoff p ids))" for ids
    by (simp add: liftW_def confirmHandoff_def raises_intros)
  ultimately show ?thesis
    unfolding readOutcome_def readOnly_def readSwappedTable_def confirmLive_def confirmOld_def confirmSourceGone_def confirmOwner_def Let_def
    using a by (auto intro!: raises_intros dest: own_errors split: option.splits)
qed

definition answered :: "BuiltShadow \<Rightarrow> world \<Rightarrow> cut_error + SwappedTable \<Rightarrow> world \<Rightarrow> bool" where
  "answered built w0 r w \<longleftrightarrow> wfWorld w \<and>
     (case r of
        Inr _ \<Rightarrow> swappedIn built w0 w
      | Inl e \<Rightarrow> isRolledBack e \<longrightarrow> w_log w = w_log w0 \<and> sourceRow built (w_base w)
          \<and> (case w_deciding w of None \<Rightarrow> True | Some (_, _, c) \<Rightarrow> \<not> c))"

lemma uncommitted_simps:
  "uncommitted (Inr a) w \<longleftrightarrow> w_deciding w = None"
  "uncommitted r w \<Longrightarrow> (case w_deciding w of None \<Rightarrow> True | Some (_, _, c) \<Rightarrow> \<not> c)"
  by (auto simp: uncommitted_def split: option.splits)

lemma resolve_answers:
  assumes "lawful sv" "handsOff sv (cr_built ready)" "ownVerdicts sv drain" "bs_SourceOID (cr_built ready) \<noteq> bs_ShadowOID (cr_built ready)"
    and "wfWorld w" "undecided (cr_built ready) w0 w" "notRolledBack lost"
    and "backend = None \<Longrightarrow> (case w_deciding w of None \<Rightarrow> True | Some (_, _, c) \<Rightarrow> \<not> c)"
    and "resolveUnknownOutcome sv ready backend attempt lost opts w = (r, w')"
  shows "answered (cr_built ready) w0 r w'"
proof (cases backend)
  case None
  then show ?thesis using assms(5,6,8,9) by (auto simp: resolveUnknownOutcome_def failW_def answered_def undecided_def)
next
  case (Some pid)
  let ?built = "cr_built ready" and ?polls = "exitPolls (add64 (swapLockTimeout (co_Options opts)) (swapStatementTimeout (co_Options opts)))"
  obtain r1 w1 where aw: "awaitBackendExit sv ?polls w = (r1, w1)" by fastforce
  have a: "wfWorld w1" "undecided ?built w0 w1 \<or> swappedIn ?built w0 w1" "is_ok r1 \<Longrightarrow> w_deciding w1 = None"
    using await_ends [OF assms(1,2,5) _ aw] assms(6) by blast+
  show ?thesis
  proof (cases r1)
    case (Inl e)
    then have "notRolledBack e" using raises_await [OF assms(3)] aw unfolding raises_def by blast
    then show ?thesis using Inl Some aw assms(7,9) a(1) by (auto simp: resolveUnknownOutcome_def answered_def)
  next
    case (Inr u)
    then have none: "w_deciding w1 = None" using a(3) by simp
    obtain r2 where ro: "readOutcome sv (builtProof ?built) w1 = (r2, w')"
      and r: "r = (case r2 of Inr s \<Rightarrow> Inr (s\<lparr>sw_attempts := attempt\<rparr>) | Inl e \<Rightarrow> if errorIs CutNotSwapped e then Inl (rolledBack lost) else Inl (CutJoined [lost, e]))"
      using assms(9) Some aw Inr by (auto simp: resolveUnknownOutcome_def split: prod.splits sum.splits if_splits)
    have own: "notRolledBack e" if "r2 = Inl e" for e using raises_readOutcome [OF assms(3)] ro that unfolding raises_def by blast
    have ans: "\<And>n e. cs_answer sv n = Some e \<Longrightarrow> notUnswapped e" using assms(3) bareAnswer_bare by (auto simp: ownVerdicts_def)
    have proof_fields: "pf_Schema (builtProof ?built) = bs_Schema ?built" "pf_SourceTable (builtProof ?built) = bs_SourceTable ?built"
      "pf_SourceOID (builtProof ?built) = bs_SourceOID ?built" "pf_ShadowOID (builtProof ?built) = bs_ShadowOID ?built"
      by (simp_all add: builtProof_def)
    from a(2) show ?thesis
    proof
      assume u: "undecided ?built w0 w1"
      note B = handsOff_stable(1) [OF assms(2)]
      have src: "sourceRow ?built (w_base w1)" using u by (simp add: undecided_def)
      have s: "wfWorld w' \<and> sourceRow ?built (w_base w') \<and> w_log w' = w_log w1 \<and> uncommitted r2 w'"
        using steady_readOutcome(2) [OF assms(1) B] ro a(1) none src unfolding steady_def by blast
      have "\<exists>e. r2 = Inl e"
        using readOutcome_reads(1) [OF assms(1) B a(1) none src ro] by (simp add: proof_fields rowOf_lookup)
      then show ?thesis using s u r own assms(7) uncommitted_simps(2) [of r2 w'] by (auto simp: answered_def undecided_def rolledBack_def)
    next
      assume sw: "swappedIn ?built w0 w1"
      note B = handsOff_stable(4) [OF assms(2)]
      have rows: "liveRow ?built (w_base w1) \<and> oldRow ?built (w_base w1)" using sw by (simp add: swappedIn_def)
      have s: "wfWorld w' \<and> (liveRow ?built (w_base w') \<and> oldRow ?built (w_base w')) \<and> w_log w' = w_log w1 \<and> uncommitted r2 w'"
        using steady_readOutcome(2) [OF assms(1) B] ro a(1) none rows unfolding steady_def by blast
      have "notUnswapped e" if "r2 = Inl e" for e
        using readOutcome_reads(2) [OF assms(1) B a(1) none rows ro ans _ _ that] assms(4) by (simp add: proof_fields rowOf_lookup)
      then show ?thesis using s sw r own assms(7) by (auto simp: answered_def swappedIn_def uncommitted_simps(1) split: sum.splits)
    qed
  qed
qed

lemma swapOnce_raises:
  assumes "ownVerdicts sv drain" "swapOnce sv lock ready drain fence w = (Inl e, backend, w')"
  shows "notRolledBack e"
proof -
  have a: "\<And>n e. cs_answer sv n = Some e \<Longrightarrow> notRolledBack e" using assms(1) bareAnswer_bare by (auto simp: ownVerdicts_def)
  have starts: "raises notRolledBack (beginTx sv WritingTx)"
    using a by (auto simp: raises_def beginTx_def Let_def split: option.splits)
  have pid: "raises notRolledBack (runStmt sv (\<lambda>n cat. Inr (cs_pid sv n, cat)))" using a by (intro raises_stmt) auto
  have commit: "raises notRolledBack (commitTx sv)" using a by (auto simp: raises_def commitTx_def Let_def split: option.splits)
  have body: "raises notRolledBack (bindW (swapInTx sv lock ready drain fence) (\<lambda>swapped. bindW (commitTx sv) (\<lambda>_. returnW swapped)))"
    by (intro raises_intros raises_swapInTx commit assms(1))
  show ?thesis using assms(2) starts [unfolded raises_def, rule_format] pid [unfolded raises_def, rule_format] body [unfolded raises_def, rule_format]
    unfolding swapOnce_def by (auto split: prod.splits sum.splits)
qed

lemma cutoverLoop_answers:
  assumes "lawful sv" "handsOff sv (cr_built ready)" "ownVerdicts sv drain" "bs_SourceOID (cr_built ready) \<noteq> bs_ShadowOID (cr_built ready)"
    and "wfWorld w" "w_deciding w = None" "sourceRow (cr_built ready) (w_base w)" "w_log w = w_log w0"
    and "cutoverLoop sv lock ready drain opts left attempt prior w = (r, w')"
  shows "answered (cr_built ready) w0 r w'"
  using assms(5-9)
proof (induction left arbitrary: attempt prior w)
  case 0
  then show ?case by (auto simp: failW_def answered_def)
next
  case (Suc left)
  let ?built = "cr_built ready"
  obtain r1 backend w1 where once: "swapOnce sv lock ready drain (co_requireWriteFence opts) w = (r1, backend, w1)" using prod_cases3 by blast
  note e = swapOnce_ends [OF assms(1) handsOff_stable(1) [OF assms(2)] Suc.prems(1,2,3) once]
  show ?case
  proof (cases r1)
    case (Inr s)
    then show ?thesis using e once Suc.prems(4,5) by (auto simp: attemptEnds_def answered_def swappedIn_def)
  next
    case (Inl err)
    have w1: "wfWorld w1" "w_log w1 = w_log w0" "sourceRow ?built (w_base w1)"
      "case w_deciding w1 of None \<Rightarrow> True | Some (v, l, c) \<Rightarrow> unheard err \<and> (c \<longrightarrow> backend \<noteq> None \<and> liveRow ?built v \<and> oldRow ?built v)"
      using e Inl Suc.prems(4) by (auto simp: attemptEnds_def split: option.splits)
    show ?thesis
    proof (cases "outcomeUnknown err")
      case True
      have "undecided ?built w0 w1" using w1 by (auto simp: undecided_def split: option.splits)
      moreover have "notRolledBack err" using swapOnce_raises [OF assms(3)] once Inl by blast
      moreover have "backend = None \<Longrightarrow> (case w_deciding w1 of None \<Rightarrow> True | Some (_, _, c) \<Rightarrow> \<not> c)" using w1(4) by (auto split: option.splits)
      moreover have "resolveUnknownOutcome sv ready backend attempt err opts w1 = (r, w')" using Suc.prems(5) once Inl True by simp
      ultimately show ?thesis using resolve_answers [OF assms(1-4) w1(1)] by blast
    next
      case False
      then have none: "w_deciding w1 = None" using w1(4) unheard_unknown by (auto split: option.splits)
      have stop: "answered ?built w0 (Inl x) w1" for x using w1 none by (simp add: answered_def)
      show ?thesis using Suc.prems(5) once Inl False stop Suc.IH [OF w1(1) none w1(3,2)] by (auto split: if_splits option.splits)
    qed
  qed
qed

text \<open>
  C20: A cutover's answer is the truth about the table. While other sessions keep the two tables in place, and with
  the source live when it starts, a cutover that reports success has swapped the tables, and has committed exactly once
  over all its attempts and lost connections; one that reports a roll-back has committed nothing, the source is still the live table,
  and no backend it left behind can commit the swap later.
\<close>
theorem cutover_outcome_known:
  assumes "lawful sv" "handsOff sv (cr_built ready)" "ownVerdicts sv drain" "bs_SourceOID (cr_built ready) \<noteq> bs_ShadowOID (cr_built ready)"
    and "wfWorld w" "w_deciding w = None"
    and "lookupRelation (w_base w) (bs_Schema (cr_built ready)) (bs_SourceTable (cr_built ready)) = Some (bs_SourceOID (cr_built ready))"
    and "Cutover sv lock ready drain opts w = (r, w')"
  defines "built \<equiv> cr_built ready"
  shows "case r of
      Inr swapped \<Rightarrow> lookupRelation (w_base w') (bs_Schema built) (bs_SourceTable built) = Some (bs_ShadowOID built)
        \<and> lookupRelation (w_base w') (bs_Schema built) (OldName (bs_Schema built) (bs_SourceTable built)) = Some (bs_SourceOID built)
        \<and> (\<exists>cat. w_log w' = w_log w @ [cat])
    | Inl e \<Rightarrow> isRolledBack e \<longrightarrow>
        lookupRelation (w_base w') (bs_Schema built) (bs_SourceTable built) = Some (bs_SourceOID built)
        \<and> w_log w' = w_log w \<and> (case w_deciding w' of None \<Rightarrow> True | Some (_, _, commits) \<Rightarrow> \<not> commits)"
proof -
  have wf: "wfCatalog (w_base w)" using assms(5) by (simp add: wfWorld_def)
  have src: "sourceRow built (w_base w)" using assms(7) wf by (simp add: built_def rowOf_lookup)
  have start: "answered built w (Inl x) w" for x using assms(5,6) src by (simp add: answered_def)
  have loop: "answered built w q v" if "cutoverWithRetry sv l ready drain opts w = (q, v)" for l q v
    using cutoverLoop_answers [OF assms(1-6)] src that unfolding built_def cutoverWithRetry_def by blast
  have cause: "answered built w (Inl (lockLossCause sv e v)) v" if "answered built w (Inl e) v" for e v
    using that by (auto simp: answered_def lockLossCause_def)
  have "answered built w r w'"
    using assms(8) start loop cause by (auto simp: Cutover_def Let_def split: sum.splits prod.splits)
  then show ?thesis by (auto simp: answered_def swappedIn_def wfWorld_def rowOf_lookup split: sum.splits)
qed

section \<open>Two tables\<close>

text \<open>A source and its shadow, on a server whose other sessions leave them alone; what it answers is left open.\<close>

definition demo_model :: SchemaModel where
  "demo_model = \<lparr>sm_Table = ''orders'', sm_RowSecurity = \<lparr>rls_Enabled = False, rls_Forced = False, rls_Policies = []\<rparr>, sm_PartitionKey = '''',
     sm_IsPartition = False, sm_InheritsParents = [], sm_InheritanceChildren = [], sm_Unlogged = False, sm_Options = [], sm_ToastMayNotRebuild = False,
     sm_ReplicaIdentity = \<lparr>ri_Indexes = [], ri_Constraints = [], ri_Columns = [], ri_OwnColumns = []\<rparr>, sm_ReferencedBy = [], sm_Columns = [],
     sm_Constraints = [], sm_Indexes = []\<rparr>"

definition demo_fidelity :: FidelitySnapshot where
  "demo_fidelity = \<lparr>fs_Owner = ''app'', fs_ReplicaIdentity = ''d'', fs_RLSEnabled = False, fs_RLSForced = False, fs_Comment = '''', fs_Tablespace = '''',
     fs_RelOptions = [], fs_Grants = [], fs_ColumnGrants = [], fs_Policies = [], fs_UnvalidatedChecks = [], fs_ColumnStatisticsTargets = [],
     fs_ExtendedStatisticsTargets = []\<rparr>"

definition demo_server :: "(nat \<Rightarrow> cut_error option) \<Rightarrow> cut_server" where
  "demo_server answer = \<lparr>cs_answer = answer, cs_others = (\<lambda>_ _ cat. cat), cs_gone = (\<lambda>_. True), cs_commits = (\<lambda>_. True), cs_pid = (\<lambda>_. 7),
     cs_holder = (\<lambda>_. Some 42), cs_lockLost = (\<lambda>_. False), cs_sleep = (\<lambda>_ _. None), cs_introspect = (\<lambda>_ _ _. demo_model),
     cs_fingerprint = sm_Table, cs_fidelity = (\<lambda>_ _. demo_fidelity), cs_exclusive = (\<lambda>_. False), cs_fence = (\<lambda>_ _. Some ''A''), cs_shape = (\<lambda>_. None),
     cs_newSequence = (\<lambda>_ _. \<lparr>ns_name = ''orders_id_seq'', ns_oid = 16500, ns_acl = []\<rparr>), cs_rank = (\<lambda>_. 0), cs_sanitize = concat\<rparr>"

definition demo_built :: BuiltShadow where
  "demo_built = \<lparr>bs_target = example_target, bs_Schema = ''public'', bs_SourceTable = ''orders'', bs_ShadowTable = ''orders_new'', bs_SourceOID = 16384,
     bs_ShadowOID = 16400, bs_SourceFingerprint = ''orders'', bs_TargetFingerprint = ''orders'', bs_IdentityColumns = [], bs_Fidelity = demo_fidelity,
     bs_ShadowFidelity = demo_fidelity, bs_CopyColumns = [''id''], bs_Conversions = [], bs_ConversionFingerprint = ''''\<rparr>"

definition demo_ready :: CutoverReady where
  "demo_ready = \<lparr>cr_built = demo_built,
     cr_verified = \<lparr>vp_schema = ''public'', vp_table = ''orders'', vp_shadow = ''orders_new'', vp_sourceOID = 16384, vp_shadowOID = 16400,
       vp_watermark = \<lparr>wm_value = MaxInt64, wm_valid = True\<rparr>, vp_verifiedAt = 0, vp_live = False\<rparr>,
     cr_indexes = \<lparr>pg_Pairs = [], pg_UnpairedSource = [], pg_UnpairedShadow = []\<rparr>, cr_statistics = \<lparr>pg_Pairs = [], pg_UnpairedSource = [], pg_UnpairedShadow = []\<rparr>, cr_sequences = []\<rparr>"

definition demo_catalog :: "string \<Rightarrow> string \<Rightarrow> pgCatalog" where
  "demo_catalog source shadow = \<lparr>ct_relations =
       [\<lparr>rl_oid = 16384, rl_schema = ''public'', rl_name = source, rl_kind = RelTable, rl_owner = ''app''\<rparr>,
        \<lparr>rl_oid = 16400, rl_schema = ''public'', rl_name = shadow, rl_kind = RelTable, rl_owner = ''app''\<rparr>],
     ct_indexes = [], ct_statistics = [], ct_constraints = [], ct_columns = [], ct_owned = [], ct_sequences = []\<rparr>"

definition demo_world :: "nat \<Rightarrow> pgCatalog \<Rightarrow> oid list \<Rightarrow> world" where
  "demo_world n cat locks = \<lparr>w_tick = n, w_base = demo_catalog ''orders'' ''orders_new'', w_view = cat, w_mode = WritingTx, w_locks = locks,
     w_deciding = None, w_log = []\<rparr>"

definition demo_options :: CutoverOptions where
  "demo_options = \<lparr>co_Options = \<lparr>so_LockTimeout = 100000000, so_StatementTimeout = 100000000\<rparr>, co_LockAttempts = 2, co_LockBackoff = 0, co_requireWriteFence = True\<rparr>"

lemma demo_old [simp]: "OldName ''public'' ''orders'' \<noteq> ''orders''" "OldName ''public'' ''orders'' \<noteq> ''orders_new''"
  "''orders'' \<noteq> OldName ''public'' ''orders''" "''orders_new'' \<noteq> OldName ''public'' ''orders''"
  by (simp_all add: OldName_def namePrefix_def)

lemma demo_stmt:
  assumes "a n = None"
  shows "runStmt (demo_server a) f (demo_world n cat l) =
    (case f n cat of Inl e \<Rightarrow> (Inl e, abandon e False (demo_world (Suc n) cat l)) | Inr (x, v) \<Rightarrow> (Inr x, demo_world (Suc n) v l))"
  using assms by (simp add: runStmt_def stepW_def demo_server_def demo_world_def Let_def split: sum.splits)

lemma demo_stmts:
  assumes "a n = None"
  shows "askW (demo_server a) g (demo_world n cat l) = (Inr (g cat), demo_world (Suc n) cat l)"
    "q cat = Inr x \<Longrightarrow> queryW (demo_server a) q (demo_world n cat l) = (Inr x, demo_world (Suc n) cat l)"
    "u cat = Inr v \<Longrightarrow> execW (demo_server a) u (demo_world n cat l) = (Inr (), demo_world (Suc n) v l)"
    "d n = None \<Longrightarrow> answerW (demo_server a) d (demo_world n cat l) = (Inr (), demo_world (Suc n) cat l)"
    "sessionW (demo_server a) (demo_world n cat l) = (Inr (), demo_world (Suc n) cat l)"
  using assms by (simp_all add: askW_def queryW_def execW_def answerW_def sessionW_def demo_stmt)

lemma demo_reads:
  "lookupRelation (demo_catalog x y) ''public'' n = (if n = x then Some 16384 else if n = y then Some 16400 else None)"
  "n = x \<Longrightarrow> resolveRelation ''public'' n (demo_catalog x y) = Inr 16384"
  "n \<noteq> x \<Longrightarrow> n = y \<Longrightarrow> resolveRelation ''public'' n (demo_catalog x y) = Inr 16400"
  "readIndexes i (demo_catalog x y) = []" "readStatistics i (demo_catalog x y) = []" "readOwnedSequences i (demo_catalog x y) = []"
  "readIdentityColumns i (demo_catalog x y) = Inr []" "n \<noteq> x \<Longrightarrow> n \<noteq> y \<Longrightarrow> takenNames ''public'' [n] (demo_catalog x y) = []"
  "constraintNamesTaken i p [] (demo_catalog x y) = []"
  by (auto simp: demo_catalog_def resolveRelation_def lookupRelation_def relationNamed_def readIndexes_def readStatistics_def readOwnedSequences_def
      readIdentityColumns_def tableColumns_def takenNames_def constraintNamesTaken_def)

lemma demo_renames:
  "z \<noteq> x \<Longrightarrow> z \<noteq> y \<Longrightarrow> renameTable ''public'' x z (demo_catalog x y) = Inr (demo_catalog z y)"
  "y \<noteq> x \<Longrightarrow> z \<noteq> x \<Longrightarrow> z \<noteq> y \<Longrightarrow> renameTable ''public'' y z (demo_catalog x y) = Inr (demo_catalog x z)"
  by (auto simp: renameTable_def renameRelation_def relationNamed_def mapRelation_def demo_catalog_def)

abbreviation demo_pairing :: DependentPairing where
  "demo_pairing \<equiv> \<lparr>pg_Pairs = [], pg_UnpairedSource = [], pg_UnpairedShadow = []\<rparr>"

lemma demo_pairs: "pairIndexes [] [] c = demo_pairing" "pairByDefinition k [] [] = demo_pairing"
  by (simp_all add: pairIndexes_def pairIndexEntries_def indexDependents_def sharedKeys_def pairByDefinition_def Let_def)

lemma bindW_run: "m w = (Inr x, w') \<Longrightarrow> bindW m f w = f x w'"
  by (simp add: bindW_def)

lemma returnW_app: "returnW x w = (Inr x, w)"
  by (simp add: returnW_def)

lemma demo_server_sel [simp]: "cs_fidelity (demo_server a) cat x = demo_fidelity" "cs_introspect (demo_server a) cat s t = demo_model"
  "cs_fingerprint (demo_server a) demo_model = ''orders''" "cs_shape (demo_server a) n = None" "cs_fence (demo_server a) cat x = Some ''A''"
  "cs_holder (demo_server a) n = Some 42" "cs_pid (demo_server a) n = 7"
  by (simp_all add: demo_server_def demo_model_def)

lemma demo_ready_sel [simp]: "cr_built demo_ready = demo_built" "vp_live (cr_verified demo_ready) = False" "bs_Schema demo_built = ''public''"
  "bs_SourceTable demo_built = ''orders''" "bs_ShadowTable demo_built = ''orders_new''" "bs_SourceOID demo_built = 16384" "bs_ShadowOID demo_built = 16400"
  "bs_SourceFingerprint demo_built = ''orders''" "bs_TargetFingerprint demo_built = ''orders''" "bs_IdentityColumns demo_built = []"
  "bs_Fidelity demo_built = demo_fidelity" "bs_ShadowFidelity demo_built = demo_fidelity"
  by (simp_all add: demo_ready_def demo_built_def)

lemma demo_gate:
  assumes "\<And>i. i < 31 \<Longrightarrow> a i = None"
  shows "gateCutoverTx (demo_server a) demo_built v (demo_world 9 (demo_catalog ''orders'' ''orders_new'') l) =
    (Inr \<lparr>cr_built = demo_built, cr_verified = v, cr_indexes = demo_pairing, cr_statistics = demo_pairing, cr_sequences = []\<rparr>,
     demo_world 23 (demo_catalog ''orders'' ''orders_new'') l)"
  by (simp add: gateCutoverTx_def gateConfirmRelations_def confirmFingerprints_def confirmFidelity_def confirmIdentities_def verifyIdentityDefaults_def
      pairStatistics_def confirmNamesFree_def bindW_run demo_stmts demo_reads demo_pairs assms returnW_def invalidIndexes_def fidelityDrift_def
      handoffIdentities_def renamedDependents_def pairingSourceNames_def oldNames_def keptSequences_def Let_def)

abbreviation demo_swapped :: SwappedTable where
  "demo_swapped \<equiv> \<lparr>sw_schema = ''public'', sw_table = ''orders'', sw_liveOID = 16400, sw_oldOID = 16384, sw_owner = ''app'', sw_indexes = demo_pairing,
     sw_statistics = demo_pairing, sw_sequences = [], sw_identities = [], sw_attempts = 0\<rparr>"

abbreviation demo_after :: pgCatalog where
  "demo_after \<equiv> demo_catalog (OldName ''public'' ''orders'') ''orders''"

lemma demo_lock:
  assumes "a n = None"
  shows "confirmTableLock (demo_server a) example_lock (demo_world n cat l) = (Inr (), demo_world (Suc n) cat l)"
    "lockForSwap (demo_server a) demo_built (demo_world n (demo_catalog ''orders'' ''orders_new'') l)
      = (Inr (), demo_world (Suc n) (demo_catalog ''orders'' ''orders_new'') [16384, 16400])"
  using assms by (simp_all add: confirmTableLock_def lockForSwap_def bindW_run demo_stmt demo_stmts demo_reads example_lock_def returnW_def)
    (simp add: demo_world_def)

lemma demo_renamed:
  assumes "\<And>i. i < 31 \<Longrightarrow> a i = None"
  defines "ready v \<equiv> \<lparr>cr_built = demo_built, cr_verified = v, cr_indexes = demo_pairing, cr_statistics = demo_pairing, cr_sequences = []\<rparr>"
  shows "bindW (renameForSwap (demo_server a) (ready v)) (\<lambda>_. bindW (handOffSequences (demo_server a) (ready v)) (\<lambda>ids.
      bindW (confirmSwap (demo_server a) (ready v) ids) (\<lambda>_. returnW (newSwappedTable (ready v) ids 0))))
    (demo_world 23 (demo_catalog ''orders'' ''orders_new'') l) = (Inr demo_swapped, demo_world 31 demo_after l)"
  by (simp add: ready_def renameForSwap_def handOffSequences_def confirmSwap_def newSwappedTable_def bindW_run demo_stmts demo_reads demo_renames assms(1)
      returnW_def pairingSourceNames_def missingNames_def Let_def)
    (simp add: demo_fidelity_def)

lemma demo_swap:
  assumes "\<And>i. i < 31 \<Longrightarrow> a i = None"
  shows "swapInTx (demo_server a) example_lock demo_ready None True (demo_world 2 (demo_catalog ''orders'' ''orders_new'') [])
    = (Inr demo_swapped, demo_world 31 demo_after [16384, 16400])"
  by (simp add: swapInTx_def setSession_def confirmWriteFence_def bindW_run demo_stmts demo_lock demo_gate demo_renamed assms returnW_app Let_def)

lemma demo_once:
  assumes "\<And>i. i < 31 \<Longrightarrow> a i = None"
  shows "swapOnce (demo_server a) example_lock demo_ready None True (demo_world 0 (demo_catalog ''orders'' ''orders_new'') []) =
    (case a 31 of None \<Rightarrow> (Inr demo_swapped, Some 7, (demo_world 32 demo_after [])\<lparr>w_base := demo_after, w_log := [demo_after]\<rparr>)
     | Some e \<Rightarrow> (Inl e, Some 7, (abandon e True (demo_world 32 demo_after [16384, 16400]))\<lparr>w_locks := []\<rparr>))"
proof -
  have starts: "beginTx (demo_server a) WritingTx (demo_world 0 (demo_catalog ''orders'' ''orders_new'') [])
      = (Inr (), demo_world (Suc 0) (demo_catalog ''orders'' ''orders_new'') [])"
    using assms [of 0] by (simp add: beginTx_def stepW_def demo_world_def demo_server_def)
  have pid: "runStmt (demo_server a) (\<lambda>n cat. Inr (7 :: 32 word, cat)) (demo_world (Suc 0) cat []) = (Inr 7, demo_world 2 cat [])" for cat
    using assms [of 1] by (simp add: demo_stmt numeral_2_eq_2)
  have commits: "bindW (commitTx (demo_server a)) (\<lambda>_. returnW demo_swapped) (demo_world 31 demo_after l) =
      (case a 31 of None \<Rightarrow> (Inr demo_swapped, (demo_world 32 demo_after [])\<lparr>w_base := demo_after, w_log := [demo_after]\<rparr>)
       | Some e \<Rightarrow> (Inl e, abandon e True (demo_world 32 demo_after l)))" for l
    by (simp add: bindW_def commitTx_def stepW_def returnW_def demo_world_def demo_server_def Let_def split: option.splits)
  have swaps: "swapInTx (demo_server a) example_lock demo_ready None True (demo_world 2 (demo_catalog ''orders'' ''orders_new'') [])
      = (Inr demo_swapped, demo_world 31 demo_after [16384, 16400])"
    by (rule demo_swap) (rule assms)
  show ?thesis
    by (simp add: swapOnce_def starts pid bindW_run swaps commits split: option.splits) (simp add: demo_world_def)
qed

text \<open>The commit's answer is lost after the server got it: the backend commits, and the next connection reads what it did.\<close>

definition demo_lost :: "nat \<Rightarrow> cut_error option" where
  "demo_lost n = (if n = 31 then Some CutEOF else None)"

definition demo_reader :: "nat \<Rightarrow> world" where
  "demo_reader n = \<lparr>w_tick = n, w_base = demo_after, w_view = demo_after, w_mode = ReadingTx, w_locks = [], w_deciding = None, w_log = [demo_after]\<rparr>"

lemma demo_rstmt:
  assumes "a n = None" "\<And>n. f n demo_after = Inr (x, demo_after)"
  shows "runStmt (demo_server a) f (demo_reader n) = (Inr x, demo_reader (Suc n))"
  using assms by (simp add: runStmt_def stepW_def demo_server_def demo_reader_def Let_def)

lemma demo_rstmts:
  assumes "a n = None"
  shows "askW (demo_server a) g (demo_reader n) = (Inr (g demo_after), demo_reader (Suc n))"
    "q demo_after = Inr x \<Longrightarrow> queryW (demo_server a) q (demo_reader n) = (Inr x, demo_reader (Suc n))"
    "sessionW (demo_server a) (demo_reader n) = (Inr (), demo_reader (Suc n))"
  using assms by (simp_all add: askW_def queryW_def answerW_def sessionW_def demo_rstmt)

lemma demo_owner: "readOwner 16384 (demo_catalog x y) = Inr ''app''" "readOwner 16400 (demo_catalog x y) = Inr ''app''"
  by (simp_all add: readOwner_def relationOf_def demo_catalog_def)

lemma demo_outcome: "\<exists>s. readOutcome (demo_server demo_lost) (builtProof demo_built)
    \<lparr>w_tick = 33, w_base = demo_after, w_view = demo_after, w_mode = WritingTx, w_locks = [], w_deciding = None, w_log = [demo_after]\<rparr> = (Inr s, demo_reader 46)"
proof -
  have starts: "beginTx (demo_server demo_lost) ReadingTx
      \<lparr>w_tick = 33, w_base = demo_after, w_view = demo_after, w_mode = WritingTx, w_locks = [], w_deciding = None, w_log = [demo_after]\<rparr> = (Inr (), demo_reader 34)"
    by (simp add: beginTx_def stepW_def demo_server_def demo_lost_def demo_reader_def)
  have flight: "refuseSwapInFlight (demo_server demo_lost) p (demo_reader 34) = (Inr (), demo_reader 35)" for p
  proof -
    have "runStmt (demo_server demo_lost) (\<lambda>n cat. Inr (cs_exclusive (demo_server demo_lost) n, cat)) (demo_reader 34) = (Inr False, demo_reader (Suc 34))"
      by (rule demo_rstmt) (simp_all add: demo_lost_def demo_server_def)
    moreover have "w_deciding (demo_reader n) = None" for n by (simp add: demo_reader_def)
    ultimately show ?thesis by (simp add: refuseSwapInFlight_def bindW_def returnW_app)
  qed
  have owner: "fs_Owner demo_fidelity = ''app''" by (simp add: demo_fidelity_def)
  show ?thesis
    by (simp add: readOutcome_def readOnly_def readSwappedTable_def confirmLive_def confirmOld_def confirmOwner_def builtProof_def confirmHandoff_def liftW_def
        bindW_run starts flight owner demo_rstmts demo_reads demo_owner demo_lost_def returnW_app Let_def)
qed

lemma demo_recovers: "\<exists>s. Cutover (demo_server demo_lost) (Some example_lock) demo_ready None demo_options
    (demo_world 0 (demo_catalog ''orders'' ''orders_new'') []) = (Inr s, demo_reader 46)"
proof -
  let ?w = "(abandon CutEOF True (demo_world 32 demo_after [16384, 16400]))\<lparr>w_locks := []\<rparr>"
  have once: "swapOnce (demo_server demo_lost) example_lock demo_ready None True (demo_world 0 (demo_catalog ''orders'' ''orders_new'') []) = (Inl CutEOF, Some 7, ?w)"
    using demo_once [of demo_lost] by (simp add: demo_lost_def)
  have unknown: "outcomeUnknown CutEOF" by (simp add: outcomeUnknown_def connectionLost_def errorIs_def pgErrorCode_def)
  have polls: "exitPolls (add64 (swapLockTimeout (co_Options demo_options)) (swapStatementTimeout (co_Options demo_options))) = Suc 4"
    by code_simp
  have polled: "awaitBackendExit (demo_server demo_lost) (Suc k) ?w =
      (Inr (), \<lparr>w_tick = 33, w_base = demo_after, w_view = demo_after, w_mode = WritingTx, w_locks = [], w_deciding = None, w_log = [demo_after]\<rparr>)" for k
    using unknown by (simp add: abandon_def demo_world_def stepW_def demo_server_def demo_lost_def Let_def)
  obtain s where s: "readOutcome (demo_server demo_lost) (builtProof demo_built)
      \<lparr>w_tick = 33, w_base = demo_after, w_view = demo_after, w_mode = WritingTx, w_locks = [], w_deciding = None, w_log = [demo_after]\<rparr> = (Inr s, demo_reader 46)"
    using demo_outcome by blast
  note await = polled [of 4, simplified Suc_numeral semiring_norm]
  have tries: "nat (lockAttempts demo_options) = Suc 1" "co_requireWriteFence demo_options" "is_ok (cutoverValidate demo_options)" by code_simp+
  have proofs: "is_ok (checkCutoverProofs demo_built (cr_verified demo_ready))" "is_ok (checkDrain (cr_verified demo_ready) (None :: drain option))"
    "is_ok (shadowRequireLock (Some example_lock) ''public'' ''orders'')" by code_simp+
  show ?thesis
    using proofs tries(3) by (auto simp: Cutover_def cutoverWithRetry_def tries(1,2) once unknown resolveUnknownOutcome_def polls await s Let_def simp del: awaitBackendExit.simps elim!: is_okE)
qed

lemma demo_lawful: "lawful (demo_server a)" "handsOff (demo_server a) built" "wfWorld (demo_world 0 (demo_catalog ''orders'' ''orders_new'') [])"
  by (simp_all add: lawful_def handsOff_def demo_server_def wfWorld_def demo_world_def demo_catalog_def wfCatalog_def)

lemma demo_verdicts: "ownVerdicts (demo_server demo_lost) None"
  by (simp add: ownVerdicts_def demo_server_def demo_lost_def)

theorem swap_commits_confirmed_witness:
  "\<exists>swapped backend w'. swapOnce (demo_server (\<lambda>_. None)) example_lock demo_ready None True (demo_world 0 (demo_catalog ''orders'' ''orders_new'') [])
      = (Inr swapped, backend, w')
    \<and> lookupRelation (w_base w') ''public'' ''orders'' = Some 16400
    \<and> lookupRelation (w_base w') ''public'' (OldName ''public'' ''orders'') = Some 16384
    \<and> sw_liveOID swapped = 16400 \<and> sw_oldOID swapped = 16384 \<and> w_log w' = [w_base w']"
proof -
  obtain backend w' where once: "swapOnce (demo_server (\<lambda>_. None)) example_lock demo_ready None True (demo_world 0 (demo_catalog ''orders'' ''orders_new'') [])
      = (Inr demo_swapped, backend, w')"
    using demo_once [of "\<lambda>_. None"] by simp
  have "w_deciding (demo_world 0 (demo_catalog ''orders'' ''orders_new'') []) = None" "w_log (demo_world 0 (demo_catalog ''orders'' ''orders_new'') []) = []"
    by (simp_all add: demo_world_def)
  then show ?thesis using swap_commits_confirmed [OF demo_lawful(1,3) _ once] once by simp
qed

theorem cutover_outcome_known_witness:
  "\<exists>swapped w'. Cutover (demo_server demo_lost) (Some example_lock) demo_ready None demo_options (demo_world 0 (demo_catalog ''orders'' ''orders_new'') [])
      = (Inr swapped, w')
    \<and> lookupRelation (w_base w') ''public'' ''orders'' = Some 16400
    \<and> lookupRelation (w_base w') ''public'' (OldName ''public'' ''orders'') = Some 16384 \<and> (\<exists>cat. w_log w' = [cat])"
proof -
  obtain s where s: "Cutover (demo_server demo_lost) (Some example_lock) demo_ready None demo_options (demo_world 0 (demo_catalog ''orders'' ''orders_new'') [])
      = (Inr s, demo_reader 46)"
    using demo_recovers by blast
  have "w_deciding (demo_world 0 (demo_catalog ''orders'' ''orders_new'') []) = None" "w_log (demo_world 0 (demo_catalog ''orders'' ''orders_new'') []) = []"
    "w_base (demo_world 0 (demo_catalog ''orders'' ''orders_new'') []) = demo_catalog ''orders'' ''orders_new''"
    by (simp_all add: demo_world_def)
  then show ?thesis
    using cutover_outcome_known [OF demo_lawful(1) demo_lawful(2) demo_verdicts _ demo_lawful(3) _ _ s] s by (auto simp: demo_reads)
qed

end
