(* ===== verification/Checkpoint_Row.thy ===== *)
theory Checkpoint_Row
  imports Copier_Guard Decode_Types
begin

text \<open>
  The checkpoint record (\<open>pkg/checkpoint\<close>: \<open>checkpoint.go\<close>, \<open>load.go\<close>, \<open>shadow_proof.go\<close>, \<open>statement.go\<close>, \<open>errors.go\<close>):
  phases and their names, what may be saved, and how a stored row is judged against the run that reads it and decoded.
  A \<open>json.RawMessage\<close> is empty, not JSON, or the document it decodes to, with numbers kept as their literal text.
\<close>

section \<open>Phases\<close>

type_synonym Phase = "8 word"

definition PhaseCopying :: Phase where "PhaseCopying = 1"
definition PhaseCatchingUp :: Phase where "PhaseCatchingUp = 2"
definition PhaseReconciling :: Phase where "PhaseReconciling = 3"
definition PhaseVerifying :: Phase where "PhaseVerifying = 4"
definition PhaseCutover :: Phase where "PhaseCutover = 5"
definition PhaseDone :: Phase where "PhaseDone = 6"
definition PhaseFailed :: Phase where "PhaseFailed = 7"

lemmas phase_defs = PhaseCopying_def PhaseCatchingUp_def PhaseReconciling_def PhaseVerifying_def PhaseCutover_def PhaseDone_def PhaseFailed_def

definition Terminal :: "Phase \<Rightarrow> bool" where
  "Terminal p \<longleftrightarrow> p = PhaseDone \<or> p = PhaseFailed"

definition Phase_String :: "Phase \<Rightarrow> string" where
  "Phase_String p =
     (if p = PhaseCopying then ''copying''
      else if p = PhaseCatchingUp then ''catching_up''
      else if p = PhaseReconciling then ''reconciling''
      else if p = PhaseVerifying then ''verifying''
      else if p = PhaseCutover then ''cutover''
      else if p = PhaseDone then ''done''
      else if p = PhaseFailed then ''failed''
      else ''Phase('' @ decStr (unat p) @ '')'')"

definition enginePhases :: "Phase list" where
  "enginePhases = [PhaseCopying, PhaseCatchingUp, PhaseReconciling, PhaseVerifying, PhaseCutover, PhaseDone, PhaseFailed]"

definition parsePhase :: "string \<Rightarrow> Phase option" where
  "parsePhase name = find (\<lambda>p. Phase_String p = name) enginePhases"

definition knownPhases :: "string list" where
  "knownPhases = map Phase_String enginePhases"

definition knownPhaseNames :: string where
  "knownPhaseNames = join '', '' knownPhases"

section \<open>Shadow proofs\<close>

datatype json =
    JNull
  | JBool bool
  | JNumber string
  | JString string
  | JArray "json list"
  | JObject "(string \<times> json) list"

datatype rawMessage = RawEmpty | RawInvalid string | RawDoc json

definition decodeJSON :: "rawMessage \<Rightarrow> json option" where
  "decodeJSON m = (case m of RawDoc d \<Rightarrow> Some d | _ \<Rightarrow> None)"

fun containsNUL :: "json \<Rightarrow> bool" and fieldsContainNUL :: "(string \<times> json) list \<Rightarrow> bool" and elementsContainNUL :: "json list \<Rightarrow> bool" where
  "containsNUL (JString s) = (CHR 0x00 \<in> set s)"
| "containsNUL (JObject kvs) = fieldsContainNUL kvs"
| "containsNUL (JArray xs) = elementsContainNUL xs"
| "containsNUL _ = False"
| "fieldsContainNUL [] = False"
| "fieldsContainNUL ((k, v) # kvs) = (CHR 0x00 \<in> set k \<or> containsNUL v \<or> fieldsContainNUL kvs)"
| "elementsContainNUL [] = False"
| "elementsContainNUL (x # xs) = (containsNUL x \<or> elementsContainNUL xs)"

text \<open>The loop over a map's keys is the same in any order, so the keys are visited as the document lists them.\<close>

fun sameValue :: "json \<Rightarrow> json \<Rightarrow> bool" and sameFields :: "(string \<times> json) list \<Rightarrow> (string \<times> json) list \<Rightarrow> bool"
    and sameElements :: "json list \<Rightarrow> json list \<Rightarrow> bool" where
  "sameValue (JObject va) b = (case b of JObject vb \<Rightarrow> length va = length vb \<and> sameFields va vb | _ \<Rightarrow> False)"
| "sameValue (JArray va) b = (case b of JArray vb \<Rightarrow> length va = length vb \<and> sameElements va vb | _ \<Rightarrow> False)"
| "sameValue a b = (a = b)"
| "sameFields [] vb = True"
| "sameFields ((key, v) # va) vb = ((case map_of vb key of None \<Rightarrow> False | Some other \<Rightarrow> sameValue v other) \<and> sameFields va vb)"
| "sameElements [] vb = True"
| "sameElements (x # va) vb = (case vb of [] \<Rightarrow> False | y # vb' \<Rightarrow> sameValue x y \<and> sameElements va vb')"

definition sameJSON :: "rawMessage \<Rightarrow> rawMessage \<Rightarrow> bool option" where
  "sameJSON a b =
     (case decodeJSON a of
        None \<Rightarrow> None
      | Some docA \<Rightarrow> (case decodeJSON b of None \<Rightarrow> None | Some docB \<Rightarrow> Some (sameValue docA docB)))"

section \<open>Identities and errors\<close>

record Fingerprints =
  fg_Source :: string
  fg_Target :: string

record ckIdentity =
  idn_FormatVersion :: int
  idn_Fingerprints :: Fingerprints

datatype ckMismatch = MismatchFormat | MismatchSource | MismatchTarget | MismatchPhase

definition ckMismatch_String :: "ckMismatch \<Rightarrow> string" where
  "ckMismatch_String m = (case m of MismatchFormat \<Rightarrow> ''format_version'' | MismatchSource \<Rightarrow> ''source_fingerprint''
     | MismatchTarget \<Rightarrow> ''target_fingerprint'' | MismatchPhase \<Rightarrow> ''phase'')"

record IncompatibleError =
  inc_Schema :: string
  inc_Table :: string
  inc_Mismatch :: ckMismatch
  inc_Have :: string
  inc_Want :: string
  inc_Stored :: ckIdentity

datatype ForeignObject = ForeignObjectSlot | ForeignObjectPublication

datatype ck_error =
    CkPg string
  | CkUnsent
  | CkNoRows
  | CkContext
  | CkOther string
  | CkNotFound
  | CkTableMissing ck_error
  | CkTableBehind ck_error
  | CkForeignObject
  | CkTableNewer "string list"
  | CkInvalidCheckpoint
  | CkInvalidOptions
  | CkInvariant "ck_error list"
  | CkIncompatible IncompatibleError
  | CkExhausted ck_error
  | CkInterrupted ck_error ck_error
  | CkLockNotHeld
  | CkLockHeldElsewhere
  | CkLockLost
  | CkSlotActive ck_error
  | CkSlotExists string
  | CkForeignState ForeignObject string string
  | CkPublicationPrivilege ck_error
  | CkJoined "ck_error list"

fun ckTree :: "ck_error \<Rightarrow> ck_error list" and ckTrees :: "ck_error list \<Rightarrow> ck_error list" where
  "ckTree (CkTableMissing e) = CkTableMissing e # ckTree e"
| "ckTree (CkTableBehind e) = CkTableBehind e # ckTree e"
| "ckTree (CkInvariant es) = CkInvariant es # ckTrees es"
| "ckTree (CkExhausted e) = CkExhausted e # ckTree e"
| "ckTree (CkInterrupted s e) = CkInterrupted s e # ckTree s @ ckTree e"
| "ckTree (CkSlotActive e) = CkSlotActive e # ckTree e"
| "ckTree (CkPublicationPrivilege e) = CkPublicationPrivilege e # ckTree e"
| "ckTree (CkJoined es) = CkJoined es # ckTrees es"
| "ckTree e = [e]"
| "ckTrees [] = []"
| "ckTrees (e # es) = ckTree e @ ckTrees es"

definition ckIs :: "ck_error \<Rightarrow> ck_error \<Rightarrow> bool" where
  "ckIs target err = (target \<in> set (ckTree err))"

definition ckPgCode :: "ck_error \<Rightarrow> string option" where
  "ckPgCode err = (case concat (map (\<lambda>e. case e of CkPg code \<Rightarrow> [code] | _ \<Rightarrow> []) (ckTree err)) of [] \<Rightarrow> None | code # _ \<Rightarrow> Some code)"

definition undefinedTable :: string where "undefinedTable = ''42P01''"
definition undefinedColumn :: string where "undefinedColumn = ''42703''"

definition tableUnusable :: "ck_error \<Rightarrow> ck_error" where
  "tableUnusable err =
     (case ckPgCode err of
        None \<Rightarrow> err
      | Some code \<Rightarrow> if code = undefinedTable then CkTableMissing err else if code = undefinedColumn then CkTableBehind err else err)"

section \<open>Checkpoints\<close>

definition FormatVersion :: int where "FormatVersion = 3"

record Checkpoint =
  ck_Schema :: string
  ck_Table :: string
  ck_ShadowTable :: string
  ck_SlotName :: string
  ck_PublicationName :: string
  ck_Watermark :: Watermark
  ck_LastAppliedLSN :: LSN
  ck_SourceFingerprint :: string
  ck_TargetFingerprint :: string
  ck_Phase :: Phase
  ck_UpdatedAt :: int64
  ck_ShadowProof :: rawMessage
  ck_Statement :: string

definition checkpointFingerprints :: "Checkpoint \<Rightarrow> Fingerprints" where
  "checkpointFingerprints c = \<lparr>fg_Source = ck_SourceFingerprint c, fg_Target = ck_TargetFingerprint c\<rparr>"

definition checkpointIdentity :: "Checkpoint \<Rightarrow> ckIdentity" where
  "checkpointIdentity c = \<lparr>idn_FormatVersion = FormatVersion, idn_Fingerprints = checkpointFingerprints c\<rparr>"

definition validateShadowProof :: "rawMessage \<Rightarrow> ck_error + unit" where
  "validateShadowProof proof' =
     (case proof' of
        RawEmpty \<Rightarrow> Inr ()
      | RawInvalid _ \<Rightarrow> Inl CkInvalidCheckpoint
      | RawDoc doc \<Rightarrow>
          (case doc of
             JObject _ \<Rightarrow> if containsNUL doc then Inl CkInvalidCheckpoint else Inr ()
           | _ \<Rightarrow> Inl CkInvalidCheckpoint))"

definition checkpointValidate :: "Checkpoint \<Rightarrow> ck_error + unit" where
  "checkpointValidate c =
     (if \<exists>value \<in> set [ck_Schema c, ck_Table c, ck_ShadowTable c, ck_SourceFingerprint c, ck_TargetFingerprint c]. value = ''''
      then Inl CkInvalidCheckpoint
      else if parsePhase (Phase_String (ck_Phase c)) = None then Inl CkInvalidCheckpoint
      else validateShadowProof (ck_ShadowProof c))"

section \<open>Rows\<close>

record ckRow =
  rw_schema :: string
  rw_table :: string
  rw_formatVersion :: int
  rw_shadowTable :: string
  rw_slotName :: string
  rw_publicationName :: string
  rw_watermark :: "int64 option"
  rw_lastAppliedLSN :: string
  rw_sourceFingerprint :: string
  rw_targetFingerprint :: string
  rw_phase :: string
  rw_updatedAt :: int64
  rw_shadowProof :: rawMessage
  rw_statement :: "string option"

definition rowIdentity :: "ckRow \<Rightarrow> ckIdentity" where
  "rowIdentity r = \<lparr>idn_FormatVersion = rw_formatVersion r, idn_Fingerprints = \<lparr>fg_Source = rw_sourceFingerprint r, fg_Target = rw_targetFingerprint r\<rparr>\<rparr>"

definition phaseKnown :: "ckRow \<Rightarrow> bool" where
  "phaseKnown r = (parsePhase (rw_phase r) \<noteq> None)"

definition incompatibleWith :: "ckRow \<Rightarrow> ckIdentity \<Rightarrow> IncompatibleError option" where
  "incompatibleWith r want =
     (let mismatch = (\<lambda>m have' wanted. Some \<lparr>inc_Schema = rw_schema r, inc_Table = rw_table r, inc_Mismatch = m, inc_Have = have', inc_Want = wanted,
            inc_Stored = rowIdentity r\<rparr>) in
      if rw_formatVersion r \<noteq> idn_FormatVersion want then mismatch MismatchFormat (itoa (rw_formatVersion r)) (itoa (idn_FormatVersion want))
      else if rw_sourceFingerprint r \<noteq> fg_Source (idn_Fingerprints want)
        then mismatch MismatchSource (rw_sourceFingerprint r) (fg_Source (idn_Fingerprints want))
      else if rw_targetFingerprint r \<noteq> fg_Target (idn_Fingerprints want)
        then mismatch MismatchTarget (rw_targetFingerprint r) (fg_Target (idn_Fingerprints want))
      else if \<not> phaseKnown r then mismatch MismatchPhase (rw_phase r) knownPhaseNames
      else None)"

definition incompatibility :: "Fingerprints \<Rightarrow> ckRow \<Rightarrow> IncompatibleError option" where
  "incompatibility want r = incompatibleWith r \<lparr>idn_FormatVersion = FormatVersion, idn_Fingerprints = want\<rparr>"

definition formatIncompatibility :: "ckRow \<Rightarrow> IncompatibleError option" where
  "formatIncompatibility r = incompatibleWith r \<lparr>idn_FormatVersion = FormatVersion, idn_Fingerprints = idn_Fingerprints (rowIdentity r)\<rparr>"

definition rowCheckpoint :: "ckRow \<Rightarrow> ck_error + Checkpoint" where
  "rowCheckpoint r =
     (case ParseLSN (rw_lastAppliedLSN r) of
        None \<Rightarrow> Inl (CkInvariant [CkOther ''lsn''])
      | Some lsn \<Rightarrow>
          (case parsePhase (rw_phase r) of
             None \<Rightarrow> Inl (CkInvariant [CkOther ''phase''])
           | Some phase \<Rightarrow>
               Inr \<lparr>ck_Schema = rw_schema r, ck_Table = rw_table r, ck_ShadowTable = rw_shadowTable r, ck_SlotName = rw_slotName r,
                    ck_PublicationName = rw_publicationName r,
                    ck_Watermark = (case rw_watermark r of None \<Rightarrow> zeroWatermark | Some v \<Rightarrow> NewWatermark v),
                    ck_LastAppliedLSN = lsn, ck_SourceFingerprint = rw_sourceFingerprint r, ck_TargetFingerprint = rw_targetFingerprint r,
                    ck_Phase = phase, ck_UpdatedAt = rw_updatedAt r, ck_ShadowProof = rw_shadowProof r,
                    ck_Statement = (case rw_statement r of None \<Rightarrow> '''' | Some s \<Rightarrow> s)\<rparr>))"

definition watermarkColumn :: "Watermark \<Rightarrow> int64 option" where
  "watermarkColumn w = (if wm_valid w then Some (wm_value w) else None)"

definition statementColumn :: "string \<Rightarrow> string option" where
  "statementColumn sql = (if sql = '''' then None else Some sql)"

definition shadowProofColumn :: "rawMessage \<Rightarrow> json option" where
  "shadowProofColumn proof' = (case proof' of RawDoc d \<Rightarrow> Some d | _ \<Rightarrow> None)"

definition replacesProof :: "ckRow \<Rightarrow> Checkpoint \<Rightarrow> ck_error + bool" where
  "replacesProof stored cp =
     (if ck_ShadowProof cp = RawEmpty \<or> rw_shadowProof stored = RawEmpty then Inr False
      else case sameJSON (rw_shadowProof stored) (ck_ShadowProof cp) of None \<Rightarrow> Inl (CkInvariant [CkOther ''proof'']) | Some same \<Rightarrow> Inr (\<not> same))"

definition replacesStatement :: "ckRow \<Rightarrow> Checkpoint \<Rightarrow> bool" where
  "replacesStatement stored cp =
     (if ck_Statement cp = '''' then False
      else case rw_statement stored of None \<Rightarrow> False | Some s \<Rightarrow> s \<noteq> ck_Statement cp)"

section \<open>Names and decoding\<close>

lemma parsePhase_String:
  assumes "parsePhase (Phase_String p) \<noteq> None"
  shows "parsePhase (Phase_String p) = Some p"
proof (cases "p \<in> set enginePhases")
  case True
  then show ?thesis unfolding enginePhases_def by (auto simp: parsePhase_def enginePhases_def Phase_String_def phase_defs)
next
  case False
  have "Phase_String q \<noteq> ''Phase('' @ x" if "q \<in> set enginePhases" for q x
    using that by (auto simp: enginePhases_def Phase_String_def phase_defs)
  moreover have "Phase_String p = ''Phase('' @ decStr (unat p) @ '')''" using False by (simp add: enginePhases_def Phase_String_def)
  ultimately have "parsePhase (Phase_String p) = None" unfolding parsePhase_def by (auto simp: find_None_iff)
  then show ?thesis using assms by simp
qed

lemma parsePhase_known: "parsePhase s \<noteq> None \<longleftrightarrow> s \<in> set knownPhases"
  by (auto simp: parsePhase_def knownPhases_def find_None_iff)

end
