(* ===== verification/Checkpoint_Store.thy ===== *)
theory Checkpoint_Store
  imports Checkpoint_Row "HOL-Library.Finite_Map"
begin

text \<open>
  The checkpoint store (\<open>pkg/checkpoint\<close>: \<open>store.go\<close>, \<open>load.go\<close>, \<open>inspect.go\<close>, \<open>lock.go\<close>, \<open>ensure.go\<close>, \<open>columns.go\<close>). The database
  holds the engine's schema, its one table with a row per target, and the replication slots. Before every statement
  other sessions may change it; a lock the store holds is told to them. The server may answer any statement with an error, and
  may or may not have done a commit whose answer was an error.
\<close>

section \<open>The database\<close>

text \<open>A row as the columns hold it; \<open>timestamptz\<close> counts microseconds.\<close>

record ckStored =
  ks_formatVersion :: int
  ks_shadowTable :: string
  ks_slotName :: string
  ks_publicationName :: string
  ks_watermark :: "int64 option"
  ks_lastAppliedLSN :: LSN
  ks_sourceFingerprint :: string
  ks_targetFingerprint :: string
  ks_phase :: string
  ks_updatedAt :: int
  ks_shadowProof :: "json option"
  ks_statement :: "string option"

type_synonym ckKey = "string \<times> string"

record ckTable =
  kt_kind :: string
  kt_owner :: string
  kt_columns :: "string list"

text \<open>A publication as the catalog describes it (\<open>pkg/decode/publication.go\<close>), and a slot with whether it is a logical one of this database.\<close>

record publishedTable =
  pt_schema :: string
  pt_table :: string
  pt_rowFilter :: bool
  pt_columnList :: bool

record publicationShape =
  pb_allTables :: bool
  pb_insert :: bool
  pb_update :: bool
  pb_delete :: bool
  pb_truncate :: bool
  pb_viaRoot :: bool
  pb_schemas :: int64
  pb_tables :: "publishedTable list"

record slotState =
  sl_name :: string
  sl_own :: bool
  sl_active :: bool

record ckDB =
  kd_schemaOwner :: "string option"
  kd_table :: "ckTable option"
  kd_stored :: "(ckKey, ckStored) fmap"
  kd_slots :: "slotState list"
  kd_publications :: "string \<Rightarrow> publicationShape option"

text \<open>The row of a target, if it has one.\<close>

abbreviation kd_rows :: "ckDB \<Rightarrow> ckKey \<Rightarrow> ckStored option" where
  "kd_rows db \<equiv> fmlookup (kd_stored db)"

datatype ckLock = RowLock ckKey | SlotLock string | EnsureLock

record ck_server =
  kv_answer :: "nat \<Rightarrow> ck_error option"
  kv_others :: "nat \<Rightarrow> ckLock list \<Rightarrow> ckDB \<Rightarrow> ckDB"
  kv_confirm :: "nat \<Rightarrow> ck_error option"
  kv_commits :: "nat \<Rightarrow> bool"
  kv_clock :: "nat \<Rightarrow> int64"
  kv_sleep :: "nat \<Rightarrow> int64 \<Rightarrow> ck_error option"
  kv_self :: string
  kv_jsonb :: "json \<Rightarrow> json \<Rightarrow> bool"
  kv_sameDatabase :: "nat \<Rightarrow> bool"
  kv_close :: "nat \<Rightarrow> ck_error option"
  kv_filters :: bool
  kv_slotMade :: "nat \<Rightarrow> string \<times> string"

text \<open>The log of the slots the engine dropped, with the database at the drop, is for stating properties only.\<close>

record ckWorld =
  kw_tick :: nat
  kw_db :: ckDB
  kw_dropped :: "(string \<times> ckDB) list"

type_synonym 'a ckop = "ckWorld \<Rightarrow> (ck_error + 'a) \<times> ckWorld"

definition returnK :: "'a \<Rightarrow> 'a ckop" where "returnK a = (\<lambda>w. (Inr a, w))"

definition failK :: "ck_error \<Rightarrow> 'a ckop" where "failK e = (\<lambda>w. (Inl e, w))"

definition bindK :: "'a ckop \<Rightarrow> ('a \<Rightarrow> 'b ckop) \<Rightarrow> 'b ckop" where
  "bindK m f = (\<lambda>w. case m w of (Inl e, w') \<Rightarrow> (Inl e, w') | (Inr a, w') \<Rightarrow> f a w')"

definition liftK :: "ck_error + 'a \<Rightarrow> 'a ckop" where
  "liftK r = (case r of Inl e \<Rightarrow> failK e | Inr a \<Rightarrow> returnK a)"

definition mapErrK :: "(ck_error \<Rightarrow> ck_error) \<Rightarrow> 'a ckop \<Rightarrow> 'a ckop" where
  "mapErrK g m = (\<lambda>w. case m w of (Inl e, w') \<Rightarrow> (Inl (g e), w') | (Inr a, w') \<Rightarrow> (Inr a, w'))"

definition stepK :: "ck_server \<Rightarrow> ckLock list \<Rightarrow> ckWorld \<Rightarrow> ckWorld" where
  "stepK sv locks w = w\<lparr>kw_tick := kw_tick w + 1, kw_db := kv_others sv (kw_tick w) locks (kw_db w)\<rparr>"

text \<open>A statement reads the database as it stands when it runs; what it writes waits for the commit.\<close>

definition runK :: "ck_server \<Rightarrow> ckLock list \<Rightarrow> (nat \<Rightarrow> ckDB \<Rightarrow> ck_error + 'a) \<Rightarrow> 'a ckop" where
  "runK sv locks f = (\<lambda>w. let n = kw_tick w; w1 = stepK sv locks w in
     case kv_answer sv n of Some e \<Rightarrow> (Inl e, w1) | None \<Rightarrow> (f n (kw_db w1), w1))"

definition sendK :: "ck_server \<Rightarrow> ckLock list \<Rightarrow> unit ckop" where
  "sendK sv locks = runK sv locks (\<lambda>_ _. Inr ())"

definition commitK :: "ck_server \<Rightarrow> ckLock list \<Rightarrow> (ckDB \<Rightarrow> ckDB) \<Rightarrow> unit ckop" where
  "commitK sv locks write = (\<lambda>w. let n = kw_tick w; w1 = stepK sv locks w in
     case kv_answer sv n of
       Some e \<Rightarrow> (Inl e, if kv_commits sv n then w1\<lparr>kw_db := write (kw_db w1)\<rparr> else w1)
     | None \<Rightarrow> (Inr (), w1\<lparr>kw_db := write (kw_db w1)\<rparr>))"

section \<open>The table's columns\<close>

definition tableColumnNames :: "string list" where
  "tableColumnNames = [''schema_name'', ''table_name'', ''format_version'', ''shadow_table'', ''slot_name'', ''publication_name'', ''watermark'',
     ''last_applied_lsn'', ''source_fingerprint'', ''target_fingerprint'', ''phase'', ''updated_at'', ''shadow_proof'', ''statement'']"

text \<open>Every statement of the store names all of the table's columns, or those that every version of it has.\<close>

definition usable :: "string list \<Rightarrow> ckDB \<Rightarrow> ck_error + unit" where
  "usable names db =
     (case kd_table db of
        None \<Rightarrow> Inl (CkPg undefinedTable)
      | Some t \<Rightarrow> if \<exists>c \<in> set names. c \<notin> set (kt_columns t) then Inl (CkPg undefinedColumn) else Inr ())"

section \<open>Reading\<close>

definition readStored :: "ckKey \<Rightarrow> ckStored \<Rightarrow> ckRow" where
  "readStored key s = \<lparr>rw_schema = fst key, rw_table = snd key, rw_formatVersion = ks_formatVersion s, rw_shadowTable = ks_shadowTable s,
     rw_slotName = ks_slotName s, rw_publicationName = ks_publicationName s, rw_watermark = ks_watermark s,
     rw_lastAppliedLSN = LSN_String (ks_lastAppliedLSN s), rw_sourceFingerprint = ks_sourceFingerprint s,
     rw_targetFingerprint = ks_targetFingerprint s, rw_phase = ks_phase s, rw_updatedAt = 1000 * ks_updatedAt s,
     rw_shadowProof = (case ks_shadowProof s of None \<Rightarrow> RawEmpty | Some d \<Rightarrow> RawDoc d), rw_statement = ks_statement s\<rparr>"

definition readRow :: "ckKey \<Rightarrow> ckDB \<Rightarrow> ck_error + ckRow" where
  "readRow key db =
     (case usable tableColumnNames db of
        Inl e \<Rightarrow> Inl e
      | Inr _ \<Rightarrow> (case kd_rows db key of None \<Rightarrow> Inl CkNoRows | Some s \<Rightarrow> Inr (readStored key s)))"

definition dbRetryable :: "ck_error \<Rightarrow> bool" where
  "dbRetryable err =
     (case ckPgCode err of
        Some code \<Rightarrow> code \<in> {''55P03'', ''40P01'', ''40001''} \<or> take 2 code = ''08''
      | None \<Rightarrow> ckIs CkUnsent err)"

definition readRetryable :: "ck_error \<Rightarrow> bool" where
  "readRetryable err =
     (if dbRetryable err then True
      else case ckPgCode err of None \<Rightarrow> False | Some code \<Rightarrow> code \<in> {''57P01'', ''57P02'', ''57P03''})"

record StoreOptions =
  kp_LoadAttempts :: int64
  kp_LoadBackoff :: int64

definition storeWithDefaults :: "StoreOptions \<Rightarrow> StoreOptions" where
  "storeWithDefaults opts = \<lparr>kp_LoadAttempts = (if kp_LoadAttempts opts = 0 then 5 else kp_LoadAttempts opts),
     kp_LoadBackoff = (if kp_LoadBackoff opts = 0 then 200 * Millisecond else kp_LoadBackoff opts)\<rparr>"

definition NewStore :: "StoreOptions \<Rightarrow> ck_error + StoreOptions" where
  "NewStore opts =
     (let opts' = storeWithDefaults opts in
      if kp_LoadAttempts opts' < 1 then Inl CkInvalidOptions
      else if kp_LoadBackoff opts' < 0 then Inl CkInvalidOptions
      else Inr opts')"

fun retryTransient :: "ck_server \<Rightarrow> nat \<Rightarrow> int64 \<Rightarrow> int64 \<Rightarrow> ck_error \<Rightarrow> 'a ckop \<Rightarrow> 'a ckop" where
  "retryTransient sv 0 i backoff prior attempt = failK (CkExhausted prior)"
| "retryTransient sv (Suc left) i backoff prior attempt = (\<lambda>w.
     case attempt w of
       (Inr a, w1) \<Rightarrow> (Inr a, w1)
     | (Inl e, w1) \<Rightarrow>
         if \<not> readRetryable e then (Inl e, w1)
         else if left = 0 then (Inl (CkExhausted e), w1)
         else (case kv_sleep sv (kw_tick w1) (wrap64 (backoff * i)) of
                 Some s \<Rightarrow> (Inl (CkInterrupted s e), w1)
               | None \<Rightarrow> retryTransient sv left (add64 i 1) backoff e attempt w1))"

definition loadGuarded :: "ck_server \<Rightarrow> StoreOptions \<Rightarrow> ckKey \<Rightarrow> (ckRow \<Rightarrow> IncompatibleError option) \<Rightarrow> Checkpoint ckop" where
  "loadGuarded sv opts key admit = (\<lambda>w.
     case retryTransient sv (nat (kp_LoadAttempts opts)) 1 (kp_LoadBackoff opts) (CkOther ''nil'') (runK sv [] (\<lambda>_. readRow key)) w of
       (Inl e, w1) \<Rightarrow> (Inl (if ckIs CkNoRows e then CkNotFound else tableUnusable e), w1)
     | (Inr stored, w1) \<Rightarrow> (case admit stored of Some inc \<Rightarrow> (Inl (CkIncompatible inc), w1) | None \<Rightarrow> (rowCheckpoint stored, w1)))"

definition Load :: "ck_server \<Rightarrow> StoreOptions \<Rightarrow> string \<Rightarrow> string \<Rightarrow> Fingerprints \<Rightarrow> Checkpoint ckop" where
  "Load sv opts schema table want = loadGuarded sv opts (schema, table) (incompatibility want)"

definition Inspect :: "ck_server \<Rightarrow> StoreOptions \<Rightarrow> string \<Rightarrow> string \<Rightarrow> Checkpoint ckop" where
  "Inspect sv opts schema table = loadGuarded sv opts (schema, table) formatIncompatibility"

section \<open>Writing\<close>

definition ckRequireLock :: "TableLockSession option \<Rightarrow> string \<Rightarrow> string \<Rightarrow> ck_error + unit" where
  "ckRequireLock lock schema table =
     (case lock of
        None \<Rightarrow> Inl (CkInvariant [])
      | Some held \<Rightarrow>
          if lock_schema held \<noteq> schema \<or> lock_table held \<noteq> table then Inl (CkInvariant [])
          else if lock_lost held then Inl (CkInvariant [CkLockLost])
          else Inr ())"

definition lockDenied :: "ck_error \<Rightarrow> bool" where
  "lockDenied err = (ckIs CkLockNotHeld err \<or> ckIs CkLockHeldElsewhere err)"

definition ckConfirmLock :: "ck_server \<Rightarrow> unit ckop" where
  "ckConfirmLock sv = mapErrK (\<lambda>e. if lockDenied e then CkInvariant [e] else e)
     (runK sv [] (\<lambda>n _. case kv_confirm sv n of Some e \<Rightarrow> Inl e | None \<Rightarrow> Inr ()))"

definition savedRow :: "Checkpoint \<Rightarrow> int64 \<Rightarrow> ckStored" where
  "savedRow cp now = \<lparr>ks_formatVersion = FormatVersion, ks_shadowTable = ck_ShadowTable cp, ks_slotName = ck_SlotName cp,
     ks_publicationName = ck_PublicationName cp, ks_watermark = watermarkColumn (ck_Watermark cp), ks_lastAppliedLSN = ck_LastAppliedLSN cp,
     ks_sourceFingerprint = ck_SourceFingerprint cp, ks_targetFingerprint = ck_TargetFingerprint cp, ks_phase = Phase_String (ck_Phase cp),
     ks_updatedAt = now div 1000, ks_shadowProof = shadowProofColumn (ck_ShadowProof cp), ks_statement = statementColumn (ck_Statement cp)\<rparr>"

definition coalesce :: "'a option \<Rightarrow> 'a option \<Rightarrow> 'a option" where
  "coalesce a b = (case a of None \<Rightarrow> b | Some _ \<Rightarrow> a)"

definition writeOnce :: "('a \<Rightarrow> 'a \<Rightarrow> bool) \<Rightarrow> 'a option \<Rightarrow> 'a option \<Rightarrow> bool" where
  "writeOnce same old new = (case (old, new) of (Some x, Some y) \<Rightarrow> same x y | _ \<Rightarrow> True)"

text \<open>\<open>saveSQL\<close>: the row it leaves, or none when the row in place refuses the update.\<close>

definition saveStatement :: "ck_server \<Rightarrow> ckKey \<Rightarrow> ckStored \<Rightarrow> ckDB \<Rightarrow> ck_error + ckStored option" where
  "saveStatement sv key new db =
     (case usable tableColumnNames db of
        Inl e \<Rightarrow> Inl e
      | Inr _ \<Rightarrow>
          (case kd_rows db key of
             None \<Rightarrow> Inr (Some new)
           | Some old \<Rightarrow>
               if ks_formatVersion old = ks_formatVersion new \<and> ks_sourceFingerprint old = ks_sourceFingerprint new
                  \<and> ks_targetFingerprint old = ks_targetFingerprint new \<and> ks_phase old \<in> set knownPhases
                  \<and> writeOnce (kv_jsonb sv) (ks_shadowProof old) (ks_shadowProof new) \<and> writeOnce (=) (ks_statement old) (ks_statement new)
               then Inr (Some (new\<lparr>ks_shadowProof := coalesce (ks_shadowProof new) (ks_shadowProof old),
                                  ks_statement := coalesce (ks_statement new) (ks_statement old)\<rparr>))
               else Inr None))"

definition putRow :: "ckKey \<Rightarrow> ckStored option \<Rightarrow> ckDB \<Rightarrow> ckDB" where
  "putRow key r db = db\<lparr>kd_stored := (case r of None \<Rightarrow> fmdrop key (kd_stored db) | Some row \<Rightarrow> fmupd key row (kd_stored db))\<rparr>"

definition saveRefused :: "ck_server \<Rightarrow> ckKey \<Rightarrow> Checkpoint \<Rightarrow> unit ckop" where
  "saveRefused sv key cp =
     bindK (runK sv [RowLock key] (\<lambda>_. readRow key)) (\<lambda>stored.
     case incompatibility (checkpointFingerprints cp) stored of
       Some inc \<Rightarrow> failK (CkIncompatible inc)
     | None \<Rightarrow>
         (case replacesProof stored cp of
            Inl e \<Rightarrow> failK e
          | Inr replaces \<Rightarrow> failK (if replaces then CkInvariant [CkOther ''proof''] else if replacesStatement stored cp then CkInvariant [CkOther ''statement'']
                                  else CkInvariant [CkOther ''no row''])))"

definition Save :: "ck_server \<Rightarrow> TableLockSession option \<Rightarrow> Checkpoint \<Rightarrow> unit ckop" where
  "Save sv lock cp =
     (let key = (ck_Schema cp, ck_Table cp) in
      bindK (liftK (checkpointValidate cp)) (\<lambda>_.
      bindK (liftK (ckRequireLock lock (ck_Schema cp) (ck_Table cp))) (\<lambda>_.
      bindK (sendK sv []) (\<lambda>_.
      bindK (ckConfirmLock sv) (\<lambda>_.
      bindK (mapErrK tableUnusable (runK sv [] (\<lambda>n. saveStatement sv key (savedRow cp (kv_clock sv n))))) (\<lambda>written'.
      case written' of
        None \<Rightarrow> saveRefused sv key cp
      | Some r \<Rightarrow> commitK sv [RowLock key] (putRow key (Some r))))))))"

definition deleteStatement :: "ckKey \<Rightarrow> ckIdentity \<Rightarrow> ckDB \<Rightarrow> ck_error + bool" where
  "deleteStatement key stored db =
     (case usable [''schema_name'', ''table_name'', ''format_version'', ''source_fingerprint'', ''target_fingerprint''] db of
        Inl e \<Rightarrow> Inl e
      | Inr _ \<Rightarrow> Inr (case kd_rows db key of None \<Rightarrow> False | Some r \<Rightarrow> rowIdentity (readStored key r) = stored))"

definition Delete :: "ck_server \<Rightarrow> TableLockSession option \<Rightarrow> string \<Rightarrow> string \<Rightarrow> ckIdentity \<Rightarrow> unit ckop" where
  "Delete sv lock schema table stored =
     (let key = (schema, table) in
      bindK (liftK (ckRequireLock lock schema table)) (\<lambda>_.
      bindK (sendK sv []) (\<lambda>_.
      bindK (ckConfirmLock sv) (\<lambda>_.
      bindK (mapErrK tableUnusable (runK sv [] (\<lambda>_. deleteStatement key stored))) (\<lambda>removed.
      if \<not> removed then (\<lambda>w.
        case runK sv [] (\<lambda>_. readRow key) w of
          (Inl e, w1) \<Rightarrow> (if ckIs CkNoRows e then Inr () else Inl e, w1)
        | (Inr current, w1) \<Rightarrow> (case incompatibleWith current stored of Some inc \<Rightarrow> (Inl (CkIncompatible inc), w1) | None \<Rightarrow> (Inl (CkInvariant []), w1)))
      else commitK sv [RowLock key] (putRow key None))))))"

section \<open>Making the table\<close>

definition relkindOrdinaryTable :: string where "relkindOrdinaryTable = ''r''"

text \<open>Which of the schema and the table exist.\<close>

definition inspectEngineObjects :: "ck_server \<Rightarrow> ckDB \<Rightarrow> ck_error + bool \<times> bool" where
  "inspectEngineObjects sv db =
     (case kd_schemaOwner db of
        None \<Rightarrow> Inr (False, False)
      | Some schemaOwner \<Rightarrow>
          if schemaOwner \<noteq> kv_self sv then Inl CkForeignObject
          else (case kd_table db of
              None \<Rightarrow> Inr (True, False)
            | Some t \<Rightarrow>
                if kt_kind t \<noteq> relkindOrdinaryTable then Inl CkForeignObject
                else if kt_owner t \<noteq> kv_self sv then Inl CkForeignObject
                else Inr (True, True)))"

definition missingColumns :: "string list \<Rightarrow> string list" where
  "missingColumns live = filter (\<lambda>c. c \<notin> set live) tableColumnNames"

definition unknownColumns :: "string list \<Rightarrow> string list" where
  "unknownColumns live = filter (\<lambda>c. c \<notin> set tableColumnNames) live"

definition liveColumns :: "ckDB \<Rightarrow> string list" where
  "liveColumns db = (case kd_table db of None \<Rightarrow> [] | Some t \<Rightarrow> kt_columns t)"

fun addColumns :: "ck_server \<Rightarrow> string list \<Rightarrow> unit ckop" where
  "addColumns sv [] = returnK ()"
| "addColumns sv (c # cs) = bindK (sendK sv [EnsureLock]) (\<lambda>_. addColumns sv cs)"

definition evolveTable :: "ck_server \<Rightarrow> string list ckop" where
  "evolveTable sv =
     bindK (runK sv [EnsureLock] (\<lambda>_ db. Inr (liveColumns db))) (\<lambda>live.
     if unknownColumns live \<noteq> [] then failK (CkTableNewer (unknownColumns live))
     else bindK (addColumns sv (missingColumns live)) (\<lambda>_. returnK (missingColumns live)))"

definition putTable :: "ck_server \<Rightarrow> bool \<Rightarrow> bool \<Rightarrow> string list \<Rightarrow> ckDB \<Rightarrow> ckDB" where
  "putTable sv schemaExists tableExists added db =
     (let db1 = (if schemaExists then db else db\<lparr>kd_schemaOwner := Some (kv_self sv)\<rparr>) in
      if tableExists then db1\<lparr>kd_table := map_option (\<lambda>t. t\<lparr>kt_columns := kt_columns t @ added\<rparr>) (kd_table db1)\<rparr>
      else db1\<lparr>kd_table := Some \<lparr>kt_kind = relkindOrdinaryTable, kt_owner = kv_self sv, kt_columns = tableColumnNames\<rparr>\<rparr>)"

definition Ensure :: "ck_server \<Rightarrow> unit ckop" where
  "Ensure sv =
     bindK (sendK sv []) (\<lambda>_.
     bindK (sendK sv []) (\<lambda>_.
     bindK (runK sv [EnsureLock] (\<lambda>_. inspectEngineObjects sv)) (\<lambda>(schemaExists, tableExists).
     bindK (if schemaExists then returnK () else sendK sv [EnsureLock]) (\<lambda>_.
     bindK (if tableExists then evolveTable sv else bindK (sendK sv [EnsureLock]) (\<lambda>_. returnK [])) (\<lambda>added.
     commitK sv [EnsureLock] (putTable sv schemaExists tableExists added))))))"

section \<open>Runs\<close>

definition stepsK :: "ck_server \<Rightarrow> ckLock list list \<Rightarrow> ckWorld \<Rightarrow> ckWorld" where
  "stepsK sv ls w = fold (stepK sv) ls w"

lemma stepsK_simps [simp]:
  "stepsK sv [] w = w" "stepsK sv (l # ls) w = stepsK sv ls (stepK sv l w)" "stepsK sv ls2 (stepsK sv ls1 w) = stepsK sv (ls1 @ ls2) w"
  by (simp_all add: stepsK_def)

lemma bindK_cases:
  assumes "bindK m f w = (r, w')"
  obtains (fails) e where "m w = (Inl e, w')" "r = Inl e" | (runs) a w1 where "m w = (Inr a, w1)" "f a w1 = (r, w')"
  using assms by (auto simp: bindK_def split: prod.splits sum.splits)

text \<open>An operation that writes nothing moves the world only by others' steps.\<close>

definition writeless :: "ck_server \<Rightarrow> 'a ckop \<Rightarrow> bool" where
  "writeless sv m \<longleftrightarrow> (\<forall>w r w'. m w = (r, w') \<longrightarrow> (\<exists>ls. w' = stepsK sv ls w))"

named_theorems writeless_intros \<open>operations that write nothing\<close>

lemma writeless_unit [writeless_intros]: "writeless sv (returnK a)" "writeless sv (failK e)" "writeless sv (liftK s)"
  by (auto simp: writeless_def returnK_def failK_def liftK_def intro!: exI [of _ "[]"] split: sum.splits)

lemma writeless_run [writeless_intros]: "writeless sv (runK sv l f)" "writeless sv (sendK sv l)"
  by (auto simp: writeless_def runK_def sendK_def Let_def intro!: exI [of _ "[l]"] split: option.splits)

lemma writeless_bind [writeless_intros]:
  assumes "writeless sv m" "\<And>a. writeless sv (f a)"
  shows "writeless sv (bindK m f)"
  unfolding writeless_def
proof (intro allI impI)
  fix w r w' assume "bindK m f w = (r, w')"
  then show "\<exists>ls. w' = stepsK sv ls w"
  proof (cases rule: bindK_cases)
    case (fails e)
    then show ?thesis using assms(1) by (auto simp: writeless_def)
  next
    case (runs a w1)
    then obtain ls1 ls2 where "w1 = stepsK sv ls1 w" "w' = stepsK sv ls2 w1" using assms unfolding writeless_def by metis
    then have "w' = stepsK sv (ls1 @ ls2) w" by simp
    then show ?thesis by blast
  qed
qed

lemma writeless_map [writeless_intros]: "writeless sv m \<Longrightarrow> writeless sv (mapErrK g m)"
  unfolding writeless_def mapErrK_def by (auto split: prod.splits sum.splits)

lemma writeless_if [writeless_intros]: "writeless sv m \<Longrightarrow> writeless sv m' \<Longrightarrow> writeless sv (if b then m else m')"
  by simp

lemma writeless_confirm [writeless_intros]: "writeless sv (ckConfirmLock sv)"
  unfolding ckConfirmLock_def by (intro writeless_intros)

lemma writeless_refused [writeless_intros]: "writeless sv (saveRefused sv key cp)"
  unfolding saveRefused_def by (intro writeless_bind writeless_intros) (auto intro!: writeless_intros split: option.splits sum.splits)

lemma writeless_retry [writeless_intros]:
  assumes "writeless sv m"
  shows "writeless sv (retryTransient sv left i backoff prior m)"
proof (induction left arbitrary: i prior)
  case 0
  then show ?case by (simp add: writeless_intros)
next
  case (Suc left)
  show ?case unfolding writeless_def
  proof (intro allI impI)
    fix w r w' assume run: "retryTransient sv (Suc left) i backoff prior m w = (r, w')"
    obtain r1 w1 where m: "m w = (r1, w1)" by fastforce
    obtain ls where ls: "w1 = stepsK sv ls w" using assms m unfolding writeless_def by blast
    have rest: "\<exists>ls'. v = stepsK sv ls' w" if "retryTransient sv left (add64 i 1) backoff e m w1 = (q, v)" for e q v
      using Suc.IH that unfolding writeless_def ls by (metis stepsK_simps(3))
    show "\<exists>ls. w' = stepsK sv ls w" using run m rest ls by (auto split: sum.splits if_splits option.splits)
  qed
qed

lemma runK_ok: "runK sv l f w = (Inr a, w') \<Longrightarrow> w' = stepK sv l w \<and> f (kw_tick w) (kw_db w') = Inr a"
  by (auto simp: runK_def Let_def split: option.splits)

lemma refused_fails: "saveRefused sv key cp w = (r, w') \<Longrightarrow> \<exists>e. r = Inl e"
  unfolding saveRefused_def by (erule bindK_cases) (auto simp: failK_def split: option.splits sum.splits)

lemma commitK_cases:
  assumes "commitK sv l write w = (r, w')"
  shows "(w' = stepK sv l w \<and> (\<exists>e. r = Inl e)) \<or> w' = (stepK sv l w)\<lparr>kw_db := write (kw_db (stepK sv l w))\<rparr>"
  using assms by (auto simp: commitK_def Let_def split: option.splits if_splits)

text \<open>Before its statement a save has only been confirmed; after it, it commits the statement's row or nothing.\<close>

lemma Save_cases:
  assumes "Save sv lock cp w = (r, w')"
  defines "key \<equiv> (ck_Schema cp, ck_Table cp)"
  obtains (stays) ls e where "w' = stepsK sv ls w" "r = Inl e"
  | (wrote) ls row n where "is_ok (checkpointValidate cp)"
      "saveStatement sv key (savedRow cp (kv_clock sv n)) (kw_db (stepsK sv ls w)) = Inr (Some row)"
      "w' = (stepK sv [RowLock key] (stepsK sv ls w))\<lparr>kw_db := putRow key (Some row) (kw_db (stepK sv [RowLock key] (stepsK sv ls w)))\<rparr>"
proof -
  let ?stmt = "mapErrK tableUnusable (runK sv [] (\<lambda>n. saveStatement sv key (savedRow cp (kv_clock sv n))))"
  let ?rest = "\<lambda>x. case x of None \<Rightarrow> saveRefused sv key cp | Some q \<Rightarrow> commitK sv [RowLock key] (putRow key (Some q))"
  have writeless: "writeless sv (bindK (liftK (checkpointValidate cp)) (\<lambda>_. bindK (liftK (ckRequireLock lock (ck_Schema cp) (ck_Table cp))) (\<lambda>_.
      bindK (sendK sv []) (\<lambda>_. ckConfirmLock sv))))" by (intro writeless_intros)
  have assoc: "Save sv lock cp = bindK (bindK (liftK (checkpointValidate cp)) (\<lambda>_. bindK (liftK (ckRequireLock lock (ck_Schema cp) (ck_Table cp))) (\<lambda>_.
      bindK (sendK sv []) (\<lambda>_. ckConfirmLock sv)))) (\<lambda>_. bindK ?stmt ?rest)"
    unfolding Save_def Let_def key_def by (auto simp: bindK_def fun_eq_iff split: prod.splits sum.splits)
  from assms(1)[unfolded assoc] show thesis
  proof (cases rule: bindK_cases)
    case (fails e)
    then show thesis using writeless stays unfolding writeless_def by blast
  next
    case (runs u w1)
    obtain ls where ls: "w1 = stepsK sv ls w" using writeless runs(1) unfolding writeless_def by blast
    have valid: "is_ok (checkpointValidate cp)" using runs(1)
      by (auto simp: bindK_def liftK_def failK_def split: sum.splits)
    from runs(2) show thesis
    proof (cases rule: bindK_cases)
      case (fails e)
      have "writeless sv ?stmt" by (intro writeless_intros)
      then show thesis using fails stays ls unfolding writeless_def by (metis stepsK_simps(3))
    next
      case (runs x w2)
      have r2: "runK sv [] (\<lambda>n. saveStatement sv key (savedRow cp (kv_clock sv n))) w1 = (Inr x, w2)"
        using runs(1) by (auto simp: mapErrK_def split: prod.splits sum.splits)
      have w2: "w2 = stepsK sv (ls @ [[]]) w" and st: "saveStatement sv key (savedRow cp (kv_clock sv (kw_tick w1))) (kw_db w2) = Inr x"
        using runK_ok [OF r2] ls by (auto simp: stepsK_def)
      show thesis
      proof (cases x)
        case None
        then have rf: "saveRefused sv key cp w2 = (r, w')" using runs(2) by simp
        have "\<exists>ls'. w' = stepsK sv ls' w" using writeless_refused rf w2 unfolding writeless_def by (metis stepsK_simps(3))
        then show thesis using refused_fails [OF rf] stays by blast
      next
        case (Some q)
        then have "commitK sv [RowLock key] (putRow key (Some q)) w2 = (r, w')" using runs(2) by simp
        from commitK_cases [OF this] show thesis
        proof (elim disjE conjE exE)
          fix e assume "w' = stepK sv [RowLock key] w2" "r = Inl e"
          then show thesis using stays [of "ls @ [[], [RowLock key]]" e] w2 by (simp add: stepsK_def)
        next
          assume "w' = (stepK sv [RowLock key] w2)\<lparr>kw_db := putRow key (Some q) (kw_db (stepK sv [RowLock key] w2))\<rparr>"
          then show thesis using wrote valid st w2 Some by blast
        qed
      qed
    qed
  qed
qed

section \<open>What PostgreSQL promises\<close>

text \<open>
  A session that has written a row keeps the row and the table's definition until it commits; a session with the
  store's advisory lock for the table's definition keeps the definition; no run claims a slot whose lock another holds.
\<close>

definition claims :: "string \<Rightarrow> ckStored \<Rightarrow> bool" where
  "claims slot r \<longleftrightarrow> ks_slotName r = slot \<and> ks_phase r \<noteq> Phase_String PhaseDone \<and> ks_phase r \<noteq> Phase_String PhaseFailed"

definition lawfulK :: "ck_server \<Rightarrow> bool" where
  "lawfulK sv \<longleftrightarrow> (\<forall>n locks db.
     (\<forall>key. RowLock key \<in> set locks \<longrightarrow> kd_rows (kv_others sv n locks db) key = kd_rows db key \<and> kd_table (kv_others sv n locks db) = kd_table db)
     \<and> (EnsureLock \<in> set locks \<longrightarrow> kd_schemaOwner (kv_others sv n locks db) = kd_schemaOwner db \<and> kd_table (kv_others sv n locks db) = kd_table db)
     \<and> (\<forall>slot key r. SlotLock slot \<in> set locks \<longrightarrow> kd_rows (kv_others sv n locks db) key = Some r \<longrightarrow> claims slot r \<longrightarrow> (\<exists>r0. kd_rows db key = Some r0 \<and> claims slot r0)))"

lemma lawfulK_row:
  assumes "lawfulK sv"
  shows "kd_rows (kw_db (stepK sv [RowLock key] w)) key = kd_rows (kw_db w) key" "kd_table (kw_db (stepK sv [RowLock key] w)) = kd_table (kw_db w)"
proof -
  have "\<forall>n locks db. RowLock key \<in> set locks \<longrightarrow> kd_rows (kv_others sv n locks db) key = kd_rows db key \<and> kd_table (kv_others sv n locks db) = kd_table db"
    using assms unfolding lawfulK_def by blast
  then show "kd_rows (kw_db (stepK sv [RowLock key] w)) key = kd_rows (kw_db w) key" "kd_table (kw_db (stepK sv [RowLock key] w)) = kd_table (kw_db w)"
    by (simp_all add: stepK_def)
qed

section \<open>Saving and loading\<close>

lemma saveStatement_Some:
  assumes "saveStatement sv key new db = Inr (Some row)"
  shows "usable tableColumnNames db = Inr ()"
    "row = new\<lparr>ks_shadowProof := ks_shadowProof row, ks_statement := ks_statement row\<rparr>"
    "ks_shadowProof new \<noteq> None \<Longrightarrow> ks_shadowProof row = ks_shadowProof new" "ks_statement new \<noteq> None \<Longrightarrow> ks_statement row = ks_statement new"
    "kd_rows db key = Some old \<Longrightarrow> ks_shadowProof new = None \<Longrightarrow> ks_shadowProof row = ks_shadowProof old"
    "kd_rows db key = Some old \<Longrightarrow> ks_statement new = None \<Longrightarrow> ks_statement row = ks_statement old"
    "kd_rows db key = Some old \<Longrightarrow> ks_formatVersion old = ks_formatVersion new \<and> ks_sourceFingerprint old = ks_sourceFingerprint new
       \<and> ks_targetFingerprint old = ks_targetFingerprint new \<and> ks_phase old \<in> set knownPhases
       \<and> writeOnce (kv_jsonb sv) (ks_shadowProof old) (ks_shadowProof new) \<and> writeOnce (=) (ks_statement old) (ks_statement new)"
  using assms by (auto simp: saveStatement_def coalesce_def split: sum.splits option.splits if_splits)

lemma validate_phase: "is_ok (checkpointValidate cp) \<Longrightarrow> parsePhase (Phase_String (ck_Phase cp)) = Some (ck_Phase cp)"
  by (rule parsePhase_String) (auto simp: checkpointValidate_def split: if_splits)

lemma validate_proof: "is_ok (checkpointValidate cp) \<Longrightarrow> ck_ShadowProof cp \<noteq> RawEmpty \<Longrightarrow> \<exists>d. ck_ShadowProof cp = RawDoc d"
  by (auto simp: checkpointValidate_def validateShadowProof_def split: if_splits rawMessage.splits)

lemma usable_table: "usable names db = Inr () \<Longrightarrow> kd_table db' = kd_table db \<Longrightarrow> usable names db' = Inr ()"
  by (simp add: usable_def)

lemma savedRow_checkpoint:
  assumes "is_ok (checkpointValidate cp)" "wm_valid (ck_Watermark cp) \<or> ck_Watermark cp = zeroWatermark"
    and "row = (savedRow cp now)\<lparr>ks_shadowProof := p, ks_statement := s\<rparr>"
  shows "incompatibility (checkpointFingerprints cp) (readStored (ck_Schema cp, ck_Table cp) row) = None"
    "rowCheckpoint (readStored (ck_Schema cp, ck_Table cp) row) = Inr (cp\<lparr>ck_UpdatedAt := now - now mod 1000,
       ck_ShadowProof := (case p of None \<Rightarrow> RawEmpty | Some d \<Rightarrow> RawDoc d), ck_Statement := (case s of None \<Rightarrow> '''' | Some x \<Rightarrow> x)\<rparr>)"
proof -
  have mark: "(case watermarkColumn (ck_Watermark cp) of None \<Rightarrow> zeroWatermark | Some v \<Rightarrow> NewWatermark v) = ck_Watermark cp"
    using assms(2) by (auto simp: watermarkColumn_def NewWatermark_def zeroWatermark_def)
  have time: "1000 * (now div 1000) = now - now mod 1000" by (simp add: minus_mod_eq_mult_div)
  show "incompatibility (checkpointFingerprints cp) (readStored (ck_Schema cp, ck_Table cp) row) = None"
    using validate_phase [OF assms(1)] unfolding assms(3)
    by (simp add: incompatibility_def incompatibleWith_def readStored_def savedRow_def checkpointFingerprints_def phaseKnown_def)
  show "rowCheckpoint (readStored (ck_Schema cp, ck_Table cp) row) = Inr (cp\<lparr>ck_UpdatedAt := now - now mod 1000,
       ck_ShadowProof := (case p of None \<Rightarrow> RawEmpty | Some d \<Rightarrow> RawDoc d), ck_Statement := (case s of None \<Rightarrow> '''' | Some x \<Rightarrow> x)\<rparr>)"
    using validate_phase [OF assms(1)] unfolding assms(3)
    by (simp add: rowCheckpoint_def readStored_def savedRow_def ParseLSN_String mark time)
qed

lemma Load_reads:
  assumes "kv_answer sv (kw_tick w) = None" "1 \<le> kp_LoadAttempts opts" "readRow key (kv_others sv (kw_tick w) [] (kw_db w)) = Inr stored"
    and "admit stored = None" "rowCheckpoint stored = Inr cp"
  shows "\<exists>w'. loadGuarded sv opts key admit w = (Inr cp, w')"
proof -
  obtain k where k: "nat (kp_LoadAttempts opts) = Suc k" using assms(2) by (metis Suc_pred' nat_le_iff zero_less_nat_eq zero_less_one_class.zero_less_one order_less_le_trans)
  show ?thesis using assms by (simp add: loadGuarded_def k runK_def stepK_def)
qed


section \<open>Rows of others\<close>

definition keepsRow :: "ck_server \<Rightarrow> ckKey \<Rightarrow> ckStored \<Rightarrow> bool" where
  "keepsRow sv key r \<longleftrightarrow> (\<forall>n locks db. kd_rows db key = Some r \<longrightarrow> kd_rows (kv_others sv n locks db) key = Some r)"

lemma keepsRow_step: "keepsRow sv key r \<Longrightarrow> kd_rows (kw_db w) key = Some r \<Longrightarrow> kd_rows (kw_db (stepK sv l w)) key = Some r"
  by (simp add: keepsRow_def stepK_def)

lemma keepsRow_steps: "keepsRow sv key r \<Longrightarrow> kd_rows (kw_db w) key = Some r \<Longrightarrow> kd_rows (kw_db (stepsK sv ls w)) key = Some r"
  by (induction ls arbitrary: w) (simp_all add: keepsRow_step)

text \<open>Which rows refuse a save: another identity or phase, another proof, another statement.\<close>

definition refusesSave :: "ck_server \<Rightarrow> Checkpoint \<Rightarrow> ckStored \<Rightarrow> bool" where
  "refusesSave sv cp r \<longleftrightarrow> incompatibility (checkpointFingerprints cp) (readStored (ck_Schema cp, ck_Table cp) r) \<noteq> None
     \<or> \<not> writeOnce (kv_jsonb sv) (ks_shadowProof r) (shadowProofColumn (ck_ShadowProof cp))
     \<or> \<not> writeOnce (=) (ks_statement r) (statementColumn (ck_Statement cp))"

lemma incompatibility_None:
  "incompatibility fp (readStored key r) = None \<longleftrightarrow> ks_formatVersion r = FormatVersion \<and> ks_sourceFingerprint r = fg_Source fp
     \<and> ks_targetFingerprint r = fg_Target fp \<and> ks_phase r \<in> set knownPhases"
  by (simp add: incompatibility_def incompatibleWith_def readStored_def phaseKnown_def parsePhase_known [simplified])

lemma saveStatement_refused:
  assumes "kd_rows db (ck_Schema cp, ck_Table cp) = Some r"
  shows "saveStatement sv (ck_Schema cp, ck_Table cp) (savedRow cp now) db = Inr (Some row) \<Longrightarrow> \<not> refusesSave sv cp r"
    "saveStatement sv (ck_Schema cp, ck_Table cp) (savedRow cp now) db = Inr None \<Longrightarrow> refusesSave sv cp r"
  using assms unfolding saveStatement_def refusesSave_def
  by (auto simp: incompatibility_None checkpointFingerprints_def savedRow_def split: sum.splits if_splits)

text \<open>
  C23: A save never touches a row that is not its own. A row in another format, of another statement, in a phase this
  engine does not know, or with another proof or statement text survives every save unchanged, also when a commit's answer is lost,
  and the save reports an error.
\<close>
theorem save_spares_foreign_row:
  assumes "keepsRow sv (ck_Schema cp, ck_Table cp) r" "kd_rows (kw_db w) (ck_Schema cp, ck_Table cp) = Some r" "refusesSave sv cp r"
    and "Save sv lock cp w = (q, w')"
  shows "kd_rows (kw_db w') (ck_Schema cp, ck_Table cp) = Some r \<and> (\<exists>e. q = Inl e)"
  using assms(4)
proof (cases rule: Save_cases)
  case (stays ls e)
  then show ?thesis using keepsRow_steps [OF assms(1,2)] by simp
next
  case (wrote ls row n)
  then show ?thesis using saveStatement_refused(1) [OF keepsRow_steps [OF assms(1,2)]] assms(3) by blast
qed

section \<open>A run's record\<close>

text \<open>What every save of a run keeps of its row: identity, a proof once it has one, and the statement.\<close>

definition sameRecord :: "ck_server \<Rightarrow> ckStored \<Rightarrow> ckStored \<Rightarrow> bool" where
  "sameRecord sv a b \<longleftrightarrow> ks_formatVersion b = ks_formatVersion a \<and> ks_sourceFingerprint b = ks_sourceFingerprint a
     \<and> ks_targetFingerprint b = ks_targetFingerprint a
     \<and> (\<forall>d. ks_shadowProof a = Some d \<longrightarrow> (\<exists>d'. ks_shadowProof b = Some d' \<and> (d' = d \<or> kv_jsonb sv d d')))
     \<and> (\<forall>s. ks_statement a = Some s \<longrightarrow> ks_statement b = Some s)"

definition keepsRecord :: "ck_server \<Rightarrow> ckKey \<Rightarrow> ckStored \<Rightarrow> bool" where
  "keepsRecord sv key a \<longleftrightarrow> (\<forall>n locks db r. kd_rows db key = Some r \<longrightarrow> sameRecord sv a r \<longrightarrow>
     (\<exists>r'. kd_rows (kv_others sv n locks db) key = Some r' \<and> sameRecord sv a r'))"

lemma keepsRecord_steps:
  assumes "keepsRecord sv key a"
  shows "(\<exists>r. kd_rows (kw_db w) key = Some r \<and> sameRecord sv a r) \<Longrightarrow> \<exists>r. kd_rows (kw_db (stepsK sv ls w)) key = Some r \<and> sameRecord sv a r"
proof (induction ls arbitrary: w)
  case (Cons l ls)
  then have "\<exists>r. kd_rows (kw_db (stepK sv l w)) key = Some r \<and> sameRecord sv a r"
    using assms unfolding keepsRecord_def stepK_def by simp metis
  then show ?case using Cons.IH by simp
qed simp

lemma saveStatement_record:
  assumes "saveStatement sv key new db = Inr (Some row)" "kd_rows db key = Some old" "sameRecord sv a old"
    and "\<And>x y z. kv_jsonb sv x y \<Longrightarrow> kv_jsonb sv y z \<Longrightarrow> kv_jsonb sv x z"
  shows "sameRecord sv a row"
proof -
  note st = saveStatement_Some [OF assms(1)]
  have eq: "ks_formatVersion row = ks_formatVersion new" "ks_sourceFingerprint row = ks_sourceFingerprint new" "ks_targetFingerprint row = ks_targetFingerprint new"
    using arg_cong [OF st(2), of ks_formatVersion] arg_cong [OF st(2), of ks_sourceFingerprint] arg_cong [OF st(2), of ks_targetFingerprint] by simp_all
  have proofs: "\<exists>d'. ks_shadowProof row = Some d' \<and> (d' = d \<or> kv_jsonb sv d d')" if d: "ks_shadowProof a = Some d" for d
  proof -
    obtain x where x: "ks_shadowProof old = Some x" "x = d \<or> kv_jsonb sv d x" using assms(3) d by (auto simp: sameRecord_def)
    show ?thesis
    proof (cases "ks_shadowProof new")
      case None
      then show ?thesis using st(5) [OF assms(2)] x by simp
    next
      case (Some y)
      then have "kv_jsonb sv x y" using st(7) [OF assms(2)] x(1) by (simp add: writeOnce_def)
      then have "y = d \<or> kv_jsonb sv d y" using x(2) assms(4) by metis
      then show ?thesis using st(3) Some by simp
    qed
  qed
  have "ks_statement row = Some s" if "ks_statement a = Some s" for s
  proof -
    have old: "ks_statement old = Some s" using that assms(3) by (simp add: sameRecord_def)
    show ?thesis
    proof (cases "ks_statement new")
      case None
      then show ?thesis using st(6) [OF assms(2)] old by simp
    next
      case (Some y)
      then show ?thesis using st(4) st(7) [OF assms(2)] old by (simp add: writeOnce_def)
    qed
  qed
  then show ?thesis using assms(3) st(7) [OF assms(2)] eq proofs by (simp add: sameRecord_def)
qed

fun runSaves :: "ck_server \<Rightarrow> (TableLockSession option \<times> Checkpoint) list \<Rightarrow> ckWorld \<Rightarrow> ckWorld" where
  "runSaves sv [] w = w"
| "runSaves sv ((lock, cp) # saves) w = runSaves sv saves (snd (Save sv lock cp w))"

text \<open>
  C24: A run's record is written once. Over any sequence of saves for a target, whatever each of them answers, the row stays
  the same statement's: its format and fingerprints do not change, a proof once present is only ever replaced by an equal one, and the
  statement's text is never cleared or changed. Only a delete ends the record.
\<close>
theorem saves_keep_record:
  assumes "keepsRecord sv key a" "\<And>x y z. kv_jsonb sv x y \<Longrightarrow> kv_jsonb sv y z \<Longrightarrow> kv_jsonb sv x z"
    and "\<forall>(lock, cp) \<in> set saves. (ck_Schema cp, ck_Table cp) = key" "kd_rows (kw_db w) key = Some r" "sameRecord sv a r"
  shows "\<exists>r'. kd_rows (kw_db (runSaves sv saves w)) key = Some r' \<and> sameRecord sv a r'"
  using assms(3-5)
proof (induction saves arbitrary: w r)
  case (Cons x saves)
  obtain lock cp where x: "x = (lock, cp)" by (cases x)
  obtain q w' where run: "Save sv lock cp w = (q, w')" by fastforce
  have key: "(ck_Schema cp, ck_Table cp) = key" using Cons.prems(1) x by simp
  note steps = keepsRecord_steps [OF assms(1)]
  from run have "\<exists>r'. kd_rows (kw_db w') key = Some r' \<and> sameRecord sv a r'"
  proof (cases rule: Save_cases)
    case (stays ls e)
    then show ?thesis using steps Cons.prems(2,3) by blast
  next
    case (wrote ls row n)
    obtain old where "kd_rows (kw_db (stepsK sv ls w)) key = Some old" "sameRecord sv a old" using steps Cons.prems(2,3) by blast
    then have "sameRecord sv a row" using saveStatement_record [OF wrote(2)] key assms(2) by blast
    then show ?thesis using wrote(3) key by (simp add: putRow_def)
  qed
  then show ?case using Cons.IH Cons.prems(1) x run by auto
qed auto

section \<open>What a load may answer\<close>

text \<open>The errors of a connection or a server: none of them is an answer of the store, nor the absence of a row.\<close>

fun transportError :: "ck_error \<Rightarrow> bool" where
  "transportError (CkPg _) = True"
| "transportError CkUnsent = True"
| "transportError CkContext = True"
| "transportError (CkOther _) = True"
| "transportError _ = False"

definition plainAnswers :: "ck_server \<Rightarrow> bool" where
  "plainAnswers sv \<longleftrightarrow> (\<forall>n e. kv_answer sv n = Some e \<longrightarrow> transportError e) \<and> (\<forall>n d e. kv_sleep sv n d = Some e \<longrightarrow> transportError e)"

lemma transportError_tree: "transportError e \<Longrightarrow> ckTree e = [e]"
  by (cases e) auto

lemma readRow_error: "readRow key db = Inl e \<Longrightarrow> e = CkNoRows \<and> kd_rows db key = None \<and> usable tableColumnNames db = Inr () \<or> transportError e"
  by (auto simp: readRow_def usable_def split: sum.splits option.splits if_splits)

text \<open>How a bounded sequence of reads ends: with a row, without one, or with an error of the transport that none of the others is.\<close>

definition readEnds :: "ckKey \<Rightarrow> ck_error + ckRow \<Rightarrow> ckWorld \<Rightarrow> bool" where
  "readEnds key r w \<longleftrightarrow>
     (case r of
        Inr row \<Rightarrow> \<exists>s. kd_rows (kw_db w) key = Some s \<and> row = readStored key s
      | Inl e \<Rightarrow> (e = CkNoRows \<and> kd_rows (kw_db w) key = None \<and> usable tableColumnNames (kw_db w) = Inr ())
          \<or> (\<forall>x \<in> set (ckTree e). transportError x \<or> (\<exists>y. x = CkExhausted y) \<or> (\<exists>y z. x = CkInterrupted y z)))"

lemma readOnce_ends:
  assumes "plainAnswers sv" "runK sv [] (\<lambda>_. readRow key) w = (r, w')"
  shows "readEnds key r w'" "kw_tick w' = kw_tick w + 1" "r = Inl e \<Longrightarrow> readRetryable e \<Longrightarrow> transportError e"
proof -
  have w': "w' = stepK sv [] w" and r: "(\<exists>e. kv_answer sv (kw_tick w) = Some e \<and> r = Inl e) \<or> r = readRow key (kw_db w')"
    using assms(2) by (auto simp: runK_def Let_def split: option.splits)
  show "kw_tick w' = kw_tick w + 1" by (simp add: w' stepK_def)
  show "readEnds key r w'" using r
  proof (elim disjE exE conjE)
    fix e assume "kv_answer sv (kw_tick w) = Some e" "r = Inl e"
    then show ?thesis using assms(1) transportError_tree by (simp add: plainAnswers_def readEnds_def)
  next
    assume "r = readRow key (kw_db w')"
    then show ?thesis using readRow_error [of key "kw_db w'"] transportError_tree
      by (fastforce simp: readEnds_def readRow_def split: sum.splits option.splits)
  qed
  show "transportError e" if "r = Inl e" "readRetryable e"
  proof -
    have "\<not> readRetryable CkNoRows" by (simp add: readRetryable_def dbRetryable_def ckPgCode_def ckIs_def)
    then show ?thesis using r that readRow_error [of key "kw_db w'" e] assms(1) by (auto simp: plainAnswers_def)
  qed
qed

lemma retry_ends:
  assumes "plainAnswers sv" "retryTransient sv (Suc left) i backoff prior (runK sv [] (\<lambda>_. readRow key)) w = (r, w')"
  shows "readEnds key r w' \<and> kw_tick w' \<le> kw_tick w + Suc left"
  using assms(2)
proof (induction left arbitrary: i prior w)
  case 0
  obtain r1 w1 where one: "runK sv [] (\<lambda>_. readRow key) w = (r1, w1)" by fastforce
  note o1 = readOnce_ends [OF assms(1) one]
  show ?case
  proof (cases r1)
    case (Inr a)
    then show ?thesis using 0 one o1(1,2) by simp
  next
    case (Inl e)
    then show ?thesis using 0 one o1(1,2) o1(3) [of e] transportError_tree [of e] by (auto simp: readEnds_def split: if_splits)
  qed
next
  case (Suc left)
  obtain r1 w1 where one: "runK sv [] (\<lambda>_. readRow key) w = (r1, w1)" by fastforce
  note o1 = readOnce_ends [OF assms(1) one]
  show ?case
  proof (cases r1)
    case (Inr a)
    then show ?thesis using Suc.prems one o1(1,2) by simp
  next
    case (Inl e)
    show ?thesis
    proof (cases "readRetryable e")
      case False
      then show ?thesis using Suc.prems one Inl o1(1,2) by simp
    next
      case True
      then have t: "transportError e" using o1(3) Inl by blast
      show ?thesis
      proof (cases "kv_sleep sv (kw_tick w1) (wrap64 (backoff * i))")
        case None
        then have "retryTransient sv (Suc left) (add64 i 1) backoff e (runK sv [] (\<lambda>_. readRow key)) w1 = (r, w')"
          using Suc.prems one Inl True by simp
        from Suc.IH [OF this] show ?thesis using o1(2) by simp
      next
        case (Some s)
        then have "transportError s" using assms(1) by (simp add: plainAnswers_def)
        then show ?thesis using Suc.prems one Inl True Some t o1(2) transportError_tree by (auto simp: readEnds_def)
      qed
    qed
  qed
qed

lemma tableUnusable_cases: "tableUnusable e = e \<or> tableUnusable e = CkTableMissing e \<or> tableUnusable e = CkTableBehind e"
  by (auto simp: tableUnusable_def split: option.splits)

text \<open>
  C25: A load's answers are told apart. It makes at most the configured number of reads; a checkpoint it returns is
  decoded from a row that the database then held, in this format, of the wanted statement and in a known phase; it reports
  that there is no checkpoint only after a read that completed and found no row in a usable table, and an incompatible row only when there is one.
  No failure of the connection reads as any of these.
\<close>
theorem load_outcomes:
  assumes "plainAnswers sv" "1 \<le> kp_LoadAttempts opts" "Load sv opts schema table want w = (r, w')"
  shows "kw_tick w' \<le> kw_tick w + nat (kp_LoadAttempts opts)
    \<and> (case r of
        Inr cp \<Rightarrow> (\<exists>s. kd_rows (kw_db w') (schema, table) = Some s \<and> ks_formatVersion s = FormatVersion \<and> ks_sourceFingerprint s = fg_Source want
          \<and> ks_targetFingerprint s = fg_Target want \<and> ks_phase s \<in> set knownPhases \<and> rowCheckpoint (readStored (schema, table) s) = Inr cp)
      | Inl CkNotFound \<Rightarrow> kd_rows (kw_db w') (schema, table) = None \<and> usable tableColumnNames (kw_db w') = Inr ()
      | Inl (CkIncompatible inc) \<Rightarrow> (\<exists>s. kd_rows (kw_db w') (schema, table) = Some s
          \<and> incompatibility want (readStored (schema, table) s) = Some inc)
      | Inl _ \<Rightarrow> True)"
proof -
  obtain k where k: "nat (kp_LoadAttempts opts) = Suc k" using assms(2) by (cases "nat (kp_LoadAttempts opts)") auto
  obtain q v where read: "retryTransient sv (Suc k) 1 (kp_LoadBackoff opts) (CkOther ''nil'') (runK sv [] (\<lambda>_. readRow (schema, table))) w = (q, v)" by fastforce
  note ends = retry_ends [OF assms(1) read]
  show ?thesis
  proof (cases q)
    case (Inl e)
    have r: "r = Inl (if ckIs CkNoRows e then CkNotFound else tableUnusable e)" "w' = v"
      using assms(3) read k Inl by (simp_all add: Load_def loadGuarded_def)
    have other: "e \<noteq> CkNotFound \<and> (\<forall>inc. e \<noteq> CkIncompatible inc) \<and> CkNoRows \<notin> set (ckTree e)"
      if "\<forall>x \<in> set (ckTree e). transportError x \<or> (\<exists>y. x = CkExhausted y) \<or> (\<exists>y z. x = CkInterrupted y z)"
      using that by (cases e) fastforce+
    show ?thesis
    proof (cases "e = CkNoRows")
      case True
      then show ?thesis using r ends Inl k by (simp add: readEnds_def ckIs_def)
    next
      case False
      then show ?thesis using r ends Inl k other tableUnusable_cases [of e] by (auto simp: readEnds_def ckIs_def split: ck_error.splits)
    qed
  next
    case (Inr row)
    then obtain s where s: "kd_rows (kw_db v) (schema, table) = Some s" "row = readStored (schema, table) s" using ends by (auto simp: readEnds_def)
    have w': "w' = v" and r: "r = (case incompatibility want row of Some inc \<Rightarrow> Inl (CkIncompatible inc) | None \<Rightarrow> rowCheckpoint row)"
      using assms(3) read k Inr by (auto simp: Load_def loadGuarded_def split: option.splits)
    show ?thesis
    proof (cases "incompatibility want row")
      case (Some inc)
      then show ?thesis using r w' s ends k by simp
    next
      case None
      then show ?thesis using r w' s ends k incompatibility_None [of want "(schema, table)" s]
        by (auto simp: rowCheckpoint_def split: option.splits sum.splits)
    qed
  qed
qed

section \<open>Deleting\<close>

lemma Delete_cases:
  assumes "Delete sv lock schema table stored w = (r, w')"
  obtains (stays) ls where "w' = stepsK sv ls w"
  | (removed) ls s where "kd_rows (kw_db (stepsK sv ls w)) (schema, table) = Some s" "rowIdentity (readStored (schema, table) s) = stored"
proof -
  let ?key = "(schema, table)"
  let ?pre = "bindK (liftK (ckRequireLock lock schema table)) (\<lambda>_. bindK (sendK sv []) (\<lambda>_. bindK (ckConfirmLock sv) (\<lambda>_.
      mapErrK tableUnusable (runK sv [] (\<lambda>_. deleteStatement ?key stored)))))"
  let ?read = "\<lambda>w. case runK sv [] (\<lambda>_. readRow ?key) w of
      (Inl e, w1) \<Rightarrow> (if ckIs CkNoRows e then Inr () else Inl e, w1)
    | (Inr current, w1) \<Rightarrow> (case incompatibleWith current stored of Some inc \<Rightarrow> (Inl (CkIncompatible inc), w1) | None \<Rightarrow> (Inl (CkInvariant []), w1))"
  have assoc: "Delete sv lock schema table stored = bindK ?pre (\<lambda>removed. if \<not> removed then ?read else commitK sv [RowLock ?key] (putRow ?key None))"
    unfolding Delete_def Let_def by (auto simp: bindK_def fun_eq_iff split: prod.splits sum.splits)
  have pre: "writeless sv ?pre" by (intro writeless_intros)
  have "writeless sv ?read" using writeless_run(1) [of sv "[]" "\<lambda>_. readRow ?key"] unfolding writeless_def by (auto split: prod.splits sum.splits option.splits)
  note read = this [unfolded writeless_def, rule_format]
  from assms(1)[unfolded assoc] show thesis
  proof (cases rule: bindK_cases)
    case (fails e)
    then show thesis using pre stays unfolding writeless_def by blast
  next
    case (runs d w1)
    obtain ls where ls: "w1 = stepsK sv ls w" using pre runs(1) unfolding writeless_def by blast
    have d: "deleteStatement ?key stored (kw_db w1) = Inr d" using runs(1)
      by (auto simp: bindK_def mapErrK_def dest: runK_ok split: prod.splits sum.splits)
    show thesis
    proof (cases d)
      case True
      then show thesis using d removed ls by (auto simp: deleteStatement_def split: sum.splits option.splits)
    next
      case False
      then obtain ls' where "w' = stepsK sv ls' w1" using runs(2) read [of w1 r w'] by auto
      then show thesis using ls stays [of "ls @ ls'"] by simp
    qed
  qed
qed

text \<open>
  A delete removes only the row its caller was shown: a row with any other identity is still there afterwards,
  whatever the delete answered.
\<close>
theorem delete_spares_other_rows:
  assumes "keepsRow sv (schema, table) s" "kd_rows (kw_db w) (schema, table) = Some s" "rowIdentity (readStored (schema, table) s) \<noteq> stored"
    and "Delete sv lock schema table stored w = (r, w')"
  shows "kd_rows (kw_db w') (schema, table) = Some s"
  using assms(4)
proof (cases rule: Delete_cases)
  case (stays ls)
  then show ?thesis using keepsRow_steps [OF assms(1,2)] by simp
next
  case (removed ls s')
  then show ?thesis using keepsRow_steps [OF assms(1,2)] assms(3) by simp
qed

section \<open>Making the table\<close>

lemma lawfulK_ensure:
  assumes "lawfulK sv"
  shows "kd_schemaOwner (kw_db (stepK sv [EnsureLock] w)) = kd_schemaOwner (kw_db w) \<and> kd_table (kw_db (stepK sv [EnsureLock] w)) = kd_table (kw_db w)"
proof -
  have "\<forall>n locks db. EnsureLock \<in> set locks \<longrightarrow> kd_schemaOwner (kv_others sv n locks db) = kd_schemaOwner db \<and> kd_table (kv_others sv n locks db) = kd_table db"
    using assms unfolding lawfulK_def by blast
  then show ?thesis by (simp add: stepK_def)
qed

definition ownTable :: "ck_server \<Rightarrow> ckDB \<Rightarrow> bool" where
  "ownTable sv db \<longleftrightarrow> kd_schemaOwner db = Some (kv_self sv)
     \<and> (\<exists>t. kd_table db = Some t \<and> kt_kind t = relkindOrdinaryTable \<and> kt_owner t = kv_self sv \<and> set (kt_columns t) = set tableColumnNames)"

definition definitionKept :: "ckWorld \<Rightarrow> ckWorld \<Rightarrow> bool" where
  "definitionKept w w' \<longleftrightarrow> kd_schemaOwner (kw_db w') = kd_schemaOwner (kw_db w) \<and> kd_table (kw_db w') = kd_table (kw_db w)"

lemma definitionKept_run:
  assumes "lawfulK sv" "runK sv [EnsureLock] f w = (r, w')"
  shows "definitionKept w w'" "r = Inr a \<Longrightarrow> f (kw_tick w) (kw_db w') = Inr a"
  using assms(2) lawfulK_ensure [OF assms(1), of w] by (auto simp: runK_def Let_def definitionKept_def split: option.splits)

lemma addColumns_kept: "lawfulK sv \<Longrightarrow> addColumns sv cs w = (r, w') \<Longrightarrow> definitionKept w w'"
proof (induction cs arbitrary: w)
  case Nil
  then show ?case by (simp add: returnK_def definitionKept_def)
next
  case (Cons c cs)
  from Cons.prems(2) [simplified] show ?case
  proof (cases rule: bindK_cases)
    case (fails e)
    then show ?thesis using definitionKept_run(1) [OF Cons.prems(1)] unfolding sendK_def by blast
  next
    case (runs u w1)
    then have "definitionKept w w1" using definitionKept_run(1) [OF Cons.prems(1)] unfolding sendK_def by blast
    then show ?thesis using Cons.IH [OF Cons.prems(1) runs(2)] by (simp add: definitionKept_def)
  qed
qed

lemma evolveTable_ok:
  assumes "lawfulK sv" "evolveTable sv w = (Inr added, w')"
  shows "definitionKept w w' \<and> added = missingColumns (liveColumns (kw_db w)) \<and> unknownColumns (liveColumns (kw_db w)) = []"
  using assms(2) unfolding evolveTable_def
proof (cases rule: bindK_cases)
  case (runs live w1)
  have k: "definitionKept w w1" "live = liveColumns (kw_db w1)" using definitionKept_run [OF assms(1) runs(1)] by auto
  then have live: "live = liveColumns (kw_db w)" by (simp add: definitionKept_def liveColumns_def)
  have un: "unknownColumns live = []" using runs(2) by (auto simp: failK_def split: if_splits)
  then have "bindK (addColumns sv (missingColumns live)) (\<lambda>_. returnK (missingColumns live)) w1 = (Inr added, w')" using runs(2) by simp
  then show ?thesis
  proof (cases rule: bindK_cases)
    case (runs u w2)
    then show ?thesis using addColumns_kept [OF assms(1) runs(1)] k live un by (simp add: returnK_def definitionKept_def)
  qed auto
qed auto

lemma putTable_own:
  assumes "inspectEngineObjects sv db = Inr (s, t)" "kd_schemaOwner db' = kd_schemaOwner db" "kd_table db' = kd_table db"
    and "t \<Longrightarrow> added = missingColumns (liveColumns db) \<and> unknownColumns (liveColumns db) = []"
  shows "ownTable sv (putTable sv s t added db')"
proof (cases t)
  case False
  then show ?thesis using assms(1,2) by (auto simp: inspectEngineObjects_def putTable_def ownTable_def split: option.splits if_splits)
next
  case True
  then obtain tb where tb: "kd_table db = Some tb" "kd_schemaOwner db = Some (kv_self sv)" "kt_kind tb = relkindOrdinaryTable" "kt_owner tb = kv_self sv" "s"
    using assms(1) by (auto simp: inspectEngineObjects_def split: option.splits if_splits)
  have "set (kt_columns tb @ added) = set tableColumnNames"
    using assms(4) [OF True] tb(1) by (auto simp: liveColumns_def missingColumns_def unknownColumns_def filter_empty_conv)
  then show ?thesis using True tb assms(2,3) by (simp add: putTable_def ownTable_def Let_def)
qed

text \<open>
  The table a successful \<open>Ensure\<close> leaves is the engine's own: a plain table it owns, in a schema it owns, with exactly
  the columns it knows, whether it was created, evolved from an older engine's or accepted as found. Every statement of the store
  then finds the columns it names.
\<close>
theorem ensure_makes_table:
  assumes "lawfulK sv" "Ensure sv w = (Inr (), w')"
  shows "ownTable sv (kw_db w') \<and> usable tableColumnNames (kw_db w') = Inr ()"
proof -
  have "ownTable sv (kw_db w')"
    using assms(2) unfolding Ensure_def
  proof (cases rule: bindK_cases)
    case (runs u1 w1)
    from runs(2) show ?thesis
    proof (cases rule: bindK_cases)
      case (runs u2 w2)
      from runs(2) show ?thesis
      proof (cases rule: bindK_cases)
        case (runs found w3)
        obtain s t where f: "found = (s, t)" by (cases found)
        have ins: "inspectEngineObjects sv (kw_db w3) = Inr (s, t)" using definitionKept_run(2) [OF assms(1) runs(1)] f by simp
        from runs(2) [unfolded f prod.case] show ?thesis
        proof (cases rule: bindK_cases)
          case (runs u4 w4)
          have k4: "definitionKept w3 w4" using runs(1) definitionKept_run(1) [OF assms(1)]
            by (auto simp: returnK_def sendK_def definitionKept_def split: if_splits)
          from runs(2) show ?thesis
          proof (cases rule: bindK_cases)
            case (runs added w5)
            have ev: "definitionKept w4 w5 \<and> (t \<longrightarrow> added = missingColumns (liveColumns (kw_db w4)) \<and> unknownColumns (liveColumns (kw_db w4)) = [])"
            proof (cases t)
              case True
              then show ?thesis using runs(1) evolveTable_ok [OF assms(1)] by simp
            next
              case False
              then have "bindK (sendK sv [EnsureLock]) (\<lambda>_. returnK []) w4 = (Inr added, w5)" using runs(1) by simp
              then show ?thesis using False definitionKept_run(1) [OF assms(1)]
                by (auto elim!: bindK_cases simp: returnK_def sendK_def)
            qed
            have "w' = (stepK sv [EnsureLock] w5)\<lparr>kw_db := putTable sv s t added (kw_db (stepK sv [EnsureLock] w5))\<rparr>"
              using commitK_cases [OF runs(2)] by auto
            then show ?thesis using putTable_own [OF ins, of "kw_db (stepK sv [EnsureLock] w5)" added] lawfulK_ensure [OF assms(1), of w5] ev k4
              by (auto simp: definitionKept_def liveColumns_def)
          qed auto
        qed auto
      qed auto
    qed auto
  qed auto
  then show ?thesis by (auto simp: ownTable_def usable_def)
qed

section \<open>One target\<close>

text \<open>A server on which nobody else writes and every statement is answered.\<close>

definition sample_server :: ck_server where
  "sample_server = \<lparr>kv_answer = (\<lambda>_. None), kv_others = (\<lambda>_ _ db. db), kv_confirm = (\<lambda>_. None), kv_commits = (\<lambda>_. True), kv_clock = (\<lambda>n. 1234567 + int n),
     kv_sleep = (\<lambda>_ _. None), kv_self = ''engine'', kv_jsonb = (=), kv_sameDatabase = (\<lambda>_. True), kv_close = (\<lambda>_. None), kv_filters = True,
     kv_slotMade = (\<lambda>_. (''0/10'', ''snap''))\<rparr>"

definition sample_checkpoint :: Checkpoint where
  "sample_checkpoint = \<lparr>ck_Schema = ''public'', ck_Table = ''orders'', ck_ShadowTable = ''orders_new'', ck_SlotName = ''pgsprite_0123abcd'',
     ck_PublicationName = ''pgsprite_0123abcd'', ck_Watermark = zeroWatermark, ck_LastAppliedLSN = 16, ck_SourceFingerprint = ''s'', ck_TargetFingerprint = ''t'',
     ck_Phase = PhaseCopying, ck_UpdatedAt = 0, ck_ShadowProof = RawDoc (JObject [(''shadow'', JString ''orders_new'')]), ck_Statement = ''ALTER TABLE orders''\<rparr>"

definition sample_lock :: TableLockSession where
  "sample_lock = \<lparr>lock_schema = ''public'', lock_table = ''orders'', lock_key = 7, lock_pid = 42, lock_lost = False\<rparr>"

definition sample_row :: ckStored where
  "sample_row = savedRow sample_checkpoint 0"

definition sample_world :: "ckStored option \<Rightarrow> ckWorld" where
  "sample_world r = \<lparr>kw_tick = 0, kw_db = \<lparr>kd_schemaOwner = Some ''engine'', kd_table = Some \<lparr>kt_kind = ''r'', kt_owner = ''engine'', kt_columns = tableColumnNames\<rparr>,
     kd_stored = (case r of None \<Rightarrow> fmempty | Some row \<Rightarrow> fmupd (''public'', ''orders'') row fmempty), kd_slots = [], kd_publications = Map.empty\<rparr>, kw_dropped = []\<rparr>"

lemma sample_laws: "lawfulK sample_server" "keepsRow sample_server key r" "keepsRecord sample_server key r" "plainAnswers sample_server"
  by (simp_all add: lawfulK_def keepsRow_def keepsRecord_def plainAnswers_def sample_server_def)

lemma sample_key: "ck_Schema sample_checkpoint = ''public''" "ck_Table sample_checkpoint = ''orders''"
  by (simp_all add: sample_checkpoint_def)


theorem save_spares_foreign_row_witness:
  "\<exists>q w'. Save sample_server (Some sample_lock) sample_checkpoint (sample_world (Some (sample_row\<lparr>ks_phase := ''paused''\<rparr>))) = (q, w')
    \<and> kd_rows (kw_db w') (''public'', ''orders'') = Some (sample_row\<lparr>ks_phase := ''paused''\<rparr>) \<and> (\<exists>e. q = Inl e)"
proof -
  let ?r = "sample_row\<lparr>ks_phase := ''paused''\<rparr>"
  obtain q w' where s: "Save sample_server (Some sample_lock) sample_checkpoint (sample_world (Some ?r)) = (q, w')" by fastforce
  have "''paused'' \<notin> set knownPhases" by code_simp
  then have "refusesSave sample_server sample_checkpoint ?r" by (simp add: refusesSave_def incompatibility_None)
  moreover have "kd_rows (kw_db (sample_world (Some ?r))) (''public'', ''orders'') = Some ?r" by (simp add: sample_world_def)
  ultimately have "kd_rows (kw_db w') (''public'', ''orders'') = Some ?r \<and> (\<exists>e. q = Inl e)"
    using save_spares_foreign_row [OF sample_laws(2) _ _ s, unfolded sample_key] by simp
  with s show ?thesis by (intro exI [of _ q] exI [of _ w'] conjI) simp_all
qed

theorem saves_keep_record_witness:
  "\<exists>r'. kd_rows (kw_db (runSaves sample_server [(Some sample_lock, sample_checkpoint\<lparr>ck_Phase := PhaseCatchingUp, ck_ShadowProof := RawEmpty\<rparr>),
      (Some sample_lock, sample_checkpoint\<lparr>ck_Statement := ''ALTER TABLE other''\<rparr>)] (sample_world (Some sample_row)))) (''public'', ''orders'') = Some r'
    \<and> sameRecord sample_server sample_row r'"
proof (rule saves_keep_record)
  show "keepsRecord sample_server (''public'', ''orders'') sample_row" by (rule sample_laws)
  show "kd_rows (kw_db (sample_world (Some sample_row))) (''public'', ''orders'') = Some sample_row" by (simp add: sample_world_def)
  show "sameRecord sample_server sample_row sample_row" by (auto simp: sameRecord_def)
qed (simp_all add: sample_server_def sample_checkpoint_def)

theorem load_outcomes_witness:
  "\<exists>w'. Load sample_server \<lparr>kp_LoadAttempts = 5, kp_LoadBackoff = 0\<rparr> ''public'' ''orders'' (checkpointFingerprints sample_checkpoint) (sample_world None) = (Inl CkNotFound, w')
    \<and> kd_rows (kw_db w') (''public'', ''orders'') = None \<and> usable tableColumnNames (kw_db w') = Inr ()"
proof -
  let ?o = "\<lparr>kp_LoadAttempts = 5, kp_LoadBackoff = 0\<rparr>"
  have "fst (Load sample_server ?o ''public'' ''orders'' (checkpointFingerprints sample_checkpoint) (sample_world None)) = Inl CkNotFound" by code_simp
  then obtain w' where "Load sample_server ?o ''public'' ''orders'' (checkpointFingerprints sample_checkpoint) (sample_world None) = (Inl CkNotFound, w')"
    by (metis prod.collapse)
  then show ?thesis using load_outcomes [OF sample_laws(4), of ?o] by fastforce
qed

theorem delete_spares_other_rows_witness:
  "\<exists>r w'. Delete sample_server (Some sample_lock) ''public'' ''orders'' (checkpointIdentity (sample_checkpoint\<lparr>ck_TargetFingerprint := ''u''\<rparr>)) (sample_world (Some sample_row))
      = (r, w') \<and> kd_rows (kw_db w') (''public'', ''orders'') = Some sample_row"
proof -
  let ?i = "checkpointIdentity (sample_checkpoint\<lparr>ck_TargetFingerprint := ''u''\<rparr>)"
  obtain r w' where d: "Delete sample_server (Some sample_lock) ''public'' ''orders'' ?i (sample_world (Some sample_row)) = (r, w')" by fastforce
  have "rowIdentity (readStored (''public'', ''orders'') sample_row) \<noteq> ?i"
    by (simp add: rowIdentity_def readStored_def sample_row_def savedRow_def sample_checkpoint_def checkpointIdentity_def checkpointFingerprints_def)
  moreover have "kd_rows (kw_db (sample_world (Some sample_row))) (''public'', ''orders'') = Some sample_row" by (simp add: sample_world_def)
  ultimately show ?thesis using delete_spares_other_rows [OF sample_laws(2) _ _ d] d by blast
qed

theorem ensure_makes_table_witness:
  "\<exists>w'. Ensure sample_server ((sample_world None)\<lparr>kw_db := (kw_db (sample_world None))\<lparr>kd_table := Some \<lparr>kt_kind = ''r'', kt_owner = ''engine'',
      kt_columns = butlast tableColumnNames\<rparr>\<rparr>\<rparr>) = (Inr (), w') \<and> ownTable sample_server (kw_db w') \<and> usable tableColumnNames (kw_db w') = Inr ()"
proof -
  let ?w = "(sample_world None)\<lparr>kw_db := (kw_db (sample_world None))\<lparr>kd_table := Some \<lparr>kt_kind = ''r'', kt_owner = ''engine'', kt_columns = butlast tableColumnNames\<rparr>\<rparr>\<rparr>"
  have "fst (Ensure sample_server ?w) = Inr ()" by code_simp
  then obtain w' where "Ensure sample_server ?w = (Inr (), w')" by (metis prod.collapse)
  then show ?thesis using ensure_makes_table [OF sample_laws(1)] by blast
qed

end
