(* ===== verification/Checkpoint_Slots.thy ===== *)
theory Checkpoint_Slots
  imports Checkpoint_Store Cutover_Dependents "HOL-Library.List_Lexorder" "HOL-Library.Char_ord" "HOL-Library.Multiset"
begin

text \<open>
  The replication slot and the publication of a target (\<open>pkg/decode\<close>: \<open>slot.go\<close>, \<open>slot_drop.go\<close>, \<open>publication.go\<close>,
  \<open>server_identity.go\<close>; \<open>copy_swap_names.go\<close> of \<open>pkg/preflight\<close>), the lock on a slot's name and the reaper of orphan slots
  (\<open>slot_lock.go\<close>, \<open>reap.go\<close> of \<open>pkg/checkpoint\<close>), over the database of theory \<open>Checkpoint_Store\<close>. Statements outside a
  transaction take effect at once; one whose answer is an error may have taken effect too.
\<close>

section \<open>Names\<close>

text \<open>The quoting of an identifier by the driver (\<open>pgx.Identifier.Sanitize\<close>) is the argument \<open>san\<close>.\<close>

definition fnv32a :: "string \<Rightarrow> 32 word" where
  "fnv32a input = fold (\<lambda>c h. xor h (of_nat (of_char c)) * 16777619) input 2166136261"

definition SlotNamePrefix :: string where "SlotNamePrefix = ''pgsprite_''"

definition CopySwapDecodingName :: "(string list \<Rightarrow> string) \<Rightarrow> string \<Rightarrow> string \<Rightarrow> string \<Rightarrow> string" where
  "CopySwapDecodingName san database schema table = SlotNamePrefix @ hexPadded 8 (unat (fnv32a (san [database, schema, table])))"

definition slotNameHex :: "char \<Rightarrow> bool" where
  "slotNameHex c = (let n = of_char c :: nat in 48 \<le> n \<and> n \<le> 57 \<or> 97 \<le> n \<and> n \<le> 102)"

definition IsEngineSlotName :: "string \<Rightarrow> bool" where
  "IsEngineSlotName name \<longleftrightarrow> take 9 name = SlotNamePrefix \<and> length name = 17 \<and> list_all slotNameHex (drop 9 name)"

definition decodingName :: "(string list \<Rightarrow> string) \<Rightarrow> CopySwapTarget \<Rightarrow> ck_error + string" where
  "decodingName san target =
     (if target_table target = '''' then Inl (CkInvariant [])
      else if \<not> target_decodesWAL target then Inl (CkInvariant [])
      else let name = CopySwapDecodingName san (target_database target) (target_schema target) (target_table target) in
        if \<not> IsEngineSlotName name then Inl (CkInvariant []) else Inr name)"

section \<open>Statements that take effect at once\<close>

definition doK :: "ck_server \<Rightarrow> ckLock list \<Rightarrow> (nat \<Rightarrow> ckDB \<Rightarrow> ck_error + 'a \<times> ckDB) \<Rightarrow> 'a ckop" where
  "doK sv locks f = (\<lambda>w. let n = kw_tick w; w1 = stepK sv locks w in
     case f n (kw_db w1) of
       Inl e \<Rightarrow> (Inl (case kv_answer sv n of Some a \<Rightarrow> a | None \<Rightarrow> e), w1)
     | Inr (a, db) \<Rightarrow>
         (case kv_answer sv n of
            Some e \<Rightarrow> (Inl e, if kv_commits sv n then w1\<lparr>kw_db := db\<rparr> else w1)
          | None \<Rightarrow> (Inr a, w1\<lparr>kw_db := db\<rparr>)))"

text \<open>What \<open>errors.Join\<close> makes of an error and that of closing the connection.\<close>

definition joinClose :: "ck_server \<Rightarrow> nat \<Rightarrow> ck_error \<Rightarrow> ck_error" where
  "joinClose sv n err = CkJoined (err # (case kv_close sv n of None \<Rightarrow> [] | Some e \<Rightarrow> [e]))"

definition sqlstateDuplicateObject :: string where "sqlstateDuplicateObject = ''42710''"
definition sqlstateUndefinedObject :: string where "sqlstateUndefinedObject = ''42704''"
definition sqlstateInsufficientPrivs :: string where "sqlstateInsufficientPrivs = ''42501''"
definition sqlstateObjectInUse :: string where "sqlstateObjectInUse = ''55006''"

definition isSQLState :: "ck_error \<Rightarrow> string \<Rightarrow> bool" where
  "isSQLState err code = (ckPgCode err = Some code)"

definition isSlotActive :: "ck_error \<Rightarrow> bool" where
  "isSlotActive err = (\<exists>e \<in> set (ckTree err). case e of CkSlotActive _ \<Rightarrow> True | _ \<Rightarrow> False)"

definition proveSameServer :: "ck_server \<Rightarrow> ckLock list \<Rightarrow> unit ckop" where
  "proveSameServer sv locks = bindK (sendK sv locks) (\<lambda>_. runK sv locks (\<lambda>n _. if kv_sameDatabase sv n then Inr () else Inl (CkInvariant [])))"

section \<open>Publications\<close>

definition publishesEveryOperation :: "publicationShape \<Rightarrow> bool" where
  "publishesEveryOperation s = (pb_insert s \<and> pb_update s \<and> pb_delete s \<and> pb_truncate s)"

text \<open>Why a publication is not the route's, if it is not.\<close>

definition notTheRoutes :: "publicationShape \<Rightarrow> string option" where
  "notTheRoutes s =
     (if pb_allTables s then Some ''it is FOR ALL TABLES''
      else if pb_schemas s \<noteq> 0 then Some ''it publishes whole schemas''
      else if \<not> publishesEveryOperation s then Some ''it does not publish every operation (insert, update, delete, truncate)''
      else if pb_viaRoot s then Some ''it publishes through the partition root''
      else if length (pb_tables s) \<noteq> 1 then Some (''it publishes '' @ itoa (int (length (pb_tables s))) @ '' tables'')
      else if pt_rowFilter (hd (pb_tables s)) then Some ''it publishes the table through a row filter''
      else if pt_columnList (hd (pb_tables s)) then Some ''it publishes a column list of the table''
      else None)"

definition readPublicationShape :: "ck_server \<Rightarrow> ckLock list \<Rightarrow> string \<Rightarrow> publicationShape option ckop" where
  "readPublicationShape sv locks name =
     bindK (runK sv locks (\<lambda>_ db. Inr (kd_publications db name))) (\<lambda>found.
     case found of
       None \<Rightarrow> returnK None
     | Some shape \<Rightarrow>
         bindK (runK sv locks (\<lambda>_ db. Inr (case kd_publications db name of None \<Rightarrow> []
           | Some s \<Rightarrow> if kv_filters sv then pb_tables s else map (\<lambda>t. t\<lparr>pt_rowFilter := False, pt_columnList := False\<rparr>) (pb_tables s)))) (\<lambda>tables.
         if kv_filters sv
         then bindK (runK sv locks (\<lambda>_ db. Inr (case kd_publications db name of None \<Rightarrow> 0 | Some s \<Rightarrow> pb_schemas s))) (\<lambda>schemas.
           returnK (Some (shape\<lparr>pb_tables := tables, pb_schemas := schemas\<rparr>)))
         else returnK (Some (shape\<lparr>pb_tables := tables, pb_schemas := 0\<rparr>))))"

definition verifyPublication :: "ck_server \<Rightarrow> ckLock list \<Rightarrow> (string list \<Rightarrow> string) \<Rightarrow> string \<Rightarrow> CopySwapTarget \<Rightarrow> unit ckop" where
  "verifyPublication sv locks san name target =
     bindK (readPublicationShape sv locks name) (\<lambda>found.
     case found of
       None \<Rightarrow> failK (CkOther ''gone'')
     | Some shape \<Rightarrow>
         (case notTheRoutes shape of
            Some detail \<Rightarrow> failK (CkForeignState ForeignObjectPublication name detail)
          | None \<Rightarrow>
              let published = hd (pb_tables shape) in
              if pt_schema published \<noteq> target_schema target \<or> pt_table published \<noteq> target_table target
              then failK (CkForeignState ForeignObjectPublication name (''it publishes '' @ san [pt_schema published, pt_table published]
                @ '', not the target '' @ san [target_schema target, target_table target])) else returnK ()))"

definition routePublication :: "CopySwapTarget \<Rightarrow> publicationShape" where
  "routePublication target = \<lparr>pb_allTables = False, pb_insert = True, pb_update = True, pb_delete = True, pb_truncate = True, pb_viaRoot = False, pb_schemas = 0,
     pb_tables = [\<lparr>pt_schema = target_schema target, pt_table = target_table target, pt_rowFilter = False, pt_columnList = False\<rparr>]\<rparr>"

definition createPublication :: "string \<Rightarrow> CopySwapTarget \<Rightarrow> ckDB \<Rightarrow> ck_error + unit \<times> ckDB" where
  "createPublication name target db =
     (case kd_publications db name of
        Some _ \<Rightarrow> Inl (CkPg sqlstateDuplicateObject)
      | None \<Rightarrow> Inr ((), db\<lparr>kd_publications := (kd_publications db)(name \<mapsto> routePublication target)\<rparr>))"

definition ensurePublication :: "ck_server \<Rightarrow> ckLock list \<Rightarrow> (string list \<Rightarrow> string) \<Rightarrow> string \<Rightarrow> CopySwapTarget \<Rightarrow> unit ckop" where
  "ensurePublication sv locks san name target =
     bindK (runK sv locks (\<lambda>n _. if kv_sameDatabase sv n then Inr () else Inl (CkInvariant []))) (\<lambda>_ w.
     case doK sv locks (\<lambda>_. createPublication name target) w of
       (Inr _, w1) \<Rightarrow> (Inr (), w1)
     | (Inl e, w1) \<Rightarrow>
         if isSQLState e sqlstateDuplicateObject then verifyPublication sv locks san name target w1
         else if isSQLState e sqlstateInsufficientPrivs then (Inl (CkPublicationPrivilege e), w1)
         else (Inl e, w1))"

definition dropPublication :: "string \<Rightarrow> ckDB \<Rightarrow> ck_error + unit \<times> ckDB" where
  "dropPublication name db = Inr ((), db\<lparr>kd_publications := (kd_publications db)(name := None)\<rparr>)"

definition dropOwnPublication :: "ck_server \<Rightarrow> ckLock list \<Rightarrow> string \<Rightarrow> unit ckop" where
  "dropOwnPublication sv locks name =
     bindK (readPublicationShape sv locks name) (\<lambda>found.
     case found of
       None \<Rightarrow> returnK ()
     | Some shape \<Rightarrow>
         (case notTheRoutes shape of
            Some detail \<Rightarrow> failK (CkForeignState ForeignObjectPublication name detail)
          | None \<Rightarrow> doK sv locks (\<lambda>_. dropPublication name)))"

section \<open>Dropping a slot\<close>

definition slotNamed :: "ckDB \<Rightarrow> string \<Rightarrow> slotState option" where
  "slotNamed db name = find (\<lambda>s. sl_name s = name) (kd_slots db)"

text \<open>Whether the slot exists and, if so, is a logical one of this database.\<close>

definition slotIsOwn :: "ck_server \<Rightarrow> ckLock list \<Rightarrow> string \<Rightarrow> bool option ckop" where
  "slotIsOwn sv locks name = runK sv locks (\<lambda>_ db. Inr (map_option sl_own (slotNamed db name)))"

definition confirmSlotGone :: "ck_server \<Rightarrow> ckLock list \<Rightarrow> string \<Rightarrow> unit ckop" where
  "confirmSlotGone sv locks name = bindK (slotIsOwn sv locks name) (\<lambda>found. if found \<noteq> None then failK (CkInvariant []) else returnK ())"

definition withoutSlot :: "string \<Rightarrow> ckDB \<Rightarrow> ckDB" where
  "withoutSlot name db = db\<lparr>kd_slots := filter (\<lambda>s. sl_name s \<noteq> name) (kd_slots db)\<rparr>"

text \<open>The server's side of the command; a drop that waits for a holder takes effect once the holder is gone, and a drop that takes effect is logged.\<close>

definition dropCommand :: "ck_server \<Rightarrow> ckLock list \<Rightarrow> string \<Rightarrow> bool \<Rightarrow> unit ckop" where
  "dropCommand sv locks name wait = (\<lambda>w. let n = kw_tick w; w1 = stepK sv locks w in
     case slotNamed (kw_db w1) name of
       None \<Rightarrow> (Inl (case kv_answer sv n of Some a \<Rightarrow> a | None \<Rightarrow> CkPg sqlstateUndefinedObject), w1)
     | Some s \<Rightarrow>
         if sl_active s \<and> \<not> wait then (Inl (case kv_answer sv n of Some a \<Rightarrow> a | None \<Rightarrow> CkPg sqlstateObjectInUse), w1)
         else let w2 = w1\<lparr>kw_db := withoutSlot name (kw_db w1), kw_dropped := kw_dropped w1 @ [(name, kw_db w1)]\<rparr> in
           (case kv_answer sv n of Some e \<Rightarrow> (Inl e, if kv_commits sv n then w2 else w1) | None \<Rightarrow> (Inr (), w2)))"

definition dropReplicationSlot :: "ck_server \<Rightarrow> ckLock list \<Rightarrow> string \<Rightarrow> bool \<Rightarrow> unit ckop" where
  "dropReplicationSlot sv locks name wait =
     bindK (sendK sv locks) (\<lambda>_ w.
     case proveSameServer sv locks w of
       (Inl e, w1) \<Rightarrow> (Inl (joinClose sv (kw_tick w1) e), w1)
     | (Inr _, w1) \<Rightarrow>
         (case dropCommand sv locks name wait w1 of
            (r, w2) \<Rightarrow>
              let closed = (case kv_close sv (kw_tick w2) of None \<Rightarrow> Inr () | Some c \<Rightarrow> Inl c) in
              (case r of
                 Inr _ \<Rightarrow> (closed, w2)
               | Inl e \<Rightarrow>
                   if isSQLState e sqlstateUndefinedObject then (closed, w2)
                   else if \<not> wait \<and> isSQLState e sqlstateObjectInUse then (Inl (joinClose sv (kw_tick w2) (CkSlotActive e)), w2)
                   else (Inl (joinClose sv (kw_tick w2) e), w2))))"

definition dropSlot :: "ck_server \<Rightarrow> ckLock list \<Rightarrow> string \<Rightarrow> bool \<Rightarrow> unit ckop" where
  "dropSlot sv locks name wait =
     (if \<not> IsEngineSlotName name then failK (CkInvariant [])
      else bindK (slotIsOwn sv locks name) (\<lambda>found.
        case found of
          None \<Rightarrow> returnK ()
        | Some own \<Rightarrow>
            if \<not> own then failK (CkForeignState ForeignObjectSlot name ''it belongs to another database or is a physical slot'')
            else bindK (dropReplicationSlot sv locks name wait) (\<lambda>_. confirmSlotGone sv locks name)))"

definition dropSlotAndPublication :: "ck_server \<Rightarrow> ckLock list \<Rightarrow> string \<Rightarrow> bool \<Rightarrow> unit ckop" where
  "dropSlotAndPublication sv locks name wait = bindK (dropSlot sv locks name wait) (\<lambda>_. dropOwnPublication sv locks name)"

definition DropSlot :: "ck_server \<Rightarrow> ckLock list \<Rightarrow> string \<Rightarrow> unit ckop" where
  "DropSlot sv locks name = dropSlotAndPublication sv locks name True"

definition DropIdleSlot :: "ck_server \<Rightarrow> ckLock list \<Rightarrow> string \<Rightarrow> unit ckop" where
  "DropIdleSlot sv locks name = dropSlotAndPublication sv locks name False"

section \<open>Creating a slot\<close>

record createdSlot =
  cs_name :: string
  cs_consistentPoint :: LSN
  cs_snapshotName :: string

definition createCommand :: "string \<Rightarrow> ckDB \<Rightarrow> ck_error + unit \<times> ckDB" where
  "createCommand name db =
     (case slotNamed db name of
        Some _ \<Rightarrow> Inl (CkPg sqlstateDuplicateObject)
      | None \<Rightarrow> Inr ((), db\<lparr>kd_slots := kd_slots db @ [\<lparr>sl_name = name, sl_own = True, sl_active = False\<rparr>]\<rparr>))"

definition dropUnusableSlot :: "ck_server \<Rightarrow> ckLock list \<Rightarrow> string \<Rightarrow> ck_error \<Rightarrow> createdSlot ckop" where
  "dropUnusableSlot sv locks name cause = (\<lambda>w.
     case dropCommand sv locks name False w of
       (r, w1) \<Rightarrow> (Inl (CkJoined (cause # (case r of Inl e \<Rightarrow> [e] | Inr _ \<Rightarrow> []) @ (case kv_close sv (kw_tick w1) of None \<Rightarrow> [] | Some c \<Rightarrow> [c]))), w1))"

definition CreateSlot :: "ck_server \<Rightarrow> ckLock list \<Rightarrow> (string list \<Rightarrow> string) \<Rightarrow> CopySwapTarget \<Rightarrow> createdSlot ckop" where
  "CreateSlot sv locks san target =
     bindK (liftK (decodingName san target)) (\<lambda>name.
     bindK (ensurePublication sv locks san name target) (\<lambda>_.
     bindK (sendK sv locks) (\<lambda>_ w.
     case proveSameServer sv locks w of
       (Inl e, w1) \<Rightarrow> (Inl (joinClose sv (kw_tick w1) e), w1)
     | (Inr _, w1) \<Rightarrow>
         (case doK sv locks (\<lambda>_. createCommand name) w1 of
            (Inl e, w2) \<Rightarrow> (Inl (joinClose sv (kw_tick w2) (if isSQLState e sqlstateDuplicateObject then CkSlotExists name else e)), w2)
          | (Inr _, w2) \<Rightarrow>
              (case kv_slotMade sv (kw_tick w1) of (point, snapshot) \<Rightarrow>
                 (case ParseLSN point of
                    None \<Rightarrow> dropUnusableSlot sv locks name (CkOther ''consistent point'') w2
                  | Some lsn \<Rightarrow>
                      if snapshot = '''' then dropUnusableSlot sv locks name (CkInvariant []) w2
                      else (Inr \<lparr>cs_name = name, cs_consistentPoint = lsn, cs_snapshotName = snapshot\<rparr>, w2)))))))"

definition ReplaceSlot :: "ck_server \<Rightarrow> ckLock list \<Rightarrow> (string list \<Rightarrow> string) \<Rightarrow> CopySwapTarget \<Rightarrow> createdSlot ckop" where
  "ReplaceSlot sv locks san target =
     bindK (liftK (decodingName san target)) (\<lambda>name. bindK (dropSlot sv locks name True) (\<lambda>_. CreateSlot sv locks san target))"

section \<open>The reaper\<close>

record Reaped =
  rp_Dropped :: "string list"
  rp_Live :: "string list"
  rp_Active :: "string list"
  rp_Foreign :: "string list"

definition candidateSlots :: "ck_server \<Rightarrow> slotState list ckop" where
  "candidateSlots sv = runK sv [] (\<lambda>_ db. Inr (sort_key sl_name (filter (\<lambda>s. sl_own s \<and> take 9 (sl_name s) = SlotNamePrefix) (kd_slots db))))"

text \<open>Which of the names a row in a non-terminal phase owns.\<close>

definition liveRowSlots :: "ck_server \<Rightarrow> ckLock list \<Rightarrow> string list \<Rightarrow> (string \<Rightarrow> bool) ckop" where
  "liveRowSlots sv locks names = mapErrK tableUnusable (runK sv locks (\<lambda>_ db.
     case usable [''slot_name'', ''phase''] db of
       Inl e \<Rightarrow> Inl e
     | Inr _ \<Rightarrow> Inr (\<lambda>name. name \<in> set names \<and> fBex (fmran (kd_stored db)) (claims name))))"

definition proveSameDatabase :: "ck_server \<Rightarrow> unit ckop" where
  "proveSameDatabase sv = bindK (sendK sv []) (\<lambda>_. runK sv [] (\<lambda>n _. if kv_sameDatabase sv n then Inr () else Inl (CkInvariant [])))"

text \<open>
  \<open>WithSlotLock\<close> closes its connection however the work under the lock ends; the work's state is kept either way. The lock is
  taken to last as long as that connection is not closed.
\<close>

definition WithSlotLock :: "ck_server \<Rightarrow> string \<Rightarrow> ('s \<Rightarrow> ckWorld \<Rightarrow> (ck_error option \<times> 's) \<times> ckWorld) \<Rightarrow> 's \<Rightarrow> ckWorld \<Rightarrow> (ck_error option \<times> 's) \<times> ckWorld" where
  "WithSlotLock sv name work s = (\<lambda>w.
     case sendK sv [] w of
       (Inl e, w1) \<Rightarrow> ((Some e, s), w1)
     | (Inr _, w1) \<Rightarrow>
         (let release = (\<lambda>err n. case (err, kv_close sv n) of (None, None) \<Rightarrow> None
              | (Some e, None) \<Rightarrow> Some (CkJoined [e]) | (None, Some c) \<Rightarrow> Some (CkJoined [c]) | (Some e, Some c) \<Rightarrow> Some (CkJoined [e, c])) in
          case bindK (sendK sv []) (\<lambda>_. bindK (proveSameDatabase sv) (\<lambda>_. sendK sv [])) w1 of
            (Inl e, w2) \<Rightarrow> ((release (Some e) (kw_tick w2), s), w2)
          | (Inr _, w2) \<Rightarrow> (case work s w2 of ((err, s'), w3) \<Rightarrow> ((release err (kw_tick w3), s'), w3))))"

definition dropIfStillOrphan :: "ck_server \<Rightarrow> string \<Rightarrow> Reaped \<Rightarrow> ckWorld \<Rightarrow> (ck_error option \<times> Reaped) \<times> ckWorld" where
  "dropIfStillOrphan sv name = WithSlotLock sv name (\<lambda>reaped w.
     case liveRowSlots sv [SlotLock name] [name] w of
       (Inl e, w1) \<Rightarrow> ((Some e, reaped), w1)
     | (Inr live, w1) \<Rightarrow>
         if live name then ((None, reaped\<lparr>rp_Live := rp_Live reaped @ [name]\<rparr>), w1)
         else (case DropIdleSlot sv [SlotLock name] name w1 of
             (Inr _, w2) \<Rightarrow> ((None, reaped\<lparr>rp_Dropped := rp_Dropped reaped @ [name]\<rparr>), w2)
           | (Inl e, w2) \<Rightarrow>
               if isSlotActive e then ((None, reaped\<lparr>rp_Active := rp_Active reaped @ [name]\<rparr>), w2)
               else ((Some e, reaped), w2)))"

fun reapLoop :: "ck_server \<Rightarrow> (string \<Rightarrow> bool) \<Rightarrow> slotState list \<Rightarrow> Reaped \<Rightarrow> ckWorld \<Rightarrow> (ck_error option \<times> Reaped) \<times> ckWorld" where
  "reapLoop sv live [] reaped w = ((None, reaped), w)"
| "reapLoop sv live (c # cs) reaped w =
     (if \<not> IsEngineSlotName (sl_name c) then reapLoop sv live cs (reaped\<lparr>rp_Foreign := rp_Foreign reaped @ [sl_name c]\<rparr>) w
      else if live (sl_name c) then reapLoop sv live cs (reaped\<lparr>rp_Live := rp_Live reaped @ [sl_name c]\<rparr>) w
      else if sl_active c then reapLoop sv live cs (reaped\<lparr>rp_Active := rp_Active reaped @ [sl_name c]\<rparr>) w
      else (case dropIfStillOrphan sv (sl_name c) reaped w of
          ((Some e, reaped'), w1) \<Rightarrow> ((Some e, reaped'), w1)
        | ((None, reaped'), w1) \<Rightarrow> reapLoop sv live cs reaped' w1))"

definition ReapOrphanSlots :: "ck_server \<Rightarrow> ckWorld \<Rightarrow> (ck_error option \<times> Reaped) \<times> ckWorld" where
  "ReapOrphanSlots sv w =
     (let none = \<lparr>rp_Dropped = [], rp_Live = [], rp_Active = [], rp_Foreign = []\<rparr> in
      case candidateSlots sv w of
        (Inl e, w1) \<Rightarrow> ((Some e, none), w1)
      | (Inr candidates, w1) \<Rightarrow>
          (case liveRowSlots sv [] (map sl_name candidates) w1 of
             (Inl e, w2) \<Rightarrow> ((Some e, none), w2)
           | (Inr live, w2) \<Rightarrow> reapLoop sv live candidates none w2))"

section \<open>What an operation drops\<close>

text \<open>
  An operation started where \<open>I\<close> holds ends where \<open>I\<close> holds, and every drop it adds to the log satisfies \<open>P\<close>.
\<close>

definition droppingK :: "(ckDB \<Rightarrow> bool) \<Rightarrow> (string \<times> ckDB \<Rightarrow> bool) \<Rightarrow> (ckWorld \<Rightarrow> 'r \<times> ckWorld) \<Rightarrow> bool" where
  "droppingK I P m \<longleftrightarrow> (\<forall>w r w'. I (kw_db w) \<longrightarrow> m w = (r, w') \<longrightarrow>
     I (kw_db w') \<and> (\<exists>ds. kw_dropped w' = kw_dropped w @ ds \<and> (\<forall>d \<in> set ds. P d)))"

definition steadyK :: "ck_server \<Rightarrow> ckLock list \<Rightarrow> (ckDB \<Rightarrow> bool) \<Rightarrow> bool" where
  "steadyK sv locks I \<longleftrightarrow> (\<forall>n db. I db \<longrightarrow> I (kv_others sv n locks db))"

named_theorems dropping_intros \<open>operations by the drops they make\<close>

lemma droppingI:
  assumes "\<And>w r w'. I (kw_db w) \<Longrightarrow> m w = (r, w') \<Longrightarrow> I (kw_db w') \<and> (\<exists>ds. kw_dropped w' = kw_dropped w @ ds \<and> (\<forall>d \<in> set ds. P d))"
  shows "droppingK I P m"
  using assms unfolding droppingK_def by blast

lemma droppingD:
  assumes "droppingK I P m" "m w = (r, w')" "I (kw_db w)"
  obtains ds where "I (kw_db w')" "kw_dropped w' = kw_dropped w @ ds" "\<forall>d \<in> set ds. P d"
  using assms unfolding droppingK_def by blast

lemma dropping_step: "steadyK sv locks I \<Longrightarrow> I (kw_db w) \<Longrightarrow> I (kw_db (stepK sv locks w)) \<and> kw_dropped (stepK sv locks w) = kw_dropped w"
  by (simp add: steadyK_def stepK_def)

lemma dropping_unit [dropping_intros]: "droppingK I P (returnK a)" "droppingK I P (failK e)" "droppingK I P (liftK s)"
  by (auto simp: droppingK_def returnK_def failK_def liftK_def split: sum.splits)

lemma dropping_run [dropping_intros]:
  assumes "steadyK sv locks I"
  shows "droppingK I P (runK sv locks f)" "droppingK I P (sendK sv locks)"
proof -
  show run: "droppingK I P (runK sv locks f)" for f :: "nat \<Rightarrow> ckDB \<Rightarrow> ck_error + 'b"
    using dropping_step [OF assms] by (intro droppingI) (auto simp: runK_def Let_def split: option.splits)
  show "droppingK I P (sendK sv locks)" unfolding sendK_def by (rule run)
qed

lemma dropping_seq:
  assumes "droppingK I P m" "droppingK I P g" "m w = (a, w1)" "g w1 = (r, w')" "I (kw_db w)"
  shows "I (kw_db w') \<and> (\<exists>ds. kw_dropped w' = kw_dropped w @ ds \<and> (\<forall>d \<in> set ds. P d))"
proof -
  obtain ds1 where d1: "I (kw_db w1)" "kw_dropped w1 = kw_dropped w @ ds1" "\<forall>d \<in> set ds1. P d" using droppingD [OF assms(1,3,5)] .
  obtain ds2 where "I (kw_db w')" "kw_dropped w' = kw_dropped w1 @ ds2" "\<forall>d \<in> set ds2. P d" using droppingD [OF assms(2,4) d1(1)] .
  then show ?thesis using d1 by (intro conjI exI [of _ "ds1 @ ds2"]) auto
qed

lemma dropping_bind [dropping_intros]:
  assumes "droppingK I P m" "\<And>a. droppingK I P (f a)"
  shows "droppingK I P (bindK m f)"
proof (rule droppingI)
  fix w r w' assume I: "I (kw_db w)" and run: "bindK m f w = (r, w')"
  from run show "I (kw_db w') \<and> (\<exists>ds. kw_dropped w' = kw_dropped w @ ds \<and> (\<forall>d \<in> set ds. P d))"
  proof (cases rule: bindK_cases)
    case (fails e)
    then show ?thesis using assms(1) I unfolding droppingK_def by blast
  next
    case (runs a w1)
    then show ?thesis using dropping_seq [OF assms(1) assms(2) runs(1,2) I] by blast
  qed
qed

lemma dropping_map [dropping_intros]: "droppingK I P m \<Longrightarrow> droppingK I P (mapErrK g m)"
  unfolding droppingK_def mapErrK_def by (auto split: prod.splits sum.splits)

lemma dropping_if [dropping_intros]: "droppingK I P m \<Longrightarrow> droppingK I P m' \<Longrightarrow> droppingK I P (if b then m else m')"
  by simp

lemma dropping_do [dropping_intros]:
  assumes "steadyK sv locks I" "\<And>n db a db'. I db \<Longrightarrow> f n db = Inr (a, db') \<Longrightarrow> I db'"
  shows "droppingK I P (doK sv locks f)"
  using dropping_step [OF assms(1)] assms(2) by (intro droppingI) (fastforce simp: doK_def Let_def split: sum.splits option.splits if_splits)

text \<open>An operation that goes on after an error as after a result.\<close>

lemma dropping_case [dropping_intros]:
  assumes "droppingK I P m" "\<And>r. droppingK I P (f r)"
  shows "droppingK I P (\<lambda>w. case m w of (r, w1) \<Rightarrow> f r w1)"
proof (rule droppingI)
  fix w r w' assume I: "I (kw_db w)" and run: "(case m w of (r, w1) \<Rightarrow> f r w1) = (r, w')"
  obtain q w1 where m: "m w = (q, w1)" by fastforce
  show "I (kw_db w') \<and> (\<exists>ds. kw_dropped w' = kw_dropped w @ ds \<and> (\<forall>d \<in> set ds. P d))"
    using dropping_seq [OF assms(1) assms(2) m _ I] run m by simp
qed

lemma dropping_pure [dropping_intros]: "droppingK I P (\<lambda>w. (f w, w))"
  by (simp add: droppingK_def)

lemma dropping_proof [dropping_intros]: "steadyK sv locks I \<Longrightarrow> droppingK I P (proveSameServer sv locks)"
  unfolding proveSameServer_def by (intro dropping_intros)

lemma dropping_sameDatabase [dropping_intros]: "steadyK sv [] I \<Longrightarrow> droppingK I P (proveSameDatabase sv)"
  unfolding proveSameDatabase_def by (intro dropping_intros)

lemma dropping_slotIsOwn [dropping_intros]: "steadyK sv locks I \<Longrightarrow> droppingK I P (slotIsOwn sv locks name)" "steadyK sv locks I \<Longrightarrow> droppingK I P (confirmSlotGone sv locks name)"
  unfolding slotIsOwn_def confirmSlotGone_def by (intro dropping_intros; assumption)+

lemma dropping_shape [dropping_intros]:
  assumes "steadyK sv locks I"
  shows "droppingK I P (readPublicationShape sv locks name)"
  unfolding readPublicationShape_def by (rule dropping_bind) (auto intro!: dropping_intros assms split: option.splits)

text \<open>A fact about the rows only: no write to the slots or the publications changes it.\<close>

definition rowsOnly :: "(ckDB \<Rightarrow> bool) \<Rightarrow> bool" where
  "rowsOnly I \<longleftrightarrow> (\<forall>db db'. kd_rows db = kd_rows db' \<longrightarrow> I db = I db')"

lemma rowsOnly_eq: "rowsOnly I \<Longrightarrow> kd_rows db = kd_rows db' \<Longrightarrow> I db = I db'"
  unfolding rowsOnly_def by blast

lemma dropping_publication [dropping_intros]:
  assumes "steadyK sv locks I" "rowsOnly I"
  shows "droppingK I P (dropOwnPublication sv locks name)"
proof -
  have "droppingK I P (doK sv locks (\<lambda>_. dropPublication name))"
  proof (rule dropping_do [OF assms(1)])
    fix db a db' assume "I db" "dropPublication name db = Inr (a, db')"
    then show "I db'" using rowsOnly_eq [OF assms(2), of db db'] by (auto simp: dropPublication_def)
  qed
  then show ?thesis unfolding dropOwnPublication_def
    by (intro dropping_bind dropping_shape [OF assms(1)]) (auto intro!: dropping_unit split: option.splits)
qed

lemma dropping_command:
  assumes "steadyK sv locks I" "rowsOnly I" "\<And>db s. I db \<Longrightarrow> slotNamed db name = Some s \<Longrightarrow> \<not> sl_active s \<or> wait \<Longrightarrow> P (name, db)"
  shows "droppingK I P (dropCommand sv locks name wait)"
proof (rule droppingI)
  fix w r w' assume I: "I (kw_db w)" and run: "dropCommand sv locks name wait w = (r, w')"
  let ?w1 = "stepK sv locks w"
  have st: "I (kw_db ?w1)" "kw_dropped ?w1 = kw_dropped w" using dropping_step [OF assms(1) I] by simp_all
  have gone: "I (withoutSlot name (kw_db ?w1))" using rowsOnly_eq [OF assms(2), of "kw_db ?w1"] st(1) by (auto simp: withoutSlot_def)
  consider "w' = ?w1" | s where "slotNamed (kw_db ?w1) name = Some s" "\<not> sl_active s \<or> wait"
      "w' = ?w1\<lparr>kw_db := withoutSlot name (kw_db ?w1), kw_dropped := kw_dropped ?w1 @ [(name, kw_db ?w1)]\<rparr>"
    using run unfolding dropCommand_def Let_def by (auto split: option.splits if_splits)
  then show "I (kw_db w') \<and> (\<exists>ds. kw_dropped w' = kw_dropped w @ ds \<and> (\<forall>d \<in> set ds. P d))"
  proof cases
    case 1
    then show ?thesis using st by auto
  next
    case 2
    then show ?thesis using st gone assms(3) [OF st(1) 2(1,2)] by auto
  qed
qed

lemma dropReplicationSlot_cases:
  assumes "dropReplicationSlot sv locks name wait w = (r, w')"
  obtains (early) e where "bindK (sendK sv locks) (\<lambda>_. proveSameServer sv locks) w = (Inl e, w')" "is_ok r = False"
  | (sent) w1 q where "bindK (sendK sv locks) (\<lambda>_. proveSameServer sv locks) w = (Inr (), w1)" "dropCommand sv locks name wait w1 = (q, w')"
proof -
  obtain s w0 where s: "sendK sv locks w = (s, w0)" by fastforce
  obtain p w1 where p: "proveSameServer sv locks w0 = (p, w1)" by fastforce
  obtain q w2 where q: "dropCommand sv locks name wait w1 = (q, w2)" by fastforce
  consider e where "s = Inl e" | u e where "s = Inr u" "p = Inl e" | "s = Inr ()" "p = Inr ()" by (cases s; cases p) auto
  then show thesis
  proof cases
    case (1 e)
    then show thesis using assms s by (intro early [of e]) (auto simp: dropReplicationSlot_def bindK_def)
  next
    case (2 u e)
    then show thesis using assms s p by (intro early [of e]) (auto simp: dropReplicationSlot_def bindK_def)
  next
    case 3
    have "w' = w2" using assms by (cases q) (simp_all add: dropReplicationSlot_def bindK_def Let_def s p q 3 split: if_splits)
    then show thesis using s p q 3 by (intro sent [of w1 q]) (simp_all add: bindK_def)
  qed
qed

lemma dropping_replication:
  assumes "steadyK sv locks I" "droppingK I P (dropCommand sv locks name wait)"
  shows "droppingK I P (dropReplicationSlot sv locks name wait)"
proof (rule droppingI)
  have pre: "droppingK I P (bindK (sendK sv locks) (\<lambda>_. proveSameServer sv locks))" by (intro dropping_intros assms(1))
  fix w r w' assume I: "I (kw_db w)" and run: "dropReplicationSlot sv locks name wait w = (r, w')"
  from run show "I (kw_db w') \<and> (\<exists>ds. kw_dropped w' = kw_dropped w @ ds \<and> (\<forall>d \<in> set ds. P d))"
  proof (cases rule: dropReplicationSlot_cases)
    case (early e)
    then show ?thesis using pre I unfolding droppingK_def by blast
  next
    case (sent w1 q)
    then show ?thesis using dropping_seq [OF pre assms(2) sent I] by blast
  qed
qed

lemma dropping_dropSlot:
  assumes "steadyK sv locks I" "rowsOnly I"
    "\<And>db s. IsEngineSlotName name \<Longrightarrow> I db \<Longrightarrow> slotNamed db name = Some s \<Longrightarrow> \<not> sl_active s \<or> wait \<Longrightarrow> P (name, db)"
  shows "droppingK I P (dropSlotAndPublication sv locks name wait)"
proof -
  have "droppingK I P (dropReplicationSlot sv locks name wait)" if "IsEngineSlotName name"
    using that by (intro dropping_replication dropping_command assms) auto
  then have "droppingK I P (dropSlot sv locks name wait)" unfolding dropSlot_def
    by (auto intro!: dropping_bind dropping_slotIsOwn dropping_unit assms(1) split: option.splits)
  then show ?thesis unfolding dropSlotAndPublication_def by (intro dropping_bind dropping_publication assms(1,2))
qed

section \<open>The reaper drops orphans only\<close>

definition unclaimed :: "string \<Rightarrow> ckDB \<Rightarrow> bool" where
  "unclaimed name db \<longleftrightarrow> (\<forall>key r. kd_rows db key = Some r \<longrightarrow> \<not> claims name r)"

text \<open>A drop of a slot of the engine's shape that nobody held, while no row in flight named it.\<close>

definition orphanDrop :: "string \<times> ckDB \<Rightarrow> bool" where
  "orphanDrop d \<longleftrightarrow> (case d of (name, db) \<Rightarrow> IsEngineSlotName name \<and> unclaimed name db \<and> (\<exists>s. slotNamed db name = Some s \<and> \<not> sl_active s))"

lemma steady_unclaimed:
  assumes "lawfulK sv"
  shows "steadyK sv [SlotLock name] (unclaimed name)"
proof -
  have "\<forall>n db key r. kd_rows (kv_others sv n [SlotLock name] db) key = Some r \<longrightarrow> claims name r \<longrightarrow> (\<exists>r0. kd_rows db key = Some r0 \<and> claims name r0)"
    using assms unfolding lawfulK_def by (meson list.set_intros(1))
  then show ?thesis unfolding steadyK_def unclaimed_def by blast
qed

lemma rowsOnly_unclaimed: "rowsOnly (unclaimed name)"
  by (simp add: rowsOnly_def unclaimed_def)

lemma steady_True: "steadyK sv locks (\<lambda>_. True)"
  by (simp add: steadyK_def)

lemma idle_drops_orphan:
  assumes "lawfulK sv"
  shows "droppingK (unclaimed name) orphanDrop (DropIdleSlot sv [SlotLock name] name)"
  unfolding DropIdleSlot_def
  by (rule dropping_dropSlot [OF steady_unclaimed [OF assms] rowsOnly_unclaimed]) (auto simp: orphanDrop_def)

lemma liveRowSlots_reads:
  assumes "liveRowSlots sv locks names w = (Inr live, w')"
  shows "name \<in> set names \<Longrightarrow> \<not> live name \<Longrightarrow> unclaimed name (kw_db w')"
proof -
  have "runK sv locks (\<lambda>_ db. case usable [''slot_name'', ''phase''] db of Inl e \<Rightarrow> Inl e
      | Inr _ \<Rightarrow> Inr (\<lambda>name. name \<in> set names \<and> fBex (fmran (kd_stored db)) (claims name))) w = (Inr live, w')"
    using assms unfolding liveRowSlots_def mapErrK_def by (simp split: prod.splits sum.splits)
  from runK_ok [OF this] have "live = (\<lambda>name. name \<in> set names \<and> fBex (fmran (kd_stored (kw_db w'))) (claims name))"
    by (cases "usable [''slot_name'', ''phase''] (kw_db w')") auto
  then show "unclaimed name (kw_db w')" if "name \<in> set names" "\<not> live name" using that unfolding unclaimed_def by (auto intro: fmranI)
qed

lemma dropping_live: "steadyK sv locks I \<Longrightarrow> droppingK I P (liveRowSlots sv locks names)"
  unfolding liveRowSlots_def by (intro dropping_intros)

text \<open>Work under the slot's lock starts wherever the statements before it leave the world.\<close>

lemma dropping_withLock:
  assumes "\<And>s. droppingK (\<lambda>_. True) P (work s)"
  shows "droppingK (\<lambda>_. True) P (WithSlotLock sv name work s)"
proof (rule droppingI)
  let ?pre = "bindK (sendK sv []) (\<lambda>_. bindK (proveSameDatabase sv) (\<lambda>_. sendK sv []))"
  have send: "droppingK (\<lambda>_. True) P (sendK sv [])" and pre: "droppingK (\<lambda>_. True) P ?pre"
    by (intro dropping_intros steady_True)+
  fix w r w' assume run: "WithSlotLock sv name work s w = (r, w')"
  obtain a w1 where a: "sendK sv [] w = (a, w1)" by fastforce
  obtain b w2 where b: "?pre w1 = (b, w2)" by fastforce
  obtain c w3 where c: "work s w2 = (c, w3)" by fastforce
  obtain d1 where d1: "kw_dropped w1 = kw_dropped w @ d1" "\<forall>d \<in> set d1. P d" using droppingD [OF send a TrueI] .
  obtain d2 where d2: "kw_dropped w2 = kw_dropped w1 @ d2" "\<forall>d \<in> set d2. P d" using droppingD [OF pre b TrueI] .
  obtain d3 where d3: "kw_dropped w3 = kw_dropped w2 @ d3" "\<forall>d \<in> set d3. P d" using droppingD [OF assms c TrueI] .
  have "w' = w1 \<or> w' = w2 \<or> w' = w3"
    using run a b c by (cases a; cases b; cases c) (simp_all add: WithSlotLock_def Let_def)
  moreover have "kw_dropped w2 = kw_dropped w @ d1 @ d2" "kw_dropped w3 = kw_dropped w @ d1 @ d2 @ d3" using d1 d2 d3 by simp_all
  moreover have "\<forall>d \<in> set (d1 @ d2). P d" "\<forall>d \<in> set (d1 @ d2 @ d3). P d" using d1 d2 d3 by auto
  ultimately show "True \<and> (\<exists>ds. kw_dropped w' = kw_dropped w @ ds \<and> (\<forall>d \<in> set ds. P d))" using d1 by blast
qed

text \<open>The work under the lock: the row is read again, and only a slot no row in flight names is dropped.\<close>

lemma dropping_orphan:
  assumes "lawfulK sv"
  shows "droppingK (\<lambda>_. True) orphanDrop (dropIfStillOrphan sv name reaped)"
  unfolding dropIfStillOrphan_def
proof (rule dropping_withLock, rule droppingI)
  let ?read = "liveRowSlots sv [SlotLock name] [name]" and ?drop = "DropIdleSlot sv [SlotLock name] name"
  fix s w r w' assume run: "(case ?read w of (Inl e, w1) \<Rightarrow> ((Some e, s), w1) | (Inr live, w1) \<Rightarrow>
      if live name then ((None, s\<lparr>rp_Live := rp_Live s @ [name]\<rparr>), w1)
      else (case ?drop w1 of (Inr _, w2) \<Rightarrow> ((None, s\<lparr>rp_Dropped := rp_Dropped s @ [name]\<rparr>), w2)
        | (Inl e, w2) \<Rightarrow> if isSlotActive e then ((None, s\<lparr>rp_Active := rp_Active s @ [name]\<rparr>), w2) else ((Some e, s), w2))) = (r, w')"
  obtain a w1 where a: "?read w = (a, w1)" by fastforce
  obtain d1 where d1: "kw_dropped w1 = kw_dropped w @ d1" "\<forall>d \<in> set d1. orphanDrop d"
    using droppingD [OF dropping_live [OF steady_True] a TrueI] .
  obtain b w2 where b: "?drop w1 = (b, w2)" by fastforce
  consider "w' = w1" | live where "a = Inr live" "\<not> live name" "w' = w2"
    using run a b by (cases a; cases b) (auto split: if_splits)
  then show "True \<and> (\<exists>ds. kw_dropped w' = kw_dropped w @ ds \<and> (\<forall>d \<in> set ds. orphanDrop d))"
  proof cases
    case 1
    then show ?thesis using d1 by blast
  next
    case 2
    have "unclaimed name (kw_db w1)" using liveRowSlots_reads [OF a [unfolded 2(1)]] 2(2) by simp
    then obtain d2 where "kw_dropped w2 = kw_dropped w1 @ d2" "\<forall>d \<in> set d2. orphanDrop d"
      using droppingD [OF idle_drops_orphan [OF assms] b] by metis
    then show ?thesis using 2(3) d1 by (intro conjI exI [of _ "d1 @ d2"]) auto
  qed
qed

lemma dropping_loop:
  assumes "lawfulK sv"
  shows "droppingK (\<lambda>_. True) orphanDrop (reapLoop sv live cs reaped)"
proof (induction cs arbitrary: reaped)
  case Nil
  then show ?case by (simp add: droppingK_def)
next
  case (Cons c cs)
  show ?case
  proof (rule droppingI)
    fix w r w' assume run: "reapLoop sv live (c # cs) reaped w = (r, w')"
    obtain a s w1 where a: "dropIfStillOrphan sv (sl_name c) reaped w = ((a, s), w1)" by (metis surj_pair)
    consider s' where "reapLoop sv live cs s' w = (r, w')" | "w' = w1" | "reapLoop sv live cs s w1 = (r, w')"
      using run a by (cases a) (auto split: if_splits)
    then show "True \<and> (\<exists>ds. kw_dropped w' = kw_dropped w @ ds \<and> (\<forall>d \<in> set ds. orphanDrop d))"
    proof cases
      case 1
      then show ?thesis using Cons.IH unfolding droppingK_def by blast
    next
      case 2
      then show ?thesis using dropping_orphan [OF assms] a unfolding droppingK_def by blast
    next
      case 3
      then show ?thesis using dropping_seq [OF dropping_orphan [OF assms] Cons.IH a 3] by blast
    qed
  qed
qed

lemma Reap_cases:
  assumes "ReapOrphanSlots sv w = ((err, reaped), w')"
  obtains (unlisted) e where "candidateSlots sv w = (Inl e, w')" "err = Some e"
  | (unread) cs w1 e where "candidateSlots sv w = (Inr cs, w1)" "liveRowSlots sv [] (map sl_name cs) w1 = (Inl e, w')" "err = Some e"
  | (swept) cs w1 live w2 where "candidateSlots sv w = (Inr cs, w1)" "liveRowSlots sv [] (map sl_name cs) w1 = (Inr live, w2)"
      "reapLoop sv live cs \<lparr>rp_Dropped = [], rp_Live = [], rp_Active = [], rp_Foreign = []\<rparr> w2 = ((err, reaped), w')"
  using assms unfolding ReapOrphanSlots_def Let_def by (auto split: prod.splits sum.splits)

text \<open>
  C22: However a pass of the reaper ends, every slot it dropped has a name of the engine's shape, and at the moment of the
  drop the slot was there, nobody held it and no checkpoint row in a phase other than done or failed named it.
\<close>

theorem reap_drops_orphans_only:
  assumes "lawfulK sv" "ReapOrphanSlots sv w = ((err, reaped), w')"
  shows "\<exists>ds. kw_dropped w' = kw_dropped w @ ds \<and> (\<forall>(name, db) \<in> set ds. IsEngineSlotName name
    \<and> (\<exists>s. slotNamed db name = Some s \<and> \<not> sl_active s) \<and> (\<forall>key r. kd_rows db key = Some r \<longrightarrow> \<not> claims name r))"
proof -
  note cand = dropping_run(1) [OF steady_True, of orphanDrop sv "[]", folded candidateSlots_def]
  note live = dropping_live [OF steady_True, of orphanDrop sv "[]"]
  have "\<exists>ds. kw_dropped w' = kw_dropped w @ ds \<and> (\<forall>d \<in> set ds. orphanDrop d)"
    using assms(2)
  proof (cases rule: Reap_cases)
    case (unlisted e)
    then show ?thesis using cand unfolding candidateSlots_def droppingK_def by blast
  next
    case (unread cs w1 e)
    then show ?thesis using dropping_seq [OF cand live] unfolding candidateSlots_def by blast
  next
    case (swept cs w1 live' w2)
    have "\<exists>ds. kw_dropped w2 = kw_dropped w @ ds \<and> (\<forall>d \<in> set ds. orphanDrop d)"
      using dropping_seq [OF cand live] swept(1,2) unfolding candidateSlots_def by blast
    then obtain d1 where d1: "kw_dropped w2 = kw_dropped w @ d1" "\<forall>d \<in> set d1. orphanDrop d" by blast
    obtain d2 where "kw_dropped w' = kw_dropped w2 @ d2" "\<forall>d \<in> set d2. orphanDrop d"
      using droppingD [OF dropping_loop [OF assms(1)] swept(3) TrueI] .
    then show ?thesis using d1 by (intro exI [of _ "d1 @ d2"]) auto
  qed
  then show ?thesis by (fastforce simp: orphanDrop_def unclaimed_def)
qed

section \<open>Every candidate is filed once\<close>

definition filedNames :: "Reaped \<Rightarrow> string list" where
  "filedNames reaped = rp_Dropped reaped @ rp_Live reaped @ rp_Active reaped @ rp_Foreign reaped"

lemma filed_add [simp]:
  "mset (filedNames (s\<lparr>rp_Dropped := rp_Dropped s @ [name]\<rparr>)) = add_mset name (mset (filedNames s))"
  "mset (filedNames (s\<lparr>rp_Live := rp_Live s @ [name]\<rparr>)) = add_mset name (mset (filedNames s))"
  "mset (filedNames (s\<lparr>rp_Active := rp_Active s @ [name]\<rparr>)) = add_mset name (mset (filedNames s))"
  "mset (filedNames (s\<lparr>rp_Foreign := rp_Foreign s @ [name]\<rparr>)) = add_mset name (mset (filedNames s))"
  by (simp_all add: filedNames_def)

lemma withLock_ok:
  assumes "WithSlotLock sv name work s w = ((None, s'), w')"
  obtains w1 where "work s w1 = ((None, s'), w')"
  using assms by (auto simp: WithSlotLock_def Let_def split: prod.splits sum.splits option.splits)

lemma dropIfStillOrphan_files:
  assumes "dropIfStillOrphan sv name reaped w = ((None, reaped'), w')"
  shows "mset (filedNames reaped') = add_mset name (mset (filedNames reaped)) \<and> rp_Foreign reaped' = rp_Foreign reaped"
  using assms unfolding dropIfStillOrphan_def
  by (elim withLock_ok) (auto split: prod.splits sum.splits if_splits)

lemma reapLoop_files:
  "reapLoop sv live cs reaped w = ((None, reaped'), w') \<Longrightarrow>
     mset (filedNames reaped') = mset (filedNames reaped) + mset (map sl_name cs)
     \<and> rp_Foreign reaped' = rp_Foreign reaped @ filter (\<lambda>name. \<not> IsEngineSlotName name) (map sl_name cs)"
proof (induction cs arbitrary: reaped w)
  case Nil
  then show ?case by simp
next
  case (Cons c cs)
  consider "\<not> IsEngineSlotName (sl_name c)" | "IsEngineSlotName (sl_name c)" "live (sl_name c) \<or> sl_active c"
    | "IsEngineSlotName (sl_name c)" "\<not> live (sl_name c)" "\<not> sl_active c" by blast
  then show ?case
  proof cases
    case 1
    then show ?thesis using Cons.IH [of "reaped\<lparr>rp_Foreign := rp_Foreign reaped @ [sl_name c]\<rparr>"] Cons.prems by simp
  next
    case 2
    then show ?thesis
      using Cons.IH [of "reaped\<lparr>rp_Live := rp_Live reaped @ [sl_name c]\<rparr>"] Cons.IH [of "reaped\<lparr>rp_Active := rp_Active reaped @ [sl_name c]\<rparr>"] Cons.prems
      by (simp split: if_splits)
  next
    case 3
    obtain s w1 where s: "dropIfStillOrphan sv (sl_name c) reaped w = ((None, s), w1)" "reapLoop sv live cs s w1 = ((None, reaped'), w')"
      using Cons.prems 3 by (auto split: prod.splits option.splits)
    show ?thesis using dropIfStillOrphan_files [OF s(1)] Cons.IH [OF s(2)] 3(1) by simp
  qed
qed

text \<open>
  A pass of the reaper that reports no error has filed every slot it listed, each in one of the four lists and as often as
  it was listed; the foreign ones are exactly those that wear the prefix without the shape.
\<close>

theorem reap_files_candidates:
  assumes "ReapOrphanSlots sv w = ((None, reaped), w')"
  shows "\<exists>cs w1. candidateSlots sv w = (Inr cs, w1)
    \<and> mset (rp_Dropped reaped @ rp_Live reaped @ rp_Active reaped @ rp_Foreign reaped) = mset (map sl_name cs)
    \<and> rp_Foreign reaped = filter (\<lambda>name. \<not> IsEngineSlotName name) (map sl_name cs)"
  using assms
proof (cases rule: Reap_cases)
  case (swept cs w1 live w2)
  then show ?thesis using reapLoop_files [OF swept(3)] by (auto simp: filedNames_def)
qed simp_all

section \<open>A drop reported is a slot gone\<close>

text \<open>
  C27: When the drop of a slot reports success the catalog showed, at its last read, no slot of the name, and the name has the
  engine's shape. A slot of the name that is another database's or physical is refused, and nothing is dropped.
\<close>

theorem dropSlot_outcomes:
  assumes "dropSlot sv locks name wait w = (r, w')"
  shows "(r = Inr () \<longrightarrow> IsEngineSlotName name \<and> slotNamed (kw_db w') name = None)
    \<and> (\<forall>w1. slotIsOwn sv locks name w = (Inr (Some False), w1) \<and> IsEngineSlotName name \<longrightarrow>
         w' = w1 \<and> kw_dropped w' = kw_dropped w \<and> (\<exists>detail. r = Inl (CkForeignState ForeignObjectSlot name detail)))
    \<and> (\<not> IsEngineSlotName name \<longrightarrow> r = Inl (CkInvariant []) \<and> w' = w)"
proof -
  have own: "w2 = stepK sv locks w1 \<and> a = map_option sl_own (slotNamed (kw_db w2) name)" if "slotIsOwn sv locks name w1 = (Inr a, w2)" for w1 a w2
    using runK_ok [OF that [unfolded slotIsOwn_def]] by auto
  have unseen: "slotNamed (kw_db w2) name = None" if "slotIsOwn sv locks name w1 = (Inr None, w2)" for w1 w2 using own [OF that] by (metis option.map_disc_iff)
  have gone: "slotNamed (kw_db w2) name = None" if "confirmSlotGone sv locks name w1 = (Inr (), w2)" for w1 w2
    using that own unfolding confirmSlotGone_def by (elim bindK_cases) (auto simp: failK_def returnK_def split: if_splits)
  have "slotNamed (kw_db w') name = None" if "r = Inr ()" "IsEngineSlotName name"
    using assms that unseen gone unfolding dropSlot_def
    by (auto elim!: bindK_cases simp: failK_def returnK_def split: option.splits if_splits)
  moreover have "IsEngineSlotName name" if "r = Inr ()" using assms that by (auto simp: dropSlot_def failK_def split: if_splits)
  moreover have "w' = w1 \<and> kw_dropped w' = kw_dropped w \<and> (\<exists>detail. r = Inl (CkForeignState ForeignObjectSlot name detail))"
    if "slotIsOwn sv locks name w = (Inr (Some False), w1)" "IsEngineSlotName name" for w1
  proof -
    have "kw_dropped w1 = kw_dropped w" using own [OF that(1)] by (simp add: stepK_def)
    then show ?thesis using assms that by (auto simp: dropSlot_def bindK_def failK_def)
  qed
  moreover have "r = Inl (CkInvariant []) \<and> w' = w" if "\<not> IsEngineSlotName name" using assms that by (auto simp: dropSlot_def failK_def)
  ultimately show ?thesis by blast
qed

section \<open>Derived names\<close>

lemma hexPadded_digits: "list_all slotNameHex (hexPadded n m)"
proof (induction n m rule: hexPadded.induct)
  case (2 w n)
  have "slotNameHex (hexLower (n mod 16))" by (auto simp: slotNameHex_def hexLower_def Let_def)
  then show ?case using 2 by simp
qed simp

text \<open>Every derived name has the engine's shape, so the derivation refuses only an empty target and one not verified for decoding.\<close>

lemma derived_shape: "IsEngineSlotName (CopySwapDecodingName san database schema table)"
  using hexPadded_digits [of 8 "unat (fnv32a (san [database, schema, table]))"]
  unfolding IsEngineSlotName_def CopySwapDecodingName_def SlotNamePrefix_def by simp

theorem decodingName_total:
  "decodingName san target = (if target_table target = [] \<or> \<not> target_decodesWAL target then Inl (CkInvariant [])
     else Inr (CopySwapDecodingName san (target_database target) (target_schema target) (target_table target)))"
  by (simp add: decodingName_def derived_shape)

section \<open>One pass\<close>

text \<open>A database with a slot a row in flight names, an orphan, a slot that wears the prefix only and another database's slot.\<close>

definition slots_world :: ckWorld where
  "slots_world = (sample_world (Some sample_row))\<lparr>kw_db := (kw_db (sample_world (Some sample_row)))\<lparr>kd_slots :=
     [\<lparr>sl_name = ''pgsprite_deadbeef'', sl_own = True, sl_active = False\<rparr>, \<lparr>sl_name = ''pgsprite_mine'', sl_own = True, sl_active = False\<rparr>,
      \<lparr>sl_name = ''pgsprite_0123abcd'', sl_own = True, sl_active = False\<rparr>, \<lparr>sl_name = ''pgsprite_00000000'', sl_own = False, sl_active = False\<rparr>]\<rparr>\<rparr>"

lemma sample_run: "runK sample_server l f w = (f (kw_tick w) (kw_db w), w\<lparr>kw_tick := Suc (kw_tick w)\<rparr>)"
  by (simp add: runK_def stepK_def sample_server_def)

lemma sample_fields: "kv_answer sample_server n = None" "kv_close sample_server n = None" "kv_sameDatabase sample_server n" "stepK sample_server l w = w\<lparr>kw_tick := Suc (kw_tick w)\<rparr>"
  by (simp_all add: stepK_def sample_server_def)

lemma slots_shapes: "IsEngineSlotName ''pgsprite_deadbeef''" "IsEngineSlotName ''pgsprite_0123abcd''" "\<not> IsEngineSlotName ''pgsprite_mine''"
  by (simp_all add: IsEngineSlotName_def SlotNamePrefix_def slotNameHex_def)

lemma slots_claims: "claims ''pgsprite_0123abcd'' sample_row" "\<not> claims ''pgsprite_deadbeef'' sample_row"
  by code_simp+

lemma slots_usable: "usable [''slot_name'', ''phase''] (kw_db slots_world) = Inr ()"
  by code_simp

lemma slots_listed: "candidateSlots sample_server slots_world = (Inr [\<lparr>sl_name = ''pgsprite_0123abcd'', sl_own = True, sl_active = False\<rparr>,
    \<lparr>sl_name = ''pgsprite_deadbeef'', sl_own = True, sl_active = False\<rparr>, \<lparr>sl_name = ''pgsprite_mine'', sl_own = True, sl_active = False\<rparr>], slots_world\<lparr>kw_tick := 1\<rparr>)"
  by (simp add: candidateSlots_def sample_run slots_world_def sample_world_def SlotNamePrefix_def less_eq_char_def less_char_def)

lemma slots_rows: "fmran (kd_stored (kw_db slots_world)) = {|sample_row|}"
  by (auto simp: slots_world_def sample_world_def elim!: fmranE intro!: fmranI split: if_splits)

lemma slots_live:
  "liveRowSlots sample_server l names (slots_world\<lparr>kw_tick := n\<rparr>) = (Inr (\<lambda>name. name \<in> set names \<and> claims name sample_row), slots_world\<lparr>kw_tick := Suc n\<rparr>)"
  by (simp add: liveRowSlots_def mapErrK_def sample_run slots_usable slots_rows)

lemma slots_idle:
  "\<exists>w'. DropIdleSlot sample_server l ''pgsprite_deadbeef'' (slots_world\<lparr>kw_tick := n\<rparr>) = (Inr (), w') \<and> kw_dropped w' = [(''pgsprite_deadbeef'', kw_db slots_world)]"
  by (simp add: DropIdleSlot_def dropSlotAndPublication_def dropSlot_def slots_shapes slotIsOwn_def bindK_def sample_run sample_fields dropReplicationSlot_def
      proveSameServer_def sendK_def dropCommand_def confirmSlotGone_def dropOwnPublication_def readPublicationShape_def returnK_def
      slots_world_def sample_world_def slotNamed_def withoutSlot_def Let_def)

lemma slots_pass:
  "\<exists>w'. ReapOrphanSlots sample_server slots_world = ((None, \<lparr>rp_Dropped = [''pgsprite_deadbeef''], rp_Live = [''pgsprite_0123abcd''], rp_Active = [],
      rp_Foreign = [''pgsprite_mine'']\<rparr>), w') \<and> kw_dropped w' = [(''pgsprite_deadbeef'', kw_db slots_world)]"
proof -
  obtain w' where "DropIdleSlot sample_server [SlotLock ''pgsprite_deadbeef''] ''pgsprite_deadbeef'' (slots_world\<lparr>kw_tick := 8\<rparr>) = (Inr (), w')"
    "kw_dropped w' = [(''pgsprite_deadbeef'', kw_db slots_world)]" using slots_idle by blast
  then show ?thesis
    by (simp add: ReapOrphanSlots_def Let_def slots_listed slots_live slots_shapes slots_claims dropIfStillOrphan_def WithSlotLock_def sendK_def sample_run
        sample_fields bindK_def proveSameDatabase_def eval_nat_numeral)
qed

theorem reap_drops_orphans_only_witness:
  "\<exists>err reaped w'. ReapOrphanSlots sample_server slots_world = ((err, reaped), w') \<and> map fst (kw_dropped w') = [''pgsprite_deadbeef'']
    \<and> (\<forall>(name, db) \<in> set (kw_dropped w'). IsEngineSlotName name \<and> (\<exists>s. slotNamed db name = Some s \<and> \<not> sl_active s)
         \<and> (\<forall>key r. kd_rows db key = Some r \<longrightarrow> \<not> claims name r))"
proof -
  obtain err reaped w' where p: "ReapOrphanSlots sample_server slots_world = ((err, reaped), w')" "kw_dropped w' = [(''pgsprite_deadbeef'', kw_db slots_world)]"
    using slots_pass by blast
  moreover have "kw_dropped slots_world = []" by (simp add: slots_world_def sample_world_def)
  ultimately show ?thesis using reap_drops_orphans_only [OF sample_laws(1) p(1)] by (intro exI conjI) auto
qed

theorem reap_files_candidates_witness:
  "\<exists>reaped w'. ReapOrphanSlots sample_server slots_world = ((None, reaped), w') \<and> rp_Foreign reaped = [''pgsprite_mine'']
    \<and> mset (rp_Dropped reaped @ rp_Live reaped @ rp_Active reaped @ rp_Foreign reaped) = mset [''pgsprite_0123abcd'', ''pgsprite_deadbeef'', ''pgsprite_mine'']"
proof -
  obtain reaped w' where p: "ReapOrphanSlots sample_server slots_world = ((None, reaped), w')" using slots_pass by blast
  then show ?thesis using reap_files_candidates [OF p] by (intro exI conjI) (auto simp: slots_listed slots_shapes)
qed

theorem dropSlot_outcomes_witness:
  "\<exists>r w' detail. dropSlot sample_server [] ''pgsprite_00000000'' True slots_world = (r, w') \<and> kw_dropped w' = [] \<and> r = Inl (CkForeignState ForeignObjectSlot ''pgsprite_00000000'' detail)"
proof -
  obtain r w' where d: "dropSlot sample_server [] ''pgsprite_00000000'' True slots_world = (r, w')" by fastforce
  have "slotIsOwn sample_server [] ''pgsprite_00000000'' slots_world = (Inr (Some False), slots_world\<lparr>kw_tick := 1\<rparr>)"
    by (simp add: slotIsOwn_def sample_run slots_world_def sample_world_def slotNamed_def)
  moreover have "IsEngineSlotName ''pgsprite_00000000''" by (simp add: IsEngineSlotName_def SlotNamePrefix_def slotNameHex_def)
  moreover have "kw_dropped slots_world = []" by (simp add: slots_world_def sample_world_def)
  ultimately show ?thesis using dropSlot_outcomes [OF d] d by auto
qed

end
