(* ===== verification/Spec2Isabelle.thy ===== *)
theory Spec2Isabelle
  imports Copier_Work Applier_Converge Router Schema_Diff Checksum_Live Cutover_Outcome Checkpoint_Slots
begin

text \<open>
  pg-sprite changes the schema of a live PostgreSQL table. A statement is parsed
  and classified (\<open>pkg/statement\<close>, \<open>pkg/planner\<close>), routed to a backend
  (\<open>pkg/router\<close>), and a change that would rewrite the table is carried out by
  copying the table into a shadow (\<open>pkg/copier\<close>) while the changes made meanwhile
  are read from the replication stream (\<open>pkg/decode\<close>) and applied to the shadow
  (\<open>pkg/applier\<close>); the shadow is compared with the source before it may take its place
  (\<open>pkg/checksum\<close>). This library models these parts and proves what makes them
  correct.

  \<^bold>\<open>Conventions.\<close> A Go struct is a record whose fields carry a short prefix, an
  enumeration is a datatype, an \<open>int64\<close> is an \<^typ>\<open>int\<close> with the wrap-around
  written out (theory \<open>Prelude\<close>), log sequence numbers and transaction ids are words,
  a string is a list of bytes (\<open>Go_Strings\<close>). A fallible function returns a sum
  whose left side is the error; a Go map is a HOL map, and where the code iterates over
  one, the order is an argument. Whatever the engine does not own is an argument:
  the server's answers, the tables it holds, the clock, the wire parsers, the SQL
  parser, the hash function. A definition keeps the name of the Go function where
  HOL allows it.

  \<^bold>\<open>The copier.\<close>
  \<^item> \<open>Copier_Chunk\<close>: \<open>types.go\<close>, \<open>chunker.go\<close>, \<open>refusal.go\<close>. The chunks cut by any run
    of \<open>Next\<close> and \<open>Feedback\<close> tile the key space, cutting ends, and chunk sizes stay
    within their bounds. The rounding of \<open>float64\<close> is a parameter.
  \<^item> \<open>Copier_Ledger\<close>: \<open>ledger.go\<close>, \<open>position.go\<close>. The ledger's invariant; \<open>Classify\<close>
    refines a plain state per key, which only moves forward; the watermark is the
    landed prefix; rows are counted once. The locale \<open>copy_frontier\<close> is what the
    applier relies on, interpreted on the ledger.
  \<^item> \<open>Copier_Guard\<close>: \<open>copy_chunk.go\<close>, \<open>shadow.go\<close>, \<open>copy_pending.go\<close>,
    \<open>pkg/dbconn/table_lock.go\<close>. A transaction is the list of statements sent; no chunk
    statement is sent before the guard has been confirmed.
  \<^item> \<open>Copier_Work\<close>: \<open>copier.go\<close>, \<open>cut.go\<close>, \<open>retry.go\<close>, \<open>resume.go\<close>, the inserts of
    \<open>pkg/internal/chunksql\<close>. Workers are a step relation over all interleavings;
    a run \<open>finish\<close> accepts has landed every key, and retries are bounded.

  \<^bold>\<open>The stream.\<close>
  \<^item> \<open>Decode_Types\<close>, \<open>Decode_Stream\<close>: \<open>types.go\<close>, \<open>column.go\<close>, \<open>stream.go\<close>, \<open>relation.go\<close>,
    \<open>tuple.go\<close>, \<open>feedback.go\<close>. Every message handler; the delivered position never
    covers a transaction not yielded in full, and the confirmed position stays
    between what was reported and what was delivered.
  \<^item> \<open>Decode_Slot\<close>: \<open>slot_status.go\<close>, \<open>slot_lag.go\<close>.

  \<^bold>\<open>The applier.\<close>
  \<^item> \<open>Applier_Snapshot\<close>: \<open>snapshot.go\<close>; the 32-bit visibility rule agrees with the
    server's on full ids, and the text form is read back.
  \<^item> \<open>Applier_Buffer\<close>: \<open>entry.go\<close>, \<open>buffer.go\<close>, \<open>hold.go\<close>, \<open>requeue.go\<close>; buffering any
    events a table can log stands for the table they produce.
  \<^item> \<open>Applier_Drain\<close>: \<open>drain.go\<close>; what leaves the buffer, in any iteration order.
  \<^item> \<open>Applier_Flush\<close>: \<open>flusher.go\<close>, \<open>flush_sql.go\<close>, \<open>absent.go\<close>, \<open>complete.go\<close>,
    \<open>conversion.go\<close>; a flush is all or nothing, writes what its entries stand for,
    and succeeds whenever the result satisfies the constraints. One theorem shows
    a refusal the code does not mean: an image that lacks only a column the shadow
    does not have.
  \<^item> \<open>Applier_Catchup\<close>, \<open>Applier_Converge\<close>: \<open>catchup.go\<close>, \<open>pause.go\<close>; a whole cycle of the
    loop brings the shadow to the converted source table and confirms only what is
    settled. The loop reads the stream through the locale \<open>delivery_source\<close>,
    interpreted on the stream model. A cycle's gathering takes its inputs as a list and is
    \<open>None\<close> when the list ends before the code would stop reading.

  \<^bold>\<open>Verification.\<close>
  \<^item> \<open>Checksum_Verifier\<close>: \<open>verifier.go\<close>, \<open>guard.go\<close>, \<open>digest.go\<close>, \<open>check.go\<close>, \<open>policy.go\<close>, \<open>proofs.go\<close>,
    \<open>report.go\<close>, \<open>repair.go\<close>, \<open>recopy_retry.go\<close>, \<open>work.go\<close> of \<open>pkg/checksum\<close>. A pass is a sequence of
    transactions, numbered by ticks, against a server that answers every statement; between two ticks
    others may write. A proof is minted only for equal tables, a repair leaves them equal,
    a recopy is all or nothing. The sweep takes fuel; one comparison per key value is shown to be enough.
  \<^item> \<open>Checksum_Live\<close>: \<open>live.go\<close>, \<open>settle.go\<close>, \<open>live_repair.go\<close>; the same pass while the stream writes the
    shadow. A proof says that every chunk was seen to reach what the source held; a divergence of
    a shadow that only the stream writes is reported only if the source went back to an earlier state.

  \<^bold>\<open>The swap.\<close>
  \<^item> \<open>Shadow_Refusal\<close>: \<open>refusal.go\<close>, \<open>runner_copy_refusal.go\<close> of \<open>pkg/schemachange\<close>; a copier's refusal keeps its
    invariant and class under the runner's name for it.
  \<^item> \<open>Cutover_Dependents\<close>: \<open>names.go\<close>, \<open>dependents.go\<close>, \<open>dependents_retype.go\<close>, \<open>identity.go\<close>,
    \<open>identity_bounds.go\<close>, \<open>sequences.go\<close>; the names a swap gives, and the pairing of indexes, which is a matching.
  \<^item> \<open>Cutover_Grants\<close>: \<open>grants.go\<close>, \<open>cutover_grants.go\<close>; access control lists are made equal or refused.
  \<^item> \<open>Cutover_Catalog\<close>: the part of PostgreSQL's catalog the swap reads and writes, its reads (\<open>dependents.go\<close>, \<open>sequences.go\<close>,
    \<open>identity.go\<close>, \<open>inspect_swapped.go\<close>) and statements, and the classification of errors (\<open>cutover_resolve.go\<close>).
  \<^item> \<open>Cutover_Gate\<close>: \<open>cutover_gate.go\<close>, \<open>lock.go\<close>, \<open>proof.go\<close>, \<open>fidelity_drift.go\<close>. A transaction is a function of the world: the
    committed catalog, the transaction's own view of it, the locks it holds, an attempt the client lost sight of, and the
    log of commits. Other sessions run between any two statements; only a lock held keeps them from a relation.
  \<^item> \<open>Cutover_Swap\<close>: \<open>cutover.go\<close>, \<open>cutover_swap.go\<close>, \<open>cutover_handoff.go\<close>, \<open>cutover_outcome.go\<close>, \<open>cutover_resolve.go\<close>,
    \<open>cutover_backend.go\<close>, \<open>inspect_swapped.go\<close>, \<open>drop_old.go\<close>, \<open>swap_proof.go\<close>. Attempts and polls are counted down as the
    code counts them, so no fuel is needed.
  \<^item> \<open>Cutover_Outcome\<close>: an attempt that reports success committed the swap it confirmed, and the answer of a whole
    cutover, over retries and lost connections, is the truth about the table.

  \<^bold>\<open>The checkpoint.\<close>
  \<^item> \<open>Checkpoint_Row\<close>: \<open>checkpoint.go\<close>, \<open>load.go\<close>, \<open>shadow_proof.go\<close>, \<open>statement.go\<close>, \<open>errors.go\<close> of \<open>pkg/checkpoint\<close>; the record a
    run resumes from, and how a stored row is judged and decoded. A JSON message is the document it decodes to.
  \<^item> \<open>Checkpoint_Store\<close>: \<open>store.go\<close>, \<open>load.go\<close>, \<open>inspect.go\<close>, \<open>lock.go\<close>, \<open>ensure.go\<close>, \<open>columns.go\<close>. What is saved is loaded; a save or
    delete leaves other runs' rows alone; a run's record is written once; a load never takes a failure for the absence of a
    checkpoint. Reads are retried as often as the options say, so no fuel is needed. Other sessions change the
    database before every statement, except what a lock of the store keeps.
  \<^item> \<open>Checkpoint_Slots\<close>: \<open>slot_lock.go\<close>, \<open>reap.go\<close>, with \<open>slot.go\<close>, \<open>slot_drop.go\<close>, \<open>publication.go\<close>, \<open>server_identity.go\<close> of
    \<open>pkg/decode\<close> and the derived names of \<open>copy_swap_names.go\<close>. The reaper drops orphans only and files every slot it listed;
    a reported drop is a slot gone. That a run claims a slot only under the lock on its name is assumed of other sessions.

  \<^bold>\<open>Planning.\<close>
  \<^item> \<open>Statement_Tree\<close>, \<open>Statement_Ops\<close>, \<open>Statement_Names\<close>: \<open>ops.go\<close>, \<open>statement.go\<close>,
    \<open>rewrite.go\<close> and parts of \<open>implicit.go\<close> of \<open>pkg/statement\<close>, over a parse tree with the
    nodes and fields the sources read. The search for a constraint name takes fuel;
    one more than the number of taken names is shown to be enough.
  \<^item> \<open>Statement_Desired\<close>: \<open>desired.go\<close>, \<open>foreign_key.go\<close>, \<open>implicit.go\<close>; what a desired file must
    be to be admitted, and the names the server gives the objects a file leaves unnamed.
  \<^item> \<open>Schema_Model\<close>, \<open>Schema_Diff\<close>: \<open>schemadiff.go\<close>, \<open>diff.go\<close>, \<open>advisory.go\<close> of \<open>pkg/schemadiff\<close>.
    The difference of two tables is a list of steps with their SQL; a specification of what the
    server makes of each step is run on them, and the result is the desired table, whose
    difference is then empty.
  \<^item> \<open>Planner\<close>: \<open>planner.go\<close>, \<open>destructive.go\<close>. A plan is
    well formed, a type change runs in place only when it is shown to rewrite nothing,
    generated identifiers fit. The locale \<open>plan_source\<close> is what the router relies on.
  \<^item> \<open>Router\<close>: \<open>router.go\<close>; a plan executes exactly when all of it may run, one hazard
    refuses all of it, and the concurrent form of a statement is final.

  \<^bold>\<open>Not modelled.\<close> The catalog queries behind the facts (\<open>pkg/preflight\<close>, the
  introspection of \<open>pkg/schemadiff\<close>), the executors and the orchestration over live connections
  (\<open>pkg/executor\<close>, the build of the shadow and the runner of \<open>pkg/schemachange\<close>, \<open>pkg/migrate\<close>, \<open>pkg/diffplan\<close>),
  the markers in the WAL, the
  rendering of reports (\<open>pkg/plan\<close>, \<open>pkg/verdict\<close>, \<open>pkg/lint\<close>, \<open>pkg/suggest\<close>,
  \<open>pkg/progress\<close>) and the command line. SQL texts are modelled by their effect where
  a property depends on them, and as strings where the planner builds them.
\<close>

end
